(* ===== verification/Styx_Prelude.thy ===== *)
theory Styx_Prelude
  imports Main "HOL-Library.Word"
begin

unbundle bit_operations_syntax

text \<open>
  Shared vocabulary of the StyxOS development: the C integer types as words,
  the wrap-around of \<^verbatim>\<open>uint64_t\<close> arithmetic on natural numbers, the
  first-match scan that most of the kernel's table searches are, little- and
  big-endian byte encodings, and the list and bit lemmas that the component
  theories use.  The collection \<open>frame_simps\<close> holds equations that reduce a
  loop of the code to a library function; \<open>bits\<close> holds the bit-level facts.
\<close>

section \<open>C integer types\<close>

type_synonym u8 = "8 word"
type_synonym u16 = "16 word"
type_synonym u32 = "32 word"
type_synonym u64 = "64 word"

named_theorems frame_simps
named_theorems bits

definition wrap64 :: "nat \<Rightarrow> nat" where
  "wrap64 n = n mod 2 ^ 64"

lemma wrap64_lt [simp]: "wrap64 n < 2 ^ 64"
  by (simp add: wrap64_def)

lemma wrap64_id: "n < 2 ^ 64 \<Longrightarrow> wrap64 n = n"
  by (simp add: wrap64_def)

lemma wrap64_le: "wrap64 n \<le> n"
  by (simp add: wrap64_def)

section \<open>First-match scans\<close>

lemma find_upt_Some_iff:
  "find P [a..<b] = Some f \<longleftrightarrow> a \<le> f \<and> f < b \<and> P f \<and> (\<forall>g. a \<le> g \<and> g < f \<longrightarrow> \<not> P g)"
proof (induction "b - a" arbitrary: a)
  case 0
  then show ?case by simp
next
  case (Suc n)
  then have ab: "a < b" by simp
  have IH: "find P [Suc a..<b] = Some f \<longleftrightarrow>
      Suc a \<le> f \<and> f < b \<and> P f \<and> (\<forall>g. Suc a \<le> g \<and> g < f \<longrightarrow> \<not> P g)"
    using Suc by (intro Suc.hyps(1)) simp
  show ?case
  proof (cases "P a")
    case True
    then show ?thesis using ab by (auto simp: upt_conv_Cons intro: le_neq_implies_less)
  next
    case False
    then have "find P [a..<b] = find P [Suc a..<b]" using ab by (simp add: upt_conv_Cons)
    then show ?thesis using IH False
      by (metis Suc_leD Suc_leI le_neq_implies_less)
  qed
qed

lemma find_upt_None_iff:
  "find P [a..<b] = None \<longleftrightarrow> (\<forall>f. a \<le> f \<and> f < b \<longrightarrow> \<not> P f)"
  by (auto simp: find_None_iff)

lemma find_append: "find P (xs @ ys) = (case find P xs of None \<Rightarrow> find P ys | Some x \<Rightarrow> Some x)"
  by (induction xs) auto

lemma find_cong_set: "(\<And>x. x \<in> set xs \<Longrightarrow> P x = Q x) \<Longrightarrow> find P xs = find Q xs"
  by (induction xs) auto

lemma div_mod_ext: "f div n = g div n \<Longrightarrow> f mod n = g mod n \<Longrightarrow> f = g" for f g n :: nat
  by (metis div_mult_mod_eq)

lemma div_block: "n * k \<le> x \<Longrightarrow> x < n * k + n \<Longrightarrow> x div n = k" for n k x :: nat
  by (rule div_nat_eqI) simp_all

section \<open>Bits of machine words\<close>

lemma test_bit_mask [bits]: "(w AND 2 ^ k = 0) = (\<not> bit w k)" for w :: "'a::len word"
  by (simp add: bit_iff_and_push_bit_not_eq_0)

lemma bit_set_mask [bits]:
  "bit (w OR 2 ^ k) n = (bit w n \<or> (n = k \<and> n < LENGTH('a)))" for w :: "'a::len word"
  by (auto simp: bit_or_iff bit_exp_iff possible_bit_word)

lemma bit_clear_mask [bits]:
  "bit (w AND NOT (2 ^ k)) n = (bit w n \<and> n \<noteq> k)" for w :: "'a::len word"
  by (auto simp: bit_and_iff bit_not_iff bit_exp_iff possible_bit_word dest: bit_imp_le_length)

lemma set_clear_mask [bits]: "\<not> bit w k \<Longrightarrow> (w OR 2 ^ k) AND NOT (2 ^ k) = w" for w :: "'a::len word"
  by (rule bit_word_eqI) (auto simp: bit_set_mask bit_clear_mask)

lemma clear_set_mask [bits]: "bit w k \<Longrightarrow> (w AND NOT (2 ^ k)) OR 2 ^ k = w" for w :: "'a::len word"
  by (rule bit_word_eqI) (auto simp: bit_set_mask bit_clear_mask)

lemma word_lt_inc: "n \<noteq> - 1 \<Longrightarrow> x \<le> n \<Longrightarrow> x < n + 1" for n x :: "'a::len word"
  by (simp add: inc_less_eq_iff not_less flip: not_le)

lemma u8_full_iff [bits]: "(w = 0xFF) = (\<forall>k<8. bit w k)" for w :: u8
proof -
  have full: "(0xFF :: u8) = - 1" by simp
  show ?thesis unfolding full by (auto intro!: bit_word_eqI)
qed

section \<open>Byte encodings of words\<close>

text \<open>The little-endian memory image of an integer, and the integer a memory image stands for.\<close>

definition le_bytes :: "nat \<Rightarrow> 'a::len word \<Rightarrow> u8 list" where
  "le_bytes n w = map (\<lambda>i. ucast (drop_bit (8 * i) w)) [0..<n]"

fun le_word :: "u8 list \<Rightarrow> 'a::len word" where
  "le_word [] = 0"
| "le_word (b # bs) = ucast b OR push_bit 8 (le_word bs)"

definition be_bytes :: "nat \<Rightarrow> 'a::len word \<Rightarrow> u8 list" where
  "be_bytes n w = rev (le_bytes n w)"

definition be_word :: "u8 list \<Rightarrow> 'a::len word" where
  "be_word bs = le_word (rev bs)"

lemma length_le_bytes [simp]: "length (le_bytes n w) = n"
  by (simp add: le_bytes_def)

lemma length_be_bytes [simp]: "length (be_bytes n w) = n"
  by (simp add: be_bytes_def)

lemma le_bytes_nth: "i < n \<Longrightarrow> le_bytes n w ! i = ucast (drop_bit (8 * i) w)"
  by (simp add: le_bytes_def)

lemma bit_le_word:
  "bit (le_word bs :: 'a::len word) k \<longleftrightarrow> k < LENGTH('a) \<and> k div 8 < length bs \<and> bit (bs ! (k div 8)) (k mod 8)"
proof (induction bs arbitrary: k)
  case Nil
  then show ?case by simp
next
  case (Cons b bs)
  have b8: "bit b j \<Longrightarrow> j < 8" for j using bit_imp_le_length[of b j] by simp
  show ?case
  proof (cases "k < 8")
    case True
    then show ?thesis by (auto simp: bit_or_iff bit_push_bit_iff bit_ucast_iff)
  next
    case False
    then have "k div 8 = Suc ((k - 8) div 8)" "(k - 8) mod 8 = k mod 8" by (simp_all add: le_div_geq le_mod_geq)
    then show ?thesis using False Cons.IH[of "k - 8"] b8[of k]
      by (auto simp: bit_or_iff bit_push_bit_iff bit_ucast_iff)
  qed
qed

lemma le_word_bytes: "LENGTH('a) \<le> 8 * n \<Longrightarrow> le_word (le_bytes n w) = w" for w :: "'a::len word"
proof (rule bit_word_eqI)
  fix k assume n: "LENGTH('a) \<le> 8 * n" and k: "k < LENGTH('a)"
  then have "k div 8 < n" by (simp add: less_mult_imp_div_less)
  then show "bit (le_word (le_bytes n w) :: 'a word) k = bit w k"
    using k by (simp add: bit_le_word le_bytes_nth bit_ucast_iff bit_drop_bit_eq)
qed

lemma le_bytes_word:
  assumes "length bs = n" "8 * n \<le> LENGTH('a)"
  shows "le_bytes n (le_word bs :: 'a::len word) = bs"
proof (rule nth_equalityI)
  fix i assume "i < length (le_bytes n (le_word bs :: 'a word))"
  then have i: "i < n" by simp
  show "le_bytes n (le_word bs :: 'a word) ! i = bs ! i"
  proof (rule bit_word_eqI)
    fix k assume "k < LENGTH(8)"
    then have k: "k < 8" by simp
    then have "8 * i + k < 8 * n" using i by linarith
    then have "8 * i + k < LENGTH('a)" using assms(2) by linarith
    then show "bit (le_bytes n (le_word bs :: 'a word) ! i) k = bit (bs ! i) k"
      using i k assms(1) by (simp add: le_bytes_nth bit_ucast_iff bit_drop_bit_eq bit_le_word)
  qed
qed (use assms in simp)

lemma be_word_bytes: "LENGTH('a) \<le> 8 * n \<Longrightarrow> be_word (be_bytes n w) = w" for w :: "'a::len word"
  by (simp add: be_word_def be_bytes_def le_word_bytes)

lemma be_bytes_word: "length bs = n \<Longrightarrow> 8 * n \<le> LENGTH('a) \<Longrightarrow> be_bytes n (be_word bs :: 'a::len word) = bs"
  by (simp add: be_word_def be_bytes_def le_bytes_word)

section \<open>Block copies\<close>

text \<open>The effect of the copy and fill loops on a buffer.\<close>

lemma fold_copy:
  "n \<le> length bs \<Longrightarrow> k + n \<le> length buf \<Longrightarrow>
     fold (\<lambda>i b. b[k + i := bs ! i]) [0..<n] buf = take k buf @ take n bs @ drop (k + n) buf"
proof (induction n)
  case (Suc n)
  have d: "drop (k + n) buf = buf ! (k + n) # drop (Suc (k + n)) buf" using Suc.prems by (simp add: Cons_nth_drop_Suc)
  have "fold (\<lambda>i b. b[k + i := bs ! i]) [0..<Suc n] buf = (take k buf @ take n bs @ drop (k + n) buf)[k + n := bs ! n]"
    using Suc by simp
  also have "\<dots> = take k buf @ take n bs @ (drop (k + n) buf)[0 := bs ! n]"
    using Suc.prems by (simp add: list_update_append)
  also have "\<dots> = take k buf @ take (Suc n) bs @ drop (k + Suc n) buf"
    using Suc.prems by (simp add: d take_Suc_conv_app_nth)
  finally show ?case .
qed simp

lemma fold_fill:
  "i \<le> j \<Longrightarrow> j \<le> length buf \<Longrightarrow>
     fold (\<lambda>n b. b[n := v]) [i..<j] buf = take i buf @ replicate (j - i) v @ drop j buf"
proof (induction j)
  case (Suc j)
  show ?case
  proof (cases "i \<le> j")
    case True
    have d: "drop j buf = buf ! j # drop (Suc j) buf" using Suc.prems by (simp add: Cons_nth_drop_Suc)
    have "fold (\<lambda>n b. b[n := v]) [i..<Suc j] buf = (take i buf @ replicate (j - i) v @ drop j buf)[j := v]"
      using Suc True by simp
    also have "\<dots> = take i buf @ replicate (j - i) v @ (drop j buf)[0 := v]"
      using Suc.prems True by (simp add: list_update_append)
    also have "\<dots> = take i buf @ replicate (Suc j - i) v @ drop (Suc j) buf"
      using True by (simp add: d Suc_diff_le replicate_app_Cons_same)
    finally show ?thesis .
  next
    case False
    then have "i = Suc j" using Suc.prems by simp
    then show ?thesis by simp
  qed
qed simp

section \<open>Stores into a buffer\<close>

text \<open>A store through an index: past the end of the buffer it writes what follows the buffer, which shows as a longer list, so that a
  buffer keeps its length only if every store is inside.\<close>

definition store_at :: "nat \<Rightarrow> u8 \<Rightarrow> u8 list \<Rightarrow> u8 list" where
  "store_at n b r = (if n < length r then r[n := b] else r @ replicate (n - length r) 0 @ [b])"

lemma store_at_inside: "n < length r \<Longrightarrow> store_at n b r = r[n := b]"
  by (simp add: store_at_def)

section \<open>Exclusive or of byte strings\<close>

definition xor_bytes :: "u8 list \<Rightarrow> u8 list \<Rightarrow> u8 list" where
  "xor_bytes xs ys = map2 (XOR) xs ys"

lemma length_xor_bytes [simp]: "length (xor_bytes xs ys) = min (length xs) (length ys)"
  by (simp add: xor_bytes_def)

lemma xor_bytes_cancel: "length xs \<le> length ys \<Longrightarrow> xor_bytes (xor_bytes xs ys) ys = xs"
  by (rule nth_equalityI) (auto simp: xor_bytes_def xor.assoc)

lemma xor_bytes_Nil [simp]: "xor_bytes [] ys = []"
  by (simp add: xor_bytes_def)

section \<open>Ciphers that add a keystream\<close>

text \<open>
  A cipher \<open>f\<close> that processes a buffer in chunks of \<open>n\<close> bytes, adding to each
  chunk the keystream block that \<open>ks\<close> produces from the running state: running it
  twice from the same state gives back the buffer.
\<close>

locale keystream_cipher =
  fixes n :: nat and ks :: "'s \<Rightarrow> u8 list" and nxt :: "'s \<Rightarrow> 's" and f :: "'s \<Rightarrow> u8 list \<Rightarrow> u8 list"
  assumes n_pos: "0 < n"
    and length_ks: "length (ks s) = n"
    and f_Nil: "f s [] = []"
    and f_chunk: "buf \<noteq> [] \<Longrightarrow> f s buf = xor_bytes (take n buf) (ks s) @ f (nxt s) (drop n buf)"
begin

lemma length_f: "length (f s buf) = length buf"
proof (induction "length buf" arbitrary: s buf rule: less_induct)
  case less
  show ?case
  proof (cases "buf = []")
    case False
    then have "length (drop n buf) < length buf" using n_pos by simp
    then show ?thesis using less[of "drop n buf" "nxt s"] False by (simp add: f_chunk length_ks)
  qed (simp add: f_Nil)
qed

lemma f_involution: "f s (f s buf) = buf"
proof (induction "length buf" arbitrary: s buf rule: less_induct)
  case less
  show ?case
  proof (cases "buf = []")
    case False
    let ?x = "xor_bytes (take n buf) (ks s)" and ?r = "f (nxt s) (drop n buf)"
    have lx: "length ?x = min (length buf) n" by (simp add: length_ks)
    have ne: "?x @ ?r \<noteq> []" using False n_pos lx by (metis append_is_Nil_conv length_0_conv length_greater_0_conv min_less_iff_conj)
    have d: "take n (?x @ ?r) = ?x" "drop n (?x @ ?r) = ?r"
      using lx length_f[of "nxt s" "drop n buf"] by (auto simp: min_def)
    have "length (drop n buf) < length buf" using n_pos False by simp
    then have IH: "f (nxt s) ?r = drop n buf" by (rule less)
    have "f s (f s buf) = f s (?x @ ?r)" using False by (simp add: f_chunk)
    also have "\<dots> = xor_bytes ?x (ks s) @ f (nxt s) ?r" by (simp only: f_chunk[OF ne] d)
    also have "\<dots> = take n buf @ drop n buf" by (simp add: IH xor_bytes_cancel length_ks)
    finally show ?thesis by simp
  qed (simp add: f_Nil)
qed

end

end
