(* ===== verification/Pmm.thy ===== *)
theory Pmm
  imports Styx_Prelude
begin

unbundle bit_operations_syntax

text \<open>
  The physical memory manager, \<^verbatim>\<open>src/kernel/pmm.c\<close>: a bitmap with one bit per
  4 KiB frame (1 = used).  The static variables of the file are the fields of
  \<open>pmm_state\<close>; \<^verbatim>\<open>uint64_t\<close> values are naturals below \<open>2 ^ 64\<close>, with
  \<open>wrap64\<close> at every addition that can overflow.  \<^verbatim>\<open>pmm_panic\<close> halts the machine:
  an operation that reaches it returns \<open>Inl\<close> with the reason.
\<close>

section \<open>State\<close>

abbreviation PAGE_SIZE :: nat where
  "PAGE_SIZE \<equiv> 4096"

datatype pmm_panic = No_usable_memory | No_room_for_bitmap | Unaligned_free | Out_of_range_free | Double_free

record memmap_entry =
  me_base :: nat
  me_length :: nat
  me_type :: nat

definition me_usable :: "memmap_entry \<Rightarrow> bool" where
  "me_usable e \<longleftrightarrow> me_type e = 0"

record pmm_state =
  bitmap :: "u8 list"
  total_frames :: nat
  bitmap_size :: nat
  bitmap_phys_addr :: nat
  total_usable_memory :: nat
  free_memory :: nat

definition frame_used :: "u8 list \<Rightarrow> nat \<Rightarrow> bool" where
  "frame_used bm f = (bm ! (f div 8) AND push_bit (f mod 8) 1 \<noteq> 0)"

definition mark_used :: "nat \<Rightarrow> u8 list \<Rightarrow> u8 list" where
  "mark_used f bm = bm[f div 8 := bm ! (f div 8) OR push_bit (f mod 8) 1]"

definition mark_free :: "nat \<Rightarrow> u8 list \<Rightarrow> u8 list" where
  "mark_free f bm = bm[f div 8 := bm ! (f div 8) AND NOT (push_bit (f mod 8) 1)]"

section \<open>Allocation and release\<close>

fun pmm_scan_bits :: "u8 \<Rightarrow> nat \<Rightarrow> nat \<Rightarrow> nat list \<Rightarrow> nat option option" where
  "pmm_scan_bits b i tf [] = None"
| "pmm_scan_bits b i tf (k # ks) =
     (let f = i * 8 + k in
      if f \<ge> tf then Some None
      else if b AND push_bit k 1 = 0 then Some (Some f)
      else pmm_scan_bits b i tf ks)"

fun pmm_scan :: "u8 list \<Rightarrow> nat \<Rightarrow> nat list \<Rightarrow> nat option" where
  "pmm_scan bm tf [] = None"
| "pmm_scan bm tf (i # is) =
     (if bm ! i \<noteq> 0xFF
      then (case pmm_scan_bits (bm ! i) i tf [0..<8] of None \<Rightarrow> pmm_scan bm tf is | Some r \<Rightarrow> r)
      else pmm_scan bm tf is)"

definition pmm_alloc_frame :: "pmm_state \<Rightarrow> nat \<times> pmm_state" where
  "pmm_alloc_frame s =
     (case pmm_scan (bitmap s) (total_frames s) [0..<bitmap_size s] of
        None \<Rightarrow> (0, s)
      | Some f \<Rightarrow>
          (f * PAGE_SIZE,
           s\<lparr>bitmap := mark_used f (bitmap s),
             free_memory := (if free_memory s \<ge> PAGE_SIZE then free_memory s - PAGE_SIZE else 0)\<rparr>))"

definition pmm_free_frame :: "nat \<Rightarrow> pmm_state \<Rightarrow> pmm_panic + pmm_state" where
  "pmm_free_frame addr s =
     (if addr mod PAGE_SIZE \<noteq> 0 then Inl Unaligned_free
      else
        let f = addr div PAGE_SIZE in
        if f \<ge> total_frames s then Inl Out_of_range_free
        else if \<not> frame_used (bitmap s) f then Inl Double_free
        else Inr (s\<lparr>bitmap := mark_free f (bitmap s),
                    free_memory := wrap64 (free_memory s + PAGE_SIZE)\<rparr>))"

definition pmm_get_total_memory :: "pmm_state \<Rightarrow> nat" where
  "pmm_get_total_memory s = total_usable_memory s"

definition pmm_get_free_memory :: "pmm_state \<Rightarrow> nat" where
  "pmm_get_free_memory s = free_memory s"

section \<open>Initialisation from the boot memory map\<close>

definition pmm_measure :: "memmap_entry list \<Rightarrow> nat \<times> nat" where
  "pmm_measure mm = foldl (\<lambda>(total, mx) e.
     if me_usable e then
       let end_addr = wrap64 (me_base e + me_length e) in
       (wrap64 (total + me_length e), if end_addr > mx then end_addr else mx)
     else (total, mx)) (0, 0) mm"

definition align_page_up :: "nat \<Rightarrow> nat" where
  "align_page_up a = wrap64 (a + PAGE_SIZE - 1) div PAGE_SIZE * PAGE_SIZE"

fun pmm_place_bitmap :: "nat \<Rightarrow> memmap_entry list \<Rightarrow> nat option" where
  "pmm_place_bitmap sz [] = None"
| "pmm_place_bitmap sz (e # es) =
     (let aligned_base = align_page_up (me_base e); end_addr = wrap64 (me_base e + me_length e) in
      if me_usable e \<and> end_addr \<ge> aligned_base \<and> end_addr - aligned_base \<ge> sz
      then Some aligned_base else pmm_place_bitmap sz es)"

definition pmm_mark_range :: "(nat \<Rightarrow> u8 list \<Rightarrow> u8 list) \<Rightarrow> nat \<Rightarrow> nat \<Rightarrow> nat \<Rightarrow> u8 list \<Rightarrow> u8 list" where
  "pmm_mark_range mark tf start_frame end_frame bm =
     fold (\<lambda>f bm. if f < tf then mark f bm else bm) [start_frame..<end_frame] bm"

definition pmm_free_usable :: "nat \<Rightarrow> memmap_entry list \<Rightarrow> u8 list \<Rightarrow> u8 list" where
  "pmm_free_usable tf mm bm = fold (\<lambda>e bm.
     if me_usable e then
       pmm_mark_range mark_free tf (wrap64 (me_base e + PAGE_SIZE - 1) div PAGE_SIZE)
         (wrap64 (me_base e + me_length e) div PAGE_SIZE) bm
     else bm) mm bm"

definition pmm_init :: "memmap_entry list \<Rightarrow> pmm_panic + pmm_state" where
  "pmm_init mm =
     (let (total, max_usable_addr) = pmm_measure mm in
      if max_usable_addr = 0 then Inl No_usable_memory
      else
        let tf = max_usable_addr div PAGE_SIZE; sz = (tf + 7) div 8 in
        case pmm_place_bitmap sz mm of
          None \<Rightarrow> Inl No_room_for_bitmap
        | Some bpa \<Rightarrow>
            let bm0 = replicate sz 0xFF;
                bm1 = pmm_free_usable tf mm bm0;
                bm2 = pmm_mark_range mark_used tf (bpa div PAGE_SIZE)
                        (wrap64 (bpa + sz + PAGE_SIZE - 1) div PAGE_SIZE) bm1;
                bm3 = bm2[0 := bm2 ! 0 OR 1];
                free_count = length (filter (\<lambda>f. \<not> frame_used bm3 f) [0..<tf])
            in Inr \<lparr>bitmap = bm3, total_frames = tf, bitmap_size = sz, bitmap_phys_addr = bpa,
                    total_usable_memory = total, free_memory = wrap64 (free_count * PAGE_SIZE)\<rparr>)"

section \<open>Bitmap lemmas\<close>

abbreviation frame_free :: "u8 list \<Rightarrow> nat \<Rightarrow> bool" where
  "frame_free bm f \<equiv> \<not> frame_used bm f"

lemma frame_used_bit: "frame_used bm f = bit (bm ! (f div 8)) (f mod 8)"
  by (simp add: frame_used_def bits)

lemma length_mark [simp]: "length (mark_used f bm) = length bm" "length (mark_free f bm) = length bm"
  by (simp_all add: mark_used_def mark_free_def)

lemma frame_used_mark_used:
  "f div 8 < length bm \<Longrightarrow> frame_used (mark_used f bm) g = (g = f \<or> frame_used bm g)"
  by (cases "g div 8 = f div 8")
     (auto simp: frame_used_bit mark_used_def bits nth_list_update dest: div_mod_ext)

lemma frame_used_mark_free:
  "f div 8 < length bm \<Longrightarrow> frame_used (mark_free f bm) g = (g \<noteq> f \<and> frame_used bm g)"
  by (cases "g div 8 = f div 8")
     (auto simp: frame_used_bit mark_free_def bits nth_list_update dest: div_mod_ext)

lemma pmm_scan_bits_find:
  assumes "j \<le> 8"
  shows "pmm_scan_bits b i tf [j..<8] =
    (case find (\<lambda>f. \<not> bit b (f mod 8)) [8 * i + j..<min tf (8 * i + 8)] of
       Some f \<Rightarrow> Some (Some f)
     | None \<Rightarrow> if tf < 8 * i + 8 \<and> j < 8 then Some None else None)"
  using assms
proof (induction "8 - j" arbitrary: j)
  case 0
  then show ?case by simp
next
  case (Suc n)
  then have j: "j < 8" by simp
  then have md: "(8 * i + j) mod 8 = j" by simp
  have IH: "pmm_scan_bits b i tf [Suc j..<8] =
    (case find (\<lambda>f. \<not> bit b (f mod 8)) [8 * i + Suc j..<min tf (8 * i + 8)] of
       Some f \<Rightarrow> Some (Some f)
     | None \<Rightarrow> if tf < 8 * i + 8 \<and> Suc j < 8 then Some None else None)"
    using Suc j by (intro Suc.hyps(1)) simp_all
  show ?case
  proof (cases "8 * i + j < tf")
    case False
    then show ?thesis using j by (simp add: upt_conv_Cons Let_def mult.commute)
  next
    case True
    then have up: "[8 * i + j..<min tf (8 * i + 8)] = (8 * i + j) # [8 * i + Suc j..<min tf (8 * i + 8)]"
      using j by (simp add: upt_conv_Cons)
    have "j = 7 \<Longrightarrow> \<not> tf < 8 * i + 8" using True by simp
    then show ?thesis unfolding up using True j IH md
      by (auto simp: upt_conv_Cons[OF j] Let_def mult.commute bits split: option.splits)
  qed
qed

lemma pmm_scan_from:
  assumes "k \<le> n" and "tf \<le> 8 * n"
  shows "pmm_scan bm tf [k..<n] = find (frame_free bm) [8 * k..<tf]"
  using assms(1)
proof (induction "n - k" arbitrary: k)
  case 0
  then show ?case using assms(2) by simp
next
  case (Suc m)
  then have k: "k < n" by simp
  have IH: "pmm_scan bm tf [Suc k..<n] = find (frame_free bm) [8 * k + 8..<tf]"
    using Suc k by (simp add: algebra_simps)
  have blk: "find (\<lambda>f. \<not> bit (bm ! k) (f mod 8)) [8 * k..<min tf (8 * k + 8)] =
        find (frame_free bm) [8 * k..<min tf (8 * k + 8)]"
    by (rule find_cong_set) (auto simp: frame_used_bit div_block)
  have full: "find (frame_free bm) [8 * k..<min tf (8 * k + 8)] = None" if "bm ! k = 0xFF"
    using that by (auto simp: find_upt_None_iff frame_used_bit bits div_block)
  have split: "find (frame_free bm) [8 * k..<tf] =
        (case find (frame_free bm) [8 * k..<min tf (8 * k + 8)] of
           None \<Rightarrow> find (frame_free bm) [8 * k + 8..<tf] | Some f \<Rightarrow> Some f)"
  proof (cases "8 * k + 8 \<le> tf")
    case True
    then have "[8 * k..<tf] = [8 * k..<8 * k + 8] @ [8 * k + 8..<tf]"
      by (metis le_add1 le_add_diff_inverse upt_add_eq_append)
    then show ?thesis using True by (simp add: find_append min_def)
  qed (simp split: option.splits)
  show ?case
    unfolding upt_conv_Cons[OF k] split using IH blk full
    by (auto simp: pmm_scan_bits_find split: option.splits)
qed

text \<open>The two nested loops of the allocator are a first-fit search over all tracked frames.\<close>

lemma pmm_scan_first_fit:
  "tf \<le> 8 * n \<Longrightarrow> pmm_scan bm tf [0..<n] = find (frame_free bm) [0..<tf]"
  using pmm_scan_from[of 0 n tf bm] by simp

section \<open>Invariant and abstract view\<close>

definition avail_frames :: "pmm_state \<Rightarrow> nat set" where
  "avail_frames s = {f. f < total_frames s \<and> frame_free (bitmap s) f}"

definition avail_addrs :: "pmm_state \<Rightarrow> nat set" where
  "avail_addrs s = (\<lambda>f. f * PAGE_SIZE) ` avail_frames s"

definition pmm_inv :: "pmm_state \<Rightarrow> bool" where
  "pmm_inv s \<longleftrightarrow>
     length (bitmap s) = bitmap_size s \<and> bitmap_size s = (total_frames s + 7) div 8 \<and>
     0 < total_frames s \<and> total_frames s * PAGE_SIZE \<le> 2 ^ 64 \<and>
     frame_used (bitmap s) 0 \<and> free_memory s = card (avail_frames s) * PAGE_SIZE"

lemma finite_avail [simp]: "finite (avail_frames s)"
  by (simp add: avail_frames_def)

lemma avail_addrs_iff: "a \<in> avail_addrs s \<longleftrightarrow> a mod PAGE_SIZE = 0 \<and> a div PAGE_SIZE \<in> avail_frames s"
  by (auto simp: avail_addrs_def image_iff)

lemma pmm_inv_byte: "pmm_inv s \<Longrightarrow> f < total_frames s \<Longrightarrow> f div 8 < length (bitmap s)"
  by (auto simp: pmm_inv_def)

lemma find_Min:
  "find P [0..<n] = (if {f. f < n \<and> P f} = {} then None else Some (Min {f. f < n \<and> P f}))" for n :: nat
proof (cases "find P [0..<n]")
  case None
  then show ?thesis by (auto simp: find_upt_None_iff)
next
  case (Some f)
  then have "Min {f. f < n \<and> P f} = f"
    by (intro Min_eqI) (auto simp: find_upt_Some_iff not_less[symmetric])
  then show ?thesis using Some by (auto simp: find_upt_Some_iff)
qed

lemma pmm_scan_Min:
  assumes "pmm_inv s"
  shows "pmm_scan (bitmap s) (total_frames s) [0..<bitmap_size s] =
    (if avail_frames s = {} then None else Some (Min (avail_frames s)))"
proof -
  have "total_frames s \<le> 8 * bitmap_size s" using assms by (auto simp: pmm_inv_def)
  then show ?thesis by (simp add: pmm_scan_first_fit find_Min avail_frames_def)
qed

lemma avail_alloc:
  "pmm_inv s \<Longrightarrow> f \<in> avail_frames s \<Longrightarrow>
    avail_frames (s\<lparr>bitmap := mark_used f (bitmap s), free_memory := m\<rparr>) = avail_frames s - {f}"
  using pmm_inv_byte by (auto simp: avail_frames_def frame_used_mark_used)

lemma avail_free:
  "pmm_inv s \<Longrightarrow> f < total_frames s \<Longrightarrow>
    avail_frames (s\<lparr>bitmap := mark_free f (bitmap s), free_memory := m\<rparr>) = insert f (avail_frames s)"
  using pmm_inv_byte by (auto simp: avail_frames_def frame_used_mark_free)

lemma card_avail_le: "pmm_inv s \<Longrightarrow> card (avail_frames s) < total_frames s"
proof -
  assume "pmm_inv s"
  then have "avail_frames s \<subseteq> {1..<total_frames s}" "0 < total_frames s"
    by (auto simp: avail_frames_def pmm_inv_def intro!: Suc_leI gr0I)
  then show ?thesis using card_mono[of "{1..<total_frames s}" "avail_frames s"] by simp
qed

lemma pmm_alloc_frame_full:
  "pmm_inv s \<Longrightarrow> avail_frames s = {} \<Longrightarrow> pmm_alloc_frame s = (0, s)"
  by (simp add: pmm_alloc_frame_def pmm_scan_Min)

lemma pmm_alloc_frame_some:
  assumes inv: "pmm_inv s" and ne: "avail_frames s \<noteq> {}"
  defines "f \<equiv> Min (avail_frames s)"
  shows "pmm_alloc_frame s =
    (f * PAGE_SIZE, s\<lparr>bitmap := mark_used f (bitmap s), free_memory := free_memory s - PAGE_SIZE\<rparr>)"
proof -
  have "card (avail_frames s) > 0" using ne by (simp add: card_gt_0_iff)
  then have "PAGE_SIZE \<le> free_memory s" using inv by (simp add: pmm_inv_def)
  then show ?thesis using inv ne by (simp add: pmm_alloc_frame_def pmm_scan_Min f_def)
qed

lemma pmm_inv_alloc:
  assumes inv: "pmm_inv s" and f: "f \<in> avail_frames s"
  shows "pmm_inv (s\<lparr>bitmap := mark_used f (bitmap s), free_memory := free_memory s - PAGE_SIZE\<rparr>)"
proof -
  have "frame_used (mark_used f (bitmap s)) 0"
    using inv f pmm_inv_byte[OF inv] by (simp add: frame_used_mark_used pmm_inv_def avail_frames_def)
  then show ?thesis
    using inv avail_alloc[OF inv f, of "free_memory s - PAGE_SIZE"] f
    by (simp add: pmm_inv_def diff_mult_distrib)
qed

lemma pmm_inv_alloc_frame: "pmm_inv s \<Longrightarrow> pmm_inv (snd (pmm_alloc_frame s))"
  by (cases "avail_frames s = {}") (simp_all add: pmm_alloc_frame_full pmm_alloc_frame_some pmm_inv_alloc)

lemma pmm_inv_free:
  assumes inv: "pmm_inv s" and f: "f < total_frames s" "frame_used (bitmap s) f" "f \<noteq> 0"
  shows "pmm_inv (s\<lparr>bitmap := mark_free f (bitmap s), free_memory := wrap64 (free_memory s + PAGE_SIZE)\<rparr>)"
proof -
  have nin: "f \<notin> avail_frames s" using f by (simp add: avail_frames_def)
  have "(card (avail_frames s) + 1) * PAGE_SIZE < 2 ^ 64"
  proof -
    have "avail_frames s \<subseteq> {1..<total_frames s} - {f}"
      using inv f by (auto simp: avail_frames_def pmm_inv_def intro!: Suc_leI gr0I)
    then have "card (avail_frames s) \<le> card ({1..<total_frames s} - {f})" by (intro card_mono) auto
    also have "\<dots> = total_frames s - 2" using f by (subst card_Diff_singleton) auto
    finally have "card (avail_frames s) + 1 < total_frames s" using f by linarith
    then show ?thesis using inv by (auto simp: pmm_inv_def)
  qed
  then have "wrap64 (free_memory s + PAGE_SIZE) = card (insert f (avail_frames s)) * PAGE_SIZE"
    using inv nin by (simp add: pmm_inv_def wrap64_id)
  moreover have "frame_used (mark_free f (bitmap s)) 0"
    using inv f pmm_inv_byte[OF inv] by (simp add: frame_used_mark_free pmm_inv_def)
  ultimately show ?thesis using inv avail_free[OF inv f(1)] by (simp add: pmm_inv_def)
qed

section \<open>Initialisation establishes the invariant\<close>

text \<open>Physical addresses have at most 52 bits, so no usable entry reaches the end of the 64-bit space.\<close>

definition memmap_ok :: "memmap_entry list \<Rightarrow> bool" where
  "memmap_ok mm = list_all (\<lambda>e. me_usable e \<longrightarrow> me_base e + me_length e + PAGE_SIZE \<le> 2 ^ 64) mm"

definition usable_frame :: "memmap_entry list \<Rightarrow> nat \<Rightarrow> bool" where
  "usable_frame mm f =
     list_ex (\<lambda>e. me_usable e \<and> me_base e \<le> f * PAGE_SIZE \<and> (f + 1) * PAGE_SIZE \<le> me_base e + me_length e) mm"

lemma fold_mark_free:
  "tf \<le> 8 * length bm \<Longrightarrow>
    length (fold (\<lambda>f bm. if f < tf then mark_free f bm else bm) fs bm) = length bm \<and>
    frame_used (fold (\<lambda>f bm. if f < tf then mark_free f bm else bm) fs bm) g =
      (frame_used bm g \<and> \<not> (g \<in> set fs \<and> g < tf))"
  by (induction fs arbitrary: bm) (auto simp: frame_used_mark_free)

lemma fold_mark_used:
  "tf \<le> 8 * length bm \<Longrightarrow>
    length (fold (\<lambda>f bm. if f < tf then mark_used f bm else bm) fs bm) = length bm \<and>
    frame_used (fold (\<lambda>f bm. if f < tf then mark_used f bm else bm) fs bm) g =
      (frame_used bm g \<or> g \<in> set fs \<and> g < tf)"
  by (induction fs arbitrary: bm) (auto simp: frame_used_mark_used)

lemma length_pmm_mark_range [simp]:
  "tf \<le> 8 * length bm \<Longrightarrow> length (pmm_mark_range mark_free tf a b bm) = length bm"
  "tf \<le> 8 * length bm \<Longrightarrow> length (pmm_mark_range mark_used tf a b bm) = length bm"
  using fold_mark_free fold_mark_used by (auto simp: pmm_mark_range_def)

lemma frame_used_pmm_mark_range:
  "tf \<le> 8 * length bm \<Longrightarrow>
     frame_used (pmm_mark_range mark_free tf a b bm) g = (frame_used bm g \<and> \<not> (a \<le> g \<and> g < b \<and> g < tf))"
  "tf \<le> 8 * length bm \<Longrightarrow>
     frame_used (pmm_mark_range mark_used tf a b bm) g = (frame_used bm g \<or> (a \<le> g \<and> g < b \<and> g < tf))"
  using fold_mark_free[of tf bm "[a..<b]" g] fold_mark_used[of tf bm "[a..<b]" g]
  by (auto simp: pmm_mark_range_def)

lemma frame_bounds:
  "(4095 + a) div PAGE_SIZE \<le> f \<longleftrightarrow> a \<le> f * PAGE_SIZE"
  "f < b div PAGE_SIZE \<longleftrightarrow> (f + 1) * PAGE_SIZE \<le> b" for a b f :: nat
  by (linarith, simp add: Suc_le_eq[symmetric] less_eq_div_iff_mult_less_eq)

lemma pmm_free_usable_spec:
  "memmap_ok mm \<Longrightarrow> tf \<le> 8 * length bm \<Longrightarrow>
    length (pmm_free_usable tf mm bm) = length bm \<and>
    frame_used (pmm_free_usable tf mm bm) g = (frame_used bm g \<and> \<not> (usable_frame mm g \<and> g < tf))"
proof (induction mm arbitrary: bm)
  case Nil
  then show ?case by (simp add: pmm_free_usable_def usable_frame_def)
next
  case (Cons e mm)
  define bm' where "bm' = (if me_usable e then
       pmm_mark_range mark_free tf ((me_base e + PAGE_SIZE - 1) div PAGE_SIZE)
         ((me_base e + me_length e) div PAGE_SIZE) bm else bm)"
  have step: "pmm_free_usable tf (e # mm) bm = pmm_free_usable tf mm bm'"
    using Cons.prems(1) by (auto simp: pmm_free_usable_def bm'_def memmap_ok_def wrap64_id)
  have len: "length bm' = length bm" using Cons.prems(2) by (simp add: bm'_def)
  have "frame_used bm' g = (frame_used bm g \<and>
      \<not> (me_usable e \<and> me_base e \<le> g * PAGE_SIZE \<and> (g + 1) * PAGE_SIZE \<le> me_base e + me_length e \<and> g < tf))"
    using Cons.prems(2) by (simp add: bm'_def frame_used_pmm_mark_range frame_bounds add.commute[of _ 4095])
  then show ?case
    using Cons.IH[of bm'] Cons.prems len unfolding step by (auto simp: memmap_ok_def usable_frame_def)
qed

lemma pmm_place_bitmap_Some:
  assumes "pmm_place_bitmap sz mm = Some bpa" "memmap_ok mm"
  shows "bpa mod PAGE_SIZE = 0 \<and> bpa + sz + PAGE_SIZE \<le> 2 ^ 64 \<and>
    (\<exists>e\<in>set mm. me_usable e \<and> me_base e \<le> bpa \<and> bpa + sz \<le> me_base e + me_length e)"
  using assms
proof (induction sz mm rule: pmm_place_bitmap.induct)
  case (1 sz)
  then show ?case by simp
next
  case (2 sz e es)
  let ?a = "align_page_up (me_base e)" and ?fin = "wrap64 (me_base e + me_length e)"
  show ?case
  proof (cases "me_usable e \<and> ?fin \<ge> ?a \<and> ?fin - ?a \<ge> sz")
    case False
    then have "pmm_place_bitmap sz es = Some bpa" "memmap_ok es"
      using "2.prems" by (auto simp: memmap_ok_def Let_def)
    then show ?thesis using "2.IH" False by (auto simp: Let_def)
  next
    case True
    then have u: "me_usable e" and b: "bpa = ?a" and fits: "bpa \<le> ?fin" "sz \<le> ?fin - bpa"
      using "2.prems" by (auto simp: Let_def)
    have "me_base e + me_length e + PAGE_SIZE \<le> 2 ^ 64" using "2.prems"(2) u by (simp add: memmap_ok_def)
    then have w: "?fin = me_base e + me_length e" "bpa = (4095 + me_base e) div PAGE_SIZE * PAGE_SIZE"
      and top: "me_base e + me_length e + PAGE_SIZE \<le> 2 ^ 64"
      by (simp_all add: wrap64_id b align_page_up_def add.commute)
    have "bpa mod PAGE_SIZE = 0" "me_base e \<le> bpa"
      using frame_bounds(1)[of "me_base e" "(4095 + me_base e) div PAGE_SIZE"] by (simp_all add: w(2))
    moreover have "bpa + sz \<le> me_base e + me_length e" using fits unfolding w(1) by linarith
    ultimately have "bpa mod PAGE_SIZE = 0" "me_base e \<le> bpa" "bpa + sz \<le> me_base e + me_length e"
      "bpa + sz + PAGE_SIZE \<le> 2 ^ 64" using top by (blast, blast, blast, linarith)
    then show ?thesis using u by auto
  qed
qed

lemma pmm_measure_le:
  assumes "memmap_ok mm"
  shows "snd (pmm_measure mm) + PAGE_SIZE \<le> 2 ^ 64"
proof -
  have "snd (foldl (\<lambda>(total, mx) e.
     if me_usable e then
       let end_addr = wrap64 (me_base e + me_length e) in
       (wrap64 (total + me_length e), if end_addr > mx then end_addr else mx)
     else (total, mx)) (t, m) mm) + PAGE_SIZE \<le> 2 ^ 64" if "m + PAGE_SIZE \<le> 2 ^ 64" for t m
    using assms that
  proof (induction mm arbitrary: t m)
    case (Cons e mm)
    have "wrap64 (me_base e + me_length e) + PAGE_SIZE \<le> 2 ^ 64" if "me_usable e"
      using that Cons.prems(1) wrap64_le[of "me_base e + me_length e"] by (simp add: memmap_ok_def)
    then show ?case using Cons by (simp add: memmap_ok_def Let_def)
  qed simp
  from this[of 0 0] show ?thesis by (simp add: pmm_measure_def)
qed

lemma count_frames: "length (filter P [0..<n]) = card {f. f < n \<and> P f}" for n :: nat
  by (subst distinct_card[symmetric]) (auto intro: arg_cong[of _ _ card])

definition bitmap_frame :: "pmm_state \<Rightarrow> nat \<Rightarrow> bool" where
  "bitmap_frame s f \<longleftrightarrow>
     bitmap_phys_addr s < (f + 1) * PAGE_SIZE \<and> f * PAGE_SIZE < bitmap_phys_addr s + bitmap_size s"

lemma pmm_init_Inr:
  assumes init: "pmm_init mm = Inr s" and ok: "memmap_ok mm" and tf: "PAGE_SIZE \<le> snd (pmm_measure mm)"
  shows "pmm_inv s \<and> total_frames s = snd (pmm_measure mm) div PAGE_SIZE \<and>
    avail_frames s = {f. 0 < f \<and> f < total_frames s \<and> usable_frame mm f \<and> \<not> bitmap_frame s f}"
proof -
  obtain total mx where m: "pmm_measure mm = (total, mx)" by force
  define tf sz where "tf = mx div PAGE_SIZE" and "sz = (tf + 7) div 8"
  have tf0: "0 < tf" "tf \<le> 8 * sz" "tf * PAGE_SIZE \<le> 2 ^ 64"
    using tf pmm_measure_le[OF ok] m by (auto simp: tf_def sz_def div_greater_zero_iff)
  obtain bpa where bpa: "pmm_place_bitmap sz mm = Some bpa"
    using init m tf by (auto simp: pmm_init_def Let_def tf_def sz_def split: option.splits if_splits)
  define bm1 where "bm1 = pmm_free_usable tf mm (replicate sz 0xFF)"
  define bm2 where "bm2 = pmm_mark_range mark_used tf (bpa div PAGE_SIZE) ((4095 + (bpa + sz)) div PAGE_SIZE) bm1"
  define bm3 where "bm3 = mark_used 0 bm2"
  have top: "bpa + sz + 4095 < 2 ^ 64" and al: "bpa mod PAGE_SIZE = 0"
    using pmm_place_bitmap_Some[OF bpa ok] by auto
  have free: "free_memory s = wrap64 (card {f. f < tf \<and> frame_free bm3 f} * PAGE_SIZE)"
    and st: "bitmap s = bm3" "total_frames s = tf" "bitmap_size s = sz" "bitmap_phys_addr s = bpa"
    using init m bpa tf top
    by (auto simp: pmm_init_def Let_def tf_def[symmetric] sz_def[symmetric] bm1_def bm2_def bm3_def
        mark_used_def wrap64_id count_frames)
  have u0: "frame_used (replicate sz 0xFF) g" if "g < tf" for g
    using that tf0(2) u8_full_iff[of "0xFF"] by (simp add: frame_used_bit)
  have u1: "length bm1 = sz" "g < tf \<Longrightarrow> frame_used bm1 g = (\<not> usable_frame mm g)" for g
    using pmm_free_usable_spec[OF ok, of tf "replicate sz 0xFF"] tf0(2) u0 by (auto simp: bm1_def)
  have u2: "length bm2 = sz" "g < tf \<Longrightarrow> frame_used bm2 g = (\<not> usable_frame mm g \<or> bitmap_frame s g)" for g
    using u1 tf0(2) al
    by (auto simp: bm2_def frame_used_pmm_mark_range bitmap_frame_def st div_less_iff_less_mult)
  have u3: "length bm3 = sz" "g < tf \<Longrightarrow> frame_used bm3 g = (g = 0 \<or> \<not> usable_frame mm g \<or> bitmap_frame s g)" for g
    using u2 tf0 by (auto simp: bm3_def frame_used_mark_used)
  have av: "avail_frames s = {f. 0 < f \<and> f < tf \<and> usable_frame mm f \<and> \<not> bitmap_frame s f}"
    using u3(2) by (auto simp: avail_frames_def st)
  have "card {f. f < tf \<and> frame_free bm3 f} * PAGE_SIZE < 2 ^ 64"
  proof -
    have "{f. f < tf \<and> frame_free bm3 f} \<subseteq> {1..<tf}" using u3(2) by (auto intro!: Suc_leI gr0I)
    then have "card {f. f < tf \<and> frame_free bm3 f} \<le> tf - 1" using card_mono[of "{1..<tf}"] by fastforce
    then show ?thesis using tf0 by auto
  qed
  then have "pmm_inv s"
    using tf0 u3 free by (simp add: pmm_inv_def st avail_frames_def wrap64_id sz_def)
  then show ?thesis using av m by (simp add: st tf_def)
qed

section \<open>The allocator interface\<close>

text \<open>
  What the page-table code and the heap rely on: a handle is either null (and
  then nothing was left and nothing changed) or fresh, and a released handle
  becomes available again.  \<open>alloc_run\<close> is a client that allocates repeatedly.
\<close>

fun alloc_run :: "('s \<Rightarrow> nat \<times> 's) \<Rightarrow> nat \<Rightarrow> 's \<Rightarrow> nat list \<times> 's" where
  "alloc_run a 0 s = ([], s)"
| "alloc_run a (Suc n) s = (let (p, s1) = a s; (ps, s2) = alloc_run a n s1 in (p # ps, s2))"

locale frame_allocator =
  fixes ok :: "'s \<Rightarrow> bool"
    and avail :: "'s \<Rightarrow> nat set"
    and alloc :: "'s \<Rightarrow> nat \<times> 's"
    and release :: "nat \<Rightarrow> 's \<Rightarrow> 'e + 's"
  assumes finite_avail_law: "ok s \<Longrightarrow> finite (avail s)"
    and alloc_ok: "ok s \<Longrightarrow> ok (snd (alloc s))"
    and null_not_avail: "ok s \<Longrightarrow> 0 \<notin> avail s"
    and alloc_empty: "ok s \<Longrightarrow> avail s = {} \<Longrightarrow> alloc s = (0, s)"
    and alloc_fresh: "ok s \<Longrightarrow> avail s \<noteq> {} \<Longrightarrow>
      fst (alloc s) \<in> avail s \<and> avail (snd (alloc s)) = avail s - {fst (alloc s)}"
    and release_alloc: "ok s \<Longrightarrow> avail s \<noteq> {} \<Longrightarrow> release (fst (alloc s)) (snd (alloc s)) = Inr s"
begin

lemma alloc_null_iff: "ok s \<Longrightarrow> fst (alloc s) = 0 \<longleftrightarrow> avail s = {}"
  using alloc_fresh null_not_avail alloc_empty by (metis fst_conv)

lemma avail_alloc_all: "ok s \<Longrightarrow> avail (snd (alloc s)) = avail s - {fst (alloc s)}"
  using alloc_fresh alloc_empty by (cases "avail s = {}") auto

lemma alloc_run_fresh:
  "ok s \<Longrightarrow> alloc_run alloc n s = (ps, s') \<Longrightarrow>
     ok s' \<and> length ps = n \<and> set ps - {0} \<subseteq> avail s \<and> avail s' = avail s - set ps \<and>
     distinct (filter (\<lambda>p. p \<noteq> 0) ps) \<and> length (filter (\<lambda>p. p \<noteq> 0) ps) = min n (card (avail s))"
proof (induction n arbitrary: s ps s')
  case 0
  then show ?case by simp
next
  case (Suc n)
  obtain p s1 where a: "alloc s = (p, s1)" by force
  obtain qs s2 where r: "alloc_run alloc n s1 = (qs, s2)" by force
  have ps: "ps = p # qs" "s' = s2" using Suc.prems(2) a r by auto
  have ok1: "ok s1" using alloc_ok[OF Suc.prems(1)] a by simp
  note IH = Suc.IH[OF ok1 r]
  have av1: "avail s1 = avail s - {p}" using avail_alloc_all[OF Suc.prems(1)] a by simp
  show ?case
  proof (cases "avail s = {}")
    case True
    then have "p = 0" using alloc_empty[OF Suc.prems(1)] a by simp
    then show ?thesis using IH True av1 by (auto simp: ps)
  next
    case False
    then have p: "p \<in> avail s" "p \<noteq> 0"
      using alloc_fresh[OF Suc.prems(1)] null_not_avail[OF Suc.prems(1)] a by auto
    have "card (avail s) = Suc (card (avail s1))"
      using p finite_avail_law[OF Suc.prems(1)] unfolding av1 by (intro card.remove) blast+
    moreover have "p \<notin> set (filter (\<lambda>p. p \<noteq> 0) qs)" using IH av1 by auto
    ultimately show ?thesis using IH p av1 by (auto simp: ps)
  qed
qed

end

lemma mark_free_used: "f div 8 < length bm \<Longrightarrow> frame_free bm f \<Longrightarrow> mark_free f (mark_used f bm) = bm"
  by (simp add: mark_free_def mark_used_def frame_used_bit bits)

lemma avail_Min: "avail_frames s \<noteq> {} \<Longrightarrow> Min (avail_frames s) \<in> avail_frames s"
  by (rule Min_in) simp_all

lemma pmm_free_alloc:
  assumes inv: "pmm_inv s" and ne: "avail_frames s \<noteq> {}"
  shows "pmm_free_frame (fst (pmm_alloc_frame s)) (snd (pmm_alloc_frame s)) = Inr s"
proof -
  define f where "f = Min (avail_frames s)"
  have f: "f < total_frames s" "frame_free (bitmap s) f" "f div 8 < length (bitmap s)"
    using avail_Min[OF ne] pmm_inv_byte[OF inv] by (simp_all add: f_def avail_frames_def)
  have "PAGE_SIZE \<le> free_memory s" "free_memory s < 2 ^ 64"
  proof -
    show "PAGE_SIZE \<le> free_memory s" using inv ne by (auto simp: pmm_inv_def Suc_le_eq card_gt_0_iff)
    have "card (avail_frames s) * PAGE_SIZE < total_frames s * PAGE_SIZE"
      using card_avail_le[OF inv] by simp
    then show "free_memory s < 2 ^ 64" using inv by (simp add: pmm_inv_def)
  qed
  then show ?thesis
    using inv ne f by (simp add: pmm_alloc_frame_some pmm_free_frame_def f_def[symmetric] Let_def
        frame_used_mark_used mark_free_used wrap64_id)
qed

lemma avail_addrs_empty [simp]: "avail_addrs s = {} \<longleftrightarrow> avail_frames s = {}"
  by (simp add: avail_addrs_def)

lemma zero_notin_avail: "pmm_inv s \<Longrightarrow> 0 \<notin> avail_frames s"
  by (simp add: pmm_inv_def avail_frames_def)

lemma avail_addrs_alloc:
  "pmm_inv s \<Longrightarrow> avail_frames s \<noteq> {} \<Longrightarrow>
     fst (pmm_alloc_frame s) \<in> avail_addrs s \<and>
     avail_addrs (snd (pmm_alloc_frame s)) = avail_addrs s - {fst (pmm_alloc_frame s)}"
  using avail_Min[of s] by (auto simp: pmm_alloc_frame_some avail_alloc avail_addrs_def)

interpretation pmm: frame_allocator pmm_inv avail_addrs pmm_alloc_frame pmm_free_frame
proof unfold_locales
  fix s assume inv: "pmm_inv s"
  show "finite (avail_addrs s)" by (simp add: avail_addrs_def)
  show "pmm_inv (snd (pmm_alloc_frame s))" using inv by (rule pmm_inv_alloc_frame)
  show "0 \<notin> avail_addrs s" using zero_notin_avail[OF inv] by (auto simp: avail_addrs_def)
  show "pmm_alloc_frame s = (0, s)" if "avail_addrs s = {}" using that inv by (simp add: pmm_alloc_frame_full)
  show "fst (pmm_alloc_frame s) \<in> avail_addrs s \<and>
      avail_addrs (snd (pmm_alloc_frame s)) = avail_addrs s - {fst (pmm_alloc_frame s)}"
    if "avail_addrs s \<noteq> {}" using that inv by (simp add: avail_addrs_alloc)
  show "pmm_free_frame (fst (pmm_alloc_frame s)) (snd (pmm_alloc_frame s)) = Inr s"
    if "avail_addrs s \<noteq> {}" using that inv by (simp add: pmm_free_alloc)
qed

section \<open>Properties\<close>

text \<open>C5: Allocation refines the abstract allocator on the set of available frames: when no frame is
  left it returns NULL and changes nothing; otherwise it returns the address of the lowest available
  frame, which is then the only frame no longer available, the free-memory counter drops by one page,
  and the invariant is kept.\<close>

theorem pmm_alloc_frame_refines:
  assumes "pmm_inv s"
  shows "if avail_frames s = {} then pmm_alloc_frame s = (0, s)
    else fst (pmm_alloc_frame s) = Min (avail_frames s) * PAGE_SIZE \<and>
      0 < fst (pmm_alloc_frame s) \<and>
      avail_frames (snd (pmm_alloc_frame s)) = avail_frames s - {Min (avail_frames s)} \<and>
      pmm_get_free_memory (snd (pmm_alloc_frame s)) = pmm_get_free_memory s - PAGE_SIZE \<and>
      pmm_inv (snd (pmm_alloc_frame s))"
  using assms avail_Min[of s] zero_notin_avail[of s]
  by (auto simp: pmm_alloc_frame_full pmm_alloc_frame_some avail_alloc pmm_inv_alloc pmm_get_free_memory_def
      intro!: gr0I)

text \<open>Release succeeds exactly for page-aligned addresses of tracked frames that are in use; every
  other call panics.  Releasing a frame other than frame 0 makes exactly that frame available
  again and keeps the invariant.\<close>

theorem pmm_free_frame_refines:
  assumes "pmm_inv s"
  shows "((\<exists>s'. pmm_free_frame a s = Inr s') \<longleftrightarrow>
      a mod PAGE_SIZE = 0 \<and> a div PAGE_SIZE < total_frames s \<and> a \<notin> avail_addrs s) \<and>
    (\<forall>s'. pmm_free_frame a s = Inr s' \<and> a \<noteq> 0 \<longrightarrow>
      pmm_inv s' \<and> avail_addrs s' = insert a (avail_addrs s))"
proof -
  have "pmm_inv s' \<and> avail_addrs s' = insert a (avail_addrs s)"
    if r: "pmm_free_frame a s = Inr s'" and a: "a \<noteq> 0" for s'
  proof -
    define f where "f = a div PAGE_SIZE"
    have al: "a = f * PAGE_SIZE" "f < total_frames s" "frame_used (bitmap s) f"
      and s': "s' = s\<lparr>bitmap := mark_free f (bitmap s), free_memory := wrap64 (free_memory s + PAGE_SIZE)\<rparr>"
      using r by (auto simp: pmm_free_frame_def f_def Let_def split: if_splits)
    then show ?thesis using assms a by (simp add: pmm_inv_free avail_free avail_addrs_def)
  qed
  then show ?thesis
    by (auto simp: pmm_free_frame_def Let_def avail_addrs_iff avail_frames_def)
qed

text \<open>Releasing a frame that was just allocated restores the allocator state exactly, bitmap and
  counter included.\<close>

theorem pmm_alloc_free_roundtrip:
  assumes "pmm_inv s" "pmm_alloc_frame s = (p, s')" "p \<noteq> 0"
  shows "pmm_free_frame p s' = Inr s"
  using pmm.release_alloc[of s] pmm.alloc_null_iff[of s] assms by auto

text \<open>Any number of consecutive allocations hands out pairwise distinct frames, all of them
  available before, and as many as there are: no physical frame is given to two owners.\<close>

theorem pmm_alloc_run_distinct:
  assumes "pmm_inv s" "alloc_run pmm_alloc_frame n s = (ps, s')"
  shows "distinct (filter (\<lambda>p. p \<noteq> 0) ps) \<and> set ps - {0} \<subseteq> avail_addrs s \<and>
    length (filter (\<lambda>p. p \<noteq> 0) ps) = min n (card (avail_addrs s)) \<and>
    avail_addrs s' = avail_addrs s - set ps \<and> pmm_inv s'"
  using pmm.alloc_run_fresh[OF assms] by simp

text \<open>Initialisation from a boot memory map either halts or establishes the invariant, and the
  frames then available are exactly those that lie completely inside a usable entry, are not frame 0
  and do not intersect the bitmap itself.\<close>

theorem pmm_init_spec:
  assumes "pmm_init mm = Inr s" "memmap_ok mm" "PAGE_SIZE \<le> snd (pmm_measure mm)"
  shows "pmm_inv s \<and>
    avail_frames s = {f. 0 < f \<and> f < total_frames s \<and> usable_frame mm f \<and> \<not> bitmap_frame s f}"
  using pmm_init_Inr[OF assms] by blast

text \<open>The guard on frame 0 holds only until somebody releases it: \<^verbatim>\<open>pmm_free_frame(NULL)\<close> is accepted,
  after which the next allocation takes frame 0 and returns NULL although other frames may be
  available.\<close>

theorem pmm_free_null_hides_memory:
  assumes "pmm_inv s"
  shows "\<exists>s'. pmm_free_frame 0 s = Inr s' \<and> avail_frames s' = insert 0 (avail_frames s) \<and>
    fst (pmm_alloc_frame s') = 0"
proof -
  let ?s = "s\<lparr>bitmap := mark_free 0 (bitmap s), free_memory := wrap64 (free_memory s + PAGE_SIZE)\<rparr>"
  have inv: "0 < total_frames s" "frame_used (bitmap s) 0" "total_frames s \<le> 8 * bitmap_size s"
    using assms by (auto simp: pmm_inv_def)
  then have r: "pmm_free_frame 0 s = Inr ?s" by (simp add: pmm_free_frame_def)
  have av: "avail_frames ?s = insert 0 (avail_frames s)" using avail_free[OF assms inv(1)] .
  have "0 \<in> {f. f < total_frames s \<and> frame_free (mark_free 0 (bitmap s)) f}"
    using av unfolding avail_frames_def by auto
  then have "pmm_scan (bitmap ?s) (total_frames ?s) [0..<bitmap_size ?s] = Some 0"
    using inv by (auto simp: pmm_scan_first_fit find_upt_Some_iff)
  then have "fst (pmm_alloc_frame ?s) = 0" by (simp add: pmm_alloc_frame_def)
  then show ?thesis using r av by blast
qed

section \<open>Witnesses\<close>

definition wmap :: "memmap_entry list" where
  "wmap = [\<lparr>me_base = 0, me_length = 8192, me_type = 1\<rparr>,
           \<lparr>me_base = 8192, me_length = 32768, me_type = 0\<rparr>]"

definition wpmm :: pmm_state where
  "wpmm = \<lparr>bitmap = [0x07, 0xFC], total_frames = 10, bitmap_size = 2, bitmap_phys_addr = 8192,
           total_usable_memory = 32768, free_memory = 28672\<rparr>"

lemma upts: "[0..<8] = [0, 1, 2, 3, 4, 5, 6, 7 :: nat]" "[0..<2] = [0, 1 :: nat]"
  "[0..<10] = [0, 1, 2, 3, 4, 5, 6, 7, 8, 9 :: nat]"
  by (simp_all add: upt_rec)

lemmas pmm_eval = wpmm_def wrap64_def mark_free_def mark_used_def frame_used_def Let_def
  pmm_alloc_frame_def pmm_free_frame_def upts

lemma pmm_wmap:
  "pmm_measure wmap = (32768, 40960)" "pmm_place_bitmap 2 wmap = Some 8192"
  "pmm_free_usable 10 wmap [0xFF, 0xFF] = [0x3, 0xFC]"
  by (simp_all add: wmap_def pmm_measure_def align_page_up_def pmm_free_usable_def
      pmm_mark_range_def pmm_eval me_usable_def)

lemma pmm_init_wmap: "pmm_init wmap = Inr wpmm"
proof -
  have "length (filter (\<lambda>f. \<not> frame_used [0x07, 0xFC] f) [0..<10]) = 7"
    by (simp add: frame_used_def upts)
  moreover have "pmm_mark_range mark_used 10 2 3 [0x3, 0xFC] = [0x07, 0xFC]"
    by (simp add: pmm_mark_range_def mark_used_def)
  moreover have "replicate 2 (0xFF :: u8) = [0xFF, 0xFF]" by (simp add: numeral_2_eq_2)
  ultimately show ?thesis
    by (simp add: pmm_init_def pmm_wmap wpmm_def wrap64_def Let_def)
qed

lemma wmap_ok: "memmap_ok wmap" "PAGE_SIZE \<le> snd (pmm_measure wmap)"
  by (simp_all add: memmap_ok_def wmap_def pmm_measure_def wrap64_def me_usable_def)

lemma wpmm_inv: "pmm_inv wpmm"
  using pmm_init_Inr[OF pmm_init_wmap wmap_ok] by simp

lemma wpmm_alloc: "pmm_alloc_frame wpmm = (12288, wpmm\<lparr>bitmap := [0x0F, 0xFC], free_memory := 24576\<rparr>)"
  by (simp add: pmm_eval)

theorem pmm_alloc_frame_refines_witness: "pmm_inv (snd (pmm_alloc_frame wpmm))"
  using pmm_alloc_frame_refines[OF wpmm_inv] wpmm_inv by (auto split: if_splits)

theorem pmm_free_frame_refines_witness: "pmm_free_frame 12288 wpmm = Inl Double_free \<and> 12288 \<in> avail_addrs wpmm"
proof -
  have r: "pmm_free_frame 12288 wpmm = Inl Double_free" by (simp add: pmm_eval)
  moreover have "total_frames wpmm = 10" by (simp add: wpmm_def)
  ultimately show ?thesis using pmm_free_frame_refines[OF wpmm_inv, of 12288] by auto
qed

theorem pmm_alloc_free_roundtrip_witness:
  "pmm_free_frame 12288 (wpmm\<lparr>bitmap := [0x0F, 0xFC], free_memory := 24576\<rparr>) = Inr wpmm"
  using pmm_alloc_free_roundtrip[OF wpmm_inv wpmm_alloc] by simp

theorem pmm_alloc_run_distinct_witness:
  "fst (alloc_run pmm_alloc_frame 2 wpmm) = [12288, 16384] \<and> distinct (fst (alloc_run pmm_alloc_frame 2 wpmm))"
proof -
  have "fst (pmm_alloc_frame (wpmm\<lparr>bitmap := [0x0F, 0xFC], free_memory := 24576\<rparr>)) = 16384"
    by (simp add: pmm_eval)
  then have r: "fst (alloc_run pmm_alloc_frame 2 wpmm) = [12288, 16384]"
    by (auto simp: wpmm_alloc numeral_2_eq_2 split: prod.splits)
  have "distinct (filter (\<lambda>p. p \<noteq> 0) (fst (alloc_run pmm_alloc_frame 2 wpmm)))"
    using pmm_alloc_run_distinct[OF wpmm_inv, of 2] by (metis prod.collapse)
  then show ?thesis using r by simp
qed

theorem pmm_init_spec_witness: "pmm_init wmap = Inr wpmm \<and> avail_frames wpmm \<subseteq> {f. usable_frame wmap f}"
  using pmm_init_spec[OF pmm_init_wmap wmap_ok] pmm_init_wmap by auto

theorem pmm_free_null_hides_memory_witness: "\<exists>s'. pmm_free_frame 0 wpmm = Inr s' \<and> fst (pmm_alloc_frame s') = 0"
  using pmm_free_null_hides_memory[OF wpmm_inv] by blast

end
