(* ===== verification/Vmm.thy ===== *)
theory Vmm
  imports Pmm
begin

unbundle bit_operations_syntax

text \<open>
  The virtual memory manager, \<^verbatim>\<open>src/kernel/vmm.c\<close>: four-level page tables in
  physical frames.  \<open>ptm\<close> is the memory that holds tables: the entry with a given
  index of the table at a given physical address.  A pointer into the
  direct map is the physical address plus \<open>hhdm_off\<close>.  The code halts when a table
  frame cannot be allocated: an operation that does returns \<open>None\<close>.
\<close>

section \<open>State and walks\<close>

record vmm_state =
  pmm :: pmm_state
  hhdm_off :: u64
  current_pml4 :: u64
  ptm :: "u64 \<Rightarrow> nat \<Rightarrow> u64"

abbreviation PTE_PRESENT :: u64 where "PTE_PRESENT \<equiv> 1"
abbreviation PTE_WRITABLE :: u64 where "PTE_WRITABLE \<equiv> 2"
abbreviation PTE_USER :: u64 where "PTE_USER \<equiv> 4"
abbreviation PTE_HUGE :: u64 where "PTE_HUGE \<equiv> 0x80"
abbreviation PTE_ADDR_MASK :: u64 where "PTE_ADDR_MASK \<equiv> 0x000FFFFFFFFFF000"

definition PML4_INDEX :: "u64 \<Rightarrow> nat" where
  "PML4_INDEX virt = unat (drop_bit 39 virt AND 0x1FF)"

definition PDPT_INDEX :: "u64 \<Rightarrow> nat" where
  "PDPT_INDEX virt = unat (drop_bit 30 virt AND 0x1FF)"

definition PD_INDEX :: "u64 \<Rightarrow> nat" where
  "PD_INDEX virt = unat (drop_bit 21 virt AND 0x1FF)"

definition PT_INDEX :: "u64 \<Rightarrow> nat" where
  "PT_INDEX virt = unat (drop_bit 12 virt AND 0x1FF)"

definition set_entry :: "u64 \<Rightarrow> nat \<Rightarrow> u64 \<Rightarrow> vmm_state \<Rightarrow> vmm_state" where
  "set_entry t i e s = s\<lparr>ptm := (ptm s)(t := (ptm s t)(i := e))\<rparr>"

definition zero_table :: "u64 \<Rightarrow> vmm_state \<Rightarrow> vmm_state" where
  "zero_table t s = s\<lparr>ptm := (ptm s)(t := (\<lambda>_. 0))\<rparr>"

definition walk_page :: "vmm_state \<Rightarrow> u64 \<Rightarrow> u64 \<Rightarrow> u64" where
  "walk_page s pml4_phys virt =
     (let e4 = ptm s pml4_phys (PML4_INDEX virt) in
      if e4 AND PTE_PRESENT = 0 then 0
      else
        let e3 = ptm s (e4 AND PTE_ADDR_MASK) (PDPT_INDEX virt) in
        if e3 AND PTE_PRESENT = 0 then 0
        else if e3 AND PTE_HUGE \<noteq> 0 then (e3 AND PTE_ADDR_MASK) + (virt AND 0x3FFFFFFF)
        else
          let e2 = ptm s (e3 AND PTE_ADDR_MASK) (PD_INDEX virt) in
          if e2 AND PTE_PRESENT = 0 then 0
          else if e2 AND PTE_HUGE \<noteq> 0 then (e2 AND PTE_ADDR_MASK) + (virt AND 0x1FFFFF)
          else
            let e1 = ptm s (e2 AND PTE_ADDR_MASK) (PT_INDEX virt) in
            if e1 AND PTE_PRESENT = 0 then 0
            else (e1 AND PTE_ADDR_MASK) + (virt AND 0xFFF))"

definition translate_limine_address :: "vmm_state \<Rightarrow> u64 \<Rightarrow> u64 \<Rightarrow> u64" where
  "translate_limine_address s pml4_phys virt = walk_page s pml4_phys virt"

definition pml4_phys :: "vmm_state \<Rightarrow> u64" where
  "pml4_phys s = current_pml4 s - hhdm_off s"

definition vmm_virt_to_phys :: "vmm_state \<Rightarrow> u64 \<Rightarrow> u64" where
  "vmm_virt_to_phys s virt =
     (if virt \<ge> hhdm_off s \<and> virt < hhdm_off s + 0x1000000000 then virt - hhdm_off s
      else if current_pml4 s = 0 then 0
      else walk_page s (pml4_phys s) virt)"

section \<open>Mapping and unmapping\<close>

definition vmm_next_table :: "u64 \<Rightarrow> u64 \<Rightarrow> nat \<Rightarrow> vmm_state \<Rightarrow> (u64 \<times> vmm_state) option" where
  "vmm_next_table flags t i s =
     (let parent_flags = PTE_PRESENT OR PTE_WRITABLE OR (flags AND PTE_USER);
          r = (if ptm s t i AND PTE_PRESENT = 0 then
                 (let (p, pm) = pmm_alloc_frame (pmm s) in
                  if p = 0 then None
                  else
                    let s1 = zero_table (word_of_nat p) (s\<lparr>pmm := pm\<rparr>)
                    in Some (set_entry t i (word_of_nat p OR parent_flags) s1))
               else Some (set_entry t i (ptm s t i OR (flags AND PTE_USER)) s))
      in case r of None \<Rightarrow> None | Some s' \<Rightarrow> Some (ptm s' t i AND PTE_ADDR_MASK, s'))"

definition vmm_map_page :: "u64 \<Rightarrow> u64 \<Rightarrow> u64 \<Rightarrow> vmm_state \<Rightarrow> vmm_state option" where
  "vmm_map_page virt phys flags s =
     (if current_pml4 s = 0 then Some s
      else
        case vmm_next_table flags (pml4_phys s) (PML4_INDEX virt) s of
          None \<Rightarrow> None
        | Some (pdpt, s1) \<Rightarrow>
            (case vmm_next_table flags pdpt (PDPT_INDEX virt) s1 of
               None \<Rightarrow> None
             | Some (pd, s2) \<Rightarrow>
                 (case vmm_next_table flags pd (PD_INDEX virt) s2 of
                    None \<Rightarrow> None
                  | Some (pt, s3) \<Rightarrow>
                      Some (set_entry pt (PT_INDEX virt) ((phys AND PTE_ADDR_MASK) OR flags) s3))))"

definition vmm_unmap_page :: "u64 \<Rightarrow> vmm_state \<Rightarrow> vmm_state" where
  "vmm_unmap_page virt s =
     (if current_pml4 s = 0 then s
      else
        let e4 = ptm s (pml4_phys s) (PML4_INDEX virt) in
        if e4 AND PTE_PRESENT = 0 then s
        else
          let e3 = ptm s (e4 AND PTE_ADDR_MASK) (PDPT_INDEX virt) in
          if e3 AND PTE_PRESENT = 0 then s
          else
            let e2 = ptm s (e3 AND PTE_ADDR_MASK) (PD_INDEX virt) in
            if e2 AND PTE_PRESENT = 0 then s
            else set_entry (e2 AND PTE_ADDR_MASK) (PT_INDEX virt) 0 s)"

definition vmm_get_pml4 :: "vmm_state \<Rightarrow> u64" where
  "vmm_get_pml4 s = current_pml4 s"

definition vmm_set_pml4 :: "u64 \<Rightarrow> vmm_state \<Rightarrow> vmm_state" where
  "vmm_set_pml4 p s = s\<lparr>current_pml4 := p\<rparr>"

definition vmm_get_hhdm_offset :: "vmm_state \<Rightarrow> u64" where
  "vmm_get_hhdm_offset s = hhdm_off s"

section \<open>Initialisation\<close>

fun vmm_map_pages :: "(u64 \<times> u64) list \<Rightarrow> vmm_state \<Rightarrow> vmm_state option" where
  "vmm_map_pages [] s = Some s"
| "vmm_map_pages ((virt, phys) # ps) s =
     (case vmm_map_page virt phys (PTE_PRESENT OR PTE_WRITABLE) s of
        None \<Rightarrow> None
      | Some s' \<Rightarrow> vmm_map_pages ps s')"

definition page_count :: "nat \<Rightarrow> nat" where
  "page_count n = (n + PAGE_SIZE - 1) div PAGE_SIZE"

definition hhdm_pages :: "u64 \<Rightarrow> memmap_entry \<Rightarrow> (u64 \<times> u64) list" where
  "hhdm_pages off e =
     (let start = me_base e div PAGE_SIZE; fin = wrap64 (me_base e + me_length e + PAGE_SIZE - 1) div PAGE_SIZE
      in map (\<lambda>f. (word_of_nat (f * PAGE_SIZE) + off, word_of_nat (f * PAGE_SIZE))) [start..<fin])"

definition vmm_kernel_size :: "memmap_entry list \<Rightarrow> nat" where
  "vmm_kernel_size mm =
     (case find (\<lambda>e. me_type e = 6) mm of
        None \<Rightarrow> 0 | Some e \<Rightarrow> wrap64 (me_length e + PAGE_SIZE - 1) div PAGE_SIZE * PAGE_SIZE)"

definition run_pages :: "u64 \<Rightarrow> u64 \<Rightarrow> nat \<Rightarrow> (u64 \<times> u64) list" where
  "run_pages virt phys n =
     map (\<lambda>i. (virt + word_of_nat (i * PAGE_SIZE), phys + word_of_nat (i * PAGE_SIZE))) [0..<n]"

definition copied_page :: "vmm_state \<Rightarrow> u64 \<Rightarrow> u64 \<Rightarrow> (u64 \<times> u64) list" where
  "copied_page s limine_pml4 virt =
     (let phys = translate_limine_address s limine_pml4 virt in
      if phys \<noteq> 0 then [(virt, phys)]
      else if virt \<ge> hhdm_off s then [(virt, virt - hhdm_off s)] else [])"

fun vmm_copy_pages :: "u64 \<Rightarrow> u64 list \<Rightarrow> vmm_state \<Rightarrow> vmm_state option" where
  "vmm_copy_pages limine_pml4 [] s = Some s"
| "vmm_copy_pages limine_pml4 (virt # vs) s =
     (case vmm_map_pages (copied_page s limine_pml4 virt) s of
        None \<Rightarrow> None
      | Some s' \<Rightarrow> vmm_copy_pages limine_pml4 vs s')"

definition stack_pages :: "u64 \<Rightarrow> u64 list" where
  "stack_pages rsp =
     (let base = (rsp - 0x10000) AND NOT 0xFFF; top_page = (rsp + 0x2000) AND NOT 0xFFF
      in if base \<le> top_page
         then map (\<lambda>i. base + word_of_nat (i * PAGE_SIZE)) [0..<unat (top_page - base) div PAGE_SIZE + 1]
         else [])"

definition vmm_init ::
  "u64 \<Rightarrow> memmap_entry list \<Rightarrow> u64 \<Rightarrow> u64 \<Rightarrow> (u64 \<times> nat) option \<Rightarrow> u64 \<Rightarrow> u64 \<Rightarrow> vmm_state \<Rightarrow> vmm_state option" where
  "vmm_init hhdm mm kphys kvirt fb rsp limine_pml4 s =
     (let (p, pm) = pmm_alloc_frame (pmm s) in
      if p = 0 then None
      else
        let s1 = zero_table (word_of_nat p)
                   (s\<lparr>pmm := pm, hhdm_off := hhdm, current_pml4 := word_of_nat p + hhdm\<rparr>) in
        case vmm_map_pages (concat (map (hhdm_pages hhdm) mm)) s1 of
          None \<Rightarrow> None
        | Some s2 \<Rightarrow>
            if vmm_kernel_size mm = 0 then None
            else
              (case vmm_map_pages (run_pages kvirt kphys (vmm_kernel_size mm div PAGE_SIZE)) s2 of
                 None \<Rightarrow> None
               | Some s3 \<Rightarrow>
                   (case (case fb of
                            None \<Rightarrow> Some s3
                          | Some (fb_virt, fb_size) \<Rightarrow>
                              vmm_copy_pages limine_pml4
                                (map (\<lambda>i. fb_virt + word_of_nat (i * PAGE_SIZE)) [0..<page_count fb_size]) s3) of
                      None \<Rightarrow> None
                    | Some s4 \<Rightarrow> vmm_copy_pages limine_pml4 (stack_pages rsp) s4)))"

section \<open>Paths in the table tree\<close>

text \<open>
  A path is the list of indices from the root, last index first.  \<open>tab\<close> gives
  the frame a path leads to: a table for paths of length at most three, the
  mapped frame for paths of length four.
\<close>

fun tab :: "vmm_state \<Rightarrow> nat list \<Rightarrow> u64 option" where
  "tab s [] = Some (pml4_phys s)"
| "tab s (i # p) =
     (case tab s p of
        None \<Rightarrow> None
      | Some t \<Rightarrow> if bit (ptm s t i) 0 then Some (ptm s t i AND PTE_ADDR_MASK) else None)"

definition vpath :: "u64 \<Rightarrow> nat list" where
  "vpath v = [PT_INDEX v, PD_INDEX v, PDPT_INDEX v, PML4_INDEX v]"

definition vmm_wf :: "vmm_state \<Rightarrow> bool" where
  "vmm_wf s \<longleftrightarrow>
     pmm_inv (pmm s) \<and> total_frames (pmm s) \<le> 2 ^ 40 \<and> current_pml4 s \<noteq> 0 \<and>
     (\<forall>p t. length p \<le> 3 \<and> tab s p = Some t \<longrightarrow> unat t \<notin> avail_addrs (pmm s)) \<and>
     (\<forall>p q t. length p \<le> 3 \<and> length q \<le> 3 \<and> tab s p = Some t \<and> tab s q = Some t \<longrightarrow> p = q) \<and>
     (\<forall>p t i. (length p = 1 \<or> length p = 2) \<and> tab s p = Some t \<and> bit (ptm s t i) 0 \<longrightarrow> \<not> bit (ptm s t i) 7)"

lemma vmm_wfI:
  assumes "pmm_inv (pmm s)" "total_frames (pmm s) \<le> 2 ^ 40" "current_pml4 s \<noteq> 0"
    "\<And>p t. length p \<le> 3 \<Longrightarrow> tab s p = Some t \<Longrightarrow> unat t \<notin> avail_addrs (pmm s)"
    "\<And>p q t. length p \<le> 3 \<Longrightarrow> length q \<le> 3 \<Longrightarrow> tab s p = Some t \<Longrightarrow> tab s q = Some t \<Longrightarrow> p = q"
    "\<And>p t i. length p = 1 \<or> length p = 2 \<Longrightarrow> tab s p = Some t \<Longrightarrow> bit (ptm s t i) 0 \<Longrightarrow> \<not> bit (ptm s t i) 7"
  shows "vmm_wf s"
  using assms unfolding vmm_wf_def by blast

lemma vmm_wf_base: "vmm_wf s \<Longrightarrow> pmm_inv (pmm s)" "vmm_wf s \<Longrightarrow> total_frames (pmm s) \<le> 2 ^ 40"
  "vmm_wf s \<Longrightarrow> current_pml4 s \<noteq> 0"
  unfolding vmm_wf_def by blast+

lemma vmm_wf_tables: "vmm_wf s \<Longrightarrow> length p \<le> 3 \<Longrightarrow> tab s p = Some t \<Longrightarrow> unat t \<notin> avail_addrs (pmm s)"
  unfolding vmm_wf_def by blast

lemma vmm_wf_inj:
  "vmm_wf s \<Longrightarrow> length p \<le> 3 \<Longrightarrow> length q \<le> 3 \<Longrightarrow> tab s p = Some t \<Longrightarrow> tab s q = Some t \<Longrightarrow> p = q"
  unfolding vmm_wf_def by blast

lemma vmm_wf_small:
  "vmm_wf s \<Longrightarrow> length p = 1 \<or> length p = 2 \<Longrightarrow> tab s p = Some t \<Longrightarrow> bit (ptm s t i) 0 \<Longrightarrow> \<not> bit (ptm s t i) 7"
  unfolding vmm_wf_def by blast

subsection \<open>Bits of entries\<close>

lemma and_present [bits]: "(e AND PTE_PRESENT = 0) = (\<not> bit e 0)" for e :: u64
  using test_bit_mask[of e 0] by simp

lemma and_huge [bits]: "(e AND PTE_HUGE = 0) = (\<not> bit e 7)" for e :: u64
  using test_bit_mask[of e 7] by simp

lemma bit_addr_mask: "bit PTE_ADDR_MASK k \<longleftrightarrow> 12 \<le> k \<and> k < 52"
proof -
  have m: "PTE_ADDR_MASK = push_bit 12 (mask 40)" by (simp add: mask_eq_exp_minus_1 push_bit_eq_mult)
  show ?thesis unfolding m by (auto simp: bit_push_bit_iff bit_mask_iff)
qed

lemma bit_user: "bit (f AND PTE_USER) k \<longleftrightarrow> k = 2 \<and> bit f 2" for f :: u64
proof -
  have m: "PTE_USER = 2 ^ 2" by simp
  show ?thesis unfolding m bit_and_iff bit_exp_iff possible_bit_word using bit_imp_le_length[of f 2] by auto
qed

lemma or_user:
  "bit (e OR (f AND PTE_USER)) 0 = bit e 0" "bit (e OR (f AND PTE_USER)) 7 = bit e 7"
  "(e OR (f AND PTE_USER)) AND PTE_ADDR_MASK = e AND PTE_ADDR_MASK" for e f :: u64
proof -
  show "bit (e OR (f AND PTE_USER)) 0 = bit e 0" "bit (e OR (f AND PTE_USER)) 7 = bit e 7"
    unfolding bit_or_iff bit_user by simp_all
  show "(e OR (f AND PTE_USER)) AND PTE_ADDR_MASK = e AND PTE_ADDR_MASK"
    by (rule bit_word_eqI) (simp only: bit_and_iff[of _ PTE_ADDR_MASK] bit_or_iff bit_user bit_addr_mask, auto)
qed

lemma bit_frame_addr:
  assumes "n mod PAGE_SIZE = 0" "n < 2 ^ 52" "bit (word_of_nat n :: u64) k"
  shows "12 \<le> k" "k < 52"
proof -
  have b: "bit n k" using assms(3) by (simp add: bit_of_nat_iff)
  have "n = n div 2 ^ 12 * 2 ^ 12" using assms(1) by auto
  then have "n = push_bit 12 (n div 2 ^ 12)" by (simp add: push_bit_eq_mult)
  then show "12 \<le> k" using b by (metis bit_push_bit_iff)
  have "n = take_bit 52 n" using assms(2) by (simp add: take_bit_nat_eq_self)
  then show "k < 52" using b by (metis bit_take_bit_iff)
qed

lemma frame_entry:
  fixes flags :: u64
  assumes "n mod PAGE_SIZE = 0" "n < 2 ^ 52"
  defines "e \<equiv> word_of_nat n OR (PTE_PRESENT OR PTE_WRITABLE OR (flags AND PTE_USER)) :: u64"
  shows "bit e 0" "\<not> bit e 7" "e AND PTE_ADDR_MASK = word_of_nat n"
proof -
  note fb = bit_frame_addr[OF assms(1,2)]
  have w: "bit PTE_WRITABLE k \<longleftrightarrow> k = 1" for k
  proof -
    have "bit (2 ^ 1 :: u64) k \<longleftrightarrow> k < LENGTH(64) \<and> 1 = k" unfolding bit_exp_iff possible_bit_word by auto
    then show ?thesis unfolding power_one_right by auto
  qed
  have b: "bit e k \<longleftrightarrow> bit (word_of_nat n :: u64) k \<or> k = 0 \<or> k = 1 \<or> k = 2 \<and> bit flags 2" for k
    unfolding e_def bit_or_iff bit_user w bit_1_iff by auto
  show "bit e 0" unfolding b by simp
  show "\<not> bit e 7" unfolding b using fb[of 7] by auto
  show "e AND PTE_ADDR_MASK = word_of_nat n"
    by (rule bit_word_eqI, unfold bit_and_iff bit_addr_mask b) (use fb in auto)
qed

subsection \<open>Effect of table updates on paths\<close>

lemma set_entry_fields [simp]:
  "pml4_phys (set_entry t i e s) = pml4_phys s" "pmm (set_entry t i e s) = pmm s"
  "current_pml4 (set_entry t i e s) = current_pml4 s" "hhdm_off (set_entry t i e s) = hhdm_off s"
  "ptm (set_entry t i e s) u j = (if u = t \<and> j = i then e else ptm s u j)"
  by (simp_all add: set_entry_def pml4_phys_def)

definition extends :: "nat list \<Rightarrow> nat list \<Rightarrow> bool" where
  "extends q p \<longleftrightarrow> (\<exists>r. q = r @ p)"

lemma extends_Cons: "extends (j # r) p \<longleftrightarrow> j # r = p \<or> extends r p"
  unfolding extends_def by (metis append_Cons append_eq_Cons_conv)

lemma tab_set_entry_other:
  assumes wf: "vmm_wf s" and t: "tab s p = Some t" "length p \<le> 3"
  shows "length q \<le> 4 \<Longrightarrow> \<not> extends q (i # p) \<Longrightarrow> tab (set_entry t i e s) q = tab s q"
proof (induction q)
  case (Cons j r)
  have IH: "tab (set_entry t i e s) r = tab s r" using Cons by (simp add: extends_Cons)
  have "\<not> (u = t \<and> j = i)" if "tab s r = Some u" for u
    using vmm_wf_inj[OF wf _ t(2) that] t(1) Cons.prems by (auto simp: extends_Cons)
  then show ?case using IH by (auto split: option.splits)
qed simp

lemma tab_set_entry_same:
  assumes wf: "vmm_wf s" and t: "tab s p = Some t" "length p \<le> 3"
  shows "tab (set_entry t i e s) (i # p) = (if bit e 0 then Some (e AND PTE_ADDR_MASK) else None)"
proof -
  have "\<not> extends p (i # p)" by (auto simp: extends_def)
  then have "tab (set_entry t i e s) p = Some t" using tab_set_entry_other[OF wf t, of p i e] t by simp
  then show ?thesis by simp
qed

lemma tab_cong:
  assumes "pml4_phys s' = pml4_phys s"
    "\<And>p t i. length p \<le> 3 \<Longrightarrow> tab s p = Some t \<Longrightarrow>
      bit (ptm s' t i) 0 = bit (ptm s t i) 0 \<and> ptm s' t i AND PTE_ADDR_MASK = ptm s t i AND PTE_ADDR_MASK"
  shows "length q \<le> 4 \<Longrightarrow> tab s' q = tab s q"
  by (induction q) (use assms in \<open>auto split: option.splits\<close>)

section \<open>Allocation of a table\<close>

lemma avail_addr_bounds:
  assumes "vmm_wf s" "n \<in> avail_addrs (pmm s)"
  shows "n mod PAGE_SIZE = 0" "n < 2 ^ 52" "unat (word_of_nat n :: u64) = n"
proof -
  have "n div PAGE_SIZE < 2 ^ 40" "n mod PAGE_SIZE = 0"
    using assms by (auto simp: avail_addrs_iff avail_frames_def vmm_wf_def)
  then show "n mod PAGE_SIZE = 0" "n < 2 ^ 52" by auto
  then show "unat (word_of_nat n :: u64) = n" by (simp add: unsigned_of_nat take_bit_nat_eq_self)
qed

lemma vmm_wf_fresh:
  assumes wf: "vmm_wf s" and a: "pmm_alloc_frame (pmm s) = (n, pm)" "n \<noteq> 0"
  shows "n \<in> avail_addrs (pmm s)" "avail_addrs pm = avail_addrs (pmm s) - {n}" "pmm_inv pm"
    "total_frames pm = total_frames (pmm s)"
proof -
  have inv: "pmm_inv (pmm s)" using wf by (simp add: vmm_wf_def)
  then have ne: "avail_addrs (pmm s) \<noteq> {}" using pmm.alloc_null_iff[OF inv] a by simp
  show "n \<in> avail_addrs (pmm s)" "avail_addrs pm = avail_addrs (pmm s) - {n}"
    using pmm.alloc_fresh[OF inv ne] a by simp_all
  show "pmm_inv pm" using pmm.alloc_ok[OF inv] a by simp
  show "total_frames pm = total_frames (pmm s)"
    using a by (auto simp: pmm_alloc_frame_def split: option.splits)
qed

lemma tab_zero_table:
  assumes wf: "vmm_wf s" and a: "pmm_alloc_frame (pmm s) = (n, pm)" "n \<noteq> 0" and q: "length q \<le> 4"
  shows "tab (zero_table (word_of_nat n) (s\<lparr>pmm := pm\<rparr>)) q = tab s q"
proof (rule tab_cong[OF _ _ q])
  show "pml4_phys (zero_table (word_of_nat n) (s\<lparr>pmm := pm\<rparr>)) = pml4_phys s" by (simp add: zero_table_def pml4_phys_def)
  fix p t i assume "length p \<le> 3" "tab s p = Some t"
  then have "unat t \<notin> avail_addrs (pmm s)" by (rule vmm_wf_tables[OF wf])
  then have "t \<noteq> word_of_nat n" using vmm_wf_fresh(1)[OF wf a] avail_addr_bounds(3)[OF wf] by auto
  then show "bit (ptm (zero_table (word_of_nat n) (s\<lparr>pmm := pm\<rparr>)) t i) 0 = bit (ptm s t i) 0 \<and>
      ptm (zero_table (word_of_nat n) (s\<lparr>pmm := pm\<rparr>)) t i AND PTE_ADDR_MASK = ptm s t i AND PTE_ADDR_MASK"
    by (simp add: zero_table_def)
qed

lemma vmm_wf_zero:
  assumes wf: "vmm_wf s" and a: "pmm_alloc_frame (pmm s) = (n, pm)" "n \<noteq> 0"
  shows "vmm_wf (zero_table (word_of_nat n) (s\<lparr>pmm := pm\<rparr>))"
proof -
  let ?z = "zero_table (word_of_nat n) (s\<lparr>pmm := pm\<rparr>)"
  note f = vmm_wf_fresh[OF wf a]
  have tb: "tab ?z q = tab s q" if "length q \<le> 3" for q using tab_zero_table[OF wf a] that by simp
  have m: "ptm ?z t i = (if t = word_of_nat n then 0 else ptm s t i)" for t i by (simp add: zero_table_def)
  have fl: "pmm ?z = pm" "current_pml4 ?z = current_pml4 s" by (simp_all add: zero_table_def)
  have tables: "unat t \<notin> avail_addrs pm" if "length p \<le> 3" "tab ?z p = Some t" for p t
    using that tb vmm_wf_tables[OF wf] f(2) by auto
  have inj: "p = q" if "length p \<le> 3" "length q \<le> 3" "tab ?z p = Some t" "tab ?z q = Some t" for p q t
    using that tb vmm_wf_inj[OF wf] by simp
  have small: "\<not> bit (ptm ?z t i) 7" if "length p = 1 \<or> length p = 2" "tab ?z p = Some t" "bit (ptm ?z t i) 0" for p t i
    using that tb[of p] vmm_wf_small[OF wf that(1), of t i] by (auto simp: m split: if_splits)
  show ?thesis
    by (rule vmm_wfI) (use vmm_wf_base[OF wf] f(3,4) tables inj small in \<open>simp_all add: fl\<close>)
qed

text \<open>A table step keeps the tree, makes the next table present and moves no other path.\<close>

lemma vmm_wf_set_leaf:
  assumes wf: "vmm_wf s" and t: "tab s p = Some t" "length p = 3"
  shows "vmm_wf (set_entry t i e s)"
proof -
  let ?s = "set_entry t i e s"
  have tb: "tab ?s q = tab s q" if "length q \<le> 3" for q
  proof (rule tab_set_entry_other[OF wf t(1)])
    show "\<not> extends q (i # p)" using that t(2) by (auto simp: extends_def)
  qed (use that t(2) in simp_all)
  have small: "\<not> bit (ptm ?s u j) 7" if "length q = 1 \<or> length q = 2" "tab ?s q = Some u" "bit (ptm ?s u j) 0" for q u j
  proof -
    have "tab s q = Some u" using that(1,2) tb[of q] by auto
    then have "u \<noteq> t" using vmm_wf_inj[OF wf, of q p u] t that(1) by auto
    then show ?thesis using vmm_wf_small[OF wf that(1) \<open>tab s q = Some u\<close>] that(3) by simp
  qed
  show ?thesis
  proof (rule vmm_wfI)
    show "unat u \<notin> avail_addrs (pmm ?s)" if "length q \<le> 3" "tab ?s q = Some u" for q u
      using vmm_wf_tables[OF wf that(1), of u] that tb by simp
    show "q = r" if "length q \<le> 3" "length r \<le> 3" "tab ?s q = Some u" "tab ?s r = Some u" for q r u
      using vmm_wf_inj[OF wf that(1,2), of u] that tb by simp
  qed (use vmm_wf_base[OF wf] small in simp_all)
qed

lemma vmm_wf_set_new:
  assumes wf: "vmm_wf s" and t: "tab s p = Some t" "length p \<le> 2"
    and e: "bit e 0" "\<not> bit e 7" "e AND PTE_ADDR_MASK = P"
    and P: "unat P \<notin> avail_addrs (pmm s)" "\<And>q. length q \<le> 3 \<Longrightarrow> tab s q \<noteq> Some P" "\<And>j. ptm s P j = 0"
  shows "vmm_wf (set_entry t i e s)" "tab (set_entry t i e s) (i # p) = Some P"
    "length q \<le> 4 \<Longrightarrow> \<not> extends q (i # p) \<Longrightarrow> tab (set_entry t i e s) q = tab s q"
    "extends q (i # p) \<Longrightarrow> q \<noteq> i # p \<Longrightarrow> tab (set_entry t i e s) q = None"
proof -
  let ?s = "set_entry t i e s"
  have l3: "length p \<le> 3" using t(2) by simp
  show new: "tab ?s (i # p) = Some P" using tab_set_entry_same[OF wf t(1) l3] e by simp
  show old: "length q \<le> 4 \<Longrightarrow> \<not> extends q (i # p) \<Longrightarrow> tab ?s q = tab s q" for q
    using tab_set_entry_other[OF wf t(1) l3] .
  have Pt: "P \<noteq> t" using P(2)[OF l3] t(1) by auto
  have deep: "tab ?s (r @ i # p) = None" if "r \<noteq> []" for r using that
  proof (induction r)
    case (Cons j r)
    then show ?case
    proof (cases "r = []")
      case True
      then show ?thesis using new P(3) Pt by simp
    next
      case False
      then show ?thesis using Cons by simp
    qed
  qed simp
  then show "extends q (i # p) \<Longrightarrow> q \<noteq> i # p \<Longrightarrow> tab ?s q = None" for q
    unfolding extends_def by (metis append_Nil)
  have tabs: "tab ?s q = Some u \<Longrightarrow> length q \<le> 3 \<Longrightarrow> q = i # p \<and> u = P \<or> q \<noteq> i # p \<and> tab s q = Some u" for q u
  proof (cases "extends q (i # p)")
    case True
    then obtain r where "q = r @ i # p" by (auto simp: extends_def)
    then show "tab ?s q = Some u \<Longrightarrow> ?thesis" using deep[of r] new by (cases "r = []") auto
  next
    case False
    then show "tab ?s q = Some u \<Longrightarrow> length q \<le> 3 \<Longrightarrow> ?thesis" using old[of q] by (auto simp: extends_def)
  qed
  have tables: "unat u \<notin> avail_addrs (pmm s)" if "length q \<le> 3" "tab ?s q = Some u" for q u
    using tabs[OF that(2,1)] P(1) vmm_wf_tables[OF wf] that(1) by blast
  have inj: "q = r" if "length q \<le> 3" "length r \<le> 3" "tab ?s q = Some u" "tab ?s r = Some u" for q r u
    using tabs[OF that(3,1)] tabs[OF that(4,2)] P(2) vmm_wf_inj[OF wf that(1,2)] that(1,2) by blast
  have small: "\<not> bit (ptm ?s u j) 7" if "length q = 1 \<or> length q = 2" "tab ?s q = Some u" "bit (ptm ?s u j) 0" for q u j
  proof (cases "u = t \<and> j = i")
    case False
    then have b: "bit (ptm s u j) 0" "ptm ?s u j = ptm s u j" using that(3) by auto
    then have "u \<noteq> P" using P(3) by auto
    then have "tab s q = Some u" using tabs[OF that(2)] that(1) by auto
    then show ?thesis using vmm_wf_small[OF wf that(1)] b by simp
  qed (use e in simp)
  show "vmm_wf ?s"
    by (rule vmm_wfI) (use vmm_wf_base[OF wf] tables inj small in simp_all)
qed

lemma tab_None_extends: "tab s p = None \<Longrightarrow> extends q p \<Longrightarrow> tab s q = None"
proof -
  have "tab s p = None \<Longrightarrow> tab s (r @ p) = None" for r by (induction r) simp_all
  then show "tab s p = None \<Longrightarrow> extends q p \<Longrightarrow> tab s q = None" by (auto simp: extends_def)
qed

lemma vmm_next_table_fields:
  assumes "vmm_next_table flags t i s = Some (u, s')"
  shows "pml4_phys s' = pml4_phys s" "current_pml4 s' = current_pml4 s" "hhdm_off s' = hhdm_off s"
  using assms
  by (auto simp: vmm_next_table_def Let_def zero_table_def set_entry_def pml4_phys_def split: if_splits prod.splits)

lemma vmm_next_table_ok:
  assumes wf: "vmm_wf s" and t: "tab s p = Some t" "length p \<le> 2"
    and nt: "vmm_next_table flags t i s = Some (u, s')"
  shows "vmm_wf s'" "tab s' (i # p) = Some u" "length q \<le> 4 \<Longrightarrow> q \<noteq> i # p \<Longrightarrow> tab s' q = tab s q"
proof -
  have "vmm_wf s' \<and> tab s' (i # p) = Some u \<and> (\<forall>q. length q \<le> 4 \<longrightarrow> q \<noteq> i # p \<longrightarrow> tab s' q = tab s q)"
  proof (cases "bit (ptm s t i) 0")
    case True
    let ?e = "ptm s t i OR (flags AND PTE_USER)"
    have s': "s' = set_entry t i ?e s" "u = ?e AND PTE_ADDR_MASK"
      using nt True by (auto simp: vmm_next_table_def bits)
    have tb: "tab s' q = tab s q" if "length q \<le> 4" for q
      by (rule tab_cong[OF _ _ that]) (simp_all add: s' or_user)
    have small: "bit (ptm s' v j) 0 = bit (ptm s v j) 0 \<and> bit (ptm s' v j) 7 = bit (ptm s v j) 7" for v j
      by (simp add: s' or_user)
    have "vmm_wf s'"
    proof (rule vmm_wfI)
      show "unat v \<notin> avail_addrs (pmm s')" if "length q \<le> 3" "tab s' q = Some v" for q v
        using vmm_wf_tables[OF wf that(1), of v] that tb by (simp add: s'(1))
      show "q = r" if "length q \<le> 3" "length r \<le> 3" "tab s' q = Some v" "tab s' r = Some v" for q r v
        using vmm_wf_inj[OF wf that(1,2), of v] that tb by simp
      show "\<not> bit (ptm s' v j) 7" if "length q = 1 \<or> length q = 2" "tab s' q = Some v" "bit (ptm s' v j) 0" for q v j
        using vmm_wf_small[OF wf that(1), of v j] that tb[of q] small by auto
    qed (use vmm_wf_base[OF wf] in \<open>simp_all add: s'(1)\<close>)
    moreover have "tab s' (i # p) = Some u" using tb[of "i # p"] t True by (simp add: s'(2) or_user)
    ultimately show ?thesis using tb by blast
  next
    case False
    obtain n pm where a: "pmm_alloc_frame (pmm s) = (n, pm)" by force
    let ?z = "zero_table (word_of_nat n) (s\<lparr>pmm := pm\<rparr>)"
    let ?e = "word_of_nat n OR (PTE_PRESENT OR PTE_WRITABLE OR (flags AND PTE_USER))"
    have n: "n \<noteq> 0" and s': "s' = set_entry t i ?e ?z" "u = ?e AND PTE_ADDR_MASK"
      using nt False by (auto simp: vmm_next_table_def bits a Let_def split: if_splits)
    note f = vmm_wf_fresh[OF wf a n] note ab = avail_addr_bounds[OF wf f(1)]
    note fe = frame_entry[OF ab(1,2), of flags]
    have wz: "vmm_wf ?z" by (rule vmm_wf_zero[OF wf a n])
    have tz: "tab ?z q = tab s q" if "length q \<le> 4" for q by (rule tab_zero_table[OF wf a n that])
    have notab: "tab ?z q \<noteq> Some (word_of_nat n)" if "length q \<le> 3" for q
      using vmm_wf_tables[OF wf that, of "word_of_nat n"] tz[of q] that f(1) ab(3) by auto
    have av: "unat (word_of_nat n :: u64) \<notin> avail_addrs (pmm ?z)"
      using f(2) ab(3) by (simp add: zero_table_def)
    have tp: "tab ?z p = Some t" using tz t by simp
    have zt: "ptm ?z (word_of_nat n) j = 0" for j by (simp add: zero_table_def)
    note N = vmm_wf_set_new[OF wz tp t(2) fe av notab zt, where i = i]
    have none: "tab s (i # p) = None" using False t by simp
    have "tab s' q = tab s q" if "length q \<le> 4" "q \<noteq> i # p" for q
    proof (cases "extends q (i # p)")
      case True
      then show ?thesis using N(4) that tab_None_extends[OF none True] by (simp add: s'(1))
    next
      case False
      then show ?thesis using N(3) that tz by (simp add: s'(1))
    qed
    then show ?thesis using N(1,2) fe(3) by (simp add: s')
  qed
  then show "vmm_wf s'" "tab s' (i # p) = Some u" "length q \<le> 4 \<Longrightarrow> q \<noteq> i # p \<Longrightarrow> tab s' q = tab s q" by blast+
qed

section \<open>Mapping a page\<close>

lemma walk_tab:
  assumes wf: "vmm_wf s"
  shows "walk_page s (pml4_phys s) v = (case tab s (vpath v) of None \<Rightarrow> 0 | Some f \<Rightarrow> f + (v AND 0xFFF))"
proof -
  let ?e4 = "ptm s (pml4_phys s) (PML4_INDEX v)"
  let ?e3 = "ptm s (?e4 AND PTE_ADDR_MASK) (PDPT_INDEX v)"
  let ?e2 = "ptm s (?e3 AND PTE_ADDR_MASK) (PD_INDEX v)"
  have h3: "\<not> bit ?e3 7" if "bit ?e4 0" "bit ?e3 0"
    using vmm_wf_small[OF wf, of "[PML4_INDEX v]"] that by simp
  have h2: "\<not> bit ?e2 7" if "bit ?e4 0" "bit ?e3 0" "bit ?e2 0"
    using vmm_wf_small[OF wf, of "[PDPT_INDEX v, PML4_INDEX v]"] that by simp
  show ?thesis using h3 h2 by (simp add: walk_page_def vpath_def Let_def bits)
qed

lemma vmm_map_page_tab:
  assumes wf: "vmm_wf s" and m: "vmm_map_page v ph fl s = Some s'"
  shows "vmm_wf s'" "pml4_phys s' = pml4_phys s" "hhdm_off s' = hhdm_off s" "current_pml4 s' = current_pml4 s"
    "tab s' (vpath v) = (if bit ((ph AND PTE_ADDR_MASK) OR fl) 0
       then Some (((ph AND PTE_ADDR_MASK) OR fl) AND PTE_ADDR_MASK) else None)"
    "vpath w \<noteq> vpath v \<Longrightarrow> tab s' (vpath w) = tab s (vpath w)"
proof -
  have c: "current_pml4 s \<noteq> 0" using wf by (rule vmm_wf_base)
  obtain t3 s1 t2 s2 t1 s3 where
    n3: "vmm_next_table fl (pml4_phys s) (PML4_INDEX v) s = Some (t3, s1)" and
    n2: "vmm_next_table fl t3 (PDPT_INDEX v) s1 = Some (t2, s2)" and
    n1: "vmm_next_table fl t2 (PD_INDEX v) s2 = Some (t1, s3)" and
    s': "s' = set_entry t1 (PT_INDEX v) ((ph AND PTE_ADDR_MASK) OR fl) s3"
    using m c by (auto simp: vmm_map_page_def split: option.splits)
  note fld = vmm_next_table_fields[OF n3] vmm_next_table_fields[OF n2] vmm_next_table_fields[OF n1]
  have p0: "tab s [] = Some (pml4_phys s)" by simp
  note A = vmm_next_table_ok[OF wf p0 _ n3]
  note B = vmm_next_table_ok[OF A(1) A(2) _ n2]
  note C = vmm_next_table_ok[OF B(1) B(2) _ n1]
  let ?p = "[PD_INDEX v, PDPT_INDEX v, PML4_INDEX v]"
  have wf3: "vmm_wf s3" and tp: "tab s3 ?p = Some t1" using C(1,2) by simp_all
  have same: "tab s3 q = tab s q" if "length q = 4" for q
  proof -
    have "q \<noteq> r" if "length r < 4" for r using that \<open>length q = 4\<close> by auto
    then show ?thesis using A(3)[of q] B(3)[of q] C(3)[of q] that by simp
  qed
  show "vmm_wf s'" unfolding s' by (rule vmm_wf_set_leaf[OF wf3 tp]) simp
  show "pml4_phys s' = pml4_phys s" "hhdm_off s' = hhdm_off s" "current_pml4 s' = current_pml4 s"
    using fld by (simp_all add: s')
  show "tab s' (vpath v) = (if bit ((ph AND PTE_ADDR_MASK) OR fl) 0
       then Some (((ph AND PTE_ADDR_MASK) OR fl) AND PTE_ADDR_MASK) else None)"
    unfolding s' vpath_def by (rule tab_set_entry_same[OF wf3 tp]) simp
  show "tab s' (vpath w) = tab s (vpath w)" if "vpath w \<noteq> vpath v"
  proof -
    have "\<not> extends (vpath w) (vpath v)" using that by (auto simp: extends_def vpath_def append_eq_Cons_conv)
    then have "tab s' (vpath w) = tab s3 (vpath w)"
      unfolding s' vpath_def[of v] by (intro tab_set_entry_other[OF wf3 tp]) (simp_all add: vpath_def)
    then show ?thesis using same[of "vpath w"] by (simp add: vpath_def)
  qed
qed

section \<open>Unmapping, progress and initialisation\<close>

lemma vmm_unmap_cases:
  assumes "current_pml4 s \<noteq> 0"
  obtains (hit) t where "tab s [PD_INDEX v, PDPT_INDEX v, PML4_INDEX v] = Some t"
    "vmm_unmap_page v s = set_entry t (PT_INDEX v) 0 s"
  | (miss) "tab s [PD_INDEX v, PDPT_INDEX v, PML4_INDEX v] = None" "vmm_unmap_page v s = s"
proof -
  let ?e4 = "ptm s (pml4_phys s) (PML4_INDEX v)"
  let ?e3 = "ptm s (?e4 AND PTE_ADDR_MASK) (PDPT_INDEX v)"
  let ?e2 = "ptm s (?e3 AND PTE_ADDR_MASK) (PD_INDEX v)"
  show thesis
  proof (cases "bit ?e4 0 \<and> bit ?e3 0 \<and> bit ?e2 0")
    case True
    then show thesis using assms by (intro hit[of "?e2 AND PTE_ADDR_MASK"]) (simp_all add: vmm_unmap_page_def and_present)
  next
    case False
    then show thesis using assms by (intro miss) (auto simp: vmm_unmap_page_def Let_def and_present)
  qed
qed

lemma vmm_unmap_page_tab:
  assumes wf: "vmm_wf s"
  shows "vmm_wf (vmm_unmap_page v s)" "tab (vmm_unmap_page v s) (vpath v) = None"
    "pml4_phys (vmm_unmap_page v s) = pml4_phys s" "hhdm_off (vmm_unmap_page v s) = hhdm_off s"
    "current_pml4 (vmm_unmap_page v s) = current_pml4 s"
    "vpath w \<noteq> vpath v \<Longrightarrow> tab (vmm_unmap_page v s) (vpath w) = tab s (vpath w)"
proof -
  let ?p = "[PD_INDEX v, PDPT_INDEX v, PML4_INDEX v]"
  have c: "current_pml4 s \<noteq> 0" by (rule vmm_wf_base(3)[OF wf])
  have "vmm_wf (vmm_unmap_page v s) \<and> tab (vmm_unmap_page v s) (vpath v) = None \<and>
    pml4_phys (vmm_unmap_page v s) = pml4_phys s \<and> hhdm_off (vmm_unmap_page v s) = hhdm_off s \<and>
    current_pml4 (vmm_unmap_page v s) = current_pml4 s \<and>
    (\<forall>w. vpath w \<noteq> vpath v \<longrightarrow> tab (vmm_unmap_page v s) (vpath w) = tab s (vpath w))"
  proof (cases rule: vmm_unmap_cases[OF c, where v = v, case_names hit miss])
    case (hit t)
    have "tab (set_entry t (PT_INDEX v) 0 s) (vpath v) = None"
      unfolding vpath_def by (subst tab_set_entry_same[OF wf hit(1)]) simp_all
    moreover have "tab (set_entry t (PT_INDEX v) 0 s) (vpath w) = tab s (vpath w)" if "vpath w \<noteq> vpath v" for w
    proof -
      have "\<not> extends (vpath w) (vpath v)" using that by (auto simp: extends_def vpath_def append_eq_Cons_conv)
      then show ?thesis unfolding vpath_def[of v] by (intro tab_set_entry_other[OF wf hit(1)]) (simp_all add: vpath_def)
    qed
    ultimately show ?thesis using vmm_wf_set_leaf[OF wf hit(1)] by (simp add: hit(2))
  next
    case miss
    then show ?thesis using wf by (simp add: vpath_def)
  qed
  then show "vmm_wf (vmm_unmap_page v s)" "tab (vmm_unmap_page v s) (vpath v) = None"
    "pml4_phys (vmm_unmap_page v s) = pml4_phys s" "hhdm_off (vmm_unmap_page v s) = hhdm_off s"
    "current_pml4 (vmm_unmap_page v s) = current_pml4 s"
    "vpath w \<noteq> vpath v \<Longrightarrow> tab (vmm_unmap_page v s) (vpath w) = tab s (vpath w)" by blast+
qed

lemma vmm_next_table_progress:
  assumes wf: "vmm_wf s" and n: "Suc k \<le> card (avail_addrs (pmm s))"
  shows "\<exists>u s'. vmm_next_table flags t i s = Some (u, s') \<and> k \<le> card (avail_addrs (pmm s'))"
proof -
  have inv: "pmm_inv (pmm s)" using wf by (rule vmm_wf_base)
  have fin: "finite (avail_addrs (pmm s))" by (rule pmm.finite_avail_law[OF inv])
  have ne: "avail_addrs (pmm s) \<noteq> {}"
  proof
    assume "avail_addrs (pmm s) = {}"
    then have "card (avail_addrs (pmm s)) = 0" by (simp only: card.empty)
    then show False using n by linarith
  qed
  obtain p pm where a: "pmm_alloc_frame (pmm s) = (p, pm)" by force
  have p: "p \<noteq> 0" using pmm.alloc_null_iff[OF inv] a ne by simp
  have "card (avail_addrs pm) = card (avail_addrs (pmm s)) - 1"
    using vmm_wf_fresh(1,2)[OF wf a p] fin by (simp add: card_Diff_singleton)
  then have "k \<le> card (avail_addrs pm)" "k \<le> card (avail_addrs (pmm s))" using n by linarith+
  then show ?thesis using p by (simp add: vmm_next_table_def a Let_def zero_table_def)
qed

lemma vmm_map_page_progress:
  assumes wf: "vmm_wf s" and n: "3 + k \<le> card (avail_addrs (pmm s))"
  shows "\<exists>s'. vmm_map_page v ph fl s = Some s' \<and> k \<le> card (avail_addrs (pmm s'))"
proof -
  obtain t3 s1 where n3: "vmm_next_table fl (pml4_phys s) (PML4_INDEX v) s = Some (t3, s1)" and a1: "2 + k \<le> card (avail_addrs (pmm s1))"
    using vmm_next_table_progress[OF wf, of "2 + k" fl "pml4_phys s" "PML4_INDEX v"] n by auto
  note A = vmm_next_table_ok[OF wf _ _ n3, of "[]"]
  have w1: "vmm_wf s1" "tab s1 [PML4_INDEX v] = Some t3" using A by simp_all
  obtain t2 s2 where n2: "vmm_next_table fl t3 (PDPT_INDEX v) s1 = Some (t2, s2)" and a2: "1 + k \<le> card (avail_addrs (pmm s2))"
    using vmm_next_table_progress[OF w1(1), of "1 + k" fl t3 "PDPT_INDEX v"] a1 by auto
  have w2: "vmm_wf s2" using vmm_next_table_ok(1)[OF w1 _ n2] by simp
  obtain t1 s3 where n1: "vmm_next_table fl t2 (PD_INDEX v) s2 = Some (t1, s3)" "k \<le> card (avail_addrs (pmm s3))"
    using vmm_next_table_progress[OF w2, of k fl t2 "PD_INDEX v"] a2 by auto
  show ?thesis using vmm_wf_base(3)[OF wf] n3 n2 n1 by (simp add: vmm_map_page_def)
qed

lemma vmm_map_pages_wf: "vmm_wf s \<Longrightarrow> vmm_map_pages ps s = Some s' \<Longrightarrow> vmm_wf s'"
  by (induction ps s rule: vmm_map_pages.induct) (auto dest: vmm_map_page_tab(1) split: option.splits)

lemma vmm_copy_pages_wf: "vmm_wf s \<Longrightarrow> vmm_copy_pages l vs s = Some s' \<Longrightarrow> vmm_wf s'"
  by (induction l vs s rule: vmm_copy_pages.induct) (auto dest: vmm_map_pages_wf split: option.splits)

lemma vmm_wf_root:
  assumes inv: "pmm_inv (pmm s)" "total_frames (pmm s) \<le> 2 ^ 40" and a: "pmm_alloc_frame (pmm s) = (n, pm)" "n \<noteq> 0"
    and h: "word_of_nat n + hhdm \<noteq> 0"
  shows "vmm_wf (zero_table (word_of_nat n) (s\<lparr>pmm := pm, hhdm_off := hhdm, current_pml4 := word_of_nat n + hhdm\<rparr>))"
    (is "vmm_wf ?s")
proof -
  have ne: "avail_addrs (pmm s) \<noteq> {}" using pmm.alloc_null_iff[OF inv(1)] a by simp
  have f: "n \<in> avail_addrs (pmm s)" "avail_addrs pm = avail_addrs (pmm s) - {n}" "pmm_inv pm"
    using pmm.alloc_fresh[OF inv(1) ne] pmm.alloc_ok[OF inv(1)] a by simp_all
  have "n div PAGE_SIZE < total_frames (pmm s)" using f(1) by (simp add: avail_addrs_iff avail_frames_def)
  then have "n < 2 ^ 64" using inv(2) by auto
  then have un: "unat (word_of_nat n :: u64) = n" by (simp add: unsigned_of_nat take_bit_nat_eq_self)
  have tf: "total_frames pm = total_frames (pmm s)" using a by (auto simp: pmm_alloc_frame_def split: option.splits)
  have root: "pml4_phys ?s = word_of_nat n" by (simp add: pml4_phys_def zero_table_def)
  have z: "ptm ?s (word_of_nat n) j = 0" for j by (simp add: zero_table_def)
  have tb: "tab ?s q = (if q = [] then Some (word_of_nat n) else None)" for q
    by (induction q) (simp_all add: root z)
  show ?thesis
    by (rule vmm_wfI) (use f inv(2) h un tf tb in \<open>auto simp: z zero_table_def split: if_splits\<close>)
qed

definition in_hhdm_window :: "vmm_state \<Rightarrow> u64 \<Rightarrow> bool" where
  "in_hhdm_window s v \<longleftrightarrow> hhdm_off s \<le> v \<and> v < hhdm_off s + 0x1000000000"

lemma virt_to_phys_tab:
  assumes "vmm_wf s" "\<not> in_hhdm_window s v"
  shows "vmm_virt_to_phys s v = (case tab s (vpath v) of None \<Rightarrow> 0 | Some f \<Rightarrow> f + (v AND 0xFFF))"
  using assms vmm_wf_base(3)[OF assms(1)] walk_tab[OF assms(1)]
  by (auto simp: vmm_virt_to_phys_def in_hhdm_window_def)

section \<open>Properties\<close>

text \<open>C6: After mapping a page with the present flag and no address bits among the flags, the page tables translate the address to
  the mapped frame plus the page offset, the translation of every address on another page is unchanged, and the tables stay a tree
  whose frames are not available in the frame allocator.  \<^verbatim>\<open>vmm_virt_to_phys\<close> returns that translation for every
  address outside the direct-map window; for an address inside the window it returns the distance to the start of the window,
  whatever is mapped there.\<close>

theorem vmm_map_then_translate:
  assumes "vmm_wf s" "vmm_map_page v phys flags s = Some s'" "bit flags 0" "flags AND PTE_ADDR_MASK = 0"
  shows "vmm_wf s' \<and> walk_page s' (pml4_phys s') v = (phys AND PTE_ADDR_MASK) + (v AND 0xFFF) \<and>
    vmm_virt_to_phys s' v = (if in_hhdm_window s v then v - hhdm_off s else (phys AND PTE_ADDR_MASK) + (v AND 0xFFF)) \<and>
    (\<forall>w. vpath w \<noteq> vpath v \<longrightarrow> walk_page s' (pml4_phys s') w = walk_page s (pml4_phys s) w \<and>
       vmm_virt_to_phys s' w = vmm_virt_to_phys s w)"
proof -
  note T = vmm_map_page_tab[OF assms(1,2)]
  let ?e = "(phys AND PTE_ADDR_MASK) OR flags"
  have e: "bit ?e 0" using assms(3) by (simp add: bit_or_iff)
  have "?e AND PTE_ADDR_MASK = (phys AND PTE_ADDR_MASK) OR (flags AND PTE_ADDR_MASK)"
    by (rule bit_word_eqI) (auto simp only: bit_and_iff bit_or_iff)
  then have m: "?e AND PTE_ADDR_MASK = phys AND PTE_ADDR_MASK" using assms(4) by simp
  have w: "in_hhdm_window s' x = in_hhdm_window s x" for x using T(3) by (simp add: in_hhdm_window_def)
  have other: "vmm_virt_to_phys s' x = vmm_virt_to_phys s x" if "vpath x \<noteq> vpath v" for x
  proof (cases "in_hhdm_window s x")
    case True
    then show ?thesis using T(3) by (simp add: vmm_virt_to_phys_def in_hhdm_window_def)
  next
    case False
    then show ?thesis using virt_to_phys_tab[OF T(1)] virt_to_phys_tab[OF assms(1)] w T(6)[OF that] by simp
  qed
  have walk: "walk_page s' (pml4_phys s') v = (phys AND PTE_ADDR_MASK) + (v AND 0xFFF)"
    using walk_tab[OF T(1)] T(5) e m by simp
  have walk_other: "walk_page s' (pml4_phys s') x = walk_page s (pml4_phys s) x" if "vpath x \<noteq> vpath v" for x
    using walk_tab[OF T(1)] walk_tab[OF assms(1)] T(6)[OF that] by simp
  have "vmm_virt_to_phys s' v = (if in_hhdm_window s v then v - hhdm_off s else (phys AND PTE_ADDR_MASK) + (v AND 0xFFF))"
  proof (cases "in_hhdm_window s v")
    case True
    then show ?thesis using T(3) by (simp add: vmm_virt_to_phys_def in_hhdm_window_def)
  next
    case False
    then show ?thesis using virt_to_phys_tab[OF T(1)] w T(5) e m by simp
  qed
  then show ?thesis using T(1) walk walk_other other by blast
qed

text \<open>Mapping never halts the machine while three frames are available, whatever page is mapped.\<close>

theorem vmm_map_page_total:
  assumes "vmm_wf s" "3 \<le> card (avail_addrs (pmm s))"
  shows "\<exists>s'. vmm_map_page v phys flags s = Some s' \<and> vmm_wf s'"
  using vmm_map_page_progress[OF assms(1), of 0 v phys flags] assms(2) vmm_map_page_tab(1)[OF assms(1)] by auto

text \<open>After unmapping, the address no longer translates, and no address on another page is affected.\<close>

theorem vmm_unmap_then_translate:
  assumes "vmm_wf s" "\<not> in_hhdm_window s v"
  shows "vmm_virt_to_phys (vmm_unmap_page v s) v = 0 \<and> vmm_wf (vmm_unmap_page v s) \<and>
    (\<forall>w. vpath w \<noteq> vpath v \<and> \<not> in_hhdm_window s w \<longrightarrow>
      vmm_virt_to_phys (vmm_unmap_page v s) w = vmm_virt_to_phys s w)"
proof -
  note T = vmm_unmap_page_tab[OF assms(1), where v = v]
  have w: "in_hhdm_window (vmm_unmap_page v s) x = in_hhdm_window s x" for x using T(4) by (simp add: in_hhdm_window_def)
  show ?thesis
    using virt_to_phys_tab[OF T(1)] virt_to_phys_tab[OF assms(1)] w T(1,2) assms(2) T(6) by simp
qed

text \<open>The page tables built at boot satisfy the tree invariant.\<close>

theorem vmm_init_establishes_wf:
  assumes "vmm_init hhdm mm kphys kvirt fb rsp limine_pml4 s = Some s'" "pmm_inv (pmm s)"
    "total_frames (pmm s) \<le> 2 ^ 40" "word_of_nat (fst (pmm_alloc_frame (pmm s))) + hhdm \<noteq> 0"
  shows "vmm_wf s'"
proof -
  obtain n pm where a: "pmm_alloc_frame (pmm s) = (n, pm)" by force
  let ?s1 = "zero_table (word_of_nat n) (s\<lparr>pmm := pm, hhdm_off := hhdm, current_pml4 := word_of_nat n + hhdm\<rparr>)"
  have n: "n \<noteq> 0" using assms(1) a by (cases "n = 0") (simp_all add: vmm_init_def)
  have w1: "vmm_wf ?s1" using assms a n by (intro vmm_wf_root) simp_all
  obtain s2 s3 s4 where "vmm_map_pages (concat (map (hhdm_pages hhdm) mm)) ?s1 = Some s2"
    "vmm_map_pages (run_pages kvirt kphys (vmm_kernel_size mm div PAGE_SIZE)) s2 = Some s3"
    "s4 = s3 \<or> (\<exists>vs. vmm_copy_pages limine_pml4 vs s3 = Some s4)"
    "vmm_copy_pages limine_pml4 (stack_pages rsp) s4 = Some s'"
    using assms(1) a n by (auto simp: vmm_init_def Let_def split: option.splits if_splits)
  then show ?thesis using w1 vmm_map_pages_wf vmm_copy_pages_wf by metis
qed

text \<open>The shortcut for direct-map addresses in \<^verbatim>\<open>vmm_virt_to_phys\<close> covers 64 GiB and with it the
  kernel heap, which lies 4 GiB above the usual direct-map base: for a heap page mapped to a frame
  below 4 GiB the function returns an address above 4 GiB, not the mapped frame.\<close>

theorem vmm_virt_to_phys_wrong_for_heap:
  assumes "hhdm_off s = 0xffff800000000000" "0xffff800100000000 \<le> v" "v < 0xffff800108000000"
    "vmm_map_page v phys flags s = Some s'" "hhdm_off s' = hhdm_off s" "phys < 0x100000000"
  shows "vmm_virt_to_phys s' v = v - hhdm_off s \<and> vmm_virt_to_phys s' v \<noteq> (phys AND PTE_ADDR_MASK) + (v AND 0xFFF)"
proof -
  have r: "vmm_virt_to_phys s' v = v - 0xffff800000000000"
    using assms(1,2,3,5) by (simp add: vmm_virt_to_phys_def word_le_nat_alt word_less_nat_alt)
  have b: "bit w 32 = odd (unat w div 2 ^ 32)" for w :: u64
    using bit_unsigned_iff[of w 32, where 'a = nat] by (simp add: bit_iff_odd)
  have "unat (v - 0xffff800000000000) = unat v - 0xffff800000000000"
    using assms(2) by (subst unat_sub) (simp_all add: word_le_nat_alt)
  then have "unat (v - 0xffff800000000000) div 2 ^ 32 = 1"
    using assms(2,3) by (simp add: word_le_nat_alt word_less_nat_alt)
  then have one: "bit (v - 0xffff800000000000) 32" by (simp add: b)
  have p32: "\<not> bit phys 32" using assms(6) by (simp add: b word_less_nat_alt)
  have m: "(0xFFF :: u64) = mask 12" by (simp add: mask_eq_exp_minus_1)
  have "(phys AND PTE_ADDR_MASK) AND (v AND 0xFFF) = 0"
    by (rule bit_word_eqI, unfold m bit_and_iff bit_addr_mask bit_mask_iff) auto
  then have "(phys AND PTE_ADDR_MASK) + (v AND 0xFFF) = (phys AND PTE_ADDR_MASK) OR (v AND 0xFFF)"
    by (rule disjunctive_add_eq_or)
  then have "\<not> bit ((phys AND PTE_ADDR_MASK) + (v AND 0xFFF)) 32"
    using p32 by (simp add: m bit_or_iff bit_and_iff bit_mask_iff)
  then show ?thesis using r one assms(1) by auto
qed

section \<open>Witnesses\<close>

definition wvmm :: vmm_state where
  "wvmm = \<lparr>pmm = wpmm, hhdm_off = 0xffff800000000000, current_pml4 = 0xffff800000001000, ptm = (\<lambda>_ _. 0)\<rparr>"

lemma wpmm_avail: "card (avail_addrs wpmm) = 7" "total_frames wpmm = 10" "4096 \<notin> avail_addrs wpmm"
proof -
  have "card (avail_frames wpmm) * PAGE_SIZE = 28672" using wpmm_inv by (simp add: pmm_inv_def wpmm_def)
  then have "card (avail_frames wpmm) = 7" by simp
  then show "card (avail_addrs wpmm) = 7" by (simp add: avail_addrs_def card_image inj_on_def)
  show "total_frames wpmm = 10" by (simp add: wpmm_def)
  have "frame_used [0x07, 0xFC] 1" by (simp add: frame_used_def)
  then show "4096 \<notin> avail_addrs wpmm" by (simp add: avail_addrs_iff avail_frames_def wpmm_def)
qed

lemma wvmm_wf: "vmm_wf wvmm"
proof -
  have root: "pml4_phys wvmm = 0x1000" by (simp add: pml4_phys_def wvmm_def)
  have z: "ptm wvmm t j = 0" for t j by (simp add: wvmm_def)
  have tb: "tab wvmm q = (if q = [] then Some 0x1000 else None)" for q by (induction q) (simp_all add: root z)
  show ?thesis
    by (rule vmm_wfI) (use wpmm_inv wpmm_avail tb in \<open>auto simp: z wvmm_def split: if_splits\<close>)
qed

lemma wvmm_avail: "card (avail_addrs (pmm wvmm)) = 7"
  by (simp add: wvmm_def wpmm_avail)

lemma wvmm_map: "\<exists>s'. vmm_map_page v ph fl wvmm = Some s' \<and> 4 \<le> card (avail_addrs (pmm s'))"
  using vmm_map_page_progress[OF wvmm_wf, of 4] wvmm_avail by simp

theorem vmm_map_then_translate_witness:
  "\<exists>s'. vmm_map_page 0x400000 0x5000 3 wvmm = Some s' \<and> vmm_virt_to_phys s' 0x400123 = vmm_virt_to_phys s' 0x400000 + 0x123
     \<and> vmm_virt_to_phys s' 0x400000 = 0x5000"
proof -
  obtain s' where m: "vmm_map_page 0x400000 0x5000 3 wvmm = Some s'" using wvmm_map by blast
  have w: "\<not> in_hhdm_window wvmm 0x400000" "\<not> in_hhdm_window wvmm 0x400123" by (simp_all add: in_hhdm_window_def wvmm_def)
  have "vmm_virt_to_phys s' 0x400000 = 0x5000" and wf: "vmm_wf s'"
    using vmm_map_then_translate[OF wvmm_wf m] w(1) by simp_all
  moreover have "vpath 0x400123 = vpath 0x400000"
    by (simp add: vpath_def PT_INDEX_def PD_INDEX_def PDPT_INDEX_def PML4_INDEX_def)
  moreover have "in_hhdm_window s' x = in_hhdm_window wvmm x" for x
    using vmm_map_page_tab(3)[OF wvmm_wf m] by (simp add: in_hhdm_window_def)
  ultimately show ?thesis using m w virt_to_phys_tab[OF wf] by (auto split: option.splits)
qed

theorem vmm_map_page_total_witness: "\<exists>s'. vmm_map_page 0x400000 0x5000 3 wvmm = Some s' \<and> vmm_wf s'"
  using vmm_map_page_total[OF wvmm_wf] wvmm_avail by simp

theorem vmm_unmap_then_translate_witness: "vmm_virt_to_phys (vmm_unmap_page 0x400000 wvmm) 0x400000 = 0"
  using vmm_unmap_then_translate[OF wvmm_wf, of "0x400000"] by (simp add: in_hhdm_window_def wvmm_def)

theorem vmm_virt_to_phys_wrong_for_heap_witness:
  "\<exists>s'. vmm_map_page 0xffff800100000000 0x5000 3 wvmm = Some s' \<and> vmm_virt_to_phys s' 0xffff800100000000 = 0x100000000"
proof -
  obtain s' where m: "vmm_map_page 0xffff800100000000 0x5000 3 wvmm = Some s'" using wvmm_map by blast
  have h: "hhdm_off wvmm = 0xffff800000000000" by (simp add: wvmm_def)
  have "vmm_virt_to_phys s' 0xffff800100000000 = 0xffff800100000000 - hhdm_off wvmm"
    using vmm_virt_to_phys_wrong_for_heap[OF h _ _ m vmm_map_page_tab(3)[OF wvmm_wf m]] by simp
  then show ?thesis using m h by simp
qed

definition wkernel :: "memmap_entry list" where
  "wkernel = [\<lparr>me_base = 0x5000, me_length = 4096, me_type = 6\<rparr>]"

theorem vmm_init_establishes_wf_witness:
  "\<exists>s'. vmm_init 0xffff800000000000 wkernel 0x5000 0xffffffff80000000 None 0 0 wvmm = Some s' \<and> vmm_wf s'"
proof -
  obtain n pm where a: "pmm_alloc_frame wpmm = (n, pm)" by force
  then have n: "n = 12288" using wpmm_alloc by simp
  let ?s1 = "zero_table (word_of_nat n) (wvmm\<lparr>pmm := pm, hhdm_off := 0xffff800000000000,
      current_pml4 := word_of_nat n + 0xffff800000000000\<rparr>)"
  have w1: "vmm_wf ?s1" using wpmm_inv a wpmm_avail n by (intro vmm_wf_root) (simp_all add: wvmm_def)
  have "card (avail_addrs pm) = 6"
    using wpmm_avail(1) vmm_wf_fresh(1,2)[OF wvmm_wf] a n by (simp add: wvmm_def card_Diff_singleton)
  then have c1: "3 + 3 \<le> card (avail_addrs (pmm ?s1))" by (simp add: zero_table_def)
  have hp: "concat (map (hhdm_pages 0xffff800000000000) wkernel) = [(0xffff800000005000, 0x5000)]"
    by (simp add: wkernel_def hhdm_pages_def wrap64_def)
  have kp: "run_pages 0xffffffff80000000 0x5000 (vmm_kernel_size wkernel div PAGE_SIZE) = [(0xffffffff80000000, 0x5000)]"
    "vmm_kernel_size wkernel \<noteq> 0"
    by (simp_all add: wkernel_def vmm_kernel_size_def wrap64_def run_pages_def)
  have sp: "stack_pages 0 = []" by (simp add: stack_pages_def)
  obtain s2 where m2: "vmm_map_page 0xffff800000005000 0x5000 (PTE_PRESENT OR PTE_WRITABLE) ?s1 = Some s2"
      and c2: "3 \<le> card (avail_addrs (pmm s2))"
    using vmm_map_page_progress[OF w1 c1] by blast
  have w2: "vmm_wf s2" by (rule vmm_map_page_tab(1)[OF w1 m2])
  obtain s3 where m3: "vmm_map_page 0xffffffff80000000 0x5000 (PTE_PRESENT OR PTE_WRITABLE) s2 = Some s3"
    using vmm_map_page_progress[OF w2, of 0 "0xffffffff80000000" "0x5000" "PTE_PRESENT OR PTE_WRITABLE"] c2 by auto
  have i: "vmm_init 0xffff800000000000 wkernel 0x5000 0xffffffff80000000 None 0 0 wvmm = Some s3"
  proof -
    have p: "pmm wvmm = wpmm" by (simp add: wvmm_def)
    show ?thesis
      unfolding vmm_init_def Let_def p a prod.case hp kp(1) sp using n m2 m3 kp(2) by simp
  qed
  show ?thesis using i vmm_init_establishes_wf[OF i] wpmm_inv wpmm_avail a n by (simp add: wvmm_def)
qed

end
