(* ===== verification/Heap.thy ===== *)
theory Heap
  imports Vmm
begin

unbundle bit_operations_syntax

text \<open>
  The kernel heap, \<^verbatim>\<open>src/kernel/heap.c\<close>: a first-fit free list with block
  splitting, forward coalescing and growth page by page.  The chain of block
  headers starting at \<^verbatim>\<open>heap_head\<close> is the list \<open>blocks\<close>, each header with the address
  it lies at; the \<^verbatim>\<open>next\<close> pointer is the following element.  \<^verbatim>\<open>size_t\<close> values are naturals
  with \<open>wrap64\<close> where the code's arithmetic can overflow.  A call that does not return,
  because the page-table code halts or the retry never ends, has the value \<open>None\<close>.
\<close>

section \<open>State\<close>

abbreviation HEAP_BASE :: nat where "HEAP_BASE \<equiv> 0xffff800100000000"
abbreviation HEAP_MAX_SIZE :: nat where "HEAP_MAX_SIZE \<equiv> 0x8000000"
abbreviation HEAP_ALIGN :: nat where "HEAP_ALIGN \<equiv> 16"
abbreviation HDR :: nat where "HDR \<equiv> 32"
abbreviation HEAP_MAGIC_FREE :: u32 where "HEAP_MAGIC_FREE \<equiv> 0xDEADF8EE"
abbreviation HEAP_MAGIC_USED :: u32 where "HEAP_MAGIC_USED \<equiv> 0xC0FFEE42"
abbreviation HEAP_INIT_PAGES :: nat where "HEAP_INIT_PAGES \<equiv> 1024"

record heap_block =
  baddr :: nat
  magic :: u32
  bfree :: bool
  bsize :: nat

record heap_state =
  blocks :: "heap_block list"
  heap_base :: nat
  heap_end :: nat
  heap_ceiling :: nat
  hvmm :: vmm_state
  hbytes :: "nat \<Rightarrow> u8"

definition free_block :: "nat \<Rightarrow> nat \<Rightarrow> heap_block" where
  "free_block a n = \<lparr>baddr = a, magic = HEAP_MAGIC_FREE, bfree = True, bsize = n\<rparr>"

section \<open>Operations\<close>

definition align_up :: "nat \<Rightarrow> nat" where
  "align_up n = wrap64 (n + (HEAP_ALIGN - 1)) div HEAP_ALIGN * HEAP_ALIGN"

text \<open>Mapping of new pages: \<open>Some (True, _)\<close> when all pages are mapped, \<open>Some (False, _)\<close> when the frame
  allocator is exhausted.\<close>

fun heap_map_pages :: "nat \<Rightarrow> nat \<Rightarrow> vmm_state \<Rightarrow> (bool \<times> vmm_state) option" where
  "heap_map_pages 0 virt v = Some (True, v)"
| "heap_map_pages (Suc n) virt v =
     (let (phys, pm) = pmm_alloc_frame (pmm v); v1 = v\<lparr>pmm := pm\<rparr> in
      if phys = 0 then Some (False, v1)
      else
        case vmm_map_page (word_of_nat virt) (word_of_nat phys) (PTE_PRESENT OR PTE_WRITABLE) v1 of
          None \<Rightarrow> None
        | Some v2 \<Rightarrow> heap_map_pages n (virt + PAGE_SIZE) v2)"

definition grow_heap :: "nat \<Rightarrow> heap_state \<Rightarrow> (heap_block option \<times> heap_state) option" where
  "grow_heap bytes_needed h =
     (let total = wrap64 (HDR + bytes_needed);
          n_pages = wrap64 (total + PAGE_SIZE - 1) div PAGE_SIZE;
          n_bytes = n_pages * PAGE_SIZE
      in if wrap64 (heap_end h + n_bytes) > heap_ceiling h then Some (None, h)
         else
           case heap_map_pages n_pages (heap_end h) (hvmm h) of
             None \<Rightarrow> None
           | Some (False, v) \<Rightarrow> Some (None, h\<lparr>hvmm := v\<rparr>)
           | Some (True, v) \<Rightarrow>
               Some (Some (free_block (heap_end h) (wrap64 (n_bytes + 2 ^ 64 - HDR))),
                     h\<lparr>hvmm := v, heap_end := wrap64 (heap_end h + n_bytes)\<rparr>))"

definition heap_init :: "heap_state \<Rightarrow> heap_state option" where
  "heap_init h =
     (case heap_map_pages HEAP_INIT_PAGES HEAP_BASE (hvmm h) of
        Some (True, v) \<Rightarrow>
          Some (h\<lparr>heap_base := HEAP_BASE, heap_end := HEAP_BASE + HEAP_INIT_PAGES * PAGE_SIZE,
                  heap_ceiling := HEAP_BASE + HEAP_MAX_SIZE, hvmm := v,
                  blocks := [free_block HEAP_BASE (HEAP_INIT_PAGES * PAGE_SIZE - HDR)]\<rparr>)
      | _ \<Rightarrow> None)"

datatype walk = Corrupt | Not_found | Found nat "heap_block list"

definition take_block :: "nat \<Rightarrow> heap_block \<Rightarrow> heap_block list" where
  "take_block alloc_size b =
     (let remainder = bsize b - alloc_size;
          used = b\<lparr>magic := HEAP_MAGIC_USED, bfree := False\<rparr>
      in if remainder > HDR + HEAP_ALIGN
         then [used\<lparr>bsize := alloc_size\<rparr>, free_block (baddr b + HDR + alloc_size) (remainder - HDR)]
         else [used])"

fun kmalloc_walk :: "nat \<Rightarrow> heap_block list \<Rightarrow> walk" where
  "kmalloc_walk alloc_size [] = Not_found"
| "kmalloc_walk alloc_size (b # bs) =
     (if magic b \<noteq> HEAP_MAGIC_FREE \<and> magic b \<noteq> HEAP_MAGIC_USED then Corrupt
      else if bfree b \<and> bsize b \<ge> alloc_size then Found (baddr b + HDR) (take_block alloc_size b @ bs)
      else
        case kmalloc_walk alloc_size bs of
          Found p bs' \<Rightarrow> Found p (b # bs')
        | r \<Rightarrow> r)"

partial_function (option) kmalloc :: "nat \<Rightarrow> heap_state \<Rightarrow> (nat \<times> heap_state) option" where
  "kmalloc sz h =
     (if sz = 0 then Some (0, h)
      else
        case kmalloc_walk (align_up sz) (blocks h) of
          Corrupt \<Rightarrow> Some (0, h)
        | Found p bs \<Rightarrow> Some (p, h\<lparr>blocks := bs\<rparr>)
        | Not_found \<Rightarrow>
            (case grow_heap (align_up sz) h of
               None \<Rightarrow> None
             | Some r \<Rightarrow>
                 (case fst r of
                    None \<Rightarrow> Some (0, snd r)
                  | Some blk \<Rightarrow> kmalloc sz ((snd r)\<lparr>blocks := blocks (snd r) @ [blk]\<rparr>))))"

text \<open>The result of freeing a pointer.  A pointer whose header address is not a header of the chain
  makes the code read whatever bytes lie there; the model says nothing about it (\<open>None\<close>).\<close>

datatype kfree_result = Freed | Null_pointer | Double_free_detected | Bad_magic

fun kfree_walk :: "nat \<Rightarrow> heap_block list \<Rightarrow> (kfree_result \<times> heap_block list) option" where
  "kfree_walk a [] = None"
| "kfree_walk a (b # bs) =
     (if baddr b = a then
        if magic b \<noteq> HEAP_MAGIC_USED then
          Some (if magic b = HEAP_MAGIC_FREE then Double_free_detected else Bad_magic, b # bs)
        else
          let b1 = b\<lparr>magic := HEAP_MAGIC_FREE, bfree := True\<rparr> in
          Some (Freed,
           case bs of
             [] \<Rightarrow> [b1]
           | c # cs \<Rightarrow>
               if bfree c \<and> magic c = HEAP_MAGIC_FREE
               then b1\<lparr>bsize := wrap64 (bsize b + (HDR + bsize c))\<rparr> # cs
               else b1 # bs)
      else
        case kfree_walk a bs of
          None \<Rightarrow> None
        | Some (r, bs') \<Rightarrow> Some (r, b # bs'))"

definition kfree :: "nat \<Rightarrow> heap_state \<Rightarrow> (kfree_result \<times> heap_state) option" where
  "kfree ptr h =
     (if ptr = 0 then Some (Null_pointer, h)
      else
        case kfree_walk (ptr - HDR) (blocks h) of
          None \<Rightarrow> None
        | Some (r, bs) \<Rightarrow> Some (r, h\<lparr>blocks := bs\<rparr>))"

definition kcalloc :: "nat \<Rightarrow> nat \<Rightarrow> heap_state \<Rightarrow> (nat \<times> heap_state) option" where
  "kcalloc n sz h =
     (if sz \<noteq> 0 \<and> n > (2 ^ 64 - 1) div sz then Some (0, h)
      else
        case kmalloc (n * sz) h of
          None \<Rightarrow> None
        | Some (p, h1) \<Rightarrow>
            if p = 0 then Some (0, h1)
            else Some (p, h1\<lparr>hbytes := (\<lambda>a. if p \<le> a \<and> a < p + n * sz then 0 else hbytes h1 a)\<rparr>))"

text \<open>\<^verbatim>\<open>heap_dump\<close>: the totals it prints (free bytes, used bytes, number of blocks).\<close>

fun heap_dump :: "heap_block list \<Rightarrow> nat \<times> nat \<times> nat" where
  "heap_dump [] = (0, 0, 0)"
| "heap_dump (b # bs) =
     (let (f, u, n) = heap_dump bs in
      if magic b = HEAP_MAGIC_FREE then (f + bsize b, u, n + 1)
      else if magic b = HEAP_MAGIC_USED then (f, u + bsize b, n + 1)
      else (f, u, n + 1))"

section \<open>The heap invariant\<close>

text \<open>The blocks tile the mapped range from \<^verbatim>\<open>heap_base\<close> to \<^verbatim>\<open>heap_end\<close>, in address order and without
  gaps; a block's magic agrees with its flag; sizes keep every header on a multiple of 16.\<close>

fun chain :: "nat \<Rightarrow> heap_block list \<Rightarrow> nat \<Rightarrow> bool" where
  "chain a [] e = (a = e)"
| "chain a (b # bs) e = (baddr b = a \<and> chain (a + HDR + bsize b) bs e)"

definition block_ok :: "heap_block \<Rightarrow> bool" where
  "block_ok b = (magic b = (if bfree b then HEAP_MAGIC_FREE else HEAP_MAGIC_USED) \<and> 16 dvd bsize b)"

definition heap_wf :: "heap_state \<Rightarrow> bool" where
  "heap_wf h =
     (16 dvd heap_base h \<and> 0 < heap_base h \<and> chain (heap_base h) (blocks h) (heap_end h) \<and>
      list_all block_ok (blocks h) \<and> heap_end h \<le> heap_ceiling h \<and> heap_ceiling h < 2 ^ 64 - 2 ^ 32)"

definition live :: "heap_block list \<Rightarrow> (nat \<times> nat) set" where
  "live bs = {(baddr b + HDR, bsize b) | b. b \<in> set bs \<and> \<not> bfree b}"


section \<open>Structure of the chain\<close>

lemma align_up_ok: "n \<le> 2 ^ 64 - 16 \<Longrightarrow> n \<le> align_up n \<and> align_up n < n + 16"
  by (simp add: align_up_def wrap64_def) presburger

lemma align_up_dvd [simp]: "16 dvd align_up n"
  by (simp add: align_up_def)

lemma chain_append: "chain a (xs @ ys) e = (\<exists>m. chain a xs m \<and> chain m ys e)"
  by (induction xs arbitrary: a) auto

lemma chain_le: "chain a bs e \<Longrightarrow> a \<le> e"
  by (induction bs arbitrary: a) fastforce+

lemma chain_mem: "chain a bs e \<Longrightarrow> b \<in> set bs \<Longrightarrow> a \<le> baddr b \<and> baddr b + HDR + bsize b \<le> e"
  using chain_le by (induction bs arbitrary: a) fastforce+

lemma chain_aligned:
  "chain a bs e \<Longrightarrow> 16 dvd a \<Longrightarrow> list_all block_ok bs \<Longrightarrow> 16 dvd e \<and> (\<forall>b \<in> set bs. 16 dvd baddr b)"
  by (induction bs arbitrary: a) (auto simp: block_ok_def)

text \<open>Two different blocks of a chain do not overlap, headers included.\<close>

lemma chain_disjoint:
  "chain a bs e \<Longrightarrow> b \<in> set bs \<Longrightarrow> c \<in> set bs \<Longrightarrow> b \<noteq> c \<Longrightarrow>
   baddr b + HDR + bsize b \<le> baddr c \<or> baddr c + HDR + bsize c \<le> baddr b"
proof (induction bs arbitrary: a)
  case (Cons d ds)
  have tail: "chain (a + HDR + bsize d) ds e" and d: "baddr d = a"
    using Cons.prems(1) by simp_all
  show ?case
    using Cons.IH [OF tail] Cons.prems(2-4) chain_mem [OF tail] d by fastforce
qed simp

lemma chain_distinct: "chain a bs e \<Longrightarrow> distinct (map baddr bs)"
proof (induction bs arbitrary: a)
  case (Cons d ds)
  then show ?case
    using chain_mem [of "a + HDR + bsize d" ds e] by fastforce
qed simp

lemma live_append [simp]: "live (xs @ ys) = live xs \<union> live ys"
  by (auto simp: live_def)

lemma live_Cons [simp]:
  "live (b # bs) = (if bfree b then {} else {(baddr b + HDR, bsize b)}) \<union> live bs"
  by (auto simp: live_def)

lemma live_Nil [simp]: "live [] = {}"
  by (simp add: live_def)

lemma free_block_sel [simp]:
  "baddr (free_block a n) = a" "bfree (free_block a n)" "bsize (free_block a n) = n"
  "magic (free_block a n) = HEAP_MAGIC_FREE"
  by (simp_all add: free_block_def)

lemma block_ok_free [simp]: "block_ok (free_block a n) = (16 dvd n)"
  by (simp add: block_ok_def)

section \<open>Allocation\<close>

lemma take_block_chain:
  "n \<le> bsize b \<Longrightarrow> chain a (take_block n b) e = chain a [b] e"
  by (auto simp: take_block_def Let_def)

lemma take_block_ok:
  "block_ok b \<Longrightarrow> 16 dvd n \<Longrightarrow> n \<le> bsize b \<Longrightarrow> list_all block_ok (take_block n b)"
  by (auto simp: take_block_def Let_def block_ok_def dvd_diff_nat)

lemma take_block_live:
  "n \<le> bsize b \<Longrightarrow> \<exists>m. n \<le> m \<and> m \<le> bsize b \<and> m \<le> n + HDR + HEAP_ALIGN \<and> live (take_block n b) = {(baddr b + HDR, m)}"
  by (auto simp: take_block_def Let_def)

text \<open>The first-fit walk takes the first block that is free and large enough.\<close>

lemma kmalloc_walk_Found:
  "kmalloc_walk n bs = Found p bs' \<Longrightarrow>
   \<exists>xs b ys. bs = xs @ b # ys \<and> bs' = xs @ take_block n b @ ys \<and> bfree b \<and> n \<le> bsize b \<and> p = baddr b + HDR \<and>
     (\<forall>c \<in> set xs. \<not> (bfree c \<and> n \<le> bsize c))"
proof (induction n bs arbitrary: bs' rule: kmalloc_walk.induct)
  case (2 n b bs)
  show ?case
  proof (cases "bfree b \<and> n \<le> bsize b")
    case True
    then show ?thesis
      using 2(2) by (intro exI [of _ "[]"] exI [of _ b] exI [of _ bs]) (auto split: if_splits)
  next
    case False
    then obtain bs'' where "kmalloc_walk n bs = Found p bs''" "bs' = b # bs''"
      using 2(2) by (auto split: if_splits walk.splits)
    then obtain xs c ys where "bs = xs @ c # ys \<and> bs'' = xs @ take_block n c @ ys \<and> bfree c \<and> n \<le> bsize c \<and>
        p = baddr c + HDR \<and> (\<forall>c \<in> set xs. \<not> (bfree c \<and> n \<le> bsize c))"
      using 2(1) False 2(2) by (metis walk.distinct(3) kmalloc_walk.simps(2))
    then show ?thesis
      using False \<open>bs' = b # bs''\<close> by (intro exI [of _ "b # xs"] exI [of _ c] exI [of _ ys]) auto
  qed
qed simp

lemma kmalloc_walk_not_corrupt: "list_all block_ok bs \<Longrightarrow> kmalloc_walk n bs \<noteq> Corrupt"
  by (induction bs) (auto simp: block_ok_def split: walk.splits if_splits)

lemma kmalloc_walk_Not_found:
  "kmalloc_walk n bs = Not_found \<Longrightarrow> b \<in> set bs \<Longrightarrow> \<not> (bfree b \<and> n \<le> bsize b)"
  by (induction bs) (auto split: walk.splits if_splits)

lemma kmalloc_walk_snoc:
  "kmalloc_walk n bs = Not_found \<Longrightarrow> magic b = HEAP_MAGIC_FREE \<Longrightarrow> bfree b \<Longrightarrow> n \<le> bsize b \<Longrightarrow>
   kmalloc_walk n (bs @ [b]) = Found (baddr b + HDR) (bs @ take_block n b)"
  by (induction bs) (auto split: walk.splits if_splits)

lemma kmalloc_walk_total:
  "list_all block_ok bs \<Longrightarrow> b \<in> set bs \<Longrightarrow> bfree b \<Longrightarrow> n \<le> bsize b \<Longrightarrow> \<exists>p bs'. kmalloc_walk n bs = Found p bs'"
  using kmalloc_walk_not_corrupt kmalloc_walk_Not_found by (cases "kmalloc_walk n bs") blast+

text \<open>Replacing a free block of the chain by what an allocation leaves keeps the chain.\<close>

lemma take_block_replaces:
  assumes "chain a (xs @ b # ys) e" "list_all block_ok (xs @ b # ys)" "16 dvd n" "n \<le> bsize b"
  shows "chain a (xs @ take_block n b @ ys) e \<and> list_all block_ok (xs @ take_block n b @ ys)"
proof -
  obtain m k where "chain a xs m" "chain m [b] k" "chain k ys e"
    using assms(1) chain_append [of a xs "[b] @ ys" e] chain_append [of _ "[b]" ys e] by auto
  then show ?thesis
    using assms take_block_chain [of n b m k] take_block_ok [of b n] by (auto simp: chain_append)
qed

lemma take_block_alloc:
  assumes ch: "chain a (xs @ b # ys) e" and "bfree b" "n \<le> bsize b"
  shows "\<exists>m. n \<le> m \<and> m \<le> n + HDR + HEAP_ALIGN \<and> live (xs @ take_block n b @ ys) = insert (baddr b + HDR, m) (live (xs @ b # ys)) \<and>
     (\<forall>(q, k) \<in> live (xs @ b # ys). q + k \<le> baddr b + HDR \<or> baddr b + HDR + m \<le> q)"
proof -
  obtain m where m: "n \<le> m" "m \<le> bsize b" "m \<le> n + HDR + HEAP_ALIGN" "live (take_block n b) = {(baddr b + HDR, m)}"
    using take_block_live [OF assms(3)] by auto
  have "q + k \<le> baddr b + HDR \<or> baddr b + HDR + m \<le> q" if qk: "(q, k) \<in> live (xs @ b # ys)" for q k
  proof -
    obtain c where c: "q = baddr c + HDR" "k = bsize c" "c \<in> set (xs @ b # ys)" "\<not> bfree c"
      using qk unfolding live_def by blast
    then have "c \<noteq> b"
      using assms(2) by auto
    then show ?thesis
      using chain_disjoint [OF ch _ c(3), of b] c m(2) by auto
  qed
  then show ?thesis
    using m assms(2) by (intro exI [of _ m]) auto
qed


text \<open>A successful growth appends one free block that is large enough and ends at the new \<^verbatim>\<open>heap_end\<close>.\<close>

lemma grow_heap_Some:
  assumes "grow_heap n h = Some (Some b, h')" and "n \<le> 2 ^ 31" and "heap_end h \<le> heap_ceiling h" "heap_ceiling h < 2 ^ 64 - 2 ^ 32"
  shows "b = free_block (heap_end h) (bsize b) \<and> n \<le> bsize b \<and> 16 dvd bsize b \<and>
    heap_end h' = heap_end h + HDR + bsize b \<and> heap_end h' \<le> heap_ceiling h \<and>
    heap_base h' = heap_base h \<and> heap_ceiling h' = heap_ceiling h \<and> blocks h' = blocks h"
proof -
  define k where "k = (HDR + n + PAGE_SIZE - 1) div PAGE_SIZE"
  have k: "wrap64 (wrap64 (HDR + n) + PAGE_SIZE - 1) div PAGE_SIZE = k" "HDR + n \<le> k * PAGE_SIZE" "k * PAGE_SIZE < 2 ^ 32"
    using assms(2) by (simp_all add: k_def wrap64_def)
  have fit: "wrap64 (heap_end h + k * PAGE_SIZE) = heap_end h + k * PAGE_SIZE"
    using k(3) assms(3,4) by (simp add: wrap64_def)
  have "wrap64 (k * PAGE_SIZE + 2 ^ 64 - HDR) = k * PAGE_SIZE - HDR"
    using k(2,3) by (simp add: wrap64_def mod_if)
  moreover have "16 dvd k * PAGE_SIZE - HDR"
    by (simp add: dvd_diff_nat)
  ultimately show ?thesis
    using assms(1) k fit unfolding grow_heap_def Let_def k(1)
    by (auto split: if_splits option.splits prod.splits bool.splits)
qed

lemma grow_heap_None:
  "grow_heap n h = Some (None, h') \<Longrightarrow>
   heap_base h' = heap_base h \<and> heap_end h' = heap_end h \<and> heap_ceiling h' = heap_ceiling h \<and> blocks h' = blocks h"
  unfolding grow_heap_def Let_def by (auto split: if_splits option.splits prod.splits bool.splits)

text \<open>The recursive retry after a growth is never taken twice: it finds the new block.\<close>

lemma kmalloc_retry:
  assumes "heap_wf h" "sz \<noteq> 0" "sz \<le> 2 ^ 30" "kmalloc_walk (align_up sz) (blocks h) = Not_found"
  shows "kmalloc sz h =
    (case grow_heap (align_up sz) h of
       None \<Rightarrow> None
     | Some (None, h1) \<Rightarrow> Some (0, h1)
     | Some (Some b, h1) \<Rightarrow> Some (baddr b + HDR, h1\<lparr>blocks := blocks h @ take_block (align_up sz) b\<rparr>))"
proof (cases "grow_heap (align_up sz) h")
  case None
  then show ?thesis
    using assms by (subst kmalloc.simps) simp
next
  case (Some r)
  obtain ob h1 where r: "r = (ob, h1)"
    by (cases r)
  show ?thesis
  proof (cases ob)
    case None
    then show ?thesis
      using assms Some r by (subst kmalloc.simps) simp
  next
    case (Some b)
    have g: "grow_heap (align_up sz) h = Some (Some b, h1)"
      using Some r \<open>grow_heap (align_up sz) h = Some r\<close> by simp
    have al: "align_up sz \<le> 2 ^ 31"
      using align_up_ok [of sz] assms(3) by simp
    have b: "b = free_block (heap_end h) (bsize b)" "align_up sz \<le> bsize b" "blocks h1 = blocks h"
      using grow_heap_Some [OF g al] assms(1) by (auto simp: heap_wf_def)
    have flags: "magic b = HEAP_MAGIC_FREE" "bfree b"
      using b(1) free_block_sel by metis+
    have "kmalloc sz (h1\<lparr>blocks := blocks h @ [b]\<rparr>) =
        Some (baddr b + HDR, h1\<lparr>blocks := blocks h @ take_block (align_up sz) b\<rparr>)"
      using assms(2) kmalloc_walk_snoc [OF assms(4) flags b(2)] by (subst kmalloc.simps) simp
    then show ?thesis
      using assms g b(3) by (subst kmalloc.simps) simp
  qed
qed

lemma kmalloc_found:
  "sz \<noteq> 0 \<Longrightarrow> kmalloc_walk (align_up sz) (blocks h) = Found p bs \<Longrightarrow> kmalloc sz h = Some (p, h\<lparr>blocks := bs\<rparr>)"
  by (subst kmalloc.simps) simp

text \<open>An allocation that succeeds took a free block of a well-formed chain that extends the old one.\<close>

lemma kmalloc_cases:
  assumes wf: "heap_wf h" and sz: "sz \<noteq> 0" "sz \<le> 2 ^ 30" and k: "kmalloc sz h = Some (p, h')"
  shows "(p = 0 \<and> blocks h' = blocks h \<and> heap_wf h') \<or>
    (\<exists>xs b ys. heap_wf (h'\<lparr>blocks := xs @ b # ys\<rparr>) \<and> live (xs @ b # ys) = live (blocks h) \<and>
       blocks h' = xs @ take_block (align_up sz) b @ ys \<and> bfree b \<and> align_up sz \<le> bsize b \<and> p = baddr b + HDR)"
proof (cases "kmalloc_walk (align_up sz) (blocks h)")
  case Corrupt
  then show ?thesis
    using kmalloc_walk_not_corrupt wf by (auto simp: heap_wf_def)
next
  case (Found q bs)
  obtain xs b ys where w: "blocks h = xs @ b # ys" "bs = xs @ take_block (align_up sz) b @ ys" "bfree b"
      "align_up sz \<le> bsize b" "q = baddr b + HDR"
    using kmalloc_walk_Found [OF Found] by blast
  have "p = q" "h' = h\<lparr>blocks := bs\<rparr>"
    using kmalloc_found [OF sz(1) Found] k by simp_all
  moreover have "heap_wf (h\<lparr>blocks := xs @ b # ys\<rparr>)"
    using wf w(1) by (simp add: heap_wf_def)
  ultimately show ?thesis
    using w by (intro disjI2 exI [of _ xs] exI [of _ b] exI [of _ ys]) simp
next
  case Not_found
  note retry = kmalloc_retry [OF wf sz Not_found]
  have al: "align_up sz \<le> 2 ^ 31"
    using align_up_ok [of sz] sz by simp
  consider (no) "grow_heap (align_up sz) h = Some (None, h')" "p = 0"
    | (yes) b h1 where "grow_heap (align_up sz) h = Some (Some b, h1)" "p = baddr b + HDR"
        "h' = h1\<lparr>blocks := blocks h @ take_block (align_up sz) b\<rparr>"
    using k retry by (auto split: option.splits)
  then show ?thesis
  proof cases
    case no
    then show ?thesis
      using grow_heap_None [OF no(1)] wf by (auto simp: heap_wf_def)
  next
    case yes
    have b: "b = free_block (heap_end h) (bsize b)" "align_up sz \<le> bsize b" "16 dvd bsize b"
      "heap_end h1 = heap_end h + HDR + bsize b" "heap_end h1 \<le> heap_ceiling h"
      "heap_base h1 = heap_base h" "heap_ceiling h1 = heap_ceiling h" "blocks h1 = blocks h"
      using grow_heap_Some [OF yes(1) al] wf by (auto simp: heap_wf_def)
    have flags: "baddr b = heap_end h" "bfree b" "block_ok b"
      using b(1,3) free_block_sel block_ok_free by metis+
    have "heap_wf (h'\<lparr>blocks := blocks h @ [b]\<rparr>)"
      using wf b flags yes(3) by (auto simp: heap_wf_def chain_append)
    then show ?thesis
      using yes b flags by (intro disjI2 exI [of _ "blocks h"] exI [of _ b] exI [of _ "[]"]) simp
  qed
qed


lemma kmalloc_result:
  assumes wf: "heap_wf h" and sz: "sz \<noteq> 0" "sz \<le> 2 ^ 30" and k: "kmalloc sz h = Some (p, h')" and p: "p \<noteq> 0"
  shows "heap_wf h' \<and> 16 dvd p \<and>
    (\<exists>n. sz \<le> n \<and> n \<le> sz + 64 \<and> heap_base h' \<le> p \<and> p + n \<le> heap_end h' \<and>
       live (blocks h') = insert (p, n) (live (blocks h)) \<and>
       (\<forall>(q, m) \<in> live (blocks h). q + m \<le> p \<or> p + n \<le> q))"
proof -
  obtain xs b ys where b: "heap_wf (h'\<lparr>blocks := xs @ b # ys\<rparr>)" "live (xs @ b # ys) = live (blocks h)"
      "blocks h' = xs @ take_block (align_up sz) b @ ys" "bfree b" "align_up sz \<le> bsize b" "p = baddr b + HDR"
    using kmalloc_cases [OF wf sz k] p by blast
  have ch: "chain (heap_base h') (xs @ b # ys) (heap_end h')" "list_all block_ok (xs @ b # ys)"
      "16 dvd heap_base h'"
    using b(1) by (simp_all add: heap_wf_def)
  have wf': "heap_wf h'"
    using take_block_replaces [OF ch(1,2) align_up_dvd b(5)] b(1,3) by (simp add: heap_wf_def)
  obtain n where n: "align_up sz \<le> n" "n \<le> align_up sz + HDR + HEAP_ALIGN"
      "live (blocks h') = insert (p, n) (live (blocks h))"
      "\<forall>(q, m) \<in> live (blocks h). q + m \<le> p \<or> p + n \<le> q"
    using take_block_alloc [OF ch(1) b(4,5)] b(2,3,6) by auto
  have "16 dvd baddr b"
    using chain_aligned [OF ch(1,3,2)] by simp
  moreover have "heap_base h' \<le> p \<and> p + n \<le> heap_end h'"
  proof -
    obtain c where "c \<in> set (blocks h')" "p = baddr c + HDR" "n = bsize c"
      using n(3) unfolding live_def by blast
    then show ?thesis
      using wf' chain_mem [of "heap_base h'" "blocks h'" "heap_end h'" c] by (simp add: heap_wf_def)
  qed
  ultimately show ?thesis
    using wf' n b(6) align_up_ok [of sz] sz by (intro conjI exI [of _ n]) auto
qed

section \<open>Release\<close>

lemma kfree_walk_used:
  "chain a (xs @ b # ys) e \<Longrightarrow> magic b = HEAP_MAGIC_USED \<Longrightarrow>
   kfree_walk (baddr b) (xs @ b # ys) =
     Some (Freed, xs @ (case ys of
             [] \<Rightarrow> [b\<lparr>magic := HEAP_MAGIC_FREE, bfree := True\<rparr>]
           | c # cs \<Rightarrow>
               if bfree c \<and> magic c = HEAP_MAGIC_FREE
               then b\<lparr>magic := HEAP_MAGIC_FREE, bfree := True, bsize := wrap64 (bsize b + (HDR + bsize c))\<rparr> # cs
               else b\<lparr>magic := HEAP_MAGIC_FREE, bfree := True\<rparr> # ys))"
proof (induction xs arbitrary: a)
  case (Cons d xs)
  then have "baddr d \<noteq> baddr b"
    using chain_distinct [of a "(d # xs) @ b # ys" e] by auto
  moreover have "chain (a + HDR + bsize d) (xs @ b # ys) e"
    using Cons.prems(1) by simp
  ultimately show ?case
    using Cons.IH Cons.prems(2) by simp
qed (auto simp: Let_def split: list.splits)

lemma kfree_walk_free:
  "chain a (xs @ b # ys) e \<Longrightarrow> magic b = HEAP_MAGIC_FREE \<Longrightarrow>
   kfree_walk (baddr b) (xs @ b # ys) = Some (Double_free_detected, xs @ b # ys)"
proof (induction xs arbitrary: a)
  case (Cons d xs)
  then have "baddr d \<noteq> baddr b"
    using chain_distinct [of a "(d # xs) @ b # ys" e] by auto
  moreover have "chain (a + HDR + bsize d) (xs @ b # ys) e"
    using Cons.prems(1) by simp
  ultimately show ?case
    using Cons.IH Cons.prems(2) by simp
qed simp

text \<open>What a release leaves: the freed block, possibly merged with its free successor.\<close>

lemma kfree_block:
  assumes ch: "chain a (xs @ b # ys) e" and ok: "list_all block_ok (xs @ b # ys)" and used: "\<not> bfree b" and e: "e < 2 ^ 64"
  shows "\<exists>f zs. kfree_walk (baddr b) (xs @ b # ys) = Some (Freed, xs @ f # zs) \<and> baddr f = baddr b \<and> bfree f \<and>
    chain a (xs @ f # zs) e \<and> list_all block_ok (xs @ f # zs) \<and> live zs = live ys"
proof (cases "\<exists>c cs. ys = c # cs \<and> bfree c")
  case True
  then obtain c cs where ys: "ys = c # cs" "bfree c"
    by blast
  have m: "magic b = HEAP_MAGIC_USED" "magic c = HEAP_MAGIC_FREE"
    using ok used ys by (simp_all add: block_ok_def)
  have "baddr b + HDR + bsize b = baddr c" "baddr c + HDR + bsize c \<le> e"
    using ch ys chain_mem [OF ch, of c] by (auto simp: chain_append)
  then have w: "wrap64 (bsize b + (HDR + bsize c)) = bsize b + (HDR + bsize c)"
    using e by (simp add: wrap64_def)
  have dv: "16 dvd bsize b" "16 dvd bsize c"
    using ok ys by (simp_all add: block_ok_def)
  let ?f = "b\<lparr>magic := HEAP_MAGIC_FREE, bfree := True, bsize := bsize b + (HDR + bsize c)\<rparr>"
  have "chain a (xs @ ?f # cs) e"
    using ch ys by (auto simp: chain_append add.assoc add.left_commute)
  moreover have "list_all block_ok (xs @ ?f # cs)"
    using ok ys dv by (simp add: block_ok_def)
  ultimately show ?thesis
    using kfree_walk_used [OF ch m(1)] m(2) ys w by (intro exI [of _ ?f] exI [of _ cs]) simp
next
  case False
  have m: "magic b = HEAP_MAGIC_USED"
    using ok used by (simp add: block_ok_def)
  let ?f = "b\<lparr>magic := HEAP_MAGIC_FREE, bfree := True\<rparr>"
  have "kfree_walk (baddr b) (xs @ b # ys) = Some (Freed, xs @ ?f # ys)"
    using kfree_walk_used [OF ch m] False by (auto split: list.splits)
  moreover have "chain a (xs @ ?f # ys) e"
    using ch by (auto simp: chain_append)
  moreover have "list_all block_ok (xs @ ?f # ys)"
    using ok by (simp add: block_ok_def)
  ultimately show ?thesis
    by (intro exI [of _ ?f] exI [of _ ys]) simp
qed

lemma live_inj: "chain a bs e \<Longrightarrow> b \<in> set bs \<Longrightarrow> c \<in> set bs \<Longrightarrow> baddr b = baddr c \<Longrightarrow> b = c"
  using chain_disjoint by fastforce

lemma kfree_live:
  assumes wf: "heap_wf h" and l: "(p, n) \<in> live (blocks h)"
  shows "\<exists>h'. kfree p h = Some (Freed, h') \<and> heap_wf h' \<and> live (blocks h') = live (blocks h) - {(p, n)} \<and>
    kfree p h' = Some (Double_free_detected, h')"
proof -
  obtain b where b: "b \<in> set (blocks h)" "\<not> bfree b" "p = baddr b + HDR" "n = bsize b"
    using l unfolding live_def by blast
  then obtain xs ys where bs: "blocks h = xs @ b # ys"
    by (meson split_list)
  have ch: "chain (heap_base h) (xs @ b # ys) (heap_end h)" and ok: "list_all block_ok (xs @ b # ys)"
    and e: "heap_end h < 2 ^ 64"
    using wf bs by (simp_all add: heap_wf_def)
  obtain f zs where f: "kfree_walk (baddr b) (xs @ b # ys) = Some (Freed, xs @ f # zs)" "baddr f = baddr b"
      "bfree f" "chain (heap_base h) (xs @ f # zs) (heap_end h)" "list_all block_ok (xs @ f # zs)" "live zs = live ys"
    using kfree_block [OF ch ok b(2) e] by blast
  have "magic f = HEAP_MAGIC_FREE"
    using f(3,5) by (simp add: block_ok_def)
  then have again: "kfree_walk (baddr b) (xs @ f # zs) = Some (Double_free_detected, xs @ f # zs)"
    using kfree_walk_free [OF f(4)] f(2) by simp
  have "distinct (map baddr (xs @ b # ys))"
    using chain_distinct [OF ch] .
  then have "(p, n) \<notin> live xs \<union> live ys"
    unfolding live_def b(3,4) by auto
  then have "live (xs @ f # zs) = live (blocks h) - {(p, n)}"
    using f(3,6) bs b by auto
  moreover have "heap_wf (h\<lparr>blocks := xs @ f # zs\<rparr>)"
    using wf f(4,5) by (simp add: heap_wf_def)
  ultimately show ?thesis
    using f(1) again bs b(3) by (intro exI [of _ "h\<lparr>blocks := xs @ f # zs\<rparr>"]) (simp add: kfree_def)
qed


lemma kmalloc_post:
  assumes "heap_wf h" "sz \<le> 2 ^ 30" "kmalloc sz h = Some (p, h')"
  shows "heap_wf h' \<and>
    (p = 0 \<longrightarrow> blocks h' = blocks h) \<and>
    (p \<noteq> 0 \<longrightarrow> 16 dvd p \<and>
       (\<exists>n. sz \<le> n \<and> n \<le> sz + 64 \<and> heap_base h' \<le> p \<and> p + n \<le> heap_end h' \<and>
          live (blocks h') = insert (p, n) (live (blocks h)) \<and>
          (\<forall>(q, m) \<in> live (blocks h). q + m \<le> p \<or> p + n \<le> q)))"
proof (cases "sz = 0")
  case True
  then have "kmalloc sz h = Some (0, h)"
    by (subst kmalloc.simps) simp
  then show ?thesis
    using assms by simp
next
  case False
  show ?thesis
  proof (cases "p = 0")
    case True
    then show ?thesis
      using kmalloc_cases [OF assms(1) False assms(2,3)] by auto
  next
    case nz: False
    then show ?thesis
      using kmalloc_result [OF assms(1) False assms(2,3)] by simp
  qed
qed

section \<open>Correctness of the heap\<close>

text \<open>C7: For a request of at most 1 GiB, \<^verbatim>\<open>kmalloc\<close> keeps the heap well formed.  A non-null result is 16-byte aligned, lies inside the heap, has at
  least the requested number of usable bytes, becomes the one new live region and overlaps no region that is
  already live; a null result leaves every block as it was.  (The bound is needed: the rounding of a request just below
  \<open>2 ^ 64\<close> bytes wraps, \<open>kmalloc_huge_request_wraps\<close>.)\<close>

theorem kmalloc_safe:
  assumes "heap_wf h" "sz \<le> 2 ^ 30" "kmalloc sz h = Some (p, h')"
  shows "heap_wf h' \<and>
    (p = 0 \<longrightarrow> blocks h' = blocks h) \<and>
    (p \<noteq> 0 \<longrightarrow> 16 dvd p \<and>
       (\<exists>n. sz \<le> n \<and> n \<le> sz + 64 \<and> heap_base h' \<le> p \<and> p + n \<le> heap_end h' \<and>
          live (blocks h') = insert (p, n) (live (blocks h)) \<and>
          (\<forall>(q, m) \<in> live (blocks h). q + m \<le> p \<or> p + n \<le> q)))"
  using kmalloc_post [OF assms] .

definition wheap :: heap_state where
  "wheap = \<lparr>blocks = [\<lparr>baddr = 4096, magic = HEAP_MAGIC_USED, bfree = False, bsize = 64\<rparr>, free_block 4192 3968],
            heap_base = 4096, heap_end = 8192, heap_ceiling = 12288, hvmm = wvmm, hbytes = (\<lambda>_. 0)\<rparr>"

lemma wheap_wf [simp]: "heap_wf wheap"
  by (simp add: wheap_def heap_wf_def block_ok_def)

lemma wheap_kmalloc:
  "kmalloc 100 wheap = Some (4224, wheap\<lparr>blocks :=
     [\<lparr>baddr = 4096, magic = HEAP_MAGIC_USED, bfree = False, bsize = 64\<rparr>,
      \<lparr>baddr = 4192, magic = HEAP_MAGIC_USED, bfree = False, bsize = 112\<rparr>, free_block 4336 3824]\<rparr>)"
  by (subst kmalloc.simps) (simp add: wheap_def align_up_def wrap64_def take_block_def free_block_def Let_def)

theorem kmalloc_safe_witness:
  "\<exists>p h' n. kmalloc 100 wheap = Some (p, h') \<and> heap_wf h' \<and> 16 dvd p \<and> 100 \<le> n \<and>
     live (blocks h') = insert (p, n) (live (blocks wheap))"
  using kmalloc_safe [OF wheap_wf _ wheap_kmalloc] wheap_kmalloc by fastforce

text \<open>\<^verbatim>\<open>kmalloc\<close> always comes back when some free block is large enough, with that memory; when none is, it
  returns exactly as the one attempt to grow the heap does, so the recursive retry in the code is never repeated.\<close>

theorem kmalloc_returns:
  assumes "heap_wf h" "0 < sz" "sz \<le> 2 ^ 30"
  shows "((\<exists>b \<in> set (blocks h). bfree b \<and> align_up sz \<le> bsize b) \<longrightarrow> (\<exists>p h'. kmalloc sz h = Some (p, h') \<and> p \<noteq> 0)) \<and>
    ((\<forall>b \<in> set (blocks h). \<not> (bfree b \<and> align_up sz \<le> bsize b)) \<longrightarrow>
       map_option fst (kmalloc sz h) =
       map_option (\<lambda>(new_blk, h1). case new_blk of None \<Rightarrow> 0 | Some b \<Rightarrow> baddr b + HDR) (grow_heap (align_up sz) h))"
proof (intro conjI impI)
  assume "\<exists>b \<in> set (blocks h). bfree b \<and> align_up sz \<le> bsize b"
  then obtain p bs where f: "kmalloc_walk (align_up sz) (blocks h) = Found p bs"
    using kmalloc_walk_total assms(1) unfolding heap_wf_def by blast
  then show "\<exists>p h'. kmalloc sz h = Some (p, h') \<and> p \<noteq> 0"
    using kmalloc_found [OF _ f] kmalloc_walk_Found [OF f] assms(2) by auto
next
  assume none: "\<forall>b \<in> set (blocks h). \<not> (bfree b \<and> align_up sz \<le> bsize b)"
  have "kmalloc_walk (align_up sz) (blocks h) = Not_found"
  proof (cases "kmalloc_walk (align_up sz) (blocks h)")
    case Corrupt
    then show ?thesis
      using kmalloc_walk_not_corrupt assms(1) unfolding heap_wf_def by blast
  next
    case (Found p bs)
    then show ?thesis
      using kmalloc_walk_Found [OF Found] none by auto
  qed simp
  then show "map_option fst (kmalloc sz h) =
       map_option (\<lambda>(new_blk, h1). case new_blk of None \<Rightarrow> 0 | Some b \<Rightarrow> baddr b + HDR) (grow_heap (align_up sz) h)"
    using kmalloc_retry [OF assms(1) _ assms(3)] assms(2) by (auto split: option.splits prod.splits)
qed

theorem kmalloc_returns_witness:
  "\<exists>p h'. kmalloc 100 wheap = Some (p, h') \<and> p \<noteq> 0"
proof -
  have "\<exists>b \<in> set (blocks wheap). bfree b \<and> align_up 100 \<le> bsize b"
    by (simp add: wheap_def align_up_def wrap64_def)
  then show ?thesis
    using kmalloc_returns [OF wheap_wf, of 100] by simp
qed

text \<open>C29: releasing a live region with \<^verbatim>\<open>kfree\<close> succeeds, keeps the heap well formed, removes exactly that region from
  the live ones (also when the block is merged with its free successor), and a second release of the same pointer
  is detected and changes nothing.\<close>

theorem kfree_safe:
  assumes "heap_wf h" "(p, n) \<in> live (blocks h)"
  shows "\<exists>h'. kfree p h = Some (Freed, h') \<and> heap_wf h' \<and> live (blocks h') = live (blocks h) - {(p, n)} \<and>
    kfree p h' = Some (Double_free_detected, h')"
  using kfree_live [OF assms] .

theorem kfree_safe_witness:
  "\<exists>h'. kfree 4128 wheap = Some (Freed, h') \<and> heap_wf h' \<and> live (blocks h') = {}"
proof -
  have "(4128, 64) \<in> live (blocks wheap)" "live (blocks wheap) = {(4128, 64)}"
    by (simp_all add: wheap_def)
  then show ?thesis
    using kfree_safe [OF wheap_wf, of 4128 64] by auto
qed

text \<open>a request for the largest \<^verbatim>\<open>size_t\<close> does not fail: rounding up wraps to zero, and any heap with a free block
  hands out a pointer to a region that is far smaller than requested.\<close>

theorem kmalloc_huge_request_wraps:
  assumes "heap_wf h" "blocks h = b # bs" "bfree b" "48 < bsize b"
  shows "kmalloc (2 ^ 64 - 1) h =
    Some (baddr b + HDR, h\<lparr>blocks :=
      b\<lparr>magic := HEAP_MAGIC_USED, bfree := False, bsize := 0\<rparr> # free_block (baddr b + HDR) (bsize b - HDR) # bs\<rparr>)"
proof -
  have "align_up (2 ^ 64 - 1) = 0"
    by (simp add: align_up_def wrap64_def)
  moreover have "magic b = HEAP_MAGIC_FREE"
    using assms by (simp add: heap_wf_def block_ok_def)
  ultimately show ?thesis
    using assms by (subst kmalloc.simps) (simp add: take_block_def Let_def)
qed

definition wheap0 :: heap_state where
  "wheap0 = wheap\<lparr>blocks := [free_block 4096 4064]\<rparr>"

theorem kmalloc_huge_request_wraps_witness:
  "map_option fst (kmalloc (2 ^ 64 - 1) wheap0) = Some 4128"
proof -
  have "heap_wf wheap0" "blocks wheap0 = free_block 4096 4064 # []"
    by (simp_all add: wheap0_def wheap_def heap_wf_def)
  then show ?thesis
    using kmalloc_huge_request_wraps [of wheap0 "free_block 4096 4064" "[]"] by simp
qed

text \<open>\<^verbatim>\<open>kcalloc\<close> never hands out a wrapped product, and what it hands out is zero.\<close>

lemma kcalloc_no_overflow:
  assumes "0 < sz" "2 ^ 64 \<le> n * sz"
  shows "kcalloc n sz h = Some (0, h)"
proof -
  have "(2 ^ 64 - 1) div sz < n"
    using assms by (simp add: div_less_iff_less_mult)
  then show ?thesis
    using assms(1) by (simp add: kcalloc_def)
qed

lemma kcalloc_zeroed:
  "kcalloc n sz h = Some (p, h') \<Longrightarrow> p \<noteq> 0 \<Longrightarrow> p \<le> a \<Longrightarrow> a < p + n * sz \<Longrightarrow> hbytes h' a = 0"
  by (auto simp: kcalloc_def split: if_splits option.splits)

text \<open>The totals printed by \<^verbatim>\<open>heap_dump\<close> account for every byte of the heap.\<close>

lemma heap_dump_accounts:
  "chain a bs e \<Longrightarrow> list_all block_ok bs \<Longrightarrow>
   (case heap_dump bs of (f, u, n) \<Rightarrow> f + u + n * HDR = e - a)"
proof (induction bs arbitrary: a)
  case (Cons b bs)
  obtain f u n where d: "heap_dump bs = (f, u, n)"
    by (cases "heap_dump bs")
  have "chain (a + HDR + bsize b) bs e" "list_all block_ok bs"
    using Cons.prems by simp_all
  then have "f + u + n * HDR = e - (a + HDR + bsize b)" "a + HDR + bsize b \<le> e"
    using Cons.IH d chain_le by fastforce+
  then show ?case
    using d Cons.prems(2) by (auto simp: Let_def block_ok_def)
qed simp

end
