(* ===== verification/Task.thy ===== *)
theory Task
  imports Styx_Prelude
begin

text \<open>
  Task descriptors and the global task table, \<^verbatim>\<open>src/kernel/task.h\<close> and
  \<^verbatim>\<open>src/kernel/task.c\<close>, together with the scheduler's static variables of
  \<^verbatim>\<open>src/kernel/sched.c\<close>.  A \<^verbatim>\<open>task_t *\<close> is an index into \<open>task_table\<close>
  (\<open>None\<close> is NULL).  The register file, CR3 and the TSS field RSP0 are part
  of the state because \<^verbatim>\<open>task_switch\<close> (\<^verbatim>\<open>src/kernel/task.asm\<close>) saves and loads them.
  Task creation, which needs the heap and the page tables, is in theory \<open>Task_Create\<close>.
\<close>

section \<open>Data\<close>

abbreviation TASK_MAX_TASKS :: nat where
  "TASK_MAX_TASKS \<equiv> 8"

datatype task_state = UNUSED | READY | RUNNING | BLOCKED | DEAD

record task_regs =
  rbx :: u64
  rbp :: u64
  r12 :: u64
  r13 :: u64
  r14 :: u64
  r15 :: u64
  rip :: u64
  rsp :: u64

record task =
  tid :: u32
  tstate :: task_state
  cap_table :: u64
  pml4 :: u64
  kstack_base :: u64
  kstack_top :: u64
  regs :: task_regs
  ticks :: u32

record sched_state =
  task_table :: "task list"
  next_task_id :: u32
  run_queue :: "nat option list"
  queue_count :: nat
  current_idx :: nat
  sched_current :: "nat option"
  tss_rsp0 :: u64
  cr3 :: u64
  cpu :: task_regs
  hhdm_offset :: u64
  trampoline :: u64

section \<open>Table operations\<close>

definition upd_task :: "nat \<Rightarrow> (task \<Rightarrow> task) \<Rightarrow> sched_state \<Rightarrow> sched_state" where
  "upd_task t g s = s\<lparr>task_table := (task_table s)[t := g (task_table s ! t)]\<rparr>"

definition task_init_table :: "sched_state \<Rightarrow> sched_state" where
  "task_init_table s = fold (\<lambda>i. upd_task i (\<lambda>t. t\<lparr>tstate := UNUSED, tid := 0\<rparr>)) [0..<TASK_MAX_TASKS] s"

definition alloc_task_slot :: "sched_state \<Rightarrow> nat option \<times> sched_state" where
  "alloc_task_slot s =
     (case find (\<lambda>i. tstate (task_table s ! i) = UNUSED) [0..<TASK_MAX_TASKS] of
        None \<Rightarrow> (None, s)
      | Some i \<Rightarrow> (Some i, (upd_task i (\<lambda>t. t\<lparr>tid := next_task_id s, tstate := READY, ticks := 10\<rparr>) s)
                         \<lparr>next_task_id := next_task_id s + 1\<rparr>))"

definition task_get :: "u32 \<Rightarrow> sched_state \<Rightarrow> nat option" where
  "task_get i s =
     find (\<lambda>t. tstate (task_table s ! t) \<noteq> UNUSED \<and> tid (task_table s ! t) = i) [0..<TASK_MAX_TASKS]"

definition task_create_kernel :: "u64 \<Rightarrow> sched_state \<Rightarrow> nat option \<times> sched_state" where
  "task_create_kernel active_pml4 s =
     (case alloc_task_slot s of
        (None, s1) \<Rightarrow> (None, s1)
      | (Some i, s1) \<Rightarrow>
          (Some i, upd_task i (\<lambda>t. t\<lparr>pml4 := active_pml4, kstack_base := 0, kstack_top := 0, cap_table := 0,
                                     regs := (regs t)\<lparr>rsp := 0, rip := 0\<rparr>\<rparr>) s1))"

section \<open>Lemmas\<close>

lemma upd_task_frame [simp]:
  "length (task_table (upd_task t g s)) = length (task_table s)"
  "next_task_id (upd_task t g s) = next_task_id s"
  "run_queue (upd_task t g s) = run_queue s"
  "queue_count (upd_task t g s) = queue_count s"
  "current_idx (upd_task t g s) = current_idx s"
  "sched_current (upd_task t g s) = sched_current s"
  "tss_rsp0 (upd_task t g s) = tss_rsp0 s"
  "cr3 (upd_task t g s) = cr3 s"
  "cpu (upd_task t g s) = cpu s"
  "hhdm_offset (upd_task t g s) = hhdm_offset s"
  "trampoline (upd_task t g s) = trampoline s"
  by (simp_all add: upd_task_def)

lemma task_table_upd:
  "t < length (task_table s) \<Longrightarrow>
    task_table (upd_task t g s) ! u = (if u = t then g (task_table s ! t) else task_table s ! u)"
  by (simp add: upd_task_def nth_list_update)

text \<open>The identifiers of the live tasks are distinct and below the next identifier.\<close>

definition task_ids_ok :: "sched_state \<Rightarrow> bool" where
  "task_ids_ok s \<longleftrightarrow> length (task_table s) = TASK_MAX_TASKS \<and>
     (\<forall>i<TASK_MAX_TASKS. tstate (task_table s ! i) \<noteq> UNUSED \<longrightarrow> tid (task_table s ! i) < next_task_id s) \<and>
     (\<forall>i<TASK_MAX_TASKS. \<forall>j<TASK_MAX_TASKS.
        tstate (task_table s ! i) \<noteq> UNUSED \<longrightarrow> tstate (task_table s ! j) \<noteq> UNUSED \<longrightarrow>
        tid (task_table s ! i) = tid (task_table s ! j) \<longrightarrow> i = j)"

lemma task_get_iff:
  assumes "task_ids_ok s"
  shows "task_get n s = Some i \<longleftrightarrow>
    i < TASK_MAX_TASKS \<and> tstate (task_table s ! i) \<noteq> UNUSED \<and> tid (task_table s ! i) = n"
  using assms unfolding task_get_def find_upt_Some_iff task_ids_ok_def
  by (metis (no_types, lifting) le0 less_irrefl less_trans)

lemma alloc_task_slot_Some:
  assumes ok: "task_ids_ok s" and nw: "next_task_id s \<noteq> - 1" and a: "alloc_task_slot s = (Some i, s')"
  shows "task_ids_ok s' \<and> i < TASK_MAX_TASKS \<and> tstate (task_table s ! i) = UNUSED \<and>
    tstate (task_table s' ! i) = READY \<and> tid (task_table s' ! i) = next_task_id s \<and>
    (\<forall>j. j \<noteq> i \<longrightarrow> task_table s' ! j = task_table s ! j)"
proof -
  have i: "i < TASK_MAX_TASKS" "tstate (task_table s ! i) = UNUSED"
    and s': "s' = (upd_task i (\<lambda>t. t\<lparr>tid := next_task_id s, tstate := READY, ticks := 10\<rparr>) s)
                         \<lparr>next_task_id := next_task_id s + 1\<rparr>"
    using a by (auto simp: alloc_task_slot_def find_upt_Some_iff split: option.splits)
  have len: "i < length (task_table s)" using ok i by (simp add: task_ids_ok_def)
  have "x < next_task_id s + 1" if "x \<le> next_task_id s" for x
    using word_lt_inc[OF nw that] .
  then show ?thesis using ok i len
    by (auto simp: s' task_ids_ok_def task_table_upd less_imp_le)
qed

end
