(* ===== verification/Sched.thy ===== *)
theory Sched
  imports Task
begin

text \<open>
  The round-robin scheduler, \<^verbatim>\<open>src/kernel/sched.c\<close>, and the context switch of
  \<^verbatim>\<open>src/kernel/task.asm\<close>.  \<^verbatim>\<open>int\<close> indices are naturals; the \<^verbatim>\<open>%\<close> of
  \<open>next_ready\<close> is only evaluated with a positive \<open>queue_count\<close>.  A function that
  calls \<^verbatim>\<open>task_switch\<close> in tail position is modelled up to and including the
  switch; \<open>sched_start_resume\<close> is the code of \<open>sched_start\<close> after it.
\<close>

section \<open>Operations\<close>

abbreviation SCHED_QUEUE_SIZE :: nat where
  "SCHED_QUEUE_SIZE \<equiv> TASK_MAX_TASKS"

definition sched_init :: "sched_state \<Rightarrow> sched_state" where
  "sched_init s = s\<lparr>run_queue := replicate SCHED_QUEUE_SIZE None, queue_count := 0, current_idx := 0,
                    sched_current := None\<rparr>"

definition sched_add :: "nat \<Rightarrow> sched_state \<Rightarrow> sched_state" where
  "sched_add t s =
     (if queue_count s \<ge> SCHED_QUEUE_SIZE then s
      else s\<lparr>run_queue := (run_queue s)[queue_count s := Some t], queue_count := queue_count s + 1\<rparr>)"

definition sched_get_current :: "sched_state \<Rightarrow> nat option" where
  "sched_get_current s = sched_current s"

definition sched_get_tasks :: "nat \<Rightarrow> sched_state \<Rightarrow> nat option list" where
  "sched_get_tasks max_tasks s =
     take (if queue_count s < max_tasks then queue_count s else max_tasks) (run_queue s)"

definition sched_set_tasks :: "nat option list \<Rightarrow> sched_state \<Rightarrow> sched_state" where
  "sched_set_tasks ts s =
     s\<lparr>queue_count := length ts,
       run_queue := fold (\<lambda>i q. q[i := ts ! i]) [0..<length ts] (run_queue s)\<rparr>"

definition queue_ready :: "sched_state \<Rightarrow> nat \<Rightarrow> bool" where
  "queue_ready s i =
     (case run_queue s ! i of None \<Rightarrow> False | Some t \<Rightarrow> tstate (task_table s ! t) = READY)"

definition next_ready :: "sched_state \<Rightarrow> nat option" where
  "next_ready s =
     (case find (\<lambda>i. queue_ready s ((current_idx s + i) mod queue_count s)) [1..<Suc (queue_count s)] of
        Some i \<Rightarrow> run_queue s ! ((current_idx s + i) mod queue_count s)
      | None \<Rightarrow> sched_current s)"

definition idx_of :: "nat \<Rightarrow> sched_state \<Rightarrow> nat" where
  "idx_of t s =
     (case find (\<lambda>i. run_queue s ! i = Some t) [0..<queue_count s] of Some i \<Rightarrow> i | None \<Rightarrow> 0)"

definition tss_set_kernel_stack :: "u64 \<Rightarrow> sched_state \<Rightarrow> sched_state" where
  "tss_set_kernel_stack rsp0 s = s\<lparr>tss_rsp0 := rsp0\<rparr>"

definition task_switch :: "nat \<Rightarrow> nat \<Rightarrow> sched_state \<Rightarrow> sched_state" where
  "task_switch from to s =
     (let s1 = upd_task from (\<lambda>t. t\<lparr>regs := cpu s\<rparr>) s;
          nxt = task_table s1 ! to;
          s2 = (if pml4 nxt \<noteq> 0 then s1\<lparr>cr3 := pml4 nxt - hhdm_offset s1\<rparr> else s1);
          s3 = tss_set_kernel_stack (kstack_top nxt) s2
      in s3\<lparr>cpu := regs nxt\<rparr>)"

definition launch_if_new :: "sched_state \<Rightarrow> task \<Rightarrow> task" where
  "launch_if_new s t =
     (if rsp (regs t) = kstack_top t then t\<lparr>regs := (regs t)\<lparr>rip := trampoline s\<rparr>\<rparr> else t)"

definition sched_switch_to :: "nat \<Rightarrow> nat \<Rightarrow> sched_state \<Rightarrow> sched_state" where
  "sched_switch_to prev next s =
     (let s1 = s\<lparr>current_idx := idx_of next s, sched_current := Some next\<rparr>;
          s2 = upd_task prev (\<lambda>t. t\<lparr>tstate := READY\<rparr>) s1;
          s3 = upd_task next (\<lambda>t. t\<lparr>tstate := RUNNING, ticks := 10\<rparr>) s2;
          s4 = upd_task next (launch_if_new s3) s3;
          s5 = tss_set_kernel_stack (kstack_top (task_table s4 ! next)) s4
      in task_switch prev next s5)"

definition sched_yield :: "sched_state \<Rightarrow> sched_state" where
  "sched_yield s =
     (case sched_current s of
        None \<Rightarrow> s
      | Some cur \<Rightarrow>
          (case next_ready s of
             None \<Rightarrow> s
           | Some next \<Rightarrow> if next = cur then s else sched_switch_to cur next s))"

definition sched_tick :: "sched_state \<Rightarrow> sched_state" where
  "sched_tick s =
     (case sched_current s of
        None \<Rightarrow> s
      | Some cur \<Rightarrow>
          let s1 = (if ticks (task_table s ! cur) > 0
                    then upd_task cur (\<lambda>t. t\<lparr>ticks := ticks t - 1\<rparr>) s else s) in
          if ticks (task_table s1 ! cur) > 0 then s1
          else
            (case next_ready s1 of
               None \<Rightarrow> upd_task cur (\<lambda>t. t\<lparr>ticks := 10\<rparr>) s1
             | Some next \<Rightarrow>
                 if next = cur then upd_task cur (\<lambda>t. t\<lparr>ticks := 10\<rparr>) s1
                 else sched_switch_to cur next s1))"

definition sched_start :: "sched_state \<Rightarrow> sched_state" where
  "sched_start s =
     (if queue_count s = 0 then s
      else
        case run_queue s ! 0 of
          None \<Rightarrow> s
        | Some k \<Rightarrow>
            let s1 = upd_task k (\<lambda>t. t\<lparr>tstate := RUNNING\<rparr>) (s\<lparr>sched_current := Some k, current_idx := 0\<rparr>) in
            if queue_count s > 1 \<and> queue_ready s1 1 then
              (case run_queue s1 ! 1 of
                 None \<Rightarrow> s1
               | Some u \<Rightarrow>
                   let s2 = s1\<lparr>sched_current := Some u, current_idx := 1\<rparr>;
                       s3 = upd_task u (\<lambda>t. t\<lparr>regs := (regs t)\<lparr>rip := trampoline s\<rparr>, tstate := RUNNING, ticks := 10\<rparr>) s2;
                       s4 = tss_set_kernel_stack (kstack_top (task_table s3 ! u)) s3;
                       s5 = upd_task k (\<lambda>t. t\<lparr>tstate := READY\<rparr>) s4
                   in task_switch k u s5)
            else s1)"

definition sched_start_resume :: "sched_state \<Rightarrow> sched_state" where
  "sched_start_resume s = s\<lparr>sched_current := run_queue s ! 0, current_idx := 0\<rparr>"

definition sched_block :: "nat option \<Rightarrow> sched_state \<Rightarrow> sched_state" where
  "sched_block tp s =
     (case tp of
        None \<Rightarrow> s
      | Some t \<Rightarrow>
          let s1 = upd_task t (\<lambda>x. x\<lparr>tstate := BLOCKED\<rparr>) s in
          if sched_current s1 = Some t then sched_yield s1 else s1)"

definition sched_unblock :: "nat option \<Rightarrow> sched_state \<Rightarrow> sched_state" where
  "sched_unblock tp s =
     (case tp of
        None \<Rightarrow> s
      | Some t \<Rightarrow>
          if tstate (task_table s ! t) = BLOCKED then upd_task t (\<lambda>x. x\<lparr>tstate := READY\<rparr>) s else s)"

section \<open>Invariant\<close>

definition sched_inv :: "sched_state \<Rightarrow> bool" where
  "sched_inv s \<longleftrightarrow>
     length (task_table s) = TASK_MAX_TASKS \<and> length (run_queue s) = SCHED_QUEUE_SIZE \<and>
     0 < queue_count s \<and> queue_count s \<le> SCHED_QUEUE_SIZE \<and> current_idx s < queue_count s \<and>
     (\<forall>i<queue_count s. \<exists>t<TASK_MAX_TASKS. run_queue s ! i = Some t) \<and>
     (\<forall>i<queue_count s. \<forall>j<queue_count s. run_queue s ! i = run_queue s ! j \<longrightarrow> i = j) \<and>
     sched_current s = run_queue s ! current_idx s \<and>
     (\<forall>t<TASK_MAX_TASKS. tstate (task_table s ! t) = RUNNING \<longrightarrow> sched_current s = Some t)"

text \<open>The offset of the task the scheduler picks, counted from the current queue position.\<close>

definition ready_offset :: "sched_state \<Rightarrow> nat option" where
  "ready_offset s =
     find (\<lambda>i. queue_ready s ((current_idx s + i) mod queue_count s)) [1..<Suc (queue_count s)]"

lemma sched_inv_current:
  assumes "sched_inv s"
  obtains c where "sched_current s = Some c" "run_queue s ! current_idx s = Some c" "c < length (task_table s)"
  using assms unfolding sched_inv_def by metis

lemma sched_inv_running:
  "sched_inv s \<Longrightarrow> t < TASK_MAX_TASKS \<Longrightarrow> tstate (task_table s ! t) = RUNNING \<Longrightarrow> sched_current s = Some t"
  unfolding sched_inv_def by blast

lemma idx_of_queue:
  assumes "sched_inv s" "i < queue_count s" "run_queue s ! i = Some t"
  shows "idx_of t s = i"
proof -
  have "find (\<lambda>i. run_queue s ! i = Some t) [0..<queue_count s] = Some i"
    using assms unfolding find_upt_Some_iff sched_inv_def by (metis le0 less_irrefl less_trans)
  then show ?thesis by (simp add: idx_of_def)
qed

lemma sched_switch_to_fields [simp]:
  "queue_count (sched_switch_to p n s) = queue_count s"
  "run_queue (sched_switch_to p n s) = run_queue s"
  "current_idx (sched_switch_to p n s) = idx_of n s"
  "sched_current (sched_switch_to p n s) = Some n"
  "length (task_table (sched_switch_to p n s)) = length (task_table s)"
  by (simp_all add: sched_switch_to_def task_switch_def tss_set_kernel_stack_def Let_def)

lemma tstate_sched_switch_to:
  assumes "p < length (task_table s)" "n < length (task_table s)" "p \<noteq> n"
  shows "tstate (task_table (sched_switch_to p n s) ! t) =
    (if t = n then RUNNING else if t = p then READY else tstate (task_table s ! t))"
  using assms
  by (auto simp: sched_switch_to_def task_switch_def tss_set_kernel_stack_def Let_def task_table_upd
      launch_if_new_def)

lemma ready_offset_range:
  assumes "sched_inv s" "ready_offset s = Some i"
  obtains t where "run_queue s ! ((current_idx s + i) mod queue_count s) = Some t" "t < length (task_table s)"
    "tstate (task_table s ! t) = READY" "1 \<le> i" "i \<le> queue_count s"
    "(current_idx s + i) mod queue_count s < queue_count s"
proof -
  let ?j = "(current_idx s + i) mod queue_count s"
  have r: "queue_ready s ?j" "1 \<le> i" "i \<le> queue_count s"
    using assms(2) unfolding ready_offset_def find_upt_Some_iff by simp_all
  have j: "?j < queue_count s" using assms(1) by (simp add: sched_inv_def)
  then obtain t where "run_queue s ! ?j = Some t" "t < length (task_table s)"
    using assms(1) unfolding sched_inv_def by metis
  then show thesis using that r j by (simp add: queue_ready_def)
qed

lemma next_ready_offset:
  "next_ready s = (case ready_offset s of
      Some i \<Rightarrow> run_queue s ! ((current_idx s + i) mod queue_count s) | None \<Rightarrow> sched_current s)"
  by (simp add: next_ready_def ready_offset_def)

lemma sched_yield_None: "ready_offset s = None \<Longrightarrow> sched_yield s = s"
  by (simp add: sched_yield_def next_ready_offset split: option.splits)

lemma sched_yield_Some:
  assumes "sched_inv s" "ready_offset s = Some i" "sched_current s = Some c"
    "run_queue s ! ((current_idx s + i) mod queue_count s) = Some t"
  shows "sched_yield s = (if t = c then s else sched_switch_to c t s)"
  using assms by (simp add: sched_yield_def next_ready_offset)

lemma sched_inv_switch:
  assumes inv: "sched_inv s" and c: "sched_current s = Some c" and j: "j < queue_count s"
    and t: "run_queue s ! j = Some t" "t \<noteq> c"
  shows "sched_inv (sched_switch_to c t s)" "current_idx (sched_switch_to c t s) = j"
proof -
  have idx: "idx_of t s = j" by (rule idx_of_queue[OF inv j t(1)])
  then show "current_idx (sched_switch_to c t s) = j" by simp
  have lens: "c < length (task_table s)" "t < length (task_table s)"
    using sched_inv_current[OF inv] c inv j t unfolding sched_inv_def by (metis option.inject)+
  note st = tstate_sched_switch_to[OF lens t(2)[symmetric]]
  have run: "t = u" if "u < TASK_MAX_TASKS" "tstate (task_table (sched_switch_to c t s) ! u) = RUNNING" for u
    using that inv c unfolding st sched_inv_def by (auto split: if_splits)
  show "sched_inv (sched_switch_to c t s)"
    using inv run j t unfolding sched_inv_def by (simp add: idx)
qed

lemma sched_inv_yield: "sched_inv s \<Longrightarrow> sched_inv (sched_yield s)"
proof (cases "ready_offset s")
  case None
  then show "sched_inv s \<Longrightarrow> ?thesis" by (simp add: sched_yield_None)
next
  case (Some i)
  assume inv: "sched_inv s"
  then obtain c t where "sched_current s = Some c"
    "run_queue s ! ((current_idx s + i) mod queue_count s) = Some t"
    "(current_idx s + i) mod queue_count s < queue_count s"
    using Some ready_offset_range sched_inv_current by metis
  then show ?thesis using inv Some sched_inv_switch(1) by (simp add: sched_yield_Some)
qed

lemma sched_inv_upd_task:
  "sched_inv s \<Longrightarrow> (\<And>t. tstate (g t) = RUNNING \<Longrightarrow> tstate t = RUNNING) \<Longrightarrow> sched_inv (upd_task u g s)"
proof -
  assume inv: "sched_inv s" and g: "\<And>t. tstate (g t) = RUNNING \<Longrightarrow> tstate t = RUNNING"
  have "tstate (task_table s ! t) = RUNNING"
    if "tstate (task_table (upd_task u g s) ! t) = RUNNING" "t < length (task_table s)" for t
    using that g by (cases "t = u") (auto simp: upd_task_def)
  then show ?thesis using inv unfolding sched_inv_def upd_task_frame by metis
qed

lemma sched_inv_tick: "sched_inv s \<Longrightarrow> sched_inv (sched_tick s)"
proof -
  assume inv: "sched_inv s"
  obtain c where c: "sched_current s = Some c" using inv by (rule sched_inv_current)
  define s1 where "s1 = (if ticks (task_table s ! c) > 0
                    then upd_task c (\<lambda>t. t\<lparr>ticks := ticks t - 1\<rparr>) s else s)"
  have inv1: "sched_inv s1" and c1: "sched_current s1 = Some c"
    using inv c by (auto simp: s1_def intro!: sched_inv_upd_task)
  have sw: "sched_inv (sched_switch_to c t s1)" if "next_ready s1 = Some t" "t \<noteq> c" for t
  proof (cases "ready_offset s1")
    case None
    then show ?thesis using that c1 by (simp add: next_ready_offset)
  next
    case (Some i)
    then have "run_queue s1 ! ((current_idx s1 + i) mod queue_count s1) = Some t"
      using that by (simp add: next_ready_offset)
    moreover have "(current_idx s1 + i) mod queue_count s1 < queue_count s1"
      using inv1 by (simp add: sched_inv_def)
    ultimately show ?thesis using sched_inv_switch(1)[OF inv1 c1] that(2) by blast
  qed
  have "sched_tick s = (if ticks (task_table s1 ! c) > 0 then s1
      else case next_ready s1 of
         None \<Rightarrow> upd_task c (\<lambda>t. t\<lparr>ticks := 10\<rparr>) s1
       | Some n \<Rightarrow> if n = c then upd_task c (\<lambda>t. t\<lparr>ticks := 10\<rparr>) s1 else sched_switch_to c n s1)"
    unfolding sched_tick_def c s1_def by (simp only: option.case Let_def)
  then show ?thesis using inv1 sw by (auto intro!: sched_inv_upd_task split: option.splits)
qed

lemma sched_inv_block: "sched_inv s \<Longrightarrow> sched_inv (sched_block tp s)"
  by (auto simp: sched_block_def Let_def intro!: sched_inv_yield sched_inv_upd_task split: option.splits)

lemma sched_inv_unblock: "sched_inv s \<Longrightarrow> sched_inv (sched_unblock tp s)"
  by (auto simp: sched_unblock_def intro!: sched_inv_upd_task split: option.splits)

section \<open>Round-robin progress\<close>

definition queue_dist :: "sched_state \<Rightarrow> nat \<Rightarrow> nat" where
  "queue_dist s q = (if current_idx s \<le> q then q - current_idx s else q + queue_count s - current_idx s)"

lemma cyc_mod: "c < n \<Longrightarrow> i \<le> n \<Longrightarrow> (c + i) mod n = (if c + i < n then c + i else c + i - n)" for c i n :: nat
  by (simp add: le_mod_geq)

lemma ready_offset_le:
  assumes "sched_inv s" "queue_ready s q" "q < queue_count s" "q \<noteq> current_idx s"
  obtains i where "ready_offset s = Some i" "1 \<le> i" "i \<le> queue_dist s q"
proof -
  let ?P = "\<lambda>i. queue_ready s ((current_idx s + i) mod queue_count s)" and ?d = "queue_dist s q"
  have c: "current_idx s < queue_count s" using assms(1) by (simp add: sched_inv_def)
  then have d: "1 \<le> ?d" "?d < Suc (queue_count s)" "?P ?d"
    using assms(2-4) by (auto simp: queue_dist_def cyc_mod)
  then have "ready_offset s \<noteq> None"
    unfolding ready_offset_def find_upt_None_iff by blast
  then obtain i where i: "ready_offset s = Some i" by blast
  then have "1 \<le> i" "\<forall>g. 1 \<le> g \<and> g < i \<longrightarrow> \<not> ?P g"
    unfolding ready_offset_def find_upt_Some_iff by blast+
  then have "i \<le> ?d" using d by (meson not_less)
  then show thesis using that i \<open>1 \<le> i\<close> by blast
qed

lemma sched_yield_progress:
  assumes inv: "sched_inv s" and q: "queue_ready s q" "q < queue_count s" "q \<noteq> current_idx s"
  shows "current_idx (sched_yield s) = q \<or>
    queue_ready (sched_yield s) q \<and> q \<noteq> current_idx (sched_yield s) \<and>
    queue_dist (sched_yield s) q < queue_dist s q"
    and "queue_count (sched_yield s) = queue_count s"
proof -
  let ?n = "queue_count s"
  obtain i where i: "ready_offset s = Some i" "1 \<le> i" "i \<le> queue_dist s q"
    using ready_offset_le[OF assms] .
  define j where "j = (current_idx s + i) mod ?n"
  obtain t where t: "run_queue s ! j = Some t" "t < length (task_table s)" "j < ?n"
    using ready_offset_range[OF inv i(1)] unfolding j_def by metis
  obtain c where c: "sched_current s = Some c" "run_queue s ! current_idx s = Some c" "c < length (task_table s)"
    using sched_inv_current[OF inv] .
  have ci: "current_idx s < ?n" and inj: "\<And>a b. a < ?n \<Longrightarrow> b < ?n \<Longrightarrow> run_queue s ! a = run_queue s ! b \<Longrightarrow> a = b"
    using inv unfolding sched_inv_def by blast+
  have dn: "queue_dist s q < ?n" "queue_dist s q > 0" using ci q by (auto simp: queue_dist_def)
  then have j: "j = (if current_idx s + i < ?n then current_idx s + i else current_idx s + i - ?n)"
    unfolding j_def using i ci by (intro cyc_mod) linarith+
  then have "j \<noteq> current_idx s" using i dn ci by auto
  then have tc: "t \<noteq> c" using inj[OF t(3) ci] t c by auto
  have y: "sched_yield s = sched_switch_to c t s"
    using sched_yield_Some[OF inv i(1) c(1)] t tc by (simp add: j_def)
  have idx: "current_idx (sched_yield s) = j" unfolding y by (rule sched_inv_switch(2)[OF inv c(1) t(3,1) tc])
  show n: "queue_count (sched_yield s) = ?n" by (simp add: y)
  obtain u where u: "run_queue s ! q = Some u" "tstate (task_table s ! u) = READY"
    using q(1) by (auto simp: queue_ready_def split: option.splits)
  have "queue_ready (sched_yield s) q \<and> queue_dist (sched_yield s) q < queue_dist s q" if "j \<noteq> q"
  proof
    have "u \<noteq> t" "u \<noteq> c" using inj[OF q(2) t(3)] inj[OF q(2) ci] u t c q that by auto
    then show "queue_ready (sched_yield s) q"
      using u tc tstate_sched_switch_to[OF c(3) t(2)] by (simp add: queue_ready_def y)
    show "queue_dist (sched_yield s) q < queue_dist s q"
      using i j dn ci q that t(3) unfolding queue_dist_def idx n by (auto split: if_splits)
  qed
  then show "current_idx (sched_yield s) = q \<or>
    queue_ready (sched_yield s) q \<and> q \<noteq> current_idx (sched_yield s) \<and>
    queue_dist (sched_yield s) q < queue_dist s q"
    using idx by blast
qed

lemma sched_yield_reaches:
  "sched_inv s \<Longrightarrow> queue_ready s q \<Longrightarrow> q < queue_count s \<Longrightarrow> q \<noteq> current_idx s \<Longrightarrow>
    \<exists>k\<le>queue_dist s q. 0 < k \<and> current_idx ((sched_yield ^^ k) s) = q"
proof (induction "queue_dist s q" arbitrary: s rule: less_induct)
  case less
  let ?y = "sched_yield s"
  have d0: "queue_dist s q > 0" using less.prems by (auto simp: queue_dist_def sched_inv_def)
  note p = sched_yield_progress[OF less.prems]
  show ?case
  proof (cases "current_idx ?y = q")
    case True
    then show ?thesis using d0 by (intro exI[of _ 1]) simp
  next
    case False
    then have "queue_dist ?y q < queue_dist s q" "queue_ready ?y q" "q \<noteq> current_idx ?y"
      using p by auto
    moreover have "sched_inv ?y" "q < queue_count ?y" using less.prems p by (simp_all add: sched_inv_yield)
    ultimately obtain k where "k \<le> queue_dist ?y q" "0 < k" "current_idx ((sched_yield ^^ k) ?y) = q"
      using less.hyps[of ?y] by blast
    then have "Suc k \<le> queue_dist s q" "current_idx ((sched_yield ^^ Suc k) s) = q"
      using \<open>queue_dist ?y q < queue_dist s q\<close> by (auto simp: funpow_swap1)
    then show ?thesis by blast
  qed
qed

lemma sched_inv_yields: "sched_inv s \<Longrightarrow> sched_inv ((sched_yield ^^ k) s)"
  by (induction k) (simp_all add: sched_inv_yield)

lemma run_queue_yield [simp]: "run_queue (sched_yield s) = run_queue s" "queue_count (sched_yield s) = queue_count s"
  by (simp_all add: sched_yield_def split: option.splits)

lemma run_queue_yields [simp]: "run_queue ((sched_yield ^^ k) s) = run_queue s"
  by (induction k) simp_all

section \<open>Steps\<close>

inductive sched_step :: "sched_state \<Rightarrow> sched_state \<Rightarrow> bool" where
  tick: "sched_step s (sched_tick s)"
| yield: "sched_step s (sched_yield s)"
| block: "sched_step s (sched_block tp s)"
| unblock: "sched_step s (sched_unblock tp s)"
| cpu_runs: "sched_step s (s\<lparr>cpu := r\<rparr>)"

inductive_cases sched_stepE: "sched_step s s'"

lemma sched_inv_step: "sched_step s s' \<Longrightarrow> sched_inv s \<Longrightarrow> sched_inv s'"
  by (erule sched_stepE)
    (auto simp: sched_inv_tick sched_inv_yield sched_inv_block sched_inv_unblock sched_inv_def[of "s\<lparr>cpu := _\<rparr>"]
      sched_inv_def[of s])

section \<open>Blocking and preemption\<close>

lemma next_ready_other:
  assumes inv: "sched_inv s" and c: "sched_current s = Some c"
    and q: "queue_ready s q" "q < queue_count s" "q \<noteq> current_idx s"
  obtains t where "next_ready s = Some t" "t \<noteq> c" "t < length (task_table s)"
proof -
  obtain i where i: "ready_offset s = Some i" "1 \<le> i" "i \<le> queue_dist s q"
    using ready_offset_le[OF inv q] .
  have ci: "current_idx s < queue_count s" and
    inj: "\<And>a b. a < queue_count s \<Longrightarrow> b < queue_count s \<Longrightarrow> run_queue s ! a = run_queue s ! b \<Longrightarrow> a = b"
    and cc: "run_queue s ! current_idx s = Some c"
    using inv c unfolding sched_inv_def by force+
  obtain t where t: "run_queue s ! ((current_idx s + i) mod queue_count s) = Some t" "t < length (task_table s)"
      "(current_idx s + i) mod queue_count s < queue_count s"
    using ready_offset_range[OF inv i(1)] by metis
  have d: "queue_dist s q < queue_count s" using ci q by (auto simp: queue_dist_def)
  then have "(current_idx s + i) mod queue_count s \<noteq> current_idx s"
    using cyc_mod[OF ci, of i] i by auto
  then have "t \<noteq> c" using inj[OF t(3) ci] t cc by auto
  then show thesis using that t i by (simp add: next_ready_offset)
qed

lemma queue_ready_upd_other:
  assumes "run_queue s ! q \<noteq> Some c"
  shows "queue_ready (upd_task c g s) q = queue_ready s q"
  using assms by (auto simp: queue_ready_def upd_task_def split: option.splits)

lemma current_position:
  assumes "sched_inv s" "sched_current s = Some c" "q < queue_count s"
  shows "run_queue s ! q = Some c \<longleftrightarrow> q = current_idx s"
  using assms unfolding sched_inv_def by metis

lemma sched_yield_stopped:
  assumes inv: "sched_inv s" and c: "sched_current s = Some c" and st: "st \<noteq> READY" "st \<noteq> RUNNING"
  shows "tstate (task_table (sched_yield (upd_task c (\<lambda>x. x\<lparr>tstate := st\<rparr>) s)) ! c) =
    (if \<exists>q<queue_count s. q \<noteq> current_idx s \<and> queue_ready s q then READY else st)"
proof -
  define s1 where "s1 = upd_task c (\<lambda>x. x\<lparr>tstate := st\<rparr>) s"
  have len: "c < length (task_table s)" using sched_inv_current[OF inv] c by auto
  have inv1: "sched_inv s1" and c1: "sched_current s1 = Some c" and l1: "c < length (task_table s1)"
    using inv c len st by (auto simp: s1_def intro!: sched_inv_upd_task)
  have st1: "tstate (task_table s1 ! c) = st" using len by (simp add: s1_def task_table_upd)
  have rdy: "queue_ready s1 q = queue_ready s q" if "q < queue_count s" "q \<noteq> current_idx s" for q
    unfolding s1_def using current_position[OF inv c that(1)] that(2) by (simp add: queue_ready_upd_other)
  show ?thesis
  proof (cases "\<exists>q<queue_count s. q \<noteq> current_idx s \<and> queue_ready s q")
    case True
    then obtain q where q: "q < queue_count s1" "q \<noteq> current_idx s1" "queue_ready s1 q"
      using rdy by (auto simp: s1_def)
    obtain t where t: "next_ready s1 = Some t" "t \<noteq> c" "t < length (task_table s1)"
      using next_ready_other[OF inv1 c1 q(3,1,2)] .
    then have "sched_yield s1 = sched_switch_to c t s1" by (simp add: sched_yield_def c1)
    then show ?thesis using True tstate_sched_switch_to[OF l1 t(3)] t(2) by (simp add: s1_def)
  next
    case False
    have "ready_offset s1 = None"
    proof (rule ccontr)
      assume "ready_offset s1 \<noteq> None"
      then obtain i t where i: "ready_offset s1 = Some i" and
        t: "run_queue s1 ! ((current_idx s1 + i) mod queue_count s1) = Some t"
          "tstate (task_table s1 ! t) = READY" "(current_idx s1 + i) mod queue_count s1 < queue_count s1"
        using ready_offset_range[OF inv1] by (metis not_None_eq)
      let ?q = "(current_idx s1 + i) mod queue_count s1"
      have "t \<noteq> c" using t st1 st by auto
      then have "?q \<noteq> current_idx s" using current_position[OF inv1 c1 t(3)] t(1) by (auto simp: s1_def)
      moreover have "queue_ready s1 ?q" using t by (simp add: queue_ready_def)
      ultimately show False using False rdy[of ?q] t(3) by (auto simp: s1_def)
    qed
    then show ?thesis using False st1 by (auto simp: sched_yield_None s1_def)
  qed
qed

lemma sched_block_current:
  assumes inv: "sched_inv s" and c: "sched_current s = Some c"
  shows "tstate (task_table (sched_block (Some c) s) ! c) =
    (if \<exists>q<queue_count s. q \<noteq> current_idx s \<and> queue_ready s q then READY else BLOCKED)"
  using sched_yield_stopped [OF assms, of BLOCKED] c by (simp add: sched_block_def)

lemma sched_tick_expired:
  assumes inv: "sched_inv s" and c: "sched_current s = Some c" and tk: "unat (ticks (task_table s ! c)) \<le> 1"
    and q: "queue_ready s q" "q < queue_count s" "q \<noteq> current_idx s"
  shows "\<exists>t. t \<noteq> c \<and> sched_current (sched_tick s) = Some t"
proof -
  have len: "c < length (task_table s)" using sched_inv_current[OF inv] c by auto
  define s1 where "s1 = (if ticks (task_table s ! c) > 0
                    then upd_task c (\<lambda>t. t\<lparr>ticks := ticks t - 1\<rparr>) s else s)"
  have inv1: "sched_inv s1" and c1: "sched_current s1 = Some c"
    using inv c by (auto simp: s1_def intro!: sched_inv_upd_task)
  have tk1: "\<not> ticks (task_table s1 ! c) > 0"
  proof (cases "ticks (task_table s ! c) = 0")
    case False
    then have "unat (ticks (task_table s ! c)) = unat (1 :: u32)"
      using tk by (cases "unat (ticks (task_table s ! c))") (auto simp: unat_eq_zero)
    then have "ticks (task_table s ! c) = 1" by (rule unsigned_word_eqI)
    then show ?thesis using len by (simp add: s1_def task_table_upd)
  qed (simp add: s1_def)
  have "run_queue s ! q \<noteq> Some c" using current_position[OF inv c q(2)] q(3) by simp
  then have "queue_ready s1 q" "q < queue_count s1" "q \<noteq> current_idx s1"
    using q by (simp_all add: s1_def queue_ready_upd_other)
  then obtain t where t: "next_ready s1 = Some t" "t \<noteq> c"
    using next_ready_other[OF inv1 c1] by metis
  have "sched_tick s = sched_switch_to c t s1"
    unfolding sched_tick_def c option.case Let_def s1_def[symmetric] using tk1 t by simp
  then show ?thesis using t by auto
qed

lemma sched_tick_running:
  assumes inv: "sched_inv s" and c: "sched_current s = Some c" and tk: "unat (ticks (task_table s ! c)) > 1"
  shows "sched_tick s = upd_task c (\<lambda>t. t\<lparr>ticks := ticks t - 1\<rparr>) s"
    and "unat (ticks (task_table (sched_tick s) ! c)) = unat (ticks (task_table s ! c)) - 1"
proof -
  let ?w = "ticks (task_table s ! c)"
  have len: "c < length (task_table s)" using sched_inv_current[OF inv] c by auto
  have w: "?w > 0" using tk by (simp add: word_less_nat_alt)
  have u: "unat (?w - 1) = unat ?w - 1" using w by (simp add: unat_minus_one)
  then have "?w - 1 > 0" using tk by (simp add: word_less_nat_alt)
  then show *: "sched_tick s = upd_task c (\<lambda>t. t\<lparr>ticks := ticks t - 1\<rparr>) s"
    using len w by (simp add: sched_tick_def c task_table_upd)
  show "unat (ticks (task_table (sched_tick s) ! c)) = unat ?w - 1"
    using len u by (simp add: * task_table_upd)
qed

lemma sched_tick_preempts:
  "sched_inv s \<Longrightarrow> sched_current s = Some c \<Longrightarrow> queue_ready s q \<Longrightarrow> q < queue_count s \<Longrightarrow> q \<noteq> current_idx s \<Longrightarrow>
    \<exists>k\<le>max 1 (unat (ticks (task_table s ! c))). \<exists>t. t \<noteq> c \<and> sched_current ((sched_tick ^^ k) s) = Some t"
proof (induction "unat (ticks (task_table s ! c))" arbitrary: s rule: less_induct)
  case less
  show ?case
  proof (cases "unat (ticks (task_table s ! c)) \<le> 1")
    case True
    then obtain t where "t \<noteq> c" "sched_current (sched_tick s) = Some t"
      using sched_tick_expired[OF less.prems(1,2) True less.prems(3-5)] by blast
    then show ?thesis by (intro exI[of _ 1]) auto
  next
    case False
    let ?s = "sched_tick s"
    have tk: "?s = upd_task c (\<lambda>t. t\<lparr>ticks := ticks t - 1\<rparr>) s"
      "unat (ticks (task_table ?s ! c)) = unat (ticks (task_table s ! c)) - 1"
      using sched_tick_running[OF less.prems(1,2)] False by simp_all
    have "run_queue s ! q \<noteq> Some c" using current_position[OF less.prems(1,2,4)] less.prems(5) by simp
    then have "sched_inv ?s" "sched_current ?s = Some c" "queue_ready ?s q" "q < queue_count ?s" "q \<noteq> current_idx ?s"
      using less.prems by (simp_all add: sched_inv_tick) (simp_all add: tk(1) queue_ready_upd_other)
    then obtain k t where "k \<le> max 1 (unat (ticks (task_table ?s ! c)))" "t \<noteq> c"
        "sched_current ((sched_tick ^^ k) ?s) = Some t"
      using less.hyps[of ?s] tk(2) False by auto
    then show ?thesis using False tk(2) by (intro exI[of _ "Suc k"]) (auto simp: funpow_swap1)
  qed
qed

section \<open>Properties\<close>

text \<open>C8: Whatever sequence of timer ticks, yields, blocks and unblocks the kernel runs, the run queue
  stays well formed and at most one task is RUNNING, namely the scheduler's current task.\<close>

theorem sched_single_running:
  assumes "sched_step\<^sup>*\<^sup>* s s'" "sched_inv s"
  shows "sched_inv s' \<and> (\<forall>t u. t < TASK_MAX_TASKS \<and> u < TASK_MAX_TASKS \<and>
    tstate (task_table s' ! t) = RUNNING \<and> tstate (task_table s' ! u) = RUNNING \<longrightarrow> t = u)"
proof -
  have "sched_inv s'" using assms by (induction rule: rtranclp_induct) (auto intro: sched_inv_step)
  moreover have "t = u" if "t < TASK_MAX_TASKS" "u < TASK_MAX_TASKS"
    "tstate (task_table s' ! t) = RUNNING" "tstate (task_table s' ! u) = RUNNING" for t u
    using sched_inv_running[OF calculation] that by (metis option.inject)
  ultimately show ?thesis by blast
qed

text \<open>C28: Round robin starves nobody: a READY task at any queue position becomes the current task after
  at most \<open>queue_count\<close> yields, whatever the states of the other tasks.\<close>

theorem sched_round_robin_fair:
  assumes "sched_inv s" "q < queue_count s" "run_queue s ! q = Some t" "tstate (task_table s ! t) = READY"
  shows "\<exists>k\<le>queue_count s. sched_current ((sched_yield ^^ k) s) = Some t"
proof (cases "q = current_idx s")
  case True
  then show ?thesis using assms by (intro exI[of _ 0]) (simp add: sched_inv_def)
next
  case False
  have "queue_ready s q" using assms by (simp add: queue_ready_def)
  then obtain k where k: "k \<le> queue_dist s q" "current_idx ((sched_yield ^^ k) s) = q"
    using sched_yield_reaches assms False by blast
  moreover have "sched_inv ((sched_yield ^^ k) s)" using assms(1) by (rule sched_inv_yields)
  ultimately have "sched_current ((sched_yield ^^ k) s) = Some t"
    using assms(3) by (simp add: sched_inv_def)
  moreover have "queue_dist s q \<le> queue_count s"
    using assms(1,2) by (auto simp: queue_dist_def sched_inv_def)
  ultimately show ?thesis using k(1) by (meson le_trans)
qed

text \<open>Preemption: while some other queued task is READY, the current task loses the CPU to another
  task after at most its remaining quantum of timer ticks (one tick if the quantum is used up).\<close>

theorem sched_quantum_bound:
  assumes "sched_inv s" "sched_current s = Some c" "q < queue_count s" "q \<noteq> current_idx s" "queue_ready s q"
  shows "\<exists>k\<le>max 1 (unat (ticks (task_table s ! c))). \<exists>t. t \<noteq> c \<and> sched_current ((sched_tick ^^ k) s) = Some t"
  using sched_tick_preempts assms by blast

text \<open>Blocking the current task is undone by the switch it causes: \<^verbatim>\<open>sched_yield\<close> sets the
  outgoing task to READY whatever its state was, so the task stays BLOCKED only if no other queued
  task is READY, and then it keeps the CPU.\<close>

theorem sched_block_is_lost:
  assumes "sched_inv s" "sched_current s = Some c"
  shows "tstate (task_table (sched_block (Some c) s) ! c) =
    (if \<exists>q<queue_count s. q \<noteq> current_idx s \<and> queue_ready s q then READY else BLOCKED)"
  by (rule sched_block_current[OF assms])

section \<open>Witnesses\<close>

definition wregs :: task_regs where
  "wregs = \<lparr>rbx = 0, rbp = 0, r12 = 0, r13 = 0, r14 = 0, r15 = 0, rip = 0, rsp = 0\<rparr>"

definition wtask :: "u32 \<Rightarrow> task_state \<Rightarrow> task" where
  "wtask i st = \<lparr>tid = i, tstate = st, cap_table = 0, pml4 = 0, kstack_base = 0, kstack_top = 1,
                 regs = wregs, ticks = 2\<rparr>"

definition wsched :: sched_state where
  "wsched = \<lparr>task_table = [wtask 0 RUNNING, wtask 1 READY, wtask 2 BLOCKED] @ replicate 5 (wtask 0 UNUSED),
             next_task_id = 3, run_queue = [Some 0, Some 1, Some 2] @ replicate 5 None, queue_count = 3,
             current_idx = 0, sched_current = Some 0, tss_rsp0 = 0, cr3 = 0, cpu = wregs,
             hhdm_offset = 0, trampoline = 0\<rparr>"

lemma wsched_fields:
  "queue_count wsched = 3" "current_idx wsched = 0" "sched_current wsched = Some 0"
  "run_queue wsched ! 0 = Some 0" "run_queue wsched ! 1 = Some 1" "queue_ready wsched 1"
  "tstate (task_table wsched ! 1) = READY" "ticks (task_table wsched ! 0) = 2"
  by (simp_all add: wsched_def wtask_def queue_ready_def)

lemma wsched_inv: "sched_inv wsched"
  unfolding sched_inv_def wsched_def wtask_def by (simp add: numeral_eq_Suc All_less_Suc Ex_less_Suc)

theorem sched_single_running_witness: "sched_inv (sched_block (Some 0) (sched_tick wsched))"
proof -
  have "sched_step wsched (sched_tick wsched)"
    "sched_step (sched_tick wsched) (sched_block (Some 0) (sched_tick wsched))"
    by (rule sched_step.tick, rule sched_step.block)
  then have "sched_step\<^sup>*\<^sup>* wsched (sched_block (Some 0) (sched_tick wsched))"
    by (rule converse_rtranclp_into_rtranclp[OF _ r_into_rtranclp])
  then show ?thesis using sched_single_running wsched_inv by blast
qed

theorem sched_round_robin_fair_witness: "\<exists>k\<le>3. sched_current ((sched_yield ^^ k) wsched) = Some 1"
  using sched_round_robin_fair[OF wsched_inv, of 1 1] unfolding wsched_fields by simp

theorem sched_quantum_bound_witness: "\<exists>k\<le>2. \<exists>t. t \<noteq> 0 \<and> sched_current ((sched_tick ^^ k) wsched) = Some t"
proof -
  have "max 1 (unat (2 :: u32)) = 2" "(1::nat) < 3" "(1::nat) \<noteq> 0" by simp_all
  then show ?thesis
    using sched_quantum_bound[OF wsched_inv wsched_fields(3), of 1] wsched_fields(6) unfolding wsched_fields by metis
qed

theorem sched_block_is_lost_witness: "tstate (task_table (sched_block (Some 0) wsched) ! 0) = READY"
proof -
  have "\<exists>q<queue_count wsched. q \<noteq> current_idx wsched \<and> queue_ready wsched q"
    by (rule exI[of _ 1]) (simp only: wsched_fields, simp)
  then show ?thesis using sched_block_is_lost[OF wsched_inv wsched_fields(3)] by simp
qed

end
