(* ===== verification/Cap.thy ===== *)
theory Cap
  imports Sched
begin

unbundle bit_operations_syntax

text \<open>
  The capability engine and its IPC endpoints: \<^verbatim>\<open>src/kernel/cap.c\<close>, \<^verbatim>\<open>cap.h\<close>,
  \<^verbatim>\<open>endpoint.c\<close>, \<^verbatim>\<open>endpoint.h\<close> and \<^verbatim>\<open>ipc.h\<close>.  An endpoint pointer is an index
  into the static pool; the NULL object of an empty slot is 0 and is never
  read.  A message pointer is a 64-bit virtual address (0 is NULL).  Memory is byte
  addressed: an address below \<open>USER_TOP\<close> is read and written through the page tables
  in CR3, that is in the address space they stand for; the others belong to the
  kernel half that every task shares, the space \<open>None\<close>.
\<close>

section \<open>Data\<close>

abbreviation CAP_TABLE_SIZE :: nat where "CAP_TABLE_SIZE \<equiv> 64"
abbreviation ENDPOINT_POOL_SIZE :: nat where "ENDPOINT_POOL_SIZE \<equiv> 16"
abbreviation USER_TOP :: u64 where "USER_TOP \<equiv> 0x800000000000"

abbreviation CAP_RIGHT_SEND :: u32 where "CAP_RIGHT_SEND \<equiv> 1"
abbreviation CAP_RIGHT_RECV :: u32 where "CAP_RIGHT_RECV \<equiv> 2"

datatype cap_type = CAP_TYPE_NULL | CAP_TYPE_ENDPOINT | CAP_TYPE_MEMORY | CAP_TYPE_IRQ | CAP_TYPE_DEVPORT

datatype cap_err = CAP_OK | CAP_ERR_NULL | CAP_ERR_ACCESS | CAP_ERR_RIGHTS | CAP_ERR_STALE | CAP_ERR_FULL
  | CAP_ERR_BOUNDS | CAP_ERR_TYPE | CAP_ERR_STATE | CAP_ERR_POOL | CAP_ERR_OCCUPIED

datatype ep_state = EP_STATE_IDLE | EP_STATE_SEND_WAITING | EP_STATE_RECV_WAITING

record ipc_msg =
  tag :: u64
  words :: "u64 list"
  cap_count :: u32
  pad :: u32

record endpoint =
  ep_generation :: u64
  epstate :: ep_state
  pending_msg :: u64
  owner_task :: u32
  parked_task_id :: u32

record cap_slot =
  ctype :: cap_type
  rights :: u32
  generation :: u64
  object :: nat

record ipc_state =
  ep_pool :: "endpoint list"
  ep_pool_used :: "u8 list"
  sch :: sched_state
  umem :: "u64 option \<Rightarrow> u64 \<Rightarrow> u8"

type_synonym cap_tab = "cap_slot list"

definition null_slot :: cap_slot where
  "null_slot = \<lparr>ctype = CAP_TYPE_NULL, rights = 0, generation = 0, object = 0\<rparr>"

section \<open>Endpoints\<close>

definition endpoint_init :: "u32 \<Rightarrow> endpoint \<Rightarrow> endpoint" where
  "endpoint_init owner ep = ep\<lparr>ep_generation := 0, epstate := EP_STATE_IDLE, pending_msg := 0,
                               owner_task := owner, parked_task_id := 0\<rparr>"

definition endpoint_revoke :: "endpoint \<Rightarrow> endpoint" where
  "endpoint_revoke ep = ep\<lparr>ep_generation := ep_generation ep + 1, epstate := EP_STATE_IDLE,
                           pending_msg := 0, parked_task_id := 0\<rparr>"

definition upd_ep :: "nat \<Rightarrow> (endpoint \<Rightarrow> endpoint) \<Rightarrow> ipc_state \<Rightarrow> ipc_state" where
  "upd_ep e g k = k\<lparr>ep_pool := (ep_pool k)[e := g (ep_pool k ! e)]\<rparr>"

definition ep_pool_alloc :: "ipc_state \<Rightarrow> nat option \<times> ipc_state" where
  "ep_pool_alloc k =
     (case find (\<lambda>i. ep_pool_used k ! i = 0) [0..<ENDPOINT_POOL_SIZE] of
        None \<Rightarrow> (None, k)
      | Some i \<Rightarrow> (Some i, k\<lparr>ep_pool_used := (ep_pool_used k)[i := 1]\<rparr>))"

section \<open>Slots\<close>

definition cap_table_init :: "cap_tab \<Rightarrow> cap_tab" where
  "cap_table_init table = fold (\<lambda>i tb. tb[i := null_slot]) [0..<CAP_TABLE_SIZE] table"

definition cap_alloc_slot :: "cap_tab \<Rightarrow> int" where
  "cap_alloc_slot table =
     (case find (\<lambda>i. ctype (table ! i) = CAP_TYPE_NULL) [0..<CAP_TABLE_SIZE] of Some i \<Rightarrow> int i | None \<Rightarrow> - 1)"

definition cap_free_slot :: "cap_tab \<Rightarrow> u32 \<Rightarrow> cap_err \<times> cap_tab" where
  "cap_free_slot table idx =
     (if unat idx \<ge> CAP_TABLE_SIZE then (CAP_ERR_BOUNDS, table)
      else (CAP_OK, table[unat idx := null_slot]))"

definition slot_stale :: "ipc_state \<Rightarrow> cap_slot \<Rightarrow> bool" where
  "slot_stale k slot \<longleftrightarrow>
     ctype slot = CAP_TYPE_ENDPOINT \<and> ep_generation (ep_pool k ! object slot) \<noteq> generation slot"

definition cap_lookup :: "ipc_state \<Rightarrow> cap_tab \<Rightarrow> u32 \<Rightarrow> cap_type \<Rightarrow> u32 \<Rightarrow> cap_err + cap_slot" where
  "cap_lookup k table idx expected_type required_rights =
     (if unat idx \<ge> CAP_TABLE_SIZE then Inl CAP_ERR_BOUNDS
      else
        let slot = table ! unat idx in
        if ctype slot = CAP_TYPE_NULL then Inl CAP_ERR_NULL
        else if ctype slot \<noteq> expected_type then Inl CAP_ERR_TYPE
        else if slot_stale k slot then Inl CAP_ERR_STALE
        else if rights slot AND required_rights \<noteq> required_rights then Inl CAP_ERR_ACCESS
        else Inr slot)"

definition cap_derive :: "ipc_state \<Rightarrow> cap_tab \<Rightarrow> u32 \<Rightarrow> u32 \<Rightarrow> u32 \<Rightarrow> cap_err \<times> cap_tab" where
  "cap_derive k table src_idx dst_idx child_rights =
     (if unat src_idx \<ge> CAP_TABLE_SIZE \<or> unat dst_idx \<ge> CAP_TABLE_SIZE then (CAP_ERR_BOUNDS, table)
      else
        let src = table ! unat src_idx in
        if ctype src = CAP_TYPE_NULL then (CAP_ERR_NULL, table)
        else if slot_stale k src then (CAP_ERR_STALE, table)
        else if child_rights AND NOT (rights src) \<noteq> 0 then (CAP_ERR_RIGHTS, table)
        else if ctype (table ! unat dst_idx) \<noteq> CAP_TYPE_NULL then (CAP_ERR_OCCUPIED, table)
        else (CAP_OK, table[unat dst_idx := \<lparr>ctype = ctype src, rights = child_rights,
                                             generation = generation src, object = object src\<rparr>]))"

definition cap_endpoint_create ::
  "ipc_state \<Rightarrow> cap_tab \<Rightarrow> u32 \<Rightarrow> u32 \<Rightarrow> u32 \<Rightarrow> cap_err \<times> cap_tab \<times> ipc_state" where
  "cap_endpoint_create k table slot_idx rts owner =
     (if unat slot_idx \<ge> CAP_TABLE_SIZE then (CAP_ERR_BOUNDS, table, k)
      else if ctype (table ! unat slot_idx) \<noteq> CAP_TYPE_NULL then (CAP_ERR_OCCUPIED, table, k)
      else
        case ep_pool_alloc k of
          (None, k1) \<Rightarrow> (CAP_ERR_POOL, table, k1)
        | (Some e, k1) \<Rightarrow>
            let k2 = upd_ep e (endpoint_init owner) k1 in
            (CAP_OK, table[unat slot_idx := \<lparr>ctype = CAP_TYPE_ENDPOINT, rights = rts,
                             generation = ep_generation (ep_pool k2 ! e), object = e\<rparr>], k2))"

definition cap_revoke_endpoint :: "ipc_state \<Rightarrow> cap_tab \<Rightarrow> u32 \<Rightarrow> cap_err \<times> ipc_state" where
  "cap_revoke_endpoint k table slot_idx =
     (if unat slot_idx \<ge> CAP_TABLE_SIZE then (CAP_ERR_BOUNDS, k)
      else if ctype (table ! unat slot_idx) \<noteq> CAP_TYPE_ENDPOINT then (CAP_ERR_TYPE, k)
      else (CAP_OK, upd_ep (object (table ! unat slot_idx)) endpoint_revoke k))"

section \<open>Message transfer\<close>

definition addr_space :: "ipc_state \<Rightarrow> u64 \<Rightarrow> u64 option" where
  "addr_space k a = (if a < USER_TOP then Some (cr3 (sch k)) else None)"

definition load_byte :: "ipc_state \<Rightarrow> u64 \<Rightarrow> u8" where
  "load_byte k a = umem k (addr_space k a) a"

definition load_bytes :: "ipc_state \<Rightarrow> u64 \<Rightarrow> nat \<Rightarrow> u8 list" where
  "load_bytes k a n = map (\<lambda>i. load_byte k (a + word_of_nat i)) [0..<n]"

definition store_byte :: "u64 \<times> u8 \<Rightarrow> ipc_state \<Rightarrow> ipc_state" where
  "store_byte ab k =
     (let sp = addr_space k (fst ab) in k\<lparr>umem := (umem k)(sp := (umem k sp)(fst ab := snd ab))\<rparr>)"

definition store_bytes :: "u64 \<Rightarrow> u8 list \<Rightarrow> ipc_state \<Rightarrow> ipc_state" where
  "store_bytes a bs k = fold store_byte (map (\<lambda>(i, b). (a + word_of_nat i, b)) (enumerate 0 bs)) k"

abbreviation IPC_MSG_BYTES :: nat where "IPC_MSG_BYTES \<equiv> 48"

text \<open>The structure that lies at an address, and the assignment of one structure to another.\<close>

definition ipc_msg_of :: "u8 list \<Rightarrow> ipc_msg" where
  "ipc_msg_of bs =
     \<lparr>tag = le_word (take 8 bs), words = map (\<lambda>i. le_word (take 8 (drop (8 + 8 * i) bs))) [0..<4],
      cap_count = le_word (take 4 (drop 40 bs)), pad = le_word (take 4 (drop 44 bs))\<rparr>"

definition msg_at :: "ipc_state \<Rightarrow> u64 \<Rightarrow> ipc_msg" where
  "msg_at k a = ipc_msg_of (load_bytes k a IPC_MSG_BYTES)"

definition msg_copy :: "u64 \<Rightarrow> u64 \<Rightarrow> ipc_state \<Rightarrow> ipc_state" where
  "msg_copy dst src k = store_bytes dst (load_bytes k src IPC_MSG_BYTES) k"

definition ep_complete :: "nat \<Rightarrow> ipc_state \<Rightarrow> ipc_state" where
  "ep_complete e k =
     (let parked = parked_task_id (ep_pool k ! e);
          k1 = upd_ep e (\<lambda>ep. ep\<lparr>epstate := EP_STATE_IDLE, pending_msg := 0, parked_task_id := 0\<rparr>) k
      in if parked \<noteq> 0 then k1\<lparr>sch := sched_unblock (task_get parked (sch k1)) (sch k1)\<rparr> else k1)"

definition ep_park :: "nat \<Rightarrow> ep_state \<Rightarrow> u64 \<Rightarrow> ipc_state \<Rightarrow> ipc_state" where
  "ep_park e st m k =
     (let k1 = upd_ep e (\<lambda>ep. ep\<lparr>epstate := st, pending_msg := m\<rparr>) k in
      case sched_get_current (sch k1) of
        None \<Rightarrow> upd_ep e (\<lambda>ep. ep\<lparr>parked_task_id := 0\<rparr>) k1
      | Some cur \<Rightarrow>
          let i = tid (task_table (sch k1) ! cur) in
          if i \<noteq> 0 then
            let k2 = upd_ep e (\<lambda>ep. ep\<lparr>parked_task_id := i\<rparr>) k1
            in k2\<lparr>sch := sched_block (Some cur) (sch k2)\<rparr>
          else upd_ep e (\<lambda>ep. ep\<lparr>parked_task_id := 0\<rparr>) k1)"

definition cap_send :: "ipc_state \<Rightarrow> cap_tab \<Rightarrow> u32 \<Rightarrow> u64 \<Rightarrow> cap_err \<times> ipc_state" where
  "cap_send k table slot_idx m =
     (case cap_lookup k table slot_idx CAP_TYPE_ENDPOINT CAP_RIGHT_SEND of
        Inl err \<Rightarrow> (err, k)
      | Inr slot \<Rightarrow>
          let e = object slot; ep = ep_pool k ! e in
          (case epstate ep of
             EP_STATE_RECV_WAITING \<Rightarrow>
               let k1 = (if pending_msg ep \<noteq> 0 then msg_copy (pending_msg ep) m k else k)
               in (CAP_OK, ep_complete e k1)
           | EP_STATE_IDLE \<Rightarrow> (CAP_OK, ep_park e EP_STATE_SEND_WAITING m k)
           | EP_STATE_SEND_WAITING \<Rightarrow> (CAP_ERR_STATE, k)))"

definition cap_recv :: "ipc_state \<Rightarrow> cap_tab \<Rightarrow> u32 \<Rightarrow> u64 \<Rightarrow> cap_err \<times> ipc_state" where
  "cap_recv k table slot_idx out =
     (case cap_lookup k table slot_idx CAP_TYPE_ENDPOINT CAP_RIGHT_RECV of
        Inl err \<Rightarrow> (err, k)
      | Inr slot \<Rightarrow>
          let e = object slot; ep = ep_pool k ! e in
          (case epstate ep of
             EP_STATE_SEND_WAITING \<Rightarrow>
               let k1 = (if pending_msg ep \<noteq> 0 then msg_copy out (pending_msg ep) k else k)
               in (CAP_OK, ep_complete e k1)
           | EP_STATE_IDLE \<Rightarrow> (CAP_OK, ep_park e EP_STATE_RECV_WAITING out k)
           | EP_STATE_RECV_WAITING \<Rightarrow> (CAP_ERR_STATE, k)))"

section \<open>Export and import of the pool, error names\<close>

definition cap_export_pool :: "ipc_state \<Rightarrow> endpoint list \<times> u8 list" where
  "cap_export_pool k = (ep_pool k, ep_pool_used k)"

definition cap_import_pool :: "endpoint list \<times> u8 list \<Rightarrow> ipc_state \<Rightarrow> ipc_state" where
  "cap_import_pool p k = k\<lparr>ep_pool := fst p, ep_pool_used := snd p\<rparr>"

fun cap_err_str :: "cap_err \<Rightarrow> string" where
  "cap_err_str CAP_OK = ''CAP_OK''"
| "cap_err_str CAP_ERR_NULL = ''CAP_ERR_NULL''"
| "cap_err_str CAP_ERR_ACCESS = ''CAP_ERR_ACCESS''"
| "cap_err_str CAP_ERR_RIGHTS = ''CAP_ERR_RIGHTS''"
| "cap_err_str CAP_ERR_STALE = ''CAP_ERR_STALE''"
| "cap_err_str CAP_ERR_FULL = ''CAP_ERR_FULL''"
| "cap_err_str CAP_ERR_BOUNDS = ''CAP_ERR_BOUNDS''"
| "cap_err_str CAP_ERR_TYPE = ''CAP_ERR_TYPE''"
| "cap_err_str CAP_ERR_STATE = ''CAP_ERR_STATE''"
| "cap_err_str CAP_ERR_POOL = ''CAP_ERR_POOL''"
| "cap_err_str CAP_ERR_OCCUPIED = ''CAP_ERR_OCCUPIED''"

section \<open>Lemmas\<close>

abbreviation ep_gen :: "ipc_state \<Rightarrow> nat \<Rightarrow> u64" where
  "ep_gen k e \<equiv> ep_generation (ep_pool k ! e)"

lemma length_upd_ep [simp]:
  "length (ep_pool (upd_ep e g k)) = length (ep_pool k)"
  "ep_pool_used (upd_ep e g k) = ep_pool_used k" "sch (upd_ep e g k) = sch k" "umem (upd_ep e g k) = umem k"
  by (simp_all add: upd_ep_def)

lemma ep_pool_upd_ep:
  "e < length (ep_pool k) \<Longrightarrow> ep_pool (upd_ep e g k) ! d = (if d = e then g (ep_pool k ! e) else ep_pool k ! d)"
  by (simp add: upd_ep_def nth_list_update)

lemma ep_gen_upd_ep:
  "(\<And>ep. ep_generation (g ep) = ep_generation ep) \<Longrightarrow> ep_gen (upd_ep e g k) d = ep_gen k d"
  by (cases "e < length (ep_pool k)"; cases "d = e") (auto simp: upd_ep_def list_update_beyond not_less)

text \<open>Memory accesses.  Storing keeps everything but the bytes of the address spaces it goes to.\<close>

lemma store_byte_frame [simp]:
  "ep_pool (store_byte ab k) = ep_pool k" "ep_pool_used (store_byte ab k) = ep_pool_used k" "sch (store_byte ab k) = sch k"
  by (simp_all add: store_byte_def Let_def)

lemma store_fold_frame [simp]:
  "ep_pool (fold store_byte abl k) = ep_pool k" "ep_pool_used (fold store_byte abl k) = ep_pool_used k"
  "sch (fold store_byte abl k) = sch k"
  by (induction abl arbitrary: k) simp_all

lemma store_bytes_frame [simp]:
  "ep_pool (store_bytes a bs k) = ep_pool k" "ep_pool_used (store_bytes a bs k) = ep_pool_used k"
  "sch (store_bytes a bs k) = sch k"
  by (simp_all add: store_bytes_def)

lemma msg_copy_frame [simp]:
  "ep_pool (msg_copy a b k) = ep_pool k" "ep_pool_used (msg_copy a b k) = ep_pool_used k" "sch (msg_copy a b k) = sch k"
  by (simp_all add: msg_copy_def)

lemma load_store_byte: "load_byte (store_byte (a, b) k) p = (if p = a then b else load_byte k p)"
  by (auto simp: load_byte_def store_byte_def addr_space_def Let_def)

lemma load_store_fold: "p \<notin> fst ` set abl \<Longrightarrow> load_byte (fold store_byte abl k) p = load_byte k p"
  by (induction abl arbitrary: k) (auto simp: load_store_byte)

lemma load_store_fold_nth:
  assumes "distinct (map fst abl)" "i < length abl"
  shows "load_byte (fold store_byte abl k) (fst (abl ! i)) = snd (abl ! i)"
  using assms
proof (induction abl arbitrary: k i)
  case (Cons ab abl)
  show ?case
  proof (cases i)
    case 0
    then show ?thesis
      using Cons.prems(1) by (cases ab) (simp add: load_store_fold load_store_byte)
  next
    case (Suc j)
    then show ?thesis using Cons by simp
  qed
qed simp

lemma block_addresses_distinct: "n \<le> 2 ^ 64 \<Longrightarrow> distinct (map (\<lambda>i. (a :: u64) + word_of_nat i) [0..<n])"
  by (auto simp: distinct_map inj_on_def word_of_nat_eq_iff take_bit_nat_eq_self)

lemma length_load_bytes [simp]: "length (load_bytes k a n) = n"
  by (simp add: load_bytes_def)

lemma load_store_bytes:
  assumes "length bs \<le> 2 ^ 64"
  shows "load_bytes (store_bytes a bs k) a (length bs) = bs"
proof (rule nth_equalityI)
  let ?l = "map (\<lambda>(i, b). (a + word_of_nat i, b)) (enumerate 0 bs)"
  have f: "map fst ?l = map (\<lambda>i. a + word_of_nat i) [0..<length bs]"
    by (rule nth_equalityI) (simp_all add: nth_enumerate_eq)
  fix i assume "i < length (load_bytes (store_bytes a bs k) a (length bs))"
  then have i: "i < length bs" by simp
  have "load_byte (fold store_byte ?l k) (fst (?l ! i)) = snd (?l ! i)"
    by (rule load_store_fold_nth) (use block_addresses_distinct [OF assms] i in \<open>simp_all only: f length_map length_enumerate\<close>)
  then show "load_bytes (store_bytes a bs k) a (length bs) ! i = bs ! i"
    using i by (simp add: load_bytes_def store_bytes_def nth_enumerate_eq)
qed simp

lemma load_msg_copy: "load_bytes (msg_copy dst src k) dst IPC_MSG_BYTES = load_bytes k src IPC_MSG_BYTES"
  using load_store_bytes [of "load_bytes k src IPC_MSG_BYTES" dst k] by (simp add: msg_copy_def)

lemma store_fold_space:
  "(c \<noteq> cr3 (sch k) \<longrightarrow> umem (fold store_byte abl k) (Some c) = umem k (Some c)) \<and>
   ((\<forall>ab \<in> set abl. fst ab < USER_TOP) \<longrightarrow> umem (fold store_byte abl k) None = umem k None)"
  by (induction abl arbitrary: k) (auto simp: store_byte_def Let_def addr_space_def)

lemma store_bytes_other: "c \<noteq> cr3 (sch k) \<Longrightarrow> umem (store_bytes a bs k) (Some c) = umem k (Some c)"
  by (simp add: store_bytes_def store_fold_space)

lemma store_bytes_kernel:
  assumes "unat a + length bs < 2 ^ 64" "unat a + length bs \<le> unat USER_TOP"
  shows "umem (store_bytes a bs k) None = umem k None"
proof -
  have "a + word_of_nat i < USER_TOP" if "i < length bs" for i
  proof -
    have "unat (word_of_nat i :: u64) = i" using that assms(1) by (simp add: unsigned_of_nat take_bit_nat_eq_self)
    then have "unat (a + word_of_nat i) = unat a + i"
      using that assms(1) by (subst unat_plus_if_size) (simp add: word_size)
    then show ?thesis using that assms(2) by (simp add: word_less_nat_alt)
  qed
  then show ?thesis
    by (auto simp: store_bytes_def in_set_enumerate_eq intro!: store_fold_space [THEN conjunct2, rule_format])
qed

lemma ep_complete_frame [simp]:
  "length (ep_pool (ep_complete e k)) = length (ep_pool k)" "ep_pool_used (ep_complete e k) = ep_pool_used k"
  "umem (ep_complete e k) = umem k" "ep_gen (ep_complete e k) d = ep_gen k d"
  by (simp_all add: ep_complete_def Let_def ep_gen_upd_ep)

lemma ep_park_frame [simp]:
  "length (ep_pool (ep_park e st m k)) = length (ep_pool k)" "ep_pool_used (ep_park e st m k) = ep_pool_used k"
  "umem (ep_park e st m k) = umem k" "ep_gen (ep_park e st m k) d = ep_gen k d"
  by (simp_all add: ep_park_def Let_def ep_gen_upd_ep split: option.splits)

lemma cap_lookup_Inr:
  "cap_lookup k tb i ty r = Inr slot \<longleftrightarrow>
     unat i < CAP_TABLE_SIZE \<and> slot = tb ! unat i \<and> ctype slot \<noteq> CAP_TYPE_NULL \<and> ctype slot = ty \<and>
     \<not> slot_stale k slot \<and> rights slot AND r = r"
  by (auto simp: cap_lookup_def Let_def)

text \<open>Sending and receiving change no generation, no pool allocation and no slot.\<close>

lemma cap_send_pool:
  assumes "cap_send k tb i m = (err, k')"
  shows "length (ep_pool k') = length (ep_pool k)" "ep_pool_used k' = ep_pool_used k" "ep_gen k' d = ep_gen k d"
  using assms by (auto simp: cap_send_def Let_def split: sum.splits ep_state.splits if_splits)

lemma cap_recv_pool:
  assumes "cap_recv k tb i m = (err, k')"
  shows "length (ep_pool k') = length (ep_pool k)" "ep_pool_used k' = ep_pool_used k" "ep_gen k' d = ep_gen k d"
  using assms by (auto simp: cap_recv_def Let_def split: sum.splits ep_state.splits if_splits)

section \<open>Well-formed capability systems\<close>

text \<open>A system is the table of every task together with the kernel's endpoint pool.\<close>

type_synonym cap_sys = "(nat \<Rightarrow> cap_tab) \<times> ipc_state"

definition slot_ok :: "ipc_state \<Rightarrow> cap_slot \<Rightarrow> bool" where
  "slot_ok k slot \<longleftrightarrow> ctype slot = CAP_TYPE_ENDPOINT \<longrightarrow>
     object slot < ENDPOINT_POOL_SIZE \<and> ep_pool_used k ! object slot \<noteq> 0 \<and> generation slot \<le> ep_gen k (object slot)"

definition cap_inv :: "cap_sys \<Rightarrow> bool" where
  "cap_inv S \<longleftrightarrow>
     length (ep_pool (snd S)) = ENDPOINT_POOL_SIZE \<and> length (ep_pool_used (snd S)) = ENDPOINT_POOL_SIZE \<and>
     (\<forall>t. length (fst S t) = CAP_TABLE_SIZE \<and> (\<forall>slot \<in> set (fst S t). slot_ok (snd S) slot))"

definition slot_right :: "ipc_state \<Rightarrow> nat \<Rightarrow> nat \<Rightarrow> cap_slot \<Rightarrow> bool" where
  "slot_right k e b slot \<longleftrightarrow>
     ctype slot = CAP_TYPE_ENDPOINT \<and> object slot = e \<and> \<not> slot_stale k slot \<and> bit (rights slot) b"

text \<open>Task \<open>t\<close> holds right \<open>b\<close> on endpoint \<open>e\<close> through some slot that is not stale.\<close>

definition holds :: "cap_sys \<Rightarrow> nat \<Rightarrow> nat \<Rightarrow> nat \<Rightarrow> bool" where
  "holds S t e b \<longleftrightarrow> (\<exists>slot \<in> set (fst S t). slot_right (snd S) e b slot)"

inductive cap_step :: "cap_sys \<Rightarrow> cap_sys \<Rightarrow> bool" where
  derive: "cap_derive k (T t) src dst r = (err, tb) \<Longrightarrow> cap_step (T, k) (T(t := tb), k)"
| free: "cap_free_slot (T t) i = (err, tb) \<Longrightarrow> cap_step (T, k) (T(t := tb), k)"
| create: "cap_endpoint_create k (T t) i r owner = (err, tb, k') \<Longrightarrow> cap_step (T, k) (T(t := tb), k')"
| revoke: "cap_revoke_endpoint k (T t) i = (err, k') \<Longrightarrow> cap_step (T, k) (T, k')"
| send: "cap_send k (T t) i m = (err, k') \<Longrightarrow> cap_step (T, k) (T, k')"
| recv: "cap_recv k (T t) i m = (err, k') \<Longrightarrow> cap_step (T, k) (T, k')"

inductive_cases cap_stepE: "cap_step S S'"

definition gens_below :: "ipc_state \<Rightarrow> nat \<Rightarrow> bool" where
  "gens_below k n \<longleftrightarrow> (\<forall>e < ENDPOINT_POOL_SIZE. unat (ep_gen k e) + n < 2 ^ 64)"

lemma subset_rights_bit:
  fixes c p :: u32
  assumes "c AND NOT p = 0" "bit c b"
  shows "bit p b"
proof -
  have "\<not> bit (c AND NOT p) b" unfolding assms(1) by simp
  then show ?thesis using assms(2) bit_imp_le_length[OF assms(2)] by (simp add: bit_and_iff bit_not_iff)
qed

lemma set_update_cases: "x \<in> set (xs[i := y]) \<Longrightarrow> x = y \<or> x \<in> set xs"
  using set_update_subset_insert by fastforce

lemma cap_derive_slots:
  assumes "cap_derive k tb src dst r = (err, tb')"
  shows "length tb' = length tb"
    and "slot \<in> set tb' \<Longrightarrow> length tb = CAP_TABLE_SIZE \<Longrightarrow> slot \<in> set tb \<or>
      (\<exists>p \<in> set tb. ctype slot = ctype p \<and> generation slot = generation p \<and> object slot = object p \<and>
        rights slot AND NOT (rights p) = 0)"
  using assms by (auto simp: cap_derive_def Let_def split: if_splits dest!: set_update_cases)

lemma gen_inc: "unat w + n < 2 ^ 64 \<Longrightarrow> 0 < n \<Longrightarrow> w < w + 1 \<and> unat (w + 1) = unat w + 1" for w :: u64
proof -
  assume a: "unat w + n < 2 ^ 64" "0 < n"
  then have "unat w + 1 < 2 ^ 64" by linarith
  then have "unat (w + 1) = unat w + 1" by (simp add: unat_word_ariths)
  then show ?thesis by (simp add: word_less_nat_alt)
qed

lemma cap_create_cases:
  assumes "cap_endpoint_create k tb i r owner = (err, tb', k')" "length (ep_pool_used k) = ENDPOINT_POOL_SIZE"
    "length (ep_pool k) = ENDPOINT_POOL_SIZE"
  obtains "tb' = tb" "k' = k"
  | e where "e < ENDPOINT_POOL_SIZE" "ep_pool_used k ! e = 0" "unat i < CAP_TABLE_SIZE" "err = CAP_OK"
      "k' = upd_ep e (endpoint_init owner) (k\<lparr>ep_pool_used := (ep_pool_used k)[e := 1]\<rparr>)"
      "tb' = tb[unat i := \<lparr>ctype = CAP_TYPE_ENDPOINT, rights = r, generation = 0, object = e\<rparr>]"
proof (cases "unat i \<ge> CAP_TABLE_SIZE \<or> ctype (tb ! unat i) \<noteq> CAP_TYPE_NULL")
  case True
  then show ?thesis using assms(1) that(1) by (auto simp: cap_endpoint_create_def split: if_splits)
next
  case False
  show ?thesis
  proof (cases "find (\<lambda>i. ep_pool_used k ! i = 0) [0..<ENDPOINT_POOL_SIZE]")
    case None
    then have "ep_pool_alloc k = (None, k)" unfolding ep_pool_alloc_def by simp
    then show ?thesis using False assms(1) that(1) by (simp add: cap_endpoint_create_def)
  next
    case (Some e)
    then have "ep_pool_alloc k = (Some e, k\<lparr>ep_pool_used := (ep_pool_used k)[e := 1]\<rparr>)"
      unfolding ep_pool_alloc_def by simp
    moreover have "e < ENDPOINT_POOL_SIZE" "ep_pool_used k ! e = 0"
      using Some unfolding find_upt_Some_iff by simp_all
    ultimately show ?thesis using False assms
      by (intro that(2)[of e]) (simp_all add: cap_endpoint_create_def Let_def ep_pool_upd_ep endpoint_init_def)
  qed
qed

lemma cap_inv_upd_table:
  assumes "cap_inv (T, k)" "length tb = CAP_TABLE_SIZE" "\<And>slot. slot \<in> set tb \<Longrightarrow> slot_ok k slot"
  shows "cap_inv (T(t := tb), k)"
  using assms by (auto simp: cap_inv_def)

lemma cap_inv_pool:
  assumes "cap_inv (T, k)" "length (ep_pool k') = length (ep_pool k)" "ep_pool_used k' = ep_pool_used k"
    "\<And>d. ep_gen k' d = ep_gen k d"
  shows "cap_inv (T, k')"
  using assms by (simp add: cap_inv_def slot_ok_def)

lemma slot_ok_in: "cap_inv (T, k) \<Longrightarrow> slot \<in> set (T t) \<Longrightarrow> slot_ok k slot"
  by (simp add: cap_inv_def)

lemma slot_ok_index: "cap_inv (T, k) \<Longrightarrow> i < CAP_TABLE_SIZE \<Longrightarrow> slot_ok k (T t ! i)"
  by (metis cap_inv_def fst_conv nth_mem snd_conv)

lemma ep_gen_revoke:
  assumes "e < length (ep_pool k)"
  shows "ep_gen (upd_ep e endpoint_revoke k) d = (if d = e then ep_gen k e + 1 else ep_gen k d)"
  using assms by (simp add: ep_pool_upd_ep endpoint_revoke_def)

lemma cap_revoke_cases:
  assumes "cap_revoke_endpoint k tb i = (err, k')"
  obtains "k' = k" | "unat i < CAP_TABLE_SIZE" "ctype (tb ! unat i) = CAP_TYPE_ENDPOINT"
    "k' = upd_ep (object (tb ! unat i)) endpoint_revoke k" "err = CAP_OK"
  using assms by (auto simp: cap_revoke_endpoint_def split: if_splits)

lemma slot_ok_revoke:
  assumes "slot_ok k slot" "e < ENDPOINT_POOL_SIZE" "length (ep_pool k) = ENDPOINT_POOL_SIZE"
    "ep_gen k e < ep_gen k e + 1"
  shows "slot_ok (upd_ep e endpoint_revoke k) slot"
  using assms by (auto simp: slot_ok_def ep_gen_revoke)

lemma cap_inv_derive:
  assumes "cap_inv (T, k)" "cap_derive k (T t) src dst r = (err, tb)"
  shows "cap_inv (T(t := tb), k)"
proof (rule cap_inv_upd_table[OF assms(1)])
  have len: "length (T t) = CAP_TABLE_SIZE" using assms(1) by (simp add: cap_inv_def)
  then show "length tb = CAP_TABLE_SIZE" using cap_derive_slots(1)[OF assms(2)] by simp
  show "slot_ok k slot" if "slot \<in> set tb" for slot
    using cap_derive_slots(2)[OF assms(2) that len] slot_ok_in[OF assms(1)] unfolding slot_ok_def by metis
qed

lemma cap_inv_free:
  assumes "cap_inv (T, k)" "cap_free_slot (T t) i = (err, tb)"
  shows "cap_inv (T(t := tb), k)"
proof (rule cap_inv_upd_table[OF assms(1)])
  show "length tb = CAP_TABLE_SIZE"
    using assms by (auto simp: cap_free_slot_def cap_inv_def split: if_splits)
  show "slot_ok k slot" if "slot \<in> set tb" for slot
  proof -
    have "slot = null_slot \<or> slot \<in> set (T t)"
      using assms(2) that by (auto simp: cap_free_slot_def split: if_splits dest: set_update_cases)
    then show ?thesis using slot_ok_in[OF assms(1)] by (auto simp: slot_ok_def null_slot_def)
  qed
qed

lemma cap_inv_create:
  assumes inv: "cap_inv (T, k)" and c: "cap_endpoint_create k (T t) i r owner = (err, tb, k')"
  shows "cap_inv (T(t := tb), k')"
proof -
  have l: "length (ep_pool_used k) = ENDPOINT_POOL_SIZE" "length (ep_pool k) = ENDPOINT_POOL_SIZE"
    using inv by (simp_all add: cap_inv_def)
  show ?thesis
  proof (rule cap_create_cases[OF c l])
    assume "tb = T t" "k' = k"
    then show ?thesis using inv by simp
  next
    fix e assume e: "e < ENDPOINT_POOL_SIZE" "ep_pool_used k ! e = 0"
      and k': "k' = upd_ep e (endpoint_init owner) (k\<lparr>ep_pool_used := (ep_pool_used k)[e := 1]\<rparr>)"
      and tb: "tb = (T t)[unat i := \<lparr>ctype = CAP_TYPE_ENDPOINT, rights = r, generation = 0, object = e\<rparr>]"
    have old: "slot_ok k' slot" if "slot_ok k slot" for slot
      using that e l by (auto simp: slot_ok_def k' ep_pool_upd_ep nth_list_update)
    have "slot_ok k' \<lparr>ctype = CAP_TYPE_ENDPOINT, rights = r, generation = 0, object = e\<rparr>"
      using e l by (simp add: slot_ok_def k' ep_pool_upd_ep)
    then have "slot_ok k' slot" if "slot \<in> set tb" for slot
      using that old slot_ok_in[OF inv] unfolding tb by (metis set_update_cases)
    then show ?thesis using inv old l by (auto simp: cap_inv_def tb k')
  qed
qed

lemma cap_inv_revoke:
  assumes inv: "cap_inv (T, k)" and r: "cap_revoke_endpoint k (T t) i = (err, k')"
    and g: "gens_below k n" "0 < n"
  shows "cap_inv (T, k')"
proof (rule cap_revoke_cases[OF r])
  assume a: "unat i < CAP_TABLE_SIZE" "ctype (T t ! unat i) = CAP_TYPE_ENDPOINT"
    "k' = upd_ep (object (T t ! unat i)) endpoint_revoke k"
  then have e: "object (T t ! unat i) < ENDPOINT_POOL_SIZE"
    using slot_ok_index[OF inv a(1)] by (simp add: slot_ok_def)
  then have "ep_gen k (object (T t ! unat i)) < ep_gen k (object (T t ! unat i)) + 1"
    using g gen_inc[of _ n] unfolding gens_below_def by metis
  then show ?thesis using inv e slot_ok_revoke by (auto simp: cap_inv_def a(3))
qed (use inv in simp)

section \<open>Authority never grows\<close>

definition ep_used :: "ipc_state \<Rightarrow> nat \<Rightarrow> bool" where
  "ep_used k e \<longleftrightarrow> e < ENDPOINT_POOL_SIZE \<and> ep_pool_used k ! e \<noteq> 0"

lemma gens_below_mono: "gens_below k n \<Longrightarrow> m \<le> n \<Longrightarrow> gens_below k m"
  unfolding gens_below_def by (meson add_le_mono le_refl le_less_trans)

lemma slot_right_pool:
  "(\<And>d. ep_gen k' d = ep_gen k d) \<Longrightarrow> slot_right k' e b slot = slot_right k e b slot"
  by (simp add: slot_right_def slot_stale_def)

lemma holds_derive:
  assumes "cap_inv (T, k)" "cap_derive k (T t) src dst r = (err, tb)" "holds (T(t := tb), k) u e b"
  shows "holds (T, k) u e b"
proof (cases "u = t")
  case True
  then obtain slot where s: "slot \<in> set tb" "slot_right k e b slot" using assms(3) by (auto simp: holds_def)
  have len: "length (T t) = CAP_TABLE_SIZE" using assms(1) by (simp add: cap_inv_def)
  show ?thesis
    using cap_derive_slots(2)[OF assms(2) s(1) len] s True subset_rights_bit
    unfolding holds_def slot_right_def slot_stale_def by fastforce
qed (use assms(3) in \<open>simp add: holds_def\<close>)

lemma holds_free:
  assumes "cap_free_slot (T t) i = (err, tb)" "holds (T(t := tb), k) u e b"
  shows "holds (T, k) u e b"
proof -
  have "slot = null_slot \<or> slot \<in> set (T t)" if "slot \<in> set tb" for slot
    using assms(1) that by (auto simp: cap_free_slot_def split: if_splits dest: set_update_cases)
  then show ?thesis using assms(2)
    by (cases "u = t") (force simp: holds_def slot_right_def null_slot_def)+
qed

lemma holds_create:
  assumes inv: "cap_inv (T, k)" and c: "cap_endpoint_create k (T t) i r owner = (err, tb, k')"
    and e: "ep_used k e" and h: "holds (T(t := tb), k') u e b"
  shows "holds (T, k) u e b"
proof -
  have l: "length (ep_pool_used k) = ENDPOINT_POOL_SIZE" "length (ep_pool k) = ENDPOINT_POOL_SIZE"
    using inv by (simp_all add: cap_inv_def)
  show ?thesis
  proof (rule cap_create_cases[OF c l])
    assume "tb = T t" "k' = k"
    then show ?thesis using h by simp
  next
    fix d assume d: "d < ENDPOINT_POOL_SIZE" "ep_pool_used k ! d = 0"
      and k': "k' = upd_ep d (endpoint_init owner) (k\<lparr>ep_pool_used := (ep_pool_used k)[d := 1]\<rparr>)"
      and tb: "tb = (T t)[unat i := \<lparr>ctype = CAP_TYPE_ENDPOINT, rights = r, generation = 0, object = d\<rparr>]"
    have "d \<noteq> e" using d e by (auto simp: ep_used_def)
    obtain slot where s: "slot \<in> set ((T(t := tb)) u)" "slot_right k' e b slot" using h by (auto simp: holds_def)
    have "slot_right k e b slot" using s(2) \<open>d \<noteq> e\<close> d l
      by (auto simp: slot_right_def slot_stale_def k' ep_pool_upd_ep split: if_splits)
    moreover have "slot \<in> set (T u)"
      using s \<open>d \<noteq> e\<close> unfolding tb by (cases "u = t") (auto simp: slot_right_def dest!: set_update_cases)
    ultimately show ?thesis by (auto simp: holds_def)
  qed
qed

lemma holds_revoke:
  assumes inv: "cap_inv (T, k)" and r: "cap_revoke_endpoint k (T t) i = (err, k')"
    and g: "gens_below k n" "0 < n" and h: "holds (T, k') u e b"
  shows "holds (T, k) u e b"
proof (rule cap_revoke_cases[OF r])
  define d where "d = object (T t ! unat i)"
  assume a: "unat i < CAP_TABLE_SIZE" "ctype (T t ! unat i) = CAP_TYPE_ENDPOINT"
    "k' = upd_ep (object (T t ! unat i)) endpoint_revoke k"
  then have d: "d < ENDPOINT_POOL_SIZE"
    using slot_ok_index[OF inv a(1)] by (simp add: slot_ok_def d_def)
  then have inc: "ep_gen k d < ep_gen k d + 1" using g gen_inc[of _ n] unfolding gens_below_def by metis
  obtain slot where s: "slot \<in> set (T u)" "slot_right k' e b slot" using h by (auto simp: holds_def)
  have gen: "ep_gen k' x = (if x = d then ep_gen k d + 1 else ep_gen k x)" for x
    using inv d unfolding a(3) d_def[symmetric] by (intro ep_gen_revoke) (simp add: cap_inv_def)
  have "e \<noteq> d"
  proof
    assume "e = d"
    then have "generation slot = ep_gen k d + 1" using s(2) gen[of d] by (auto simp: slot_right_def slot_stale_def)
    moreover have "generation slot \<le> ep_gen k d"
      using s(2) slot_ok_in[OF inv s(1)] \<open>e = d\<close> by (simp add: slot_right_def slot_ok_def)
    ultimately show False using inc by (simp add: not_less[symmetric])
  qed
  then have "slot_right k e b slot" using s(2) gen by (auto simp: slot_right_def slot_stale_def)
  then show ?thesis using s(1) by (auto simp: holds_def)
qed (use h in simp)

lemma holds_pool:
  "(\<And>d. ep_gen k' d = ep_gen k d) \<Longrightarrow> holds (T, k') u e b = holds (T, k) u e b"
  by (simp add: holds_def slot_right_pool[of k' k])

lemma cap_step_inv:
  assumes "cap_step S S'" "cap_inv S" "gens_below (snd S) (Suc n)"
  shows "cap_inv S'"
  using assms
proof cases
  case (send k T t i m err k')
  then show ?thesis using assms(2) cap_send_pool[OF send(3)] cap_inv_pool by simp
next
  case (recv k T t i m err k')
  then show ?thesis using assms(2) cap_recv_pool[OF recv(3)] cap_inv_pool by simp
qed (use assms(2,3) in \<open>auto intro: cap_inv_derive cap_inv_free cap_inv_create cap_inv_revoke\<close>)

lemma cap_step_gens:
  assumes "cap_step S S'" "cap_inv S" "gens_below (snd S) (Suc n)"
  shows "gens_below (snd S') n"
  using assms
proof cases
  case (create k T t i r owner err tb k')
  then have l: "length (ep_pool_used k) = ENDPOINT_POOL_SIZE" "length (ep_pool k) = ENDPOINT_POOL_SIZE"
    and g: "gens_below k n" using assms(2,3) gens_below_mono by (auto simp: cap_inv_def)
  then have "n < 2 ^ 64" unfolding gens_below_def by force
  show ?thesis
    by (rule cap_create_cases[OF create(3) l])
      (use g l \<open>n < 2 ^ 64\<close> create in \<open>auto simp: gens_below_def ep_pool_upd_ep endpoint_init_def\<close>)
next
  case (revoke k T t i err k')
  then have g: "gens_below k (Suc n)" and inv: "cap_inv (T, k)" using assms(2,3) by auto
  show ?thesis
  proof (rule cap_revoke_cases[OF revoke(3)])
    assume "k' = k"
    then show ?thesis using g revoke(2) gens_below_mono by simp
  next
    define d where "d = object (T t ! unat i)"
    assume a: "unat i < CAP_TABLE_SIZE" "ctype (T t ! unat i) = CAP_TYPE_ENDPOINT"
      "k' = upd_ep (object (T t ! unat i)) endpoint_revoke k"
    then have d: "d < ENDPOINT_POOL_SIZE"
      using slot_ok_index[OF inv a(1)] by (simp add: slot_ok_def d_def)
    have "unat (ep_gen k d + 1) = unat (ep_gen k d) + 1"
      using g d gen_inc[of "ep_gen k d" "Suc n"] by (auto simp: gens_below_def)
    moreover have "ep_gen k' x = (if x = d then ep_gen k d + 1 else ep_gen k x)" for x
      using inv d unfolding a(3) d_def[symmetric] by (intro ep_gen_revoke) (simp add: cap_inv_def)
    ultimately show ?thesis using g d revoke(2) by (auto simp: gens_below_def)
  qed
qed (use assms(3) in \<open>auto simp: gens_below_def cap_send_pool cap_recv_pool\<close>)

lemma cap_step_holds:
  assumes "cap_step S S'" "cap_inv S" "gens_below (snd S) (Suc n)" "ep_used (snd S) e"
  shows "(holds S' t e b \<longrightarrow> holds S t e b) \<and> ep_used (snd S') e"
  using assms
proof cases
  case (create k T u i r owner err tb k')
  then have inv: "cap_inv (T, k)" and used: "ep_used k e" using assms by auto
  then have l: "length (ep_pool_used k) = ENDPOINT_POOL_SIZE" "length (ep_pool k) = ENDPOINT_POOL_SIZE"
    by (simp_all add: cap_inv_def)
  have "ep_used k' e"
    by (rule cap_create_cases[OF create(3) l]) (use used l in \<open>auto simp: ep_used_def nth_list_update\<close>)
  then show ?thesis using holds_create[OF inv create(3) used] create by simp
next
  case (revoke k T u i err k')
  then have "ep_used k' e"
    using assms(4) by (auto elim!: cap_revoke_cases simp: ep_used_def)
  moreover have "cap_inv (T, k)" "gens_below k (Suc n)" using revoke assms(2,3) by simp_all
  ultimately show ?thesis using revoke(1,2) holds_revoke[of T k u i err k' "Suc n" t e b] revoke(3) by simp
next
  case (send k T u i m err k')
  then show ?thesis using assms(4) cap_send_pool[OF send(3)] by (simp add: ep_used_def holds_pool[of k' k])
next
  case (recv k T u i m err k')
  then show ?thesis using assms(4) cap_recv_pool[OF recv(3)] by (simp add: ep_used_def holds_pool[of k' k])
qed (use assms(2,4) holds_derive holds_free in \<open>auto\<close>)

section \<open>Rendezvous lemmas\<close>

lemma cr3_unblock [simp]: "cr3 (sched_unblock t s) = cr3 s"
  by (simp add: sched_unblock_def split: option.splits)

lemma cr3_ep_complete [simp]: "cr3 (sch (ep_complete e k)) = cr3 (sch k)"
  by (simp add: ep_complete_def Let_def)

lemma load_ep_complete [simp]: "load_bytes (ep_complete e k) a n = load_bytes k a n"
  by (simp add: load_bytes_def load_byte_def addr_space_def)

lemma ep_complete_state:
  "e < length (ep_pool k) \<Longrightarrow> epstate (ep_pool (ep_complete e k) ! e) = EP_STATE_IDLE \<and>
     pending_msg (ep_pool (ep_complete e k) ! e) = 0 \<and> parked_task_id (ep_pool (ep_complete e k) ! e) = 0"
  by (simp add: ep_complete_def Let_def ep_pool_upd_ep)

lemma ep_park_state:
  "e < length (ep_pool k) \<Longrightarrow>
     epstate (ep_pool (ep_park e st m k) ! e) = st \<and> pending_msg (ep_pool (ep_park e st m k) ! e) = m"
  by (simp add: ep_park_def Let_def ep_pool_upd_ep split: option.splits)

text \<open>A block of the kernel half is the same under all page tables.\<close>

definition kernel_block :: "u64 \<Rightarrow> nat \<Rightarrow> bool" where
  "kernel_block a n = (\<forall>i < n. USER_TOP \<le> a + word_of_nat i)"

lemma load_kernel_block: "kernel_block a n \<Longrightarrow> load_bytes k a n = map (\<lambda>i. umem k None (a + word_of_nat i)) [0..<n]"
  by (auto simp: kernel_block_def load_bytes_def load_byte_def addr_space_def leD)

lemma cap_lookup_pool: "(\<And>d. ep_gen k' d = ep_gen k d) \<Longrightarrow> cap_lookup k' tb i ty r = cap_lookup k tb i ty r"
  by (simp add: cap_lookup_def slot_stale_def Let_def)

lemma cap_send_idle:
  assumes "cap_lookup k tb i CAP_TYPE_ENDPOINT CAP_RIGHT_SEND = Inr s" "epstate (ep_pool k ! object s) = EP_STATE_IDLE"
  shows "cap_send k tb i m = (CAP_OK, ep_park (object s) EP_STATE_SEND_WAITING m k)"
  using assms by (simp add: cap_send_def Let_def)

lemma cap_recv_idle:
  assumes "cap_lookup k tb i CAP_TYPE_ENDPOINT CAP_RIGHT_RECV = Inr s" "epstate (ep_pool k ! object s) = EP_STATE_IDLE"
  shows "cap_recv k tb i m = (CAP_OK, ep_park (object s) EP_STATE_RECV_WAITING m k)"
  using assms by (simp add: cap_recv_def Let_def)

lemma cap_send_waiting:
  assumes "cap_lookup k tb i CAP_TYPE_ENDPOINT CAP_RIGHT_SEND = Inr s" "object s < length (ep_pool k)"
    "epstate (ep_pool k ! object s) = EP_STATE_RECV_WAITING" "pending_msg (ep_pool k ! object s) = p" "p \<noteq> 0"
    "cap_send k tb i m = (err, k')"
  shows "err = CAP_OK \<and> load_bytes k' p IPC_MSG_BYTES = load_bytes k m IPC_MSG_BYTES \<and> epstate (ep_pool k' ! object s) = EP_STATE_IDLE"
  using assms by (auto simp: cap_send_def Let_def load_msg_copy ep_complete_state)

lemma cap_recv_waiting:
  assumes "cap_lookup k tb i CAP_TYPE_ENDPOINT CAP_RIGHT_RECV = Inr s" "object s < length (ep_pool k)"
    "epstate (ep_pool k ! object s) = EP_STATE_SEND_WAITING" "pending_msg (ep_pool k ! object s) = p" "p \<noteq> 0"
    "cap_recv k tb i m = (err, k')"
  shows "err = CAP_OK \<and> load_bytes k' m IPC_MSG_BYTES = load_bytes k p IPC_MSG_BYTES \<and> epstate (ep_pool k' ! object s) = EP_STATE_IDLE"
  using assms by (auto simp: cap_recv_def Let_def load_msg_copy ep_complete_state)

lemma kernel_addr_nonzero: "USER_TOP \<le> a \<Longrightarrow> a \<noteq> 0"
  by auto

section \<open>Properties\<close>

lemma cap_steps:
  assumes "(cap_step ^^ n) S S'" "cap_inv S" "gens_below (snd S) (n + m)" "ep_used (snd S) e"
  shows "cap_inv S' \<and> gens_below (snd S') m \<and> ep_used (snd S') e \<and> (\<forall>t b. holds S' t e b \<longrightarrow> holds S t e b)"
  using assms
proof (induction n arbitrary: S' m)
  case 0
  then show ?case by auto
next
  case (Suc n)
  then obtain Q where Q: "(cap_step ^^ n) S Q" "cap_step Q S'" by auto
  have g: "gens_below (snd S) (n + Suc m)" using Suc.prems(3) by simp
  have IH: "cap_inv Q" "gens_below (snd Q) (Suc m)" "ep_used (snd Q) e" "\<And>t b. holds Q t e b \<longrightarrow> holds S t e b"
    using Suc.IH[OF Q(1) Suc.prems(2) g Suc.prems(4)] by auto
  then show ?case
    using cap_step_inv[OF Q(2) IH(1,2)] cap_step_gens[OF Q(2) IH(1,2)] cap_step_holds[OF Q(2) IH(1-3)] by blast
qed

text \<open>C1: No authority is gained: along any sequence of derivations, releases, endpoint creations,
  revocations, sends and receives (fewer than make a 64-bit generation counter wrap), a task that
  holds a right on an existing endpoint at the end already held it at the start, and the capability
  tables stay well formed.\<close>

theorem cap_authority_monotone:
  assumes "(cap_step ^^ n) S S'" "cap_inv S" "gens_below (snd S) n" "ep_used (snd S) e"
  shows "cap_inv S' \<and> (\<forall>t b. holds S' t e b \<longrightarrow> holds S t e b)"
  using cap_steps[of n S S' 0 e] assms by simp

text \<open>All slots of an endpoint are behind its generation counter.\<close>

definition all_stale :: "cap_sys \<Rightarrow> nat \<Rightarrow> bool" where
  "all_stale S e = (\<forall>t. \<forall>slot \<in> set (fst S t).
     ctype slot = CAP_TYPE_ENDPOINT \<longrightarrow> object slot = e \<longrightarrow> generation slot < ep_gen (snd S) e)"

lemma all_stale_table:
  assumes "all_stale (T, k) e"
    "\<And>slot. slot \<in> set tb \<Longrightarrow> ctype slot = CAP_TYPE_ENDPOINT \<Longrightarrow> object slot = e \<Longrightarrow>
       \<exists>p \<in> set (T t). ctype p = CAP_TYPE_ENDPOINT \<and> object p = e \<and> generation p = generation slot"
  shows "all_stale (T(t := tb), k) e"
  unfolding all_stale_def
proof (intro allI ballI impI)
  fix u slot assume sl: "slot \<in> set (fst (T(t := tb), k) u)" "ctype slot = CAP_TYPE_ENDPOINT" "object slot = e"
  have "\<exists>p v. p \<in> set (T v) \<and> ctype p = CAP_TYPE_ENDPOINT \<and> object p = e \<and> generation p = generation slot"
    using assms(2) [of slot] sl by (cases "u = t") auto
  then obtain p v where "p \<in> set (T v)" "ctype p = CAP_TYPE_ENDPOINT" "object p = e" "generation p = generation slot" by blast
  moreover have "generation p < ep_gen k e" if "p \<in> set (T v)" "ctype p = CAP_TYPE_ENDPOINT" "object p = e" for p v
    using assms(1) that by (simp add: all_stale_def)
  ultimately show "generation slot < ep_gen (snd (T(t := tb), k)) e" by fastforce
qed

lemma all_stale_gen:
  assumes "all_stale (T, k) e" "ep_gen k e \<le> ep_gen k' e"
  shows "all_stale (T, k') e"
  using assms unfolding all_stale_def by force

lemma all_stale_create:
  assumes inv: "cap_inv (T, k)" and c: "cap_endpoint_create k (T t) i r owner = (err, tb, k')"
    and e: "ep_used k e" and st: "all_stale (T, k) e"
  shows "all_stale (T(t := tb), k') e"
proof -
  have l: "length (ep_pool_used k) = ENDPOINT_POOL_SIZE" "length (ep_pool k) = ENDPOINT_POOL_SIZE"
    using inv by (simp_all add: cap_inv_def)
  show ?thesis
  proof (rule cap_create_cases [OF c l])
    assume "tb = T t" "k' = k"
    then show ?thesis using st by simp
  next
    fix d assume d: "ep_pool_used k ! d = 0" "d < ENDPOINT_POOL_SIZE"
      and k': "k' = upd_ep d (endpoint_init owner) (k\<lparr>ep_pool_used := (ep_pool_used k)[d := 1]\<rparr>)"
      and tb: "tb = (T t)[unat i := \<lparr>ctype = CAP_TYPE_ENDPOINT, rights = r, generation = 0, object = d\<rparr>]"
    have ne: "d \<noteq> e" using d e by (auto simp: ep_used_def)
    have "all_stale (T(t := tb), k) e"
      by (rule all_stale_table [OF st]) (use ne in \<open>auto simp: tb dest!: set_update_cases\<close>)
    moreover have "ep_gen k' e = ep_gen k e" using ne d l by (simp add: k' ep_pool_upd_ep)
    ultimately show ?thesis by (simp add: all_stale_gen)
  qed
qed

lemma all_stale_revoke:
  assumes inv: "cap_inv (T, k)" and r: "cap_revoke_endpoint k (T t) i = (err, k')"
    and g: "gens_below k n" "0 < n" and st: "all_stale (T, k) e"
  shows "all_stale (T, k') e"
proof (rule cap_revoke_cases [OF r])
  define d where "d = object (T t ! unat i)"
  assume a: "unat i < CAP_TABLE_SIZE" "ctype (T t ! unat i) = CAP_TYPE_ENDPOINT" "k' = upd_ep (object (T t ! unat i)) endpoint_revoke k"
  then have d: "d < ENDPOINT_POOL_SIZE" using slot_ok_index [OF inv a(1)] by (simp add: slot_ok_def d_def)
  then have "ep_gen k d < ep_gen k d + 1" using g gen_inc [of _ n] unfolding gens_below_def by metis
  moreover have "ep_gen k' e = (if e = d then ep_gen k d + 1 else ep_gen k e)"
    using inv d unfolding a(3) d_def [symmetric] by (intro ep_gen_revoke) (simp add: cap_inv_def)
  ultimately have "ep_gen k e \<le> ep_gen k' e" by (cases "e = d") (simp_all add: less_imp_le)
  then show ?thesis by (rule all_stale_gen [OF st])
qed (use st in simp)

lemma all_stale_step:
  assumes "cap_step S S'" "cap_inv S" "gens_below (snd S) (Suc n)" "ep_used (snd S) e" "all_stale S e"
  shows "all_stale S' e"
  using assms
proof cases
  case (derive k T t src dst r err tb)
  then have len: "length (T t) = CAP_TABLE_SIZE" using assms(2) by (simp add: cap_inv_def)
  have "all_stale (T(t := tb), k) e"
  proof (rule all_stale_table)
    show "all_stale (T, k) e" using assms(5) derive by simp
    fix slot assume sl: "slot \<in> set tb" "ctype slot = CAP_TYPE_ENDPOINT" "object slot = e"
    have "slot \<in> set (T t) \<or> (\<exists>p \<in> set (T t). ctype slot = ctype p \<and> generation slot = generation p \<and> object slot = object p)"
      using cap_derive_slots(2) [OF derive(3) sl(1) len] by blast
    then show "\<exists>p \<in> set (T t). ctype p = CAP_TYPE_ENDPOINT \<and> object p = e \<and> generation p = generation slot"
      using sl by metis
  qed
  then show ?thesis using derive by simp
next
  case (free T t i err tb k)
  have "slot = null_slot \<or> slot \<in> set (T t)" if "slot \<in> set tb" for slot
    using free(3) that by (auto simp: cap_free_slot_def split: if_splits dest: set_update_cases)
  moreover have "ctype null_slot \<noteq> CAP_TYPE_ENDPOINT" by (simp add: null_slot_def)
  ultimately have "slot \<in> set (T t)" if "slot \<in> set tb" "ctype slot = CAP_TYPE_ENDPOINT" for slot
    using that by metis
  moreover have "all_stale (T, k) e" using assms(5) free by simp
  ultimately have "all_stale (T(t := tb), k) e" by (intro all_stale_table) blast+
  then show ?thesis using free by simp
next
  case (send k T u i m err k')
  then show ?thesis using assms(5) cap_send_pool [OF send(3)] by (simp add: all_stale_gen)
next
  case (recv k T u i m err k')
  then show ?thesis using assms(5) cap_recv_pool [OF recv(3)] by (simp add: all_stale_gen)
qed (use assms in \<open>auto intro: all_stale_create all_stale_revoke\<close>)

lemma all_stale_steps:
  assumes "(cap_step ^^ n) S S'" "cap_inv S" "gens_below (snd S) (n + m)" "ep_used (snd S) e" "all_stale S e"
  shows "all_stale S' e"
  using assms
proof (induction n arbitrary: S' m)
  case (Suc n)
  then obtain Q where Q: "(cap_step ^^ n) S Q" "cap_step Q S'" by auto
  have g: "gens_below (snd S) (n + Suc m)" using Suc.prems(3) by simp
  have IH: "cap_inv Q" "gens_below (snd Q) (Suc m)" "ep_used (snd Q) e"
    using cap_steps [OF Q(1) Suc.prems(2) g Suc.prems(4)] by auto
  show ?case
    by (rule all_stale_step [OF Q(2) IH Suc.IH [OF Q(1) Suc.prems(2) g Suc.prems(4,5)]])
qed simp

lemma all_stale_revoked:
  assumes inv: "cap_inv (T, k)" and r: "cap_revoke_endpoint k (T t) i = (CAP_OK, k')" and g: "gens_below k (Suc n)"
  shows "all_stale (T, k') (object (T t ! unat i))" "ep_used k' (object (T t ! unat i))"
proof -
  define d where "d = object (T t ! unat i)"
  have a: "unat i < CAP_TABLE_SIZE" "ctype (T t ! unat i) = CAP_TYPE_ENDPOINT" "k' = upd_ep d endpoint_revoke k"
    using r by (auto simp: cap_revoke_endpoint_def d_def split: if_splits)
  have d: "ep_used k d" "length (ep_pool k) = ENDPOINT_POOL_SIZE"
    using slot_ok_index [OF inv a(1)] a(2) inv by (simp_all add: slot_ok_def d_def ep_used_def cap_inv_def)
  then show "ep_used k' (object (T t ! unat i))" by (simp add: a(3) ep_used_def d_def)
  have inc: "ep_gen k d < ep_gen k d + 1"
    using g d gen_inc [of "ep_gen k d" "Suc n"] by (auto simp: gens_below_def ep_used_def)
  have "generation slot < ep_gen k' d" if "slot \<in> set (T u)" "ctype slot = CAP_TYPE_ENDPOINT" "object slot = d" for slot u
    using slot_ok_in [OF inv that(1)] that(2,3) d inc by (auto simp: slot_ok_def a(3) ep_gen_revoke ep_used_def)
  then show "all_stale (T, k') (object (T t ! unat i))" by (simp add: all_stale_def d_def)
qed

text \<open>C2: Revocation is immediate, global and permanent for the capability operations: once an endpoint has been revoked, then after any
  sequence of derivations, releases, endpoint creations, revocations, sends and receives (fewer than make a 64-bit generation counter
  wrap) no lookup by any task, whatever rights it asks for, returns a slot of that endpoint.  Restoring a saved pool is not one of these operations.\<close>

theorem cap_revocation_permanent:
  assumes "cap_inv (T, k)" "cap_revoke_endpoint k (T t) i = (CAP_OK, k')" "gens_below k (Suc n)"
    "(cap_step ^^ n) (T, k') (T', k'')" "cap_lookup k'' (T' u) j CAP_TYPE_ENDPOINT r = Inr slot"
  shows "object slot \<noteq> object (T t ! unat i)"
proof
  assume same: "object slot = object (T t ! unat i)"
  have st: "cap_step (T, k) (T, k')" using assms(2) by (rule cap_step.revoke)
  have S: "cap_inv (T, k')" "gens_below k' n"
    using cap_step_inv [OF st assms(1)] cap_step_gens [OF st assms(1)] assms(3) by auto
  note dead = all_stale_revoked [OF assms(1-3)]
  have fin: "cap_inv (T', k'')" "all_stale (T', k'') (object slot)"
    using cap_steps [OF assms(4) S(1), of 0] all_stale_steps [OF assms(4) S(1), of 0] S(2) dead unfolding same by auto
  have sl: "slot = T' u ! unat j" "unat j < CAP_TABLE_SIZE" "ctype slot = CAP_TYPE_ENDPOINT" "\<not> slot_stale k'' slot"
    using assms(5) unfolding cap_lookup_Inr by auto
  then have "slot \<in> set (T' u)" using fin(1) by (simp add: cap_inv_def)
  then show False using fin(2) sl(3,4) by (auto simp: all_stale_def slot_stale_def)
qed

text \<open>The import of a saved pool brings the generation counters back: a lookup that succeeded when the pool was exported succeeds
  again, revoked or not.\<close>

theorem import_undoes_revocation:
  "cap_lookup (cap_import_pool (cap_export_pool k) k') tb j ty r = cap_lookup k tb j ty r"
  by (rule cap_lookup_pool) (simp add: cap_import_pool_def cap_export_pool_def)

text \<open>A created endpoint is a pool entry nobody used before, and the creator's slot is immediately
  valid for every subset of the rights it was created with.\<close>

theorem cap_create_then_lookup:
  assumes "cap_inv (T, k)" "cap_endpoint_create k (T t) i r owner = (CAP_OK, tb, k')"
  shows "\<not> ep_used k (object (tb ! unat i)) \<and> ep_used k' (object (tb ! unat i)) \<and>
    (\<forall>req. req AND NOT r = 0 \<longrightarrow>
       cap_lookup k' tb i CAP_TYPE_ENDPOINT req = Inr (tb ! unat i))"
proof -
  have l: "length (ep_pool_used k) = ENDPOINT_POOL_SIZE" "length (ep_pool k) = ENDPOINT_POOL_SIZE"
    "length (T t) = CAP_TABLE_SIZE" using assms(1) by (simp_all add: cap_inv_def)
  obtain e where e: "e < ENDPOINT_POOL_SIZE" "ep_pool_used k ! e = 0" "unat i < CAP_TABLE_SIZE"
      "k' = upd_ep e (endpoint_init owner) (k\<lparr>ep_pool_used := (ep_pool_used k)[e := 1]\<rparr>)"
      "tb = (T t)[unat i := \<lparr>ctype = CAP_TYPE_ENDPOINT, rights = r, generation = 0, object = e\<rparr>]"
    using assms(2) l
    by (auto simp: cap_endpoint_create_def ep_pool_alloc_def find_upt_Some_iff Let_def ep_pool_upd_ep
      endpoint_init_def split: if_splits option.splits)
  have sub: "r AND req = req" if "req AND NOT r = 0" for req
    using subset_rights_bit[OF that] by (auto intro!: bit_eqI simp: bit_and_iff)
  show ?thesis
    using e l sub by (auto simp: ep_used_def cap_lookup_Inr slot_stale_def ep_pool_upd_ep endpoint_init_def)
qed

text \<open>C30: Rendezvous in either order: a send on an idle endpoint and a receive on the same endpoint, with any scheduler activity in between,
  both succeed, leave the endpoint idle and copy the 48 bytes at the sender's address to the receiver's address, both addresses taken through
  the page tables in force at the second call.  For buffers in the kernel half, which all page tables share, these are the bytes that the sender
  had there at the first call; for a user buffer of the task that came first they are whatever lies at that address in the other task.\<close>

theorem ipc_rendezvous_delivers:
  assumes "cap_lookup k tb1 i CAP_TYPE_ENDPOINT CAP_RIGHT_SEND = Inr s1"
    "cap_lookup k tb2 j CAP_TYPE_ENDPOINT CAP_RIGHT_RECV = Inr s2" "object s1 = e" "object s2 = e"
    "e < length (ep_pool k)" "epstate (ep_pool k ! e) = EP_STATE_IDLE" "m \<noteq> 0" "out \<noteq> 0"
  shows "(let (err1, k1) = cap_send k tb1 i m; k1' = k1\<lparr>sch := sc\<rparr>; (err2, k2) = cap_recv k1' tb2 j out in
      err1 = CAP_OK \<and> err2 = CAP_OK \<and> epstate (ep_pool k2 ! e) = EP_STATE_IDLE \<and>
      load_bytes k2 out IPC_MSG_BYTES = load_bytes (k\<lparr>sch := sc\<rparr>) m IPC_MSG_BYTES \<and>
      (kernel_block m IPC_MSG_BYTES \<longrightarrow> load_bytes k2 out IPC_MSG_BYTES = load_bytes k m IPC_MSG_BYTES)) \<and>
    (let (err1, k1) = cap_recv k tb2 j out; k1' = k1\<lparr>sch := sc\<rparr>; (err2, k2) = cap_send k1' tb1 i m in
      err1 = CAP_OK \<and> err2 = CAP_OK \<and> epstate (ep_pool k2 ! e) = EP_STATE_IDLE \<and>
      load_bytes k2 out IPC_MSG_BYTES = load_bytes (k\<lparr>sch := sc\<rparr>) m IPC_MSG_BYTES \<and>
      (kernel_block m IPC_MSG_BYTES \<longrightarrow> load_bytes k2 out IPC_MSG_BYTES = load_bytes k m IPC_MSG_BYTES))"
proof -
  let ?k1 = "(ep_park e EP_STATE_SEND_WAITING m k)\<lparr>sch := sc\<rparr>" and ?k2 = "(ep_park e EP_STATE_RECV_WAITING out k)\<lparr>sch := sc\<rparr>"
  note park = ep_park_state [OF assms(5)]
  have ld: "load_bytes ?k1 m n = load_bytes (k\<lparr>sch := sc\<rparr>) m n" "load_bytes ?k2 m n = load_bytes (k\<lparr>sch := sc\<rparr>) m n" for n
    by (simp_all add: load_bytes_def load_byte_def addr_space_def)
  have kb: "kernel_block m n \<Longrightarrow> load_bytes (k\<lparr>sch := sc\<rparr>) m n = load_bytes k m n" for n by (simp add: load_kernel_block)
  obtain err k2 where r: "cap_recv ?k1 tb2 j out = (err, k2)" by force
  have l2: "cap_lookup ?k1 tb2 j CAP_TYPE_ENDPOINT CAP_RIGHT_RECV = Inr s2"
    using assms(2) by (simp add: cap_lookup_pool [of ?k1 k])
  obtain err' k3 where r': "cap_send ?k2 tb1 i m = (err', k3)" by force
  have l1: "cap_lookup ?k2 tb1 i CAP_TYPE_ENDPOINT CAP_RIGHT_SEND = Inr s1"
    using assms(1) by (simp add: cap_lookup_pool [of ?k2 k])
  show ?thesis
    using cap_send_idle [OF assms(1)] cap_recv_waiting [OF l2, of m out err k2] r park assms ld kb
      cap_recv_idle [OF assms(2)] cap_send_waiting [OF l1, of out m err' k3] r' by simp
qed

text \<open>A user-space message is read through the wrong page tables: when the sender parked with a
  user address and the receiver runs under another CR3, what arrives is the content of that address
  in the receiver's own address space, not what the sender wrote.\<close>

theorem ipc_user_message_from_receiver_space:
  assumes "cap_lookup k tb1 i CAP_TYPE_ENDPOINT CAP_RIGHT_SEND = Inr s1"
    "cap_lookup k tb2 j CAP_TYPE_ENDPOINT CAP_RIGHT_RECV = Inr s2" "object s1 = object s2"
    "object s1 < length (ep_pool k)" "epstate (ep_pool k ! object s1) = EP_STATE_IDLE" "m \<noteq> 0"
    "\<forall>i < IPC_MSG_BYTES. m + word_of_nat i < USER_TOP"
    "cap_send k tb1 i m = (err1, k1)" "cap_recv (k1\<lparr>sch := sc\<rparr>) tb2 j out = (err2, k2)"
  shows "err1 = CAP_OK \<and> err2 = CAP_OK \<and>
    load_bytes k2 out IPC_MSG_BYTES = map (\<lambda>i. umem k (Some (cr3 sc)) (m + word_of_nat i)) [0..<IPC_MSG_BYTES]"
proof -
  let ?e = "object s1"
  have k1: "err1 = CAP_OK" "k1 = ep_park ?e EP_STATE_SEND_WAITING m k"
    using cap_send_idle [OF assms(1,5), of m] assms(8) by auto
  let ?k = "k1\<lparr>sch := sc\<rparr>"
  have l2: "cap_lookup ?k tb2 j CAP_TYPE_ENDPOINT CAP_RIGHT_RECV = Inr s2"
    using assms(2) cap_lookup_pool [of ?k k] by (simp add: k1(2))
  have "err2 = CAP_OK \<and> load_bytes k2 out IPC_MSG_BYTES = load_bytes ?k m IPC_MSG_BYTES"
    using cap_recv_waiting [OF l2, of m out err2 k2] ep_park_state [OF assms(4), of EP_STATE_SEND_WAITING m] assms
    by (simp add: k1(2))
  moreover have "load_bytes ?k m IPC_MSG_BYTES = map (\<lambda>i. umem k (Some (cr3 sc)) (m + word_of_nat i)) [0..<IPC_MSG_BYTES]"
    using assms(7) k1(2) by (simp add: load_bytes_def load_byte_def addr_space_def)
  ultimately show ?thesis using k1 by simp
qed

section \<open>Witnesses\<close>

definition wep :: endpoint where
  "wep = \<lparr>ep_generation = 0, epstate = EP_STATE_IDLE, pending_msg = 0, owner_task = 0, parked_task_id = 0\<rparr>"

definition wipc :: ipc_state where
  "wipc = \<lparr>ep_pool = replicate 16 wep, ep_pool_used = [1, 1] @ replicate 14 0, sch = wsched,
           umem = (\<lambda>sp a. case sp of None \<Rightarrow> 99 | Some c \<Rightarrow> ucast c)\<rparr>"

definition wslot :: "nat \<Rightarrow> cap_slot" where
  "wslot e = \<lparr>ctype = CAP_TYPE_ENDPOINT, rights = 15, generation = 0, object = e\<rparr>"

definition wtab :: cap_tab where
  "wtab = [wslot 0, wslot 1] @ replicate 62 null_slot"

lemma wtab_nth [simp]: "wtab ! 0 = wslot 0" "wtab ! Suc 0 = wslot 1" "wtab ! 2 = null_slot"
  by (simp_all add: wtab_def)

lemma wipc_pool [simp]: "e < 16 \<Longrightarrow> ep_pool wipc ! e = wep" "length (ep_pool wipc) = 16" "sch wipc = wsched"
  by (simp_all add: wipc_def)

lemma wcap_inv: "cap_inv (\<lambda>_. wtab, wipc)"
  by (auto simp: cap_inv_def wtab_def slot_ok_def wslot_def null_slot_def wipc_def wep_def)

lemma wgens: "gens_below wipc n \<longleftrightarrow> n < 2 ^ 64"
proof -
  have "\<exists>e::nat. e < 16" by (rule exI[of _ 0]) simp
  then show ?thesis unfolding gens_below_def by (auto simp: wep_def)
qed

lemma wlookup:
  "cap_lookup wipc wtab 0 CAP_TYPE_ENDPOINT 1 = Inr (wslot 0)" "cap_lookup wipc wtab 0 CAP_TYPE_ENDPOINT 2 = Inr (wslot 0)"
  by (simp_all add: cap_lookup_def slot_stale_def wslot_def wep_def)

theorem cap_authority_monotone_witness:
  "(cap_step ^^ 1) (\<lambda>_. wtab, wipc) (\<lambda>_. wtab, snd (cap_revoke_endpoint wipc wtab 0)) \<and>
   cap_inv (\<lambda>_. wtab, snd (cap_revoke_endpoint wipc wtab 0))"
proof -
  have "cap_step (\<lambda>_. wtab, wipc) (\<lambda>_. wtab, snd (cap_revoke_endpoint wipc wtab 0))"
    by (rule cap_step.revoke[of wipc "\<lambda>_. wtab" 0 0 "fst (cap_revoke_endpoint wipc wtab 0)"]) simp
  then have st: "(cap_step ^^ 1) (\<lambda>_. wtab, wipc) (\<lambda>_. wtab, snd (cap_revoke_endpoint wipc wtab 0))"
    by (simp only: relpowp_1)
  have "ep_used wipc 0" by (simp add: ep_used_def wipc_def)
  then show ?thesis using cap_authority_monotone[OF st wcap_inv] st wgens by simp
qed

theorem cap_revocation_permanent_witness: "object (wtab ! 1) \<noteq> object (wtab ! unat (0 :: u32))"
proof -
  have r: "cap_revoke_endpoint wipc wtab 0 = (CAP_OK, upd_ep 0 endpoint_revoke wipc)"
    by (simp add: cap_revoke_endpoint_def wslot_def)
  have l: "cap_lookup (upd_ep 0 endpoint_revoke wipc) wtab 1 CAP_TYPE_ENDPOINT 1 = Inr (wtab ! 1)"
    by (simp add: cap_lookup_def slot_stale_def wslot_def ep_pool_upd_ep wep_def)
  show ?thesis
    using cap_revocation_permanent [OF wcap_inv r, of 0 "\<lambda>_. wtab" _ 0 1 1 "wtab ! 1"] l by (simp add: wgens)
qed

theorem cap_create_then_lookup_witness:
  "\<exists>tb k'. cap_endpoint_create wipc wtab 2 3 0 = (CAP_OK, tb, k') \<and>
     cap_lookup k' tb 2 CAP_TYPE_ENDPOINT 1 = Inr (tb ! 2)"
proof -
  have f: "find (\<lambda>i. ep_pool_used wipc ! i = 0) [0..<16] = Some 2"
    unfolding find_upt_Some_iff by (auto simp: wipc_def less_Suc_eq numeral_2_eq_2)
  obtain tb k' where c: "cap_endpoint_create wipc wtab 2 3 0 = (CAP_OK, tb, k')"
    by (simp add: cap_endpoint_create_def ep_pool_alloc_def f null_slot_def Let_def)
  have "(1 :: u32) AND NOT 3 = 0" by simp
  then show ?thesis using cap_create_then_lookup[OF wcap_inv c] c by auto
qed

theorem ipc_rendezvous_delivers_witness:
  "let (err1, k1) = cap_send wipc wtab 0 USER_TOP; (err2, k2) = cap_recv (k1\<lparr>sch := wsched\<lparr>cr3 := 7\<rparr>\<rparr>) wtab 0 0x2000 in
     load_bytes k2 0x2000 48 = replicate 48 99"
proof -
  have kb: "kernel_block USER_TOP 48"
    unfolding kernel_block_def by (auto simp: word_le_nat_alt unat_word_ariths unsigned_of_nat take_bit_nat_eq_self)
  have "load_bytes wipc USER_TOP 48 = replicate 48 99" "load_bytes (wipc\<lparr>sch := sc\<rparr>) USER_TOP 48 = replicate 48 99" for sc
    by (simp_all add: load_kernel_block [OF kb] wipc_def map_replicate_const)
  then show ?thesis
    using ipc_rendezvous_delivers [OF wlookup refl refl, of USER_TOP "0x2000" "wsched\<lparr>cr3 := 7\<rparr>"] kb
    by (simp add: wslot_def wep_def Let_def split: prod.splits)
qed

theorem ipc_user_message_from_receiver_space_witness:
  "let (err1, k1) = cap_send wipc wtab 0 0x1000;
       (err2, k2) = cap_recv (k1\<lparr>sch := wsched\<lparr>cr3 := 7\<rparr>\<rparr>) wtab 0 0x2000 in
     load_bytes wipc 0x1000 48 = replicate 48 0 \<and> load_bytes k2 0x2000 48 = replicate 48 7"
proof -
  have u: "\<forall>i < 48. (0x1000 :: u64) + word_of_nat i < USER_TOP"
    by (auto simp: word_less_nat_alt unat_word_ariths unsigned_of_nat take_bit_nat_eq_self)
  have "load_bytes wipc 0x1000 48 = replicate 48 0"
    by (rule nth_equalityI) (use u in \<open>simp_all add: load_bytes_def load_byte_def addr_space_def wipc_def wsched_def\<close>)
  moreover have "map (\<lambda>i. umem wipc (Some 7) (0x1000 + word_of_nat i)) [0..<48] = replicate 48 7"
    by (simp add: wipc_def map_replicate_const)
  ultimately show ?thesis
    using ipc_user_message_from_receiver_space [OF wlookup, of "0x1000" _ _ "wsched\<lparr>cr3 := 7\<rparr>" "0x2000"] u
    by (auto simp: wslot_def wep_def Let_def split: prod.splits)
qed

end
