(* ===== verification/Aes.thy ===== *)
theory Aes
  imports Styx_Prelude
begin

unbundle bit_operations_syntax

text \<open>
  AES-256, \<^verbatim>\<open>src/kernel/aes.c\<close>: the tables, the key schedule, the round
  transformations on the 4 by 4 state (a list of four rows) and the two block
  operations.  The two block operations are shown to be inverse to each other for
  every key schedule; the interface \<open>block_cipher\<close> states what the sector and
  counter modes use of them.
\<close>

section \<open>Tables\<close>

definition sbox :: "u8 list" where
  "sbox =
    [0x63, 0x7c, 0x77, 0x7b, 0xf2, 0x6b, 0x6f, 0xc5, 0x30, 0x01, 0x67, 0x2b, 0xfe, 0xd7, 0xab, 0x76,
     0xca, 0x82, 0xc9, 0x7d, 0xfa, 0x59, 0x47, 0xf0, 0xad, 0xd4, 0xa2, 0xaf, 0x9c, 0xa4, 0x72, 0xc0,
     0xb7, 0xfd, 0x93, 0x26, 0x36, 0x3f, 0xf7, 0xcc, 0x34, 0xa5, 0xe5, 0xf1, 0x71, 0xd8, 0x31, 0x15,
     0x04, 0xc7, 0x23, 0xc3, 0x18, 0x96, 0x05, 0x9a, 0x07, 0x12, 0x80, 0xe2, 0xeb, 0x27, 0xb2, 0x75,
     0x09, 0x83, 0x2c, 0x1a, 0x1b, 0x6e, 0x5a, 0xa0, 0x52, 0x3b, 0xd6, 0xb3, 0x29, 0xe3, 0x2f, 0x84,
     0x53, 0xd1, 0x00, 0xed, 0x20, 0xfc, 0xb1, 0x5b, 0x6a, 0xcb, 0xbe, 0x39, 0x4a, 0x4c, 0x58, 0xcf,
     0xd0, 0xef, 0xaa, 0xfb, 0x43, 0x4d, 0x33, 0x85, 0x45, 0xf9, 0x02, 0x7f, 0x50, 0x3c, 0x9f, 0xa8,
     0x51, 0xa3, 0x40, 0x8f, 0x92, 0x9d, 0x38, 0xf5, 0xbc, 0xb6, 0xda, 0x21, 0x10, 0xff, 0xf3, 0xd2,
     0xcd, 0x0c, 0x13, 0xec, 0x5f, 0x97, 0x44, 0x17, 0xc4, 0xa7, 0x7e, 0x3d, 0x64, 0x5d, 0x19, 0x73,
     0x60, 0x81, 0x4f, 0xdc, 0x22, 0x2a, 0x90, 0x88, 0x46, 0xee, 0xb8, 0x14, 0xde, 0x5e, 0x0b, 0xdb,
     0xe0, 0x32, 0x3a, 0x0a, 0x49, 0x06, 0x24, 0x5c, 0xc2, 0xd3, 0xac, 0x62, 0x91, 0x95, 0xe4, 0x79,
     0xe7, 0xc8, 0x37, 0x6d, 0x8d, 0xd5, 0x4e, 0xa9, 0x6c, 0x56, 0xf4, 0xea, 0x65, 0x7a, 0xae, 0x08,
     0xba, 0x78, 0x25, 0x2e, 0x1c, 0xa6, 0xb4, 0xc6, 0xe8, 0xdd, 0x74, 0x1f, 0x4b, 0xbd, 0x8b, 0x8a,
     0x70, 0x3e, 0xb5, 0x66, 0x48, 0x03, 0xf6, 0x0e, 0x61, 0x35, 0x57, 0xb9, 0x86, 0xc1, 0x1d, 0x9e,
     0xe1, 0xf8, 0x98, 0x11, 0x69, 0xd9, 0x8e, 0x94, 0x9b, 0x1e, 0x87, 0xe9, 0xce, 0x55, 0x28, 0xdf,
     0x8c, 0xa1, 0x89, 0x0d, 0xbf, 0xe6, 0x42, 0x68, 0x41, 0x99, 0x2d, 0x0f, 0xb0, 0x54, 0xbb, 0x16]"

definition rsbox :: "u8 list" where
  "rsbox =
    [0x52, 0x09, 0x6a, 0xd5, 0x30, 0x36, 0xa5, 0x38, 0xbf, 0x40, 0xa3, 0x9e, 0x81, 0xf3, 0xd7, 0xfb,
     0x7c, 0xe3, 0x39, 0x82, 0x9b, 0x2f, 0xff, 0x87, 0x34, 0x8e, 0x43, 0x44, 0xc4, 0xde, 0xe9, 0xcb,
     0x54, 0x7b, 0x94, 0x32, 0xa6, 0xc2, 0x23, 0x3d, 0xee, 0x4c, 0x95, 0x0b, 0x42, 0xfa, 0xc3, 0x4e,
     0x08, 0x2e, 0xa1, 0x66, 0x28, 0xd9, 0x24, 0xb2, 0x76, 0x5b, 0xa2, 0x49, 0x6d, 0x8b, 0xd1, 0x25,
     0x72, 0xf8, 0xf6, 0x64, 0x86, 0x68, 0x98, 0x16, 0xd4, 0xa4, 0x5c, 0xcc, 0x5d, 0x65, 0xb6, 0x92,
     0x6c, 0x70, 0x48, 0x50, 0xfd, 0xed, 0xb9, 0xda, 0x5e, 0x15, 0x46, 0x57, 0xa7, 0x8d, 0x9d, 0x84,
     0x90, 0xd8, 0xab, 0x00, 0x8c, 0xbc, 0xd3, 0x0a, 0xf7, 0xe4, 0x58, 0x05, 0xb8, 0xb3, 0x45, 0x06,
     0xd0, 0x2c, 0x1e, 0x8f, 0xca, 0x3f, 0x0f, 0x02, 0xc1, 0xaf, 0xbd, 0x03, 0x01, 0x13, 0x8a, 0x6b,
     0x3a, 0x91, 0x11, 0x41, 0x4f, 0x67, 0xdc, 0xea, 0x97, 0xf2, 0xcf, 0xce, 0xf0, 0xb4, 0xe6, 0x73,
     0x96, 0xac, 0x74, 0x22, 0xe7, 0xad, 0x35, 0x85, 0xe2, 0xf9, 0x37, 0xe8, 0x1c, 0x75, 0xdf, 0x6e,
     0x47, 0xf1, 0x1a, 0x71, 0x1d, 0x29, 0xc5, 0x89, 0x6f, 0xb7, 0x62, 0x0e, 0xaa, 0x18, 0xbe, 0x1b,
     0xfc, 0x56, 0x3e, 0x4b, 0xc6, 0xd2, 0x79, 0x20, 0x9a, 0xdb, 0xc0, 0xfe, 0x78, 0xcd, 0x5a, 0xf4,
     0x1f, 0xdd, 0xa8, 0x33, 0x88, 0x07, 0xc7, 0x31, 0xb1, 0x12, 0x10, 0x59, 0x27, 0x80, 0xec, 0x5f,
     0x60, 0x51, 0x7f, 0xa9, 0x19, 0xb5, 0x4a, 0x0d, 0x2d, 0xe5, 0x7a, 0x9f, 0x93, 0xc9, 0x9c, 0xef,
     0xa0, 0xe0, 0x3b, 0x4d, 0xae, 0x2a, 0xf5, 0xb0, 0xc8, 0xeb, 0xbb, 0x3c, 0x83, 0x53, 0x99, 0x61,
     0x17, 0x2b, 0x04, 0x7e, 0xba, 0x77, 0xd6, 0x26, 0xe1, 0x69, 0x14, 0x63, 0x55, 0x21, 0x0c, 0x7d]"

definition rcon :: "u32 list" where
  "rcon =
    [0x01000000, 0x02000000, 0x04000000, 0x08000000, 0x10000000,
     0x20000000, 0x40000000, 0x80000000, 0x1B000000, 0x36000000]"

section \<open>Helper functions\<close>

definition sub_word :: "u32 \<Rightarrow> u32" where
  "sub_word w =
     push_bit 24 (ucast (sbox ! unat (drop_bit 24 w AND 0xFF))) OR
     push_bit 16 (ucast (sbox ! unat (drop_bit 16 w AND 0xFF))) OR
     push_bit 8 (ucast (sbox ! unat (drop_bit 8 w AND 0xFF))) OR
     ucast (sbox ! unat (w AND 0xFF))"

definition rot_word :: "u32 \<Rightarrow> u32" where
  "rot_word w = push_bit 8 w OR drop_bit 24 w"

fun galois_mul_loop :: "nat \<Rightarrow> u8 \<Rightarrow> u8 \<Rightarrow> u8 \<Rightarrow> u8" where
  "galois_mul_loop 0 a b p = p"
| "galois_mul_loop (Suc n) a b p =
     (let p' = (if b AND 1 \<noteq> 0 then p XOR a else p);
          carry = a AND 0x80;
          a1 = push_bit 1 a;
          a2 = (if carry \<noteq> 0 then a1 XOR 0x1B else a1)
      in galois_mul_loop n a2 (drop_bit 1 b) p')"

definition galois_mul :: "u8 \<Rightarrow> u8 \<Rightarrow> u8" where
  "galois_mul a b = galois_mul_loop 8 a b 0"

section \<open>Key schedule\<close>

definition key_word :: "u8 list \<Rightarrow> nat \<Rightarrow> u32" where
  "key_word key i =
     push_bit 24 (ucast (key ! (i * 4))) OR push_bit 16 (ucast (key ! (i * 4 + 1))) OR
     push_bit 8 (ucast (key ! (i * 4 + 2))) OR ucast (key ! (i * 4 + 3))"

definition expand_step :: "nat \<Rightarrow> u32 list \<Rightarrow> u32 list" where
  "expand_step i rk =
     (let temp = rk ! (i - 1);
          temp' = (if i mod 8 = 0 then sub_word (rot_word temp) XOR rcon ! (i div 8 - 1)
                   else if i mod 8 = 4 then sub_word temp else temp)
      in rk[i := rk ! (i - 8) XOR temp'])"

definition aes256_init_encrypt :: "u8 list \<Rightarrow> u32 list" where
  "aes256_init_encrypt key =
     fold expand_step [8..<60] (map (key_word key) [0..<8] @ replicate 52 0)"

definition aes256_init_decrypt :: "u8 list \<Rightarrow> u32 list" where
  "aes256_init_decrypt key = aes256_init_encrypt key"

section \<open>Round transformations\<close>

type_synonym aes_state = "u8 list list"

definition build_state :: "(nat \<Rightarrow> nat \<Rightarrow> u8) \<Rightarrow> aes_state" where
  "build_state g = map (\<lambda>r. map (g r) [0..<4]) [0..<4]"

definition round_key_byte :: "u32 list \<Rightarrow> nat \<Rightarrow> nat \<Rightarrow> nat \<Rightarrow> u8" where
  "round_key_byte rk rnd r c = ucast (drop_bit (24 - 8 * r) (rk ! (rnd * 4 + c)))"

definition add_round_key :: "u32 list \<Rightarrow> nat \<Rightarrow> aes_state \<Rightarrow> aes_state" where
  "add_round_key rk rnd st = build_state (\<lambda>r c. st ! r ! c XOR round_key_byte rk rnd r c)"

definition sub_bytes :: "aes_state \<Rightarrow> aes_state" where
  "sub_bytes st = build_state (\<lambda>r c. sbox ! unat (st ! r ! c))"

definition shift_rows :: "aes_state \<Rightarrow> aes_state" where
  "shift_rows st =
     [[st ! 0 ! 0, st ! 0 ! 1, st ! 0 ! 2, st ! 0 ! 3],
      [st ! 1 ! 1, st ! 1 ! 2, st ! 1 ! 3, st ! 1 ! 0],
      [st ! 2 ! 2, st ! 2 ! 3, st ! 2 ! 0, st ! 2 ! 1],
      [st ! 3 ! 3, st ! 3 ! 0, st ! 3 ! 1, st ! 3 ! 2]]"

definition mix_column :: "u8 \<Rightarrow> u8 \<Rightarrow> u8 \<Rightarrow> u8 \<Rightarrow> u8 list" where
  "mix_column s0 s1 s2 s3 =
     [galois_mul s0 2 XOR galois_mul s1 3 XOR s2 XOR s3,
      s0 XOR galois_mul s1 2 XOR galois_mul s2 3 XOR s3,
      s0 XOR s1 XOR galois_mul s2 2 XOR galois_mul s3 3,
      galois_mul s0 3 XOR s1 XOR s2 XOR galois_mul s3 2]"

definition mix_columns :: "aes_state \<Rightarrow> aes_state" where
  "mix_columns st =
     build_state (\<lambda>r c. mix_column (st ! 0 ! c) (st ! 1 ! c) (st ! 2 ! c) (st ! 3 ! c) ! r)"

definition inv_sub_bytes :: "aes_state \<Rightarrow> aes_state" where
  "inv_sub_bytes st = build_state (\<lambda>r c. rsbox ! unat (st ! r ! c))"

definition inv_shift_rows :: "aes_state \<Rightarrow> aes_state" where
  "inv_shift_rows st =
     [[st ! 0 ! 0, st ! 0 ! 1, st ! 0 ! 2, st ! 0 ! 3],
      [st ! 1 ! 3, st ! 1 ! 0, st ! 1 ! 1, st ! 1 ! 2],
      [st ! 2 ! 2, st ! 2 ! 3, st ! 2 ! 0, st ! 2 ! 1],
      [st ! 3 ! 1, st ! 3 ! 2, st ! 3 ! 3, st ! 3 ! 0]]"

definition inv_mix_column :: "u8 \<Rightarrow> u8 \<Rightarrow> u8 \<Rightarrow> u8 \<Rightarrow> u8 list" where
  "inv_mix_column s0 s1 s2 s3 =
     [galois_mul s0 0x0E XOR galois_mul s1 0x0B XOR galois_mul s2 0x0D XOR galois_mul s3 0x09,
      galois_mul s0 0x09 XOR galois_mul s1 0x0E XOR galois_mul s2 0x0B XOR galois_mul s3 0x0D,
      galois_mul s0 0x0D XOR galois_mul s1 0x09 XOR galois_mul s2 0x0E XOR galois_mul s3 0x0B,
      galois_mul s0 0x0B XOR galois_mul s1 0x0D XOR galois_mul s2 0x09 XOR galois_mul s3 0x0E]"

definition inv_mix_columns :: "aes_state \<Rightarrow> aes_state" where
  "inv_mix_columns st =
     build_state (\<lambda>r c. inv_mix_column (st ! 0 ! c) (st ! 1 ! c) (st ! 2 ! c) (st ! 3 ! c) ! r)"

section \<open>Block operations\<close>

definition load_state :: "u8 list \<Rightarrow> aes_state" where
  "load_state blk = build_state (\<lambda>r c. blk ! (r + c * 4))"

definition store_state :: "aes_state \<Rightarrow> u8 list" where
  "store_state st = map (\<lambda>i. st ! (i mod 4) ! (i div 4)) [0..<16]"

definition encrypt_round :: "u32 list \<Rightarrow> nat \<Rightarrow> aes_state \<Rightarrow> aes_state" where
  "encrypt_round rk rnd st = add_round_key rk rnd (mix_columns (shift_rows (sub_bytes st)))"

definition decrypt_round :: "u32 list \<Rightarrow> nat \<Rightarrow> aes_state \<Rightarrow> aes_state" where
  "decrypt_round rk rnd st = inv_mix_columns (add_round_key rk rnd (inv_sub_bytes (inv_shift_rows st)))"

definition aes256_encrypt_block :: "u32 list \<Rightarrow> u8 list \<Rightarrow> u8 list" where
  "aes256_encrypt_block rk blk =
     (let st0 = add_round_key rk 0 (load_state blk);
          st1 = fold (encrypt_round rk) [1..<14] st0
      in store_state (add_round_key rk 14 (shift_rows (sub_bytes st1))))"

definition aes256_decrypt_block :: "u32 list \<Rightarrow> u8 list \<Rightarrow> u8 list" where
  "aes256_decrypt_block rk blk =
     (let st0 = add_round_key rk 14 (load_state blk);
          st1 = fold (decrypt_round rk) (rev [1..<14]) st0
      in store_state (add_round_key rk 0 (inv_sub_bytes (inv_shift_rows st1))))"

section \<open>Algebra of the round transformations\<close>

lemmas xor_ac = xor.assoc xor.commute xor.left_commute

lemma xor_cancel [simp]: "x XOR (x XOR y) = y" for x y :: "'a::len word"
  by (simp add: xor.assoc[symmetric])

definition xtime :: "u8 \<Rightarrow> u8" where
  "xtime a = (if a AND 0x80 \<noteq> 0 then push_bit 1 a XOR 0x1B else push_bit 1 a)"

lemma xtime_bit: "xtime a = push_bit 1 a XOR (if bit a 7 then 0x1B else 0)"
  using test_bit_mask[of a 7] by (simp add: xtime_def)

lemma xtime_xor: "xtime (a XOR b) = xtime a XOR xtime b"
  unfolding xtime_bit push_bit_xor bit_xor_iff by (auto simp: xor_ac)

lemma galois_mul_step:
  "galois_mul_loop (Suc n) a b p =
     galois_mul_loop n (xtime a) (drop_bit 1 b) (if b AND 1 \<noteq> 0 then p XOR a else p)"
  by (simp add: xtime_def Let_def)

lemma galois_mul_loop_0 [simp]: "galois_mul_loop n a 0 p = p"
  by (induction n arbitrary: a) (simp_all add: Let_def)

lemma eight: "(8 :: nat) = Suc (Suc (Suc (Suc 4)))"
  by simp

lemma galois_mul_consts:
  "galois_mul a 2 = xtime a"
  "galois_mul a 3 = a XOR xtime a"
  "galois_mul a 0x09 = a XOR xtime (xtime (xtime a))"
  "galois_mul a 0x0B = a XOR xtime a XOR xtime (xtime (xtime a))"
  "galois_mul a 0x0D = a XOR xtime (xtime a) XOR xtime (xtime (xtime a))"
  "galois_mul a 0x0E = xtime a XOR xtime (xtime a) XOR xtime (xtime (xtime a))"
  unfolding galois_mul_def eight galois_mul_step by (simp_all add: xor_ac)

text \<open>The coefficient matrices of the two column transformations are inverse to each other.\<close>

lemmas xor_norm = xor.assoc xor.commute xor.left_commute xor_self_eq xor_cancel xor.left_neutral xor.right_neutral

lemma inv_mix_mix:
  "inv_mix_column (mix_column s0 s1 s2 s3 ! 0) (mix_column s0 s1 s2 s3 ! 1)
      (mix_column s0 s1 s2 s3 ! 2) (mix_column s0 s1 s2 s3 ! 3) = [s0, s1, s2, s3]"
proof -
  let ?m0 = "galois_mul s0 2 XOR galois_mul s1 3 XOR s2 XOR s3"
  let ?m1 = "s0 XOR galois_mul s1 2 XOR galois_mul s2 3 XOR s3"
  let ?m2 = "s0 XOR s1 XOR galois_mul s2 2 XOR galois_mul s3 3"
  let ?m3 = "galois_mul s0 3 XOR s1 XOR s2 XOR galois_mul s3 2"
  have "galois_mul ?m0 0x0E XOR galois_mul ?m1 0x0B XOR galois_mul ?m2 0x0D XOR galois_mul ?m3 0x09 = s0"
    by (simp only: galois_mul_consts xtime_xor xor_norm)
  moreover have "galois_mul ?m0 0x09 XOR galois_mul ?m1 0x0E XOR galois_mul ?m2 0x0B XOR galois_mul ?m3 0x0D = s1"
    by (simp only: galois_mul_consts xtime_xor xor_norm)
  moreover have "galois_mul ?m0 0x0D XOR galois_mul ?m1 0x09 XOR galois_mul ?m2 0x0E XOR galois_mul ?m3 0x0B = s2"
    by (simp only: galois_mul_consts xtime_xor xor_norm)
  moreover have "galois_mul ?m0 0x0B XOR galois_mul ?m1 0x0D XOR galois_mul ?m2 0x09 XOR galois_mul ?m3 0x0E = s3"
    by (simp only: galois_mul_consts xtime_xor xor_norm)
  ultimately show ?thesis by (simp add: inv_mix_column_def mix_column_def)
qed

lemma mix_inv_mix:
  "mix_column (inv_mix_column s0 s1 s2 s3 ! 0) (inv_mix_column s0 s1 s2 s3 ! 1)
      (inv_mix_column s0 s1 s2 s3 ! 2) (inv_mix_column s0 s1 s2 s3 ! 3) = [s0, s1, s2, s3]"
proof -
  let ?m0 = "galois_mul s0 0x0E XOR galois_mul s1 0x0B XOR galois_mul s2 0x0D XOR galois_mul s3 0x09"
  let ?m1 = "galois_mul s0 0x09 XOR galois_mul s1 0x0E XOR galois_mul s2 0x0B XOR galois_mul s3 0x0D"
  let ?m2 = "galois_mul s0 0x0D XOR galois_mul s1 0x09 XOR galois_mul s2 0x0E XOR galois_mul s3 0x0B"
  let ?m3 = "galois_mul s0 0x0B XOR galois_mul s1 0x0D XOR galois_mul s2 0x09 XOR galois_mul s3 0x0E"
  have "galois_mul ?m0 2 XOR galois_mul ?m1 3 XOR ?m2 XOR ?m3 = s0"
    by (simp only: galois_mul_consts xtime_xor xor_norm)
  moreover have "?m0 XOR galois_mul ?m1 2 XOR galois_mul ?m2 3 XOR ?m3 = s1"
    by (simp only: galois_mul_consts xtime_xor xor_norm)
  moreover have "?m0 XOR ?m1 XOR galois_mul ?m2 2 XOR galois_mul ?m3 3 = s2"
    by (simp only: galois_mul_consts xtime_xor xor_norm)
  moreover have "galois_mul ?m0 3 XOR ?m1 XOR ?m2 XOR galois_mul ?m3 2 = s3"
    by (simp only: galois_mul_consts xtime_xor xor_norm)
  ultimately show ?thesis by (simp add: inv_mix_column_def mix_column_def)
qed

text \<open>The two substitution tables are inverse permutations of the 256 byte values.\<close>

lemma sbox_tables:
  "map (\<lambda>b. rsbox ! unat b) sbox = map word_of_nat [0..<256]"
  "map (\<lambda>b. sbox ! unat b) rsbox = map word_of_nat [0..<256]"
  by code_simp+

lemma length_sbox: "length sbox = 256" "length rsbox = 256"
  by (simp_all add: sbox_def rsbox_def)

lemma unat_u8_lt: "unat b < 256" for b :: u8
  using unsigned_less[of b] by simp

lemma rsbox_sbox [simp]: "rsbox ! unat (sbox ! unat b) = b"
  using arg_cong[OF sbox_tables(1), of "\<lambda>l. l ! unat b"] unat_u8_lt[of b] by (simp add: length_sbox)

lemma sbox_rsbox [simp]: "sbox ! unat (rsbox ! unat b) = b"
  using arg_cong[OF sbox_tables(2), of "\<lambda>l. l ! unat b"] unat_u8_lt[of b] by (simp add: length_sbox)

section \<open>Well-formed states\<close>

definition state_ok :: "aes_state \<Rightarrow> bool" where
  "state_ok st \<longleftrightarrow> length st = 4 \<and> (\<forall>r<4. length (st ! r) = 4)"

lemma build_state_nth [simp]: "r < 4 \<Longrightarrow> c < 4 \<Longrightarrow> build_state g ! r ! c = g r c"
  by (simp add: build_state_def)

lemma build_state_ok [simp]: "state_ok (build_state g)"
  by (simp add: build_state_def state_ok_def)

lemma state_eqI:
  "state_ok s \<Longrightarrow> state_ok t \<Longrightarrow> (\<And>r c. r < 4 \<Longrightarrow> c < 4 \<Longrightarrow> s ! r ! c = t ! r ! c) \<Longrightarrow> s = t"
  by (auto simp: state_ok_def intro!: nth_equalityI)

lemma state_ok_shift [simp]: "state_ok (shift_rows st)" "state_ok (inv_shift_rows st)"
  by (auto simp: state_ok_def shift_rows_def inv_shift_rows_def less_Suc_eq numeral_eq_Suc)

lemma state_ok_ops [simp]:
  "state_ok (add_round_key rk n st)" "state_ok (sub_bytes st)" "state_ok (mix_columns st)"
  "state_ok (inv_sub_bytes st)" "state_ok (inv_mix_columns st)" "state_ok (load_state blk)"
  by (simp_all add: add_round_key_def sub_bytes_def mix_columns_def inv_sub_bytes_def inv_mix_columns_def
      load_state_def)

lemma add_round_key_self [simp]: "state_ok st \<Longrightarrow> add_round_key rk n (add_round_key rk n st) = st"
  by (rule state_eqI) (simp_all add: add_round_key_def xor.assoc)

lemma inv_sub_bytes_sub_bytes [simp]: "state_ok st \<Longrightarrow> inv_sub_bytes (sub_bytes st) = st"
  by (rule state_eqI) (simp_all add: inv_sub_bytes_def sub_bytes_def)

lemma sub_bytes_inv_sub_bytes [simp]: "state_ok st \<Longrightarrow> sub_bytes (inv_sub_bytes st) = st"
  by (rule state_eqI) (simp_all add: inv_sub_bytes_def sub_bytes_def)

lemma four_cases: "(\<forall>r<4. P r) \<longleftrightarrow> P 0 \<and> P 1 \<and> P 2 \<and> P (3::nat)"
  by (auto simp: numeral_eq_Suc less_Suc_eq)

lemma state_rows:
  assumes "state_ok st"
  shows "st = [[st ! 0 ! 0, st ! 0 ! 1, st ! 0 ! 2, st ! 0 ! 3], [st ! 1 ! 0, st ! 1 ! 1, st ! 1 ! 2, st ! 1 ! 3],
      [st ! 2 ! 0, st ! 2 ! 1, st ! 2 ! 2, st ! 2 ! 3], [st ! 3 ! 0, st ! 3 ! 1, st ! 3 ! 2, st ! 3 ! 3]]"
    (is "st = ?t")
proof (rule state_eqI[OF assms])
  show "state_ok ?t" by (simp add: state_ok_def four_cases)
  have "\<forall>r<4. \<forall>c<4. st ! r ! c = ?t ! r ! c" by (simp add: four_cases)
  then show "st ! r ! c = ?t ! r ! c" if "r < 4" "c < 4" for r c using that by blast
qed

lemma shift_inverse [simp]:
  "state_ok st \<Longrightarrow> inv_shift_rows (shift_rows st) = st" "state_ok st \<Longrightarrow> shift_rows (inv_shift_rows st) = st"
  by (simp_all add: shift_rows_def inv_shift_rows_def state_rows[symmetric, unfolded One_nat_def])

lemma nth_column: "r < 4 \<Longrightarrow> [st ! 0 ! c, st ! 1 ! c, st ! 2 ! c, st ! 3 ! c] ! r = st ! r ! c"
  using four_cases[of "\<lambda>r. [st ! 0 ! c, st ! 1 ! c, st ! 2 ! c, st ! 3 ! c] ! r = st ! r ! c"] by simp

lemmas column_simps = inv_mix_mix[unfolded One_nat_def] mix_inv_mix[unfolded One_nat_def] nth_column[unfolded One_nat_def]

lemma inv_mix_columns_mix_columns [simp]: "state_ok st \<Longrightarrow> inv_mix_columns (mix_columns st) = st"
  by (rule state_eqI) (simp_all add: inv_mix_columns_def mix_columns_def column_simps)

lemma mix_columns_inv_mix_columns [simp]: "state_ok st \<Longrightarrow> mix_columns (inv_mix_columns st) = st"
  by (rule state_eqI) (simp_all add: inv_mix_columns_def mix_columns_def column_simps)

section \<open>Block operations are inverse\<close>

lemma length_store_state [simp]: "length (store_state st) = 16"
  by (simp add: store_state_def)

lemma load_store [simp]: "state_ok st \<Longrightarrow> load_state (store_state st) = st"
  by (rule state_eqI) (simp_all add: load_state_def store_state_def)

lemma store_load [simp]: "length blk = 16 \<Longrightarrow> store_state (load_state blk) = blk"
  by (rule nth_equalityI) (auto simp: load_state_def store_state_def less_mult_imp_div_less)

lemma state_ok_round [simp]: "state_ok (encrypt_round rk n st)" "state_ok (decrypt_round rk n st)"
  by (simp_all add: encrypt_round_def decrypt_round_def)

lemma state_ok_rounds [simp]:
  "state_ok st \<Longrightarrow> state_ok (fold (encrypt_round rk) ns st)" "state_ok st \<Longrightarrow> state_ok (fold (decrypt_round rk) ns st)"
  by (induction ns arbitrary: st) simp_all

lemma round_shift:
  "state_ok st \<Longrightarrow> decrypt_round rk n (shift_rows (sub_bytes (encrypt_round rk n st))) = shift_rows (sub_bytes st)"
  "state_ok st \<Longrightarrow> encrypt_round rk n (inv_sub_bytes (inv_shift_rows (decrypt_round rk n st))) = inv_sub_bytes (inv_shift_rows st)"
  by (simp_all add: encrypt_round_def decrypt_round_def)

lemma decrypt_rounds:
  "state_ok st \<Longrightarrow>
    fold (decrypt_round rk) (rev ns) (shift_rows (sub_bytes (fold (encrypt_round rk) ns st))) = shift_rows (sub_bytes st)"
  by (induction ns rule: rev_induct) (simp_all add: round_shift)

lemma encrypt_rounds:
  "state_ok st \<Longrightarrow>
    fold (encrypt_round rk) ns (inv_sub_bytes (inv_shift_rows (fold (decrypt_round rk) (rev ns) st))) =
      inv_sub_bytes (inv_shift_rows st)"
  by (induction ns arbitrary: st) (simp_all add: round_shift)

lemma aes_decrypt_encrypt: "length blk = 16 \<Longrightarrow> aes256_decrypt_block rk (aes256_encrypt_block rk blk) = blk"
  by (simp add: aes256_decrypt_block_def aes256_encrypt_block_def Let_def decrypt_rounds)

lemma aes_encrypt_decrypt: "length blk = 16 \<Longrightarrow> aes256_encrypt_block rk (aes256_decrypt_block rk blk) = blk"
  by (simp add: aes256_decrypt_block_def aes256_encrypt_block_def Let_def encrypt_rounds)

lemma length_aes [simp]:
  "length (aes256_encrypt_block rk blk) = 16" "length (aes256_decrypt_block rk blk) = 16"
  by (simp_all add: aes256_decrypt_block_def aes256_encrypt_block_def Let_def)

section \<open>Interface of the block cipher\<close>

locale block_cipher =
  fixes enc :: "u8 list \<Rightarrow> u8 list" and dec :: "u8 list \<Rightarrow> u8 list"
  assumes length_enc: "length blk = 16 \<Longrightarrow> length (enc blk) = 16"
    and length_dec: "length blk = 16 \<Longrightarrow> length (dec blk) = 16"
    and dec_enc: "length blk = 16 \<Longrightarrow> dec (enc blk) = blk"
    and enc_dec: "length blk = 16 \<Longrightarrow> enc (dec blk) = blk"
begin

lemma enc_inject: "length a = 16 \<Longrightarrow> length b = 16 \<Longrightarrow> enc a = enc b \<longleftrightarrow> a = b"
  using dec_enc by metis

lemma enc_bij: "bij_betw enc {b. length b = 16} {b. length b = 16}"
  by (rule bij_betw_byWitness[where f' = dec]) (auto simp: dec_enc enc_dec length_enc length_dec)

end

interpretation aes: block_cipher "aes256_encrypt_block rk" "aes256_decrypt_block rk" for rk
  by unfold_locales (simp_all add: aes_decrypt_encrypt aes_encrypt_decrypt)

section \<open>Key schedule\<close>

lemma length_expand_steps [simp]: "length (fold expand_step ns rk) = length rk"
  by (induction ns arbitrary: rk) (simp_all add: expand_step_def Let_def)

lemma length_aes256_init_encrypt [simp]: "length (aes256_init_encrypt key) = 60"
  unfolding aes256_init_encrypt_def length_expand_steps by simp

section \<open>Properties\<close>

text \<open>C32: AES-256 decryption inverts encryption, and encryption inverts decryption, for every key and
  every 16-byte block: each is a permutation of the blocks.\<close>

theorem aes256_roundtrip:
  assumes "length blk = 16"
  shows "aes256_decrypt_block (aes256_init_decrypt key) (aes256_encrypt_block (aes256_init_encrypt key) blk) = blk \<and>
    aes256_encrypt_block (aes256_init_encrypt key) (aes256_decrypt_block (aes256_init_decrypt key) blk) = blk \<and>
    bij_betw (aes256_encrypt_block (aes256_init_encrypt key)) {b. length b = 16} {b. length b = 16}"
  using assms aes.dec_enc aes.enc_dec aes.enc_bij by (simp add: aes256_init_decrypt_def)

section \<open>Witnesses\<close>

theorem aes256_roundtrip_witness:
  "aes256_decrypt_block (aes256_init_decrypt (replicate 32 5)) (aes256_encrypt_block (aes256_init_encrypt (replicate 32 5)) (replicate 16 7))
    = replicate 16 7"
  using aes256_roundtrip[of "replicate 16 7" "replicate 32 5"] by simp

end
