(* ===== verification/Xts.thy ===== *)
theory Xts
  imports Aes
begin

unbundle bit_operations_syntax

text \<open>
  AES-256-XTS sector encryption, \<^verbatim>\<open>src/kernel/xts.c\<close>.  The tweak and the block
  buffers are the two 64-bit words the code uses; their little-endian memory
  image is what the block cipher works on.  The sector loop is written once, with the
  block operation as argument, because the two functions of the file differ only in it.
\<close>

section \<open>Definitions\<close>

type_synonym u64x2 = "u64 \<times> u64"

record aes256_xts_ctx =
  aes_key1 :: "u32 list"
  aes_key2 :: "u32 list"

definition block_words :: "u8 list \<Rightarrow> u64x2" where
  "block_words b = (le_word (take 8 b), le_word (drop 8 b))"

definition block_bytes :: "u64x2 \<Rightarrow> u8 list" where
  "block_bytes w = le_bytes 8 (fst w) @ le_bytes 8 (snd w)"

definition xor2 :: "u64x2 \<Rightarrow> u64x2 \<Rightarrow> u64x2" where
  "xor2 a b = (fst a XOR fst b, snd a XOR snd b)"

definition aes256_xts_init :: "u8 list \<Rightarrow> aes256_xts_ctx" where
  "aes256_xts_init key_512 =
     \<lparr>aes_key1 = aes256_init_encrypt key_512, aes_key2 = aes256_init_encrypt (drop 32 key_512)\<rparr>"

definition gf_mul_alpha :: "u64x2 \<Rightarrow> u64x2" where
  "gf_mul_alpha tweak =
     (let carry = drop_bit 63 (snd tweak);
          t1 = push_bit 1 (snd tweak) OR drop_bit 63 (fst tweak);
          t0 = push_bit 1 (fst tweak) XOR (if carry \<noteq> 0 then 0x87 else 0)
      in (t0, t1))"

fun xts_blocks :: "(u8 list \<Rightarrow> u8 list) \<Rightarrow> nat \<Rightarrow> u64x2 \<Rightarrow> u8 list \<Rightarrow> u8 list" where
  "xts_blocks cipher 0 tweak inp = []"
| "xts_blocks cipher (Suc n) tweak inp =
     (let block_in = xor2 (block_words (take 16 inp)) tweak;
          block_out = xor2 (block_words (cipher (block_bytes block_in))) tweak
      in block_bytes block_out @ xts_blocks cipher n (gf_mul_alpha tweak) (drop 16 inp))"

definition xts_tweak :: "aes256_xts_ctx \<Rightarrow> u32 \<Rightarrow> u64x2" where
  "xts_tweak ctx lba = block_words (aes256_encrypt_block (aes_key2 ctx) (block_bytes (ucast lba, 0)))"

definition aes256_xts_encrypt_sector :: "aes256_xts_ctx \<Rightarrow> u32 \<Rightarrow> u8 list \<Rightarrow> u8 list" where
  "aes256_xts_encrypt_sector ctx lba inp =
     xts_blocks (aes256_encrypt_block (aes_key1 ctx)) 32 (xts_tweak ctx lba) inp"

definition aes256_xts_decrypt_sector :: "aes256_xts_ctx \<Rightarrow> u32 \<Rightarrow> u8 list \<Rightarrow> u8 list" where
  "aes256_xts_decrypt_sector ctx lba inp =
     xts_blocks (aes256_decrypt_block (aes_key1 ctx)) 32 (xts_tweak ctx lba) inp"

section \<open>Lemmas\<close>

lemma length_block_bytes [simp]: "length (block_bytes w) = 16"
  by (simp add: block_bytes_def)

lemma block_words_bytes [simp]: "block_words (block_bytes w) = w"
  by (simp add: block_words_def block_bytes_def le_word_bytes)

lemma block_bytes_words [simp]: "length b = 16 \<Longrightarrow> block_bytes (block_words b) = b"
  by (simp add: block_words_def block_bytes_def le_bytes_word)

lemma xor2_cancel [simp]: "xor2 (xor2 a t) t = a"
  by (simp add: xor2_def xor.assoc)

lemma length_xts_blocks [simp]: "length (xts_blocks c n t inp) = 16 * n"
  by (induction c n t inp rule: xts_blocks.induct) (simp_all add: Let_def)

context block_cipher
begin

lemma xts_blocks_inverse:
  "length inp = 16 * n \<Longrightarrow> xts_blocks dec n t (xts_blocks enc n t inp) = inp"
proof (induction n arbitrary: t inp)
  case (Suc n)
  then have "xts_blocks dec n (gf_mul_alpha t) (xts_blocks enc n (gf_mul_alpha t) (drop 16 inp)) = drop 16 inp" by simp
  then show ?case using Suc.prems by (simp add: Let_def dec_enc length_enc)
qed simp

end

text \<open>The 128-bit value of a tweak, to state that the update is multiplication by the generator.\<close>

definition tweak_poly :: "u64x2 \<Rightarrow> 128 word" where
  "tweak_poly t = ucast (fst t) OR push_bit 64 (ucast (snd t))"

lemma bit_tweak_poly:
  "bit (tweak_poly t) k \<longleftrightarrow> (if k < 64 then bit (fst t) k else k < 128 \<and> bit (snd t) (k - 64))"
  using bit_imp_le_length[of "fst t" k] bit_imp_le_length[of "snd t" "k - 64"]
  by (auto simp: tweak_poly_def bit_or_iff bit_push_bit_iff bit_ucast_iff)

lemma drop63: "drop_bit 63 w = (if bit w 63 then 1 else 0)" for w :: u64
proof (rule bit_word_eqI)
  fix n assume "n < LENGTH(64)"
  show "bit (drop_bit 63 w) n = bit (if bit w 63 then 1 else 0 :: u64) n"
    using bit_imp_le_length[of w "63 + n"] by (cases "n = 0") (auto simp: bit_drop_bit_eq bit_1_iff)
qed

lemma bit_shl1: "bit (push_bit 1 w) k \<longleftrightarrow> 0 < k \<and> k < LENGTH('a) \<and> bit w (k - 1)" for w :: "'a::len word"
  unfolding bit_push_bit_iff by (auto simp: Suc_le_eq)

section \<open>Properties\<close>

text \<open>XTS decryption of a 512-byte sector with the same context and sector number gives back the
  plaintext, for every key and sector, and the ciphertext has the length of a sector.\<close>

theorem xts_sector_roundtrip:
  assumes "length data = 512"
  shows "aes256_xts_decrypt_sector ctx lba (aes256_xts_encrypt_sector ctx lba data) = data \<and>
    length (aes256_xts_encrypt_sector ctx lba data) = 512"
  using assms aes.xts_blocks_inverse[of data 32]
  by (simp add: aes256_xts_decrypt_sector_def aes256_xts_encrypt_sector_def del: xts_blocks.simps)

text \<open>The tweak update is multiplication by x in GF(2)[x] modulo x^128 + x^7 + x^2 + x + 1: the
  128-bit tweak is shifted left by one and 0x87 is added when the top bit falls out.\<close>

theorem gf_mul_alpha_is_mult_x:
  "tweak_poly (gf_mul_alpha t) = push_bit 1 (tweak_poly t) XOR (if bit (tweak_poly t) 127 then 0x87 else 0)"
proof (rule bit_word_eqI)
  have c: "bit (0x87 :: 64 word) j = bit (0x87 :: 128 word) j" for j
  proof -
    have e: "(0x87 :: 64 word) = ucast (0x87 :: 8 word)" "(0x87 :: 128 word) = ucast (0x87 :: 8 word)" by simp_all
    show ?thesis unfolding e bit_unsigned_iff using bit_imp_le_length[of "0x87 :: 8 word" j] by auto
  qed
  have hi: "\<not> bit (0x87 :: 128 word) j" if "64 \<le> j" for j
  proof
    assume "bit (0x87 :: 128 word) j"
    then have "bit (0x87 :: 64 word) j" by (simp only: c)
    then have "j < LENGTH(64)" by (rule bit_imp_le_length)
    then show False using that by simp
  qed
  fix k assume "k < LENGTH(128)"
  then have k: "k < 128" by simp
  have g: "fst (gf_mul_alpha t) = push_bit 1 (fst t) XOR (if bit (snd t) 63 then 0x87 else 0)"
    "snd (gf_mul_alpha t) = push_bit 1 (snd t) OR (if bit (fst t) 63 then 1 else 0)"
    by (simp_all add: gf_mul_alpha_def drop63 Let_def)
  have k64: "k = 64 \<or> k - 64 \<noteq> 0 \<and> k - 1 - 64 = k - 64 - 1 \<and> \<not> k - 1 < 64" if "\<not> k < 64" using that by auto
  have one: "bit (if b then 1 else 0 :: u64) j \<longleftrightarrow> b \<and> j = 0" for b j by (simp add: bit_1_iff)
  have red: "bit (if b then 0x87 else 0 :: 128 word) j \<longleftrightarrow> b \<and> bit (0x87 :: 128 word) j"
    "bit (if b then 0x87 else 0 :: 64 word) j \<longleftrightarrow> b \<and> bit (0x87 :: 128 word) j" for b j
    by (cases b; simp only: if_True if_False c simp_thms bit_0_eq bot_apply bot_bool_def)+
  show "bit (tweak_poly (gf_mul_alpha t)) k =
      bit (push_bit 1 (tweak_poly t) XOR (if bit (tweak_poly t) 127 then 0x87 else 0)) k"
    unfolding bit_xor_iff bit_shl1 red bit_tweak_poly g one bit_or_iff
    using k hi[of k] k64 by (cases "k < 64") auto
qed

section \<open>Witnesses\<close>

theorem xts_sector_roundtrip_witness:
  "aes256_xts_decrypt_sector (aes256_xts_init (replicate 64 1)) 7
     (aes256_xts_encrypt_sector (aes256_xts_init (replicate 64 1)) 7 (replicate 512 9)) = replicate 512 9"
  using xts_sector_roundtrip[of "replicate 512 9" "aes256_xts_init (replicate 64 1)" 7] by simp

end
