(* ===== verification/Chacha20.thy ===== *)
theory Chacha20
  imports Styx_Prelude
begin

unbundle bit_operations_syntax

text \<open>
  The ChaCha20 stream cipher, \<^verbatim>\<open>src/kernel/chacha20.c\<close>, and the generator of
  \<^verbatim>\<open>src/kernel/csprng.c\<close>.  The time stamp counter, the timer and CPUID are read from the
  hardware: their values are arguments of the generator's operations.
\<close>

section \<open>ChaCha20\<close>

definition ROTL32 :: "u32 \<Rightarrow> nat \<Rightarrow> u32" where
  "ROTL32 v n = push_bit n v OR drop_bit (32 - n) v"

definition QR :: "nat \<Rightarrow> nat \<Rightarrow> nat \<Rightarrow> nat \<Rightarrow> u32 list \<Rightarrow> u32 list" where
  "QR i j k l x =
     (let a = x ! i; b = x ! j; c = x ! k; d = x ! l;
          a = a + b; d = d XOR a; d = ROTL32 d 16;
          c = c + d; b = b XOR c; b = ROTL32 b 12;
          a = a + b; d = d XOR a; d = ROTL32 d 8;
          c = c + d; b = b XOR c; b = ROTL32 b 7
      in x[i := a, j := b, k := c, l := d])"

definition load32_le :: "u8 list \<Rightarrow> nat \<Rightarrow> u32" where
  "load32_le p i =
     ucast (p ! i) OR push_bit 8 (ucast (p ! (i + 1))) OR
     push_bit 16 (ucast (p ! (i + 2))) OR push_bit 24 (ucast (p ! (i + 3)))"

definition chacha20_double_round :: "u32 list \<Rightarrow> u32 list" where
  "chacha20_double_round x =
     QR 3 4 9 14 (QR 2 7 8 13 (QR 1 6 11 12 (QR 0 5 10 15
       (QR 3 7 11 15 (QR 2 6 10 14 (QR 1 5 9 13 (QR 0 4 8 12 x)))))))"

definition chacha20_block :: "u32 list \<Rightarrow> u8 list" where
  "chacha20_block inp =
     (let x = (chacha20_double_round ^^ 10) (map (\<lambda>i. inp ! i) [0..<16])
      in concat (map (\<lambda>i. le_bytes 4 (x ! i + inp ! i)) [0..<16]))"

definition chacha20_init :: "u8 list \<Rightarrow> u8 list \<Rightarrow> u32 \<Rightarrow> u32 list" where
  "chacha20_init key nonce counter =
     [0x61707865, 0x3320646e, 0x79622d32, 0x6b206574] @
     map (\<lambda>i. load32_le key (i * 4)) [0..<8] @
     [counter, load32_le nonce 0, load32_le nonce 4, load32_le nonce 8]"

function chacha20_xor :: "u32 list \<Rightarrow> u8 list \<Rightarrow> u8 list \<times> u32 list" where
  "chacha20_xor st buf =
     (if buf = [] then ([], st)
      else
        let keystream = chacha20_block st;
            st' = st[12 := st ! 12 + 1];
            (rest, st'') = chacha20_xor st' (drop 64 buf)
        in (xor_bytes (take 64 buf) keystream @ rest, st''))"
  by pat_completeness auto
termination by (relation "measure (\<lambda>(st, buf). length buf)") auto

declare chacha20_xor.simps [simp del]

definition chacha20_encrypt :: "u8 list \<Rightarrow> u8 list \<Rightarrow> u32 \<Rightarrow> u8 list \<Rightarrow> u8 list" where
  "chacha20_encrypt key nonce counter src = fst (chacha20_xor (chacha20_init key nonce counter) src)"

section \<open>The generator\<close>

record csprng_state =
  g_s :: "u64 list"
  g_call_counter :: u64
  g_initialized :: bool

definition rotl :: "u64 \<Rightarrow> nat \<Rightarrow> u64" where
  "rotl x k = push_bit k x OR drop_bit (64 - k) x"

definition xoshiro256ss_next :: "u64 list \<Rightarrow> u64 \<times> u64 list" where
  "xoshiro256ss_next s =
     (let result = rotl (s ! 1 * 5) 7 * 9;
          t = push_bit 17 (s ! 1);
          s2 = s ! 2 XOR s ! 0;
          s3 = s ! 3 XOR s ! 1;
          s1 = s ! 1 XOR s2;
          s0 = s ! 0 XOR s3;
          s2 = s2 XOR t;
          s3 = rotl s3 45
      in (result, [s0, s1, s2, s3]))"

fun csprng_discard :: "nat \<Rightarrow> u64 list \<Rightarrow> u64 list" where
  "csprng_discard 0 s = s"
| "csprng_discard (Suc n) s = csprng_discard n (snd (xoshiro256ss_next s))"

definition csprng_init :: "u64 \<Rightarrow> u64 \<Rightarrow> u64 \<Rightarrow> u64 \<Rightarrow> u64 \<Rightarrow> u64 \<Rightarrow> u64 \<Rightarrow> csprng_state" where
  "csprng_init tsc0 tsc1 pit1 jitter tsc2 tsc3 pit3 =
     \<lparr>g_s = csprng_discard 64 [tsc0, tsc1 XOR pit1, jitter XOR push_bit 7 tsc2, tsc3 XOR push_bit 13 pit3],
      g_call_counter = 0, g_initialized = True\<rparr>"

function csprng_fill :: "u64 list \<Rightarrow> nat \<Rightarrow> u8 list \<times> u64 list" where
  "csprng_fill s len =
     (if len = 0 then ([], s)
      else
        let (r, s') = xoshiro256ss_next s;
            chunk = (if len > 8 then 8 else len);
            (rest, s'') = csprng_fill s' (len - chunk)
        in (take chunk (le_bytes 8 r) @ rest, s''))"
  by pat_completeness auto
termination by (relation "measure (\<lambda>(s, len). len)") auto

declare csprng_fill.simps [simp del]

definition csprng_get_bytes :: "csprng_state \<Rightarrow> u64 \<Rightarrow> u64 \<Rightarrow> nat \<Rightarrow> csprng_state \<Rightarrow> u8 list \<times> csprng_state" where
  "csprng_get_bytes boot tsc pit len g =
     (if len = 0 then ([], g)
      else
        let g1 = (if g_initialized g then g else boot);
            c = g_call_counter g1 + 1;
            s1 = (g_s g1)[0 := g_s g1 ! 0 XOR (tsc + c)];
            s2 = s1[2 := s1 ! 2 XOR pit];
            (out, s3) = csprng_fill s2 len
        in (out, g1\<lparr>g_s := s3, g_call_counter := c\<rparr>))"

section \<open>Lemmas\<close>

lemma length_concat_le: "length (concat (map (\<lambda>i. le_bytes 4 (g i)) [0..<n])) = 4 * n"
  by (induction n) simp_all

lemma length_chacha20_block [simp]: "length (chacha20_block st) = 64"
  unfolding chacha20_block_def Let_def length_concat_le by simp

lemma chacha20_xor_chunk:
  "buf \<noteq> [] \<Longrightarrow> fst (chacha20_xor st buf) =
     xor_bytes (take 64 buf) (chacha20_block st) @ fst (chacha20_xor (st[12 := st ! 12 + 1]) (drop 64 buf))"
  by (subst chacha20_xor.simps) (simp add: Let_def split: prod.splits)

lemma chacha20_xor_Nil: "fst (chacha20_xor st []) = []"
  by (subst chacha20_xor.simps) simp

interpretation chacha: keystream_cipher 64 chacha20_block "\<lambda>st. st[12 := st ! 12 + 1]" "\<lambda>st buf. fst (chacha20_xor st buf)"
  by unfold_locales (simp_all add: chacha20_xor_chunk chacha20_xor_Nil)

lemma bit_rotl: "0 < k \<Longrightarrow> k < 64 \<Longrightarrow> n < 64 \<Longrightarrow>
    bit (rotl x k) n \<longleftrightarrow> bit x (if k \<le> n then n - k else n + 64 - k)"
  using bit_imp_le_length[of x "64 - k + n"]
  by (auto simp: rotl_def bit_or_iff bit_push_bit_iff bit_drop_bit_eq add.commute)

lemma rotl_inverse: "0 < k \<Longrightarrow> k < 64 \<Longrightarrow> rotl (rotl x k) (64 - k) = x"
  by (rule bit_word_eqI) (auto simp: bit_rotl)

text \<open>The state update of the generator can be run backwards.\<close>

definition unshift17 :: "u64 \<Rightarrow> u64" where
  "unshift17 y = y XOR push_bit 17 y XOR push_bit 34 y XOR push_bit 51 y"

lemma push_bit_68 [simp]: "push_bit 68 x = (0 :: u64)"
  by (rule bit_word_eqI) (simp add: bit_push_bit_iff)

lemma unshift17: "unshift17 (x XOR push_bit 17 x) = x"
proof -
  have "push_bit 17 x XOR (push_bit 17 x XOR z) = z" for z by (simp add: xor.assoc[symmetric])
  then show ?thesis
    unfolding unshift17_def push_bit_xor push_bit_push_bit by (simp add: ac_simps xor.assoc[symmetric])
qed

definition xoshiro_prev :: "u64 list \<Rightarrow> u64 list" where
  "xoshiro_prev s =
     (let s3 = rotl (s ! 3) 19;
          s0 = s ! 0 XOR s3;
          s1 = unshift17 (s ! 1 XOR s ! 2);
          s2 = s ! 1 XOR s1
      in [s0, s1, s2 XOR s0, s3 XOR s1])"

lemma xoshiro_prev_next:
  assumes "length s = 4"
  shows "xoshiro_prev (snd (xoshiro256ss_next s)) = s"
proof -
  obtain a b c d where s: "s = [a, b, c, d]"
    using assms by (auto simp: numeral_eq_Suc length_Suc_conv)
  have r: "rotl (rotl (d XOR b) 45) 19 = d XOR b" using rotl_inverse[of 45] by simp
  have u: "(b XOR (c XOR a)) XOR ((c XOR a) XOR push_bit 17 b) = b XOR push_bit 17 b"
    by (simp add: xor.assoc) (simp add: xor.left_commute)
  show ?thesis
    unfolding s xoshiro_prev_def xoshiro256ss_next_def Let_def
    by (simp add: r u unshift17) (simp add: xor.assoc xor.left_commute xor.commute)
qed

lemma length_xoshiro [simp]: "length (snd (xoshiro256ss_next s)) = 4"
  by (simp add: xoshiro256ss_next_def Let_def)

lemma csprng_fill_length: "length (fst (csprng_fill s len)) = len"
proof (induction s len rule: csprng_fill.induct)
  case (1 s len)
  show ?case
  proof (cases "len = 0")
    case False
    obtain r s' where x: "xoshiro256ss_next s = (r, s')" by force
    let ?c = "if len > 8 then 8 else len"
    obtain rest s'' where f: "csprng_fill s' (len - ?c) = (rest, s'')" by force
    have "length rest = len - ?c" using "1.IH"[OF False x[symmetric] refl refl] f by simp
    then show ?thesis using False x f by (subst csprng_fill.simps) (auto simp: Let_def)
  qed (subst csprng_fill.simps, simp)
qed

definition csprng_u32 :: "csprng_state \<Rightarrow> u64 \<Rightarrow> u64 \<Rightarrow> csprng_state \<Rightarrow> u32 \<times> csprng_state" where
  "csprng_u32 boot tsc pit g = (let (bs, g') = csprng_get_bytes boot tsc pit 4 g in (le_word bs, g'))"

definition csprng_u64 :: "csprng_state \<Rightarrow> u64 \<Rightarrow> u64 \<Rightarrow> csprng_state \<Rightarrow> u64 \<times> csprng_state" where
  "csprng_u64 boot tsc pit g = (let (bs, g') = csprng_get_bytes boot tsc pit 8 g in (le_word bs, g'))"

section \<open>Properties\<close>

text \<open>Encrypting twice with the same key, nonce and counter gives back the message, whatever its
  length, and the length is kept: ChaCha20 decryption is encryption.\<close>

theorem chacha20_involution:
  "chacha20_encrypt key nonce counter (chacha20_encrypt key nonce counter msg) = msg \<and>
   length (chacha20_encrypt key nonce counter msg) = length msg"
  unfolding chacha20_encrypt_def using chacha.f_involution chacha.length_f by blast

text \<open>The generator fills exactly the requested number of bytes, and its state update loses no
  entropy: two different 256-bit states never have the same successor.\<close>

theorem csprng_no_state_loss:
  assumes "length s = 4" "length t = 4" "s \<noteq> t"
  shows "snd (xoshiro256ss_next s) \<noteq> snd (xoshiro256ss_next t) \<and>
    length (fst (csprng_get_bytes boot tsc pit len g)) = len"
proof
  show "snd (xoshiro256ss_next s) \<noteq> snd (xoshiro256ss_next t)" using xoshiro_prev_next assms by metis
  show "length (fst (csprng_get_bytes boot tsc pit len g)) = len"
    using csprng_fill_length[of _ len] by (simp add: csprng_get_bytes_def Let_def split: prod.splits) (metis fst_conv)
qed

theorem csprng_no_state_loss_witness:
  "snd (xoshiro256ss_next [1, 2, 3, 4]) \<noteq> snd (xoshiro256ss_next [1, 2, 3, 5])"
  using csprng_no_state_loss[of "[1, 2, 3, 4]" "[1, 2, 3, 5]"] by simp

end
