(* ===== verification/Gcm.thy ===== *)
theory Gcm
  imports Aes
begin

unbundle bit_operations_syntax

text \<open>
  AES-256-GCM, \<^verbatim>\<open>src/kernel/gcm.c\<close>: GHASH over byte blocks, the counter-mode
  keystream and the two public operations.  \<^verbatim>\<open>size_t\<close> lengths are list lengths;
  the bit counts of the length block wrap at 64 bits as in the code.
\<close>

section \<open>GHASH\<close>

fun shift_right_block :: "u8 \<Rightarrow> u8 list \<Rightarrow> u8 list \<times> u8" where
  "shift_right_block carry [] = ([], carry)"
| "shift_right_block carry (b # bs) =
     (let next_carry = b AND 1;
          (rest, out) = shift_right_block next_carry bs
      in ((drop_bit 1 b OR push_bit 7 carry) # rest, out))"

definition ghash_mul_step :: "u8 list \<Rightarrow> nat \<Rightarrow> u8 list \<times> u8 list \<Rightarrow> u8 list \<times> u8 list" where
  "ghash_mul_step x i zv =
     (let z = (if x ! (i div 8) AND push_bit (7 - i mod 8) 1 \<noteq> 0 then xor_bytes (fst zv) (snd zv) else fst zv);
          (v, carry) = shift_right_block 0 (snd zv);
          v' = (if carry \<noteq> 0 then v[0 := v ! 0 XOR 0xE1] else v)
      in (z, v'))"

definition ghash_multiply :: "u8 list \<Rightarrow> u8 list \<Rightarrow> u8 list" where
  "ghash_multiply x y = fst (fold (ghash_mul_step x) [0..<128] (replicate 16 0, y))"

definition pad16 :: "u8 list \<Rightarrow> u8 list" where
  "pad16 b = b @ replicate (16 - length b) 0"

function ghash_absorb :: "u8 list \<Rightarrow> u8 list \<Rightarrow> u8 list \<Rightarrow> u8 list" where
  "ghash_absorb h x msg =
     (if msg = [] then x
      else ghash_absorb h (ghash_multiply (xor_bytes x (pad16 (take 16 msg))) h) (drop 16 msg))"
  by pat_completeness auto
termination by (relation "measure (\<lambda>(h, x, msg). length msg)") auto

declare ghash_absorb.simps [simp del]

definition ghash_len_block :: "nat \<Rightarrow> nat \<Rightarrow> u8 list" where
  "ghash_len_block aad_len ct_len =
     be_bytes 8 (word_of_nat aad_len * 8 :: u64) @ be_bytes 8 (word_of_nat ct_len * 8 :: u64)"

definition ghash :: "u8 list \<Rightarrow> u8 list \<Rightarrow> u8 list \<Rightarrow> u8 list" where
  "ghash h aad ct =
     (let x1 = ghash_absorb h (replicate 16 0) aad;
          x2 = ghash_absorb h x1 ct
      in ghash_multiply (xor_bytes x2 (ghash_len_block (length aad) (length ct))) h)"

section \<open>Counter mode\<close>

fun inc_counter_from :: "nat \<Rightarrow> u8 list \<Rightarrow> u8 list" where
  "inc_counter_from 0 y = y"
| "inc_counter_from (Suc k) y =
     (let i = 12 + k; y' = y[i := y ! i + 1] in
      if y' ! i \<noteq> 0 then y' else inc_counter_from k y')"

definition inc_counter :: "u8 list \<Rightarrow> u8 list" where
  "inc_counter y = inc_counter_from 4 y"

record aes_gcm_ctx =
  aes_ctx :: "u32 list"
  h :: "u8 list"

definition aes_gcm_init :: "u8 list \<Rightarrow> aes_gcm_ctx" where
  "aes_gcm_init key =
     (let rk = aes256_init_encrypt key
      in \<lparr>aes_ctx = rk, h = aes256_encrypt_block rk (replicate 16 0)\<rparr>)"

function gcm_ctr :: "u32 list \<Rightarrow> u8 list \<Rightarrow> u8 list \<Rightarrow> u8 list" where
  "gcm_ctr rk y msg =
     (if msg = [] then []
      else
        let y' = inc_counter y;
            keystream = aes256_encrypt_block rk y'
        in xor_bytes (take 16 msg) keystream @ gcm_ctr rk y' (drop 16 msg))"
  by pat_completeness auto
termination by (relation "measure (\<lambda>(rk, y, msg). length msg)") auto

declare gcm_ctr.simps [simp del]

definition gcm_j0 :: "u8 list \<Rightarrow> u8 list" where
  "gcm_j0 iv = take 12 iv @ [0, 0, 0, 1]"

definition aes_gcm_encrypt :: "aes_gcm_ctx \<Rightarrow> u8 list \<Rightarrow> u8 list \<Rightarrow> u8 list \<Rightarrow> u8 list \<times> u8 list" where
  "aes_gcm_encrypt ctx iv aad pt =
     (let y = gcm_j0 iv;
          tag_mask = aes256_encrypt_block (aes_ctx ctx) y;
          ct = gcm_ctr (aes_ctx ctx) y pt
      in (ct, xor_bytes (ghash (h ctx) aad ct) tag_mask))"

definition aes_gcm_decrypt :: "aes_gcm_ctx \<Rightarrow> u8 list \<Rightarrow> u8 list \<Rightarrow> u8 list \<Rightarrow> u8 list \<Rightarrow> int \<times> u8 list" where
  "aes_gcm_decrypt ctx iv aad ct tag =
     (let y = gcm_j0 iv;
          tag_mask = aes256_encrypt_block (aes_ctx ctx) y;
          pt = gcm_ctr (aes_ctx ctx) y ct;
          expected_tag = xor_bytes (ghash (h ctx) aad ct) tag_mask
      in (if expected_tag = take 16 tag then 0 else - 1, pt))"

section \<open>Lemmas\<close>

interpretation gcmctr: keystream_cipher 16 "\<lambda>y. aes256_encrypt_block rk (inc_counter y)" inc_counter "gcm_ctr rk" for rk
  by unfold_locales (simp_all add: gcm_ctr.simps Let_def)

lemma length_shift_right_block [simp]: "length (fst (shift_right_block c b)) = length b"
  by (induction c b rule: shift_right_block.induct) (auto simp: Let_def split: prod.splits)

lemma length_ghash_mul_step:
  assumes "length (fst zv) = 16" "length (snd zv) = 16"
  shows "length (fst (ghash_mul_step x i zv)) = 16 \<and> length (snd (ghash_mul_step x i zv)) = 16"
proof -
  obtain v c where v: "shift_right_block 0 (snd zv) = (v, c)" by force
  then have "length v = 16" using length_shift_right_block[of 0 "snd zv"] assms by simp
  then show ?thesis using assms by (simp add: ghash_mul_step_def Let_def v)
qed

lemma length_ghash_fold:
  "length (fst zv) = 16 \<Longrightarrow> length (snd zv) = 16 \<Longrightarrow> length (fst (fold (ghash_mul_step x) is zv)) = 16"
  by (induction "is" arbitrary: zv) (simp_all add: length_ghash_mul_step)

lemma length_ghash_multiply: "length y = 16 \<Longrightarrow> length (ghash_multiply x y) = 16"
  unfolding ghash_multiply_def by (rule length_ghash_fold) simp_all

lemma length_ghash: "length hk = 16 \<Longrightarrow> length (ghash hk aad ct) = 16"
  by (simp add: ghash_def Let_def length_ghash_multiply)

text \<open>The counter is the big-endian number in the last four bytes, incremented modulo 2^32.\<close>

definition counter_value :: "u8 list \<Rightarrow> u32" where
  "counter_value y = be_word (drop 12 y)"

lemma byte_or_shift: "ucast x OR push_bit 8 w = ucast x + w * 256" for x :: u8 and w :: u32
proof -
  have "ucast x AND push_bit 8 w = 0"
    by (rule bit_word_eqI) (auto simp: bit_and_iff bit_push_bit_iff bit_ucast_iff dest: bit_imp_le_length)
  then show ?thesis by (simp add: disjunctive_add_eq_or[symmetric] push_bit_eq_mult)
qed

lemma be_word4: "(be_word [a, b, c, d] :: u32) = ucast d + (ucast c + (ucast b + ucast a * 256) * 256) * 256"
  unfolding be_word_def rev.simps append.simps le_word.simps byte_or_shift by simp

lemma ucast_inc: "(ucast (d + 1) :: u32) = (if d + 1 = 0 then 0 else ucast d + 1)" for d :: u8
proof (cases "d + 1 = 0")
  case False
  then have "unat (d + 1) = unat d + 1" by (metis Suc_eq_plus1 add.commute unatSuc)
  then have "(word_of_nat (unat (d + 1)) :: u32) = word_of_nat (unat d) + 1" by simp
  then show ?thesis using False by simp
qed simp

lemma ucast_full: "d + 1 = 0 \<Longrightarrow> (ucast d :: u32) = 255" for d :: u8
proof -
  assume "d + 1 = 0"
  then have "d = - 1" by (simp add: eq_neg_iff_add_eq_0)
  moreover have "(- 1 :: u8) = 255" by simp
  ultimately have "d = 255" by (rule trans)
  then show ?thesis by simp
qed

lemma inc_counter_append:
  assumes "length p = 12"
  shows "inc_counter (p @ [a, b, c, d]) = p @
    (if d + 1 \<noteq> 0 then [a, b, c, d + 1]
     else if c + 1 \<noteq> 0 then [a, b, c + 1, 0]
     else if b + 1 \<noteq> 0 then [a, b + 1, 0, 0] else [a + 1, 0, 0, 0])"
proof -
  have four: "(4 :: nat) = Suc (Suc (Suc (Suc 0)))" by simp
  have upd: "(p @ [w, x, y, z])[12 := v] = p @ [v, x, y, z]" "(p @ [w, x, y, z])[13 := v] = p @ [w, v, y, z]"
    "(p @ [w, x, y, z])[14 := v] = p @ [w, x, v, z]" "(p @ [w, x, y, z])[15 := v] = p @ [w, x, y, v]"
    "(p @ [w, x, y, z]) ! 12 = w" "(p @ [w, x, y, z]) ! 13 = x" "(p @ [w, x, y, z]) ! 14 = y"
    "(p @ [w, x, y, z]) ! 15 = z" for v w x y z
    using assms by (simp_all add: list_update_append nth_append numeral_eq_Suc)
  have "(12 :: nat) + 0 = 12" "12 + Suc 0 = (13 :: nat)" "12 + Suc (Suc 0) = (14 :: nat)"
    "12 + Suc (Suc (Suc 0)) = (15 :: nat)" by simp_all
  then show ?thesis
    unfolding inc_counter_def four inc_counter_from.simps Let_def by (simp add: upd)
qed

lemma block_split:
  assumes "length y = 16"
  obtains p a b c d where "y = p @ [a, b, c, d]" "length p = 12"
proof -
  have "length (drop 12 y) = 4" using assms by simp
  then have "length (drop 12 y) = Suc (Suc (Suc (Suc 0)))" by linarith
  then obtain a b c d where "drop 12 y = [a, b, c, d]" unfolding length_Suc_conv by auto
  then have "y = take 12 y @ [a, b, c, d]" using append_take_drop_id[of 12 y] by simp
  then show thesis by (rule that) (use assms in simp)
qed

lemma inc_counter_value:
  assumes "length y = 16"
  shows "counter_value (inc_counter y) = counter_value y + 1 \<and> take 12 (inc_counter y) = take 12 y \<and>
    length (inc_counter y) = 16"
proof -
  obtain p a b c d where y: "y = p @ [a, b, c, d]" "length p = 12" using block_split[OF assms] .
  have cv: "counter_value (p @ [w, x, u, v]) = ucast v + (ucast u + (ucast x + ucast w * 256) * 256) * 256" for w x u v
    using y(2) by (simp add: counter_value_def be_word4)
  have "counter_value (inc_counter y) = counter_value y + 1"
  proof (cases "a + 1 = 0 \<and> b + 1 = 0 \<and> c + 1 = 0 \<and> d + 1 = 0")
    case True
    then have u: "(ucast a :: u32) = 255" "(ucast b :: u32) = 255" "(ucast c :: u32) = 255" "(ucast d :: u32) = 255"
      using ucast_full by blast+
    have "counter_value (p @ [a, b, c, d]) + 1 = 0" unfolding cv u by simp
    moreover have "inc_counter y = p @ [0, 0, 0, 0]"
      unfolding y(1) inc_counter_append[OF y(2)] using True by (simp only: simp_thms if_False)
    ultimately show ?thesis by (simp add: cv y(1))
  next
    case False
    then show ?thesis
      unfolding y(1) inc_counter_append[OF y(2)]
      using ucast_full[of d] ucast_full[of c] ucast_full[of b]
        ucast_inc[of d] ucast_inc[of c] ucast_inc[of b] ucast_inc[of a]
      by (simp add: cv algebra_simps split: if_splits)
  qed
  then show ?thesis using y by (simp add: inc_counter_append)
qed

section \<open>Properties\<close>

text \<open>C31: GCM decryption of an encrypted message with the same context, IV and associated data is
  accepted and returns the plaintext.\<close>

theorem gcm_roundtrip:
  "aes_gcm_encrypt (aes_gcm_init key) iv aad pt = (ct, tag) \<Longrightarrow>
     aes_gcm_decrypt (aes_gcm_init key) iv aad ct tag = (0, pt) \<and> length ct = length pt \<and> length tag = 16"
  by (auto simp: aes_gcm_encrypt_def aes_gcm_decrypt_def Let_def gcmctr.f_involution gcmctr.length_f
      aes_gcm_init_def length_ghash)

text \<open>A ciphertext is accepted only with the one 16-byte tag that encryption of the decrypted
  message would produce; every other tag is rejected.\<close>

theorem gcm_accepts_only_own_tag:
  assumes "length tag = 16"
  shows "fst (aes_gcm_decrypt ctx iv aad ct tag) = 0 \<longleftrightarrow>
    aes_gcm_encrypt ctx iv aad (snd (aes_gcm_decrypt ctx iv aad ct tag)) = (ct, tag)"
  using assms by (auto simp: aes_gcm_encrypt_def aes_gcm_decrypt_def Let_def gcmctr.f_involution)

text \<open>The counter block after k increments is the initial one plus k in its last 32 bits with the
  IV unchanged, so no keystream block repeats within 2^32 blocks of one message.\<close>

theorem gcm_counter_no_repeat:
  assumes "length y = 16" "i < 2 ^ 32" "j < 2 ^ 32" "i \<noteq> j"
  shows "counter_value ((inc_counter ^^ i) y) = counter_value y + word_of_nat i \<and>
    aes256_encrypt_block rk ((inc_counter ^^ i) y) \<noteq> aes256_encrypt_block rk ((inc_counter ^^ j) y)"
proof -
  have step: "counter_value ((inc_counter ^^ k) y) = counter_value y + word_of_nat k \<and>
      length ((inc_counter ^^ k) y) = 16" for k
    by (induction k) (simp_all add: assms(1) inc_counter_value)
  have "(word_of_nat i :: u32) \<noteq> word_of_nat j"
    using assms(2-4) by (simp add: word_of_nat_eq_iff take_bit_nat_eq_self)
  then have "(inc_counter ^^ i) y \<noteq> (inc_counter ^^ j) y" using step by (metis add_left_cancel)
  then show ?thesis using step aes.enc_inject by blast
qed

section \<open>Witnesses\<close>

theorem gcm_roundtrip_witness:
  "aes_gcm_decrypt (aes_gcm_init (replicate 32 0)) (replicate 12 0) [1]
     (fst (aes_gcm_encrypt (aes_gcm_init (replicate 32 0)) (replicate 12 0) [1] [104, 105]))
     (snd (aes_gcm_encrypt (aes_gcm_init (replicate 32 0)) (replicate 12 0) [1] [104, 105])) = (0, [104, 105])"
  using gcm_roundtrip[OF prod.collapse[symmetric], of "replicate 32 0" "replicate 12 0" "[1]" "[104, 105]"] by blast

theorem gcm_accepts_only_own_tag_witness:
  "fst (aes_gcm_decrypt (aes_gcm_init (replicate 32 0)) (replicate 12 0) [] [7] (replicate 16 3)) = 0 \<longleftrightarrow>
   aes_gcm_encrypt (aes_gcm_init (replicate 32 0)) (replicate 12 0) []
     (snd (aes_gcm_decrypt (aes_gcm_init (replicate 32 0)) (replicate 12 0) [] [7] (replicate 16 3))) = ([7], replicate 16 3)"
  using gcm_accepts_only_own_tag[of "replicate 16 3"] by simp

theorem gcm_counter_no_repeat_witness:
  "aes256_encrypt_block (replicate 60 0) ((inc_counter ^^ 1) (gcm_j0 (replicate 12 0))) \<noteq>
   aes256_encrypt_block (replicate 60 0) ((inc_counter ^^ 2) (gcm_j0 (replicate 12 0)))"
  using gcm_counter_no_repeat[of "gcm_j0 (replicate 12 0)" 1 2 "replicate 60 0"] by (simp add: gcm_j0_def)

end
