(* ===== verification/Sha512.thy ===== *)
theory Sha512
  imports Styx_Prelude
begin

unbundle bit_operations_syntax

text \<open>
  SHA-512, HMAC-SHA-512 and HKDF, \<^verbatim>\<open>src/kernel/crypto.c\<close>.  The context is the
  struct of \<^verbatim>\<open>crypto.h\<close>; \<^verbatim>\<open>sha512_update\<close> processes one byte at a time through
  the 128-byte buffer as the code does.  The incremental implementation is shown
  equal to hashing the padded message block by block.
\<close>

section \<open>Constants and macros\<close>

definition sha_k :: "u64 list" where
  "sha_k = concat
    [[0x428a2f98d728ae22, 0x7137449123ef65cd, 0xb5c0fbcfec4d3b2f, 0xe9b5dba58189dbbc],
     [0x3956c25bf348b538, 0x59f111f1b605d019, 0x923f82a4af194f9b, 0xab1c5ed5da6d8118],
     [0xd807aa98a3030242, 0x12835b0145706fbe, 0x243185be4ee4b28c, 0x550c7dc3d5ffb4e2],
     [0x72be5d74f27b896f, 0x80deb1fe3b1696b1, 0x9bdc06a725c71235, 0xc19bf174cf692694],
     [0xe49b69c19ef14ad2, 0xefbe4786384f25e3, 0x0fc19dc68b8cd5b5, 0x240ca1cc77ac9c65],
     [0x2de92c6f592b0275, 0x4a7484aa6ea6e483, 0x5cb0a9dcbd41fbd4, 0x76f988da831153b5],
     [0x983e5152ee66dfab, 0xa831c66d2db43210, 0xb00327c898fb213f, 0xbf597fc7beef0ee4],
     [0xc6e00bf33da88fc2, 0xd5a79147930aa725, 0x06ca6351e003826f, 0x142929670a0e6e70],
     [0x27b70a8546d22ffc, 0x2e1b21385c26c926, 0x4d2c6dfc5ac42aed, 0x53380d139d95b3df],
     [0x650a73548baf63de, 0x766a0abb3c77b2a8, 0x81c2c92e47edaee6, 0x92722c851482353b],
     [0xa2bfe8a14cf10364, 0xa81a664bbc423001, 0xc24b8b70d0f89791, 0xc76c51a30654be30],
     [0xd192e819d6ef5218, 0xd69906245565a910, 0xf40e35855771202a, 0x106aa07032bbd1b8],
     [0x19a4c116b8d2d0c8, 0x1e376c085141ab53, 0x2748774cdf8eeb99, 0x34b0bcb5e19b48a8],
     [0x391c0cb3c5c95a63, 0x4ed8aa4ae3418acb, 0x5b9cca4f7763e373, 0x682e6ff3d6b2b8a3],
     [0x748f82ee5defb2fc, 0x78a5636f43172f60, 0x84c87814a1f0ab72, 0x8cc702081a6439ec],
     [0x90befffa23631e28, 0xa4506cebde82bde9, 0xbef9a3f7b2c67915, 0xc67178f2e372532b],
     [0xca273eceea26619c, 0xd186b8c721c0c207, 0xeada7dd6cde0eb1e, 0xf57d4f7fee6ed178],
     [0x06f067aa72176fba, 0x0a637dc5a2c898a6, 0x113f9804bef90dae, 0x1b710b35131c471b],
     [0x28db77f523047d84, 0x32caab7b40c72493, 0x3c9ebe0a15c9bebc, 0x431d67c49c100d4c],
     [0x4cc5d4becb3e42b6, 0x597f299cfc657e2a, 0x5fcb6fab3ad6faec, 0x6c44198c4a475817]]"

definition ROTR :: "u64 \<Rightarrow> nat \<Rightarrow> u64" where
  "ROTR x n = drop_bit n x OR push_bit (64 - n) x"

definition Ch :: "u64 \<Rightarrow> u64 \<Rightarrow> u64 \<Rightarrow> u64" where
  "Ch x y z = (x AND y) XOR (NOT x AND z)"

definition Maj :: "u64 \<Rightarrow> u64 \<Rightarrow> u64 \<Rightarrow> u64" where
  "Maj x y z = (x AND y) XOR (x AND z) XOR (y AND z)"

definition Sigma0 :: "u64 \<Rightarrow> u64" where
  "Sigma0 x = ROTR x 28 XOR ROTR x 34 XOR ROTR x 39"

definition Sigma1 :: "u64 \<Rightarrow> u64" where
  "Sigma1 x = ROTR x 14 XOR ROTR x 18 XOR ROTR x 41"

definition sigma0 :: "u64 \<Rightarrow> u64" where
  "sigma0 x = ROTR x 1 XOR ROTR x 8 XOR drop_bit 7 x"

definition sigma1 :: "u64 \<Rightarrow> u64" where
  "sigma1 x = ROTR x 19 XOR ROTR x 61 XOR drop_bit 6 x"

section \<open>Compression\<close>

record sha512_ctx =
  sstate :: "u64 list"
  bitlen :: u64
  buffer :: "u8 list"

definition sha_schedule :: "u8 list \<Rightarrow> u64 list" where
  "sha_schedule data =
     fold (\<lambda>i m. m @ [sigma1 (m ! (i - 2)) + m ! (i - 7) + sigma0 (m ! (i - 15)) + m ! (i - 16)])
       [16..<80] (map (\<lambda>i. be_word (take 8 (drop (8 * i) data))) [0..<16])"

definition sha_round :: "u64 list \<Rightarrow> nat \<Rightarrow> u64 list \<Rightarrow> u64 list" where
  "sha_round m i v =
     (let a = v ! 0; b = v ! 1; c = v ! 2; d = v ! 3; e = v ! 4; f = v ! 5; g = v ! 6; h = v ! 7;
          t1 = h + Sigma1 e + Ch e f g + sha_k ! i + m ! i;
          t2 = Sigma0 a + Maj a b c
      in [t1 + t2, a, b, c, d + t1, e, f, g])"

definition sha_compress :: "u64 list \<Rightarrow> u8 list \<Rightarrow> u64 list" where
  "sha_compress st data = map2 (+) st (fold (sha_round (sha_schedule data)) [0..<80] st)"

definition sha512_transform :: "u8 list \<Rightarrow> sha512_ctx \<Rightarrow> sha512_ctx" where
  "sha512_transform data ctx = ctx\<lparr>sstate := sha_compress (sstate ctx) data\<rparr>"

section \<open>Incremental hashing\<close>

definition sha_iv :: "u64 list" where
  "sha_iv = [0x6a09e667f3bcc908, 0xbb67ae8584caa73b, 0x3c6ef372fe94f82b, 0xa54ff53a5f1d36f1,
             0x510e527fade682d1, 0x9b05688c2b3e6c1f, 0x1f83d9abfb41bd6b, 0x5be0cd19137e2179]"

definition sha512_init :: "u8 list \<Rightarrow> sha512_ctx" where
  "sha512_init stack = \<lparr>sstate = sha_iv, bitlen = 0, buffer = stack\<rparr>"

definition sha_active :: "sha512_ctx \<Rightarrow> nat" where
  "sha_active ctx = unat (drop_bit 3 (bitlen ctx) AND 127)"

fun sha512_update_loop :: "nat \<Rightarrow> u8 list \<Rightarrow> sha512_ctx \<Rightarrow> sha512_ctx" where
  "sha512_update_loop active [] ctx = ctx"
| "sha512_update_loop active (b # bs) ctx =
     (let ctx1 = ctx\<lparr>buffer := (buffer ctx)[active := b], bitlen := bitlen ctx + 8\<rparr> in
      if active + 1 = 128 then sha512_update_loop 0 bs (sha512_transform (buffer ctx1) ctx1)
      else sha512_update_loop (active + 1) bs ctx1)"

definition sha512_update :: "u8 list \<Rightarrow> sha512_ctx \<Rightarrow> sha512_ctx" where
  "sha512_update data ctx = sha512_update_loop (sha_active ctx) data ctx"

definition fill_zero :: "nat \<Rightarrow> nat \<Rightarrow> u8 list \<Rightarrow> u8 list" where
  "fill_zero i j buf = fold (\<lambda>n b. b[n := 0]) [i..<j] buf"

definition sha512_final :: "sha512_ctx \<Rightarrow> u8 list" where
  "sha512_final ctx =
     (let active = sha_active ctx;
          ctx1 = ctx\<lparr>buffer := (buffer ctx)[active := 0x80]\<rparr>;
          active1 = active + 1;
          (ctx2, active2) =
            (if active1 > 112
             then let buf = fill_zero active1 128 (buffer ctx1)
                  in (sha512_transform buf (ctx1\<lparr>buffer := buf\<rparr>), 0)
             else (ctx1, active1));
          buf3 = fill_zero active2 112 (buffer ctx2);
          buf4 = fill_zero 112 120 buf3;
          bs = be_bytes 8 (bitlen ctx2);
          buf5 = fold (\<lambda>i b. b[120 + i := bs ! i]) [0..<8] buf4;
          ctx5 = sha512_transform buf5 (ctx2\<lparr>buffer := buf5\<rparr>)
      in concat (map (\<lambda>i. be_bytes 8 (sstate ctx5 ! i)) [0..<8]))"

definition sha512 :: "u8 list \<Rightarrow> u8 list \<Rightarrow> u8 list" where
  "sha512 stack data = sha512_final (sha512_update data (sha512_init stack))"

section \<open>HMAC and HKDF\<close>

definition hmac_sha512 :: "u8 list \<Rightarrow> u8 list \<Rightarrow> u8 list \<Rightarrow> u8 list" where
  "hmac_sha512 stack key data =
     (let key1 = (if length key > 128 then sha512 stack key else key);
          k_pad = key1 @ replicate (128 - length key1) 0;
          k_ipad = map (\<lambda>b. b XOR 0x36) k_pad;
          k_opad = map (\<lambda>b. b XOR 0x5C) k_pad;
          inner = sha512_final (sha512_update data (sha512_update k_ipad (sha512_init stack)))
      in sha512_final (sha512_update inner (sha512_update k_opad (sha512_init stack))))"

definition hkdf_sha512_extract :: "u8 list \<Rightarrow> u8 list \<Rightarrow> u8 list \<Rightarrow> u8 list" where
  "hkdf_sha512_extract stack salt ikm =
     hmac_sha512 stack (if salt = [] then replicate 64 0 else salt) ikm"

fun hkdf_loop :: "u8 list \<Rightarrow> u8 list \<Rightarrow> u8 list \<Rightarrow> nat \<Rightarrow> nat \<Rightarrow> u8 list \<Rightarrow> nat \<Rightarrow> u8 list" where
  "hkdf_loop stack prk info 0 i t left = []"
| "hkdf_loop stack prk info (Suc n) i t left =
     (let temp = (if i > 1 then t else []) @ take 128 info @ [word_of_nat i];
          t' = hmac_sha512 stack prk temp;
          copy_bytes = (if 64 > left then left else 64)
      in take copy_bytes t' @ hkdf_loop stack prk info n (i + 1) t' (left - copy_bytes))"

definition hkdf_sha512_expand :: "u8 list \<Rightarrow> u8 list \<Rightarrow> u8 list \<Rightarrow> nat \<Rightarrow> u8 list" where
  "hkdf_sha512_expand stack prk info okm_len =
     hkdf_loop stack (take 64 prk) info ((okm_len + 63) div 64) 1 [] okm_len"

section \<open>Reference: padding and block iteration\<close>

function sha_absorb :: "u64 list \<Rightarrow> u8 list \<Rightarrow> u64 list" where
  "sha_absorb st m = (if length m < 128 then st else sha_absorb (sha_compress st (take 128 m)) (drop 128 m))"
  by pat_completeness auto
termination by (relation "measure (\<lambda>(st, m). length m)") auto

declare sha_absorb.simps [simp del]

definition sha_pad :: "u8 list \<Rightarrow> u8 list" where
  "sha_pad m =
     m @ [0x80] @ replicate ((239 - length m mod 128) mod 128) 0 @ be_bytes 16 (word_of_nat (8 * length m) :: 128 word)"

definition sha512_ref :: "u8 list \<Rightarrow> u8 list" where
  "sha512_ref m = concat (map (\<lambda>i. be_bytes 8 (sha_absorb sha_iv (sha_pad m) ! i)) [0..<8])"

section \<open>The buffer invariant\<close>

definition sha_repr :: "u8 list \<Rightarrow> sha512_ctx \<Rightarrow> bool" where
  "sha_repr m ctx \<longleftrightarrow>
     (\<exists>full rest. m = full @ rest \<and> length rest < 128 \<and> 128 dvd length full \<and>
        sstate ctx = sha_absorb sha_iv full \<and> take (length rest) (buffer ctx) = rest) \<and>
     length (buffer ctx) = 128 \<and> bitlen ctx = word_of_nat (8 * length m)"

lemma sha_absorb_append:
  "128 dvd length a \<Longrightarrow> sha_absorb st (a @ b) = sha_absorb (sha_absorb st a) b"
proof (induction st a rule: sha_absorb.induct)
  case (1 st a)
  show ?case
  proof (cases "length a < 128")
    case True
    then have "a = []" using "1.prems" by (auto dest: dvd_imp_le)
    then show ?thesis by (simp add: sha_absorb.simps[of st "[]"])
  next
    case False
    then have "128 dvd length (drop 128 a)" using "1.prems" by (simp add: dvd_diff_nat)
    then show ?thesis using "1.IH"[OF False] False
      by (subst sha_absorb.simps, subst (2) sha_absorb.simps) simp
  qed
qed

lemma sha_absorb_block: "length b = 128 \<Longrightarrow> sha_absorb st b = sha_compress st b"
  by (subst sha_absorb.simps, subst sha_absorb.simps) simp

lemma sha_active_word:
  assumes b: "bitlen ctx = word_of_nat n"
  shows "sha_active ctx = n div 8 mod 128"
proof -
  have m: "(127 :: u64) = mask 7" by (simp add: mask_eq_exp_minus_1)
  have "sha_active ctx = take_bit 7 (drop_bit 3 (take_bit 64 n))"
    unfolding sha_active_def b m take_bit_eq_mask[symmetric] unsigned_take_bit_eq unsigned_drop_bit_eq
    by (simp add: unsigned_of_nat take_bit_drop_bit min_def)
  also have "\<dots> = take_bit 7 (drop_bit 3 n)" by (simp add: take_bit_drop_bit min_def)
  also have "\<dots> = n div 8 mod 128" by (simp add: take_bit_eq_mod drop_bit_eq_div)
  finally show ?thesis .
qed

lemma sha_active_repr: "bitlen ctx = word_of_nat (8 * n) \<Longrightarrow> sha_active ctx = n mod 128"
  using sha_active_word[of ctx "8 * n"] by simp

lemma repr_active: "sha_repr (full @ rest) ctx \<Longrightarrow> 128 dvd length full \<Longrightarrow> length rest < 128 \<Longrightarrow> sha_active ctx = length rest"
proof -
  assume r: "sha_repr (full @ rest) ctx" and d: "128 dvd length full" "length rest < 128"
  have "sha_active ctx = length (full @ rest) mod 128" using r sha_active_repr by (simp add: sha_repr_def)
  then show ?thesis using d by (auto elim!: dvdE)
qed

lemma sha_repr_active: "sha_repr m ctx \<Longrightarrow> sha_active ctx = length m mod 128"
  by (simp add: sha_repr_def sha_active_repr)

lemma sha_repr_byte:
  fixes b :: u8
  assumes "sha_repr m ctx"
  defines "ctx1 \<equiv> ctx\<lparr>buffer := (buffer ctx)[length m mod 128 := b], bitlen := bitlen ctx + 8\<rparr>"
  shows "sha_repr (m @ [b]) (if length m mod 128 + 1 = 128 then sha512_transform (buffer ctx1) ctx1 else ctx1)"
proof -
  obtain full rest where m: "m = full @ rest" "length rest < 128" "128 dvd length full"
      "sstate ctx = sha_absorb sha_iv full" "take (length rest) (buffer ctx) = rest"
    and l: "length (buffer ctx) = 128" and bl: "bitlen ctx = word_of_nat (8 * length m)"
    using assms(1) unfolding sha_repr_def by blast
  have act: "length m mod 128 = length rest" using m by (auto elim!: dvdE)
  have tk: "take (Suc (length rest)) (buffer ctx1) = rest @ [b]"
    using m(2,5) l by (simp add: ctx1_def act take_Suc_conv_app_nth)
  have bl1: "bitlen ctx1 = word_of_nat (8 * length (m @ [b]))" by (simp add: ctx1_def bl algebra_simps)
  show ?thesis
  proof (cases "length m mod 128 + 1 = 128")
    case True
    then have "buffer ctx1 = rest @ [b]" using tk act l by (simp add: ctx1_def)
    then have "sha_absorb sha_iv (full @ rest @ [b]) = sha_compress (sstate ctx1) (buffer ctx1)"
      using True act m(3,4) by (simp add: sha_absorb_append sha_absorb_block ctx1_def)
    moreover have "128 dvd length (full @ rest @ [b])" using True act m(3) by simp
    ultimately have "\<exists>fl rs. m @ [b] = fl @ rs \<and> length rs < 128 \<and> 128 dvd length fl \<and>
        sstate (sha512_transform (buffer ctx1) ctx1) = sha_absorb sha_iv fl \<and>
        take (length rs) (buffer (sha512_transform (buffer ctx1) ctx1)) = rs"
      by (intro exI[of _ "full @ rest @ [b]"] exI[of _ "[]"]) (simp add: m(1) sha512_transform_def)
    then show ?thesis using True bl1 l by (simp add: sha_repr_def sha512_transform_def ctx1_def)
  next
    case False
    then have lt: "length (rest @ [b]) < 128" using act m(2) by simp
    have "\<exists>fl rs. m @ [b] = fl @ rs \<and> length rs < 128 \<and> 128 dvd length fl \<and>
        sstate ctx1 = sha_absorb sha_iv fl \<and> take (length rs) (buffer ctx1) = rs"
      using lt m tk by (intro exI[of _ full] exI[of _ "rest @ [b]"]) (simp add: ctx1_def)
    then show ?thesis using False bl1 l by (simp add: sha_repr_def ctx1_def)
  qed
qed

lemma sha_repr_loop:
  "sha_repr m ctx \<Longrightarrow> sha_repr (m @ bs) (sha512_update_loop (length m mod 128) bs ctx)"
proof (induction bs arbitrary: m ctx)
  case Nil
  then show ?case by simp
next
  case (Cons b bs)
  let ?ctx1 = "ctx\<lparr>buffer := (buffer ctx)[length m mod 128 := b], bitlen := bitlen ctx + 8\<rparr>"
  let ?c = "if length m mod 128 + 1 = 128 then sha512_transform (buffer ?ctx1) ?ctx1 else ?ctx1"
  have r: "sha_repr (m @ [b]) ?c" by (rule sha_repr_byte[OF Cons.prems])
  have a: "length (m @ [b]) mod 128 = (if length m mod 128 + 1 = 128 then 0 else length m mod 128 + 1)"
    by (simp add: mod_Suc)
  show ?case using Cons.IH[OF r] unfolding a by (simp add: Let_def split: if_splits)
qed

lemma sha_repr_update: "sha_repr m ctx \<Longrightarrow> sha_repr (m @ bs) (sha512_update bs ctx)"
  using sha_repr_loop by (simp add: sha512_update_def sha_repr_active)

lemma sha_repr_init: "length stack = 128 \<Longrightarrow> sha_repr [] (sha512_init stack)"
  by (simp add: sha_repr_def sha512_init_def sha_absorb.simps)

section \<open>Finalisation\<close>

lemma fill_zero_eq: "i \<le> j \<Longrightarrow> j \<le> length buf \<Longrightarrow> fill_zero i j buf = take i buf @ replicate (j - i) 0 @ drop j buf"
  by (simp add: fill_zero_def fold_fill)

lemma length_field:
  assumes "n < 2 ^ 64"
  shows "be_bytes 16 (word_of_nat n :: 128 word) = replicate 8 0 @ be_bytes 8 (word_of_nat n :: u64)"
proof -
  let ?w = "word_of_nat n :: 128 word" and ?v = "word_of_nat n :: u64"
  have v: "?w = ucast ?v"
    using assms by (intro word_unat_eq_iff[THEN iffD2]) (simp add: unsigned_of_nat unsigned_ucast_eq take_bit_nat_eq_self)
  have "le_bytes 16 ?w = le_bytes 8 ?v @ replicate 8 0"
  proof (rule nth_equalityI)
    fix i assume "i < length (le_bytes 16 ?w)"
    then have i: "i < 16" by simp
    show "le_bytes 16 ?w ! i = (le_bytes 8 ?v @ replicate 8 0) ! i"
    proof (rule bit_word_eqI)
      fix k assume "k < LENGTH(8)"
      then have k: "k < 8" by simp
      show "bit (le_bytes 16 ?w ! i) k = bit ((le_bytes 8 ?v @ replicate 8 0) ! i) k"
        unfolding v using i k bit_imp_le_length[of ?v "8 * i + k"]
        by (auto simp: le_bytes_nth nth_append bit_ucast_iff bit_drop_bit_eq simp del: unsigned_of_nat)
    qed
  qed simp
  then show ?thesis by (simp add: be_bytes_def)
qed

lemma sha512_final_short:
  assumes "sha_repr (full @ rest) ctx" "128 dvd length full" "length rest < 112"
    "sstate ctx = sha_absorb sha_iv full" "take (length rest) (buffer ctx) = rest"
  shows "sha512_final ctx = concat (map (\<lambda>i. be_bytes 8 (sha_absorb sha_iv
    (full @ rest @ [0x80] @ replicate (111 - length rest) 0 @ replicate 8 0 @ be_bytes 8 (bitlen ctx)) ! i)) [0..<8])"
proof -
  let ?n = "length rest" and ?bs = "be_bytes 8 (bitlen ctx)"
  have l: "length (buffer ctx) = 128" using assms(1) by (simp add: sha_repr_def)
  have act: "sha_active ctx = ?n" using repr_active[OF assms(1,2)] assms(3) by simp
  define b1 where "b1 = (buffer ctx)[?n := 0x80]"
  have t1: "take (Suc ?n) b1 = rest @ [0x80]" "length b1 = 128"
    using assms(3,5) l by (simp_all add: b1_def take_Suc_conv_app_nth)
  define b3 where "b3 = fill_zero (Suc ?n) 112 b1"
  have b3: "b3 = (rest @ [0x80]) @ replicate (111 - ?n) 0 @ drop 112 b1"
    using assms(3) t1 by (simp add: b3_def fill_zero_eq)
  define P where "P = rest @ [0x80] @ replicate (111 - ?n) 0"
  have P: "length P = 112" "b3 = P @ drop 112 b1" using assms(3) b3 by (simp_all add: P_def)
  have lb3: "length b3 = 128" using P t1 by simp
  have "fill_zero 112 120 b3 = P @ replicate 8 0 @ drop 120 b3"
    using lb3 P(1) by (subst fill_zero_eq) (simp_all add: P(2))
  then have b4: "take 120 (fill_zero 112 120 b3) = P @ replicate 8 0" "length (fill_zero 112 120 b3) = 128"
    using P(1) lb3 by simp_all
  define b5 where "b5 = fold (\<lambda>i b. b[120 + i := ?bs ! i]) [0..<8] (fill_zero 112 120 b3)"
  have b5': "b5 = P @ replicate 8 0 @ ?bs"
    unfolding b5_def by (subst fold_copy) (use b4 in simp_all)
  then have b5: "b5 = rest @ [0x80] @ replicate (111 - ?n) 0 @ replicate 8 0 @ ?bs" by (simp add: P_def)
  have len5: "length b5 = 128" using b5' P(1) by simp
  have "sha512_final ctx = concat (map (\<lambda>i. be_bytes 8 (sha_compress (sstate ctx) b5 ! i)) [0..<8])"
    using assms(3) unfolding sha512_final_def act Let_def b5_def b3_def b1_def by (simp add: sha512_transform_def)
  also have "sha_compress (sstate ctx) b5 = sha_absorb sha_iv (full @ b5)"
    using assms(2,4) len5 by (simp add: sha_absorb_append sha_absorb_block)
  finally show ?thesis unfolding b5 .
qed

lemma sha512_final_long:
  assumes "sha_repr (full @ rest) ctx" "128 dvd length full" "112 \<le> length rest" "length rest < 128"
    "sstate ctx = sha_absorb sha_iv full" "take (length rest) (buffer ctx) = rest"
  shows "sha512_final ctx = concat (map (\<lambda>i. be_bytes 8 (sha_absorb sha_iv
    (full @ rest @ [0x80] @ replicate (127 - length rest) 0 @ replicate 112 0 @ replicate 8 0 @ be_bytes 8 (bitlen ctx)) ! i)) [0..<8])"
proof -
  let ?n = "length rest" and ?bs = "be_bytes 8 (bitlen ctx)"
  have l: "length (buffer ctx) = 128" using assms(1) by (simp add: sha_repr_def)
  have act: "sha_active ctx = ?n" using repr_active[OF assms(1,2,4)] .
  define b1 where "b1 = (buffer ctx)[?n := 0x80]"
  have t1: "take (Suc ?n) b1 = rest @ [0x80]" "length b1 = 128"
    using assms(4,6) l by (simp_all add: b1_def take_Suc_conv_app_nth)
  define b2 where "b2 = fill_zero (Suc ?n) 128 b1"
  have b2: "b2 = rest @ [0x80] @ replicate (127 - ?n) 0" "length b2 = 128"
    using assms(4) t1 by (simp_all add: b2_def fill_zero_eq)
  define b3 where "b3 = fill_zero 0 112 b2"
  have b3: "b3 = replicate 112 0 @ drop 112 b2" "length b3 = 128" using b2(2) by (simp_all add: b3_def fill_zero_eq)
  have "fill_zero 112 120 b3 = replicate 112 0 @ replicate 8 0 @ drop 120 b3"
    using b3 by (subst fill_zero_eq) simp_all
  then have b4: "take 120 (fill_zero 112 120 b3) = replicate 112 0 @ replicate 8 0" "length (fill_zero 112 120 b3) = 128"
    using b3(2) by simp_all
  define b5 where "b5 = fold (\<lambda>i b. b[120 + i := ?bs ! i]) [0..<8] (fill_zero 112 120 b3)"
  have b5: "b5 = replicate 112 0 @ replicate 8 0 @ ?bs"
    unfolding b5_def by (subst fold_copy) (use b4 in simp_all)
  have len5: "length b5 = 128" using b5 by simp
  have "sha512_final ctx = concat (map (\<lambda>i. be_bytes 8 (sha_compress (sha_compress (sstate ctx) b2) b5 ! i)) [0..<8])"
    using assms(3) unfolding sha512_final_def act Let_def b5_def b3_def b2_def b1_def by (simp add: sha512_transform_def)
  also have "sha_compress (sha_compress (sstate ctx) b2) b5 = sha_absorb sha_iv (full @ b2 @ b5)"
    using assms(2,5) len5 b2(2) by (simp add: sha_absorb_append sha_absorb_block)
  finally show ?thesis unfolding b5 b2(1) by simp
qed

lemma sha_repr_final:
  assumes r: "sha_repr m ctx" and n: "length m < 2 ^ 61"
  shows "sha512_final ctx = sha512_ref m"
proof -
  obtain full rest where m: "m = full @ rest" "length rest < 128" "128 dvd length full"
      "sstate ctx = sha_absorb sha_iv full" "take (length rest) (buffer ctx) = rest"
    and bl: "bitlen ctx = word_of_nat (8 * length m)"
    using r unfolding sha_repr_def by blast
  have lf: "be_bytes 16 (word_of_nat (8 * length m) :: 128 word) = replicate 8 0 @ be_bytes 8 (bitlen ctx)"
    unfolding bl using n by (intro length_field) simp
  have md: "length m mod 128 = length rest" using m by (auto elim!: dvdE)
  have r': "sha_repr (full @ rest) ctx" using r m(1) by simp
  show ?thesis
  proof (cases "length rest < 112")
    case True
    then have p: "(239 - length m mod 128) mod 128 = 111 - length rest"
      unfolding md by (simp add: le_mod_geq)
    show ?thesis
      unfolding sha512_final_short[OF r' m(3) True m(4,5)] sha512_ref_def sha_pad_def lf p by (simp add: m(1))
  next
    case False
    then have p: "(239 - length m mod 128) mod 128 = 127 - length rest + 112" unfolding md using m(2) by simp
    show ?thesis
      unfolding sha512_final_long[OF r' m(3) _ m(2,4,5), OF leI[OF False]] sha512_ref_def sha_pad_def lf p replicate_add
      by (simp add: m(1))
  qed
qed

section \<open>HMAC and HKDF against their definitions\<close>

definition hmac_key :: "u8 list \<Rightarrow> u8 list" where
  "hmac_key key = (let k1 = (if length key > 128 then sha512_ref key else key) in k1 @ replicate (128 - length k1) 0)"

definition hmac_ref :: "u8 list \<Rightarrow> u8 list \<Rightarrow> u8 list" where
  "hmac_ref key m =
     sha512_ref (map (\<lambda>b. b XOR 0x5C) (hmac_key key) @ sha512_ref (map (\<lambda>b. b XOR 0x36) (hmac_key key) @ m))"

fun hkdf_T :: "u8 list \<Rightarrow> u8 list \<Rightarrow> nat \<Rightarrow> u8 list" where
  "hkdf_T prk info 0 = []"
| "hkdf_T prk info (Suc i) = hmac_ref prk (hkdf_T prk info i @ info @ [word_of_nat (Suc i)])"

lemma length_concat_be: "length (concat (map (\<lambda>i. be_bytes 8 (g i)) [0..<n])) = 8 * n"
  by (induction n) simp_all

lemma length_sha512_ref [simp]: "length (sha512_ref m) = 64"
  unfolding sha512_ref_def length_concat_be by simp

lemma length_hmac_ref [simp]: "length (hmac_ref key m) = 64"
  by (simp add: hmac_ref_def)

lemma length_hmac_key [simp]: "length (hmac_key key) = 128"
  by (simp add: hmac_key_def Let_def)

lemma sha_repr_updates:
  "sha_repr m ctx \<Longrightarrow> sha_repr (m @ concat chunks) (fold sha512_update chunks ctx)"
proof (induction chunks arbitrary: m ctx)
  case (Cons a chunks)
  show ?case using Cons.IH[OF sha_repr_update[OF Cons.prems]] by simp
qed simp

lemma sha512_eq_ref: "length stack = 128 \<Longrightarrow> length m < 2 ^ 61 \<Longrightarrow> sha512 stack m = sha512_ref m"
  using sha_repr_update[OF sha_repr_init, of stack m] sha_repr_final by (simp add: sha512_def)

lemma hmac_eq_ref:
  assumes st: "length stack = 128" and len: "length key < 2 ^ 61" "length m + 128 < 2 ^ 61"
  shows "hmac_sha512 stack key m = hmac_ref key m"
proof -
  let ?i = "map (\<lambda>b. b XOR 0x36) (hmac_key key)" and ?o = "map (\<lambda>b. b XOR 0x5C) (hmac_key key)"
  have two: "sha512_final (sha512_update b (sha512_update a (sha512_init stack))) = sha512_ref (a @ b)"
    if "length (a @ b) < 2 ^ 61" for a b
    using that sha_repr_update[OF sha_repr_update[OF sha_repr_init[OF st]], of a b] sha_repr_final by simp
  have k: "(if length key > 128 then sha512 stack key else key) = (if length key > 128 then sha512_ref key else key)"
    using sha512_eq_ref[OF st len(1)] by simp
  have inner: "sha512_final (sha512_update m (sha512_update ?i (sha512_init stack))) = sha512_ref (?i @ m)"
    using len by (intro two) simp
  have "sha512_final (sha512_update (sha512_ref (?i @ m)) (sha512_update ?o (sha512_init stack))) =
      sha512_ref (?o @ sha512_ref (?i @ m))"
    by (intro two) simp
  then show ?thesis unfolding hmac_sha512_def k Let_def hmac_key_def[symmetric, unfolded Let_def] inner hmac_ref_def .
qed

lemma take_blocks: "length a = 64 \<Longrightarrow> take (if 64 > l then l else 64) a @ take (l - (if 64 > l then l else 64)) r = take l (a @ r)"
  by simp

lemma hkdf_loop_eq:
  assumes st: "length stack = 128" and info: "length info \<le> 128" and prk: "length prk = 64"
  shows "0 < i \<Longrightarrow> t = hkdf_T prk info (i - 1) \<Longrightarrow>
    hkdf_loop stack prk info n i t left = take left (concat (map (hkdf_T prk info) [i..<i + n]))"
proof (induction n arbitrary: i t left)
  case (Suc n)
  obtain j where j: "i = Suc j" using Suc.prems(1) by (cases i) simp_all
  have lt: "length t \<le> 64" using Suc.prems(2) j by (cases j) simp_all
  have first: "(if i > 1 then t else []) = hkdf_T prk info j" using Suc.prems(2) j by (cases j) simp_all
  have h: "hmac_sha512 stack prk (hkdf_T prk info j @ info @ [word_of_nat i]) = hkdf_T prk info i"
    using hmac_eq_ref[OF st, of prk] prk lt info Suc.prems(2) by (simp add: j)
  have IH: "hkdf_loop stack prk info n (i + 1) (hkdf_T prk info i) l =
      take l (concat (map (hkdf_T prk info) [i + 1..<i + 1 + n]))" for l
    by (rule Suc.IH) simp_all
  have up: "[i..<i + Suc n] = i # [i + 1..<i + 1 + n]" by (simp add: upt_conv_Cons)
  have len: "length (hkdf_T prk info i) = 64" by (simp add: j)
  have "take 128 info = info" using info by simp
  then show ?case
    unfolding up hkdf_loop.simps Let_def first by (simp only: h IH take_blocks[OF len] list.map concat.simps)
qed simp

section \<open>Properties\<close>

text \<open>C33: The incremental SHA-512 is correct: feeding a message in any chunks through the byte buffer
  gives the digest of the padded message processed block by block (FIPS 180-4 padding with a 128-bit
  length), whatever was on the stack before, for messages below 2^61 bytes.\<close>

theorem sha512_incremental_correct:
  assumes "length stack = 128" "length (concat chunks) < 2 ^ 61"
  shows "sha512_final (fold sha512_update chunks (sha512_init stack)) = sha512_ref (concat chunks) \<and>
    128 dvd length (sha_pad (concat chunks))"
proof
  show "sha512_final (fold sha512_update chunks (sha512_init stack)) = sha512_ref (concat chunks)"
    using sha_repr_updates[OF sha_repr_init[OF assms(1)], of chunks] sha_repr_final assms(2) by simp
  have "(n + 1 + (239 - n mod 128) mod 128 + 16) mod 128 = 0" for n :: nat
  proof -
    have "n mod 128 < 128" by simp
    then have "n mod 128 + (17 + (239 - n mod 128) mod 128) = 128 \<or> n mod 128 + (17 + (239 - n mod 128) mod 128) = 256"
      by (cases "n mod 128 \<le> 111") (auto simp: le_mod_geq)
    then have "(n mod 128 + (17 + (239 - n mod 128) mod 128)) mod 128 = 0"
      by (elim disjE) (simp_all only: mod_self, simp)
    then have "(n + (17 + (239 - n mod 128) mod 128)) mod 128 = 0" by (simp only: mod_add_left_eq)
    then show ?thesis by (simp add: algebra_simps)
  qed
  moreover have "length (sha_pad m) = length m + 1 + (239 - length m mod 128) mod 128 + 16" for m
    unfolding sha_pad_def length_append length_replicate length_be_bytes by simp
  ultimately show "128 dvd length (sha_pad (concat chunks))" by (simp only: dvd_eq_mod_eq_0)
qed

text \<open>HMAC-SHA-512 is H(K xor opad, H(K xor ipad, m)) with keys longer than a block hashed first.\<close>

theorem hmac_sha512_correct:
  assumes "length stack = 128" "length key < 2 ^ 61" "length m + 128 < 2 ^ 61"
  shows "hmac_sha512 stack key m = hmac_ref key m \<and> length (hmac_sha512 stack key m) = 64"
  using hmac_eq_ref[OF assms] by simp

text \<open>C36: For a 64-byte key and an info string of at most 128 bytes (longer ones are cut), whatever the stack held, HKDF expansion produces
  exactly the requested number of bytes, the prefix of the blocks of RFC 5869, T(1), T(2), ..., each the HMAC of the block before
  it, the info string and the block number as one byte.\<close>

theorem hkdf_expand_correct:
  assumes "length stack = 128" "length prk = 64" "length info \<le> 128"
  shows "hkdf_sha512_expand stack prk info len =
      take len (concat (map (hkdf_T prk info) [1..<1 + (len + 63) div 64])) \<and>
    length (hkdf_sha512_expand stack prk info len) = len"
proof -
  let ?n = "(len + 63) div 64"
  have e: "hkdf_sha512_expand stack prk info len = take len (concat (map (hkdf_T prk info) [1..<1 + ?n]))"
    unfolding hkdf_sha512_expand_def using assms by (subst hkdf_loop_eq) simp_all
  have "length (concat (map (hkdf_T prk info) [1..<1 + n])) = 64 * n" for n
    by (induction n) simp_all
  then show ?thesis unfolding e by simp
qed

section \<open>Witnesses\<close>

theorem sha512_incremental_correct_witness:
  "sha512_final (fold sha512_update [[97], [98, 99]] (sha512_init (replicate 128 0))) = sha512_ref [97, 98, 99]"
  using sha512_incremental_correct[of "replicate 128 0" "[[97], [98, 99]]"] by simp

theorem hmac_sha512_correct_witness: "hmac_sha512 (replicate 128 7) [1, 2] [3] = hmac_ref [1, 2] [3]"
  using hmac_sha512_correct[of "replicate 128 7" "[1, 2]" "[3]"] by simp

theorem hkdf_expand_correct_witness:
  "hkdf_sha512_expand (replicate 128 7) (replicate 64 1) [2] 100 =
     take 100 (hkdf_T (replicate 64 1) [2] 1 @ hkdf_T (replicate 64 1) [2] 2)"
proof -
  have "[1..<1 + (100 + 63) div 64] = [1, 2 :: nat]" by (simp add: upt_conv_Cons)
  then show ?thesis using hkdf_expand_correct[of "replicate 128 7" "replicate 64 1" "[2]" 100] by (simp add: numeral_2_eq_2 del: hkdf_T.simps)
qed

end
