(* ===== verification/Rng.thy ===== *)
theory Rng
  imports Chacha20
begin

text \<open>
  The random number generator as its clients see it.  Every call of
  \<^verbatim>\<open>csprng_get_bytes\<close> (\<^verbatim>\<open>src/kernel/csprng.c\<close>) reads the time stamp counter and
  the interval timer, and the first call also seeds the generator: the record
  \<open>rng\<close> holds the generator of theory \<open>Chacha20\<close> with the readings that the
  successive calls take from the hardware.
\<close>

record rng =
  gen :: csprng_state
  readings :: "nat \<Rightarrow> csprng_state \<times> u64 \<times> u64"
  calls :: nat

definition rng_bytes :: "nat \<Rightarrow> rng \<Rightarrow> u8 list \<times> rng" where
  "rng_bytes n r =
     (if n = 0 then ([], r)
      else
        let (boot, tsc, pit) = readings r (calls r);
            (bs, g) = csprng_get_bytes boot tsc pit n (gen r)
        in (bs, r\<lparr>gen := g, calls := calls r + 1\<rparr>))"

definition rng_u32 :: "rng \<Rightarrow> u32 \<times> rng" where
  "rng_u32 r =
     (let (boot, tsc, pit) = readings r (calls r);
          (x, g) = csprng_u32 boot tsc pit (gen r)
      in (x, r\<lparr>gen := g, calls := calls r + 1\<rparr>))"

lemma length_csprng_get_bytes [simp]: "length (fst (csprng_get_bytes boot tsc pit n g)) = n"
  using csprng_fill_length[of _ n] by (simp add: csprng_get_bytes_def Let_def split: prod.splits) (metis fst_conv)

lemma csprng_get_bytes_length: "csprng_get_bytes boot tsc pit n g = (bs, g') \<Longrightarrow> length bs = n"
  using length_csprng_get_bytes [of boot tsc pit n g] by simp

lemma length_rng_bytes: "rng_bytes n r = (bs, r') \<Longrightarrow> length bs = n"
  by (auto simp: rng_bytes_def Let_def split: if_splits prod.splits dest: csprng_get_bytes_length)

end
