(* ===== verification/Pci.thy ===== *)
theory Pci
  imports Styx_Prelude
begin

unbundle bit_operations_syntax

text \<open>
  PCI configuration space access and device discovery, \<^verbatim>\<open>src/kernel/pci.c\<close>.  The bus
  is hardware: \<open>cfg\<close> is the word that a read of a configuration address returns, and
  \<open>stored\<close> is what the device keeps of a word that is written there (base address
  registers ignore their low bits).  A write to the address port followed by an
  access to the data port is one access at that address.
\<close>

section \<open>Model\<close>

record pci_bus =
  cfg :: "u32 \<Rightarrow> u32"
  stored :: "u32 \<Rightarrow> u32 \<Rightarrow> u32"

record pci_device =
  dbus :: u8
  ddev :: u8
  dfn :: u8
  bar0 :: u64
  bar0_size :: u32

abbreviation PCI_VENDOR_ID :: u8 where "PCI_VENDOR_ID \<equiv> 0x00"
abbreviation PCI_COMMAND :: u8 where "PCI_COMMAND \<equiv> 0x04"
abbreviation PCI_CLASS_REV :: u8 where "PCI_CLASS_REV \<equiv> 0x08"
abbreviation PCI_BAR0 :: u8 where "PCI_BAR0 \<equiv> 0x10"
abbreviation PCI_CMD_BUS_MASTER :: u16 where "PCI_CMD_BUS_MASTER \<equiv> 4"
abbreviation PCI_CMD_MEM_SPACE :: u16 where "PCI_CMD_MEM_SPACE \<equiv> 2"

definition PCI_ADDR :: "u8 \<Rightarrow> u8 \<Rightarrow> u8 \<Rightarrow> u8 \<Rightarrow> u32" where
  "PCI_ADDR b d f r =
     0x80000000 OR push_bit 16 (ucast b) OR push_bit 11 (ucast d) OR push_bit 8 (ucast f) OR (ucast r AND 0xFC)"

definition pci_read32 :: "u8 \<Rightarrow> u8 \<Rightarrow> u8 \<Rightarrow> u8 \<Rightarrow> pci_bus \<Rightarrow> u32" where
  "pci_read32 b d f r p = cfg p (PCI_ADDR b d f r)"

definition pci_write32 :: "u8 \<Rightarrow> u8 \<Rightarrow> u8 \<Rightarrow> u8 \<Rightarrow> u32 \<Rightarrow> pci_bus \<Rightarrow> pci_bus" where
  "pci_write32 b d f r v p = p\<lparr>cfg := (cfg p)(PCI_ADDR b d f r := stored p (PCI_ADDR b d f r) v)\<rparr>"

definition pci_read16 :: "u8 \<Rightarrow> u8 \<Rightarrow> u8 \<Rightarrow> u8 \<Rightarrow> pci_bus \<Rightarrow> u16" where
  "pci_read16 b d f r p = ucast (drop_bit (unat (r AND 2) * 8) (cfg p (PCI_ADDR b d f r)))"

definition pci_write16 :: "u8 \<Rightarrow> u8 \<Rightarrow> u8 \<Rightarrow> u8 \<Rightarrow> u16 \<Rightarrow> pci_bus \<Rightarrow> pci_bus" where
  "pci_write16 b d f r v p =
     (let dword = pci_read32 b d f (r AND 0xFC) p;
          shift = unat (r AND 2) * 8
      in pci_write32 b d f (r AND 0xFC)
           ((dword AND NOT (push_bit shift 0xFFFF)) OR push_bit shift (ucast v)) p)"

definition decode_bar64 :: "u8 \<Rightarrow> u8 \<Rightarrow> u8 \<Rightarrow> u8 \<Rightarrow> pci_bus \<Rightarrow> (u64 \<times> u32) \<times> pci_bus" where
  "decode_bar64 b d f off p =
     (let lo = pci_read32 b d f off p;
          hi = pci_read32 b d f (off + 4) p;
          p1 = pci_write32 b d f off 0xFFFFFFFF p;
          p2 = pci_write32 b d f (off + 4) 0xFFFFFFFF p1;
          sz_lo = pci_read32 b d f off p2;
          p3 = pci_write32 b d f off lo p2;
          p4 = pci_write32 b d f (off + 4) hi p3
      in ((push_bit 32 (ucast hi) OR ucast (lo AND NOT 0xF), NOT (sz_lo AND NOT 0xF) + 1), p4))"

definition decode_bar :: "u8 \<Rightarrow> u8 \<Rightarrow> u8 \<Rightarrow> pci_bus \<Rightarrow> (u64 \<times> u32) \<times> pci_bus" where
  "decode_bar b d f p =
     (let bar0_lo = pci_read32 b d f PCI_BAR0 p in
      if bar0_lo AND 0x6 = 0x4 then decode_bar64 b d f PCI_BAR0 p
      else
        let p1 = pci_write32 b d f PCI_BAR0 0xFFFFFFFF p;
            sz_lo = pci_read32 b d f PCI_BAR0 p1 AND NOT 0xF;
            p2 = pci_write32 b d f PCI_BAR0 bar0_lo p1
        in ((ucast (bar0_lo AND NOT 0xF), NOT sz_lo + 1), p2))"

definition is_xhci :: "u8 \<Rightarrow> u8 \<Rightarrow> u8 \<Rightarrow> pci_bus \<Rightarrow> bool" where
  "is_xhci b d f p =
     (let vid = pci_read32 b d f PCI_VENDOR_ID p;
          cr = pci_read32 b d f PCI_CLASS_REV p
      in vid AND 0xFFFF \<noteq> 0xFFFF \<and>
         drop_bit 24 cr AND 0xFF = 0x0C \<and> drop_bit 16 cr AND 0xFF = 0x03 \<and> drop_bit 8 cr AND 0xFF = 0x30)"

definition is_e1000 :: "u8 \<Rightarrow> u8 \<Rightarrow> u8 \<Rightarrow> pci_bus \<Rightarrow> bool" where
  "is_e1000 b d f p =
     (let vid_did = pci_read32 b d f PCI_VENDOR_ID p;
          vid = vid_did AND 0xFFFF;
          did = drop_bit 16 vid_did AND 0xFFFF
      in vid \<noteq> 0xFFFF \<and> vid = 0x8086 \<and> (did = 0x100E \<or> did = 0x100F \<or> did = 0x1004 \<or> did = 0x1015))"

definition pci_scan_order :: "(u8 \<times> u8 \<times> u8) list" where
  "pci_scan_order =
     concat (map (\<lambda>b. concat (map (\<lambda>d. map (\<lambda>f. (word_of_nat b, word_of_nat d, word_of_nat f)) [0..<8]) [0..<32])) [0..<256])"

definition pci_find ::
  "(u8 \<Rightarrow> u8 \<Rightarrow> u8 \<Rightarrow> pci_bus \<Rightarrow> bool) \<Rightarrow> (u8 \<times> u8 \<times> u8) list \<Rightarrow> pci_bus \<Rightarrow> pci_device option \<times> pci_bus" where
  "pci_find is_dev order p =
     (case find (\<lambda>(b, d, f). is_dev b d f p) order of
        None \<Rightarrow> (None, p)
      | Some (b, d, f) \<Rightarrow>
          let ((base, sz), p') = decode_bar b d f p
          in (Some \<lparr>dbus = b, ddev = d, dfn = f, bar0 = base, bar0_size = sz\<rparr>, p'))"

definition pci_find_xhci :: "pci_bus \<Rightarrow> pci_device option \<times> pci_bus" where
  "pci_find_xhci = pci_find is_xhci pci_scan_order"

definition pci_find_e1000 :: "pci_bus \<Rightarrow> pci_device option \<times> pci_bus" where
  "pci_find_e1000 = pci_find is_e1000 pci_scan_order"

definition pci_enable_device :: "pci_device \<Rightarrow> pci_bus \<Rightarrow> pci_bus" where
  "pci_enable_device v p =
     (let cmd = pci_read16 (dbus v) (ddev v) (dfn v) PCI_COMMAND p
      in pci_write16 (dbus v) (ddev v) (dfn v) PCI_COMMAND (cmd OR PCI_CMD_BUS_MASTER OR PCI_CMD_MEM_SPACE) p)"

section \<open>Configuration addresses\<close>

lemma no_high_bits: "unat x < 2 ^ n \<Longrightarrow> n \<le> j \<Longrightarrow> \<not> bit x j" for x :: "'a::len word"
proof -
  assume x: "unat x < 2 ^ n" and j: "n \<le> j"
  have "take_bit n x = x"
    unfolding word_unat_eq_iff unsigned_take_bit_eq using x by (simp add: take_bit_nat_eq_self)
  then show ?thesis using j by (metis bit_take_bit_iff not_less)
qed

lemma bit_PCI_ADDR:
  assumes "k < 32" "unat d < 32" "unat f < 8"
  shows "bit (PCI_ADDR b d f r) k =
    (if k = 31 then True else if 16 \<le> k \<and> k < 24 then bit b (k - 16)
     else if 11 \<le> k \<and> k < 16 then bit d (k - 11) else if 8 \<le> k \<and> k < 11 then bit f (k - 8)
     else 2 \<le> k \<and> k < 8 \<and> bit r k)"
proof -
  have d: "\<not> bit d j" if "5 \<le> j" for j using no_high_bits [of d 5 j] assms(2) that by simp
  have f: "\<not> bit f j" if "3 \<le> j" for j using no_high_bits [of f 3 j] assms(3) that by simp
  have b: "\<not> bit b j" if "8 \<le> j" for j using bit_imp_le_length [of b j] that by auto
  have r: "\<not> bit r j" if "8 \<le> j" for j using bit_imp_le_length [of r j] that by auto
  have top: "bit (0x80000000 :: u32) k = (k = 31)"
  proof -
    have "(0x80000000 :: u32) = 2 ^ 31" by simp
    then show ?thesis using assms(1) by (simp only: bit_exp_iff possible_bit_word) auto
  qed
  have low: "bit (0xFC :: u32) k = (2 \<le> k \<and> k < 8)"
  proof -
    have "(0xFC :: u32) = mask 8 AND NOT (mask 2)" by (simp add: mask_eq_exp_minus_1)
    then show ?thesis using assms(1) by (simp only: bit_and_iff bit_not_iff bit_mask_iff possible_bit_word) auto
  qed
  show ?thesis
    unfolding PCI_ADDR_def bit_or_iff bit_and_iff bit_push_bit_iff bit_ucast_iff top low
    using assms(1) b d f r by (auto simp: not_le)
qed

text \<open>Different functions and registers have different configuration addresses.\<close>

lemma PCI_ADDR_inj:
  assumes eq: "PCI_ADDR b d f r = PCI_ADDR b' d' f' r'"
    and ranges: "unat d < 32" "unat d' < 32" "unat f < 8" "unat f' < 8"
  shows "b = b' \<and> d = d' \<and> f = f' \<and> r AND 0xFC = r' AND 0xFC"
proof (intro conjI)
  show "b = b'"
  proof (rule bit_word_eqI)
    fix j assume "j < LENGTH(8)"
    then show "bit b j = bit b' j"
      using arg_cong [where f = "\<lambda>a. bit a (j + 16)", OF eq] ranges by (simp add: bit_PCI_ADDR)
  qed
  show "d = d'"
  proof (rule bit_word_eqI)
    fix j assume j: "j < LENGTH(8)"
    show "bit d j = bit d' j"
    proof (cases "j < 5")
      case True
      then show ?thesis
        using arg_cong [where f = "\<lambda>a. bit a (j + 11)", OF eq] ranges by (simp add: bit_PCI_ADDR)
    next
      case False
      then show ?thesis using no_high_bits [of d 5 j] no_high_bits [of d' 5 j] ranges by simp
    qed
  qed
  show "f = f'"
  proof (rule bit_word_eqI)
    fix j assume j: "j < LENGTH(8)"
    show "bit f j = bit f' j"
    proof (cases "j < 3")
      case True
      then show ?thesis
        using arg_cong [where f = "\<lambda>a. bit a (j + 8)", OF eq] ranges by (simp add: bit_PCI_ADDR)
    next
      case False
      then show ?thesis using no_high_bits [of f 3 j] no_high_bits [of f' 3 j] ranges by simp
    qed
  qed
  show "r AND 0xFC = r' AND 0xFC"
  proof (rule bit_word_eqI)
    fix j assume j: "j < LENGTH(8)"
    have low: "bit (0xFC :: u8) j = (2 \<le> j)"
    proof -
      have "(0xFC :: u8) = NOT (mask 2)" by (simp add: mask_eq_exp_minus_1)
      then show ?thesis using j by (simp only: bit_not_iff bit_mask_iff possible_bit_word) auto
    qed
    show "bit (r AND 0xFC) j = bit (r' AND 0xFC) j"
      using arg_cong [where f = "\<lambda>a. bit a j", OF eq] ranges j
      unfolding bit_and_iff low by (auto simp: bit_PCI_ADDR)
  qed
qed

section \<open>Device discovery\<close>

lemma decode_bar_restores:
  assumes "\<And>a. stored p a (cfg p a) = cfg p a"
  shows "snd (decode_bar b d f p) = p"
proof -
  have "cfg (snd (decode_bar b d f p)) a = cfg p a" for a
    using assms by (auto simp: decode_bar_def decode_bar64_def Let_def pci_read32_def pci_write32_def)
  moreover have "stored (snd (decode_bar b d f p)) = stored p"
    by (simp add: decode_bar_def decode_bar64_def Let_def pci_write32_def)
  ultimately show ?thesis
    by (intro pci_bus.equality) auto
qed

text \<open>A memory BAR that keeps the address bits from \<open>k\<close> upwards has an aperture of \<open>2 ^ k\<close> bytes.\<close>

lemma decode_bar_size:
  assumes "stored p (PCI_ADDR b d f PCI_BAR0) 0xFFFFFFFF = NOT (mask k) OR fl" and "fl AND NOT 0xF = 0" and "4 \<le> k"
    and "cfg p (PCI_ADDR b d f PCI_BAR0) AND 0x6 \<noteq> 0x4"
  shows "fst (decode_bar b d f p) = (ucast (cfg p (PCI_ADDR b d f PCI_BAR0) AND NOT 0xF), 2 ^ k)"
proof -
  have m: "NOT (mask k) AND NOT 0xF = (NOT (mask k) :: u32)"
  proof (rule bit_word_eqI)
    fix j assume "j < LENGTH(32)"
    moreover have "(0xF :: u32) = mask 4" by (simp add: mask_eq_exp_minus_1)
    ultimately show "bit (NOT (mask k) AND NOT 0xF :: u32) j = bit (NOT (mask k) :: u32) j"
      using assms(3) by (simp only: bit_and_iff bit_not_iff bit_mask_iff possible_bit_word) auto
  qed
  have "(NOT (mask k) OR fl) AND NOT 0xF = NOT (mask k)"
    using m assms(2) by (simp add: and.commute bit.conj_disj_distrib2)
  then have "NOT ((NOT (mask k) OR fl) AND NOT 0xF) + 1 = (2 ^ k :: u32)"
    by (simp add: mask_eq_exp_minus_1)
  then show ?thesis
    using assms(1,4) by (simp add: decode_bar_def Let_def pci_read32_def pci_write32_def)
qed

lemma pci_find_Some:
  assumes "pci_find is_dev order p = (Some v, p')" "\<And>a. stored p a (cfg p a) = cfg p a"
  shows "p' = p \<and> is_dev (dbus v) (ddev v) (dfn v) p \<and>
    (\<exists>xs ys. order = xs @ (dbus v, ddev v, dfn v) # ys \<and> (\<forall>(b, d, f) \<in> set xs. \<not> is_dev b d f p))"
proof -
  obtain b d f where fnd: "find (\<lambda>(b, d, f). is_dev b d f p) order = Some (b, d, f)"
      and v: "dbus v = b" "ddev v = d" "dfn v = f" and p': "p' = snd (decode_bar b d f p)"
    using assms(1) by (auto simp: pci_find_def split: option.splits prod.splits)
  obtain i where i: "i < length order" "is_dev b d f p" "order ! i = (b, d, f)"
      "\<forall>j < i. \<not> (case order ! j of (b, d, f) \<Rightarrow> is_dev b d f p)"
    using fnd by (auto simp: find_Some_iff)
  have "order = take i order @ (b, d, f) # drop (Suc i) order"
    using i by (metis id_take_nth_drop)
  moreover have "\<forall>(b, d, f) \<in> set (take i order). \<not> is_dev b d f p"
    using i(1,4) by (fastforce simp: in_set_conv_nth)
  ultimately show ?thesis
    using i(2) v p' decode_bar_restores [OF assms(2)] by blast
qed

lemma pci_find_None:
  "pci_find is_dev order p = (None, p') \<Longrightarrow> p' = p \<and> (\<forall>(b, d, f) \<in> set order. \<not> is_dev b d f p)"
  by (auto simp: pci_find_def find_None_iff split: option.splits prod.splits)

lemma in_concat_map: "x \<in> set xs \<Longrightarrow> y \<in> set (g x) \<Longrightarrow> y \<in> set (concat (map g xs))"
  by auto

lemma set_pci_scan_order:
  assumes "unat d < 32" "unat f < 8"
  shows "(b, d, f) \<in> set pci_scan_order"
  unfolding pci_scan_order_def
proof (rule in_concat_map [of "unat b"])
  show "unat b \<in> set [0..<256]" using unsigned_less [of b] by simp
  have "(b, d, f) = (\<lambda>f. (word_of_nat (unat b), word_of_nat (unat d), word_of_nat f)) (unat f)" by simp
  then have "(b, d, f) \<in> set (map (\<lambda>f. (word_of_nat (unat b), word_of_nat (unat d), word_of_nat f)) [0..<8])"
    using assms unfolding set_map set_upt by (intro image_eqI) simp_all
  then show "(b, d, f) \<in> set (concat (map (\<lambda>d. map (\<lambda>f. (word_of_nat (unat b), word_of_nat d, word_of_nat f)) [0..<8]) [0..<32]))"
    using assms by (intro in_concat_map [of "unat d"]) simp_all
qed

text \<open>the scan for the network controller is exact.  On a bus whose registers keep a value that is written back, it
  leaves the configuration space as it was (the size probe of the base address register included), returns the first
  function in bus, device, function order that is an e1000, and returns nothing only when no function is one.\<close>

theorem pci_find_e1000_exact:
  assumes "\<And>a. stored p a (cfg p a) = cfg p a"
  shows "snd (pci_find_e1000 p) = p \<and>
    (case fst (pci_find_e1000 p) of
       None \<Rightarrow> \<forall>b d f. unat d < 32 \<longrightarrow> unat f < 8 \<longrightarrow> \<not> is_e1000 b d f p
     | Some v \<Rightarrow> is_e1000 (dbus v) (ddev v) (dfn v) p \<and>
         (\<exists>xs ys. pci_scan_order = xs @ (dbus v, ddev v, dfn v) # ys \<and> (\<forall>(b, d, f) \<in> set xs. \<not> is_e1000 b d f p)))"
proof (cases "fst (pci_find_e1000 p)")
  case None
  then have "pci_find is_e1000 pci_scan_order p = (None, snd (pci_find_e1000 p))"
    by (metis pci_find_e1000_def prod.collapse)
  from pci_find_None [OF this] show ?thesis
    using None set_pci_scan_order by fastforce
next
  case (Some v)
  then have "pci_find is_e1000 pci_scan_order p = (Some v, snd (pci_find_e1000 p))"
    by (metis pci_find_e1000_def prod.collapse)
  from pci_find_Some [OF this assms] show ?thesis
    using Some by simp
qed

definition wbus :: pci_bus where
  "wbus = \<lparr>cfg = (\<lambda>a. if a = PCI_ADDR 0 3 0 0 then 0x100E8086 else 0xFFFFFFFF), stored = (\<lambda>_ v. v)\<rparr>"

theorem pci_find_e1000_exact_witness: "snd (pci_find_e1000 wbus) = wbus"
  using pci_find_e1000_exact [of wbus] by (simp add: wbus_def)

text \<open>Enabling a device sets its bus master and memory space bits and no other.\<close>

lemma pci_enable_device_sets:
  assumes "\<And>w. stored p (PCI_ADDR (dbus v) (ddev v) (dfn v) PCI_COMMAND) w = w"
  shows "pci_read16 (dbus v) (ddev v) (dfn v) PCI_COMMAND (pci_enable_device v p) =
    pci_read16 (dbus v) (ddev v) (dfn v) PCI_COMMAND p OR 6"
proof -
  have "ucast ((x AND NOT 0xFFFF) OR ucast y) = y" for x :: u32 and y :: u16
  proof (rule bit_word_eqI)
    fix j assume j: "j < LENGTH(16)"
    have "(0xFFFF :: u32) = mask 16" by (simp add: mask_eq_exp_minus_1)
    then show "bit (ucast ((x AND NOT 0xFFFF) OR ucast y) :: u16) j = bit y j"
      using j by (simp only: bit_ucast_iff bit_or_iff bit_and_iff bit_not_iff bit_mask_iff possible_bit_word) auto
  qed
  then show ?thesis
    using assms by (simp add: pci_enable_device_def pci_read16_def pci_write16_def pci_write32_def Let_def or.assoc)
qed

end
