(* ===== verification/Nic.thy ===== *)
theory Nic
  imports Pci Vmm
begin

unbundle bit_operations_syntax

text \<open>
  The hardware address generator (\<^verbatim>\<open>src/kernel/anonymize.c\<close>) and the e1000 network driver
  (\<^verbatim>\<open>src/kernel/e1000.c\<close>).  Device registers are the map \<open>mmio\<close>, packet buffers are bytes of
  physical memory (\<open>dma\<close>).  The card works on the descriptor rings concurrently: the status
  byte that the driver reads in its \<open>k\<close>-th poll of a descriptor is an argument of the operation
  that polls.
\<close>

section \<open>Address generation\<close>

record anon_state =
  seed :: u64
  g_anonymized_mac :: "u8 list"

definition anonymize_rand :: "u64 \<Rightarrow> u64 \<Rightarrow> u32 \<times> u64" where
  "anonymize_rand r s =
     (let s' = s * 6364136223846793005 + r + 1442695040888963407 in (ucast (drop_bit 32 s'), s'))"

definition anonymize_init :: "u64 \<Rightarrow> u64 \<Rightarrow> anon_state \<Rightarrow> anon_state" where
  "anonymize_init tsc1 tsc2 a =
     (let (r1, s1) = anonymize_rand tsc1 (seed a);
          (r2, s2) = anonymize_rand tsc2 s1;
          mac = [ucast (r1 AND 0xFF), ucast (drop_bit 8 r1 AND 0xFF), ucast (drop_bit 16 r1 AND 0xFF),
                 ucast (drop_bit 24 r1 AND 0xFF), ucast (r2 AND 0xFF), ucast (drop_bit 8 r2 AND 0xFF)]
      in \<lparr>seed = s2, g_anonymized_mac = mac[0 := (mac ! 0 AND 0xFE) OR 0x02]\<rparr>)"

definition anonymize_get_mac :: "anon_state \<Rightarrow> u8 list" where
  "anonymize_get_mac a = g_anonymized_mac a"

definition anonymize_spoof_cpuid :: "u32 \<Rightarrow> u32 \<times> u32 \<times> u32 \<times> u32 \<Rightarrow> u32 \<times> u32 \<times> u32 \<times> u32" where
  "anonymize_spoof_cpuid leaf r =
     (if leaf = 0 then (1, 0x78797453, 0x20555043, 0x2020534F)
      else if leaf = 1 then (0x000306C3, 0x00020800, 0x7ED83203 AND NOT (push_bit 31 1), 0xBFEBFBFF)
      else r)"

section \<open>Driver state\<close>

abbreviation E1000_NUM_RX_DESC :: nat where "E1000_NUM_RX_DESC \<equiv> 64"
abbreviation E1000_NUM_TX_DESC :: nat where "E1000_NUM_TX_DESC \<equiv> 64"
abbreviation E1000_BUFFER_SIZE :: nat where "E1000_BUFFER_SIZE \<equiv> 2048"

abbreviation REG_CTRL :: u32 where "REG_CTRL \<equiv> 0x0000"
abbreviation REG_IMC :: u32 where "REG_IMC \<equiv> 0x00D8"
abbreviation REG_RCTL :: u32 where "REG_RCTL \<equiv> 0x0100"
abbreviation REG_TCTL :: u32 where "REG_TCTL \<equiv> 0x0400"
abbreviation REG_RDBAL :: u32 where "REG_RDBAL \<equiv> 0x2800"
abbreviation REG_RDBAH :: u32 where "REG_RDBAH \<equiv> 0x2804"
abbreviation REG_RDLEN :: u32 where "REG_RDLEN \<equiv> 0x2808"
abbreviation REG_RDH :: u32 where "REG_RDH \<equiv> 0x2810"
abbreviation REG_RDT :: u32 where "REG_RDT \<equiv> 0x2818"
abbreviation REG_TDBAL :: u32 where "REG_TDBAL \<equiv> 0x3800"
abbreviation REG_TDBAH :: u32 where "REG_TDBAH \<equiv> 0x3804"
abbreviation REG_TDLEN :: u32 where "REG_TDLEN \<equiv> 0x3808"
abbreviation REG_TDH :: u32 where "REG_TDH \<equiv> 0x3810"
abbreviation REG_TDT :: u32 where "REG_TDT \<equiv> 0x3818"
abbreviation REG_MTA :: u32 where "REG_MTA \<equiv> 0x5200"
abbreviation REG_RAL0 :: u32 where "REG_RAL0 \<equiv> 0x5400"
abbreviation REG_RAH0 :: u32 where "REG_RAH0 \<equiv> 0x5404"

record e1000_rx_desc =
  rx_addr :: u64
  rx_length :: u16
  rx_checksum :: u16
  rx_status :: u8
  rx_errors :: u8
  rx_special :: u16

record e1000_tx_desc =
  tx_addr :: u64
  tx_length :: u16
  tx_cso :: u8
  tx_cmd :: u8
  tx_status :: u8
  tx_css :: u8
  tx_special :: u16

record nic =
  g_mmio_base :: u64
  mmio :: "u32 \<Rightarrow> u32"
  g_rx_descs :: "e1000_rx_desc list"
  g_tx_descs :: "e1000_tx_desc list"
  g_rx_buffers :: "u64 list"
  g_tx_buffers :: "u64 list"
  g_rx_cur :: nat
  g_tx_cur :: nat
  g_e1000_active :: bool
  g_e1000_tx_count :: u32
  g_e1000_rx_count :: u32
  dma :: "u64 \<Rightarrow> u8"

definition mmio_read32 :: "u32 \<Rightarrow> nic \<Rightarrow> u32" where
  "mmio_read32 r n = mmio n r"

definition mmio_write32 :: "u32 \<Rightarrow> u32 \<Rightarrow> nic \<Rightarrow> nic" where
  "mmio_write32 r v n = n\<lparr>mmio := (mmio n)(r := v)\<rparr>"

definition dma_write :: "u64 \<Rightarrow> u8 list \<Rightarrow> (u64 \<Rightarrow> u8) \<Rightarrow> (u64 \<Rightarrow> u8)" where
  "dma_write a bs m = (\<lambda>x. if unat (x - a) < length bs then bs ! unat (x - a) else m x)"

definition dma_read :: "u64 \<Rightarrow> nat \<Rightarrow> (u64 \<Rightarrow> u8) \<Rightarrow> u8 list" where
  "dma_read a len m = map (\<lambda>i. m (a + word_of_nat i)) [0..<len]"

section \<open>Initialisation\<close>

text \<open>The card's register window is mapped page by page; frames for the descriptor rings and the packet buffers come
  from the frame allocator, whose NULL result the driver does not check.\<close>

fun e1000_alloc_frames :: "nat \<Rightarrow> vmm_state \<Rightarrow> u64 list \<times> vmm_state" where
  "e1000_alloc_frames 0 v = ([], v)"
| "e1000_alloc_frames (Suc k) v =
     (let (phys, pm) = pmm_alloc_frame (pmm v);
          (rest, v') = e1000_alloc_frames k (v\<lparr>pmm := pm\<rparr>)
      in (word_of_nat phys # rest, v'))"

definition e1000_bar_pages :: "pci_device \<Rightarrow> nat" where
  "e1000_bar_pages d =
     (let n = unat ((bar0_size d + 0xFFF) div 0x1000) in if n = 0 then 32 else n)"

definition e1000_program :: "anon_state \<Rightarrow> nic \<Rightarrow> nic" where
  "e1000_program a n =
     (let n1 = mmio_write32 REG_CTRL (mmio_read32 REG_CTRL n OR push_bit 26 1) n;
          n2 = mmio_write32 REG_IMC 0xFFFFFFFF n1;
          mac = anonymize_get_mac a;
          ral = ucast (mac ! 0) OR push_bit 8 (ucast (mac ! 1)) OR push_bit 16 (ucast (mac ! 2)) OR push_bit 24 (ucast (mac ! 3));
          rah = ucast (mac ! 4) OR push_bit 8 (ucast (mac ! 5)) OR push_bit 31 1;
          n3 = mmio_write32 REG_RAH0 rah (mmio_write32 REG_RAL0 ral n2)
      in fold (\<lambda>i. mmio_write32 (REG_MTA + word_of_nat (i * 4)) 0) [0..<128] n3)"

definition e1000_ring_regs :: "u32 \<Rightarrow> u64 \<Rightarrow> nat \<Rightarrow> nic \<Rightarrow> nic" where
  "e1000_ring_regs lo phys n_desc n =
     mmio_write32 (lo + 16) 0 (mmio_write32 (lo + 8) (word_of_nat (n_desc * 16))
       (mmio_write32 (lo + 4) (ucast (drop_bit 32 phys)) (mmio_write32 lo (ucast (phys AND 0xFFFFFFFF)) n)))"

definition e1000_init ::
  "anon_state \<Rightarrow> pci_bus \<Rightarrow> vmm_state \<Rightarrow> nic \<Rightarrow> (bool \<times> pci_bus \<times> vmm_state \<times> nic) option" where
  "e1000_init a p v n =
     (case pci_find_e1000 p of
        (None, p1) \<Rightarrow> Some (False, p1, v, n)
      | (Some d, p1) \<Rightarrow>
          let p2 = pci_enable_device d p1;
              hhdm = vmm_get_hhdm_offset v
          in case vmm_map_pages (run_pages (hhdm + bar0 d) (bar0 d) (e1000_bar_pages d)) v of
               None \<Rightarrow> None
             | Some v1 \<Rightarrow>
                 let n1 = e1000_program a (n\<lparr>g_mmio_base := bar0 d + hhdm\<rparr>);
                     (rx_ring, v2) = e1000_alloc_frames 1 v1;
                     (rx_frames, v3) = e1000_alloc_frames E1000_NUM_RX_DESC v2;
                     n2 = n1\<lparr>g_rx_buffers := map (\<lambda>f. f + hhdm) rx_frames,
                             g_rx_descs := map (\<lambda>f. \<lparr>rx_addr = f, rx_length = 0, rx_checksum = 0, rx_status = 0,
                                                     rx_errors = 0, rx_special = 0\<rparr>) rx_frames\<rparr>;
                     n3 = mmio_write32 REG_RDT (word_of_nat (E1000_NUM_RX_DESC - 1))
                            (e1000_ring_regs REG_RDBAL (rx_ring ! 0) E1000_NUM_RX_DESC n2);
                     n4 = mmio_write32 REG_RCTL (push_bit 1 1 OR push_bit 3 1 OR push_bit 15 1) (n3\<lparr>g_rx_cur := 0\<rparr>);
                     (tx_ring, v4) = e1000_alloc_frames 1 v3;
                     (tx_frames, v5) = e1000_alloc_frames E1000_NUM_TX_DESC v4;
                     n5 = n4\<lparr>g_tx_buffers := map (\<lambda>f. f + hhdm) tx_frames,
                             g_tx_descs := map (\<lambda>f. \<lparr>tx_addr = f, tx_length = 0, tx_cso = 0, tx_cmd = 0, tx_status = 1,
                                                     tx_css = 0, tx_special = 0\<rparr>) tx_frames\<rparr>;
                     n6 = mmio_write32 REG_TDT 0 (e1000_ring_regs REG_TDBAL (tx_ring ! 0) E1000_NUM_TX_DESC n5);
                     n7 = mmio_write32 REG_TCTL (push_bit 1 1 OR push_bit 3 1 OR push_bit 4 0x0F OR push_bit 12 0x40)
                            (n6\<lparr>g_tx_cur := 0\<rparr>)
                 in Some (True, p2, v5, n7\<lparr>g_e1000_active := True\<rparr>))"

section \<open>Traffic\<close>

text \<open>The bounded wait for a free descriptor: the number of polls before the loop is left.\<close>

fun e1000_wait :: "(nat \<Rightarrow> u8) \<Rightarrow> nat \<Rightarrow> nat \<Rightarrow> nat" where
  "e1000_wait polls 0 k = k"
| "e1000_wait polls (Suc retries) k =
     (if polls k AND 1 \<noteq> 0 then k
      else if retries = 0 then Suc k
      else e1000_wait polls retries (Suc k))"

definition e1000_send_packet :: "(nat \<Rightarrow> u8) \<Rightarrow> u8 list \<Rightarrow> nic \<Rightarrow> bool \<times> nic" where
  "e1000_send_packet polls data n =
     (if \<not> g_e1000_active n \<or> length data = 0 \<or> length data > E1000_BUFFER_SIZE then (False, n)
      else
        let idx = g_tx_cur n in
        if polls (e1000_wait polls 100000 0) AND 1 = 0 then (False, n)
        else
          let desc = (g_tx_descs n ! idx)\<lparr>tx_length := word_of_nat (length data), tx_status := 0, tx_cmd := 0x0B\<rparr>;
              cur = (g_tx_cur n + 1) mod E1000_NUM_TX_DESC;
              n1 = n\<lparr>dma := dma_write (g_tx_buffers n ! idx) data (dma n),
                     g_tx_descs := (g_tx_descs n)[idx := desc], g_tx_cur := cur\<rparr>;
              n2 = mmio_write32 REG_TDT (word_of_nat cur) n1
          in (True, n2\<lparr>g_e1000_tx_count := g_e1000_tx_count n + 1\<rparr>))"

definition e1000_poll_packet :: "u8 \<Rightarrow> u16 \<Rightarrow> nic \<Rightarrow> u8 list option \<times> nic" where
  "e1000_poll_packet status pkt_len n =
     (if \<not> g_e1000_active n then (None, n)
      else
        let idx = g_rx_cur n in
        if status AND 1 = 0 then (None, n)
        else
          let out = dma_read (g_rx_buffers n ! idx) (unat pkt_len) (dma n);
              n1 = n\<lparr>g_rx_descs := (g_rx_descs n)[idx := (g_rx_descs n ! idx)\<lparr>rx_status := 0\<rparr>],
                     g_rx_cur := (g_rx_cur n + 1) mod E1000_NUM_RX_DESC\<rparr>;
              n2 = mmio_write32 REG_RDT (word_of_nat idx) n1
          in (Some out, n2\<lparr>g_e1000_rx_count := g_e1000_rx_count n + 1\<rparr>))"

definition e1000_disable :: "nic \<Rightarrow> nic" where
  "e1000_disable n =
     (if g_mmio_base n = 0 then n
      else (mmio_write32 REG_IMC 0xFFFFFFFF (mmio_write32 REG_TCTL 0 (mmio_write32 REG_RCTL 0 n)))
             \<lparr>g_e1000_active := False\<rparr>)"

section \<open>Buffers\<close>

lemma dma_read_write_same:
  "length bs < 2 ^ 64 \<Longrightarrow> dma_read a (length bs) (dma_write a bs m) = bs"
  by (rule nth_equalityI) (auto simp: dma_read_def dma_write_def unat_of_nat take_bit_nat_eq_self)

text \<open>Two buffers are apart when each starts at least a buffer size before or after the other.\<close>

definition apart :: "u64 \<Rightarrow> u64 \<Rightarrow> bool" where
  "apart a b = (E1000_BUFFER_SIZE \<le> unat (a - b) \<and> E1000_BUFFER_SIZE \<le> unat (b - a))"

lemma dma_write_apart:
  assumes "apart a b" "length bs \<le> E1000_BUFFER_SIZE" "k < E1000_BUFFER_SIZE"
  shows "dma_write a bs m (b + word_of_nat k) = m (b + word_of_nat k)"
proof -
  have "a \<noteq> b" using assms(1) by (auto simp: apart_def)
  then have "unat (a - b) + unat (b - a) = 2 ^ 64"
    using unat_sub_if_size [of a b] unat_sub_if_size [of b a] unsigned_less [of a, where ?'a = nat] unsigned_less [of b, where ?'a = nat]
    by (auto simp: word_size word_le_nat_alt word_unat_eq_iff split: if_splits)
  then have "unat (b - a) + k < 2 ^ 64"
    using assms(1,3) by (simp add: apart_def)
  then have "unat (b - a + word_of_nat k) = unat (b - a) + k"
    using assms(3) by (simp add: unat_plus_if_size unat_of_nat take_bit_nat_eq_self word_size)
  then have "E1000_BUFFER_SIZE \<le> unat (b + word_of_nat k - a)"
    using assms(1) by (simp add: apart_def algebra_simps)
  then show ?thesis
    using assms(2) by (simp add: dma_write_def)
qed

lemma dma_read_apart:
  "apart a b \<Longrightarrow> length bs \<le> E1000_BUFFER_SIZE \<Longrightarrow> len \<le> E1000_BUFFER_SIZE \<Longrightarrow>
   dma_read b len (dma_write a bs m) = dma_read b len m"
  by (rule nth_equalityI) (auto simp: dma_read_def dma_write_apart)

section \<open>Driver properties\<close>

definition nic_wf :: "nic \<Rightarrow> bool" where
  "nic_wf n =
     (length (g_tx_descs n) = E1000_NUM_TX_DESC \<and> length (g_tx_buffers n) = E1000_NUM_TX_DESC \<and>
      length (g_rx_descs n) = E1000_NUM_RX_DESC \<and> length (g_rx_buffers n) = E1000_NUM_RX_DESC \<and>
      g_tx_cur n < E1000_NUM_TX_DESC \<and> g_rx_cur n < E1000_NUM_RX_DESC \<and>
      (\<forall>i<E1000_NUM_TX_DESC. \<forall>j<E1000_NUM_TX_DESC. i \<noteq> j \<longrightarrow> apart (g_tx_buffers n ! i) (g_tx_buffers n ! j)))"

lemma e1000_wait_bound: "k \<le> e1000_wait polls r k \<and> e1000_wait polls r k \<le> k + r"
  by (induction polls r k rule: e1000_wait.induct) auto

text \<open>The wait ends at the first poll that finds the descriptor done, if one of the first polls does.\<close>

lemma e1000_wait_finds:
  "polls (k + i) AND 1 \<noteq> 0 \<Longrightarrow> i < r \<Longrightarrow> polls (e1000_wait polls r k) AND 1 \<noteq> 0"
proof (induction polls r k arbitrary: i rule: e1000_wait.induct)
  case (2 polls r k)
  show ?case
  proof (cases "polls k AND 1 = 0")
    case True
    then obtain i' where "i = Suc i'" using 2(2) by (cases i) auto
    then show ?thesis using 2 True by (cases "r = 0") auto
  qed simp
qed simp

text \<open>transmission is exact.  A packet that is accepted is, byte for byte, in the buffer of the descriptor it was
  queued on, that descriptor carries its length and is handed to the card, and no other descriptor and no
  other packet buffer of the ring is touched; a packet that is refused changes nothing.\<close>

theorem e1000_send_packet_exact:
  assumes "nic_wf n" "e1000_send_packet polls data n = (ok, n')"
  shows "nic_wf n' \<and> (\<not> ok \<longrightarrow> n' = n) \<and>
    (ok \<longrightarrow> 0 < length data \<and> length data \<le> E1000_BUFFER_SIZE \<and>
       unat (tx_length (g_tx_descs n' ! g_tx_cur n)) = length data \<and> tx_status (g_tx_descs n' ! g_tx_cur n) = 0 \<and>
       dma_read (g_tx_buffers n' ! g_tx_cur n) (length data) (dma n') = data \<and>
       mmio n' REG_TDT = word_of_nat ((g_tx_cur n + 1) mod E1000_NUM_TX_DESC) \<and>
       (\<forall>i<E1000_NUM_TX_DESC. i \<noteq> g_tx_cur n \<longrightarrow> g_tx_descs n' ! i = g_tx_descs n ! i \<and>
          dma_read (g_tx_buffers n' ! i) E1000_BUFFER_SIZE (dma n') = dma_read (g_tx_buffers n ! i) E1000_BUFFER_SIZE (dma n)))"
proof (cases ok)
  case False
  then show ?thesis
    using assms by (auto simp: e1000_send_packet_def Let_def split: if_splits)
next
  case True
  let ?i = "g_tx_cur n"
  have len: "0 < length data" "length data \<le> E1000_BUFFER_SIZE"
    and n': "n' = (mmio_write32 REG_TDT (word_of_nat ((?i + 1) mod E1000_NUM_TX_DESC))
        (n\<lparr>dma := dma_write (g_tx_buffers n ! ?i) data (dma n),
           g_tx_descs := (g_tx_descs n)[?i := (g_tx_descs n ! ?i)\<lparr>tx_length := word_of_nat (length data), tx_status := 0, tx_cmd := 0x0B\<rparr>],
           g_tx_cur := (?i + 1) mod E1000_NUM_TX_DESC\<rparr>))\<lparr>g_e1000_tx_count := g_e1000_tx_count n + 1\<rparr>"
    using assms(2) True by (auto simp: e1000_send_packet_def Let_def mmio_write32_def split: if_splits)
  have wf: "?i < E1000_NUM_TX_DESC" "length (g_tx_descs n) = E1000_NUM_TX_DESC"
      "\<And>j. j < E1000_NUM_TX_DESC \<Longrightarrow> j \<noteq> ?i \<Longrightarrow> apart (g_tx_buffers n ! ?i) (g_tx_buffers n ! j)"
    using assms(1) by (auto simp: nic_wf_def)
  have "nic_wf n'"
    using assms(1) by (simp add: n' nic_wf_def mmio_write32_def)
  moreover have "unat (word_of_nat (length data) :: u16) = length data"
    using len by (simp add: unat_of_nat take_bit_nat_eq_self)
  moreover have "dma_read (g_tx_buffers n ! ?i) (length data) (dma n') = data"
    using len by (simp add: n' mmio_write32_def dma_read_write_same)
  moreover have "dma_read (g_tx_buffers n ! j) E1000_BUFFER_SIZE (dma n') = dma_read (g_tx_buffers n ! j) E1000_BUFFER_SIZE (dma n)"
    if "j < E1000_NUM_TX_DESC" "j \<noteq> ?i" for j
    using wf(3) [OF that] len by (simp add: n' mmio_write32_def dma_read_apart)
  ultimately show ?thesis
    using True len wf by (simp add: n' mmio_write32_def)
qed

definition wnic :: nic where
  "wnic = \<lparr>g_mmio_base = 1, mmio = (\<lambda>_. 0),
     g_rx_descs = replicate 64 \<lparr>rx_addr = 0, rx_length = 0, rx_checksum = 0, rx_status = 0, rx_errors = 0, rx_special = 0\<rparr>,
     g_tx_descs = replicate 64 \<lparr>tx_addr = 0, tx_length = 0, tx_cso = 0, tx_cmd = 0, tx_status = 1, tx_css = 0, tx_special = 0\<rparr>,
     g_rx_buffers = map (\<lambda>i. word_of_nat (4096 * i)) [64..<128],
     g_tx_buffers = map (\<lambda>i. word_of_nat (4096 * i)) [0..<64],
     g_rx_cur = 0, g_tx_cur = 63, g_e1000_active = True, g_e1000_tx_count = 0, g_e1000_rx_count = 0, dma = (\<lambda>_. 0)\<rparr>"

lemma wnic_wf: "nic_wf wnic"
proof -
  have "E1000_BUFFER_SIZE \<le> unat (word_of_nat (4096 * i) - word_of_nat (4096 * j) :: u64)"
    if "i < 64" "j < 64" "i \<noteq> j" for i j :: nat
  proof -
    have "unat (word_of_nat (4096 * x) :: u64) = 4096 * x" if "x < 64" for x
      using that by (simp only: unat_of_nat) (simp add: take_bit_nat_eq_self)
    then show ?thesis
      using that unat_sub_if_size [of "word_of_nat (4096 * i) :: u64" "word_of_nat (4096 * j)"]
      by (auto simp: word_size word_le_nat_alt simp del: of_nat_mult split: if_splits)
  qed
  then show ?thesis
    by (simp add: nic_wf_def wnic_def apart_def del: of_nat_mult)
qed

theorem e1000_send_packet_exact_witness:
  "\<exists>n'. e1000_send_packet (\<lambda>_. 1) [1, 2, 3] wnic = (True, n') \<and> nic_wf n' \<and> mmio n' REG_TDT = 0 \<and>
     dma_read (g_tx_buffers n' ! 63) 3 (dma n') = [1, 2, 3]"
proof -
  obtain n' where n': "e1000_send_packet (\<lambda>_. 1) [1, 2, 3] wnic = (True, n')"
    by (auto simp: e1000_send_packet_def wnic_def Let_def)
  show ?thesis
    using e1000_send_packet_exact [OF wnic_wf n'] n' by (auto simp: wnic_def numeral_3_eq_3)
qed

text \<open>the kill switch holds: once the card has been disabled, every attempt to send or to receive is refused and
  changes nothing, and receiver and transmitter are switched off in the card's control registers.\<close>

theorem e1000_kill_switch:
  assumes "g_mmio_base n \<noteq> 0"
  shows "mmio (e1000_disable n) REG_RCTL = 0 \<and> mmio (e1000_disable n) REG_TCTL = 0 \<and>
    e1000_send_packet polls data (e1000_disable n) = (False, e1000_disable n) \<and>
    e1000_poll_packet status len (e1000_disable n) = (None, e1000_disable n)"
  using assms by (simp add: e1000_disable_def e1000_send_packet_def e1000_poll_packet_def mmio_write32_def)

theorem e1000_kill_switch_witness:
  "e1000_send_packet (\<lambda>_. 1) [1] (e1000_disable wnic) = (False, e1000_disable wnic)"
  using e1000_kill_switch [of wnic "\<lambda>_. 1" "[1]"] by (simp add: wnic_def)

text \<open>The generated hardware address is a locally administered unicast address.\<close>

lemma anonymize_init_local_unicast:
  "length (anonymize_get_mac (anonymize_init t1 t2 a)) = 6 \<and>
   \<not> bit (anonymize_get_mac (anonymize_init t1 t2 a) ! 0) 0 \<and> bit (anonymize_get_mac (anonymize_init t1 t2 a) ! 0) 1"
proof -
  have "\<not> bit ((x AND 0xFE) OR 0x02) 0 \<and> bit ((x AND 0xFE) OR 0x02) 1" for x :: u8
    by (simp add: bit_or_iff bit_and_iff)
  then show ?thesis
    by (simp add: anonymize_get_mac_def anonymize_init_def Let_def split: prod.splits)
qed

text \<open>The reported processor features never show a hypervisor.\<close>

lemma anonymize_spoof_hides_hypervisor:
  "case anonymize_spoof_cpuid 1 r of (eax, ebx, ecx, edx) \<Rightarrow> \<not> bit ecx 31"
  by (simp add: anonymize_spoof_cpuid_def)

end
