(* ===== verification/Net.thy ===== *)
theory Net
  imports Nic Rng
begin

unbundle bit_operations_syntax

text \<open>
  Frame construction (\<^verbatim>\<open>src/kernel/net_proto.c\<close>) and traffic padding
  (\<^verbatim>\<open>src/kernel/padding.c\<close>).  A frame builder returns the bytes it wrote; the
  empty list stands for its error result 0.  A payload pointer that may be NULL is an option.
  The status bytes that a transmission polls from the card are the argument \<open>polls\<close>.
\<close>

section \<open>Byte order and checksums\<close>

abbreviation NET_ETH_HDR_LEN :: nat where "NET_ETH_HDR_LEN \<equiv> 14"
abbreviation NET_IP_HDR_LEN :: nat where "NET_IP_HDR_LEN \<equiv> 20"
abbreviation NET_UDP_HDR_LEN :: nat where "NET_UDP_HDR_LEN \<equiv> 8"
abbreviation NET_TCP_HDR_LEN :: nat where "NET_TCP_HDR_LEN \<equiv> 20"
abbreviation NET_MAX_FRAME :: nat where "NET_MAX_FRAME \<equiv> 1514"
abbreviation NET_UDP_PAYLOAD_MAX :: nat where "NET_UDP_PAYLOAD_MAX \<equiv> 1472"
abbreviation NET_TCP_PAYLOAD_MAX :: nat where "NET_TCP_PAYLOAD_MAX \<equiv> 1460"

definition hton16 :: "u16 \<Rightarrow> u16" where
  "hton16 v = drop_bit 8 v OR push_bit 8 v"

definition hton32 :: "u32 \<Rightarrow> u32" where
  "hton32 v = push_bit 24 (v AND 0x000000FF) OR push_bit 8 (v AND 0x0000FF00) OR
              drop_bit 8 (v AND 0x00FF0000) OR drop_bit 24 (v AND 0xFF000000)"

fun checksum_add :: "u32 \<Rightarrow> u8 list \<Rightarrow> u32" where
  "checksum_add acc [] = acc"
| "checksum_add acc [b] = acc + ucast (push_bit 8 (ucast b) :: u16)"
| "checksum_add acc (a # b # r) = checksum_add (acc + ucast (push_bit 8 (ucast a) OR ucast b :: u16)) r"

lemma fold16_decreases:
  fixes s :: u32
  assumes "drop_bit 16 s \<noteq> 0"
  shows "unat ((s AND 0xFFFF) + drop_bit 16 s) = unat s mod 65536 + unat s div 65536"
    and "unat ((s AND 0xFFFF) + drop_bit 16 s) < unat s"
proof -
  have m: "s AND 0xFFFF = take_bit 16 s" by (simp add: take_bit_eq_mask mask_eq_exp_minus_1)
  have lo: "unat (s AND 0xFFFF) = unat s mod 65536"
    unfolding m unsigned_take_bit_eq by (simp add: take_bit_eq_mod)
  have hi: "unat (drop_bit 16 s) = unat s div 65536"
    unfolding unsigned_drop_bit_eq using unsigned_less [of s, where ?'a = nat]
    by (simp add: drop_bit_eq_div take_bit_nat_eq_self)
  have "unat s div 65536 < 65536" using unsigned_less [of s, where ?'a = nat] by auto
  then show eq: "unat ((s AND 0xFFFF) + drop_bit 16 s) = unat s mod 65536 + unat s div 65536"
    using lo hi mod_less_divisor [of 65536 "unat s"] by (simp add: unat_plus_if_size word_size)
  have "unat s div 65536 \<noteq> 0" using assms hi by (metis unat_eq_zero)
  then show "unat ((s AND 0xFFFF) + drop_bit 16 s) < unat s"
    unfolding eq using div_mult_mod_eq [of "unat s" 65536] by linarith
qed

function fold16 :: "u32 \<Rightarrow> u32" where
  "fold16 s = (if drop_bit 16 s = 0 then s else fold16 ((s AND 0xFFFF) + drop_bit 16 s))"
  by pat_completeness auto
termination by (relation "measure unat") (simp, metis in_measure fold16_decreases(2))

declare fold16.simps [simp del]

definition ip_checksum :: "u8 list \<Rightarrow> u16" where
  "ip_checksum hdr = ucast (NOT (fold16 (checksum_add 0 hdr)))"

section \<open>Frames\<close>

definition ip_header :: "u8 \<Rightarrow> u8 \<Rightarrow> u16 \<Rightarrow> u32 \<Rightarrow> u32 \<Rightarrow> u8 list" where
  "ip_header ident proto total_len src_ip dst_ip =
     (let p = [0x45, 0x00] @ be_bytes 2 total_len @ [0x00, ident, 0x40, 0x00, 64, proto, 0, 0] @
              be_bytes 4 src_ip @ be_bytes 4 dst_ip;
          ip_csum = ip_checksum p
      in p[10 := ucast (drop_bit 8 ip_csum), 11 := ucast ip_csum])"

definition net_build_udp ::
  "u8 list \<Rightarrow> u8 list \<Rightarrow> u32 \<Rightarrow> u32 \<Rightarrow> u16 \<Rightarrow> u16 \<Rightarrow> u8 list option \<Rightarrow> u8 list" where
  "net_build_udp src_mac dst_mac src_ip dst_ip src_port dst_port payload =
     (case payload of
        None \<Rightarrow> []
      | Some pl \<Rightarrow>
          if length pl = 0 \<or> length pl > NET_UDP_PAYLOAD_MAX then []
          else
            let total_len = word_of_nat (NET_IP_HDR_LEN + NET_UDP_HDR_LEN + length pl);
                udp_len = word_of_nat (NET_UDP_HDR_LEN + length pl) :: u16
            in dst_mac @ src_mac @ [0x08, 0x00] @ ip_header 1 17 total_len src_ip dst_ip @
               be_bytes 2 src_port @ be_bytes 2 dst_port @ be_bytes 2 udp_len @ [0, 0] @ pl)"

definition tcp_pseudo_sum :: "u32 \<Rightarrow> u32 \<Rightarrow> u16 \<Rightarrow> u32" where
  "tcp_pseudo_sum src_ip dst_ip tcp_len =
     (drop_bit 16 src_ip AND 0xFFFF) + (src_ip AND 0xFFFF) +
     (drop_bit 16 dst_ip AND 0xFFFF) + (dst_ip AND 0xFFFF) + 6 + ucast tcp_len"

definition net_build_tcp ::
  "u8 list \<Rightarrow> u8 list \<Rightarrow> u32 \<Rightarrow> u32 \<Rightarrow> u16 \<Rightarrow> u16 \<Rightarrow> u32 \<Rightarrow> u32 \<Rightarrow> u8 \<Rightarrow> u16 \<Rightarrow> u8 list \<Rightarrow> u8 list" where
  "net_build_tcp src_mac dst_mac src_ip dst_ip src_port dst_port seq_num ack_num flags window_size pl =
     (if length pl > NET_TCP_PAYLOAD_MAX then []
      else
        let total_len = word_of_nat (NET_IP_HDR_LEN + NET_TCP_HDR_LEN + length pl);
            seg = be_bytes 2 src_port @ be_bytes 2 dst_port @ be_bytes 4 seq_num @ be_bytes 4 ack_num @
                  [0x50, flags] @ be_bytes 2 window_size @ [0, 0, 0, 0] @ pl;
            tcp_len = word_of_nat (NET_TCP_HDR_LEN + length pl);
            sum = checksum_add (tcp_pseudo_sum src_ip dst_ip tcp_len) seg;
            tcp_csum = ucast (NOT (fold16 sum)) :: u16
        in dst_mac @ src_mac @ [0x08, 0x00] @ ip_header 2 6 total_len src_ip dst_ip @
           seg[16 := ucast (drop_bit 8 tcp_csum), 17 := ucast tcp_csum])"

definition net_build_udp_broadcast :: "u8 list \<Rightarrow> u16 \<Rightarrow> u16 \<Rightarrow> u8 list option \<Rightarrow> u8 list" where
  "net_build_udp_broadcast src_mac src_port dst_port payload =
     net_build_udp src_mac (replicate 6 0xFF) 0xC0A80164 0xFFFFFFFF src_port dst_port payload"

definition gw_mac :: "u8 list" where
  "gw_mac = [0x52, 0x55, 0x0A, 0x00, 0x02, 0x02]"

definition ascii :: "string \<Rightarrow> u8 list" where
  "ascii s = map (\<lambda>c. word_of_nat (of_char c)) s"

definition beacon_payload :: "u8 list option \<Rightarrow> u8 list" where
  \<open>beacon_payload reason =
     ascii ''{"event":"TAMPER","node":"STYXOS_NODE","reason":"'' @
     (case reason of None \<Rightarrow> [] | Some r \<Rightarrow> take 128 r) @
     ascii ''","action":"SELF_DESTRUCT"}''\<close>

definition net_send_beacon :: "(nat \<Rightarrow> u8) \<Rightarrow> anon_state \<Rightarrow> u8 list option \<Rightarrow> nic \<Rightarrow> bool \<times> nic" where
  "net_send_beacon polls a reason n =
     (if \<not> g_e1000_active n then (False, n)
      else
        let frame = net_build_udp (anonymize_get_mac a) gw_mac 0xC0A80164 0xC0A80101 12345 4444
                      (Some (beacon_payload reason))
        in if length frame = 0 then (False, n) else e1000_send_packet polls frame n)"

section \<open>Padding\<close>

record net_state =
  ncard :: nic
  anon :: anon_state
  rand :: rng
  g_padding_packets_sent :: u32
  g_padding_boost_active :: bool
  g_last_padding_ticks :: u64

definition padding_init :: "net_state \<Rightarrow> net_state" where
  "padding_init s = s\<lparr>g_padding_packets_sent := 0, g_padding_boost_active := False, g_last_padding_ticks := 0\<rparr>"

definition padding_boost :: "bool \<Rightarrow> net_state \<Rightarrow> net_state" where
  "padding_boost boost s = s\<lparr>g_padding_boost_active := boost\<rparr>"

definition padding_frame :: "net_state \<Rightarrow> u8 list \<times> net_state" where
  "padding_frame s =
     (let (x, r1) = rng_u32 (rand s);
          len = 64 + x mod 193;
          (payload, r2) = rng_bytes (unat len) r1;
          (y, r3) = rng_u32 r2;
          (z, r4) = rng_u32 r3;
          frame = net_build_udp (anonymize_get_mac (anon s)) (replicate 6 0xFF) 0xC0A80164 0xFFFFFFFF
                    (ucast (10000 + y mod 5000)) (ucast (20000 + z mod 5000)) (Some payload)
      in (frame, s\<lparr>rand := r4\<rparr>))"

definition padding_send :: "(nat \<Rightarrow> u8) \<Rightarrow> net_state \<Rightarrow> bool \<times> net_state" where
  "padding_send polls s =
     (let (frame, s1) = padding_frame s in
      if length frame = 0 then (False, s1)
      else
        let (ok, n) = e1000_send_packet polls frame (ncard s1); s2 = s1\<lparr>ncard := n\<rparr> in
        if ok then (True, s2\<lparr>g_padding_packets_sent := g_padding_packets_sent s2 + 1\<rparr>) else (False, s2))"

definition padding_inject_noise :: "(nat \<Rightarrow> u8) \<Rightarrow> net_state \<Rightarrow> bool \<times> net_state" where
  "padding_inject_noise polls s = padding_send polls s"

definition padding_tick :: "(nat \<Rightarrow> u8) \<Rightarrow> u64 \<Rightarrow> net_state \<Rightarrow> net_state" where
  "padding_tick polls t s =
     (if \<not> g_e1000_active (ncard s) then s
      else
        let interval = (if g_padding_boost_active s then 5 else 20) in
        if t - g_last_padding_ticks s \<ge> interval
        then snd (padding_send polls (s\<lparr>g_last_padding_ticks := t\<rparr>))
        else s)"

section \<open>One's complement arithmetic\<close>

text \<open>The sum of the big-endian 16-bit words of a byte string, as a number.\<close>

fun wsum :: "u8 list \<Rightarrow> nat" where
  "wsum [] = 0"
| "wsum [b] = 256 * unat b"
| "wsum (a # b # r) = 256 * unat a + unat b + wsum r"

lemma unat_word_of_nat: "n < 2 ^ LENGTH('a) \<Longrightarrow> unat (word_of_nat n :: 'a::len word) = n"
  by (simp add: unat_of_nat take_bit_nat_eq_self)

lemma unat_u8: "unat (b :: u8) < 256"
  using unsigned_less [of b, where ?'a = nat] by simp

lemma unat_be16: "unat (push_bit 8 (ucast a) OR ucast b :: u16) = 256 * unat a + unat b" for a b :: u8
proof -
  have "(push_bit 8 (ucast a) OR ucast b :: u16) = push_bit 8 (ucast a) + ucast b"
  proof (rule disjunctive_add [symmetric])
    fix n show "\<not> bit (push_bit 8 (ucast a) :: u16) n \<or> \<not> bit (ucast b :: u16) n"
      using bit_imp_le_length [of b n] by (auto simp: bit_push_bit_iff bit_ucast_iff)
  qed
  moreover have "unat (push_bit 8 (ucast a) :: u16) = 256 * unat a"
    unfolding unsigned_push_bit_eq unsigned_ucast_eq using unat_u8 [of a]
    by (simp add: push_bit_eq_mult take_bit_nat_eq_self)
  ultimately show ?thesis
    using unat_u8 [of a] unat_u8 [of b] by (simp add: unat_plus_if_size word_size unsigned_ucast_eq take_bit_nat_eq_self)
qed

lemma wsum_le: "2 * wsum bs \<le> 65535 * (length bs + 1)"
proof (induction bs rule: wsum.induct)
  case (2 b) show ?case using unat_u8 [of b] by simp
next
  case (3 a b r) then show ?case using unat_u8 [of a] unat_u8 [of b] by simp
qed simp

lemma wsum_append: "even (length xs) \<Longrightarrow> wsum (xs @ ys) = wsum xs + wsum ys"
  by (induction xs rule: wsum.induct) auto

lemma unat_checksum_add:
  "unat acc + wsum bs < 2 ^ 32 \<Longrightarrow> unat (checksum_add acc bs) = unat acc + wsum bs"
proof (induction acc bs rule: checksum_add.induct)
  case (2 acc b)
  have "unat (ucast (push_bit 8 (ucast b) :: u16) :: u32) = 256 * unat b"
    using unat_be16 [of b 0] unat_u8 [of b] by (simp add: unsigned_ucast_eq take_bit_nat_eq_self)
  then show ?case using 2 by (simp add: unat_plus_if_size word_size)
next
  case (3 acc a b r)
  have "unat (ucast (push_bit 8 (ucast a) OR ucast b :: u16) :: u32) = 256 * unat a + unat b"
    using unat_be16 [of a b] unat_u8 [of a] unat_u8 [of b] by (simp add: unsigned_ucast_eq take_bit_nat_eq_self)
  then have "unat (acc + ucast (push_bit 8 (ucast a) OR ucast b :: u16)) = unat acc + (256 * unat a + unat b)"
    using 3(2) by (simp add: unat_plus_if_size word_size)
  then show ?case using 3 by simp
qed simp

lemma fold_mod: "(m mod 65536 + m div 65536) mod 65535 = m mod 65535" for m :: nat
proof -
  have "m = (m mod 65536 + m div 65536) + 65535 * (m div 65536)"
    using div_mult_mod_eq [of m 65536] by linarith
  then show ?thesis by (metis mod_mult_self2)
qed

lemma unat_fold16:
  "unat (fold16 s) < 65536 \<and> unat (fold16 s) mod 65535 = unat s mod 65535 \<and> (s \<noteq> 0 \<longrightarrow> fold16 s \<noteq> 0)"
proof (induction s rule: fold16.induct)
  case (1 s)
  show ?case
  proof (cases "drop_bit 16 s = 0")
    case True
    have "unat (drop_bit 16 s) = unat s div 65536"
      unfolding unsigned_drop_bit_eq using unsigned_less [of s, where ?'a = nat]
      by (simp add: drop_bit_eq_div take_bit_nat_eq_self)
    then have "unat s < 65536" using True by (simp add: div_eq_0_iff)
    moreover have "fold16 s = s" using True by (subst fold16.simps) simp
    ultimately show ?thesis by simp
  next
    case False
    let ?t = "(s AND 0xFFFF) + drop_bit 16 s"
    have t: "unat ?t = unat s mod 65536 + unat s div 65536" using fold16_decreases(1) [OF False] .
    have "unat ?t mod 65535 = unat s mod 65535" unfolding t by (rule fold_mod)
    moreover have "?t \<noteq> 0"
    proof
      assume "?t = 0"
      then have "unat s div 65536 = 0" "unat s mod 65536 = 0" using t by simp_all
      then have "unat s = 0" using div_mult_mod_eq [of "unat s" 65536] by simp
      then show False using False by (simp add: unat_eq_zero)
    qed
    moreover have "fold16 s = fold16 ?t" using False by (subst fold16.simps) (simp only: if_False)
    ultimately show ?thesis using 1 [OF False] by (simp only: simp_thms)
  qed
qed

lemma unat_not_low: "unat x < 65536 \<Longrightarrow> unat (ucast (NOT x) :: u16) = 65535 - unat x" for x :: u32
proof -
  assume x: "unat x < 65536"
  have "(ucast (NOT x) :: u16) = NOT (ucast x)"
    by (rule bit_word_eqI) (auto simp: bit_ucast_iff bit_not_iff)
  moreover have "unat (NOT y) = 65535 - unat y" for y :: u16
  proof -
    have e: "NOT y = - 1 - y" by (simp add: not_eq_complement)
    have "unat (NOT y) = unat (- 1 :: u16) - unat y" unfolding e by (rule unat_sub) simp
    then show ?thesis by (simp add: unsigned_minus_1_eq_mask mask_eq_exp_minus_1)
  qed
  moreover have "unat (ucast x :: u16) = unat x" using x by (simp add: unsigned_ucast_eq take_bit_nat_eq_self)
  ultimately show ?thesis by simp
qed

text \<open>The heart of the internet checksum: adding the complement of the folded sum makes the sum fold to all ones.\<close>

lemma checksum_verifies:
  fixes s t :: u32
  assumes "s \<noteq> 0" "unat t = unat s + unat (ucast (NOT (fold16 s)) :: u16)"
  shows "fold16 t = 0xFFFF"
proof -
  let ?f = "unat (fold16 s)"
  have f: "?f < 65536" "?f mod 65535 = unat s mod 65535" using unat_fold16 [of s] by simp_all
  have t: "unat t = unat s + (65535 - ?f)" using assms(2) unat_not_low [OF f(1)] by simp
  have "(unat s + (65535 - ?f)) mod 65535 = (?f + (65535 - ?f)) mod 65535"
    using f(2) by (metis mod_add_left_eq)
  then have "unat t mod 65535 = 0" using t f(1) by simp
  moreover have "t \<noteq> 0" using t assms(1) by (auto simp: unat_eq_zero)
  ultimately have "unat (fold16 t) mod 65535 = 0" "unat (fold16 t) < 65536" "unat (fold16 t) \<noteq> 0"
    using unat_fold16 [of t] by (auto simp: unat_eq_zero)
  then obtain k where "unat (fold16 t) = 65535 * k" "unat (fold16 t) < 65536" "unat (fold16 t) \<noteq> 0"
    by (metis mod_0_imp_dvd dvdE)
  moreover from this have "k = 1" by (cases k) auto
  ultimately have "unat (fold16 t) = 65535" by simp
  then show ?thesis unfolding word_unat_eq_iff by simp
qed

section \<open>Well-formed frames\<close>

lemma be_bytes2: "be_bytes 2 w = [ucast (drop_bit 8 w), ucast w]" for w :: u16
  by (simp add: be_bytes_def le_bytes_def upt_rec)

lemma wsum_be2: "wsum (be_bytes 2 w) = unat w" for w :: u16
proof -
  have "(push_bit 8 (ucast (ucast (drop_bit 8 w) :: u8)) OR ucast (ucast w :: u8) :: u16) = w"
    by (rule bit_word_eqI) (auto simp: bit_or_iff bit_push_bit_iff bit_ucast_iff bit_drop_bit_eq not_less)
  then show ?thesis using unat_be16 [of "ucast (drop_bit 8 w)" "ucast w"] by (simp add: be_bytes2)
qed

text \<open>Putting a checksum into the two zero bytes at an even position of a byte string adds it to the sum.\<close>

lemma insert16:
  "(xs @ [0, 0] @ ys)[length xs := ucast (drop_bit 8 c), Suc (length xs) := ucast c] = xs @ be_bytes 2 c @ ys"
    for c :: u16
  by (simp add: list_update_append be_bytes2)

lemma wsum_insert:
  fixes c :: u16
  assumes "even (length xs)"
  shows "wsum ((xs @ [0, 0] @ ys)[length xs := ucast (drop_bit 8 c), Suc (length xs) := ucast c]) = wsum (xs @ [0, 0] @ ys) + unat c"
  using assms wsum_append [of xs] wsum_append [of "be_bytes 2 c" ys] unfolding insert16 by (simp add: wsum_be2)

lemma ip_header_shape:
  "\<exists>c. ip_header ident proto tlen src dst =
     [0x45, 0x00] @ be_bytes 2 tlen @ [0x00, ident, 0x40, 0x00, 64, proto] @ be_bytes 2 (c :: u16) @ be_bytes 4 src @ be_bytes 4 dst"
proof -
  let ?xs = "[0x45, 0x00] @ be_bytes 2 tlen @ [0x00, ident, 0x40, 0x00, 64, proto]"
  let ?ys = "be_bytes 4 src @ be_bytes 4 dst"
  have "ip_header ident proto tlen src dst =
      (?xs @ [0, 0] @ ?ys)[length ?xs := ucast (drop_bit 8 (ip_checksum (?xs @ [0, 0] @ ?ys))),
                           Suc (length ?xs) := ucast (ip_checksum (?xs @ [0, 0] @ ?ys))]"
    by (simp add: ip_header_def Let_def)
  then show ?thesis unfolding insert16 by auto
qed

lemma ip_header_length [simp]: "length (ip_header i p t s d) = NET_IP_HDR_LEN"
  by (simp add: ip_header_def Let_def)

text \<open>The receiver's check of an IP header: the checksum of the header, checksum field included, is zero.\<close>

lemma ip_header_verifies: "ip_checksum (ip_header ident proto tlen src dst) = 0"
proof -
  let ?xs = "[0x45, 0x00] @ be_bytes 2 tlen @ [0x00, ident, 0x40, 0x00, 64, proto]"
  let ?ys = "be_bytes 4 src @ be_bytes 4 dst"
  let ?p = "?xs @ [0, 0] @ ?ys"
  let ?c = "ip_checksum ?p"
  have len: "length ?xs = 10" by simp
  have h: "ip_header ident proto tlen src dst = ?p[10 := ucast (drop_bit 8 ?c), Suc 10 := ucast ?c]"
    by (simp add: ip_header_def Let_def)
  have w: "wsum (ip_header ident proto tlen src dst) = wsum ?p + unat ?c"
    using wsum_insert [of ?xs ?ys ?c] unfolding h len by (simp only: even_numeral)
  have small: "wsum bs \<le> 65535 * 11" if "length bs = 20" for bs
    using wsum_le [of bs] that by simp
  have p: "unat (checksum_add 0 ?p) = wsum ?p"
    using unat_checksum_add [of 0 ?p] small [of ?p] by simp
  have "unat (checksum_add 0 (ip_header ident proto tlen src dst)) = wsum (ip_header ident proto tlen src dst)"
    using unat_checksum_add [of 0 "ip_header ident proto tlen src dst"] small [of "ip_header ident proto tlen src dst"] by simp
  moreover have "checksum_add 0 ?p \<noteq> 0"
  proof -
    have "0 < wsum ?p" by simp
    then show ?thesis using p by auto
  qed
  ultimately have "fold16 (checksum_add 0 (ip_header ident proto tlen src dst)) = 0xFFFF"
    using p w by (intro checksum_verifies [of "checksum_add 0 ?p"]) (simp_all add: ip_checksum_def)
  then show ?thesis by (simp add: ip_checksum_def)
qed

lemma unat_low16: "unat (x AND 0xFFFF) \<le> 65535" for x :: u32
proof -
  have "x AND 0xFFFF = take_bit 16 x" by (simp add: take_bit_eq_mask mask_eq_exp_minus_1)
  then have "unat (x AND 0xFFFF) = unat x mod 65536"
    unfolding unsigned_take_bit_eq by (simp only: unsigned_take_bit_eq) (simp add: take_bit_eq_mod)
  then show ?thesis using mod_less_divisor [of 65536 "unat x"] by simp
qed

lemma unat_add_le: "unat x \<le> a \<Longrightarrow> unat y \<le> b \<Longrightarrow> unat (x + y) \<le> a + b" for x y :: "'a::len word"
  using unat_plus_if_size [of x y] by (auto split: if_splits)

lemma tcp_pseudo_small: "unat (tcp_pseudo_sum s d l) \<le> 6 * 65535"
proof -
  have l: "unat (ucast l :: u32) \<le> 65535"
    using unsigned_less [of l, where ?'a = nat] by (simp add: unsigned_ucast_eq take_bit_nat_eq_self)
  have "unat (tcp_pseudo_sum s d l) \<le> 65535 + 65535 + 65535 + 65535 + 6 + 65535"
    unfolding tcp_pseudo_sum_def by (intro unat_add_le unat_low16 l) simp
  then show ?thesis by simp
qed

text \<open>The part of the TCP segment that the checksum covers, and the receiver's check of it.\<close>

lemma tcp_segment_verifies:
  assumes "length xs = 16" "length ys \<le> 2000" "wsum xs > 0"
    and c: "c = ucast (NOT (fold16 (checksum_add (tcp_pseudo_sum s d l) (xs @ [0, 0] @ ys))))"
  shows "fold16 (checksum_add (tcp_pseudo_sum s d l) ((xs @ [0, 0] @ ys)[16 := ucast (drop_bit 8 c), 17 := ucast (c :: u16)])) = 0xFFFF"
proof -
  let ?a = "tcp_pseudo_sum s d l" and ?p = "xs @ [0, 0] @ ys"
  let ?q = "?p[16 := ucast (drop_bit 8 c), 17 := ucast c]"
  have w: "wsum ?q = wsum ?p + unat c"
    using wsum_insert [of xs ys c] assms(1) by simp
  have small: "unat ?a + wsum bs < 2 ^ 32" if "length bs \<le> 2018" for bs
    using wsum_le [of bs] tcp_pseudo_small [of s d l] that by simp
  have p: "unat (checksum_add ?a ?p) = unat ?a + wsum ?p"
    using assms(1,2) by (intro unat_checksum_add small) simp
  have q: "unat (checksum_add ?a ?q) = unat ?a + wsum ?q"
    using assms(1,2) by (intro unat_checksum_add small) simp
  have "wsum ?p = wsum xs + wsum ([0, 0] @ ys)" using assms(1) by (intro wsum_append) simp
  then have "unat (checksum_add ?a ?p) > 0" using p assms(3) by simp
  then have "checksum_add ?a ?p \<noteq> 0" by auto
  moreover have "unat (checksum_add ?a ?q) = unat (checksum_add ?a ?p) + unat (ucast (NOT (fold16 (checksum_add ?a ?p))) :: u16)"
    using p q w c by simp
  ultimately show ?thesis by (rule checksum_verifies)
qed

text \<open>a UDP frame is built exactly for payloads of 1 to 1472 bytes.  It fits the Ethernet maximum, its length fields
  are right, a receiver's check of the IP checksum succeeds, and the addresses, ports and payload are read back from it.\<close>

theorem net_build_udp_valid:
  assumes "length smac = 6" "length dmac = 6" and f_def: "f = net_build_udp smac dmac sip dip sport dport (Some pl)"
  shows "(f = [] \<longleftrightarrow> pl = [] \<or> NET_UDP_PAYLOAD_MAX < length pl) \<and>
    (f \<noteq> [] \<longrightarrow> length f = 42 + length pl \<and> length f \<le> NET_MAX_FRAME \<and>
       ip_checksum (take 20 (drop 14 f)) = 0 \<and>
       unat (be_word (take 2 (drop 16 f)) :: u16) = 28 + length pl \<and>
       take 6 f = dmac \<and> take 6 (drop 6 f) = smac \<and>
       be_word (take 2 (drop 34 f)) = sport \<and> be_word (take 2 (drop 36 f)) = dport \<and> drop 42 f = pl)"
proof (cases "pl = [] \<or> NET_UDP_PAYLOAD_MAX < length pl")
  case True
  then show ?thesis by (auto simp: f_def net_build_udp_def)
next
  case False
  let ?t = "word_of_nat (NET_IP_HDR_LEN + NET_UDP_HDR_LEN + length pl) :: u16"
  let ?ip = "ip_header 1 17 ?t sip dip"
  have f: "f = dmac @ smac @ [0x08, 0x00] @ ?ip @ be_bytes 2 sport @ be_bytes 2 dport @
      be_bytes 2 (word_of_nat (NET_UDP_HDR_LEN + length pl) :: u16) @ [0, 0] @ pl"
    using False by (simp add: f_def net_build_udp_def Let_def)
  have "take 2 (drop 16 f) = be_bytes 2 ?t"
  proof -
    obtain c :: u16 where "?ip = [0x45, 0x00] @ be_bytes 2 ?t @ [0x00, 1, 0x40, 0x00, 64, 17] @ be_bytes 2 c @ be_bytes 4 sip @ be_bytes 4 dip"
      using ip_header_shape by blast
    then show ?thesis using assms(1,2) unfolding f by simp
  qed
  moreover have "unat ?t = 28 + length pl"
    using False unat_word_of_nat [of "NET_IP_HDR_LEN + NET_UDP_HDR_LEN + length pl", where ?'a = 16] by simp
  ultimately have "unat (be_word (take 2 (drop 16 f)) :: u16) = 28 + length pl"
    by (simp add: be_word_bytes)
  then show ?thesis
    using assms(1,2) False by (simp add: f be_word_bytes ip_header_verifies)
qed

theorem net_build_udp_valid_witness:
  "length (net_build_udp (replicate 6 1) gw_mac 1 2 53 53 (Some [7, 8])) = 44"
proof -
  have "net_build_udp (replicate 6 1) gw_mac 1 2 53 53 (Some [7, 8]) \<noteq> []"
    by (simp add: net_build_udp_def)
  then show ?thesis
    using net_build_udp_valid [of "replicate 6 1" gw_mac _ 1 2 53 53 "[7, 8]", OF _ _ refl] by (simp add: gw_mac_def)
qed

text \<open>a TCP frame is built exactly for payloads of at most 1460 bytes; a receiver's checks of the IP header checksum
  and of the TCP checksum over pseudo header and segment both succeed, and ports, sequence number, flags and
  payload are read back from the segment.\<close>

theorem net_build_tcp_valid:
  assumes "length smac = 6" "length dmac = 6"
    and f_def: "f = net_build_tcp smac dmac sip dip sport dport sq ak flags win pl"
  shows "(f = [] \<longleftrightarrow> NET_TCP_PAYLOAD_MAX < length pl) \<and>
    (f \<noteq> [] \<longrightarrow> length f = 54 + length pl \<and> length f \<le> NET_MAX_FRAME \<and>
       ip_checksum (take 20 (drop 14 f)) = 0 \<and>
       fold16 (checksum_add (tcp_pseudo_sum sip dip (word_of_nat (length f - 34))) (drop 34 f)) = 0xFFFF \<and>
       be_word (take 2 (drop 34 f)) = sport \<and> be_word (take 2 (drop 36 f)) = dport \<and>
       be_word (take 4 (drop 38 f)) = sq \<and> f ! 47 = flags \<and> drop 54 f = pl)"
proof (cases "NET_TCP_PAYLOAD_MAX < length pl")
  case True
  then show ?thesis by (simp add: f_def net_build_tcp_def)
next
  case False
  let ?xs = "be_bytes 2 sport @ be_bytes 2 dport @ be_bytes 4 sq @ be_bytes 4 ak @ [0x50, flags] @ be_bytes 2 win"
  let ?l = "word_of_nat (NET_TCP_HDR_LEN + length pl) :: u16"
  let ?c = "ucast (NOT (fold16 (checksum_add (tcp_pseudo_sum sip dip ?l) (?xs @ [0, 0] @ [0, 0] @ pl)))) :: u16"
  let ?ip = "ip_header 2 6 (word_of_nat (NET_IP_HDR_LEN + NET_TCP_HDR_LEN + length pl)) sip dip"
  have len: "length ?xs = 16" by simp
  have f: "f = dmac @ smac @ [0x08, 0x00] @ ?ip @ (?xs @ [0, 0] @ [0, 0] @ pl)[16 := ucast (drop_bit 8 ?c), 17 := ucast ?c]"
    using False by (simp add: f_def net_build_tcp_def Let_def)
  have seg: "(?xs @ [0, 0] @ [0, 0] @ pl)[16 := ucast (drop_bit 8 ?c), 17 := ucast ?c] = ?xs @ be_bytes 2 ?c @ [0, 0] @ pl"
    using insert16 [of ?xs "[0, 0] @ pl" ?c] unfolding len by simp
  have "wsum (be_bytes 2 sport @ be_bytes 2 dport @ be_bytes 4 sq @ be_bytes 4 ak @ [0x50, flags] @ be_bytes 2 win) > 0"
    by (simp add: wsum_append)
  then have "fold16 (checksum_add (tcp_pseudo_sum sip dip ?l) (drop 34 f)) = 0xFFFF"
    using tcp_segment_verifies [of ?xs "[0, 0] @ pl" ?c sip dip ?l] False assms(1,2) by (simp add: f)
  moreover have "length f = 54 + length pl"
    using assms(1,2) by (simp add: f)
  moreover have "f ! 47 = flags"
    using assms(1,2) unfolding f seg by (simp add: nth_append)
  moreover have "ip_checksum (take 20 (drop 14 f)) = 0"
    using assms(1,2) by (simp add: f ip_header_verifies)
  moreover have "be_word (take 2 (drop 34 f)) = sport \<and> be_word (take 2 (drop 36 f)) = dport \<and>
      be_word (take 4 (drop 38 f)) = sq \<and> drop 54 f = pl"
    using assms(1,2) unfolding f seg by (simp add: be_word_bytes)
  ultimately show ?thesis
    using False by (auto simp: ac_simps)
qed

theorem net_build_tcp_valid_witness:
  "length (net_build_tcp (replicate 6 1) gw_mac 1 2 53 53 9 0 2 4096 [7, 8]) = 56"
proof -
  have "net_build_tcp (replicate 6 1) gw_mac 1 2 53 53 9 0 2 4096 [7, 8] \<noteq> []"
    by (simp add: net_build_tcp_def gw_mac_def Let_def)
  then show ?thesis
    using net_build_tcp_valid [of "replicate 6 1" gw_mac _ 1 2 53 53 9 0 2 4096 "[7, 8]", OF _ _ refl] by (simp add: gw_mac_def)
qed

text \<open>The distress message fits the 256-byte buffer the code assembles it in.\<close>

lemma beacon_payload_fits: "length (beacon_payload reason) \<le> 256 \<and> 0 < length (beacon_payload reason)"
  by (cases reason) (simp_all add: beacon_payload_def ascii_def)

text \<open>Noise frames carry 64 to 256 random bytes.\<close>

lemma padding_frame_length:
  assumes "length (anonymize_get_mac (anon s)) = 6"
  shows "106 \<le> length (fst (padding_frame s)) \<and> length (fst (padding_frame s)) \<le> 298"
proof -
  obtain x r1 where x: "rng_u32 (rand s) = (x, r1)" by (cases "rng_u32 (rand s)")
  obtain pl r2 where pl: "rng_bytes (unat (64 + x mod 193)) r1 = (pl, r2)" by (cases "rng_bytes (unat (64 + x mod 193)) r1")
  obtain y r3 where y: "rng_u32 r2 = (y, r3)" by (cases "rng_u32 r2")
  obtain z r4 where z: "rng_u32 r3 = (z, r4)" by (cases "rng_u32 r3")
  have "unat (x mod 193) < 193" by (simp add: unat_mod)
  then have "unat (64 + x mod 193) = 64 + unat (x mod 193)" by (simp add: unat_plus_if_size word_size)
  then have l: "length pl = 64 + unat (x mod 193)" "unat (x mod 193) < 193"
    using length_rng_bytes [OF pl] \<open>unat (x mod 193) < 193\<close> by simp_all
  then have "pl \<noteq> []" "length pl \<le> NET_UDP_PAYLOAD_MAX" by auto
  then show ?thesis
    using assms l x pl y z by (simp add: padding_frame_def net_build_udp_def Let_def)
qed

text \<open>A network state with a working card, for the evaluations of this and the following theories.\<close>

definition wnet :: net_state where
  "wnet = \<lparr>ncard = wnic, anon = \<lparr>seed = 0, g_anonymized_mac = replicate 6 2\<rparr>,
     rand = \<lparr>gen = \<lparr>g_s = [1, 2, 3, 4], g_call_counter = 0, g_initialized = True\<rparr>,
             readings = (\<lambda>_. (\<lparr>g_s = [1, 2, 3, 4], g_call_counter = 0, g_initialized = True\<rparr>, 5, 6)), calls = 0\<rparr>,
     g_padding_packets_sent = 0, g_padding_boost_active = False, g_last_padding_ticks = 0\<rparr>"

end
