(* ===== verification/Ring.thy ===== *)
theory Ring
  imports Styx_Prelude
begin

text \<open>
  Ring buffers as the kernel keeps them: an array with a head index where the next element goes and a tail index of
  the oldest one; head equal to tail means empty, so one cell always stays free.  The interface \<open>bounded_fifo\<close> is
  what a user of such a buffer relies on.
\<close>

section \<open>Contents of a ring\<close>

definition ring_ok :: "nat \<Rightarrow> 'a list \<Rightarrow> nat \<Rightarrow> nat \<Rightarrow> bool" where
  "ring_ok n buf h t = (0 < n \<and> length buf = n \<and> h < n \<and> t < n)"

definition ring_count :: "nat \<Rightarrow> nat \<Rightarrow> nat \<Rightarrow> nat" where
  "ring_count n h t = (h + n - t) mod n"

definition ring_contents :: "nat \<Rightarrow> 'a list \<Rightarrow> nat \<Rightarrow> nat \<Rightarrow> 'a list" where
  "ring_contents n buf h t = map (\<lambda>k. buf ! ((t + k) mod n)) [0..<ring_count n h t]"

lemma length_ring_contents [simp]: "length (ring_contents n buf h t) = ring_count n h t"
  by (simp add: ring_contents_def)

lemma ring_empty: "ring_ok n buf h t \<Longrightarrow> ring_contents n buf h t = [] \<longleftrightarrow> h = t"
  by (auto simp: ring_ok_def ring_contents_def ring_count_def mod_if)

lemma ring_count_lt: "ring_ok n buf h t \<Longrightarrow> ring_count n h t < n"
  by (simp add: ring_ok_def ring_count_def)

lemma ring_pop:
  assumes ok: "ring_ok n buf h t" and ne: "h \<noteq> t"
  shows "ring_ok n buf h ((t + 1) mod n)" "ring_contents n buf h t = buf ! t # ring_contents n buf h ((t + 1) mod n)"
proof -
  let ?t = "(t + 1) mod n"
  show "ring_ok n buf h ?t" using ok by (simp add: ring_ok_def)
  have c: "ring_count n h t = Suc (ring_count n h ?t)"
    using ok ne by (auto simp: ring_ok_def ring_count_def mod_if)
  have "[0..<ring_count n h t] = 0 # map Suc [0..<ring_count n h ?t]"
    unfolding c by (simp add: upt_conv_Cons map_Suc_upt del: upt_Suc)
  moreover have "(t + Suc k) mod n = (?t + k) mod n" for k by (simp add: mod_simps)
  ultimately show "ring_contents n buf h t = buf ! t # ring_contents n buf h ?t"
    using ok by (simp add: ring_contents_def ring_ok_def)
qed

lemma ring_push:
  assumes ok: "ring_ok n buf h t" and room: "(h + 1) mod n \<noteq> t"
  shows "ring_ok n (buf[h := c]) ((h + 1) mod n) t" "ring_contents n (buf[h := c]) ((h + 1) mod n) t = ring_contents n buf h t @ [c]"
proof -
  let ?h = "(h + 1) mod n"
  show "ring_ok n (buf[h := c]) ?h t" using ok by (simp add: ring_ok_def)
  have n: "0 < n" "length buf = n" "h < n" "t < n" using ok by (simp_all add: ring_ok_def)
  have cnt: "ring_count n ?h t = Suc (ring_count n h t)"
    using n room by (cases "h + 1 = n") (auto simp: ring_count_def mod_if)
  have hd: "(t + ring_count n h t) mod n = h" using n by (auto simp: ring_count_def mod_if)
  have "h \<noteq> (t + k) mod n" if "k < ring_count n h t" for k
  proof (cases "t \<le> h")
    case True
    then have e: "h + n - t = (h - t) + n" by simp
    have "ring_count n h t = h - t" unfolding ring_count_def e using n by simp
    then show ?thesis using that n by simp
  next
    case False
    then have "ring_count n h t = h + n - t" using n by (simp add: ring_count_def)
    then show ?thesis using that n False by (cases "t + k < n") (auto simp: mod_if)
  qed
  then show "ring_contents n (buf[h := c]) ?h t = ring_contents n buf h t @ [c]"
    unfolding ring_contents_def cnt using n hd by simp
qed

lemma ring_full: "ring_ok n buf h t \<Longrightarrow> (h + 1) mod n = t \<longleftrightarrow> length (ring_contents n buf h t) = n - 1"
  by (auto simp: ring_ok_def ring_count_def mod_if)

section \<open>The queue interface\<close>

locale bounded_fifo =
  fixes push :: "'c \<Rightarrow> 'q \<Rightarrow> 'q"
    and pop :: "'q \<Rightarrow> 'c \<times> 'q"
    and contents :: "'q \<Rightarrow> 'c list"
    and ok :: "'q \<Rightarrow> bool"
    and cap :: nat
    and none :: 'c
  assumes push_contents: "ok q \<Longrightarrow> contents (push c q) = take cap (contents q @ [c])"
    and push_ok: "ok q \<Longrightarrow> ok (push c q)"
    and pop_contents: "ok q \<Longrightarrow> contents (snd (pop q)) = drop 1 (contents q)"
    and pop_value: "ok q \<Longrightarrow> fst (pop q) = (case contents q of [] \<Rightarrow> none | x # _ \<Rightarrow> x)"
    and pop_ok: "ok q \<Longrightarrow> ok (snd (pop q))"
    and bounded: "ok q \<Longrightarrow> length (contents q) \<le> cap"
begin

lemma pushes_contents: "ok q \<Longrightarrow> contents (fold push cs q) = take cap (contents q @ cs) \<and> ok (fold push cs q)"
proof (induction cs rule: rev_induct)
  case Nil
  then show ?case using bounded by simp
next
  case (snoc c cs)
  then show ?case using push_contents [of "fold push cs q" c] push_ok bounded [of q]
    by (auto simp: min_def)
qed

fun pops :: "nat \<Rightarrow> 'q \<Rightarrow> 'c list \<times> 'q" where
  "pops 0 q = ([], q)"
| "pops (Suc n) q = (let (c, q') = pop q; (cs, q'') = pops n q' in (c # cs, q''))"

lemma pops_values: "ok q \<Longrightarrow> n \<le> length (contents q) \<Longrightarrow> fst (pops n q) = take n (contents q) \<and> ok (snd (pops n q))"
proof (induction n arbitrary: q)
  case (Suc n)
  then obtain x xs where c: "contents q = x # xs" by (cases "contents q") auto
  have "fst (pops n (snd (pop q))) = take n xs \<and> ok (snd (pops n (snd (pop q))))"
    using Suc.IH [OF pop_ok] Suc.prems pop_contents c by simp
  then show ?case using pop_value [OF Suc.prems(1)] c by (simp add: prod.case_eq_if)
qed simp

end

end
