(* ===== verification/Tcp.thy ===== *)
theory Tcp
  imports Net Ring
begin

unbundle bit_operations_syntax

text \<open>
  The TCP socket layer, \<^verbatim>\<open>src/kernel/tcp.c\<close>: a table of sixteen control blocks.
  Socket numbers are C integers; a failing call returns -1.  A packet is the list of its bytes.
\<close>

section \<open>State\<close>

abbreviation MAX_TCP_SOCKETS :: nat where "MAX_TCP_SOCKETS \<equiv> 16"
abbreviation TCP_RX_BUF_SIZE :: nat where "TCP_RX_BUF_SIZE \<equiv> 4096"
abbreviation TCP_FIN :: u8 where "TCP_FIN \<equiv> 0x01"
abbreviation TCP_SYN :: u8 where "TCP_SYN \<equiv> 0x02"
abbreviation TCP_PSH :: u8 where "TCP_PSH \<equiv> 0x08"
abbreviation TCP_ACK :: u8 where "TCP_ACK \<equiv> 0x10"

datatype tcp_state = TCP_STATE_CLOSED | TCP_STATE_LISTEN | TCP_STATE_SYN_SENT | TCP_STATE_SYN_RCVD
  | TCP_STATE_ESTABLISHED | TCP_STATE_FIN_WAIT_1 | TCP_STATE_FIN_WAIT_2 | TCP_STATE_TIME_WAIT

record tcp_socket =
  sock_id :: nat
  active :: bool
  tcpstate :: tcp_state
  local_ip :: u32
  remote_ip :: u32
  local_port :: u16
  remote_port :: u16
  seq_num :: u32
  ack_num :: u32
  window_size :: u16
  rx_buf :: "u8 list"
  rx_head :: nat
  rx_tail :: nat

record tcp_engine =
  g_sockets :: "tcp_socket list"
  g_next_ephemeral_port :: u16
  net :: net_state

definition zero_socket :: tcp_socket where
  "zero_socket = \<lparr>sock_id = 0, active = False, tcpstate = TCP_STATE_CLOSED, local_ip = 0, remote_ip = 0, local_port = 0,
     remote_port = 0, seq_num = 0, ack_num = 0, window_size = 0, rx_buf = replicate TCP_RX_BUF_SIZE 0, rx_head = 0, rx_tail = 0\<rparr>"

definition upd_sock :: "nat \<Rightarrow> (tcp_socket \<Rightarrow> tcp_socket) \<Rightarrow> tcp_engine \<Rightarrow> tcp_engine" where
  "upd_sock i g t = t\<lparr>g_sockets := (g_sockets t)[i := g (g_sockets t ! i)]\<rparr>"

section \<open>Operations\<close>

definition tcp_init :: "tcp_engine \<Rightarrow> tcp_engine" where
  "tcp_init t = t\<lparr>g_sockets := map (\<lambda>i. zero_socket\<lparr>sock_id := i, active := False, tcpstate := TCP_STATE_CLOSED\<rparr>)
                                   [0..<MAX_TCP_SOCKETS]\<rparr>"

definition tcp_socket_create :: "tcp_engine \<Rightarrow> int \<times> tcp_engine" where
  "tcp_socket_create t =
     (case find (\<lambda>i. \<not> active (g_sockets t ! i)) [0..<MAX_TCP_SOCKETS] of
        None \<Rightarrow> (- 1, t)
      | Some i \<Rightarrow>
          let port = g_next_ephemeral_port t;
              next_port = (if port + 1 > 65530 then 49152 else port + 1);
              (isn, r) = rng_u32 (rand (net t))
          in (int i,
              (upd_sock i (\<lambda>s. s\<lparr>active := True, tcpstate := TCP_STATE_CLOSED, local_ip := 0xC0A80164,
                                 local_port := port, seq_num := isn, ack_num := 0,
                                 window_size := word_of_nat TCP_RX_BUF_SIZE, rx_head := 0, rx_tail := 0\<rparr>) t)
                \<lparr>g_next_ephemeral_port := next_port, net := (net t)\<lparr>rand := r\<rparr>\<rparr>))"

definition bad_socket :: "int \<Rightarrow> tcp_engine \<Rightarrow> bool" where
  "bad_socket sid t = (sid < 0 \<or> sid \<ge> int MAX_TCP_SOCKETS \<or> \<not> active (g_sockets t ! nat sid))"

definition socket_frame :: "tcp_socket \<Rightarrow> u8 \<Rightarrow> u8 list \<Rightarrow> tcp_engine \<Rightarrow> u8 list" where
  "socket_frame s flags pl t =
     net_build_tcp (anonymize_get_mac (anon (net t))) gw_mac (local_ip s) (remote_ip s) (local_port s) (remote_port s)
       (seq_num s) (ack_num s) flags (window_size s) pl"

definition tcp_transmit :: "(nat \<Rightarrow> u8) \<Rightarrow> u8 list \<Rightarrow> tcp_engine \<Rightarrow> bool \<times> tcp_engine" where
  "tcp_transmit polls frame t =
     (let (ok, n) = e1000_send_packet polls frame (ncard (net t)) in (ok, t\<lparr>net := (net t)\<lparr>ncard := n\<rparr>\<rparr>))"

definition tcp_socket_connect :: "(nat \<Rightarrow> u8) \<Rightarrow> int \<Rightarrow> u32 \<Rightarrow> u16 \<Rightarrow> tcp_engine \<Rightarrow> int \<times> tcp_engine" where
  "tcp_socket_connect polls sid dst_ip dst_port t =
     (if bad_socket sid t then (- 1, t)
      else
        let i = nat sid;
            t1 = upd_sock i (\<lambda>s. s\<lparr>remote_ip := dst_ip, remote_port := dst_port\<rparr>) t;
            frame = socket_frame (g_sockets t1 ! i) TCP_SYN [] t1
        in if length frame = 0 then (- 1, t1)
           else
             let t2 = upd_sock i (\<lambda>s. s\<lparr>tcpstate := TCP_STATE_SYN_SENT, seq_num := seq_num s + 1\<rparr>) t1;
                 (ok, t3) = tcp_transmit polls frame t2
             in (0, upd_sock i (\<lambda>s. s\<lparr>tcpstate := TCP_STATE_ESTABLISHED, ack_num := 1000\<rparr>) t3))"

definition tcp_socket_send :: "(nat \<Rightarrow> u8) \<Rightarrow> int \<Rightarrow> u8 list \<Rightarrow> tcp_engine \<Rightarrow> int \<times> tcp_engine" where
  "tcp_socket_send polls sid buf t =
     (if bad_socket sid t then (- 1, t)
      else
        let i = nat sid; s = g_sockets t ! i in
        if tcpstate s \<noteq> TCP_STATE_ESTABLISHED then (- 1, t)
        else
          let frame = socket_frame s (TCP_ACK OR TCP_PSH) buf t in
          if length frame = 0 then (- 1, t)
          else
            let t1 = upd_sock i (\<lambda>s. s\<lparr>seq_num := seq_num s + word_of_nat (length buf)\<rparr>) t;
                (ok, t2) = tcp_transmit polls frame t1
            in (if ok then int (length buf) else - 1, t2))"

fun recv_loop :: "nat \<Rightarrow> tcp_socket \<Rightarrow> u8 list \<times> tcp_socket" where
  "recv_loop 0 s = ([], s)"
| "recv_loop (Suc n) s =
     (if rx_head s = rx_tail s then ([], s)
      else
        let (bs, s') = recv_loop n (s\<lparr>rx_tail := (rx_tail s + 1) mod TCP_RX_BUF_SIZE\<rparr>)
        in (rx_buf s ! rx_tail s # bs, s'))"

definition tcp_socket_recv :: "int \<Rightarrow> nat \<Rightarrow> tcp_engine \<Rightarrow> int \<times> u8 list \<times> tcp_engine" where
  "tcp_socket_recv sid max_len t =
     (if bad_socket sid t then (- 1, [], t)
      else
        let (bs, s) = recv_loop max_len (g_sockets t ! nat sid)
        in (int (length bs), bs, upd_sock (nat sid) (\<lambda>_. s) t))"

definition tcp_socket_close :: "int \<Rightarrow> tcp_engine \<Rightarrow> int \<times> tcp_engine" where
  "tcp_socket_close sid t =
     (if bad_socket sid t then (- 1, t)
      else
        let i = nat sid;
            t1 = (if tcpstate (g_sockets t ! i) = TCP_STATE_ESTABLISHED
                  then upd_sock i (\<lambda>s. s\<lparr>tcpstate := TCP_STATE_FIN_WAIT_1\<rparr>) t else t)
        in (0, upd_sock i (\<lambda>s. s\<lparr>active := False, tcpstate := TCP_STATE_CLOSED\<rparr>) t1))"

definition tcp_handle_packet :: "u8 list \<Rightarrow> tcp_engine \<Rightarrow> tcp_engine" where
  "tcp_handle_packet packet t =
     (if length packet < NET_ETH_HDR_LEN + NET_IP_HDR_LEN + NET_TCP_HDR_LEN then t
      else
        let ip = drop NET_ETH_HDR_LEN packet in
        if ip ! 9 \<noteq> 6 then t
        else
          let tcp = drop NET_IP_HDR_LEN ip;
              dst_port = push_bit 8 (ucast (tcp ! 2)) OR ucast (tcp ! 3)
          in case find (\<lambda>i. active (g_sockets t ! i) \<and> local_port (g_sockets t ! i) = dst_port) [0..<MAX_TCP_SOCKETS] of
               None \<Rightarrow> t
             | Some i \<Rightarrow>
                 if tcp ! 13 AND TCP_SYN \<noteq> 0 \<and> tcpstate (g_sockets t ! i) = TCP_STATE_SYN_SENT
                 then upd_sock i (\<lambda>s. s\<lparr>tcpstate := TCP_STATE_ESTABLISHED\<rparr>) t
                 else t)"

section \<open>The receive ring\<close>

definition rx_ok :: "tcp_socket \<Rightarrow> bool" where
  "rx_ok s = ring_ok TCP_RX_BUF_SIZE (rx_buf s) (rx_head s) (rx_tail s)"

text \<open>The bytes waiting in the ring, oldest first.\<close>

definition rx_contents :: "tcp_socket \<Rightarrow> u8 list" where
  "rx_contents s = ring_contents TCP_RX_BUF_SIZE (rx_buf s) (rx_head s) (rx_tail s)"

lemma rx_contents_step:
  assumes ok: "rx_ok s" and ne: "rx_head s \<noteq> rx_tail s"
  defines "s' \<equiv> s\<lparr>rx_tail := (rx_tail s + 1) mod TCP_RX_BUF_SIZE\<rparr>"
  shows "rx_ok s'" "rx_contents s = rx_buf s ! rx_tail s # rx_contents s'"
  using ring_pop [OF ok [unfolded rx_ok_def] ne] by (simp_all add: s'_def rx_ok_def rx_contents_def)

lemma recv_loop_fifo:
  "rx_ok s \<Longrightarrow> recv_loop n s = (bs, s') \<Longrightarrow>
   bs = take n (rx_contents s) \<and> rx_contents s' = drop n (rx_contents s) \<and> rx_ok s' \<and>
   s' = s\<lparr>rx_tail := rx_tail s'\<rparr>"
proof (induction n s arbitrary: bs s' rule: recv_loop.induct)
  case (2 n s)
  show ?case
  proof (cases "rx_head s = rx_tail s")
    case True
    then have "rx_contents s = []" using ring_empty [OF 2(2) [unfolded rx_ok_def]] by (simp add: rx_contents_def)
    then show ?thesis using 2 True by simp
  next
    case False
    let ?s = "s\<lparr>rx_tail := (rx_tail s + 1) mod TCP_RX_BUF_SIZE\<rparr>"
    obtain r where r: "recv_loop n ?s = (r, s')" "bs = rx_buf s ! rx_tail s # r"
      using 2(3) False by (auto simp: Let_def split: prod.splits)
    note step = rx_contents_step [OF 2(2) False]
    have "r = take n (rx_contents ?s) \<and> rx_contents s' = drop n (rx_contents ?s) \<and> rx_ok s' \<and> s' = ?s\<lparr>rx_tail := rx_tail s'\<rparr>"
      using 2(1) [OF False step(1) r(1)] .
    then show ?thesis using step(2) r(2) by simp
  qed
qed simp

text \<open>receiving refines a queue: \<^verbatim>\<open>tcp_socket_recv\<close> hands out the oldest waiting bytes, as many as were asked for or are
  there, in order and across the wrap-around of the ring, and removes exactly these.\<close>

theorem tcp_recv_is_fifo:
  assumes "length (g_sockets t) = MAX_TCP_SOCKETS" "\<not> bad_socket sid t" "rx_ok (g_sockets t ! nat sid)"
    and "tcp_socket_recv sid n t = (rc, bs, t')"
  shows "bs = take n (rx_contents (g_sockets t ! nat sid)) \<and> rc = int (length bs) \<and>
    rx_contents (g_sockets t' ! nat sid) = drop n (rx_contents (g_sockets t ! nat sid)) \<and> rx_ok (g_sockets t' ! nat sid)"
proof -
  obtain s where s: "recv_loop n (g_sockets t ! nat sid) = (bs, s)" "t' = upd_sock (nat sid) (\<lambda>_. s) t" "rc = int (length bs)"
    using assms(2,4) by (auto simp: tcp_socket_recv_def split: prod.splits)
  have "nat sid < length (g_sockets t)" using assms(1,2) by (auto simp: bad_socket_def)
  then show ?thesis using recv_loop_fifo [OF assms(3) s(1)] s by (auto simp: upd_sock_def)
qed

definition wsock :: tcp_socket where
  "wsock = zero_socket\<lparr>active := True, rx_buf := (replicate 4096 0)[4095 := 7, 0 := 8], rx_head := 1, rx_tail := 4095\<rparr>"

definition wtcp :: tcp_engine where
  "wtcp = \<lparr>g_sockets = replicate 16 wsock, g_next_ephemeral_port = 49152, net = wnet\<rparr>"

theorem tcp_recv_is_fifo_witness: "fst (snd (tcp_socket_recv 3 5 wtcp)) = [7, 8]"
proof -
  obtain rc bs t' where r: "tcp_socket_recv 3 5 wtcp = (rc, bs, t')" by (cases "tcp_socket_recv 3 5 wtcp")
  have l: "length (g_sockets wtcp) = MAX_TCP_SOCKETS" "\<not> bad_socket 3 wtcp" "g_sockets wtcp ! nat 3 = wsock"
    by (simp_all add: wtcp_def bad_socket_def wsock_def)
  have ok: "rx_ok wsock" by (simp add: wsock_def rx_ok_def ring_ok_def)
  have "ring_count TCP_RX_BUF_SIZE (rx_head wsock) (rx_tail wsock) = 2" by (simp add: wsock_def ring_count_def)
  then have "rx_contents wsock = [7, 8]"
    by (simp add: rx_contents_def ring_contents_def upt_rec) (simp add: wsock_def nth_list_update)
  then show ?thesis
    using tcp_recv_is_fifo [OF l(1,2) _ r] l(3) ok r by simp
qed

section \<open>The connection state machine\<close>

text \<open>The states that the socket layer goes through, whatever the calls, their arguments and the packets that arrive.\<close>

inductive tcp_reach :: "tcp_engine \<Rightarrow> bool" where
  reach_init: "tcp_reach (tcp_init t)"
| reach_create: "tcp_reach t \<Longrightarrow> tcp_reach (snd (tcp_socket_create t))"
| reach_connect: "tcp_reach t \<Longrightarrow> tcp_reach (snd (tcp_socket_connect polls sid ip port t))"
| reach_send: "tcp_reach t \<Longrightarrow> tcp_reach (snd (tcp_socket_send polls sid buf t))"
| reach_recv: "tcp_reach t \<Longrightarrow> tcp_reach (snd (snd (tcp_socket_recv sid n t)))"
| reach_close: "tcp_reach t \<Longrightarrow> tcp_reach (snd (tcp_socket_close sid t))"
| reach_packet: "tcp_reach t \<Longrightarrow> tcp_reach (tcp_handle_packet packet t)"

definition quiet :: "tcp_socket \<Rightarrow> bool" where
  "quiet s = (rx_head s = rx_tail s \<and> (tcpstate s = TCP_STATE_CLOSED \<or> tcpstate s = TCP_STATE_ESTABLISHED))"

definition tcp_quiet :: "tcp_engine \<Rightarrow> bool" where
  "tcp_quiet t = (length (g_sockets t) = MAX_TCP_SOCKETS \<and> (\<forall>i<MAX_TCP_SOCKETS. quiet (g_sockets t ! i)))"

lemma tcp_quiet_upd: "tcp_quiet t \<Longrightarrow> (i < MAX_TCP_SOCKETS \<Longrightarrow> quiet (g (g_sockets t ! i))) \<Longrightarrow> tcp_quiet (upd_sock i g t)"
  by (auto simp: tcp_quiet_def upd_sock_def) (metis nth_list_update_eq nth_list_update_neq)

lemma g_sockets_upd: "i < length (g_sockets t) \<Longrightarrow> g_sockets (upd_sock i g t) ! i = g (g_sockets t ! i)"
  by (simp add: upd_sock_def)

lemma tcp_transmit_sockets [simp]: "g_sockets (snd (tcp_transmit polls frame t)) = g_sockets t"
  by (simp add: tcp_transmit_def split: prod.splits)

lemma upd_upd_sock: "upd_sock i g (upd_sock i h t) = upd_sock i (g \<circ> h) t"
  by (cases "i < length (g_sockets t)") (simp_all add: upd_sock_def list_update_beyond)

lemma tcp_quiet_only_sockets: "g_sockets t = g_sockets t' \<Longrightarrow> tcp_quiet t = tcp_quiet t'"
  by (simp add: tcp_quiet_def)

lemma tcp_quiet_create:
  assumes "tcp_quiet t"
  shows "tcp_quiet (snd (tcp_socket_create t))"
proof (cases "find (\<lambda>i. \<not> active (g_sockets t ! i)) [0..<MAX_TCP_SOCKETS]")
  case None
  then show ?thesis using assms by (simp add: tcp_socket_create_def)
next
  case (Some i)
  let ?g = "\<lambda>s. s\<lparr>active := True, tcpstate := TCP_STATE_CLOSED, local_ip := 0xC0A80164, local_port := g_next_ephemeral_port t,
      seq_num := fst (rng_u32 (rand (net t))), ack_num := 0, window_size := word_of_nat TCP_RX_BUF_SIZE, rx_head := 0, rx_tail := 0\<rparr>"
  have "g_sockets (snd (tcp_socket_create t)) = g_sockets (upd_sock i ?g t)"
    using Some by (simp add: tcp_socket_create_def Let_def upd_sock_def split: prod.splits)
  moreover have "tcp_quiet (upd_sock i ?g t)" using assms by (intro tcp_quiet_upd) (simp_all add: quiet_def)
  ultimately show ?thesis using tcp_quiet_only_sockets by blast
qed

lemma tcp_quiet_connect:
  assumes "tcp_quiet t"
  shows "tcp_quiet (snd (tcp_socket_connect polls sid ip port t))"
proof (cases "bad_socket sid t")
  case True
  then show ?thesis using assms by (simp add: tcp_socket_connect_def)
next
  case False
  let ?i = "nat sid"
  let ?t1 = "upd_sock ?i (\<lambda>s. s\<lparr>remote_ip := ip, remote_port := port\<rparr>) t"
  let ?t2 = "upd_sock ?i (\<lambda>s. s\<lparr>tcpstate := TCP_STATE_SYN_SENT, seq_num := seq_num s + 1\<rparr>) ?t1"
  let ?t3 = "snd (tcp_transmit polls (socket_frame (g_sockets ?t1 ! ?i) TCP_SYN [] ?t1) ?t2)"
  let ?t4 = "upd_sock ?i (\<lambda>s. s\<lparr>tcpstate := TCP_STATE_ESTABLISHED, ack_num := 1000\<rparr>) ?t3"
  have q1: "tcp_quiet ?t1" using assms by (intro tcp_quiet_upd) (auto simp: tcp_quiet_def quiet_def)
  have "g_sockets ?t3 = g_sockets ?t2" by simp
  moreover have "?i < length (g_sockets t)" using False assms by (auto simp: bad_socket_def tcp_quiet_def)
  ultimately have "g_sockets ?t4 = g_sockets (upd_sock ?i (\<lambda>s. s\<lparr>seq_num := seq_num s + 1, tcpstate := TCP_STATE_ESTABLISHED, ack_num := 1000\<rparr>) ?t1)"
    by (simp add: upd_sock_def)
  moreover have "tcp_quiet (upd_sock ?i (\<lambda>s. s\<lparr>seq_num := seq_num s + 1, tcpstate := TCP_STATE_ESTABLISHED, ack_num := 1000\<rparr>) ?t1)"
    by (rule tcp_quiet_upd [OF q1]) (use q1 in \<open>auto simp: tcp_quiet_def quiet_def\<close>)
  ultimately have "tcp_quiet ?t4" by (simp add: tcp_quiet_def)
  then show ?thesis
    using False q1 by (simp add: tcp_socket_connect_def Let_def prod.case_eq_if)
qed

lemma tcp_quiet_send: "tcp_quiet t \<Longrightarrow> tcp_quiet (snd (tcp_socket_send polls sid buf t))"
proof -
  assume q: "tcp_quiet t"
  let ?t1 = "upd_sock (nat sid) (\<lambda>s. s\<lparr>seq_num := seq_num s + word_of_nat (length buf)\<rparr>) t"
  have "tcp_quiet ?t1" using q by (intro tcp_quiet_upd) (auto simp: tcp_quiet_def quiet_def)
  then have tq: "tcp_quiet (snd (tcp_transmit polls frame ?t1))" for frame by (simp add: tcp_quiet_def)
  then show ?thesis using q tq by (simp add: tcp_socket_send_def Let_def prod.case_eq_if)
qed

lemma recv_loop_quiet: "rx_head s = rx_tail s \<Longrightarrow> recv_loop n s = ([], s)"
  by (cases n) simp_all

lemma tcp_recv_quiet:
  "tcp_quiet t \<Longrightarrow> \<not> bad_socket sid t \<Longrightarrow> tcp_socket_recv sid n t = (0, [], t)"
proof -
  assume q: "tcp_quiet t" and b: "\<not> bad_socket sid t"
  then have "nat sid < MAX_TCP_SOCKETS" by (auto simp: bad_socket_def)
  then have "recv_loop n (g_sockets t ! nat sid) = ([], g_sockets t ! nat sid)"
    using q by (intro recv_loop_quiet) (auto simp: tcp_quiet_def quiet_def)
  then show ?thesis using b by (simp add: tcp_socket_recv_def upd_sock_def)
qed

lemma tcp_quiet_recv: "tcp_quiet t \<Longrightarrow> tcp_quiet (snd (snd (tcp_socket_recv sid n t)))"
  using tcp_recv_quiet by (cases "bad_socket sid t") (auto simp: tcp_socket_recv_def)

lemma tcp_quiet_close: "tcp_quiet t \<Longrightarrow> tcp_quiet (snd (tcp_socket_close sid t))"
proof -
  assume q: "tcp_quiet t"
  have "tcp_quiet (upd_sock (nat sid) (\<lambda>s. s\<lparr>active := False, tcpstate := TCP_STATE_CLOSED\<rparr>) t)"
    using q by (intro tcp_quiet_upd) (auto simp: tcp_quiet_def quiet_def)
  then show ?thesis using q by (simp add: tcp_socket_close_def Let_def upd_upd_sock comp_def)
qed

lemma tcp_packet_quiet: "tcp_quiet t \<Longrightarrow> tcp_handle_packet packet t = t"
  by (auto simp: tcp_handle_packet_def Let_def tcp_quiet_def quiet_def find_upt_Some_iff split: option.splits)

lemma tcp_reach_quiet: "tcp_reach t \<Longrightarrow> tcp_quiet t"
proof (induction rule: tcp_reach.induct)
  case (reach_init t)
  then show ?case by (simp add: tcp_init_def tcp_quiet_def quiet_def zero_socket_def)
qed (simp_all add: tcp_quiet_create tcp_quiet_connect tcp_quiet_send tcp_quiet_recv tcp_quiet_close tcp_packet_quiet)

text \<open>no data ever reaches an application.  In every reachable state of the socket layer, an arriving packet changes
  nothing, every receive call on an open socket returns zero bytes, and a socket is either closed or established: the
  states of the handshake and of the teardown are never visible.\<close>

theorem tcp_never_receives:
  assumes "tcp_reach t"
  shows "tcp_handle_packet packet t = t \<and>
    (\<not> bad_socket sid t \<longrightarrow> tcp_socket_recv sid n t = (0, [], t)) \<and>
    (\<forall>i<MAX_TCP_SOCKETS. tcpstate (g_sockets t ! i) \<in> {TCP_STATE_CLOSED, TCP_STATE_ESTABLISHED})"
  using tcp_reach_quiet [OF assms] tcp_packet_quiet tcp_recv_quiet by (auto simp: tcp_quiet_def quiet_def)

theorem tcp_never_receives_witness:
  "tcp_handle_packet (replicate 60 6) (snd (tcp_socket_create (tcp_init wtcp))) = snd (tcp_socket_create (tcp_init wtcp))"
  using tcp_never_receives [OF reach_create [OF reach_init]] by simp

text \<open>a failed send leaves a hole in the stream: when the card refuses the packet the call returns -1, but the sequence
  number has already moved past the bytes that were never transmitted.\<close>

theorem tcp_send_failure_skips_sequence:
  assumes "length (g_sockets t) = MAX_TCP_SOCKETS" "\<not> bad_socket sid t" "tcpstate (g_sockets t ! nat sid) = TCP_STATE_ESTABLISHED"
    and "length buf \<le> NET_TCP_PAYLOAD_MAX" "\<not> g_e1000_active (ncard (net t))"
  shows "\<exists>t'. tcp_socket_send polls sid buf t = (- 1, t') \<and>
    seq_num (g_sockets t' ! nat sid) = seq_num (g_sockets t ! nat sid) + word_of_nat (length buf)"
proof -
  have i: "nat sid < length (g_sockets t)" using assms(1,2) by (auto simp: bad_socket_def)
  have "socket_frame s flags buf t \<noteq> []" for s flags
    using assms(4) by (simp add: socket_frame_def net_build_tcp_def Let_def gw_mac_def)
  then show ?thesis
    using assms i by (simp add: tcp_socket_send_def Let_def tcp_transmit_def e1000_send_packet_def upd_sock_def)
qed

theorem tcp_send_failure_skips_sequence_witness:
  "\<exists>t'. tcp_socket_send (\<lambda>_. 1) 0 [1, 2, 3] (wtcp\<lparr>g_sockets := replicate 16 (wsock\<lparr>tcpstate := TCP_STATE_ESTABLISHED\<rparr>),
      net := wnet\<lparr>ncard := e1000_disable wnic\<rparr>\<rparr>) = (- 1, t') \<and> seq_num (g_sockets t' ! 0) = 3"
  using tcp_send_failure_skips_sequence [of "wtcp\<lparr>g_sockets := replicate 16 (wsock\<lparr>tcpstate := TCP_STATE_ESTABLISHED\<rparr>),
      net := wnet\<lparr>ncard := e1000_disable wnic\<rparr>\<rparr>" 0 "[1, 2, 3]" "\<lambda>_. 1"]
  by (simp add: bad_socket_def wsock_def zero_socket_def e1000_disable_def wnic_def)

end
