(* ===== verification/Tor.thy ===== *)
theory Tor
  imports Net
begin

unbundle bit_operations_syntax

text \<open>
  The Tor cell layer, \<^verbatim>\<open>src/kernel/tor.c\<close>: one circuit with three hop keys, fixed-size cells
  encrypted in three ChaCha20 layers, and the rotation of the circuit on timer ticks.
\<close>

section \<open>Model\<close>

abbreviation TOR_CELL_SIZE :: nat where "TOR_CELL_SIZE \<equiv> 512"
abbreviation TOR_CAPABILITY_TOKEN :: u32 where "TOR_CAPABILITY_TOKEN \<equiv> 0x544F5231"

record tor_circuit =
  circuit_id :: u32
  entry_key :: "u8 list"
  middle_key :: "u8 list"
  exit_key :: "u8 list"
  established :: bool
  last_rotation_ticks :: u32

record tor_state =
  g_tor_circuit :: tor_circuit
  g_tor_cells_sent :: u32
  tnet :: net_state

definition tor_gen_key :: "tor_state \<Rightarrow> u8 list \<times> tor_state" where
  "tor_gen_key t = (let (k, r) = rng_bytes 32 (rand (tnet t)) in (k, t\<lparr>tnet := (tnet t)\<lparr>rand := r\<rparr>\<rparr>))"

definition tor_new_circuit :: "tor_state \<Rightarrow> tor_state" where
  "tor_new_circuit t =
     (let (x, r) = rng_u32 (rand (tnet t));
          t1 = t\<lparr>g_tor_circuit := (g_tor_circuit t)\<lparr>circuit_id := x OR 0x1000\<rparr>, tnet := (tnet t)\<lparr>rand := r\<rparr>\<rparr>;
          (k1, t2) = tor_gen_key t1;
          (k2, t3) = tor_gen_key t2;
          (k3, t4) = tor_gen_key t3
      in t4\<lparr>g_tor_circuit := (g_tor_circuit t4)\<lparr>entry_key := k1, middle_key := k2, exit_key := k3\<rparr>\<rparr>)"

definition tor_init :: "tor_state \<Rightarrow> bool \<times> tor_state" where
  "tor_init t =
     (let t1 = tor_new_circuit (t\<lparr>g_tor_circuit := \<lparr>circuit_id = 0, entry_key = replicate 32 0, middle_key = replicate 32 0,
                                  exit_key = replicate 32 0, established = False, last_rotation_ticks = 0\<rparr>\<rparr>)
      in (True, t1\<lparr>g_tor_circuit := (g_tor_circuit t1)\<lparr>established := True, last_rotation_ticks := 0\<rparr>, g_tor_cells_sent := 0\<rparr>))"

definition tor_plain_cell :: "u32 \<Rightarrow> u8 list option \<Rightarrow> u8 list" where
  "tor_plain_cell cid payload =
     (let cell = be_bytes 4 cid @ [0x03] @ replicate (TOR_CELL_SIZE - 5) 0 in
      case payload of
        None \<Rightarrow> cell
      | Some pl \<Rightarrow>
          let copy_len = (if length pl > 498 then 498 else length pl)
          in take 14 cell @ take copy_len pl @ drop (14 + copy_len) cell)"

definition tor_nonce :: "u32 \<Rightarrow> u32 \<Rightarrow> u8 list" where
  "tor_nonce cid count = be_bytes 4 cid @ be_bytes 4 count @ replicate 4 0"

definition tor_layer :: "u8 list \<Rightarrow> u8 list \<Rightarrow> u8 list \<Rightarrow> u8 list" where
  "tor_layer key nonce cell = take 5 cell @ chacha20_encrypt key nonce 1 (drop 5 cell)"

definition tor_cell :: "tor_state \<Rightarrow> u8 list option \<Rightarrow> u8 list" where
  "tor_cell t payload =
     (let c = g_tor_circuit t;
          nonce = tor_nonce (circuit_id c) (g_tor_cells_sent t + 1)
      in tor_layer (entry_key c) nonce (tor_layer (middle_key c) nonce
           (tor_layer (exit_key c) nonce (tor_plain_cell (circuit_id c) payload))))"

definition tor_send_cell :: "(nat \<Rightarrow> u8) \<Rightarrow> u8 list option \<Rightarrow> u32 \<Rightarrow> tor_state \<Rightarrow> bool \<times> tor_state" where
  "tor_send_cell polls payload cap_token t =
     (if cap_token \<noteq> TOR_CAPABILITY_TOKEN then (False, t)
      else if \<not> established (g_tor_circuit t) then (False, t)
      else
        let frame = net_build_udp (anonymize_get_mac (anon (tnet t))) gw_mac 0xC0A80164 0xC0A80101 9001 9001
                      (Some (tor_cell t payload))
        in if length frame > 0 then
             let n = (if g_e1000_active (ncard (tnet t)) then snd (e1000_send_packet polls frame (ncard (tnet t))) else ncard (tnet t))
             in (True, t\<lparr>tnet := (tnet t)\<lparr>ncard := n\<rparr>, g_tor_cells_sent := g_tor_cells_sent t + 1\<rparr>)
           else (False, t))"

definition tor_rotate_circuit :: "tor_state \<Rightarrow> tor_state" where
  "tor_rotate_circuit t =
     (let t1 = t\<lparr>tnet := padding_boost True (tnet t)\<rparr>;
          t2 = tor_new_circuit t1
      in t2\<lparr>tnet := padding_boost False (tnet t2)\<rparr>)"

definition tor_tick :: "u64 \<Rightarrow> tor_state \<Rightarrow> tor_state" where
  "tor_tick tk t =
     (let c = g_tor_circuit t in
      if \<not> established c then t
      else if last_rotation_ticks c = 0 then t\<lparr>g_tor_circuit := c\<lparr>last_rotation_ticks := ucast tk\<rparr>\<rparr>
      else if tk - ucast (last_rotation_ticks c) \<ge> 6000
           then tor_rotate_circuit (t\<lparr>g_tor_circuit := c\<lparr>last_rotation_ticks := ucast tk\<rparr>\<rparr>)
           else t)"

definition tor_check_dead_reckoning :: "bool \<Rightarrow> tor_state \<Rightarrow> bool \<times> tor_state" where
  "tor_check_dead_reckoning simulate_drop t =
     (if simulate_drop then (False, t\<lparr>g_tor_circuit := (g_tor_circuit t)\<lparr>established := False\<rparr>\<rparr>)
      else (established (g_tor_circuit t), t))"

section \<open>Lemmas\<close>

lemma chacha20_encrypt_twice: "chacha20_encrypt k n c (chacha20_encrypt k n c m) = m"
  unfolding chacha20_encrypt_def by (rule chacha.f_involution)

lemma length_chacha20_encrypt [simp]: "length (chacha20_encrypt k n c m) = length m"
  unfolding chacha20_encrypt_def by (rule chacha.length_f)

lemma length_tor_layer [simp]: "length (tor_layer k n c) = length c"
  by (simp add: tor_layer_def)

lemma tor_layer_twice: "5 \<le> length c \<Longrightarrow> tor_layer k n (tor_layer k n c) = c"
  by (simp add: tor_layer_def chacha20_encrypt_twice)

lemma length_tor_plain_cell [simp]: "length (tor_plain_cell cid payload) = TOR_CELL_SIZE"
  by (cases payload) (simp_all add: tor_plain_cell_def Let_def)

lemma tor_plain_cell_payload:
  "length pl \<le> 498 \<Longrightarrow> take (length pl) (drop 14 (tor_plain_cell cid (Some pl))) = pl"
  by (simp add: tor_plain_cell_def Let_def)

lemma be_bytes4_inj: "be_bytes 4 x = be_bytes 4 y \<Longrightarrow> x = y" for x y :: u32
proof -
  assume "be_bytes 4 x = be_bytes 4 y"
  then have "(be_word (be_bytes 4 x) :: u32) = be_word (be_bytes 4 y)" by simp
  then show ?thesis by (simp add: be_word_bytes)
qed

text \<open>Two cells of one circuit never share a nonce before the cell counter wraps.\<close>

lemma tor_nonce_fresh: "count \<noteq> count' \<Longrightarrow> tor_nonce cid count \<noteq> tor_nonce cid count'"
  using be_bytes4_inj by (auto simp: tor_nonce_def)

lemma tor_new_circuit_keeps [simp]:
  "established (g_tor_circuit (tor_new_circuit t)) = established (g_tor_circuit t)"
  "last_rotation_ticks (g_tor_circuit (tor_new_circuit t)) = last_rotation_ticks (g_tor_circuit t)"
  by (simp_all add: tor_new_circuit_def tor_gen_key_def Let_def split: prod.splits)

lemma tor_rotate_keeps [simp]:
  "established (g_tor_circuit (tor_rotate_circuit t)) = established (g_tor_circuit t)"
  "last_rotation_ticks (g_tor_circuit (tor_rotate_circuit t)) = last_rotation_ticks (g_tor_circuit t)"
  by (simp_all add: tor_rotate_circuit_def Let_def)

section \<open>Properties\<close>

text \<open>C34: the cell is an onion that the three hops peel in order.  A cell is 512 bytes; removing the entry, the middle and the
  exit layer, each with its own key and the cell's nonce, gives back the plain cell with the circuit number, the
  relay command and the payload.\<close>

theorem tor_onion_peels:
  assumes "length pl \<le> 498"
    and "nonce = tor_nonce (circuit_id (g_tor_circuit t)) (g_tor_cells_sent t + 1)"
    and "plain = tor_layer (exit_key (g_tor_circuit t)) nonce (tor_layer (middle_key (g_tor_circuit t)) nonce
           (tor_layer (entry_key (g_tor_circuit t)) nonce (tor_cell t (Some pl))))"
  shows "length (tor_cell t (Some pl)) = TOR_CELL_SIZE \<and>
    be_word (take 4 plain) = circuit_id (g_tor_circuit t) \<and> plain ! 4 = 3 \<and> take (length pl) (drop 14 plain) = pl"
proof -
  let ?p = "tor_plain_cell (circuit_id (g_tor_circuit t)) (Some pl)"
  have "plain = ?p"
    unfolding assms(2,3) tor_cell_def Let_def by (simp add: tor_layer_twice)
  moreover have "be_word (take 4 ?p) = circuit_id (g_tor_circuit t)" "?p ! 4 = 3"
    by (simp_all add: tor_plain_cell_def Let_def nth_append be_word_bytes)
  moreover have "length (tor_cell t (Some pl)) = TOR_CELL_SIZE"
    by (simp add: tor_cell_def Let_def)
  ultimately show ?thesis
    using tor_plain_cell_payload [OF assms(1)] by simp
qed

definition wtor :: tor_state where
  "wtor = \<lparr>g_tor_circuit = \<lparr>circuit_id = 0x1000, entry_key = replicate 32 1, middle_key = replicate 32 2,
             exit_key = replicate 32 3, established = True, last_rotation_ticks = 1\<rparr>, g_tor_cells_sent = 0,
           tnet = \<lparr>ncard = wnic, anon = \<lparr>seed = 0, g_anonymized_mac = replicate 6 2\<rparr>,
             rand = \<lparr>gen = \<lparr>g_s = [1, 2, 3, 4], g_call_counter = 0, g_initialized = True\<rparr>,
                     readings = (\<lambda>_. (\<lparr>g_s = [1, 2, 3, 4], g_call_counter = 0, g_initialized = True\<rparr>, 5, 6)), calls = 0\<rparr>,
             g_padding_packets_sent = 0, g_padding_boost_active = False, g_last_padding_ticks = 0\<rparr>\<rparr>"

theorem tor_onion_peels_witness: "length (tor_cell wtor (Some [7])) = TOR_CELL_SIZE"
  using tor_onion_peels [of "[7]" _ wtor, OF _ refl refl] by simp

text \<open>a cell is transmitted only for a caller with the network token and only on an established circuit; a torn down
  circuit stays silent whatever the timer does, until it is initialised again.\<close>

theorem tor_send_cell_guarded:
  assumes "tor_send_cell polls payload token t = (ok, t')"
  shows "(ok \<longrightarrow> token = TOR_CAPABILITY_TOKEN \<and> established (g_tor_circuit t) \<and> g_tor_cells_sent t' = g_tor_cells_sent t + 1) \<and>
    (\<not> ok \<longrightarrow> t' = t) \<and>
    fst (tor_send_cell polls payload token (fold tor_tick tks (snd (tor_check_dead_reckoning True t)))) = False"
proof -
  have "\<not> established (g_tor_circuit (fold tor_tick tks s))" if "\<not> established (g_tor_circuit s)" for s
    using that by (induction tks arbitrary: s) (simp_all add: tor_tick_def Let_def)
  then have "\<not> established (g_tor_circuit (fold tor_tick tks (snd (tor_check_dead_reckoning True t))))"
    by (simp add: tor_check_dead_reckoning_def)
  then show ?thesis
    using assms by (auto simp: tor_send_cell_def Let_def split: if_splits)
qed

theorem tor_send_cell_guarded_witness:
  "tor_send_cell (\<lambda>_. 1) (Some [7]) 5 wtor = (False, wtor) \<and>
   fst (tor_send_cell (\<lambda>_. 1) (Some [7]) 5 (fold tor_tick [7, 9] (snd (tor_check_dead_reckoning True wtor)))) = False"
proof -
  have "tor_send_cell (\<lambda>_. 1) (Some [7]) 5 wtor = (False, wtor)"
    by (simp add: tor_send_cell_def)
  then show ?thesis using tor_send_cell_guarded by blast
qed

text \<open>from 2 ^ 32 + 6000 ticks of uptime on, the 60 second rotation period is lost: the time of the last rotation is kept in
  32 bits but compared with a 64-bit tick count, so every tick rotates the circuit.\<close>

theorem tor_rotates_every_tick:
  assumes "2 ^ 32 + 6000 \<le> unat tk" "established (g_tor_circuit t)" "last_rotation_ticks (g_tor_circuit t) \<noteq> 0"
  shows "tor_tick tk t =
    tor_rotate_circuit (t\<lparr>g_tor_circuit := (g_tor_circuit t)\<lparr>last_rotation_ticks := ucast tk\<rparr>\<rparr>)"
proof -
  let ?l = "ucast (last_rotation_ticks (g_tor_circuit t)) :: u64"
  have "unat ?l < 2 ^ 32"
    using unsigned_less [of "last_rotation_ticks (g_tor_circuit t)", where ?'a = nat]
    by (simp add: unsigned_ucast_eq take_bit_nat_eq_self)
  then have "unat (tk - ?l) = unat tk - unat ?l" "6000 \<le> unat tk - unat ?l"
    using assms(1) by (simp_all add: unat_sub word_le_nat_alt)
  then have "6000 \<le> tk - ?l" by (simp add: word_le_nat_alt)
  then show ?thesis using assms(2,3) by (simp add: tor_tick_def Let_def)
qed

theorem tor_rotates_every_tick_witness:
  "tor_tick 0x100002000 wtor = tor_rotate_circuit (wtor\<lparr>g_tor_circuit := (g_tor_circuit wtor)\<lparr>last_rotation_ticks := ucast (0x100002000 :: u64)\<rparr>\<rparr>)"
  using tor_rotates_every_tick [of "0x100002000" wtor] by (simp add: wtor_def)

end
