(* ===== verification/Storage.thy ===== *)
theory Storage
  imports Net Xts Sha512
begin

unbundle bit_operations_syntax

text \<open>
  The storage stack: USB mass storage (\<^verbatim>\<open>src/kernel/usb_msc.c\<close>), the sector integrity list
  (\<^verbatim>\<open>merkle.c\<close>, \<^verbatim>\<open>integrity.c\<close>) and the self-destruct sequence (\<^verbatim>\<open>destruct.c\<close>) that a failed integrity
  check starts.  The USB device with its host controller is hardware: the fields \<open>xhci_bulk_out\<close> and
  \<open>xhci_bulk_in\<close> are what a bulk transfer does to the device state \<open>dev\<close>.  A call that ends in the halt loop of
  the self-destruct sequence gives \<open>Halt\<close> with the state it leaves behind.  The field \<open>stack\<close> stands for the
  uninitialised stack bytes that the hash contexts are placed on.
\<close>

section \<open>State\<close>

datatype ('a, 's) run = Ret 'a 's | Halt 's

fun run_bind :: "('a, 's) run \<Rightarrow> ('a \<Rightarrow> 's \<Rightarrow> ('b, 's) run) \<Rightarrow> ('b, 's) run" where
  "run_bind (Ret x s) k = k x s"
| "run_bind (Halt s) k = Halt s"

record 'd storage =
  dev :: 'd
  xhci_bulk_out :: "u8 list \<Rightarrow> 'd \<Rightarrow> int \<times> 'd"
  xhci_bulk_in :: "nat \<Rightarrow> 'd \<Rightarrow> int \<times> u8 list \<times> 'd"
  g_encryption_enabled :: bool
  g_xts_ctx :: aes256_xts_ctx
  g_tag :: u32
  g_sector_cnt :: u32
  g_leaves :: "u8 list list"
  g_root :: "u8 list"
  merkle_initialized :: bool
  g_auth_derived_key :: "u8 list"
  snet :: net_state
  tx_polls :: "nat \<Rightarrow> u8"
  stack :: "u8 list"

section \<open>Bulk-only transport\<close>

record cbw =
  dCBWTag :: u32
  dCBWDataTransferLength :: u32
  bmCBWFlags :: u8
  bCBWLUN :: u8
  bCBWCBLength :: u8
  CBWCB :: "u8 list"

abbreviation CBW_SIGNATURE :: u32 where "CBW_SIGNATURE \<equiv> 0x43425355"
abbreviation CSW_SIGNATURE :: u32 where "CSW_SIGNATURE \<equiv> 0x53425355"
abbreviation CSW_SIZE :: nat where "CSW_SIZE \<equiv> 13"

definition cbw_bytes :: "cbw \<Rightarrow> u8 list" where
  "cbw_bytes c = le_bytes 4 CBW_SIGNATURE @ le_bytes 4 (dCBWTag c) @ le_bytes 4 (dCBWDataTransferLength c) @
                 [bmCBWFlags c, bCBWLUN c, bCBWCBLength c] @ CBWCB c"

definition make_cbw :: "u32 \<Rightarrow> u8 \<Rightarrow> u8 \<Rightarrow> 'd storage \<Rightarrow> cbw \<times> 'd storage" where
  "make_cbw xfer_len flags cb_len s =
     (\<lparr>dCBWTag = g_tag s, dCBWDataTransferLength = xfer_len, bmCBWFlags = flags, bCBWLUN = 0,
       bCBWCBLength = cb_len, CBWCB = replicate 16 0\<rparr>, s\<lparr>g_tag := g_tag s + 1\<rparr>)"

definition bulk_out :: "u8 list \<Rightarrow> 'd storage \<Rightarrow> int \<times> 'd storage" where
  "bulk_out bs s = (let (rc, d) = xhci_bulk_out s bs (dev s) in (rc, s\<lparr>dev := d\<rparr>))"

definition bulk_in :: "nat \<Rightarrow> 'd storage \<Rightarrow> int \<times> u8 list \<times> 'd storage" where
  "bulk_in n s = (let (rc, bs, d) = xhci_bulk_in s n (dev s) in (rc, bs, s\<lparr>dev := d\<rparr>))"

definition bot_status :: "'d storage \<Rightarrow> int \<times> 'd storage" where
  "bot_status s =
     (let (rc, csw, s1) = bulk_in CSW_SIZE s in
      if rc \<noteq> 0 then (- 3, s1)
      else if (le_word (take 4 csw) :: u32) \<noteq> CSW_SIGNATURE then (- 4, s1)
      else if csw ! 12 \<noteq> 0 then (- 5, s1)
      else (0, s1))"

definition bot_execute :: "cbw \<Rightarrow> u8 list \<Rightarrow> bool \<Rightarrow> 'd storage \<Rightarrow> int \<times> u8 list \<times> 'd storage" where
  "bot_execute c data data_in s =
     (let (rc, s1) = bulk_out (cbw_bytes c) s in
      if rc \<noteq> 0 then (- 1, data, s1)
      else
        let (rc2, data2, s2) =
              (if length data > 0 then
                 if data_in then bulk_in (length data) s1
                 else (let (r, s') = bulk_out data s1 in (r, data, s'))
               else (0, data, s1))
        in if rc2 \<noteq> 0 then (- 2, data2, s2)
           else let (rc3, s3) = bot_status s2 in (rc3, data2, s3))"

definition msc_inquiry :: "u8 list \<Rightarrow> 'd storage \<Rightarrow> int \<times> 'd storage" where
  "msc_inquiry buf s =
     (let (c, s1) = make_cbw 36 0x80 6 s;
          (rc, _, s2) = bot_execute (c\<lparr>CBWCB := (CBWCB c)[0 := 0x12, 4 := 36]\<rparr>) (take 36 buf) True s1
      in (rc, s2))"

definition msc_read_capacity :: "u8 list \<Rightarrow> 'd storage \<Rightarrow> int \<times> 'd storage" where
  "msc_read_capacity buf s =
     (let (c, s1) = make_cbw 8 0x80 10 s;
          (rc, bs, s2) = bot_execute (c\<lparr>CBWCB := (CBWCB c)[0 := 0x25]\<rparr>) (take 8 buf) True s1
      in if rc = 0 then (rc, s2\<lparr>g_sector_cnt := be_word (take 4 bs) + 1\<rparr>) else (rc, s2))"

definition usb_msc_init :: "bool \<Rightarrow> u8 list \<Rightarrow> 'd storage \<Rightarrow> bool \<times> 'd storage" where
  "usb_msc_init msd_present buf s =
     (if \<not> msd_present then (False, s)
      else
        let (rc1, s1) = msc_inquiry buf s in
        if rc1 \<noteq> 0 then (False, s1)
        else let (rc2, s2) = msc_read_capacity buf s1 in (rc2 = 0, s2))"

definition rw_cbw :: "u8 \<Rightarrow> u32 \<Rightarrow> cbw \<Rightarrow> cbw" where
  "rw_cbw opcode lba c =
     c\<lparr>CBWCB := (CBWCB c)[0 := opcode, 2 := ucast (drop_bit 24 lba AND 0xFF), 3 := ucast (drop_bit 16 lba AND 0xFF),
                          4 := ucast (drop_bit 8 lba AND 0xFF), 5 := ucast (lba AND 0xFF), 8 := 1]\<rparr>"

definition usb_msc_write_sector :: "u32 \<Rightarrow> u8 list \<Rightarrow> 'd storage \<Rightarrow> int \<times> 'd storage" where
  "usb_msc_write_sector lba buf s =
     (let data = (if g_encryption_enabled s then aes256_xts_encrypt_sector (g_xts_ctx s) lba buf else buf);
          (c, s1) = make_cbw 512 0x00 10 s;
          (rc, _, s2) = bot_execute (rw_cbw 0x2A lba c) data False s1
      in (rc, s2))"

definition usb_msc_sector_count :: "'d storage \<Rightarrow> u32" where
  "usb_msc_sector_count s = g_sector_cnt s"

section \<open>Self-destruct\<close>

text \<open>The temporary switch to unencrypted access that several callers make around a transfer.\<close>

definition raw_write :: "u32 \<Rightarrow> u8 list \<Rightarrow> 'd storage \<Rightarrow> 'd storage" where
  "raw_write lba buf s =
     (snd (usb_msc_write_sector lba buf (s\<lparr>g_encryption_enabled := False\<rparr>)))\<lparr>g_encryption_enabled := g_encryption_enabled s\<rparr>"

definition wipe_random :: "u32 \<Rightarrow> 'd storage \<Rightarrow> 'd storage" where
  "wipe_random lba s =
     (let (buf, r) = rng_bytes 512 (rand (snet s))
      in snd (usb_msc_write_sector lba buf (s\<lparr>snet := (snet s)\<lparr>rand := r\<rparr>\<rparr>)))"

definition wipe_zero :: "u32 \<Rightarrow> 'd storage \<Rightarrow> 'd storage" where
  "wipe_zero lba s = snd (usb_msc_write_sector lba (replicate 512 0) s)"

definition wipe_sectors :: "u32 \<Rightarrow> nat \<Rightarrow> 'd storage \<Rightarrow> 'd storage" where
  "wipe_sectors start_lba count s =
     (let lbas = map (\<lambda>i. start_lba + word_of_nat i) [0..<count]
      in fold wipe_random lbas (fold wipe_zero lbas (fold wipe_random lbas s)))"

definition destruct_trigger :: "u8 list option \<Rightarrow> 'd storage \<Rightarrow> 'd storage" where
  "destruct_trigger reason s =
     (let (sent, n) = net_send_beacon (tx_polls s) (anon (snet s)) reason (ncard (snet s));
          s1 = s\<lparr>snet := (snet s)\<lparr>ncard := n\<rparr>\<rparr>;
          saved_enc = g_encryption_enabled s1;
          s2 = s1\<lparr>g_encryption_enabled := False\<rparr>;
          s3 = wipe_sectors 1 9 s2;
          s4 = wipe_sectors 500 1 s3
      in s4\<lparr>g_encryption_enabled := saved_enc, g_auth_derived_key := replicate 64 0\<rparr>)"

section \<open>Sector integrity\<close>

abbreviation MERKLE_MAX_SECTORS :: nat where "MERKLE_MAX_SECTORS \<equiv> 8192"
abbreviation MERKLE_LEAF_SECTOR_BASE :: u32 where "MERKLE_LEAF_SECTOR_BASE \<equiv> 10"
abbreviation MERKLE_ROOT_LBA :: u32 where "MERKLE_ROOT_LBA \<equiv> 3"
abbreviation SHA256_LEN :: nat where "SHA256_LEN \<equiv> 32"
abbreviation HASHES_PER_SECTOR :: nat where "HASHES_PER_SECTOR \<equiv> 16"
abbreviation MERKLE_TREE_SECTORS :: nat where "MERKLE_TREE_SECTORS \<equiv> 512"

definition sha256_of :: "u8 list \<Rightarrow> u8 list \<Rightarrow> u8 list" where
  "sha256_of stk data = take SHA256_LEN (sha512 stk data)"

definition merkle_root_of :: "u8 list \<Rightarrow> u8 list list \<Rightarrow> u8 list" where
  "merkle_root_of stk leaves =
     fold (\<lambda>i running. sha256_of stk (running @ leaves ! i)) [1..<MERKLE_MAX_SECTORS] (sha256_of stk (leaves ! 0))"

definition recompute_root :: "'d storage \<Rightarrow> 'd storage" where
  "recompute_root s = s\<lparr>g_root := merkle_root_of (stack s) (g_leaves s)\<rparr>"

definition persist_leaf :: "u32 \<Rightarrow> 'd storage \<Rightarrow> 'd storage" where
  "persist_leaf lba s =
     (if unat lba \<ge> MERKLE_MAX_SECTORS then s
      else
        let sector_idx = unat lba div HASHES_PER_SECTOR;
            sector = concat (map (\<lambda>i. g_leaves s ! (sector_idx * HASHES_PER_SECTOR + i)) [0..<HASHES_PER_SECTOR])
        in raw_write (MERKLE_LEAF_SECTOR_BASE + word_of_nat sector_idx) sector s)"

definition persist_root :: "'d storage \<Rightarrow> 'd storage" where
  "persist_root s =
     (let mac = hmac_sha512 (stack s) (ascii ''styxos-merkle-root-hmac-key-v1'') (g_root s)
      in raw_write MERKLE_ROOT_LBA (g_root s @ mac @ replicate 416 0) s)"

definition merkle_update :: "u32 \<Rightarrow> u8 list \<Rightarrow> 'd storage \<Rightarrow> 'd storage" where
  "merkle_update lba plaintext s =
     (if \<not> merkle_initialized s \<or> unat lba \<ge> MERKLE_MAX_SECTORS then s
      else persist_root (recompute_root (persist_leaf lba
             (s\<lparr>g_leaves := (g_leaves s)[unat lba := sha256_of (stack s) plaintext]\<rparr>))))"

definition merkle_verify :: "u32 \<Rightarrow> u8 list \<Rightarrow> 'd storage \<Rightarrow> bool" where
  "merkle_verify lba plaintext s =
     (if \<not> merkle_initialized s \<or> unat lba \<ge> MERKLE_MAX_SECTORS then True
      else sha256_of (stack s) plaintext = g_leaves s ! unat lba)"

definition merkle_get_root :: "'d storage \<Rightarrow> u8 list" where
  "merkle_get_root s = g_root s"

definition integrity_verify_sector :: "u32 \<Rightarrow> u8 list option \<Rightarrow> 'd storage \<Rightarrow> bool" where
  "integrity_verify_sector lba data s = (case data of None \<Rightarrow> False | Some d \<Rightarrow> merkle_verify lba d s)"

definition usb_msc_read_sector :: "u32 \<Rightarrow> u8 list \<Rightarrow> 'd storage \<Rightarrow> (int \<times> u8 list, 'd storage) run" where
  "usb_msc_read_sector lba buf s =
     (let (c, s1) = make_cbw 512 0x80 10 s;
          (rc, bs, s2) = bot_execute (rw_cbw 0x28 lba c) buf True s1
      in if rc = 0 \<and> g_encryption_enabled s2 then
           let plain = aes256_xts_decrypt_sector (g_xts_ctx s2) lba bs in
           if \<not> integrity_verify_sector lba (Some plain) s2
           then Halt (destruct_trigger (Some (ascii ''Sector integrity verification mismatch'')) s2)
           else Ret (rc, plain) s2
         else Ret (rc, bs) s2)"

definition raw_read :: "u32 \<Rightarrow> u8 list \<Rightarrow> 'd storage \<Rightarrow> (int \<times> u8 list, 'd storage) run" where
  "raw_read lba buf s =
     run_bind (usb_msc_read_sector lba buf (s\<lparr>g_encryption_enabled := False\<rparr>))
       (\<lambda>r s1. Ret r (s1\<lparr>g_encryption_enabled := g_encryption_enabled s\<rparr>))"

fun load_leaves_from_usb :: "nat list \<Rightarrow> 'd storage \<Rightarrow> (unit, 'd storage) run" where
  "load_leaves_from_usb [] s = Ret () s"
| "load_leaves_from_usb (si # sis) s =
     run_bind (raw_read (MERKLE_LEAF_SECTOR_BASE + word_of_nat si) (replicate 512 0) s)
       (\<lambda>(rc, sector) s1.
          if rc \<noteq> 0 then load_leaves_from_usb sis s1
          else
            let base = si * HASHES_PER_SECTOR;
                leaves = fold (\<lambda>i ls. ls[base + i := take SHA256_LEN (drop (i * SHA256_LEN) sector)]) [0..<HASHES_PER_SECTOR] (g_leaves s1)
            in load_leaves_from_usb sis (s1\<lparr>g_leaves := leaves\<rparr>))"

definition merkle_init :: "'d storage \<Rightarrow> (unit, 'd storage) run" where
  "merkle_init s =
     (let s1 = s\<lparr>g_leaves := replicate MERKLE_MAX_SECTORS (replicate SHA256_LEN 0), g_root := replicate SHA256_LEN 0\<rparr>
      in run_bind (if unat (usb_msc_sector_count s1) > 0 then load_leaves_from_usb [0..<MERKLE_TREE_SECTORS] s1 else Ret () s1)
           (\<lambda>_ s2. Ret () ((recompute_root s2)\<lparr>merkle_initialized := True\<rparr>)))"

section \<open>The sector interface\<close>

text \<open>The documented behaviour of a SCSI disk behind a working host controller: a READ(10) or WRITE(10) command block is
  accepted, the data phase transfers the addressed sector, and a good status block ends the command.\<close>

definition rw_command :: "u8 \<Rightarrow> u8 \<Rightarrow> u32 \<Rightarrow> u32 \<Rightarrow> u8 list" where
  "rw_command opcode flags tg lba =
     cbw_bytes (rw_cbw opcode lba \<lparr>dCBWTag = tg, dCBWDataTransferLength = 512, bmCBWFlags = flags, bCBWLUN = 0,
                                   bCBWCBLength = 10, CBWCB = replicate 16 0\<rparr>)"

definition good_csw :: "u8 list \<Rightarrow> bool" where
  "good_csw csw = ((le_word (take 4 csw) :: u32) = CSW_SIGNATURE \<and> csw ! 12 = 0)"

definition scsi_disk ::
  "('d \<Rightarrow> u32 \<Rightarrow> u8 list) \<Rightarrow> ('d \<Rightarrow> bool) \<Rightarrow> (u8 list \<Rightarrow> 'd \<Rightarrow> int \<times> 'd) \<Rightarrow> (nat \<Rightarrow> 'd \<Rightarrow> int \<times> u8 list \<times> 'd) \<Rightarrow> bool" where
  "scsi_disk content ready bo bi =
     ((\<forall>d lba. ready d \<longrightarrow> length (content d lba) = 512) \<and>
      (\<forall>d lba tg. ready d \<longrightarrow> (\<exists>d1 d2 d3 csw. bo (rw_command 0x28 0x80 tg lba) d = (0, d1) \<and>
          bi 512 d1 = (0, content d lba, d2) \<and> bi CSW_SIZE d2 = (0, csw, d3) \<and> good_csw csw \<and> ready d3 \<and> content d3 = content d)) \<and>
      (\<forall>d lba tg data. ready d \<longrightarrow> length data = 512 \<longrightarrow> (\<exists>d1 d2 d3 csw. bo (rw_command 0x2A 0x00 tg lba) d = (0, d1) \<and>
          bo data d1 = (0, d2) \<and> bi CSW_SIZE d2 = (0, csw, d3) \<and> good_csw csw \<and> ready d3 \<and> content d3 = (content d)(lba := data))))"

text \<open>The disk the layers above can rely on.  With encryption on and the integrity list in force a read may start the self-destruct
  sequence instead of returning (the round trip of sectors below follows both outcomes); this state, in which the machine is after a log-in until the boot
  continues with encryption off, is excluded here.\<close>

definition disk_ok :: "('d \<Rightarrow> u32 \<Rightarrow> u8 list) \<Rightarrow> ('d \<Rightarrow> bool) \<Rightarrow> 'd storage \<Rightarrow> bool" where
  "disk_ok content ready s =
     (scsi_disk content ready (xhci_bulk_out s) (xhci_bulk_in s) \<and> ready (dev s) \<and>
      (g_encryption_enabled s \<longrightarrow> \<not> merkle_initialized s))"

text \<open>A sector as the layers above see it: decrypted when encryption is on.\<close>

definition sector_view :: "('d \<Rightarrow> u32 \<Rightarrow> u8 list) \<Rightarrow> 'd storage \<Rightarrow> u32 \<Rightarrow> u8 list" where
  "sector_view content s lba =
     (if g_encryption_enabled s then aes256_xts_decrypt_sector (g_xts_ctx s) lba (content (dev s) lba)
      else content (dev s) lba)"

text \<open>What a client of the sector layer relies on.\<close>

locale sector_io =
  fixes rd :: "u32 \<Rightarrow> u8 list \<Rightarrow> 's \<Rightarrow> (int \<times> u8 list, 's) run"
    and wr :: "u32 \<Rightarrow> u8 list \<Rightarrow> 's \<Rightarrow> int \<times> 's"
    and view :: "'s \<Rightarrow> u32 \<Rightarrow> u8 list"
    and ok :: "'s \<Rightarrow> bool"
    and same :: "'s \<Rightarrow> 's \<Rightarrow> bool"
  assumes rd_view: "ok s \<Longrightarrow> length buf = 512 \<Longrightarrow>
      \<exists>s'. rd lba buf s = Ret (0, view s lba) s' \<and> ok s' \<and> view s' = view s \<and> same s s'"
    and wr_view: "ok s \<Longrightarrow> length buf = 512 \<Longrightarrow>
      \<exists>s'. wr lba buf s = (0, s') \<and> ok s' \<and> view s' = (view s)(lba := buf) \<and> same s s'"
    and same_refl: "same s s"
    and same_trans: "same s s' \<Longrightarrow> same s' s'' \<Longrightarrow> same s s''"
begin

text \<open>A sequence of writes leaves, in every sector, the last data written to it.\<close>

lemma wr_fold:
  "ok s \<Longrightarrow> \<forall>(lba, b) \<in> set ws. length b = 512 \<Longrightarrow>
   \<exists>s'. fold (\<lambda>(lba, b) s. snd (wr lba b s)) ws s = s' \<and> ok s' \<and> same s s' \<and>
        view s' = fold (\<lambda>(lba, b) v. v(lba := b)) ws (view s)"
proof (induction ws arbitrary: s)
  case Nil
  then show ?case using same_refl by simp
next
  case (Cons w ws)
  obtain lba b where w: "w = (lba, b)" by (cases w)
  obtain s1 where "wr lba b s = (0, s1)" "ok s1" "view s1 = (view s)(lba := b)" "same s s1"
    using wr_view [of s b lba] Cons.prems w by auto
  then show ?case using Cons.IH [of s1] Cons.prems w same_trans by auto
qed

lemma wr_then_rd:
  "ok s \<Longrightarrow> length b = 512 \<Longrightarrow> length buf = 512 \<Longrightarrow>
   \<exists>s'. rd lba' buf (snd (wr lba b s)) = Ret (0, if lba' = lba then b else view s lba') s'"
  using wr_view [of s b lba] rd_view [of "snd (wr lba b s)" buf lba'] by fastforce

end

definition same_storage :: "'d storage \<Rightarrow> 'd storage \<Rightarrow> bool" where
  "same_storage s s' = (\<exists>d t. s' = s\<lparr>g_tag := t, dev := d\<rparr>)"

lemma same_storageD:
  assumes "same_storage s s'"
  shows "g_encryption_enabled s' = g_encryption_enabled s" "g_xts_ctx s' = g_xts_ctx s" "snet s' = snet s"
    "g_leaves s' = g_leaves s" "g_root s' = g_root s" "merkle_initialized s' = merkle_initialized s" "stack s' = stack s"
    "xhci_bulk_out s' = xhci_bulk_out s" "xhci_bulk_in s' = xhci_bulk_in s" "g_sector_cnt s' = g_sector_cnt s"
    "g_auth_derived_key s' = g_auth_derived_key s" "tx_polls s' = tx_polls s"
  using assms by (auto simp: same_storage_def)

lemma bot_read:
  assumes "scsi_disk content ready (xhci_bulk_out s) (xhci_bulk_in s)" "ready (dev s)" "length buf = 512"
  shows "\<exists>s'. bot_execute (rw_cbw 0x28 lba (fst (make_cbw 512 0x80 10 s))) buf True (snd (make_cbw 512 0x80 10 s)) =
      (0, content (dev s) lba, s') \<and> same_storage s s' \<and> ready (dev s') \<and> content (dev s') = content (dev s)"
proof -
  obtain d1 d2 d3 csw where "xhci_bulk_out s (rw_command 0x28 0x80 (g_tag s) lba) (dev s) = (0, d1)"
      "xhci_bulk_in s 512 d1 = (0, content (dev s) lba, d2)" "xhci_bulk_in s CSW_SIZE d2 = (0, csw, d3)" "good_csw csw"
      "ready d3" "content d3 = content (dev s)"
    using assms(1,2) unfolding scsi_disk_def by blast
  then show ?thesis
    using assms(3) by (simp add: bot_execute_def bot_status_def bulk_out_def bulk_in_def make_cbw_def rw_command_def good_csw_def
        same_storage_def Let_def) blast
qed

lemma bot_write:
  assumes "scsi_disk content ready (xhci_bulk_out s) (xhci_bulk_in s)" "ready (dev s)" "length data = 512"
  shows "\<exists>s'. bot_execute (rw_cbw 0x2A lba (fst (make_cbw 512 0x00 10 s))) data False (snd (make_cbw 512 0x00 10 s)) =
      (0, data, s') \<and> same_storage s s' \<and> ready (dev s') \<and> content (dev s') = (content (dev s))(lba := data)"
proof -
  obtain d1 d2 d3 csw where "xhci_bulk_out s (rw_command 0x2A 0x00 (g_tag s) lba) (dev s) = (0, d1)"
      "xhci_bulk_out s data d1 = (0, d2)" "xhci_bulk_in s CSW_SIZE d2 = (0, csw, d3)" "good_csw csw"
      "ready d3" "content d3 = (content (dev s))(lba := data)"
    using assms unfolding scsi_disk_def by blast
  then show ?thesis
    using assms(3) by (simp add: bot_execute_def bot_status_def bulk_out_def bulk_in_def make_cbw_def rw_command_def good_csw_def
        same_storage_def Let_def) blast
qed

lemma xts_sector_inverse:
  "length data = 512 \<Longrightarrow> aes256_xts_decrypt_sector c lba (aes256_xts_encrypt_sector c lba data) = data"
  "length data = 512 \<Longrightarrow> length (aes256_xts_encrypt_sector c lba data) = 512"
  using aes.xts_blocks_inverse [of data 32]
  by (simp_all add: aes256_xts_decrypt_sector_def aes256_xts_encrypt_sector_def del: xts_blocks.simps)

lemma usb_read_view:
  assumes "disk_ok content ready s" "length buf = 512"
  shows "\<exists>s'. usb_msc_read_sector lba buf s = Ret (0, sector_view content s lba) s' \<and> disk_ok content ready s' \<and>
      sector_view content s' = sector_view content s \<and> same_storage s s'"
proof -
  obtain s' where "bot_execute (rw_cbw 0x28 lba (fst (make_cbw 512 0x80 10 s))) buf True (snd (make_cbw 512 0x80 10 s)) =
      (0, content (dev s) lba, s')" and s': "same_storage s s'" "ready (dev s')" "content (dev s') = content (dev s)"
    using bot_read [of content ready s buf lba] assms by (auto simp: disk_ok_def)
  moreover note same = same_storageD [OF s'(1)]
  ultimately have "usb_msc_read_sector lba buf s = Ret (0, sector_view content s lba) s'"
    using assms(1) by (auto simp: usb_msc_read_sector_def prod.case_eq_if Let_def sector_view_def integrity_verify_sector_def
        merkle_verify_def disk_ok_def)
  moreover have "disk_ok content ready s'" using assms(1) s' same by (simp add: disk_ok_def)
  moreover have "sector_view content s' = sector_view content s" using s' same by (auto simp: sector_view_def fun_eq_iff)
  ultimately show ?thesis using s'(1) by blast
qed

text \<open>A write needs nothing of the integrity list, and does not touch it.\<close>

lemma usb_write_any:
  assumes "scsi_disk content ready (xhci_bulk_out s) (xhci_bulk_in s)" "ready (dev s)" "length buf = 512"
  shows "\<exists>s'. usb_msc_write_sector lba buf s = (0, s') \<and> ready (dev s') \<and>
      sector_view content s' = (sector_view content s)(lba := buf) \<and> same_storage s s'"
proof -
  let ?data = "if g_encryption_enabled s then aes256_xts_encrypt_sector (g_xts_ctx s) lba buf else buf"
  have "length ?data = 512" using assms(3) by (simp add: xts_sector_inverse)
  then obtain s' where "bot_execute (rw_cbw 0x2A lba (fst (make_cbw 512 0x00 10 s))) ?data False (snd (make_cbw 512 0x00 10 s)) =
      (0, ?data, s')" and s': "same_storage s s'" "ready (dev s')" "content (dev s') = (content (dev s))(lba := ?data)"
    using bot_write [of content ready s ?data lba] assms by auto
  then have "usb_msc_write_sector lba buf s = (0, s')"
    by (simp add: usb_msc_write_sector_def prod.case_eq_if Let_def)
  moreover note same = same_storageD [OF s'(1)]
  moreover have "sector_view content s' = (sector_view content s)(lba := buf)"
    using s' same assms(3) by (auto simp: sector_view_def fun_eq_iff xts_sector_inverse)
  ultimately show ?thesis using s'(1,2) by blast
qed

lemma usb_write_view:
  assumes "disk_ok content ready s" "length buf = 512"
  shows "\<exists>s'. usb_msc_write_sector lba buf s = (0, s') \<and> disk_ok content ready s' \<and>
      sector_view content s' = (sector_view content s)(lba := buf) \<and> same_storage s s'"
proof -
  obtain s' where "usb_msc_write_sector lba buf s = (0, s')" "ready (dev s')"
      "sector_view content s' = (sector_view content s)(lba := buf)" "same_storage s s'"
    using usb_write_any [of content ready s buf lba] assms by (auto simp: disk_ok_def)
  moreover from this have "disk_ok content ready s'" using assms(1) same_storageD [of s s'] by (simp add: disk_ok_def)
  ultimately show ?thesis by blast
qed

text \<open>A read with encryption on is checked against the integrity list.\<close>

lemma usb_read_any:
  assumes "scsi_disk content ready (xhci_bulk_out s) (xhci_bulk_in s)" "ready (dev s)" "length buf = 512"
  shows "\<exists>s1. same_storage s s1 \<and> ready (dev s1) \<and> content (dev s1) = content (dev s) \<and>
    usb_msc_read_sector lba buf s =
      (if g_encryption_enabled s \<and> \<not> merkle_verify lba (sector_view content s lba) s
       then Halt (destruct_trigger (Some (ascii ''Sector integrity verification mismatch'')) s1)
       else Ret (0, sector_view content s lba) s1)"
proof -
  obtain s1 where "bot_execute (rw_cbw 0x28 lba (fst (make_cbw 512 0x80 10 s))) buf True (snd (make_cbw 512 0x80 10 s)) =
      (0, content (dev s) lba, s1)" and s1: "same_storage s s1" "ready (dev s1)" "content (dev s1) = content (dev s)"
    using bot_read [OF assms] by blast
  then show ?thesis
    using same_storageD [OF s1(1)]
    by (intro exI [of _ s1]) (simp add: usb_msc_read_sector_def prod.case_eq_if Let_def integrity_verify_sector_def merkle_verify_def sector_view_def)
qed

lemma same_storage_refl: "same_storage s s"
  unfolding same_storage_def by (rule exI [of _ "dev s"], rule exI [of _ "g_tag s"]) simp

lemma same_storage_trans:
  assumes "same_storage s s'" "same_storage s' s''"
  shows "same_storage s s''"
proof -
  obtain d t d' t' where "s' = s\<lparr>g_tag := t, dev := d\<rparr>" "s'' = s'\<lparr>g_tag := t', dev := d'\<rparr>"
    using assms by (auto simp: same_storage_def)
  then have "s'' = s\<lparr>g_tag := t', dev := d'\<rparr>" by simp
  then show ?thesis unfolding same_storage_def by (intro exI)
qed

interpretation usb: sector_io usb_msc_read_sector usb_msc_write_sector "sector_view content" "disk_ok content ready" same_storage
  for content ready
  by unfold_locales (auto intro: usb_read_view usb_write_view same_storage_refl same_storage_trans)

section \<open>Integrity lemmas\<close>

lemma same_storage_dev [simp]: "same_storage s (s\<lparr>dev := d\<rparr>)"
  unfolding same_storage_def by (rule exI [of _ d], rule exI [of _ "g_tag s"]) simp

lemma bulk_same: "same_storage s (snd (bulk_out bs s))" "same_storage s (snd (snd (bulk_in n s)))"
  by (simp_all add: bulk_out_def bulk_in_def prod.case_eq_if Let_def)

lemma make_cbw_same: "same_storage s (snd (make_cbw n f l s))"
  unfolding same_storage_def make_cbw_def by (rule exI [of _ "dev s"], rule exI [of _ "g_tag s + 1"]) simp

lemma bot_status_same: "same_storage s (snd (bot_status s))"
  using bulk_same(2) [of s CSW_SIZE] by (simp add: bot_status_def prod.case_eq_if Let_def)

lemma bot_execute_same: "same_storage s (snd (snd (bot_execute c data inn s)))"
proof -
  let ?s1 = "snd (bulk_out (cbw_bytes c) s)"
  have 1: "same_storage s ?s1" by (rule bulk_same)
  then have 2: "same_storage s (snd (bulk_out data ?s1))" "same_storage s (snd (snd (bulk_in n ?s1)))" for n
    by (blast intro: same_storage_trans bulk_same)+
  then have 3: "same_storage s (snd (bot_status ?s1))" "same_storage s (snd (bot_status (snd (bulk_out data ?s1))))"
      "same_storage s (snd (bot_status (snd (snd (bulk_in n ?s1)))))" for n
    using 1 by (blast intro: same_storage_trans bot_status_same)+
  show ?thesis using 1 2 3 by (simp add: bot_execute_def prod.case_eq_if Let_def)
qed

lemma write_same: "same_storage s (snd (usb_msc_write_sector lba buf s))"
proof -
  let ?s1 = "snd (make_cbw 512 0 10 s)"
  have "same_storage s (snd (snd (bot_execute c data False ?s1)))" for c data
    by (rule same_storage_trans [OF make_cbw_same bot_execute_same])
  then show ?thesis by (simp add: usb_msc_write_sector_def prod.case_eq_if Let_def)
qed

lemma raw_write_same: "same_storage s (raw_write lba buf s)"
proof -
  let ?s = "s\<lparr>g_encryption_enabled := False\<rparr>"
  obtain d t where "snd (usb_msc_write_sector lba buf ?s) = ?s\<lparr>g_tag := t, dev := d\<rparr>"
    using write_same [of ?s lba buf] by (auto simp: same_storage_def)
  then have "raw_write lba buf s = s\<lparr>g_tag := t, dev := d\<rparr>" by (simp add: raw_write_def)
  then show ?thesis unfolding same_storage_def by (intro exI)
qed

lemma sha256_of_ref: "length stk = 128 \<Longrightarrow> length d < 2 ^ 61 \<Longrightarrow> sha256_of stk d = take 32 (sha512_ref d)"
  by (simp add: sha256_of_def sha512_eq_ref)

lemma merkle_update_fields:
  assumes "merkle_initialized s" "unat lba < MERKLE_MAX_SECTORS"
  shows "g_leaves (merkle_update lba d s) = (g_leaves s)[unat lba := sha256_of (stack s) d]"
    "g_root (merkle_update lba d s) = merkle_root_of (stack s) ((g_leaves s)[unat lba := sha256_of (stack s) d])"
    "merkle_initialized (merkle_update lba d s)" "stack (merkle_update lba d s) = stack s"
proof -
  let ?s0 = "s\<lparr>g_leaves := (g_leaves s)[unat lba := sha256_of (stack s) d]\<rparr>"
  let ?s1 = "persist_leaf lba ?s0"
  have 1: "same_storage ?s0 ?s1" by (simp add: persist_leaf_def Let_def raw_write_same same_storage_refl)
  have 2: "same_storage (recompute_root ?s1) (persist_root (recompute_root ?s1))"
    by (simp add: persist_root_def Let_def raw_write_same)
  have u: "merkle_update lba d s = persist_root (recompute_root ?s1)"
    using assms by (simp add: merkle_update_def)
  show "g_leaves (merkle_update lba d s) = (g_leaves s)[unat lba := sha256_of (stack s) d]"
    "g_root (merkle_update lba d s) = merkle_root_of (stack s) ((g_leaves s)[unat lba := sha256_of (stack s) d])"
    "merkle_initialized (merkle_update lba d s)" "stack (merkle_update lba d s) = stack s"
    using same_storageD [OF 1] same_storageD [OF 2] assms(1) by (simp_all add: u recompute_root_def)
qed

section \<open>Erasure\<close>

definition noise :: "u8 list \<Rightarrow> bool" where
  "noise b = (\<exists>r. b = fst (rng_bytes 512 r))"

definition raw_ok :: "('d \<Rightarrow> u32 \<Rightarrow> u8 list) \<Rightarrow> ('d \<Rightarrow> bool) \<Rightarrow> 'd storage \<Rightarrow> bool" where
  "raw_ok content ready s = (scsi_disk content ready (xhci_bulk_out s) (xhci_bulk_in s) \<and> ready (dev s) \<and> \<not> g_encryption_enabled s)"

lemma raw_write_content:
  assumes "raw_ok content ready s" "length buf = 512"
  shows "raw_ok content ready (snd (usb_msc_write_sector lba buf s)) \<and>
    content (dev (snd (usb_msc_write_sector lba buf s))) = (content (dev s))(lba := buf) \<and>
    g_xts_ctx (snd (usb_msc_write_sector lba buf s)) = g_xts_ctx s"
proof -
  have "disk_ok content ready s" using assms(1) by (simp add: disk_ok_def raw_ok_def)
  then obtain s' where "usb_msc_write_sector lba buf s = (0, s')" and ok: "disk_ok content ready s'" and
      v: "sector_view content s' = (sector_view content s)(lba := buf)" and same: "same_storage s s'"
    using usb.wr_view [of content ready s buf lba] assms(2) by blast
  moreover have "\<not> g_encryption_enabled s" "\<not> g_encryption_enabled s'"
    using assms(1) same_storageD(1) [OF same] by (simp_all add: raw_ok_def)
  ultimately show ?thesis
    using fun_cong [OF v] same_storageD(2) [OF same] by (auto simp: raw_ok_def disk_ok_def sector_view_def fun_eq_iff split: if_splits)
qed

definition erases :: "('d \<Rightarrow> u32 \<Rightarrow> u8 list) \<Rightarrow> ('d \<Rightarrow> bool) \<Rightarrow> (u8 list \<Rightarrow> bool) \<Rightarrow> u32 set \<Rightarrow> 'd storage \<Rightarrow> 'd storage \<Rightarrow> bool" where
  "erases content ready P L s s' =
     (raw_ok content ready s' \<and> g_xts_ctx s' = g_xts_ctx s \<and>
      (\<forall>lba. if lba \<in> L then P (content (dev s') lba) else content (dev s') lba = content (dev s) lba))"

lemma erases_fold:
  assumes "\<And>lba s. raw_ok content ready s \<Longrightarrow> erases content ready P {lba} s (op lba s)" "raw_ok content ready s"
  shows "erases content ready P (set lbas) s (fold op lbas s)"
  using assms(2)
proof (induction lbas rule: rev_induct)
  case (snoc l lbas)
  let ?s = "fold op lbas s"
  have "erases content ready P (set lbas) s ?s" using snoc by simp
  moreover from this have "erases content ready P {l} ?s (op l ?s)" by (intro assms(1)) (simp add: erases_def)
  ultimately show ?case unfolding erases_def by (auto split: if_splits)
qed (simp add: erases_def)

lemma erases_ok: "erases content ready P L s s' \<Longrightarrow> raw_ok content ready s'"
  by (simp add: erases_def)

lemma erases_trans:
  "erases content ready Q L s s' \<Longrightarrow> erases content ready P L s' s'' \<Longrightarrow> erases content ready P L s s''"
  by (auto simp: erases_def)

lemma wipe_random_erases: "raw_ok content ready s \<Longrightarrow> erases content ready noise {lba} s (wipe_random lba s)"
proof -
  assume ok: "raw_ok content ready s"
  obtain buf r where b: "rng_bytes 512 (rand (snet s)) = (buf, r)" by (cases "rng_bytes 512 (rand (snet s))")
  then have "length buf = 512" "noise buf" by (auto simp: noise_def length_rng_bytes intro: exI [of _ "rand (snet s)"])
  then show ?thesis
    using raw_write_content [of content ready "s\<lparr>snet := (snet s)\<lparr>rand := r\<rparr>\<rparr>" buf lba] ok b
    by (auto simp: wipe_random_def erases_def raw_ok_def)
qed

lemma wipe_zero_erases: "raw_ok content ready s \<Longrightarrow> erases content ready (\<lambda>_. True) {lba} s (wipe_zero lba s)"
  using raw_write_content [of content ready s "replicate 512 0" lba] by (auto simp: wipe_zero_def erases_def)

lemma wipe_sectors_erases:
  assumes "raw_ok content ready s"
  shows "erases content ready noise ((\<lambda>i. start + word_of_nat i) ` {0..<n}) s (wipe_sectors start n s)"
proof -
  let ?l = "map (\<lambda>i. start + word_of_nat i) [0..<n]"
  have 1: "erases content ready noise (set ?l) s (fold wipe_random ?l s)"
    by (rule erases_fold [OF wipe_random_erases assms])
  have 2: "erases content ready (\<lambda>_. True) (set ?l) (fold wipe_random ?l s) (fold wipe_zero ?l (fold wipe_random ?l s))"
    by (rule erases_fold [OF wipe_zero_erases erases_ok [OF 1]])
  have 3: "erases content ready noise (set ?l) (fold wipe_zero ?l (fold wipe_random ?l s)) (wipe_sectors start n s)"
    unfolding wipe_sectors_def Let_def by (rule erases_fold [OF wipe_random_erases erases_ok [OF 2]])
  show ?thesis using erases_trans [OF 1 erases_trans [OF 2 3]] by simp
qed

definition wiped_lbas :: "u32 set" where
  "wiped_lbas = {1, 2, 3, 4, 5, 6, 7, 8, 9, 500}"

lemma wiped_lbas_image: "(\<lambda>i. 1 + word_of_nat i) ` {0..<9} \<union> (\<lambda>i. 500 + word_of_nat i) ` {0..<1} = wiped_lbas"
proof -
  have "{0..<9} = {0, 1, 2, 3, 4, 5, 6, 7, 8 :: nat}" by auto
  then show ?thesis by (auto simp: wiped_lbas_def)
qed

lemma destruct_erases:
  assumes "scsi_disk content ready (xhci_bulk_out s) (xhci_bulk_in s)" "ready (dev s)"
  shows "(if lba \<in> wiped_lbas then noise (content (dev (destruct_trigger reason s)) lba)
          else content (dev (destruct_trigger reason s)) lba = content (dev s) lba) \<and>
    g_auth_derived_key (destruct_trigger reason s) = replicate 64 0 \<and> g_xts_ctx (destruct_trigger reason s) = g_xts_ctx s"
proof -
  define s2 where "s2 = s\<lparr>snet := (snet s)\<lparr>ncard := snd (net_send_beacon (tx_polls s) (anon (snet s)) reason (ncard (snet s)))\<rparr>,
      g_encryption_enabled := False\<rparr>"
  define s3 where "s3 = wipe_sectors 1 9 s2"
  define s4 where "s4 = wipe_sectors 500 1 s3"
  have 2: "raw_ok content ready s2" using assms by (simp add: raw_ok_def s2_def)
  have 3: "erases content ready noise ((\<lambda>i. 1 + word_of_nat i) ` {0..<9}) s2 s3" unfolding s3_def by (rule wipe_sectors_erases [OF 2])
  then have 4: "erases content ready noise ((\<lambda>i. 500 + word_of_nat i) ` {0..<1}) s3 s4"
    unfolding s4_def by (intro wipe_sectors_erases) (simp add: erases_def)
  have e: "if lba \<in> wiped_lbas then noise (content (dev s4) lba) else content (dev s4) lba = content (dev s2) lba"
    using 3 4 unfolding erases_def wiped_lbas_image [symmetric] by (metis Un_iff)
  have d: "destruct_trigger reason s = s4\<lparr>g_encryption_enabled := g_encryption_enabled s, g_auth_derived_key := replicate 64 0\<rparr>"
    by (simp add: destruct_trigger_def s4_def s3_def s2_def prod.case_eq_if Let_def)
  have "g_xts_ctx s4 = g_xts_ctx s" using 3 4 by (simp add: erases_def s2_def)
  moreover have "dev s2 = dev s" by (simp add: s2_def)
  ultimately show ?thesis using e by (simp add: d)
qed

section \<open>A disk in memory\<close>

text \<open>A concrete device that meets the documented behaviour: its sectors and the sector of the command under way.\<close>

type_synonym ramdisk = "(u32 \<Rightarrow> u8 list) \<times> u32"

definition ram_out :: "u8 list \<Rightarrow> ramdisk \<Rightarrow> int \<times> ramdisk" where
  "ram_out bs d = (0, if length bs = 31 then (fst d, be_word (take 4 (drop 17 bs))) else ((fst d)(snd d := bs), snd d))"

definition ram_in :: "nat \<Rightarrow> ramdisk \<Rightarrow> int \<times> u8 list \<times> ramdisk" where
  "ram_in n d = (0, if n = 512 then fst d (snd d) else le_bytes 4 CSW_SIGNATURE @ replicate 9 0, d)"

definition ram_ready :: "ramdisk \<Rightarrow> bool" where
  "ram_ready d = (\<forall>lba. length (fst d lba) = 512)"

lemma rw_command_lba:
  "length (rw_command oc f tg lba) = 31" "be_word (take 4 (drop 17 (rw_command oc f tg lba))) = lba"
proof -
  have 16: "replicate 16 (0 :: u8) = [0,0,0,0,0,0,0,0,0,0,0,0,0,0,0,0]" by (simp add: eval_nat_numeral)
  have m: "ucast (w AND 0xFF) = (ucast w :: u8)" for w :: u32
  proof (rule bit_word_eqI)
    have ff: "(0xFF :: u32) = mask 8" by (simp add: mask_eq_exp_minus_1)
    fix n assume "n < LENGTH(8)"
    then show "bit (ucast (w AND 0xFF) :: u8) n = bit (ucast w :: u8) n"
      unfolding ff by (simp add: bit_ucast_iff bit_and_iff bit_mask_iff)
  qed
  have "be_bytes 4 lba = [ucast (drop_bit 24 lba), ucast (drop_bit 16 lba), ucast (drop_bit 8 lba), ucast lba]"
    by (simp add: be_bytes_def le_bytes_def eval_nat_numeral)
  then show "length (rw_command oc f tg lba) = 31" "be_word (take 4 (drop 17 (rw_command oc f tg lba))) = lba"
    using be_word_bytes [of 4 lba] by (simp_all add: rw_command_def cbw_bytes_def rw_cbw_def 16 m)
qed

lemma good_csw_ram: "good_csw (le_bytes 4 CSW_SIGNATURE @ replicate 9 0)"
  using le_word_bytes [of 4 CSW_SIGNATURE] by (simp add: good_csw_def nth_append)

lemma ram_scsi_disk: "scsi_disk fst ram_ready ram_out ram_in"
  unfolding scsi_disk_def using good_csw_ram
  by (auto simp: ram_out_def ram_in_def rw_command_lba ram_ready_def)

definition wstorage :: "ramdisk storage" where
  "wstorage = \<lparr>dev = (\<lambda>_. replicate 512 0, 0), xhci_bulk_out = ram_out, xhci_bulk_in = ram_in,
     g_encryption_enabled = True, g_xts_ctx = aes256_xts_init (replicate 64 3), g_tag = 1, g_sector_cnt = 2048,
     g_leaves = replicate MERKLE_MAX_SECTORS (replicate SHA256_LEN 0), g_root = replicate SHA256_LEN 0, merkle_initialized = False,
     g_auth_derived_key = replicate 64 3, snet = wnet, tx_polls = (\<lambda>_. 1), stack = replicate 128 0\<rparr>"

lemma wstorage_ok: "disk_ok fst ram_ready wstorage" "scsi_disk fst ram_ready (xhci_bulk_out wstorage) (xhci_bulk_in wstorage)"
    "ram_ready (dev wstorage)"
  using ram_scsi_disk by (simp_all add: disk_ok_def wstorage_def ram_ready_def)

section \<open>Properties\<close>

text \<open>C9: On a disk that behaves as the SCSI commands document a write never fails, and reading any sector afterwards returns the data
  just written or, for another sector, what it held before, unless encryption is on, the integrity list is in force and the recorded
  hash of the sector differs from the hash of that content: then the read starts the self-destruct sequence.  Writing does not
  update the list, so that a sector written with new data after the log-in cannot be read back unless it is outside the list.\<close>

theorem encrypted_sector_roundtrip:
  fixes content :: "'d \<Rightarrow> u32 \<Rightarrow> u8 list" and lba lba' :: u32
  assumes "scsi_disk content ready (xhci_bulk_out s) (xhci_bulk_in s)" "ready (dev s)" "length data = 512" "length buf = 512"
  defines "expected \<equiv> if lba' = lba then data else sector_view content s lba'"
  shows "fst (usb_msc_write_sector lba data s) = 0 \<and>
    (\<exists>s'. usb_msc_read_sector lba' buf (snd (usb_msc_write_sector lba data s)) =
      (if g_encryption_enabled s \<and> merkle_initialized s \<and> unat lba' < MERKLE_MAX_SECTORS \<and>
          sha256_of (stack s) expected \<noteq> g_leaves s ! unat lba'
       then Halt s' else Ret (0, expected) s'))"
proof -
  obtain s1 where w: "usb_msc_write_sector lba data s = (0, s1)" "ready (dev s1)"
      "sector_view content s1 = (sector_view content s)(lba := data)" "same_storage s s1"
    using usb_write_any [OF assms(1-3)] by blast
  note same = same_storageD [OF w(4)]
  have sc: "scsi_disk content ready (xhci_bulk_out s1) (xhci_bulk_in s1)" using assms(1) same by simp
  have "sector_view content s1 lba' = expected" by (simp add: w(3) expected_def)
  then show ?thesis using usb_read_any [OF sc w(2) assms(4), of lba'] w(1) same by (auto simp: merkle_verify_def)
qed

text \<open>An update of the integrity list records the truncated SHA-512 of the sector and recomputes the root over the
  whole list.  Afterwards the check of that sector accepts exactly the buffers with the same truncated hash, and the
  check of every other sector is what it was.\<close>

theorem merkle_update_verify:
  assumes "merkle_initialized s" "unat lba < MERKLE_MAX_SECTORS" "length (g_leaves s) = MERKLE_MAX_SECTORS"
    "length (stack s) = 128" "length d = 512" "length d' = 512"
  shows "merkle_verify lba' d' (merkle_update lba d s) =
      (if lba' = lba then take 32 (sha512_ref d') = take 32 (sha512_ref d) else merkle_verify lba' d' s) \<and>
    merkle_get_root (merkle_update lba d s) = merkle_root_of (stack s) (g_leaves (merkle_update lba d s))"
  using assms by (auto simp: merkle_verify_def merkle_get_root_def merkle_update_fields sha256_of_ref nth_list_update
      dest: unsigned_word_eqI)

text \<open>C10: On a disk that behaves as documented, with encryption on and the integrity list in force, reading a sector of the list whose
  decrypted contents do not have the recorded hash starts the self-destruct sequence: the call never returns, sectors 1 to 9 and 500
  hold generator output whatever they held before (the interface in \<^verbatim>\<open>destruct.h\<close> speaks of sectors 1 to 3), every other sector is
  untouched and the derived key in memory is zero; the expanded XTS key schedule, another key in memory, is left as it was.\<close>

theorem integrity_failure_destroys:
  assumes "scsi_disk content ready (xhci_bulk_out s) (xhci_bulk_in s)" "ready (dev s)" "length buf = 512"
    "g_encryption_enabled s" "merkle_initialized s" "unat lba < MERKLE_MAX_SECTORS"
    "sha256_of (stack s) (sector_view content s lba) \<noteq> g_leaves s ! unat lba"
  shows "\<exists>s'. usb_msc_read_sector lba buf s = Halt s' \<and> g_auth_derived_key s' = replicate 64 0 \<and> g_xts_ctx s' = g_xts_ctx s \<and>
    (\<forall>l. if l \<in> wiped_lbas then noise (content (dev s') l) else content (dev s') l = content (dev s) l)"
proof -
  let ?reason = "Some (ascii ''Sector integrity verification mismatch'')"
  obtain s1 where s1: "same_storage s s1" "ready (dev s1)" "content (dev s1) = content (dev s)"
      "usb_msc_read_sector lba buf s = Halt (destruct_trigger ?reason s1)"
    using usb_read_any [OF assms(1-3), of lba] assms(4-7) by (auto simp: merkle_verify_def)
  then show ?thesis
    using destruct_erases [of content ready s1 _ ?reason] assms(1) same_storageD [OF s1(1)] by simp
qed

section \<open>Witnesses\<close>

theorem encrypted_sector_roundtrip_witness:
  "\<exists>s'. usb_msc_read_sector 7 (replicate 512 0) (snd (usb_msc_write_sector 7 (replicate 512 9) wstorage)) =
     Ret (0, replicate 512 9) s'"
  using encrypted_sector_roundtrip [OF wstorage_ok(2,3), of "replicate 512 9" "replicate 512 0" 7 7] by (simp add: wstorage_def)

theorem merkle_update_verify_witness:
  "merkle_verify 5 (replicate 512 1) (merkle_update 5 (replicate 512 1) (wstorage\<lparr>merkle_initialized := True\<rparr>))"
  using merkle_update_verify [of "wstorage\<lparr>merkle_initialized := True\<rparr>" 5 "replicate 512 1" "replicate 512 1" 5]
  by (simp add: wstorage_def)

definition wtampered :: "ramdisk storage" where
  "wtampered = wstorage\<lparr>merkle_initialized := True, g_leaves := replicate MERKLE_MAX_SECTORS
     (let h = sha256_of (replicate 128 0) (sector_view fst wstorage 7) in (hd h + 1) # tl h)\<rparr>"

theorem integrity_failure_destroys_witness:
  "\<exists>s'. usb_msc_read_sector 7 (replicate 512 0) wtampered = Halt s' \<and> g_auth_derived_key s' = replicate 64 0 \<and>
     noise (fst (dev s') 2) \<and> fst (dev s') 11 = replicate 512 0"
proof -
  let ?h = "sha256_of (replicate 128 0) (sector_view fst wstorage 7)"
  have "length ?h = 32" by (simp add: sha256_of_def sha512_eq_ref sector_view_def wstorage_def aes256_xts_decrypt_sector_def del: xts_blocks.simps)
  then have h: "?h \<noteq> (hd ?h + 1) # tl ?h" by (cases ?h) auto
  have v: "sector_view fst wtampered 7 = sector_view fst wstorage 7" by (simp add: sector_view_def wtampered_def)
  have "sha256_of (stack wtampered) (sector_view fst wtampered 7) \<noteq> g_leaves wtampered ! unat (7 :: u32)"
    unfolding v using h by (simp add: wtampered_def wstorage_def Let_def)
  moreover have "scsi_disk fst ram_ready (xhci_bulk_out wtampered) (xhci_bulk_in wtampered)" "ram_ready (dev wtampered)"
    using wstorage_ok by (simp_all add: wtampered_def)
  ultimately obtain s' where "usb_msc_read_sector 7 (replicate 512 0) wtampered = Halt s'" "g_auth_derived_key s' = replicate 64 0"
      and l: "\<forall>l. if l \<in> wiped_lbas then noise (fst (dev s') l) else fst (dev s') l = fst (dev wtampered) l"
    using integrity_failure_destroys [of fst ram_ready wtampered "replicate 512 0" 7] by (auto simp: wtampered_def wstorage_def)
  then show ?thesis using spec [OF l, of 2] spec [OF l, of 11]
    by (simp add: wiped_lbas_def wtampered_def wstorage_def)
qed

end
