(* ===== verification/Oram.thy ===== *)
theory Oram
  imports Storage "HOL-Library.Multiset"
begin

unbundle bit_operations_syntax

text \<open>
  The oblivious RAM of \<^verbatim>\<open>src/kernel/oram.c\<close>: a tree of 127 buckets of four blocks on the disk, a stash and a position
  map in memory.  A block of 516 bytes is copied through a sector buffer of 512 bytes: the four bytes that lie
  beyond the buffer when a block is read are the end of the stack frame, an arbitrary 516-byte field \<open>frame\<close> of the
  state for each read; a block that is written loses its last four bytes.  The stash array with its count is the
  list of the entries in use.  An index beyond the 64 entries of the position map reads memory outside the array
  and has no described value.
\<close>

section \<open>State\<close>

abbreviation ORAM_L :: nat where "ORAM_L \<equiv> 6"
abbreviation ORAM_Z :: nat where "ORAM_Z \<equiv> 4"
abbreviation ORAM_BLOCK_SIZE :: nat where "ORAM_BLOCK_SIZE \<equiv> 512"
abbreviation ORAM_NUM_LEAVES :: nat where "ORAM_NUM_LEAVES \<equiv> 64"
abbreviation ORAM_NUM_NODES :: nat where "ORAM_NUM_NODES \<equiv> 127"
abbreviation ORAM_META_LBA :: u32 where "ORAM_META_LBA \<equiv> 499"
abbreviation ORAM_BASE_LBA :: u32 where "ORAM_BASE_LBA \<equiv> 500"
abbreviation ORAM_POSMAP_LBA :: u32 where "ORAM_POSMAP_LBA \<equiv> 1008"
abbreviation ORAM_MAGIC :: u32 where "ORAM_MAGIC \<equiv> 0x4F52414D"
abbreviation DUMMY_LBA :: u32 where "DUMMY_LBA \<equiv> 0xFFFFFFFF"

record oram_block =
  blk_lba :: u32
  blk_data :: "u8 list"

record 'd oram =
  pos_map :: "u32 list"
  stash :: "oram_block list"
  g_oram_sector_reads :: u32
  g_oram_sector_writes :: u32
  disk :: "'d storage"
  frame :: "nat \<Rightarrow> u8 list"
  frames :: nat

section \<open>Blocks on the disk\<close>

definition oram_rand_leaf :: "'d oram \<Rightarrow> u32 \<times> 'd oram" where
  "oram_rand_leaf o' =
     (let (x, r) = rng_u32 (rand (snet (disk o')))
      in (x mod 64, o'\<lparr>disk := (disk o')\<lparr>snet := (snet (disk o'))\<lparr>rand := r\<rparr>\<rparr>\<rparr>))"

definition oram_lba :: "u32 \<Rightarrow> u32 \<Rightarrow> u32" where
  "oram_lba node slot = ORAM_BASE_LBA + node * 4 + slot"

definition oram_bytes :: "oram_block \<Rightarrow> u8 list" where
  "oram_bytes b = le_bytes 4 (blk_lba b) @ blk_data b"

definition oram_of_bytes :: "u8 list \<Rightarrow> oram_block" where
  "oram_of_bytes bs = \<lparr>blk_lba = le_word (take 4 bs), blk_data = take ORAM_BLOCK_SIZE (drop 4 bs)\<rparr>"

definition oram_read_block :: "u32 \<Rightarrow> u32 \<Rightarrow> 'd oram \<Rightarrow> (oram_block, 'd oram) run" where
  "oram_read_block node slot o' =
     (let mem = frame o' (frames o') in
      case usb_msc_read_sector (oram_lba node slot) (take 512 mem) (disk o') of
        Halt d \<Rightarrow> Halt (o'\<lparr>disk := d\<rparr>)
      | Ret (_, buf) d \<Rightarrow>
          Ret (oram_of_bytes (buf @ drop 512 mem))
            (o'\<lparr>g_oram_sector_reads := g_oram_sector_reads o' + 1, disk := d, frames := frames o' + 1\<rparr>))"

definition oram_write_block :: "u32 \<Rightarrow> u32 \<Rightarrow> oram_block \<Rightarrow> 'd oram \<Rightarrow> 'd oram" where
  "oram_write_block node slot blk o' =
     o'\<lparr>g_oram_sector_writes := g_oram_sector_writes o' + 1,
        disk := snd (usb_msc_write_sector (oram_lba node slot) (take 512 (oram_bytes blk)) (disk o'))\<rparr>"

definition posmap_save :: "'d oram \<Rightarrow> 'd oram" where
  "posmap_save o' =
     o'\<lparr>disk := raw_write ORAM_POSMAP_LBA (concat (map (le_bytes 4) (pos_map o')) @ replicate 256 0) (disk o')\<rparr>"

definition posmap_load :: "'d oram \<Rightarrow> (unit, 'd oram) run" where
  "posmap_load o' =
     (case raw_read ORAM_POSMAP_LBA (take 512 (frame o' (frames o'))) (disk o') of
        Halt d \<Rightarrow> Halt (o'\<lparr>disk := d\<rparr>)
      | Ret (_, buf) d \<Rightarrow>
          Ret () (o'\<lparr>pos_map := map (\<lambda>i. le_word (take 4 (drop (4 * i) buf))) [0..<ORAM_NUM_LEAVES],
                    disk := d, frames := frames o' + 1\<rparr>))"

section \<open>The tree\<close>

function is_ancestor :: "u32 \<Rightarrow> u32 \<Rightarrow> bool" where
  "is_ancestor ancestor cur =
     (if cur > 0 then if cur = ancestor then True else is_ancestor ancestor ((cur - 1) div 2) else ancestor = 0)"
  by pat_completeness auto

lemma parent_less: "(c - 1) div 2 < c" if "0 < c" for c :: u32
proof -
  have "unat (c - 1) = unat c - 1" using that by (simp add: unat_minus_one)
  moreover have "0 < unat c" using that by (simp add: word_less_nat_alt)
  ultimately show ?thesis by (simp add: word_less_nat_alt unat_div)
qed

termination is_ancestor
  by (relation "measure (\<lambda>(_, c). unat c)") (auto simp: parent_less word_less_nat_alt [symmetric])

declare is_ancestor.simps [simp del]

fun path_up :: "nat \<Rightarrow> u32 \<Rightarrow> u32 list" where
  "path_up 0 cur = []"
| "path_up (Suc i) cur = path_up i (if cur > 0 then (cur - 1) div 2 else cur) @ [cur]"

definition get_path :: "u32 \<Rightarrow> u32 list" where
  "get_path leaf_idx = path_up (ORAM_L + 1) (63 + leaf_idx)"

section \<open>Format and initialisation\<close>

definition dummy_block :: oram_block where
  "dummy_block = \<lparr>blk_lba = DUMMY_LBA, blk_data = replicate ORAM_BLOCK_SIZE 0\<rparr>"

definition tree_slots :: "u32 list \<Rightarrow> (u32 \<times> u32) list" where
  "tree_slots nodes = concat (map (\<lambda>n. map (\<lambda>j. (n, j)) [0, 1, 2, 3]) nodes)"

fun rand_leaves :: "nat \<Rightarrow> 'd oram \<Rightarrow> u32 list \<times> 'd oram" where
  "rand_leaves 0 o' = ([], o')"
| "rand_leaves (Suc k) o' =
     (let (l, o1) = oram_rand_leaf o'; (ls, o2) = rand_leaves k o1 in (l # ls, o2))"

definition oram_format :: "'d oram \<Rightarrow> 'd oram" where
  "oram_format o' =
     (let saved = g_encryption_enabled (disk o');
          o1 = o'\<lparr>disk := (disk o')\<lparr>g_encryption_enabled := False\<rparr>\<rparr>;
          o2 = fold (\<lambda>(n, j). oram_write_block n j dummy_block) (tree_slots (map word_of_nat [0..<ORAM_NUM_NODES])) o1;
          (leaves, o3) = rand_leaves ORAM_NUM_LEAVES o2;
          o4 = posmap_save (o3\<lparr>pos_map := leaves\<rparr>);
          meta = le_bytes 4 ORAM_MAGIC @ replicate 508 0;
          d = snd (usb_msc_write_sector ORAM_META_LBA meta (disk o4))
      in o4\<lparr>disk := d\<lparr>g_encryption_enabled := saved\<rparr>\<rparr>)"

definition oram_init :: "'d oram \<Rightarrow> (unit, 'd oram) run" where
  "oram_init o' =
     (let o1 = o'\<lparr>stash := [], g_oram_sector_reads := 0, g_oram_sector_writes := 0\<rparr> in
      if usb_msc_sector_count (disk o1) = 0 then Ret () o1
      else
        case raw_read ORAM_META_LBA (take 512 (frame o1 (frames o1))) (disk o1) of
          Halt d \<Rightarrow> Halt (o1\<lparr>disk := d\<rparr>)
        | Ret (_, meta) d \<Rightarrow>
            let o2 = o1\<lparr>disk := d, frames := frames o1 + 1\<rparr> in
            if le_word (take 4 meta) \<noteq> ORAM_MAGIC then Ret () (oram_format o2) else posmap_load o2)"

definition oram_reset_counters :: "'d oram \<Rightarrow> 'd oram" where
  "oram_reset_counters o' = o'\<lparr>g_oram_sector_reads := 0, g_oram_sector_writes := 0\<rparr>"

section \<open>Access\<close>

fun oram_fetch :: "(u32 \<times> u32) list \<Rightarrow> 'd oram \<Rightarrow> (bool, 'd oram) run" where
  "oram_fetch [] o' = Ret True o'"
| "oram_fetch ((node, j) # rest) o' =
     run_bind (oram_read_block node j o')
       (\<lambda>b o1. if blk_lba b \<noteq> DUMMY_LBA then
                 if length (stash o1) < 64 then oram_fetch rest (o1\<lparr>stash := stash o1 @ [b]\<rparr>) else Ret False o1
               else oram_fetch rest o1)"

definition stash_index :: "u32 \<Rightarrow> oram_block list \<Rightarrow> nat option" where
  "stash_index lba st = find (\<lambda>i. blk_lba (st ! i) = lba) [0..<length st]"

definition stash_write :: "u32 \<Rightarrow> u8 list \<Rightarrow> oram_block list \<Rightarrow> oram_block list option" where
  "stash_write lba data st =
     (case stash_index lba st of
        Some i \<Rightarrow> Some (st[i := (st ! i)\<lparr>blk_data := data\<rparr>])
      | None \<Rightarrow> if length st < 64 then Some (st @ [\<lparr>blk_lba = lba, blk_data = data\<rparr>]) else None)"

definition stash_read :: "u32 \<Rightarrow> oram_block list \<Rightarrow> u8 list" where
  "stash_read lba st = (case stash_index lba st of Some i \<Rightarrow> blk_data (st ! i) | None \<Rightarrow> replicate ORAM_BLOCK_SIZE 0)"

fun evict_scan :: "u32 list \<Rightarrow> u32 \<Rightarrow> nat \<Rightarrow> oram_block list \<Rightarrow> oram_block list \<times> oram_block list" where
  "evict_scan pm node 0 st = ([], st)"
| "evict_scan pm node (Suc room) [] = ([], [])"
| "evict_scan pm node (Suc room) (b # st) =
     (if is_ancestor node (63 + pm ! unat (blk_lba b)) then
        let (placed, kept) = evict_scan pm node room st in (b # placed, kept)
      else let (placed, kept) = evict_scan pm node (Suc room) st in (placed, b # kept))"

definition evict_node :: "u32 \<Rightarrow> 'd oram \<Rightarrow> 'd oram" where
  "evict_node node o' =
     (let (placed, kept) = evict_scan (pos_map o') node ORAM_Z (stash o');
          bucket = placed @ replicate (ORAM_Z - length placed) dummy_block
      in fold (\<lambda>(j, b). oram_write_block node j b) (zip [0, 1, 2, 3] bucket) (o'\<lparr>stash := kept\<rparr>))"

definition oram_access :: "u32 \<Rightarrow> bool \<Rightarrow> u8 list \<Rightarrow> 'd oram \<Rightarrow> (int \<times> u8 list, 'd oram) run" where
  "oram_access lba write data o' =
     (if unat lba \<ge> ORAM_NUM_LEAVES then Ret (- 1, data) o'
      else
        let path = get_path (pos_map o' ! unat lba) in
        run_bind (oram_fetch (tree_slots path) o')
          (\<lambda>fetched o1.
             if \<not> fetched then Ret (- 1, data) o1
             else
               case (if write then stash_write lba data (stash o1) else Some (stash o1)) of
                 None \<Rightarrow> Ret (- 1, data) o1
               | Some st \<Rightarrow>
                   let out = (if write then data else stash_read lba (stash o1));
                       (new_leaf, o2) = oram_rand_leaf (o1\<lparr>stash := st\<rparr>);
                       o3 = o2\<lparr>pos_map := (pos_map o2)[unat lba := new_leaf]\<rparr>;
                       o4 = fold evict_node (rev path) o3
                   in Ret (0, out) (posmap_save o4)))"

section \<open>Paths\<close>

lemma pred_unat: "0 < c \<Longrightarrow> unat (c - 1) = unat c - 1" "0 < c \<Longrightarrow> 0 < unat c" for c :: u32
  by (auto simp: unat_minus_one) (simp add: word_less_nat_alt)

lemma parent_bound: "0 < c \<Longrightarrow> unat c + 1 < 2 ^ Suc k \<Longrightarrow> unat ((c - 1) div 2) + 1 < 2 ^ k" for c :: u32
proof -
  assume "0 < c" and *: "unat c + 1 < 2 ^ Suc k"
  then have "unat (c - 1) = unat c - 1" "0 < unat c" by (simp_all only: pred_unat)
  then show ?thesis using * by (simp add: unat_div)
qed

lemma path_up_zero: "set (path_up k 0) \<subseteq> {0}"
  by (induction k) auto

lemma is_ancestor_path: "unat c + 1 < 2 ^ k \<Longrightarrow> is_ancestor a c \<longleftrightarrow> a \<in> set (path_up k c)"
proof (induction k arbitrary: c)
  case (Suc k)
  show ?case
  proof (cases "c > 0")
    case True
    then have "is_ancestor a ((c - 1) div 2) \<longleftrightarrow> a \<in> set (path_up k ((c - 1) div 2))"
      using Suc parent_bound by blast
    then show ?thesis using True is_ancestor.simps [of a c] by auto
  next
    case False
    then have "c = 0" by (simp add: not_less)
    then show ?thesis using path_up_zero [of k] is_ancestor.simps [of a 0] by auto
  qed
qed simp

lemma path_up_bound: "n \<in> set (path_up k c) \<Longrightarrow> unat n \<le> unat c"
proof (induction k arbitrary: c)
  case (Suc k)
  have "unat ((c - 1) div 2) \<le> unat c" if "c > 0" using parent_less [OF that] by (simp add: word_less_nat_alt)
  then show ?case using Suc by (fastforce split: if_splits)
qed simp

lemma path_up_distinct: "2 ^ k \<le> 2 * unat c + 2 \<Longrightarrow> distinct (path_up k c)"
proof (induction k arbitrary: c)
  case (Suc k)
  show ?case
  proof (cases "c > 0")
    case True
    let ?p = "(c - 1) div 2"
    have "unat (c - 1) = unat c - 1" "0 < unat c" using True by (simp_all only: pred_unat)
    then have "unat c \<le> 2 * unat ?p + 2" by (simp add: unat_div)
    moreover have "2 * x \<le> 2 * p + 2" if "4 * x \<le> 2 * d + 2" "d \<le> 2 * p + 2" for x d p :: nat using that by presburger
    ultimately have "2 ^ k \<le> 2 * unat ?p + 2 \<or> k = 0" using Suc.prems by (cases k) auto
    then have "distinct (path_up k ?p)" using Suc.IH by auto
    moreover have "c \<notin> set (path_up k ?p)"
      using path_up_bound [of c k ?p] parent_less [OF True] by (auto simp: word_less_nat_alt)
    ultimately show ?thesis using True by simp
  next
    case False
    then have "c = 0" by (simp add: not_less)
    then have "k = 0" using Suc.prems power_le_imp_le_exp [of "2 :: nat" "Suc k" 1] by simp
    then show ?thesis by simp
  qed
qed simp

lemma leaf_node: "unat l < 64 \<Longrightarrow> unat (63 + l) = 63 + unat l" for l :: u32
  by (subst unat_plus_if_size) (simp add: word_size)

lemma get_path_facts:
  assumes "unat l < 64"
  shows "distinct (get_path l)" "\<And>n. n \<in> set (get_path l) \<Longrightarrow> unat n < ORAM_NUM_NODES"
    "\<And>a. is_ancestor a (63 + l) \<longleftrightarrow> a \<in> set (get_path l)"
proof -
  have u: "unat (63 + l) = 63 + unat l" by (rule leaf_node [OF assms])
  show "distinct (get_path l)" unfolding get_path_def by (rule path_up_distinct) (simp add: u)
  show "unat n < ORAM_NUM_NODES" if "n \<in> set (get_path l)" for n
    using path_up_bound [of n "ORAM_L + 1" "63 + l"] that assms u by (simp add: get_path_def)
  show "is_ancestor a (63 + l) \<longleftrightarrow> a \<in> set (get_path l)" for a
    unfolding get_path_def by (rule is_ancestor_path) (use assms u in simp)
qed

lemma oram_lba_unat: "unat n < ORAM_NUM_NODES \<Longrightarrow> unat j < 4 \<Longrightarrow> unat (oram_lba n j) = 500 + unat n * 4 + unat j"
proof -
  assume n: "unat n < ORAM_NUM_NODES" and j: "unat j < 4"
  have 1: "unat (n * 4) = unat n * 4" using n by (simp add: unat_mult_lem [THEN iffD1])
  have 2: "unat (500 + n * 4) = 500 + unat n * 4"
    by (subst unat_plus_if_size) (use n in \<open>simp add: word_size 1\<close>)
  show ?thesis unfolding oram_lba_def by (subst unat_plus_if_size) (use n j in \<open>simp add: word_size 2\<close>)
qed

lemma oram_lba_inj:
  "unat n < ORAM_NUM_NODES \<Longrightarrow> unat j < 4 \<Longrightarrow> unat n' < ORAM_NUM_NODES \<Longrightarrow> unat j' < 4 \<Longrightarrow>
     oram_lba n j = oram_lba n' j' \<longleftrightarrow> n = n' \<and> j = j'"
  using oram_lba_unat [of n j] oram_lba_unat [of n' j']
  by (smt (verit) add_left_cancel add_right_cancel div_mult_self3 div_less mod_less mod_mult_self3 unsigned_word_eqI
      add.assoc add.commute mult.commute zero_neq_numeral add_0)

lemma oram_lba_other:
  "unat n < ORAM_NUM_NODES \<Longrightarrow> unat j < 4 \<Longrightarrow> oram_lba n j \<noteq> ORAM_POSMAP_LBA \<and> oram_lba n j \<noteq> ORAM_META_LBA"
  using oram_lba_unat [of n j] by auto

section \<open>Blocks as entries\<close>

text \<open>An entry is a logical address with the 508 bytes of data that survive on the disk.\<close>

type_synonym entry = "u32 \<times> u8 list"

definition entry_of_block :: "oram_block \<Rightarrow> entry" where
  "entry_of_block b = (blk_lba b, take 508 (blk_data b))"

definition entry_of_sector :: "u8 list \<Rightarrow> entry" where
  "entry_of_sector bs = (le_word (take 4 bs), drop 4 bs)"

definition real_entry :: "entry \<Rightarrow> bool" where
  "real_entry e = (fst e \<noteq> DUMMY_LBA)"

definition slot_entry :: "(u32 \<Rightarrow> u8 list) \<Rightarrow> u32 \<times> u32 \<Rightarrow> entry" where
  "slot_entry v p = entry_of_sector (v (oram_lba (fst p) (snd p)))"

definition slot_entries :: "(u32 \<Rightarrow> u8 list) \<Rightarrow> (u32 \<times> u32) list \<Rightarrow> entry list" where
  "slot_entries v ps = filter real_entry (map (slot_entry v) ps)"

lemma slot_entries_simps [simp]:
  "slot_entries v [] = []" "slot_entries v (ps @ qs) = slot_entries v ps @ slot_entries v qs"
  by (simp_all add: slot_entries_def)

lemma fst_entry [simp]: "fst (entry_of_block b) = blk_lba b" "fst \<circ> entry_of_block = blk_lba"
  by (auto simp: entry_of_block_def)

lemma entry_written: "length (blk_data b) = 512 \<Longrightarrow> entry_of_sector (take 512 (oram_bytes b)) = entry_of_block b"
  by (simp add: entry_of_sector_def entry_of_block_def oram_bytes_def le_word_bytes)

lemma entry_fetched:
  "length bs = 512 \<Longrightarrow> length x = 4 \<Longrightarrow> entry_of_block (oram_of_bytes (bs @ x)) = entry_of_sector bs"
  "length bs = 512 \<Longrightarrow> length x = 4 \<Longrightarrow> length (blk_data (oram_of_bytes (bs @ x))) = 512"
  by (simp_all add: entry_of_sector_def entry_of_block_def oram_of_bytes_def)

lemma entry_dummy [simp]: "entry_of_block dummy_block = (DUMMY_LBA, replicate 508 0)" "length (blk_data dummy_block) = 512"
  by (simp_all add: entry_of_block_def dummy_block_def)

section \<open>Single transfers\<close>

definition good :: "('d \<Rightarrow> u32 \<Rightarrow> u8 list) \<Rightarrow> ('d \<Rightarrow> bool) \<Rightarrow> 'd oram \<Rightarrow> bool" where
  "good content ready o' =
     (disk_ok content ready (disk o') \<and> (\<forall>k. length (frame o' k) = 516) \<and> (\<forall>b \<in> set (stash o'). length (blk_data b) = 512))"

abbreviation view :: "('d \<Rightarrow> u32 \<Rightarrow> u8 list) \<Rightarrow> 'd oram \<Rightarrow> u32 \<Rightarrow> u8 list" where
  "view content o' \<equiv> sector_view content (disk o')"

lemma view_length: "disk_ok content ready s \<Longrightarrow> length (sector_view content s lba) = 512"
  by (simp add: disk_ok_def scsi_disk_def sector_view_def aes256_xts_decrypt_sector_def del: xts_blocks.simps)

lemma read_block_good:
  assumes "good content ready o'"
  shows "\<exists>b o1. oram_read_block n j o' = Ret b o1 \<and> entry_of_block b = slot_entry (view content o') (n, j) \<and>
    length (blk_data b) = 512 \<and> good content ready o1 \<and> view content o1 = view content o' \<and>
    pos_map o1 = pos_map o' \<and> stash o1 = stash o'"
proof -
  let ?mem = "frame o' (frames o')"
  have mem: "length ?mem = 516" and ok: "disk_ok content ready (disk o')" using assms by (simp_all add: good_def)
  then have "length (take 512 ?mem) = 512" by simp
  then obtain d where d: "usb_msc_read_sector (oram_lba n j) (take 512 ?mem) (disk o') = Ret (0, view content o' (oram_lba n j)) d"
      "disk_ok content ready d" "sector_view content d = view content o'"
    using usb.rd_view [OF ok, of "take 512 ?mem" "oram_lba n j"] by blast
  then show ?thesis
    using assms mem view_length [OF ok, of "oram_lba n j"]
    by (simp add: oram_read_block_def Let_def good_def slot_entry_def entry_fetched)
qed

lemma write_block_good:
  assumes "good content ready o'" "length (blk_data b) = 512"
  shows "good content ready (oram_write_block n j b o')"
    "view content (oram_write_block n j b o') = (view content o')(oram_lba n j := take 512 (oram_bytes b))"
    "pos_map (oram_write_block n j b o') = pos_map o'" "stash (oram_write_block n j b o') = stash o'"
proof -
  have ok: "disk_ok content ready (disk o')" using assms by (simp add: good_def)
  have "length (take 512 (oram_bytes b)) = 512" using assms(2) by (simp add: oram_bytes_def)
  from usb.wr_view [OF ok this, of "oram_lba n j"] obtain d where
    d: "usb_msc_write_sector (oram_lba n j) (take 512 (oram_bytes b)) (disk o') = (0, d)" "disk_ok content ready d"
      "sector_view content d = (view content o')(oram_lba n j := take 512 (oram_bytes b))" by blast
  show "good content ready (oram_write_block n j b o')"
    "view content (oram_write_block n j b o') = (view content o')(oram_lba n j := take 512 (oram_bytes b))"
    "pos_map (oram_write_block n j b o') = pos_map o'" "stash (oram_write_block n j b o') = stash o'"
    using assms d by (simp_all add: oram_write_block_def good_def)
qed

lemma raw_write_view:
  assumes "disk_ok content ready s" "length buf = 512"
  shows "disk_ok content ready (raw_write lba buf s) \<and>
    (\<forall>l. l \<noteq> lba \<longrightarrow> sector_view content (raw_write lba buf s) l = sector_view content s l)"
proof -
  let ?s = "s\<lparr>g_encryption_enabled := False\<rparr>"
  let ?t = "snd (usb_msc_write_sector lba buf ?s)"
  have "raw_ok content ready ?s" using assms(1) by (simp add: raw_ok_def disk_ok_def)
  from raw_write_content [OF this assms(2), of lba]
  have t: "raw_ok content ready ?t" "content (dev ?t) = (content (dev s))(lba := buf)" "g_xts_ctx ?t = g_xts_ctx s" by simp_all
  have "merkle_initialized ?t = merkle_initialized s" using same_storageD(6) [OF write_same [of ?s lba buf]] by simp
  then show ?thesis
    using t assms(1) by (auto simp: raw_write_def disk_ok_def raw_ok_def sector_view_def)
qed

lemma posmap_save_good:
  assumes "good content ready o'" "length (pos_map o') = 64"
  shows "good content ready (posmap_save o')" "pos_map (posmap_save o') = pos_map o'" "stash (posmap_save o') = stash o'"
    "l \<noteq> ORAM_POSMAP_LBA \<Longrightarrow> view content (posmap_save o') l = view content o' l"
proof -
  have "length (concat (map (le_bytes 4) ps)) = 4 * length ps" for ps :: "u32 list" by (induction ps) simp_all
  then have "length (concat (map (le_bytes 4) (pos_map o')) @ replicate 256 0) = 512" using assms(2) by simp
  from raw_write_view [OF _ this, of content ready "disk o'" ORAM_POSMAP_LBA] assms(1)
  show "good content ready (posmap_save o')" "pos_map (posmap_save o') = pos_map o'" "stash (posmap_save o') = stash o'"
    "l \<noteq> ORAM_POSMAP_LBA \<Longrightarrow> view content (posmap_save o') l = view content o' l"
    by (simp_all add: posmap_save_def good_def)
qed

section \<open>Fetching a path\<close>

lemma fetch_good:
  "good content ready o' \<Longrightarrow> length (stash o') + length (slot_entries (view content o') ps) \<le> 64 \<Longrightarrow>
   \<exists>o1. oram_fetch ps o' = Ret True o1 \<and> good content ready o1 \<and> view content o1 = view content o' \<and> pos_map o1 = pos_map o' \<and>
     map entry_of_block (stash o1) = map entry_of_block (stash o') @ slot_entries (view content o') ps"
proof (induction ps arbitrary: o')
  case (Cons p ps)
  obtain n j where p: "p = (n, j)" by (cases p)
  obtain b o1 where b: "oram_read_block n j o' = Ret b o1" "entry_of_block b = slot_entry (view content o') (n, j)"
      "length (blk_data b) = 512" and o1: "good content ready o1" "view content o1 = view content o'" "pos_map o1 = pos_map o'"
      "stash o1 = stash o'"
    using read_block_good [OF Cons.prems(1), of n j] by blast
  have e: "fst (slot_entry (view content o') (n, j)) = blk_lba b" using b(2) by (metis entry_of_block_def fst_conv)
  show ?case
  proof (cases "blk_lba b = DUMMY_LBA")
    case True
    then have s: "slot_entries (view content o') (p # ps) = slot_entries (view content o') ps"
      using e p by (simp add: slot_entries_def real_entry_def)
    then show ?thesis using Cons.IH [OF o1(1)] Cons.prems(2) o1 b(1) True p by simp
  next
    case False
    then have s: "slot_entries (view content o') (p # ps) = entry_of_block b # slot_entries (view content o') ps"
      using e p b(2) by (simp add: slot_entries_def real_entry_def)
    let ?o2 = "o1\<lparr>stash := stash o1 @ [b]\<rparr>"
    have "good content ready ?o2" using o1 b(3) by (auto simp: good_def)
    moreover have "length (stash ?o2) + length (slot_entries (view content ?o2) ps) \<le> 64" using Cons.prems(2) s o1 by simp
    ultimately show ?thesis using Cons.IH [of ?o2] Cons.prems(2) s o1 b(1) False p by simp
  qed
qed simp

section \<open>The stash\<close>

lemma stash_index_map:
  assumes "distinct (map blk_lba st)"
  shows "stash_index a st = None \<Longrightarrow> map_of (map entry_of_block st) a = None"
    "stash_index a st = Some i \<Longrightarrow> i < length st \<and> blk_lba (st ! i) = a \<and>
      map_of (map entry_of_block st) a = Some (take 508 (blk_data (st ! i)))"
proof -
  show "map_of (map entry_of_block st) a = None" if "stash_index a st = None"
    using that by (auto simp: stash_index_def find_upt_None_iff map_of_eq_None_iff entry_of_block_def in_set_conv_nth)
  show "i < length st \<and> blk_lba (st ! i) = a \<and> map_of (map entry_of_block st) a = Some (take 508 (blk_data (st ! i)))"
    if "stash_index a st = Some i"
  proof -
    have i: "i < length st" "blk_lba (st ! i) = a" using that by (auto simp: stash_index_def find_upt_Some_iff)
    then have "(a, take 508 (blk_data (st ! i))) \<in> set (map entry_of_block st)"
      using imageI [of "st ! i" "set st" entry_of_block] by (simp add: entry_of_block_def)
    then show ?thesis using i assms by (simp add: map_of_eq_Some_iff del: set_map)
  qed
qed

lemma stash_read_value:
  "distinct (map blk_lba st) \<Longrightarrow>
     take 508 (stash_read a st) = (case map_of (map entry_of_block st) a of Some d \<Rightarrow> d | None \<Rightarrow> replicate 508 0)"
  using stash_index_map [of st a] by (cases "stash_index a st") (simp_all add: stash_read_def del: map_of_eq_Some_iff)

lemma map_of_list_update:
  "i < length xs \<Longrightarrow> distinct (map fst xs) \<Longrightarrow> fst (xs ! i) = a \<Longrightarrow> map_of (xs[i := (a, d)]) = (map_of xs)(a \<mapsto> d)"
proof (induction xs arbitrary: i)
  case (Cons x xs)
  show ?case
  proof (cases i)
    case (Suc j)
    then have "j < length xs" "fst (xs ! j) = a" using Cons.prems by simp_all
    then have "a \<in> set (map fst xs)" using nth_mem [of j xs] by auto
    then have "a \<noteq> fst x" using Cons.prems(2) by (cases "a = fst x") simp_all
    then show ?thesis using Cons.IH [of j] Cons.prems Suc by (auto simp: fun_eq_iff)
  qed (use Cons.prems in auto)
qed simp

lemma stash_write_value:
  assumes dist: "distinct (map blk_lba st)" and lt: "\<forall>b \<in> set st. unat (blk_lba b) < 64" and a: "unat a < 64"
    and data: "length data = 512"
  shows "\<exists>st'. stash_write a data st = Some st' \<and>
    map_of (map entry_of_block st') = (map_of (map entry_of_block st))(a \<mapsto> take 508 data) \<and>
    distinct (map blk_lba st') \<and> set (map blk_lba st') = insert a (set (map blk_lba st)) \<and>
    ((\<forall>b \<in> set st. length (blk_data b) = 512) \<longrightarrow> (\<forall>b \<in> set st'. length (blk_data b) = 512))"
proof (cases "stash_index a st")
  case None
  then have notin: "a \<notin> set (map blk_lba st)"
    by (auto simp: stash_index_def find_upt_None_iff in_set_conv_nth)
  have d: "distinct (map blk_lba st)" using dist .
  have "set (map blk_lba st) \<subseteq> {w. unat w < 64} - {a}" using lt notin by auto
  moreover have fin: "{w :: u32. unat w < 64} = word_of_nat ` {..<64}"
  proof (rule set_eqI)
    fix w :: u32
    show "w \<in> {w. unat w < 64} \<longleftrightarrow> w \<in> word_of_nat ` {..<64}"
      by (auto simp: unat_word_of_nat intro!: image_eqI [of _ _ "unat w"])
  qed
  ultimately have "card (set (map blk_lba st)) \<le> card ({w :: u32. unat w < 64} - {a})" by (intro card_mono) auto
  also have "\<dots> = card {w :: u32. unat w < 64} - 1" using a by (intro card_Diff_singleton) simp
  also have "card {w :: u32. unat w < 64} \<le> 64" unfolding fin by (rule order_trans [OF card_image_le]) simp_all
  finally have "card (set (map blk_lba st)) \<le> 63" by simp
  then have "length st < 64" using distinct_card [OF d] by simp
  moreover have "map_of (map entry_of_block st) a = None" using stash_index_map(1) [OF dist None] .
  ultimately show ?thesis
    using None notin dist data
    by (auto simp: stash_write_def entry_of_block_def map_add_def fun_eq_iff split: option.splits)
next
  case (Some i)
  note i = stash_index_map(2) [OF dist Some]
  let ?st = "st[i := (st ! i)\<lparr>blk_data := data\<rparr>]"
  have keys: "map blk_lba ?st = map blk_lba st" using i by (simp add: map_update list_update_same_conv)
  have "map entry_of_block ?st = (map entry_of_block st)[i := (a, take 508 data)]"
    using i by (simp add: map_update entry_of_block_def)
  then have "map_of (map entry_of_block ?st) = (map_of (map entry_of_block st))(a \<mapsto> take 508 data)"
    using map_of_list_update [of i "map entry_of_block st" a "take 508 data"] i dist by simp
  moreover have "set (map blk_lba st) = insert a (set (map blk_lba st))"
    using i nth_mem [of i "map blk_lba st"] by auto
  ultimately show ?thesis
    using Some dist keys data by (auto simp: stash_write_def simp del: set_map dest: set_update_subset_insert [THEN subsetD])
qed

section \<open>Eviction\<close>

lemma evict_scan_props:
  "evict_scan pm node room st = (placed, kept) \<Longrightarrow>
     mset placed + mset kept = mset st \<and> length placed \<le> room \<and> (\<forall>b \<in> set placed. is_ancestor node (63 + pm ! unat (blk_lba b)))"
proof (induction pm node room st arbitrary: placed kept rule: evict_scan.induct)
  case (3 pm node room b st)
  show ?case
  proof (cases "is_ancestor node (63 + pm ! unat (blk_lba b))")
    case True
    then obtain p where "evict_scan pm node room st = (p, kept)" "placed = b # p"
      using "3.prems" by (auto split: prod.splits)
    then show ?thesis using "3.IH"(1) [OF True] True by fastforce
  next
    case False
    then obtain k where "evict_scan pm node (Suc room) st = (placed, k)" "kept = b # k"
      using "3.prems" by (auto split: prod.splits)
    then show ?thesis using "3.IH"(2) [OF False] by fastforce
  qed
qed auto

definition bucket_of :: "oram_block list \<Rightarrow> oram_block list" where
  "bucket_of placed = placed @ replicate (ORAM_Z - length placed) dummy_block"

lemma list4: "length xs = 4 \<Longrightarrow> \<exists>a b c d. xs = [a, b, c, d]"
  by (auto simp: numeral_eq_Suc length_Suc_conv)

lemma tree_slots_Cons: "tree_slots (n # ns) = [(n, 0), (n, 1), (n, 2), (n, 3)] @ tree_slots ns"
  by (simp add: tree_slots_def)

lemma tree_slots_Nil [simp]: "tree_slots [] = []"
  by (simp add: tree_slots_def)

lemma in_tree_slots: "(n, j) \<in> set (tree_slots ns) \<longleftrightarrow> n \<in> set ns \<and> unat j < 4"
proof -
  have "unat j < 4 \<longleftrightarrow> j = 0 \<or> j = 1 \<or> j = 2 \<or> j = 3" for j :: u32
  proof
    assume "unat j < 4"
    then have "unat j = 0 \<or> unat j = 1 \<or> unat j = 2 \<or> unat j = 3" by auto
    moreover have "unat (0 :: u32) = 0" "unat (1 :: u32) = 1" "unat (2 :: u32) = 2" "unat (3 :: u32) = 3" by simp_all
    ultimately show "j = 0 \<or> j = 1 \<or> j = 2 \<or> j = 3" using unsigned_word_eqI by metis
  qed auto
  then show ?thesis by (auto simp: tree_slots_def)
qed

text \<open>Rewriting one bucket: the four slots of the node receive the bucket, every other slot keeps its contents.\<close>

lemma write_bucket:
  assumes "good content ready o'" "length bk = 4" "\<forall>b \<in> set bk. length (blk_data b) = 512" "unat n < ORAM_NUM_NODES"
  defines "o1 \<equiv> fold (\<lambda>(j, b). oram_write_block n j b) (zip [0, 1, 2, 3] bk) o'"
  shows "good content ready o1" "pos_map o1 = pos_map o'" "stash o1 = stash o'"
    "map (slot_entry (view content o1)) (tree_slots [n]) = map entry_of_block bk"
    "\<And>n' j. unat n' < ORAM_NUM_NODES \<Longrightarrow> unat j < 4 \<Longrightarrow> n' \<noteq> n \<Longrightarrow>
       slot_entry (view content o1) (n', j) = slot_entry (view content o') (n', j)"
proof -
  obtain a b c d where bk: "bk = [a, b, c, d]" using list4 [OF assms(2)] by blast
  have l: "length (blk_data a) = 512" "length (blk_data b) = 512" "length (blk_data c) = 512" "length (blk_data d) = 512"
    using assms(3) bk by auto
  note w = write_block_good
  let ?w1 = "oram_write_block n 0 a o'" let ?w2 = "oram_write_block n 1 b ?w1"
  let ?w3 = "oram_write_block n 2 c ?w2" let ?w4 = "oram_write_block n 3 d ?w3"
  have g: "good content ready ?w1" "good content ready ?w2" "good content ready ?w3" "good content ready ?w4"
    using assms(1) l by (blast intro: w(1))+
  have o1: "o1 = ?w4" by (simp add: o1_def bk)
  have v: "view content o1 = (view content o')(oram_lba n 0 := take 512 (oram_bytes a), oram_lba n 1 := take 512 (oram_bytes b),
      oram_lba n 2 := take 512 (oram_bytes c), oram_lba n 3 := take 512 (oram_bytes d))"
    unfolding o1 w(2) [OF g(3) l(4)] w(2) [OF g(2) l(3)] w(2) [OF g(1) l(2)] w(2) [OF assms(1) l(1)] ..
  show "good content ready o1" using g(4) o1 by simp
  show "pos_map o1 = pos_map o'" unfolding o1 w(3) [OF g(3) l(4)] w(3) [OF g(2) l(3)] w(3) [OF g(1) l(2)] w(3) [OF assms(1) l(1)] ..
  show "stash o1 = stash o'" unfolding o1 w(4) [OF g(3) l(4)] w(4) [OF g(2) l(3)] w(4) [OF g(1) l(2)] w(4) [OF assms(1) l(1)] ..
  show "map (slot_entry (view content o1)) (tree_slots [n]) = map entry_of_block bk"
    using assms(4) l by (simp add: tree_slots_Cons slot_entry_def v bk oram_lba_inj entry_written)
  show "slot_entry (view content o1) (n', j) = slot_entry (view content o') (n', j)"
    if "unat n' < ORAM_NUM_NODES" "unat j < 4" "n' \<noteq> n" for n' j
    using that assms(4) by (simp add: slot_entry_def v oram_lba_inj)
qed

lemma evict_node_good:
  assumes "good content ready o'" "unat n < ORAM_NUM_NODES" "\<forall>b \<in> set (stash o'). blk_lba b \<noteq> DUMMY_LBA"
  shows "good content ready (evict_node n o')" "pos_map (evict_node n o') = pos_map o'"
    "mset (map entry_of_block (stash (evict_node n o'))) + mset (slot_entries (view content (evict_node n o')) (tree_slots [n])) =
       mset (map entry_of_block (stash o'))"
    "\<And>e. e \<in> set (slot_entries (view content (evict_node n o')) (tree_slots [n])) \<Longrightarrow>
       is_ancestor n (63 + pos_map o' ! unat (fst e))"
    "\<And>n' j. unat n' < ORAM_NUM_NODES \<Longrightarrow> unat j < 4 \<Longrightarrow> n' \<noteq> n \<Longrightarrow>
       slot_entry (view content (evict_node n o')) (n', j) = slot_entry (view content o') (n', j)"
proof -
  obtain placed kept where s: "evict_scan (pos_map o') n ORAM_Z (stash o') = (placed, kept)"
    by (cases "evict_scan (pos_map o') n ORAM_Z (stash o')")
  note p = evict_scan_props [OF s]
  have m: "set placed \<union> set kept = set (stash o')" using p by (metis set_mset_mset set_mset_union)
  let ?o = "o'\<lparr>stash := kept\<rparr>" and ?bk = "placed @ replicate (ORAM_Z - length placed) dummy_block"
  have g: "good content ready ?o" using assms(1) m by (auto simp: good_def)
  have len: "length ?bk = 4" "\<forall>b \<in> set ?bk. length (blk_data b) = 512" using p m assms(1) by (auto simp: good_def)
  have ev: "evict_node n o' = fold (\<lambda>(j, b). oram_write_block n j b) (zip [0, 1, 2, 3] ?bk) ?o"
    by (simp add: evict_node_def s)
  note w = write_bucket [OF g len assms(2), folded ev]
  have "slot_entries (view content (evict_node n o')) (tree_slots [n]) = filter real_entry (map entry_of_block ?bk)"
    unfolding slot_entries_def w(4) ..
  also have "\<dots> = map entry_of_block placed"
    using m assms(3) by (auto simp: real_entry_def filter_id_conv)
  finally have e: "slot_entries (view content (evict_node n o')) (tree_slots [n]) = map entry_of_block placed" .
  show "good content ready (evict_node n o')" "pos_map (evict_node n o') = pos_map o'" using w by simp_all
  have "mset (map entry_of_block kept) + mset (map entry_of_block placed) = image_mset entry_of_block (mset placed + mset kept)"
    by simp
  then show "mset (map entry_of_block (stash (evict_node n o'))) +
      mset (slot_entries (view content (evict_node n o')) (tree_slots [n])) = mset (map entry_of_block (stash o'))"
    unfolding e w(3) using p by simp
  show "is_ancestor n (63 + pos_map o' ! unat (fst e'))"
    if "e' \<in> set (slot_entries (view content (evict_node n o')) (tree_slots [n]))" for e'
    using that p unfolding e by auto
  show "slot_entry (view content (evict_node n o')) (n', j) = slot_entry (view content o') (n', j)"
    if "unat n' < ORAM_NUM_NODES" "unat j < 4" "n' \<noteq> n" for n' j
    using w(5) [OF that] by simp
qed

lemma slot_entries_cong:
  "(\<And>n j. (n, j) \<in> set ps \<Longrightarrow> slot_entry v (n, j) = slot_entry v' (n, j)) \<Longrightarrow> slot_entries v ps = slot_entries v' ps"
  unfolding slot_entries_def by (intro arg_cong [of _ _ "filter real_entry"] map_cong) auto

lemma evict_path_good:
  "good content ready o' \<Longrightarrow> distinct ns \<Longrightarrow> \<forall>n \<in> set ns. unat n < ORAM_NUM_NODES \<Longrightarrow>
   \<forall>b \<in> set (stash o'). blk_lba b \<noteq> DUMMY_LBA \<Longrightarrow>
   let o1 = fold evict_node ns o' in
     good content ready o1 \<and> pos_map o1 = pos_map o' \<and>
     mset (map entry_of_block (stash o1)) + mset (slot_entries (view content o1) (tree_slots ns)) = mset (map entry_of_block (stash o')) \<and>
     (\<forall>n j. n \<in> set ns \<and> unat j < 4 \<and> real_entry (slot_entry (view content o1) (n, j)) \<longrightarrow>
        is_ancestor n (63 + pos_map o' ! unat (fst (slot_entry (view content o1) (n, j))))) \<and>
     (\<forall>n j. unat n < ORAM_NUM_NODES \<and> unat j < 4 \<and> n \<notin> set ns \<longrightarrow>
        slot_entry (view content o1) (n, j) = slot_entry (view content o') (n, j))"
proof (induction ns arbitrary: o')
  case (Cons n ns)
  let ?o1 = "evict_node n o'"
  have n: "unat n < ORAM_NUM_NODES" using Cons.prems by simp
  note ev = evict_node_good [OF Cons.prems(1) n Cons.prems(4)]
  have sub: "set (map entry_of_block (stash ?o1)) \<subseteq> set (map entry_of_block (stash o'))"
    using ev(3) by (metis mset_subset_eq_add_left set_mset_mono set_mset_mset)
  have nd: "\<forall>b \<in> set (stash ?o1). blk_lba b \<noteq> DUMMY_LBA"
  proof
    fix b assume "b \<in> set (stash ?o1)"
    then have "entry_of_block b \<in> entry_of_block ` set (stash o')" using sub by auto
    then obtain c where "c \<in> set (stash o')" "entry_of_block b = entry_of_block c" by auto
    then show "blk_lba b \<noteq> DUMMY_LBA" using Cons.prems(4) by (metis fst_entry(1))
  qed
  define o2 where "o2 = fold evict_node ns ?o1"
  have IH: "good content ready o2" "pos_map o2 = pos_map o'"
      "mset (map entry_of_block (stash o2)) + mset (slot_entries (view content o2) (tree_slots ns)) = mset (map entry_of_block (stash ?o1))"
      "\<forall>n j. n \<in> set ns \<and> unat j < 4 \<and> real_entry (slot_entry (view content o2) (n, j)) \<longrightarrow>
        is_ancestor n (63 + pos_map o' ! unat (fst (slot_entry (view content o2) (n, j))))"
      "\<forall>n j. unat n < ORAM_NUM_NODES \<and> unat j < 4 \<and> n \<notin> set ns \<longrightarrow> slot_entry (view content o2) (n, j) = slot_entry (view content ?o1) (n, j)"
    using Cons.IH [OF ev(1) _ _ nd] Cons.prems(2,3) ev(2) by (simp_all add: o2_def Let_def)
  have keep: "slot_entry (view content o2) (n, j) = slot_entry (view content ?o1) (n, j)" if "unat j < 4" for j
    using IH(5) n Cons.prems(2) that by simp
  then have sn: "slot_entries (view content o2) (tree_slots [n]) = slot_entries (view content ?o1) (tree_slots [n])"
    by (intro slot_entries_cong) (auto simp: in_tree_slots)
  have ts: "tree_slots (n # ns) = tree_slots [n] @ tree_slots ns" by (simp add: tree_slots_Cons)
  have "mset (map entry_of_block (stash o2)) + mset (slot_entries (view content o2) (tree_slots (n # ns))) = mset (map entry_of_block (stash o'))"
    unfolding ts ev(3) [symmetric] IH(3) [symmetric] slot_entries_simps sn by simp
  moreover have "is_ancestor m (63 + pos_map o' ! unat (fst (slot_entry (view content o2) (m, j))))"
    if "m \<in> set (n # ns)" "unat j < 4" "real_entry (slot_entry (view content o2) (m, j))" for m j
  proof (cases "m = n")
    case True
    then have "slot_entry (view content o2) (m, j) \<in> set (slot_entries (view content ?o1) (tree_slots [n]))"
      using that keep by (auto simp: slot_entries_def in_tree_slots)
    then show ?thesis using ev(4) True by blast
  qed (use that IH(4) in auto)
  moreover have "slot_entry (view content o2) (m, j) = slot_entry (view content o') (m, j)"
    if "unat m < ORAM_NUM_NODES" "unat j < 4" "m \<notin> set (n # ns)" for m j
    using that IH(5) ev(5) [of m j] by simp
  ultimately show ?case using IH(1,2) by (simp add: o2_def Let_def)
qed simp

section \<open>Invariant and contents\<close>

definition all_slots :: "(u32 \<times> u32) list" where
  "all_slots = tree_slots (map word_of_nat [0..<ORAM_NUM_NODES])"

definition oram_entries :: "('d \<Rightarrow> u32 \<Rightarrow> u8 list) \<Rightarrow> 'd oram \<Rightarrow> entry list" where
  "oram_entries content o' = map entry_of_block (stash o') @ slot_entries (view content o') all_slots"

definition oram_value :: "('d \<Rightarrow> u32 \<Rightarrow> u8 list) \<Rightarrow> 'd oram \<Rightarrow> u32 \<Rightarrow> u8 list" where
  "oram_value content o' a = (case map_of (oram_entries content o') a of Some d \<Rightarrow> d | None \<Rightarrow> replicate 508 0)"

definition located :: "('d \<Rightarrow> u32 \<Rightarrow> u8 list) \<Rightarrow> 'd oram \<Rightarrow> bool" where
  "located content o' =
     (\<forall>n j. unat n < ORAM_NUM_NODES \<and> unat j < 4 \<and> real_entry (slot_entry (view content o') (n, j)) \<longrightarrow>
        n \<in> set (get_path (pos_map o' ! unat (fst (slot_entry (view content o') (n, j))))))"

definition oram_inv :: "('d \<Rightarrow> u32 \<Rightarrow> u8 list) \<Rightarrow> ('d \<Rightarrow> bool) \<Rightarrow> 'd oram \<Rightarrow> bool" where
  "oram_inv content ready o' =
     (good content ready o' \<and> length (pos_map o') = 64 \<and> (\<forall>l \<in> set (pos_map o'). unat l < 64) \<and>
      distinct (map fst (oram_entries content o')) \<and> (\<forall>e \<in> set (oram_entries content o'). unat (fst e) < 64) \<and>
      located content o')"

lemma in_all_slots: "(n, j) \<in> set all_slots \<longleftrightarrow> unat n < ORAM_NUM_NODES \<and> unat j < 4"
proof -
  have "n \<in> set (map word_of_nat [0..<ORAM_NUM_NODES]) \<longleftrightarrow> unat n < ORAM_NUM_NODES"
    by (auto simp: unat_word_of_nat image_iff intro!: bexI [of _ "unat n"])
  then show ?thesis by (simp only: all_slots_def in_tree_slots)
qed

lemma distinct_tree_slots: "distinct ns \<Longrightarrow> distinct (tree_slots ns)"
proof (induction ns)
  case (Cons n ns)
  then show ?case by (auto simp: tree_slots_Cons in_tree_slots)
qed simp

lemma distinct_all_slots: "distinct all_slots"
  unfolding all_slots_def
  by (intro distinct_tree_slots) (auto simp: distinct_map inj_on_def dest: arg_cong [where f = unat] simp: unat_word_of_nat)

definition other_slots :: "u32 list \<Rightarrow> (u32 \<times> u32) list" where
  "other_slots ns = filter (\<lambda>(n, j). n \<notin> set ns) all_slots"

lemma all_slots_split:
  assumes "distinct ns" "\<forall>n \<in> set ns. unat n < ORAM_NUM_NODES"
  shows "mset all_slots = mset (tree_slots ns) + mset (other_slots ns)"
proof -
  have "distinct (tree_slots ns @ other_slots ns)"
    using distinct_tree_slots [OF assms(1)] distinct_all_slots by (auto simp: other_slots_def in_tree_slots)
  moreover have "set (tree_slots ns @ other_slots ns) = set all_slots"
    using assms(2) by (auto simp: other_slots_def in_tree_slots in_all_slots)
  ultimately have "mset (tree_slots ns @ other_slots ns) = mset all_slots"
    using distinct_all_slots by (metis set_eq_iff_mset_eq_distinct)
  then show ?thesis by simp
qed

lemma mset_slot_entries: "mset (slot_entries v ps) = filter_mset real_entry (image_mset (slot_entry v) (mset ps))"
  by (simp add: slot_entries_def)

lemma mset_entries_split:
  assumes "distinct ns" "\<forall>n \<in> set ns. unat n < ORAM_NUM_NODES"
  shows "mset (oram_entries content o') =
    mset (map entry_of_block (stash o') @ slot_entries (view content o') (tree_slots ns) @ slot_entries (view content o') (other_slots ns))"
  by (simp add: oram_entries_def mset_slot_entries all_slots_split [OF assms])

lemma map_of_perm:
  assumes "mset xs = mset ys" "distinct (map fst ys)"
  shows "map_of xs = map_of ys" "distinct (map fst xs)" "set xs = set ys"
proof -
  show s: "set xs = set ys" by (rule mset_eq_setD [OF assms(1)])
  have "mset (map fst xs) = mset (map fst ys)" using assms(1) by simp
  then show d: "distinct (map fst xs)" using assms(2) mset_eq_imp_distinct_iff by blast
  show "map_of xs = map_of ys" using map_of_inject_set [OF d assms(2)] s by blast
qed

lemma few_keys:
  assumes "distinct (map fst es)" "\<forall>e \<in> set es. unat (fst e) < 64"
  shows "length (es :: entry list) \<le> 64"
proof -
  have "inj_on unat (set (map fst es))" by (auto simp: inj_on_def dest: unsigned_word_eqI)
  then have "card (set (map fst es)) = card (unat ` set (map fst es))" by (simp add: card_image)
  also have "\<dots> \<le> card {..<64 :: nat}" using assms(2) by (intro card_mono) auto
  finally show ?thesis using distinct_card [OF assms(1)] by simp
qed

lemma rand_leaf_good:
  assumes "good content ready o'" "oram_rand_leaf o' = (l, o1)"
  shows "good content ready o1" "view content o1 = view content o'" "pos_map o1 = pos_map o'" "stash o1 = stash o'" "unat l < 64"
  using assms by (auto simp: oram_rand_leaf_def good_def disk_ok_def sector_view_def fun_eq_iff unat_mod split: prod.splits)

lemma evict_establishes:
  assumes g: "good content ready o3" and pm: "length (pos_map o3) = 64" "\<forall>l \<in> set (pos_map o3). unat l < 64"
    and path: "distinct path" "\<forall>n \<in> set path. unat n < ORAM_NUM_NODES"
    and dist: "distinct (map fst (map entry_of_block (stash o3) @ slot_entries (view content o3) (other_slots path)))"
    and keys: "\<forall>e \<in> set (map entry_of_block (stash o3) @ slot_entries (view content o3) (other_slots path)). unat (fst e) < 64"
    and loc: "\<forall>n j. unat n < ORAM_NUM_NODES \<and> unat j < 4 \<and> n \<notin> set path \<and> real_entry (slot_entry (view content o3) (n, j)) \<longrightarrow>
        n \<in> set (get_path (pos_map o3 ! unat (fst (slot_entry (view content o3) (n, j)))))"
    and o5: "o5 = posmap_save (fold evict_node (rev path) o3)"
  shows "oram_inv content ready o5 \<and>
    map_of (oram_entries content o5) = map_of (map entry_of_block (stash o3) @ slot_entries (view content o3) (other_slots path))"
proof -
  let ?E = "map entry_of_block (stash o3) @ slot_entries (view content o3) (other_slots path)"
  define o4 where "o4 = fold evict_node (rev path) o3"
  have nd: "\<forall>b \<in> set (stash o3). blk_lba b \<noteq> DUMMY_LBA" using keys by (auto simp: ball_Un)
  have e: "good content ready o4" "pos_map o4 = pos_map o3"
      "mset (map entry_of_block (stash o4)) + mset (slot_entries (view content o4) (tree_slots (rev path))) = mset (map entry_of_block (stash o3))"
      "\<forall>n j. n \<in> set path \<and> unat j < 4 \<and> real_entry (slot_entry (view content o4) (n, j)) \<longrightarrow>
        is_ancestor n (63 + pos_map o3 ! unat (fst (slot_entry (view content o4) (n, j))))"
      "\<forall>n j. unat n < ORAM_NUM_NODES \<and> unat j < 4 \<and> n \<notin> set path \<longrightarrow> slot_entry (view content o4) (n, j) = slot_entry (view content o3) (n, j)"
    using evict_path_good [OF g, of "rev path"] path nd by (simp_all add: o4_def Let_def)
  have s: "good content ready o5" "pos_map o5 = pos_map o3" "stash o5 = stash o4"
    using posmap_save_good [OF e(1)] e(2) pm(1) by (simp_all add: o5 o4_def [symmetric])
  have v5: "slot_entry (view content o5) (n, j) = slot_entry (view content o4) (n, j)" if "unat n < ORAM_NUM_NODES" "unat j < 4" for n j
    using posmap_save_good(4) [OF e(1)] e(2) pm(1) oram_lba_other [OF that] by (simp add: o5 o4_def [symmetric] slot_entry_def)
  have "slot_entries (view content o5) (tree_slots path) = slot_entries (view content o4) (tree_slots path)"
    using path(2) by (intro slot_entries_cong v5) (auto simp: in_tree_slots)
  moreover have "slot_entries (view content o5) (other_slots path) = slot_entries (view content o3) (other_slots path)"
    using e(5) v5 by (intro slot_entries_cong) (auto simp: other_slots_def in_all_slots)
  moreover have "mset (tree_slots (rev path)) = mset (tree_slots path)" by (induction path) (simp_all add: tree_slots_def)
  then have "mset (slot_entries (view content o4) (tree_slots (rev path))) = mset (slot_entries (view content o4) (tree_slots path))"
    by (simp add: mset_slot_entries)
  ultimately have m: "mset (oram_entries content o5) = mset ?E"
    using mset_entries_split [OF path, of content o5] e(3) s(3) by (simp add: ac_simps)
  note perm = map_of_perm [OF m dist]
  have "located content o5"
    unfolding located_def
  proof (intro allI impI)
    fix n j
    let ?e = "slot_entry (view content o5) (n, j)"
    assume a: "unat n < ORAM_NUM_NODES \<and> unat j < 4 \<and> real_entry ?e"
    then have "?e \<in> set (oram_entries content o5)" by (auto simp: oram_entries_def slot_entries_def in_all_slots)
    then have k: "unat (fst ?e) < 64" using keys perm(3) by blast
    then have l: "unat (pos_map o3 ! unat (fst ?e)) < 64" using pm by simp
    show "n \<in> set (get_path (pos_map o5 ! unat (fst ?e)))"
    proof (cases "n \<in> set path")
      case True
      then have "is_ancestor n (63 + pos_map o3 ! unat (fst ?e))" using e(4) [rule_format, of n j] a v5 [of n j] by simp
      then show ?thesis using get_path_facts(3) [OF l] s(2) by simp
    qed (use a loc e(5) v5 s(2) in auto)
  qed
  then show ?thesis using s pm perm keys by (simp add: oram_inv_def)
qed

lemma fetch_path:
  assumes inv: "oram_inv content ready o'" and a: "unat a < ORAM_NUM_LEAVES" and path_def: "path = get_path (pos_map o' ! unat a)"
  shows "distinct path" "\<forall>n \<in> set path. unat n < ORAM_NUM_NODES"
    "\<exists>o1. oram_fetch (tree_slots path) o' = Ret True o1 \<and> good content ready o1 \<and> view content o1 = view content o' \<and>
       pos_map o1 = pos_map o' \<and>
       mset (map entry_of_block (stash o1) @ slot_entries (view content o') (other_slots path)) = mset (oram_entries content o')"
    "a \<notin> set (map fst (slot_entries (view content o') (other_slots path)))"
proof -
  let ?v = "view content o'"
  have g: "good content ready o'" and pm: "length (pos_map o') = 64" "\<forall>l \<in> set (pos_map o'). unat l < 64"
    and dist: "distinct (map fst (oram_entries content o'))" and keys: "\<forall>e \<in> set (oram_entries content o'). unat (fst e) < 64"
    and loc: "located content o'"
    using inv by (simp_all add: oram_inv_def)
  have leaf: "unat (pos_map o' ! unat a) < 64" using pm a by simp
  show path: "distinct path" "\<forall>n \<in> set path. unat n < ORAM_NUM_NODES"
    using get_path_facts(1,2) [OF leaf] by (auto simp: path_def)
  note sp = mset_entries_split [OF path, of content o']
  have len: "length (stash o') + length (slot_entries ?v (tree_slots path)) \<le> 64"
    using few_keys [OF dist keys] arg_cong [OF sp, of size] by simp
  obtain o1 where "oram_fetch (tree_slots path) o' = Ret True o1" "good content ready o1" "view content o1 = ?v"
      "pos_map o1 = pos_map o'" "map entry_of_block (stash o1) = map entry_of_block (stash o') @ slot_entries ?v (tree_slots path)"
    using fetch_good [OF g len] by blast
  then show "\<exists>o1. oram_fetch (tree_slots path) o' = Ret True o1 \<and> good content ready o1 \<and> view content o1 = ?v \<and>
       pos_map o1 = pos_map o' \<and>
       mset (map entry_of_block (stash o1) @ slot_entries ?v (other_slots path)) = mset (oram_entries content o')"
    using sp by (intro exI [of _ o1]) simp
  show "a \<notin> set (map fst (slot_entries ?v (other_slots path)))"
    using loc by (auto simp: located_def slot_entries_def other_slots_def in_all_slots path_def)
qed

lemma write_block_enc: "g_encryption_enabled (disk (oram_write_block n j b o')) = g_encryption_enabled (disk o')"
  using same_storageD(1) [OF write_same [of "disk o'" "oram_lba n j" "take 512 (oram_bytes b)"]] by (simp add: oram_write_block_def)

lemma format_tree:
  assumes "good content ready o'" "\<forall>(n, j) \<in> set ps. unat n < ORAM_NUM_NODES \<and> unat j < 4"
  defines "o1 \<equiv> fold (\<lambda>(n, j). oram_write_block n j dummy_block) ps o'"
  shows "good content ready o1 \<and> pos_map o1 = pos_map o' \<and> stash o1 = stash o' \<and>
    g_encryption_enabled (disk o1) = g_encryption_enabled (disk o') \<and>
    (\<forall>p \<in> set ps. slot_entry (view content o1) p = (DUMMY_LBA, replicate 508 0))"
  using assms(2) unfolding o1_def
proof (induction ps rule: rev_induct)
  case (snoc p ps)
  obtain n j where p: "p = (n, j)" by (cases p)
  let ?o = "fold (\<lambda>(n, j). oram_write_block n j dummy_block) ps o'"
  have IH: "good content ready ?o" "pos_map ?o = pos_map o'" "stash ?o = stash o'"
      "g_encryption_enabled (disk ?o) = g_encryption_enabled (disk o')"
      "\<forall>p \<in> set ps. slot_entry (view content ?o) p = (DUMMY_LBA, replicate 508 0)"
    using snoc by auto
  note w = write_block_good [OF IH(1) entry_dummy(2), of n j]
  have "entry_of_sector (take 512 (oram_bytes dummy_block)) = (DUMMY_LBA, replicate 508 0)" by (simp add: entry_written)
  then have q: "slot_entry (view content (oram_write_block n j dummy_block ?o)) q = (DUMMY_LBA, replicate 508 0)"
    if "q \<in> set (ps @ [p])" for q
    using that IH(5) p by (cases "oram_lba (fst q) (snd q) = oram_lba n j") (auto simp: slot_entry_def w(2))
  show ?case using w(1,3,4) IH(2-4) q p write_block_enc [of n j dummy_block ?o] by simp
qed (use assms(1) in simp)

lemma rand_leaves_good:
  "good content ready o' \<Longrightarrow> rand_leaves k o' = (ls, o1) \<Longrightarrow>
     good content ready o1 \<and> view content o1 = view content o' \<and> stash o1 = stash o' \<and>
     g_encryption_enabled (disk o1) = g_encryption_enabled (disk o') \<and> length ls = k \<and> (\<forall>l \<in> set ls. unat l < 64)"
proof (induction k arbitrary: o' ls)
  case (Suc k)
  obtain l o2 where l: "oram_rand_leaf o' = (l, o2)" by (cases "oram_rand_leaf o'")
  obtain ks where ks: "rand_leaves k o2 = (ks, o1)" "ls = l # ks" using Suc.prems(2) l by (auto split: prod.splits)
  show ?case using Suc.IH [OF _ ks(1)] rand_leaf_good [OF Suc.prems(1) l] ks(2) l
    by (auto simp: oram_rand_leaf_def split: prod.splits)
qed simp

lemma format_establishes:
  assumes "disk_ok content ready (disk o')" "\<not> g_encryption_enabled (disk o')" "\<forall>k. length (frame o' k) = 516" "stash o' = []"
  shows "oram_inv content ready (oram_format o') \<and> (\<forall>a. oram_value content (oram_format o') a = replicate 508 0)"
proof -
  define o1 where "o1 = fold (\<lambda>(n, j). oram_write_block n j dummy_block) all_slots o'"
  have g: "good content ready o'" using assms by (simp add: good_def)
  have "\<forall>(n, j) \<in> set all_slots. unat n < ORAM_NUM_NODES \<and> unat j < 4" using in_all_slots by blast
  note t = format_tree [OF g this, folded o1_def]
  obtain ls o2 where ls: "rand_leaves ORAM_NUM_LEAVES o1 = (ls, o2)" by (cases "rand_leaves ORAM_NUM_LEAVES o1")
  note r = rand_leaves_good [OF _ ls, of content ready]
  define o3 where "o3 = posmap_save (o2\<lparr>pos_map := ls\<rparr>)"
  have g2: "good content ready (o2\<lparr>pos_map := ls\<rparr>)" "length (pos_map (o2\<lparr>pos_map := ls\<rparr>)) = 64"
    using r t by (simp_all add: good_def)
  note p = posmap_save_good [OF g2, folded o3_def]
  define meta where "meta = le_bytes 4 ORAM_MAGIC @ replicate 508 (0 :: u8)"
  have ok3: "disk_ok content ready (disk o3)" "length meta = 512" using p(1) by (simp_all add: good_def meta_def)
  from usb.wr_view [OF ok3, of ORAM_META_LBA] obtain d where
    d: "usb_msc_write_sector ORAM_META_LBA meta (disk o3) = (0, d)" "disk_ok content ready d"
      "sector_view content d = (view content o3)(ORAM_META_LBA := meta)" "same_storage (disk o3) d" by blast
  have enc: "disk o'\<lparr>g_encryption_enabled := False\<rparr> = disk o'" using assms(2) by simp
  have o1: "o1 = fold (\<lambda>(n, j). oram_write_block n j dummy_block) (tree_slots (map word_of_nat [0..<ORAM_NUM_NODES]))
      (o'\<lparr>disk := (disk o')\<lparr>g_encryption_enabled := False\<rparr>\<rparr>)"
    unfolding o1_def all_slots_def enc by simp
  have f: "oram_format o' = o3\<lparr>disk := d\<lparr>g_encryption_enabled := False\<rparr>\<rparr>"
    using assms(2) by (simp add: oram_format_def o1 [symmetric] ls Let_def o3_def [symmetric] meta_def [symmetric] d(1))
  have "g_encryption_enabled (disk o3) = g_encryption_enabled (disk o2)"
    using same_storageD(1) [OF raw_write_same] by (simp add: o3_def posmap_save_def)
  then have "\<not> g_encryption_enabled d" using same_storageD(1) [OF d(4)] t r assms(2) by simp
  then have df: "disk (oram_format o') = d" unfolding f by simp
  have dm: "slot_entry (view content (oram_format o')) (n, j) = (DUMMY_LBA, replicate 508 0)"
    if "unat n < ORAM_NUM_NODES" "unat j < 4" for n j
  proof -
    have "slot_entry (view content o1) (n, j) = (DUMMY_LBA, replicate 508 0)" using t that in_all_slots by blast
    then show ?thesis
      using oram_lba_other [OF that] p(4) r t unfolding df d(3) by (simp add: slot_entry_def)
  qed
  then have "slot_entries (view content (oram_format o')) all_slots = []"
    by (auto simp: slot_entries_def filter_empty_conv in_all_slots real_entry_def)
  then have e: "oram_entries content (oram_format o') = []" using p(3) r t assms(4) by (simp add: oram_entries_def f)
  have "good content ready (oram_format o')" using p(1) d(2) df unfolding f by (simp add: good_def)
  moreover have "pos_map (oram_format o') = ls" unfolding f using p(2) by simp
  ultimately show ?thesis using e dm r t by (auto simp: oram_inv_def located_def real_entry_def oram_value_def)
qed

section \<open>The array of blocks\<close>

text \<open>What a client of the block store relies on: an array of 64 blocks of which 508 bytes are kept.\<close>

locale block_array =
  fixes acc :: "u32 \<Rightarrow> bool \<Rightarrow> u8 list \<Rightarrow> 's \<Rightarrow> (int \<times> u8 list, 's) run"
    and val :: "'s \<Rightarrow> u32 \<Rightarrow> u8 list"
    and ok :: "'s \<Rightarrow> bool"
  assumes acc: "ok s \<Longrightarrow> unat a < 64 \<Longrightarrow> length data = 512 \<Longrightarrow>
      \<exists>out s'. acc a w data s = Ret (0, out) s' \<and> ok s' \<and> take 508 out = (if w then take 508 data else val s a) \<and>
        (\<forall>b. val s' b = (if w \<and> b = a then take 508 data else val s b))"
begin

lemma acc_write:
  assumes "ok s" "unat a < 64" "length data = 512"
  shows "\<exists>out s'. acc a True data s = Ret (0, out) s' \<and> ok s' \<and> val s' = (val s)(a := take 508 data)"
  using acc [OF assms, of True] by (auto simp: fun_eq_iff)

lemma acc_read:
  assumes "ok s" "unat a < 64" "length buf = 512"
  shows "\<exists>out s'. acc a False buf s = Ret (0, out) s' \<and> ok s' \<and> val s' = val s \<and> take 508 out = val s a"
  using acc [OF assms, of False] by (auto simp: fun_eq_iff)

end

lemma oram_access_array:
  assumes inv: "oram_inv content ready o'" and a: "unat a < ORAM_NUM_LEAVES" and data: "length data = 512"
  shows "\<exists>out o1. oram_access a write data o' = Ret (0, out) o1 \<and> oram_inv content ready o1 \<and>
    take 508 out = (if write then take 508 data else oram_value content o' a) \<and>
    (\<forall>b. oram_value content o1 b = (if write \<and> b = a then take 508 data else oram_value content o' b))"
proof -
  define path where "path = get_path (pos_map o' ! unat a)"
  let ?v = "view content o'"
  let ?O = "slot_entries ?v (other_slots path)"
  have pm: "length (pos_map o') = 64" "\<forall>l \<in> set (pos_map o'). unat l < 64"
    and dist: "distinct (map fst (oram_entries content o'))" and keys: "\<forall>e \<in> set (oram_entries content o'). unat (fst e) < 64"
    and loc: "located content o'"
    using inv by (simp_all add: oram_inv_def)
  note path = fetch_path(1,2) [OF inv a path_def] and anot = fetch_path(4) [OF inv a path_def]
  obtain o1 where f: "oram_fetch (tree_slots path) o' = Ret True o1" "good content ready o1" "view content o1 = ?v"
      "pos_map o1 = pos_map o'" and m: "mset (map entry_of_block (stash o1) @ ?O) = mset (oram_entries content o')"
    using fetch_path(3) [OF inv a path_def] by blast
  let ?S = "map entry_of_block (stash o1)"
  note perm = map_of_perm [OF m dist]
  have S: "distinct (map blk_lba (stash o1))" "\<forall>b \<in> set (stash o1). unat (blk_lba b) < 64" "\<forall>b \<in> set (stash o1). length (blk_data b) = 512"
    and O: "distinct (map fst ?O)" "set (map blk_lba (stash o1)) \<inter> set (map fst ?O) = {}" "\<forall>e \<in> set ?O. unat (fst e) < 64"
    using perm(2) keys f(2) unfolding perm(3) [symmetric] by (auto simp: good_def ball_Un)
  define st where "st = (if write then the (stash_write a data (stash o1)) else stash o1)"
  obtain new_leaf o2 where r: "oram_rand_leaf (o1\<lparr>stash := st\<rparr>) = (new_leaf, o2)" by (cases "oram_rand_leaf (o1\<lparr>stash := st\<rparr>)")
  have st: "(if write then stash_write a data (stash o1) else Some (stash o1)) = Some st"
      "map_of (map entry_of_block st) = (if write then (map_of ?S)(a \<mapsto> take 508 data) else map_of ?S)"
      "distinct (map blk_lba st)" "set (map blk_lba st) \<subseteq> insert a (set (map blk_lba (stash o1)))" "\<forall>b \<in> set st. length (blk_data b) = 512"
    using stash_write_value [OF S(1,2) a data] S unfolding st_def by (auto simp del: set_map)
  have "good content ready (o1\<lparr>stash := st\<rparr>)" using f(2) st(5) by (simp add: good_def)
  note o2 = rand_leaf_good [OF this r]
  let ?o3 = "o2\<lparr>pos_map := (pos_map o2)[unat a := new_leaf]\<rparr>"
  let ?o5 = "posmap_save (fold evict_node (rev path) ?o3)"
  have v3: "view content ?o3 = ?v" "stash ?o3 = st" using o2 f(3) by simp_all
  have pm3: "pos_map ?o3 = (pos_map o')[unat a := new_leaf]" using o2(3) f(4) by simp
  have "oram_inv content ready ?o5 \<and> map_of (oram_entries content ?o5) = map_of (map entry_of_block (stash ?o3) @ slot_entries (view content ?o3) (other_slots path))"
  proof (rule evict_establishes [OF _ _ _ path _ _ _ refl], goal_cases)
    case 1 show ?case using o2(1) by (simp add: good_def)
  next
    case 2 show ?case using pm3 pm(1) by simp
  next
    case 3 show ?case using pm(2) o2(5) unfolding pm3 by (auto dest: set_update_subset_insert [THEN subsetD])
  next
    case 4 show ?case unfolding v3 using st(3,4) O anot by auto
  next
    case 5 show ?case unfolding v3 using st(4) S(2) O(3) a by auto
  next
    case 6
    have "slot_entry ?v (n, j) \<in> set ?O" if "unat n < ORAM_NUM_NODES" "unat j < 4" "n \<notin> set path" "real_entry (slot_entry ?v (n, j))" for n j
      using that by (auto simp: slot_entries_def other_slots_def in_all_slots)
    then have "unat (fst (slot_entry ?v (n, j))) \<noteq> unat a"
      if "unat n < ORAM_NUM_NODES" "unat j < 4" "n \<notin> set path" "real_entry (slot_entry ?v (n, j))" for n j
      using that anot by (metis image_eqI list.set_map unsigned_word_eqI)
    then show ?case using loc unfolding v3 pm3 located_def by (metis nth_list_update_neq)
  qed
  then have fin: "oram_inv content ready ?o5" "map_of (oram_entries content ?o5) = map_of (map entry_of_block st @ ?O)"
    unfolding v3 by simp_all
  let ?out = "if write then data else stash_read a (stash o1)"
  have acc: "oram_access a write data o' = Ret (0, ?out) ?o5"
    using a by (simp add: oram_access_def path_def [symmetric] f(1) st(1) r Let_def)
  have aO: "map_of ?O a = None" using anot by (simp add: map_of_eq_None_iff)
  have val: "map_of (oram_entries content ?o5) b = (if write \<and> b = a then Some (take 508 data) else map_of (oram_entries content o') b)" for b
    unfolding fin(2) perm(1) [symmetric] map_of_append using st(2) aO by (auto simp: map_add_def split: option.splits)
  have "take 508 (stash_read a (stash o1)) = oram_value content o' a"
    unfolding stash_read_value [OF S(1)] oram_value_def perm(1) [symmetric] map_of_append
    using aO by (simp add: map_add_def split: option.splits)
  then show ?thesis using acc fin(1) val by (auto simp: oram_value_def)
qed

interpretation oram_array: block_array oram_access "oram_value content" "oram_inv content ready" for content ready
  by unfold_locales (rule oram_access_array)

section \<open>Properties\<close>

text \<open>C4: On a working disk, encryption being off or the integrity list not in force, the oblivious RAM refines an array of 64 blocks, of
  which the first 508 bytes are kept: from
  every state that satisfies the invariant an access inside the range succeeds (the stash never overflows), returns
  what the array holds, changes the array only at the address that is written, and leaves a state that satisfies
  the invariant again.\<close>

theorem oram_access_refines:
  assumes inv: "oram_inv content ready o'" and a: "unat a < ORAM_NUM_LEAVES" and data: "length data = 512"
  shows "\<exists>out o1. oram_access a write data o' = Ret (0, out) o1 \<and> oram_inv content ready o1 \<and>
    take 508 out = (if write then take 508 data else oram_value content o' a) \<and>
    (\<forall>b. oram_value content o1 b = (if write \<and> b = a then take 508 data else oram_value content o' b))"
  using assms by (rule oram_access_array)

text \<open>Formatting the region while encryption is off establishes the invariant with every block zero.\<close>

theorem oram_format_establishes:
  assumes "disk_ok content ready (disk o')" "\<not> g_encryption_enabled (disk o')" "\<forall>k. length (frame o' k) = 516" "stash o' = []"
  shows "oram_inv content ready (oram_format o') \<and> (\<forall>a. oram_value content (oram_format o') a = replicate 508 0)"
  using assms by (rule format_establishes)

section \<open>Witnesses\<close>

definition woram :: "ramdisk oram" where
  "woram = \<lparr>pos_map = replicate 64 0, stash = [], g_oram_sector_reads = 0, g_oram_sector_writes = 0,
     disk = wstorage\<lparr>g_encryption_enabled := False\<rparr>, frame = (\<lambda>_. replicate 516 0), frames = 0\<rparr>"

lemma woram_ok: "disk_ok fst ram_ready (disk woram)" "\<not> g_encryption_enabled (disk woram)" "\<forall>k. length (frame woram k) = 516"
    "stash woram = []"
  using wstorage_ok by (simp_all add: woram_def disk_ok_def)

theorem oram_access_refines_witness:
  "\<exists>out o1. oram_access 5 True (replicate 512 7) (oram_format woram) = Ret (0, out) o1 \<and> oram_value fst o1 5 = replicate 508 7 \<and>
     oram_value fst o1 6 = replicate 508 0"
proof -
  have inv: "oram_inv fst ram_ready (oram_format woram)" and z: "oram_value fst (oram_format woram) a = replicate 508 0" for a
    using format_establishes [OF woram_ok] by simp_all
  show ?thesis
    using oram_access_refines [OF inv, of 5 "replicate 512 7" True] z by fastforce
qed

theorem oram_format_establishes_witness: "oram_inv fst ram_ready (oram_format woram)"
  using oram_format_establishes [OF woram_ok] by simp

end
