(* ===== verification/Console.thy ===== *)
theory Console
  imports Ring
begin

unbundle bit_operations_syntax

text \<open>
  The screen and the keyboard: pixel drawing (\<^verbatim>\<open>src/kernel/fb.c\<close>, \<^verbatim>\<open>font.c\<close>), the text screen of the shell
  (\<^verbatim>\<open>fb_shell.c\<close>) and the keyboard handler with its ring buffer (\<^verbatim>\<open>keyboard.c\<close>).  The frame buffer is a map from
  32-bit pixel indices, which is how the code addresses it; the signed \<^verbatim>\<open>int\<close> coordinates are integers and are
  converted where the code converts them.
\<close>

section \<open>Frame buffer\<close>

record fb =
  fb_width :: u32
  fb_height :: u32
  fb_pitch_px :: u32
  fb_mem :: "u32 \<Rightarrow> u32"

abbreviation FONT_WIDTH :: int where "FONT_WIDTH \<equiv> 8"
abbreviation FONT_HEIGHT :: int where "FONT_HEIGHT \<equiv> 8"

definition fb_init :: "(u32 \<Rightarrow> u32) \<Rightarrow> u32 \<Rightarrow> u32 \<Rightarrow> u32 \<Rightarrow> fb" where
  "fb_init addr width height pitch = \<lparr>fb_width = width, fb_height = height, fb_pitch_px = pitch div 4, fb_mem = addr\<rparr>"

definition fb_put_pixel :: "u32 \<Rightarrow> u32 \<Rightarrow> u32 \<Rightarrow> fb \<Rightarrow> fb" where
  "fb_put_pixel x y colour f = f\<lparr>fb_mem := (fb_mem f)(y * fb_pitch_px f + x := colour)\<rparr>"

definition fb_clear :: "u32 \<Rightarrow> fb \<Rightarrow> fb" where
  "fb_clear colour f =
     fold (\<lambda>y. fold (\<lambda>x. fb_put_pixel (word_of_nat x) (word_of_nat y) colour) [0..<unat (fb_width f)])
       [0..<unat (fb_height f)] f"

definition font_data :: "u8 list list" where
  "font_data = [
    [0x00, 0x00, 0x00, 0x00, 0x00, 0x00, 0x00, 0x00],
    [0x18, 0x18, 0x18, 0x18, 0x18, 0x00, 0x18, 0x00],
    [0x66, 0x66, 0x66, 0x00, 0x00, 0x00, 0x00, 0x00],
    [0x36, 0x36, 0x7F, 0x36, 0x7F, 0x36, 0x36, 0x00],
    [0x0C, 0x3F, 0x68, 0x3E, 0x0B, 0x7E, 0x18, 0x00],
    [0x60, 0x66, 0x0C, 0x18, 0x30, 0x66, 0x06, 0x00],
    [0x38, 0x6C, 0x6C, 0x38, 0x6D, 0x66, 0x3B, 0x00],
    [0x0C, 0x0C, 0x18, 0x00, 0x00, 0x00, 0x00, 0x00],
    [0x0C, 0x18, 0x30, 0x30, 0x30, 0x18, 0x0C, 0x00],
    [0x30, 0x18, 0x0C, 0x0C, 0x0C, 0x18, 0x30, 0x00],
    [0x00, 0x36, 0x1C, 0x7F, 0x1C, 0x36, 0x00, 0x00],
    [0x00, 0x18, 0x18, 0x7E, 0x18, 0x18, 0x00, 0x00],
    [0x00, 0x00, 0x00, 0x00, 0x00, 0x18, 0x18, 0x30],
    [0x00, 0x00, 0x00, 0x7E, 0x00, 0x00, 0x00, 0x00],
    [0x00, 0x00, 0x00, 0x00, 0x00, 0x18, 0x18, 0x00],
    [0x06, 0x06, 0x0C, 0x18, 0x30, 0x60, 0x60, 0x00],
    [0x3C, 0x66, 0x6E, 0x76, 0x66, 0x66, 0x3C, 0x00],
    [0x18, 0x38, 0x18, 0x18, 0x18, 0x18, 0x7E, 0x00],
    [0x3C, 0x66, 0x06, 0x0C, 0x18, 0x30, 0x7E, 0x00],
    [0x3C, 0x66, 0x06, 0x1C, 0x06, 0x66, 0x3C, 0x00],
    [0x0C, 0x1C, 0x3C, 0x6C, 0x7E, 0x0C, 0x0C, 0x00],
    [0x7E, 0x60, 0x7C, 0x06, 0x06, 0x66, 0x3C, 0x00],
    [0x1C, 0x30, 0x60, 0x7C, 0x66, 0x66, 0x3C, 0x00],
    [0x7E, 0x66, 0x0C, 0x18, 0x18, 0x18, 0x18, 0x00],
    [0x3C, 0x66, 0x66, 0x3C, 0x66, 0x66, 0x3C, 0x00],
    [0x3C, 0x66, 0x66, 0x3E, 0x06, 0x0C, 0x38, 0x00],
    [0x00, 0x00, 0x18, 0x00, 0x00, 0x18, 0x00, 0x00],
    [0x00, 0x00, 0x18, 0x00, 0x00, 0x18, 0x18, 0x30],
    [0x0C, 0x18, 0x30, 0x60, 0x30, 0x18, 0x0C, 0x00],
    [0x00, 0x00, 0x7E, 0x00, 0x7E, 0x00, 0x00, 0x00],
    [0x60, 0x30, 0x18, 0x0C, 0x18, 0x30, 0x60, 0x00],
    [0x3C, 0x66, 0x06, 0x0C, 0x18, 0x00, 0x18, 0x00],
    [0x3C, 0x66, 0x6E, 0x6E, 0x60, 0x62, 0x3C, 0x00],
    [0x18, 0x3C, 0x66, 0x7E, 0x66, 0x66, 0x66, 0x00],
    [0x7C, 0x66, 0x66, 0x7C, 0x66, 0x66, 0x7C, 0x00],
    [0x3C, 0x66, 0x60, 0x60, 0x60, 0x66, 0x3C, 0x00],
    [0x78, 0x6C, 0x66, 0x66, 0x66, 0x6C, 0x78, 0x00],
    [0x7E, 0x60, 0x60, 0x78, 0x60, 0x60, 0x7E, 0x00],
    [0x7E, 0x60, 0x60, 0x78, 0x60, 0x60, 0x60, 0x00],
    [0x3C, 0x66, 0x60, 0x6E, 0x66, 0x66, 0x3C, 0x00],
    [0x66, 0x66, 0x66, 0x7E, 0x66, 0x66, 0x66, 0x00],
    [0x3C, 0x18, 0x18, 0x18, 0x18, 0x18, 0x3C, 0x00],
    [0x1E, 0x0C, 0x0C, 0x0C, 0x0C, 0x6C, 0x38, 0x00],
    [0x66, 0x6C, 0x78, 0x70, 0x78, 0x6C, 0x66, 0x00],
    [0x60, 0x60, 0x60, 0x60, 0x60, 0x60, 0x7E, 0x00],
    [0x63, 0x77, 0x7F, 0x6B, 0x63, 0x63, 0x63, 0x00],
    [0x66, 0x76, 0x7E, 0x7E, 0x6E, 0x66, 0x66, 0x00],
    [0x3C, 0x66, 0x66, 0x66, 0x66, 0x66, 0x3C, 0x00],
    [0x7C, 0x66, 0x66, 0x7C, 0x60, 0x60, 0x60, 0x00],
    [0x3C, 0x66, 0x66, 0x66, 0x66, 0x3C, 0x0E, 0x00],
    [0x7C, 0x66, 0x66, 0x7C, 0x78, 0x6C, 0x66, 0x00],
    [0x3C, 0x66, 0x60, 0x3C, 0x06, 0x66, 0x3C, 0x00],
    [0x7E, 0x18, 0x18, 0x18, 0x18, 0x18, 0x18, 0x00],
    [0x66, 0x66, 0x66, 0x66, 0x66, 0x66, 0x3C, 0x00],
    [0x66, 0x66, 0x66, 0x66, 0x66, 0x3C, 0x18, 0x00],
    [0x63, 0x63, 0x63, 0x6B, 0x7F, 0x77, 0x63, 0x00],
    [0x66, 0x66, 0x3C, 0x18, 0x3C, 0x66, 0x66, 0x00],
    [0x66, 0x66, 0x66, 0x3C, 0x18, 0x18, 0x18, 0x00],
    [0x7E, 0x06, 0x0C, 0x18, 0x30, 0x60, 0x7E, 0x00],
    [0x3C, 0x30, 0x30, 0x30, 0x30, 0x30, 0x3C, 0x00],
    [0x60, 0x60, 0x30, 0x18, 0x0C, 0x06, 0x06, 0x00],
    [0x3C, 0x0C, 0x0C, 0x0C, 0x0C, 0x0C, 0x3C, 0x00],
    [0x08, 0x1C, 0x36, 0x63, 0x00, 0x00, 0x00, 0x00],
    [0x00, 0x00, 0x00, 0x00, 0x00, 0x00, 0x00, 0xFF],
    [0x18, 0x18, 0x0C, 0x00, 0x00, 0x00, 0x00, 0x00],
    [0x00, 0x00, 0x3C, 0x06, 0x3E, 0x66, 0x3E, 0x00],
    [0x60, 0x60, 0x7C, 0x66, 0x66, 0x66, 0x7C, 0x00],
    [0x00, 0x00, 0x3C, 0x66, 0x60, 0x66, 0x3C, 0x00],
    [0x06, 0x06, 0x3E, 0x66, 0x66, 0x66, 0x3E, 0x00],
    [0x00, 0x00, 0x3C, 0x66, 0x7E, 0x60, 0x3C, 0x00],
    [0x1C, 0x30, 0x30, 0x7C, 0x30, 0x30, 0x30, 0x00],
    [0x00, 0x00, 0x3E, 0x66, 0x66, 0x3E, 0x06, 0x3C],
    [0x60, 0x60, 0x7C, 0x66, 0x66, 0x66, 0x66, 0x00],
    [0x18, 0x00, 0x38, 0x18, 0x18, 0x18, 0x3C, 0x00],
    [0x06, 0x00, 0x06, 0x06, 0x06, 0x06, 0x66, 0x3C],
    [0x60, 0x60, 0x66, 0x6C, 0x78, 0x6C, 0x66, 0x00],
    [0x38, 0x18, 0x18, 0x18, 0x18, 0x18, 0x3C, 0x00],
    [0x00, 0x00, 0x66, 0x7F, 0x7F, 0x6B, 0x63, 0x00],
    [0x00, 0x00, 0x7C, 0x66, 0x66, 0x66, 0x66, 0x00],
    [0x00, 0x00, 0x3C, 0x66, 0x66, 0x66, 0x3C, 0x00],
    [0x00, 0x00, 0x7C, 0x66, 0x66, 0x7C, 0x60, 0x60],
    [0x00, 0x00, 0x3E, 0x66, 0x66, 0x3E, 0x06, 0x06],
    [0x00, 0x00, 0x7C, 0x66, 0x60, 0x60, 0x60, 0x00],
    [0x00, 0x00, 0x3E, 0x60, 0x3C, 0x06, 0x7C, 0x00],
    [0x30, 0x30, 0x7C, 0x30, 0x30, 0x30, 0x1C, 0x00],
    [0x00, 0x00, 0x66, 0x66, 0x66, 0x66, 0x3E, 0x00],
    [0x00, 0x00, 0x66, 0x66, 0x66, 0x3C, 0x18, 0x00],
    [0x00, 0x00, 0x63, 0x6B, 0x7F, 0x7F, 0x36, 0x00],
    [0x00, 0x00, 0x66, 0x3C, 0x18, 0x3C, 0x66, 0x00],
    [0x00, 0x00, 0x66, 0x66, 0x66, 0x3E, 0x06, 0x3C],
    [0x00, 0x00, 0x7E, 0x0C, 0x18, 0x30, 0x7E, 0x00],
    [0x0E, 0x18, 0x18, 0x70, 0x18, 0x18, 0x0E, 0x00],
    [0x18, 0x18, 0x18, 0x00, 0x18, 0x18, 0x18, 0x00],
    [0x70, 0x18, 0x18, 0x0E, 0x18, 0x18, 0x70, 0x00],
    [0x00, 0x00, 0x76, 0xDC, 0x00, 0x00, 0x00, 0x00]]"

definition glyph_unknown :: "u8 list" where
  "glyph_unknown = [0x00, 0x7E, 0x5A, 0x7E, 0x5A, 0x7E, 0x00, 0x00]"

definition font_glyph :: "u8 \<Rightarrow> u8 list" where
  "font_glyph c = (if c \<ge> 0x20 \<and> c \<le> 0x7E then font_data ! (unat c - 0x20) else glyph_unknown)"

definition draw_char :: "int \<Rightarrow> int \<Rightarrow> u8 \<Rightarrow> u32 \<Rightarrow> fb \<Rightarrow> fb" where
  "draw_char x y c colour f =
     fold (\<lambda>row. fold (\<lambda>col g.
         if (font_glyph c ! row) AND drop_bit col 0x80 \<noteq> 0
         then fb_put_pixel (word_of_int (x + int col)) (word_of_int (y + int row)) colour g else g) [0..<8])
       [0..<8] f"

fun draw_string :: "int \<Rightarrow> int \<Rightarrow> u8 list \<Rightarrow> u32 \<Rightarrow> fb \<Rightarrow> fb" where
  "draw_string cx y [] colour f = f"
| "draw_string cx y (c # s) colour f = draw_string (cx + FONT_WIDTH) y s colour (draw_char cx y c colour f)"

definition fb_draw_string :: "int \<Rightarrow> int \<Rightarrow> u8 list \<Rightarrow> u32 \<Rightarrow> fb \<Rightarrow> fb" where
  "fb_draw_string x y s colour f = draw_string x y s colour f"

definition fb_draw_char :: "int \<Rightarrow> int \<Rightarrow> u8 \<Rightarrow> u32 \<Rightarrow> fb \<Rightarrow> fb" where
  "fb_draw_char x y c colour f =
     (if (word_of_int x :: u32) < fb_width f \<and> (word_of_int y :: u32) < fb_height f then draw_char x y c colour f else f)"

definition fb_draw_rect :: "int \<Rightarrow> int \<Rightarrow> int \<Rightarrow> int \<Rightarrow> u32 \<Rightarrow> fb \<Rightarrow> fb" where
  "fb_draw_rect x y w h colour f =
     fold (\<lambda>dy. fold (\<lambda>dx g.
         let px = word_of_int (x + int dx); py = word_of_int (y + int dy)
         in if px < fb_width g \<and> py < fb_height g then fb_put_pixel px py colour g else g) [0..<nat w])
       [0..<nat h] f"

section \<open>Text screen\<close>

abbreviation FB_SHELL_COLS :: nat where "FB_SHELL_COLS \<equiv> 80"
abbreviation FB_SHELL_ROWS :: nat where "FB_SHELL_ROWS \<equiv> 24"
abbreviation FB_SHELL_MARGIN_X :: int where "FB_SHELL_MARGIN_X \<equiv> 8"
abbreviation FB_SHELL_MARGIN_Y :: int where "FB_SHELL_MARGIN_Y \<equiv> 8"
abbreviation FB_SHELL_LINE_H :: int where "FB_SHELL_LINE_H \<equiv> 18"
abbreviation FB_SHELL_BG :: u32 where "FB_SHELL_BG \<equiv> 0x000F172A"
abbreviation FB_SHELL_FG :: u32 where "FB_SHELL_FG \<equiv> 0x0034D399"
abbreviation FB_SHELL_PROMPT :: u32 where "FB_SHELL_PROMPT \<equiv> 0x0038BDF8"

record fb_shell =
  g_col :: nat
  g_row :: nat
  g_cursor_visible :: bool
  g_cursor_ticks :: u32
  g_lines :: "u8 list list"
  screen :: fb

definition row_to_y :: "nat \<Rightarrow> int" where
  "row_to_y row = FB_SHELL_MARGIN_Y + int row * FB_SHELL_LINE_H"

definition col_to_x :: "nat \<Rightarrow> int" where
  "col_to_x col = FB_SHELL_MARGIN_X + int col * FONT_WIDTH"

definition redraw_row :: "nat \<Rightarrow> fb_shell \<Rightarrow> fb_shell" where
  "redraw_row row s =
     (let f1 = fb_draw_rect FB_SHELL_MARGIN_X (row_to_y row) (int FB_SHELL_COLS * FONT_WIDTH) FB_SHELL_LINE_H FB_SHELL_BG (screen s);
          text = takeWhile (\<lambda>ch. ch \<noteq> 0) (take FB_SHELL_COLS (g_lines s ! row));
          f2 = fold (\<lambda>(c, ch). fb_draw_char (col_to_x c) (row_to_y row) ch FB_SHELL_FG) (enumerate 0 text) f1
      in s\<lparr>screen := f2\<rparr>)"

definition blank_line :: "u8 list" where
  "blank_line = replicate (FB_SHELL_COLS + 1) 0"

definition scroll_up :: "fb_shell \<Rightarrow> fb_shell" where
  "scroll_up s =
     (let s1 = s\<lparr>g_row := FB_SHELL_ROWS - 1, g_lines := drop 1 (take FB_SHELL_ROWS (g_lines s)) @ [blank_line]\<rparr>;
          f = fb_draw_rect FB_SHELL_MARGIN_X FB_SHELL_MARGIN_Y (int FB_SHELL_COLS * FONT_WIDTH)
                (int FB_SHELL_ROWS * FB_SHELL_LINE_H) FB_SHELL_BG (screen s1)
      in fold redraw_row [0..<FB_SHELL_ROWS] (s1\<lparr>screen := f\<rparr>))"

definition fb_shell_init :: "fb_shell \<Rightarrow> fb_shell" where
  "fb_shell_init s =
     (let f1 = fb_clear FB_SHELL_BG (screen s);
          f2 = fb_draw_rect 0 0 (sint (fb_width f1)) (FB_SHELL_LINE_H - 2) 0x001E293B f1;
          f3 = fb_draw_string FB_SHELL_MARGIN_X 2
                 (map of_char ''StyxOS Security Shell v2.0  |  where data goes to die'') FB_SHELL_PROMPT f2
      in \<lparr>g_col = 0, g_row = 0, g_cursor_visible = True, g_cursor_ticks = 0,
          g_lines = replicate FB_SHELL_ROWS blank_line, screen = f3\<rparr>)"

definition fb_shell_newline :: "fb_shell \<Rightarrow> fb_shell" where
  "fb_shell_newline s =
     (let s1 = s\<lparr>g_col := 0, g_row := g_row s + 1\<rparr> in
      if g_row s1 \<ge> FB_SHELL_ROWS then scroll_up s1
      else s1\<lparr>g_lines := (g_lines s1)[g_row s1 := blank_line]\<rparr>)"

definition set_cell :: "nat \<Rightarrow> nat \<Rightarrow> u8 \<Rightarrow> fb_shell \<Rightarrow> fb_shell" where
  "set_cell row col c s = s\<lparr>g_lines := (g_lines s)[row := (g_lines s ! row)[col := c]]\<rparr>"

definition fb_shell_putchar :: "u8 \<Rightarrow> fb_shell \<Rightarrow> fb_shell" where
  "fb_shell_putchar c s =
     (if c = 10 \<or> c = 13 then fb_shell_newline s
      else if c = 8 then
        if g_col s > 0 then
          let s1 = set_cell (g_row s) (g_col s - 1) 0 (s\<lparr>g_col := g_col s - 1\<rparr>)
          in s1\<lparr>screen := fb_draw_rect (col_to_x (g_col s1)) (row_to_y (g_row s1)) FONT_WIDTH FB_SHELL_LINE_H FB_SHELL_BG (screen s1)\<rparr>
        else s
      else if sint c < 32 then s
      else
        let s1 = (if g_col s \<ge> FB_SHELL_COLS then fb_shell_newline s else s);
            s2 = set_cell (g_row s1) (g_col s1) c s1
        in s2\<lparr>g_col := g_col s2 + 1,
              screen := fb_draw_char (col_to_x (g_col s2)) (row_to_y (g_row s2)) c FB_SHELL_FG (screen s2)\<rparr>)"

definition fb_shell_puts :: "u8 list option \<Rightarrow> fb_shell \<Rightarrow> fb_shell" where
  "fb_shell_puts str s = (case str of None \<Rightarrow> s | Some cs \<Rightarrow> fold fb_shell_putchar cs s)"

definition fb_shell_clear :: "fb_shell \<Rightarrow> fb_shell" where
  "fb_shell_clear s =
     s\<lparr>g_col := 0, g_row := 0, g_lines := replicate FB_SHELL_ROWS blank_line,
       screen := fb_draw_rect FB_SHELL_MARGIN_X FB_SHELL_MARGIN_Y (int FB_SHELL_COLS * FONT_WIDTH)
                   (int FB_SHELL_ROWS * FB_SHELL_LINE_H) FB_SHELL_BG (screen s)\<rparr>"

definition fb_shell_cursor_tick :: "fb_shell \<Rightarrow> fb_shell" where
  "fb_shell_cursor_tick s =
     (let s1 = s\<lparr>g_cursor_ticks := g_cursor_ticks s + 1\<rparr> in
      if g_cursor_ticks s1 mod 50 = 0 then
        let v = \<not> g_cursor_visible s1
        in s1\<lparr>g_cursor_visible := v,
              screen := fb_draw_rect (col_to_x (g_col s1)) (row_to_y (g_row s1) + FB_SHELL_LINE_H - 3) FONT_WIDTH 2
                          (if v then FB_SHELL_FG else FB_SHELL_BG) (screen s1)\<rparr>
      else s1)"

text \<open>Formatted output.  The variable arguments are a list; a format that ends in a percent sign makes the code read past
  the end of the string, and a directive without its argument reads an unspecified argument: both give \<open>None\<close>.\<close>

datatype fmt_arg = StrArg "u8 list option" | NumArg "32 word"

fun digits10 :: "nat \<Rightarrow> nat \<Rightarrow> u8 list" where
  "digits10 0 v = []"
| "digits10 (Suc room) v = (if v = 0 then [] else digits10 room (v div 10) @ [48 + word_of_nat (v mod 10)])"

fun digits16 :: "nat \<Rightarrow> nat \<Rightarrow> u8 list" where
  "digits16 0 v = []"
| "digits16 (Suc room) v =
     (if v = 0 then [] else digits16 room (v div 16) @ [if v mod 16 < 10 then 48 + word_of_nat (v mod 16) else 97 + word_of_nat (v mod 16 - 10)])"

definition put_decimal :: "32 word \<Rightarrow> u8 list" where
  "put_decimal w =
     (let iv = sint w; mag = (if iv < 0 then - w else w)
      in (if iv < 0 then [45] else []) @
         (if mag = 0 then [48]
          else if sint mag < 0 then map (\<lambda>b. 96 - b) (digits10 31 (nat (- sint mag)))
          else digits10 31 (nat (sint mag))))"

definition put_hex :: "32 word \<Rightarrow> u8 list" where
  "put_hex w = (if w = 0 then [48] else digits16 31 (unat w))"

function fb_shell_printf :: "u8 list \<Rightarrow> fmt_arg list \<Rightarrow> fb_shell \<Rightarrow> fb_shell option" where
  "fb_shell_printf [] args s = Some s"
| "fb_shell_printf (c # fmt) args s =
     (if c \<noteq> 37 then fb_shell_printf fmt args (fb_shell_putchar c s)
      else
        case fmt of
          [] \<Rightarrow> None
        | d # fmt' \<Rightarrow>
            if d = 115 then
              (case args of
                 StrArg sv # as \<Rightarrow>
                   fb_shell_printf fmt' as (fb_shell_puts (Some (case sv of None \<Rightarrow> map of_char ''(null)'' | Some x \<Rightarrow> x)) s)
               | _ \<Rightarrow> None)
            else if d = 100 then
              (case args of NumArg iv # as \<Rightarrow> fb_shell_printf fmt' as (fold fb_shell_putchar (put_decimal iv) s) | _ \<Rightarrow> None)
            else if d = 120 then
              (case args of NumArg uv # as \<Rightarrow> fb_shell_printf fmt' as (fold fb_shell_putchar (put_hex uv) s) | _ \<Rightarrow> None)
            else if d = 99 then
              (case args of NumArg ch # as \<Rightarrow> fb_shell_printf fmt' as (fb_shell_putchar (ucast ch) s) | _ \<Rightarrow> None)
            else if d = 37 then fb_shell_printf fmt' args (fb_shell_putchar 37 s)
            else fb_shell_printf fmt' args (fb_shell_putchar d (fb_shell_putchar 37 s)))"
  by pat_completeness auto

termination fb_shell_printf
  by (relation "measure (\<lambda>(fmt, _). length fmt)") auto

section \<open>Keyboard\<close>

abbreviation LINE_H :: int where "LINE_H \<equiv> 10"
abbreviation MARGIN_X :: int where "MARGIN_X \<equiv> 8"
abbreviation MARGIN_Y :: int where "MARGIN_Y \<equiv> 8"

definition scancode_to_ascii_nomod :: "u8 list" where
  "scancode_to_ascii_nomod = [
    0, 27, 49, 50, 51, 52, 53, 54, 55, 56, 57, 48, 45, 61, 8, 9,
    113, 119, 101, 114, 116, 121, 117, 105, 111, 112, 91, 93, 10, 0, 97, 115,
    100, 102, 103, 104, 106, 107, 108, 59, 39, 96, 0, 92, 122, 120, 99, 118,
    98, 110, 109, 44, 46, 47, 0, 42, 0, 32, 0, 0, 0, 0, 0, 0,
    0, 0, 0, 0, 0, 0, 0, 0, 0, 0, 45, 0, 0, 0, 43, 0,
    0, 0, 0, 0, 0, 0, 0, 0, 0]"

definition scancode_to_ascii_shift :: "u8 list" where
  "scancode_to_ascii_shift = [
    0, 27, 33, 64, 35, 36, 37, 94, 38, 42, 40, 41, 95, 43, 8, 9,
    81, 87, 69, 82, 84, 89, 85, 73, 79, 80, 123, 125, 10, 0, 65, 83,
    68, 70, 71, 72, 74, 75, 76, 58, 34, 126, 0, 124, 90, 88, 67, 86,
    66, 78, 77, 60, 62, 63, 0, 42, 0, 32, 0, 0, 0, 0, 0, 0,
    0, 0, 0, 0, 0, 0, 0, 0, 0, 0, 45, 0, 0, 0, 43, 0,
    0, 0, 0, 0, 0, 0, 0, 0, 0]"

record keyboard =
  cursor_x :: int
  cursor_y :: int
  shift_pressed :: bool
  g_last_scancode :: u8
  g_key_ring :: "u8 list"
  g_key_head :: nat
  g_key_tail :: nat
  kscreen :: fb

definition key_ring_push :: "u8 \<Rightarrow> keyboard \<Rightarrow> keyboard" where
  "key_ring_push c k =
     (let nxt = (g_key_head k + 1) mod 64 in
      if nxt \<noteq> g_key_tail k then k\<lparr>g_key_ring := (g_key_ring k)[g_key_head k := c], g_key_head := nxt\<rparr> else k)"

definition keyboard_get_char :: "keyboard \<Rightarrow> u8 \<times> keyboard" where
  "keyboard_get_char k =
     (if g_key_head k = g_key_tail k then (0, k)
      else (g_key_ring k ! g_key_tail k, k\<lparr>g_key_tail := (g_key_tail k + 1) mod 64\<rparr>))"

definition keyboard_echo :: "u8 \<Rightarrow> keyboard \<Rightarrow> keyboard" where
  "keyboard_echo ascii k =
     (let fb_w = fb_width (kscreen k); fb_h = fb_height (kscreen k);
          k1 = (if ascii = 10 then k\<lparr>cursor_x := MARGIN_X, cursor_y := cursor_y k + LINE_H\<rparr>
                else if ascii = 8 then
                  if cursor_x k > MARGIN_X then
                    k\<lparr>cursor_x := cursor_x k - FONT_WIDTH,
                      kscreen := fb_draw_rect (cursor_x k - FONT_WIDTH) (cursor_y k) FONT_WIDTH FONT_HEIGHT 0 (kscreen k)\<rparr>
                  else k
                else
                  let x = cursor_x k + FONT_WIDTH;
                      k' = k\<lparr>cursor_x := x, kscreen := fb_draw_char (cursor_x k) (cursor_y k) ascii 0x00FFFFFF (kscreen k)\<rparr>
                  in if x + FONT_WIDTH \<ge> sint fb_w then k'\<lparr>cursor_x := MARGIN_X, cursor_y := cursor_y k + LINE_H\<rparr> else k')
      in if cursor_y k1 + LINE_H \<ge> sint fb_h then
           k1\<lparr>cursor_y := MARGIN_Y + 4 * LINE_H,
              kscreen := fb_draw_rect 0 (MARGIN_Y + 4 * LINE_H) (sint fb_w) (sint (fb_h - word_of_int (MARGIN_Y + 4 * LINE_H))) 0 (kscreen k1)\<rparr>
         else k1)"

definition keyboard_callback :: "u8 \<Rightarrow> keyboard \<Rightarrow> keyboard" where
  "keyboard_callback scancode k0 =
     (let k = k0\<lparr>g_last_scancode := scancode\<rparr> in
      if scancode = 0x2A \<or> scancode = 0x36 then k\<lparr>shift_pressed := True\<rparr>
      else if scancode = 0xAA \<or> scancode = 0xB6 then k\<lparr>shift_pressed := False\<rparr>
      else if scancode AND 0x80 \<noteq> 0 then k
      else
        let ascii = (if unat scancode < length scancode_to_ascii_nomod then
                       if shift_pressed k then scancode_to_ascii_shift ! unat scancode else scancode_to_ascii_nomod ! unat scancode
                     else 0)
        in if ascii \<noteq> 0 then keyboard_echo ascii (key_ring_push ascii k) else k)"

definition keyboard_init :: "keyboard \<Rightarrow> keyboard" where
  "keyboard_init k = k\<lparr>g_key_head := 0, g_key_tail := 0\<rparr>"

section \<open>The keyboard queue\<close>

definition keys_ok :: "keyboard \<Rightarrow> bool" where
  "keys_ok k = ring_ok 64 (g_key_ring k) (g_key_head k) (g_key_tail k)"

definition keys :: "keyboard \<Rightarrow> u8 list" where
  "keys k = ring_contents 64 (g_key_ring k) (g_key_head k) (g_key_tail k)"

lemma key_push:
  assumes "keys_ok k"
  shows "keys_ok (key_ring_push c k) \<and> keys (key_ring_push c k) = take 63 (keys k @ [c])"
proof (cases "(g_key_head k + 1) mod 64 = g_key_tail k")
  case True
  then have "length (keys k) = 63" using ring_full [OF assms [unfolded keys_ok_def]] by (simp add: keys_def)
  then show ?thesis using True assms by (simp add: key_ring_push_def)
next
  case False
  have "length (keys k) \<noteq> 63" "length (keys k) < 64"
    using False ring_full [OF assms [unfolded keys_ok_def]] ring_count_lt [OF assms [unfolded keys_ok_def]]
    by (simp_all add: keys_def)
  then have "take 63 (keys k @ [c]) = keys k @ [c]" by simp
  then show ?thesis
    using False ring_push [OF assms [unfolded keys_ok_def] False, of c]
    by (simp add: key_ring_push_def Let_def keys_ok_def keys_def)
qed

lemma key_pop:
  assumes "keys_ok k"
  shows "keys_ok (snd (keyboard_get_char k)) \<and> keys (snd (keyboard_get_char k)) = drop 1 (keys k) \<and>
    fst (keyboard_get_char k) = (case keys k of [] \<Rightarrow> 0 | x # _ \<Rightarrow> x)"
proof (cases "g_key_head k = g_key_tail k")
  case True
  then have "keys k = []" using ring_empty [OF assms [unfolded keys_ok_def]] by (simp add: keys_def)
  then show ?thesis using True assms by (simp add: keyboard_get_char_def)
next
  case False
  then show ?thesis
    using ring_pop [OF assms [unfolded keys_ok_def] False] by (simp add: keyboard_get_char_def keys_ok_def keys_def)
qed

interpretation keyq: bounded_fifo key_ring_push keyboard_get_char keys keys_ok 63 0
  using key_push key_pop ring_count_lt by unfold_locales (auto simp: keys_def keys_ok_def less_Suc_eq_le dest: ring_count_lt)

text \<open>The characters a sequence of scan codes stands for, given the state of the shift key.\<close>

fun typed :: "bool \<Rightarrow> u8 list \<Rightarrow> u8 list" where
  "typed shift [] = []"
| "typed shift (sc # scs) =
     (if sc = 0x2A \<or> sc = 0x36 then typed True scs
      else if sc = 0xAA \<or> sc = 0xB6 then typed False scs
      else if sc AND 0x80 \<noteq> 0 then typed shift scs
      else
        let ascii = (if unat sc < 89 then if shift then scancode_to_ascii_shift ! unat sc else scancode_to_ascii_nomod ! unat sc else 0)
        in if ascii \<noteq> 0 then ascii # typed shift scs else typed shift scs)"

lemma echo_keys:
  "g_key_ring (keyboard_echo c k) = g_key_ring k" "g_key_head (keyboard_echo c k) = g_key_head k"
  "g_key_tail (keyboard_echo c k) = g_key_tail k" "shift_pressed (keyboard_echo c k) = shift_pressed k"
  by (simp_all add: keyboard_echo_def Let_def)

lemma push_shift: "shift_pressed (key_ring_push c k) = shift_pressed k"
  by (simp add: key_ring_push_def Let_def)

lemma table_length: "length scancode_to_ascii_nomod = 89" "length scancode_to_ascii_shift = 89"
  by (simp_all add: scancode_to_ascii_nomod_def scancode_to_ascii_shift_def)

lemma callback_keys:
  assumes "keys_ok k"
  shows "keys_ok (fold keyboard_callback scs k) \<and> keys (fold keyboard_callback scs k) = take 63 (keys k @ typed (shift_pressed k) scs)"
  using assms
proof (induction scs arbitrary: k)
  case Nil
  then show ?case using keyq.bounded by simp
next
  case (Cons sc scs)
  define ascii where "ascii = (if unat sc < 89 then if shift_pressed k then scancode_to_ascii_shift ! unat sc
      else scancode_to_ascii_nomod ! unat sc else 0)"
  show ?case
  proof (cases "sc = 0x2A \<or> sc = 0x36 \<or> sc = 0xAA \<or> sc = 0xB6 \<or> sc AND 0x80 \<noteq> 0 \<or> ascii = 0")
    case True
    let ?k = "keyboard_callback sc k"
    have "keys_ok ?k" "keys ?k = keys k" using True Cons.prems
      by (auto simp: keyboard_callback_def Let_def keys_ok_def keys_def table_length ascii_def)
    moreover have "typed (shift_pressed k) (sc # scs) = typed (shift_pressed ?k) scs"
      using True by (auto simp: keyboard_callback_def Let_def table_length ascii_def)
    ultimately show ?thesis using Cons.IH [of ?k] by simp
  next
    case False
    let ?k = "key_ring_push ascii (k\<lparr>g_last_scancode := sc\<rparr>)"
    have cb: "keyboard_callback sc k = keyboard_echo ascii ?k"
      using False by (auto simp: keyboard_callback_def Let_def table_length ascii_def)
    have "keys_ok (k\<lparr>g_last_scancode := sc\<rparr>)" "keys (k\<lparr>g_last_scancode := sc\<rparr>) = keys k"
      using Cons.prems by (simp_all add: keys_ok_def keys_def)
    from key_push [OF this(1), of ascii] this(2)
    have "keys_ok (keyboard_callback sc k)" "keys (keyboard_callback sc k) = take 63 (keys k @ [ascii])"
      unfolding cb by (simp_all add: keys_ok_def keys_def echo_keys)
    moreover have "typed (shift_pressed k) (sc # scs) = ascii # typed (shift_pressed (keyboard_callback sc k)) scs"
      using False unfolding cb by (auto simp: echo_keys push_shift ascii_def Let_def)
    ultimately show ?thesis using Cons.IH [of "keyboard_callback sc k"] keyq.bounded [OF Cons.prems]
      by (auto simp: min_def take_Cons' simp del: typed.simps)
  qed
qed

section \<open>Drawing stays on the screen\<close>

definition on_screen :: "fb \<Rightarrow> u32 \<Rightarrow> bool" where
  "on_screen f i = (\<exists>x y. x < fb_width f \<and> y < fb_height f \<and> i = y * fb_pitch_px f + x)"

definition frame_kept :: "fb \<Rightarrow> fb \<Rightarrow> bool" where
  "frame_kept f g = (fb_width g = fb_width f \<and> fb_height g = fb_height f \<and> fb_pitch_px g = fb_pitch_px f \<and>
     (\<forall>i. \<not> on_screen f i \<longrightarrow> fb_mem g i = fb_mem f i))"

lemma frame_kept_refl: "frame_kept f f"
  by (simp add: frame_kept_def)

lemma frame_kept_trans: "frame_kept f g \<Longrightarrow> frame_kept g h \<Longrightarrow> frame_kept f h"
  by (auto simp: frame_kept_def on_screen_def)

lemma frame_kept_fold: "(\<And>x g. frame_kept g (op x g)) \<Longrightarrow> frame_kept f (fold op xs f)"
  by (induction xs arbitrary: f) (auto intro: frame_kept_refl frame_kept_trans)

lemma put_pixel_kept: "x < fb_width f \<Longrightarrow> y < fb_height f \<Longrightarrow> frame_kept f (fb_put_pixel x y c f)"
  by (auto simp: frame_kept_def fb_put_pixel_def on_screen_def)

lemma draw_rect_kept: "frame_kept f (fb_draw_rect x y w h colour f)"
  unfolding fb_draw_rect_def by (intro frame_kept_fold) (auto simp: Let_def intro: put_pixel_kept frame_kept_refl)

section \<open>The text screen\<close>

definition shell_ok :: "fb_shell \<Rightarrow> bool" where
  "shell_ok s = (g_col s \<le> FB_SHELL_COLS \<and> g_row s < FB_SHELL_ROWS \<and> length (g_lines s) = FB_SHELL_ROWS \<and>
     (\<forall>l \<in> set (g_lines s). length l = FB_SHELL_COLS + 1 \<and> l ! FB_SHELL_COLS = 0))"

lemma blank_ok: "length blank_line = FB_SHELL_COLS + 1" "blank_line ! FB_SHELL_COLS = 0"
  by (simp_all add: blank_line_def)

lemma redraw_same: "g_lines (redraw_row r s) = g_lines s" "g_row (redraw_row r s) = g_row s" "g_col (redraw_row r s) = g_col s"
  by (simp_all add: redraw_row_def Let_def)

lemma redraw_fold: "g_lines (fold redraw_row rs s) = g_lines s \<and> g_row (fold redraw_row rs s) = g_row s \<and> g_col (fold redraw_row rs s) = g_col s"
  by (induction rs arbitrary: s) (simp_all add: redraw_same)

lemma shell_newline_ok: "shell_ok s \<Longrightarrow> shell_ok (fb_shell_newline s) \<and> g_col (fb_shell_newline s) = 0"
  by (auto simp: shell_ok_def fb_shell_newline_def scroll_up_def Let_def redraw_fold blank_ok
      dest: in_set_dropD in_set_takeD set_update_subset_insert [THEN subsetD])

lemma set_cell_ok:
  assumes "shell_ok s" "col < FB_SHELL_COLS"
  shows "shell_ok (set_cell (g_row s) col c s)"
proof -
  have "g_lines s ! g_row s \<in> set (g_lines s)" using assms by (simp add: shell_ok_def)
  then show ?thesis using assms
    by (auto simp: shell_ok_def set_cell_def dest!: set_update_subset_insert [THEN subsetD])
qed

lemma set_cell_pos [simp]: "g_col (set_cell r c x s) = g_col s" "g_row (set_cell r c x s) = g_row s" "screen (set_cell r c x s) = screen s"
  by (simp_all add: set_cell_def)

lemma shell_ok_screen: "shell_ok (s\<lparr>screen := f\<rparr>) = shell_ok s"
  by (simp add: shell_ok_def)

lemma shell_putchar_ok:
  assumes "shell_ok s"
  shows "shell_ok (fb_shell_putchar c s)"
proof -
  let ?s = "if g_col s \<ge> FB_SHELL_COLS then fb_shell_newline s else s"
  have "shell_ok ?s" "g_col ?s < FB_SHELL_COLS" using shell_newline_ok [OF assms] assms by auto
  then have "shell_ok (set_cell (g_row ?s) (g_col ?s) c ?s)" by (rule set_cell_ok)
  then have put: "shell_ok ((set_cell (g_row ?s) (g_col ?s) c ?s)\<lparr>g_col := g_col ?s + 1, screen := f\<rparr>)" for f
    using \<open>g_col ?s < FB_SHELL_COLS\<close> by (simp add: shell_ok_def)
  have "shell_ok (set_cell (g_row s) (g_col s - 1) 0 (s\<lparr>g_col := g_col s - 1\<rparr>))" if "0 < g_col s"
  proof -
    have "shell_ok (s\<lparr>g_col := g_col s - 1\<rparr>)" "g_col s - 1 < FB_SHELL_COLS" using assms that by (auto simp: shell_ok_def)
    from set_cell_ok [OF this] show ?thesis by simp
  qed
  then show ?thesis
    using shell_newline_ok [OF assms] put assms unfolding fb_shell_putchar_def Let_def
    by (cases "g_col s \<ge> FB_SHELL_COLS"; cases "g_col s = 0") (simp_all add: shell_ok_screen)
qed

lemma shell_puts_ok: "shell_ok s \<Longrightarrow> shell_ok (fold fb_shell_putchar cs s)"
  by (induction cs arbitrary: s) (simp_all add: shell_putchar_ok)

lemma shell_printf_ok: "shell_ok s \<Longrightarrow> fb_shell_printf fmt args s = Some s' \<Longrightarrow> shell_ok s'"
proof (induction fmt arbitrary: args s rule: length_induct)
  case (1 fmt)
  have IH: "shell_ok s'" if "length f < length fmt" "fb_shell_printf f a t = Some s'" "shell_ok t" for f a t using 1 that by blast
  show ?case
  proof (cases "\<exists>d f. fmt = 37 # d # f")
    case False
    show ?thesis
    proof (cases fmt)
      case (Cons c f)
      then have "fb_shell_printf f args (fb_shell_putchar c s) = Some s'"
        using "1.prems"(2) False by (auto split: if_splits list.splits)
      then show ?thesis using IH [of f] shell_putchar_ok [OF "1.prems"(1)] Cons by simp
    qed (use "1.prems" in simp)
  next
    case True
    then obtain d f where fmt: "fmt = 37 # d # f" by blast
    have g: "shell_ok s'" if "fb_shell_printf f a (fold fb_shell_putchar cs s) = Some s'" for a cs
      using IH [OF _ that] shell_puts_ok [OF "1.prems"(1)] fmt by simp
    have p: "fb_shell_printf (37 # d # f) args s = Some s'" using "1.prems"(2) fmt by simp
    consider "d = 115" | "d = 100" | "d = 120" | "d = 99" | "d = 37" | "d \<notin> {115, 100, 120, 99, 37}" by blast
    then show ?thesis
    proof cases
      case 1
      then obtain sv as where "fb_shell_printf f as (fb_shell_puts (Some sv) s) = Some s'"
        using p by (auto split: list.splits fmt_arg.splits)
      then show ?thesis using g by (simp add: fb_shell_puts_def)
    next
      case 2
      then show ?thesis using p g by (auto split: list.splits fmt_arg.splits)
    next
      case 3
      then show ?thesis using p g by (auto split: list.splits fmt_arg.splits)
    next
      case 4
      then show ?thesis using p g [of _ "[_]"] by (auto split: list.splits fmt_arg.splits)
    next
      case 5
      then show ?thesis using p g [of _ "[_]"] by auto
    next
      case 6
      then show ?thesis using p g [of _ "[_, _]"] by auto
    qed
  qed
qed

inductive shell_reach :: "fb_shell \<Rightarrow> bool" where
  start: "shell_reach (fb_shell_init s)"
| putchar: "shell_reach s \<Longrightarrow> shell_reach (fb_shell_putchar c s)"
| puts: "shell_reach s \<Longrightarrow> shell_reach (fb_shell_puts str s)"
| printf: "shell_reach s \<Longrightarrow> fb_shell_printf fmt args s = Some s' \<Longrightarrow> shell_reach s'"
| newline: "shell_reach s \<Longrightarrow> shell_reach (fb_shell_newline s)"
| clear: "shell_reach s \<Longrightarrow> shell_reach (fb_shell_clear s)"
| tick: "shell_reach s \<Longrightarrow> shell_reach (fb_shell_cursor_tick s)"

lemma shell_init_ok: "shell_ok (fb_shell_init s)" "shell_ok (fb_shell_clear s)"
  by (simp_all add: shell_ok_def fb_shell_init_def fb_shell_clear_def Let_def blank_ok)

lemma shell_tick_ok: "shell_ok s \<Longrightarrow> shell_ok (fb_shell_cursor_tick s)"
  by (simp add: shell_ok_def fb_shell_cursor_tick_def Let_def)

fun read_keys :: "nat \<Rightarrow> keyboard \<Rightarrow> u8 list \<times> keyboard" where
  "read_keys 0 k = ([], k)"
| "read_keys (Suc n) k = (let (c, k') = keyboard_get_char k; (cs, k'') = read_keys n k' in (c # cs, k''))"

lemma read_keys_pops: "read_keys n k = keyq.pops n k"
  by (induction n arbitrary: k) simp_all

section \<open>Properties\<close>

text \<open>What is typed is what is read: after any sequence of keyboard interrupts from an initialised keyboard, reading
  returns the characters of the key presses in order, with the shift state of each press; once 63 characters wait
  unread, further ones are dropped and none that waits is overwritten.\<close>

theorem keyboard_reads_typed:
  assumes "length (g_key_ring k) = 64" "n \<le> length (typed (shift_pressed k) scs)" "n \<le> 63"
  shows "fst (read_keys n (fold keyboard_callback scs (keyboard_init k))) = take n (typed (shift_pressed k) scs)"
proof -
  let ?k = "keyboard_init k"
  have ok: "keys_ok ?k" and e: "keys ?k = []" using assms(1)
    by (simp_all add: keyboard_init_def keys_ok_def keys_def ring_ok_def ring_contents_def ring_count_def)
  have "keys_ok (fold keyboard_callback scs ?k) \<and> keys (fold keyboard_callback scs ?k) = take 63 (typed (shift_pressed k) scs)"
    using callback_keys [OF ok, of scs] e by (simp add: keyboard_init_def)
  then show ?thesis using keyq.pops_values [of "fold keyboard_callback scs ?k" n] assms(2,3) by (simp add: read_keys_pops)
qed

text \<open>In every state the text screen reaches, whatever is printed, cleared or blinked, the cursor lies on the screen,
  every line buffer has its 81 bytes and ends in a NUL: no character is stored outside the line it belongs to.\<close>

theorem shell_text_in_bounds:
  "shell_reach s \<Longrightarrow> g_col s \<le> FB_SHELL_COLS \<and> g_row s < FB_SHELL_ROWS \<and> length (g_lines s) = FB_SHELL_ROWS \<and>
     (\<forall>l \<in> set (g_lines s). length l = FB_SHELL_COLS + 1 \<and> l ! FB_SHELL_COLS = 0)"
  unfolding shell_ok_def [symmetric]
proof (induction rule: shell_reach.induct)
  case (puts s str)
  then show ?case by (cases str) (simp_all add: fb_shell_puts_def shell_puts_ok)
qed (simp_all add: shell_init_ok shell_tick_ok shell_putchar_ok shell_newline_ok shell_printf_ok)

text \<open>A rectangle is clipped: whatever its position and size, negative ones included, no pixel outside the visible area
  changes.  A character is not: with its corner on the last line of a 16 by 16 frame buffer it is drawn into the memory
  behind the buffer.\<close>

theorem rect_clipped_char_not:
  "(\<forall>i. on_screen f i \<or> fb_mem (fb_draw_rect x y w h colour f) i = fb_mem f i) \<and>
   (let f0 = fb_init (\<lambda>_. 0) 16 16 64 in
      fb_draw_char 0 15 33 1 f0 \<noteq> f0 \<and> fb_mem (fb_draw_char 0 15 33 1 f0) 259 = 1 \<and> \<not> on_screen f0 259)"
proof -
  have "\<not> on_screen (fb_init (\<lambda>_. 0) 16 16 64) 259"
  proof
    assume "on_screen (fb_init (\<lambda>_. 0) 16 16 64) 259"
    then obtain x y :: u32 where xy: "x < 16" "y < 16" "259 = y * 16 + x" by (auto simp: on_screen_def fb_init_def)
    then have u: "unat x < 16" "unat y < 16" by (simp_all add: word_less_nat_alt)
    then have "unat (y * 16 + x) = unat y * 16 + unat x" by (simp add: unat_word_ariths)
    then show False using u arg_cong [OF xy(3), of unat] by simp
  qed
  moreover have "fb_mem (fb_draw_char 0 15 33 1 (fb_init (\<lambda>_. 0) 16 16 64)) 259 = 1"
    by (simp add: fb_draw_char_def fb_init_def draw_char_def fb_put_pixel_def font_glyph_def font_data_def upt_rec)
  ultimately show ?thesis using draw_rect_kept [of f x y w h colour] by (auto simp: frame_kept_def Let_def fb_init_def)
qed

section \<open>Witnesses\<close>

definition wkeys :: keyboard where
  "wkeys = \<lparr>cursor_x = 8, cursor_y = 48, shift_pressed = False, g_last_scancode = 0, g_key_ring = replicate 64 0,
     g_key_head = 5, g_key_tail = 9, kscreen = fb_init (\<lambda>_. 0) 640 480 2560\<rparr>"

theorem keyboard_reads_typed_witness:
  "fst (read_keys 3 (fold keyboard_callback [0x2A, 0x23, 0xA3, 0xAA, 0x17, 0x02] (keyboard_init wkeys))) = [72, 105, 49]"
proof -
  have t: "typed (shift_pressed wkeys) [0x2A, 0x23, 0xA3, 0xAA, 0x17, 0x02] = [72, 105, 49]"
    by (simp add: wkeys_def scancode_to_ascii_nomod_def scancode_to_ascii_shift_def)
  have "length (g_key_ring wkeys) = 64" by (simp add: wkeys_def)
  from keyboard_reads_typed [OF this, of 3 "[0x2A, 0x23, 0xA3, 0xAA, 0x17, 0x02]", unfolded t] show ?thesis by simp
qed

definition wshell :: fb_shell where
  "wshell = \<lparr>g_col = 0, g_row = 0, g_cursor_visible = True, g_cursor_ticks = 0, g_lines = [], screen = fb_init (\<lambda>_. 0) 640 480 2560\<rparr>"

theorem shell_text_in_bounds_witness: "g_col (fb_shell_putchar 65 (fb_shell_init wshell)) \<le> FB_SHELL_COLS"
  using shell_text_in_bounds [OF shell_reach.putchar [OF shell_reach.start]] by blast

end
