(* ===== verification/Pqc.thy ===== *)
theory Pqc
  imports Rng Sha512
begin

text \<open>
  The key encapsulation and signature interface of \<^verbatim>\<open>src/kernel/pqc.c\<close>.  A pointer argument is an option, \<open>None\<close> for
  NULL; an output buffer is a flag that says whether the pointer is not NULL, and its contents are part of the result.
  The argument \<open>stk\<close> stands for the uninitialised stack bytes under the hash context.
\<close>

abbreviation KYBER_Q :: int where "KYBER_Q \<equiv> 3329"
abbreviation KYBER_1024_PUBLICKEY_BYTES :: nat where "KYBER_1024_PUBLICKEY_BYTES \<equiv> 1568"
abbreviation KYBER_1024_SECRETKEY_BYTES :: nat where "KYBER_1024_SECRETKEY_BYTES \<equiv> 3168"
abbreviation KYBER_1024_CIPHERTEXT_BYTES :: nat where "KYBER_1024_CIPHERTEXT_BYTES \<equiv> 1568"
abbreviation DILITHIUM_5_PUBLICKEY_BYTES :: nat where "DILITHIUM_5_PUBLICKEY_BYTES \<equiv> 2592"
abbreviation DILITHIUM_5_SECRETKEY_BYTES :: nat where "DILITHIUM_5_SECRETKEY_BYTES \<equiv> 4896"
abbreviation DILITHIUM_5_SIG_BYTES :: nat where "DILITHIUM_5_SIG_BYTES \<equiv> 4595"

text \<open>The C remainder takes the sign of the dividend.\<close>

definition fqmul :: "16 word \<Rightarrow> 16 word \<Rightarrow> 16 word" where
  "fqmul a b =
     (let c = sint a * sint b;
          res = sgn c * (\<bar>c\<bar> mod KYBER_Q)
      in word_of_int (if res < 0 then res + KYBER_Q else res))"

record pqc_keypair =
  pk :: "u8 list"
  sk :: "u8 list"

definition tagged_pair :: "u8 \<Rightarrow> nat \<Rightarrow> nat \<Rightarrow> rng \<Rightarrow> pqc_keypair \<times> rng" where
  "tagged_pair tag n m r =
     (let (p, r1) = rng_bytes n r; (s, r2) = rng_bytes m r1
      in (\<lparr>pk = p[0 := tag], sk = s[0 := tag]\<rparr>, r2))"

definition kyber1024_keypair :: "bool \<Rightarrow> rng \<Rightarrow> (int \<times> pqc_keypair option) \<times> rng" where
  "kyber1024_keypair kp r =
     (if \<not> kp then ((- 1, None), r)
      else let (p, r') = tagged_pair 0x04 KYBER_1024_PUBLICKEY_BYTES KYBER_1024_SECRETKEY_BYTES r in ((0, Some p), r'))"

definition coin_secret :: "u8 list \<Rightarrow> u8 list \<Rightarrow> u8 list" where
  "coin_secret stk coin = take 32 (sha512 stk coin)"

definition kyber1024_encapsulate ::
  "u8 list \<Rightarrow> bool \<Rightarrow> bool \<Rightarrow> u8 list option \<Rightarrow> rng \<Rightarrow> int \<times> u8 list \<times> u8 list \<times> rng" where
  "kyber1024_encapsulate stk ct ss pub r =
     (if \<not> ct \<or> \<not> ss \<or> pub = None then (- 1, [], [], r)
      else
        let (coin, r1) = rng_bytes 32 r;
            secret = coin_secret stk coin;
            (body, r2) = rng_bytes KYBER_1024_CIPHERTEXT_BYTES r1
        in (0, 0xC7 # coin @ drop 33 body, secret, r2))"

definition kyber1024_decapsulate :: "u8 list \<Rightarrow> bool \<Rightarrow> u8 list option \<Rightarrow> u8 list option \<Rightarrow> int \<times> u8 list" where
  "kyber1024_decapsulate stk ss ct sec =
     (case (ct, sec) of
        (Some c, Some _) \<Rightarrow>
          if \<not> ss \<or> c ! 0 \<noteq> 0xC7 then (- 1, []) else (0, coin_secret stk (take 32 (drop 1 c)))
      | _ \<Rightarrow> (- 1, []))"

definition dilithium5_keypair :: "bool \<Rightarrow> rng \<Rightarrow> (int \<times> pqc_keypair option) \<times> rng" where
  "dilithium5_keypair kp r =
     (if \<not> kp then ((- 1, None), r)
      else let (p, r') = tagged_pair 0x05 DILITHIUM_5_PUBLICKEY_BYTES DILITHIUM_5_SECRETKEY_BYTES r in ((0, Some p), r'))"

definition dilithium5_sign ::
  "u8 list \<Rightarrow> bool \<Rightarrow> bool \<Rightarrow> u8 list option \<Rightarrow> u8 list option \<Rightarrow> rng \<Rightarrow> int \<times> u8 list \<times> nat \<times> rng" where
  "dilithium5_sign stk sig sig_len msg sec r =
     (case (msg, sec) of
        (Some m, Some _) \<Rightarrow>
          if \<not> sig \<or> \<not> sig_len then (- 1, [], 0, r)
          else let (body, r1) = rng_bytes DILITHIUM_5_SIG_BYTES r
               in (0, 0xD5 # take 32 (sha512 stk m) @ drop 33 body, DILITHIUM_5_SIG_BYTES, r1)
      | _ \<Rightarrow> (- 1, [], 0, r))"

definition dilithium5_verify :: "u8 list \<Rightarrow> u8 list option \<Rightarrow> nat \<Rightarrow> u8 list option \<Rightarrow> u8 list option \<Rightarrow> int" where
  "dilithium5_verify stk sig sig_len msg pub =
     (case (sig, msg, pub) of
        (Some s, Some m, Some _) \<Rightarrow>
          if sig_len \<noteq> DILITHIUM_5_SIG_BYTES then - 1
          else if s ! 0 \<noteq> 0xD5 then - 1
          else if take 32 (drop 1 s) \<noteq> take 32 (sha512 stk m) then - 1
          else 0
      | _ \<Rightarrow> - 1)"

definition pqc_test_msg :: "u8 list" where
  "pqc_test_msg = map of_char ''StyxOS Post-Quantum Verified Kernel Payload 2026''"

definition pqc_selftest :: "u8 list \<Rightarrow> rng \<Rightarrow> bool \<times> rng" where
  "pqc_selftest stk r =
     (let ((rc1, kp), r1) = kyber1024_keypair True r in
      if rc1 \<noteq> 0 then (False, r1)
      else
        let (rc2, ct, ss_enc, r2) = kyber1024_encapsulate stk True True (map_option pk kp) r1 in
        if rc2 \<noteq> 0 then (False, r2)
        else
          let (rc3, ss_dec) = kyber1024_decapsulate stk True (Some ct) (map_option sk kp) in
          if rc3 \<noteq> 0 then (False, r2)
          else if ss_enc \<noteq> ss_dec then (False, r2)
          else
            let ((rc4, dkp), r3) = dilithium5_keypair True r2 in
            if rc4 \<noteq> 0 then (False, r3)
            else
              let (rc5, sig, sig_len, r4) = dilithium5_sign stk True True (Some pqc_test_msg) (map_option sk dkp) r3 in
              if rc5 \<noteq> 0 then (False, r4)
              else if dilithium5_verify stk (Some sig) sig_len (Some pqc_test_msg) (map_option pk dkp) \<noteq> 0 then (False, r4)
              else (True, r4))"

section \<open>Lemmas\<close>

lemma fqmul_reduces: "sint (fqmul a b) mod KYBER_Q = sint a * sint b mod KYBER_Q \<and> 0 \<le> sint (fqmul a b) \<and> sint (fqmul a b) < KYBER_Q"
proof -
  define c where "c = sint a * sint b"
  define res where "res = (if sgn c * (\<bar>c\<bar> mod KYBER_Q) < 0 then sgn c * (\<bar>c\<bar> mod KYBER_Q) + KYBER_Q else sgn c * (\<bar>c\<bar> mod KYBER_Q))"
  have b: "0 \<le> \<bar>c\<bar> mod KYBER_Q" "\<bar>c\<bar> mod KYBER_Q < KYBER_Q" by simp_all
  have r: "0 \<le> res \<and> res < KYBER_Q" using b by (auto simp: res_def sgn_if)
  have "res mod KYBER_Q = c mod KYBER_Q"
    unfolding res_def sgn_if by (auto simp: mod_minus_eq abs_if)
  moreover have "sint (word_of_int res :: 16 word) = res"
    using r by (simp add: signed_of_int signed_take_bit_int_eq_self)
  ultimately show ?thesis using r by (simp add: fqmul_def c_def [symmetric] res_def [symmetric] Let_def)
qed

text \<open>The boot self test passes for every generator.\<close>

lemma pqc_selftest_passes:
  assumes "length stk = 128"
  shows "fst (pqc_selftest stk r)"
proof -
  have l: "length (fst (rng_bytes n r)) = n" for n r using length_rng_bytes [of n r] by (cases "rng_bytes n r") simp
  show ?thesis
    using l assms
    by (simp add: pqc_selftest_def kyber1024_keypair_def tagged_pair_def kyber1024_encapsulate_def kyber1024_decapsulate_def
        dilithium5_keypair_def dilithium5_sign_def dilithium5_verify_def prod.case_eq_if Let_def sha512_eq_ref pqc_test_msg_def)
qed

section \<open>Properties\<close>

text \<open>Decapsulation returns the secret that encapsulation produced, whichever secret key is given to it: the secret is
  the truncated hash of bytes 1 to 32 of the ciphertext, so everybody who sees the ciphertext can compute it.\<close>

theorem kem_secret_from_ciphertext:
  assumes "kyber1024_encapsulate stk True True (Some pub) r = (rc, ct, ss, r')" "length stk = 128"
  shows "rc = 0 \<and> length ct = KYBER_1024_CIPHERTEXT_BYTES \<and> length ss = 32 \<and>
    kyber1024_decapsulate stk True (Some ct) (Some any_key) = (0, ss) \<and> ss = take 32 (sha512_ref (take 32 (drop 1 ct)))"
proof -
  obtain coin r1 where c: "rng_bytes 32 r = (coin, r1)" by (cases "rng_bytes 32 r")
  obtain body r2 where b: "rng_bytes KYBER_1024_CIPHERTEXT_BYTES r1 = (body, r2)" by (cases "rng_bytes KYBER_1024_CIPHERTEXT_BYTES r1")
  have l: "length coin = 32" "length body = KYBER_1024_CIPHERTEXT_BYTES" using length_rng_bytes [OF c] length_rng_bytes [OF b] .
  have e: "ct = 0xC7 # coin @ drop 33 body" "ss = coin_secret stk coin" "rc = 0"
    using assms(1) c b by (simp_all add: kyber1024_encapsulate_def)
  show ?thesis
    using l assms(2) by (simp add: e kyber1024_decapsulate_def coin_secret_def sha512_eq_ref)
qed

text \<open>A produced signature verifies, under every public key; and every buffer of the right size that starts with the
  tag byte and the truncated hash of the message verifies: signing needs no key.\<close>

theorem signature_needs_no_key:
  assumes "length stk = 128" "length m < 2 ^ 61" "length junk = 4562"
  shows "(case dilithium5_sign stk True True (Some m) (Some sec) r of (rc, sig, n, _) \<Rightarrow>
      rc = 0 \<and> dilithium5_verify stk (Some sig) n (Some m) (Some any_key) = 0) \<and>
    dilithium5_verify stk (Some (0xD5 # take 32 (sha512_ref m) @ junk)) DILITHIUM_5_SIG_BYTES (Some m) (Some any_key) = 0"
  using assms(1,2) by (auto simp: dilithium5_sign_def dilithium5_verify_def sha512_eq_ref split: prod.splits)

section \<open>Witnesses\<close>

definition wrng :: rng where
  "wrng = \<lparr>gen = \<lparr>g_s = [1, 2, 3, 4], g_call_counter = 0, g_initialized = True\<rparr>,
     readings = (\<lambda>_. (\<lparr>g_s = [1, 2, 3, 4], g_call_counter = 0, g_initialized = True\<rparr>, 5, 6)), calls = 0\<rparr>"

theorem kem_secret_from_ciphertext_witness:
  "\<exists>ct ss r. kyber1024_encapsulate (replicate 128 0) True True (Some [1]) wrng = (0, ct, ss, r) \<and>
     kyber1024_decapsulate (replicate 128 0) True (Some ct) (Some [9]) = (0, ss)"
proof -
  obtain rc ct ss r where e: "kyber1024_encapsulate (replicate 128 0) True True (Some [1]) wrng = (rc, ct, ss, r)"
    by (cases "kyber1024_encapsulate (replicate 128 0) True True (Some [1]) wrng")
  show ?thesis using kem_secret_from_ciphertext [OF e, of "[9]"] e by auto
qed

theorem signature_needs_no_key_witness:
  "dilithium5_verify (replicate 128 0) (Some (0xD5 # take 32 (sha512_ref [7]) @ replicate 4562 0)) DILITHIUM_5_SIG_BYTES
     (Some [7]) (Some [1]) = 0"
  using signature_needs_no_key [of "replicate 128 0" "[7]" "replicate 4562 0" "[1]" "[2]" wrng] by simp

end
