(* ===== verification/Syscall.thy ===== *)
theory Syscall
  imports Cap Console Pqc Storage Tcp Tor
begin

unbundle bit_operations_syntax

text \<open>
  The system call dispatcher, \<^verbatim>\<open>src/kernel/syscall.c\<close>: one definition per system call and \<open>syscall_dispatch\<close> over
  them, on a kernel state that puts the components together.  The network state (card, addresses, generator,
  padding) is shared: \<open>knet\<close> is handed to the component that runs and taken back from it.  Capability tables are
  found by the address in the task descriptor.  Memory is the byte memory of \<open>Cap\<close>, per address space with \<open>None\<close> for
  the kernel half: what the calls here and the message transfer store is read through the same page tables.  A call that ends in the
  self-destruct halt loop gives \<open>Halt\<close>.  The serial line holds what \<^verbatim>\<open>SYS_WRITE\<close> itself sends; log messages are left out.
\<close>

section \<open>State\<close>

record 'd kernel =
  ipc :: ipc_state
  cap_tables :: "u64 \<Rightarrow> cap_tab"
  kbd :: keyboard
  con :: fb_shell
  serial_out :: "u8 list"
  tcp :: tcp_engine
  tor :: tor_state
  store :: "'d storage"
  knet :: net_state
  phys :: pmm_state
  kpolls :: "nat \<Rightarrow> u8"

abbreviation SYS_YIELD :: u64 where "SYS_YIELD \<equiv> 0"
abbreviation SYS_WRITE :: u64 where "SYS_WRITE \<equiv> 1"
abbreviation SYS_CAP_SEND :: u64 where "SYS_CAP_SEND \<equiv> 2"
abbreviation SYS_CAP_RECV :: u64 where "SYS_CAP_RECV \<equiv> 3"
abbreviation SYS_EXIT :: u64 where "SYS_EXIT \<equiv> 4"
abbreviation SYS_READ_KEY :: u64 where "SYS_READ_KEY \<equiv> 5"
abbreviation SYS_TOR_CELL :: u64 where "SYS_TOR_CELL \<equiv> 6"
abbreviation SYS_SYSINFO :: u64 where "SYS_SYSINFO \<equiv> 7"
abbreviation SYS_SOCKET :: u64 where "SYS_SOCKET \<equiv> 8"
abbreviation SYS_CONNECT :: u64 where "SYS_CONNECT \<equiv> 9"
abbreviation SYS_SEND :: u64 where "SYS_SEND \<equiv> 10"
abbreviation SYS_RECV :: u64 where "SYS_RECV \<equiv> 11"
abbreviation SYS_PQC_KEM :: u64 where "SYS_PQC_KEM \<equiv> 12"
abbreviation SYS_EMERGENCY_WIPE :: u64 where "SYS_EMERGENCY_WIPE \<equiv> 13"

abbreviation SYSRET_OK :: int where "SYSRET_OK \<equiv> 0"
abbreviation SYSRET_EBADCALL :: int where "SYSRET_EBADCALL \<equiv> - 1"
abbreviation SYSRET_EACCESS :: int where "SYSRET_EACCESS \<equiv> - 2"
abbreviation SYSRET_EFAULT :: int where "SYSRET_EFAULT \<equiv> - 3"

section \<open>Memory and capability access\<close>

abbreviation mem :: "'d kernel \<Rightarrow> u64 option \<Rightarrow> u64 \<Rightarrow> u8" where
  "mem k \<equiv> umem (ipc k)"

definition mem_byte :: "'d kernel \<Rightarrow> u64 \<Rightarrow> u8" where
  "mem_byte k a = load_byte (ipc k) a"

definition mem_bytes :: "'d kernel \<Rightarrow> u64 \<Rightarrow> nat \<Rightarrow> u8 list" where
  "mem_bytes k a n = load_bytes (ipc k) a n"

definition put_bytes :: "u64 \<Rightarrow> u8 list \<Rightarrow> 'd kernel \<Rightarrow> 'd kernel" where
  "put_bytes a bs k = k\<lparr>ipc := store_bytes a bs (ipc k)\<rparr>"

definition bad_range :: "u64 \<Rightarrow> u64 \<Rightarrow> bool" where
  "bad_range a n = (a \<ge> USER_TOP \<or> a + n \<ge> USER_TOP)"

definition task_caps :: "nat \<Rightarrow> 'd kernel \<Rightarrow> cap_tab" where
  "task_caps cur k = cap_tables k (cap_table (task_table (sch (ipc k)) ! cur))"

definition has_cap :: "nat \<Rightarrow> u64 \<Rightarrow> u32 \<Rightarrow> 'd kernel \<Rightarrow> bool" where
  "has_cap cur arg0 r k =
     (case cap_lookup (ipc k) (task_caps cur k) (ucast arg0) CAP_TYPE_ENDPOINT r of Inr _ \<Rightarrow> True | Inl _ \<Rightarrow> False)"

fun cap_err_code :: "cap_err \<Rightarrow> int" where
  "cap_err_code CAP_OK = 0"
| "cap_err_code CAP_ERR_NULL = 1"
| "cap_err_code CAP_ERR_ACCESS = 2"
| "cap_err_code CAP_ERR_RIGHTS = 3"
| "cap_err_code CAP_ERR_STALE = 4"
| "cap_err_code CAP_ERR_FULL = 5"
| "cap_err_code CAP_ERR_BOUNDS = 6"
| "cap_err_code CAP_ERR_TYPE = 7"
| "cap_err_code CAP_ERR_STATE = 8"
| "cap_err_code CAP_ERR_POOL = 9"
| "cap_err_code CAP_ERR_OCCUPIED = 10"

definition set_sched :: "sched_state \<Rightarrow> 'd kernel \<Rightarrow> 'd kernel" where
  "set_sched s k = k\<lparr>ipc := (ipc k)\<lparr>sch := s\<rparr>\<rparr>"

definition c_int :: "u64 \<Rightarrow> int" where
  "c_int a = sint (ucast a :: u32)"

section \<open>System calls\<close>

fun write_loop :: "nat \<Rightarrow> u64 \<Rightarrow> 'd kernel \<Rightarrow> 'd kernel" where
  "write_loop 0 a k = k"
| "write_loop (Suc n) a k =
     (let c = mem_byte k a in
      if c = 0 then k
      else write_loop n (a + 1) (k\<lparr>con := fb_shell_putchar c (con k),
                                   serial_out := serial_out k @ (if c = 10 then [13, 10] else [c])\<rparr>))"

definition sys_write :: "nat \<Rightarrow> u64 \<Rightarrow> u64 \<Rightarrow> u64 \<Rightarrow> 'd kernel \<Rightarrow> int \<times> 'd kernel" where
  "sys_write cur arg0 arg1 arg2 k =
     (if \<not> has_cap cur arg0 CAP_RIGHT_SEND k then (SYSRET_EACCESS, k)
      else if bad_range arg1 arg2 then (SYSRET_EFAULT, k)
      else (SYSRET_OK, write_loop (unat arg2) arg1 k))"

abbreviation SIZEOF_IPC_MSG :: u64 where "SIZEOF_IPC_MSG \<equiv> 48"

definition sys_cap_send :: "nat \<Rightarrow> u64 \<Rightarrow> u64 \<Rightarrow> 'd kernel \<Rightarrow> int \<times> 'd kernel" where
  "sys_cap_send cur arg0 arg1 k =
     (if bad_range arg1 SIZEOF_IPC_MSG then (SYSRET_EFAULT, k)
      else let (err, i) = cap_send (ipc k) (task_caps cur k) (ucast arg0) arg1 in (- cap_err_code err, k\<lparr>ipc := i\<rparr>))"

definition sys_cap_recv :: "nat \<Rightarrow> u64 \<Rightarrow> u64 \<Rightarrow> 'd kernel \<Rightarrow> int \<times> 'd kernel" where
  "sys_cap_recv cur arg0 arg1 k =
     (if bad_range arg1 SIZEOF_IPC_MSG then (SYSRET_EFAULT, k)
      else let (err, i) = cap_recv (ipc k) (task_caps cur k) (ucast arg0) arg1 in (- cap_err_code err, k\<lparr>ipc := i\<rparr>))"

definition sys_exit :: "nat \<Rightarrow> 'd kernel \<Rightarrow> int \<times> 'd kernel" where
  "sys_exit cur k = (SYSRET_OK, set_sched (sched_yield (upd_task cur (\<lambda>t. t\<lparr>tstate := DEAD\<rparr>) (sch (ipc k)))) k)"

definition sys_read_key :: "nat \<Rightarrow> u64 \<Rightarrow> 'd kernel \<Rightarrow> int \<times> 'd kernel" where
  "sys_read_key cur arg0 k =
     (if \<not> has_cap cur arg0 CAP_RIGHT_RECV k then (SYSRET_EACCESS, k)
      else let (c, kb) = keyboard_get_char (kbd k) in (int (unat c), k\<lparr>kbd := kb\<rparr>))"

definition sys_tor_cell :: "nat \<Rightarrow> u64 \<Rightarrow> u64 \<Rightarrow> u64 \<Rightarrow> 'd kernel \<Rightarrow> int \<times> 'd kernel" where
  "sys_tor_cell cur arg0 arg1 arg2 k =
     (if \<not> has_cap cur arg0 CAP_RIGHT_SEND k then (SYSRET_EACCESS, k)
      else if bad_range arg1 arg2 \<or> arg2 > 512 then (SYSRET_EFAULT, k)
      else
        let payload = (if arg1 = 0 then None else Some (mem_bytes k arg1 (unat arg2)));
            (ok, t) = tor_send_cell (kpolls k) payload TOR_CAPABILITY_TOKEN ((tor k)\<lparr>tnet := knet k\<rparr>)
        in (if ok then SYSRET_OK else - 1, k\<lparr>tor := t, knet := tnet t\<rparr>))"

definition sys_sysinfo :: "u64 \<Rightarrow> 'd kernel \<Rightarrow> int \<times> 'd kernel" where
  "sys_sysinfo arg0 k =
     (if arg0 \<ge> USER_TOP then (SYSRET_EFAULT, k)
      else (SYSRET_OK, put_bytes arg0 (le_bytes 8 (word_of_nat (pmm_get_free_memory (phys k)) :: u64) @
                                       le_bytes 4 (2 :: u32) @ le_bytes 4 (0 :: u32)) k))"

definition sys_socket :: "nat \<Rightarrow> u64 \<Rightarrow> 'd kernel \<Rightarrow> int \<times> 'd kernel" where
  "sys_socket cur arg0 k =
     (if \<not> has_cap cur arg0 CAP_RIGHT_SEND k then (SYSRET_EACCESS, k)
      else let (sock, t) = tcp_socket_create ((tcp k)\<lparr>net := knet k\<rparr>) in (sock, k\<lparr>tcp := t, knet := net t\<rparr>))"

definition sys_connect :: "nat \<Rightarrow> u64 \<Rightarrow> u64 \<Rightarrow> u64 \<Rightarrow> u64 \<Rightarrow> 'd kernel \<Rightarrow> int \<times> 'd kernel" where
  "sys_connect cur arg0 arg1 arg2 arg3 k =
     (if \<not> has_cap cur arg0 CAP_RIGHT_SEND k then (SYSRET_EACCESS, k)
      else let (res, t) = tcp_socket_connect (kpolls k) (c_int arg1) (ucast arg2) (ucast arg3) ((tcp k)\<lparr>net := knet k\<rparr>)
           in (res, k\<lparr>tcp := t, knet := net t\<rparr>))"

definition sys_send :: "nat \<Rightarrow> u64 \<Rightarrow> u64 \<Rightarrow> u64 \<Rightarrow> u64 \<Rightarrow> 'd kernel \<Rightarrow> int \<times> 'd kernel" where
  "sys_send cur arg0 arg1 arg2 arg3 k =
     (if \<not> has_cap cur arg0 CAP_RIGHT_SEND k then (SYSRET_EACCESS, k)
      else if bad_range arg2 arg3 then (SYSRET_EFAULT, k)
      else if arg2 = 0 \<and> arg3 > 0 then (- 1, k)
      else let (res, t) = tcp_socket_send (kpolls k) (c_int arg1) (mem_bytes k arg2 (unat arg3)) ((tcp k)\<lparr>net := knet k\<rparr>)
           in (res, k\<lparr>tcp := t, knet := net t\<rparr>))"

definition sys_recv :: "nat \<Rightarrow> u64 \<Rightarrow> u64 \<Rightarrow> u64 \<Rightarrow> u64 \<Rightarrow> 'd kernel \<Rightarrow> int \<times> 'd kernel" where
  "sys_recv cur arg0 arg1 arg2 arg3 k =
     (if \<not> has_cap cur arg0 CAP_RIGHT_RECV k then (SYSRET_EACCESS, k)
      else if bad_range arg2 arg3 then (SYSRET_EFAULT, k)
      else let (res, bs, t) = tcp_socket_recv (c_int arg1) (unat arg3) ((tcp k)\<lparr>net := knet k\<rparr>)
           in (res, put_bytes arg2 bs (k\<lparr>tcp := t, knet := net t\<rparr>)))"

definition sys_pqc_kem :: "u64 \<Rightarrow> u64 \<Rightarrow> u64 \<Rightarrow> 'd kernel \<Rightarrow> int \<times> 'd kernel" where
  "sys_pqc_kem arg0 arg1 arg2 k =
     (if arg0 \<ge> USER_TOP \<or> arg1 \<ge> USER_TOP \<or> arg2 \<ge> USER_TOP then (SYSRET_EFAULT, k)
      else
        let pub = (if arg2 = 0 then None else Some (mem_bytes k arg2 KYBER_1024_PUBLICKEY_BYTES));
            (res, ct, ss, r) = kyber1024_encapsulate (stack (store k)) (arg0 \<noteq> 0) (arg1 \<noteq> 0) pub (rand (knet k));
            k1 = k\<lparr>knet := (knet k)\<lparr>rand := r\<rparr>\<rparr>
        in (res, put_bytes arg0 ct (put_bytes arg1 ss k1)))"

definition sys_emergency_wipe :: "nat \<Rightarrow> u64 \<Rightarrow> 'd kernel \<Rightarrow> (int, 'd kernel) run" where
  "sys_emergency_wipe cur arg0 k =
     (if \<not> has_cap cur arg0 CAP_RIGHT_SEND k then Ret SYSRET_EACCESS k
      else let d = destruct_trigger (Some (ascii ''Ring-3 Shell REPL Wipe Command'')) ((store k)\<lparr>snet := knet k\<rparr>)
           in Halt (k\<lparr>store := d, knet := snet d\<rparr>))"

definition ret_of :: "int \<times> 'd kernel \<Rightarrow> (int, 'd kernel) run" where
  "ret_of r = Ret (fst r) (snd r)"

definition syscall_dispatch :: "u64 \<Rightarrow> u64 \<Rightarrow> u64 \<Rightarrow> u64 \<Rightarrow> u64 \<Rightarrow> 'd kernel \<Rightarrow> (int, 'd kernel) run" where
  "syscall_dispatch num arg0 arg1 arg2 arg3 k =
     (case sched_get_current (sch (ipc k)) of
        None \<Rightarrow> Ret SYSRET_EACCESS k
      | Some cur \<Rightarrow>
          if num = SYS_YIELD then Ret SYSRET_OK (set_sched (sched_yield (sch (ipc k))) k)
          else if num = SYS_WRITE then ret_of (sys_write cur arg0 arg1 arg2 k)
          else if num = SYS_CAP_SEND then ret_of (sys_cap_send cur arg0 arg1 k)
          else if num = SYS_CAP_RECV then ret_of (sys_cap_recv cur arg0 arg1 k)
          else if num = SYS_EXIT then ret_of (sys_exit cur k)
          else if num = SYS_READ_KEY then ret_of (sys_read_key cur arg0 k)
          else if num = SYS_TOR_CELL then ret_of (sys_tor_cell cur arg0 arg1 arg2 k)
          else if num = SYS_SYSINFO then ret_of (sys_sysinfo arg0 k)
          else if num = SYS_SOCKET then ret_of (sys_socket cur arg0 k)
          else if num = SYS_CONNECT then ret_of (sys_connect cur arg0 arg1 arg2 arg3 k)
          else if num = SYS_SEND then ret_of (sys_send cur arg0 arg1 arg2 arg3 k)
          else if num = SYS_RECV then ret_of (sys_recv cur arg0 arg1 arg2 arg3 k)
          else if num = SYS_PQC_KEM then ret_of (sys_pqc_kem arg0 arg1 arg2 k)
          else if num = SYS_EMERGENCY_WIPE then sys_emergency_wipe cur arg0 k
          else Ret SYSRET_EBADCALL k)"

section \<open>Lemmas\<close>

lemma has_cap_iff:
  "has_cap cur arg0 r k \<longleftrightarrow>
     (let i = unat (ucast arg0 :: u32); slot = task_caps cur k ! i in
      i < CAP_TABLE_SIZE \<and> ctype slot = CAP_TYPE_ENDPOINT \<and> \<not> slot_stale (ipc k) slot \<and> rights slot AND r = r)"
  unfolding has_cap_def by (cases "cap_lookup (ipc k) (task_caps cur k) (ucast arg0) CAP_TYPE_ENDPOINT r")
    (auto simp: cap_lookup_def Let_def split: if_splits)

text \<open>The right that each guarded call asks for; the other calls ask for none.\<close>

definition required_right :: "u64 \<Rightarrow> u32 option" where
  "required_right num =
     (if num \<in> {SYS_WRITE, SYS_CAP_SEND, SYS_TOR_CELL, SYS_SOCKET, SYS_CONNECT, SYS_SEND, SYS_EMERGENCY_WIPE}
      then Some CAP_RIGHT_SEND
      else if num \<in> {SYS_CAP_RECV, SYS_READ_KEY, SYS_RECV} then Some CAP_RIGHT_RECV
      else None)"

lemma cap_err_code_pos: "e \<noteq> CAP_OK \<Longrightarrow> 0 < cap_err_code e"
  by (cases e) simp_all

lemma ipc_denied:
  assumes "\<not> has_cap cur arg0 CAP_RIGHT_SEND k"
  shows "\<exists>e. e \<noteq> CAP_OK \<and> cap_send (ipc k) (task_caps cur k) (ucast arg0) m = (e, ipc k)"
  using assms by (auto simp: has_cap_def cap_send_def cap_lookup_def Let_def split: sum.splits if_splits)

lemma ipc_denied_recv:
  assumes "\<not> has_cap cur arg0 CAP_RIGHT_RECV k"
  shows "\<exists>e. e \<noteq> CAP_OK \<and> cap_recv (ipc k) (task_caps cur k) (ucast arg0) m = (e, ipc k)"
  using assms by (auto simp: has_cap_def cap_recv_def cap_lookup_def Let_def split: sum.splits if_splits)

lemma put_bytes_other: "c \<noteq> cr3 (sch (ipc k)) \<Longrightarrow> mem (put_bytes a bs k) (Some c) = mem k (Some c)"
  by (simp add: put_bytes_def store_bytes_other)

lemma put_bytes_sch: "sch (ipc (put_bytes a bs k)) = sch (ipc k)"
  by (simp add: put_bytes_def)

lemma put_bytes_kernel:
  "unat a + length bs < 2 ^ 64 \<Longrightarrow> unat a + length bs \<le> unat USER_TOP \<Longrightarrow> mem (put_bytes a bs k) None = mem k None"
  by (simp add: put_bytes_def store_bytes_kernel)

lemma write_loop_mem: "ipc (write_loop n a k) = ipc k"
  by (induction n a k rule: write_loop.induct) (simp_all add: Let_def)

lemma recv_length: "tcp_socket_recv sid n t = (res, bs, t') \<Longrightarrow> length bs \<le> n"
proof -
  have l: "length (fst (recv_loop n s)) \<le> n" for s
    by (induction n s rule: recv_loop.induct) (simp_all add: prod.case_eq_if)
  assume "tcp_socket_recv sid n t = (res, bs, t')"
  then show ?thesis using l by (auto simp: tcp_socket_recv_def prod.case_eq_if split: if_splits)
qed

section \<open>Properties\<close>

text \<open>C3: No capability, no operation: a guarded call by the current task whose argument names no slot that is in range,
  holds an endpoint, is not stale and carries the right the call asks for returns an error and leaves the whole kernel
  state as it was.\<close>

theorem syscall_denied_without_capability:
  assumes "sched_current (sch (ipc k)) = Some cur" "required_right num = Some r"
    "let i = unat (ucast arg0 :: u32); slot = cap_tables k (cap_table (task_table (sch (ipc k)) ! cur)) ! i in
      \<not> (i < CAP_TABLE_SIZE \<and> ctype slot = CAP_TYPE_ENDPOINT \<and> \<not> slot_stale (ipc k) slot \<and> rights slot AND r = r)"
  shows "\<exists>e < 0. syscall_dispatch num arg0 arg1 arg2 arg3 k = Ret e k"
proof -
  have c: "\<not> has_cap cur arg0 r k" using assms(3) by (simp add: has_cap_iff task_caps_def Let_def)
  have cs: "\<exists>e < 0. ret_of (sys_cap_send cur arg0 arg1 k) = Ret e k" if "r = CAP_RIGHT_SEND"
    using ipc_denied [of cur arg0 k arg1] c that cap_err_code_pos by (force simp: sys_cap_send_def ret_of_def)
  have cr: "\<exists>e < 0. ret_of (sys_cap_recv cur arg0 arg1 k) = Ret e k" if "r = CAP_RIGHT_RECV"
    using ipc_denied_recv [of cur arg0 k arg1] c that cap_err_code_pos by (force simp: sys_cap_recv_def ret_of_def)
  have cur: "sched_get_current (sch (ipc k)) = Some cur" using assms(1) by (simp add: sched_get_current_def)
  consider "r = CAP_RIGHT_SEND" "num = SYS_WRITE \<or> num = SYS_CAP_SEND \<or> num = SYS_TOR_CELL \<or> num = SYS_SOCKET \<or> num = SYS_CONNECT \<or>
      num = SYS_SEND \<or> num = SYS_EMERGENCY_WIPE"
    | "r = CAP_RIGHT_RECV" "num = SYS_CAP_RECV \<or> num = SYS_READ_KEY \<or> num = SYS_RECV"
    using assms(2) unfolding required_right_def by (auto split: if_splits)
  then show ?thesis
  proof cases
    case 1
    have "sys_write cur arg0 arg1 arg2 k = (SYSRET_EACCESS, k)" "sys_tor_cell cur arg0 arg1 arg2 k = (SYSRET_EACCESS, k)"
        "sys_socket cur arg0 k = (SYSRET_EACCESS, k)" "sys_connect cur arg0 arg1 arg2 arg3 k = (SYSRET_EACCESS, k)"
        "sys_send cur arg0 arg1 arg2 arg3 k = (SYSRET_EACCESS, k)" "sys_emergency_wipe cur arg0 k = Ret SYSRET_EACCESS k"
      using c 1(1) by (simp_all add: sys_write_def sys_tor_cell_def sys_socket_def sys_connect_def sys_send_def sys_emergency_wipe_def)
    then show ?thesis using 1 cs by (elim disjE) (simp_all add: syscall_dispatch_def cur ret_of_def)
  next
    case 2
    have "sys_read_key cur arg0 k = (SYSRET_EACCESS, k)" "sys_recv cur arg0 arg1 arg2 arg3 k = (SYSRET_EACCESS, k)"
      using c 2(1) by (simp_all add: sys_read_key_def sys_recv_def)
    then show ?thesis using 2 cr by (elim disjE) (simp_all add: syscall_dispatch_def cur ret_of_def)
  qed
qed

text \<open>A receiver that waits does so with a buffer in the user half: the call has checked it.\<close>

definition user_waiters :: "'d kernel \<Rightarrow> bool" where
  "user_waiters k =
     ((\<forall>e < length (ep_pool (ipc k)). epstate (ep_pool (ipc k) ! e) = EP_STATE_RECV_WAITING \<longrightarrow>
         \<not> bad_range (pending_msg (ep_pool (ipc k) ! e)) SIZEOF_IPC_MSG) \<and>
      (\<forall>a. length (cap_tables k a) = CAP_TABLE_SIZE \<and>
         (\<forall>slot \<in> set (cap_tables k a). ctype slot = CAP_TYPE_ENDPOINT \<longrightarrow> object slot < length (ep_pool (ipc k)))))"

lemma user_waiters_pool: "ep_pool (ipc k') = ep_pool (ipc k) \<Longrightarrow> cap_tables k' = cap_tables k \<Longrightarrow> user_waiters k' = user_waiters k"
  by (simp add: user_waiters_def)

lemma bad_range_msg:
  assumes "\<not> bad_range a SIZEOF_IPC_MSG"
  shows "unat a + IPC_MSG_BYTES < 2 ^ 64" "unat a + IPC_MSG_BYTES \<le> unat USER_TOP"
proof -
  have a: "unat a < unat USER_TOP" using assms by (simp add: bad_range_def not_le word_less_nat_alt)
  then have "unat (a + 48) = unat a + 48" by (subst unat_plus_if_size) (simp add: word_size)
  then show "unat a + IPC_MSG_BYTES < 2 ^ 64" "unat a + IPC_MSG_BYTES \<le> unat USER_TOP"
    using assms a by (simp_all add: bad_range_def not_le word_less_nat_alt)
qed

lemma msg_copy_memory:
  "c \<noteq> cr3 (sch i) \<Longrightarrow> umem (msg_copy dst src i) (Some c) = umem i (Some c)"
  "\<not> bad_range dst SIZEOF_IPC_MSG \<Longrightarrow> umem (msg_copy dst src i) None = umem i None"
  using bad_range_msg [of dst] by (simp_all add: msg_copy_def store_bytes_other store_bytes_kernel)

text \<open>What the message calls do to the memory and to the waiting receivers.\<close>

lemma lookup_object:
  assumes "user_waiters k" "cap_lookup (ipc k) (task_caps cur k) j CAP_TYPE_ENDPOINT r = Inr slot"
  shows "object slot < length (ep_pool (ipc k))"
  using assms unfolding cap_lookup_Inr user_waiters_def task_caps_def by (metis nth_mem)

lemma ep_complete_pool_nth:
  "e < length (ep_pool i) \<Longrightarrow> d < length (ep_pool i) \<Longrightarrow>
     epstate (ep_pool (ep_complete e i) ! d) = (if d = e then EP_STATE_IDLE else epstate (ep_pool i ! d)) \<and>
     (d \<noteq> e \<longrightarrow> pending_msg (ep_pool (ep_complete e i) ! d) = pending_msg (ep_pool i ! d))"
  by (simp add: ep_complete_def Let_def ep_pool_upd_ep)

lemma ep_park_pool_nth:
  "e < length (ep_pool i) \<Longrightarrow> d < length (ep_pool i) \<Longrightarrow>
     epstate (ep_pool (ep_park e st m i) ! d) = (if d = e then st else epstate (ep_pool i ! d)) \<and>
     pending_msg (ep_pool (ep_park e st m i) ! d) = (if d = e then m else pending_msg (ep_pool i ! d))"
  by (simp add: ep_park_def Let_def ep_pool_upd_ep split: option.splits)

lemma sys_cap_send_memory:
  assumes "sys_cap_send cur arg0 arg1 k = (r, k')"
  shows "c \<noteq> cr3 (sch (ipc k)) \<Longrightarrow> mem k' (Some c) = mem k (Some c)"
    "user_waiters k \<Longrightarrow> mem k' None = mem k None \<and> user_waiters k'"
proof -
  obtain err i where i: "cap_send (ipc k) (task_caps cur k) (ucast arg0) arg1 = (err, i)" by force
  have k': "k' = k \<or> k' = k\<lparr>ipc := i\<rparr>" using assms i by (auto simp: sys_cap_send_def split: if_splits)
  show "mem k' (Some c) = mem k (Some c)" if "c \<noteq> cr3 (sch (ipc k))"
    using k' i msg_copy_memory(1) [OF that] by (auto simp: cap_send_def Let_def split: sum.splits ep_state.splits if_splits)
  assume w: "user_waiters k"
  show "mem k' None = mem k None \<and> user_waiters k'"
  proof (cases "cap_lookup (ipc k) (task_caps cur k) (ucast arg0) CAP_TYPE_ENDPOINT CAP_RIGHT_SEND")
    case (Inl e)
    then show ?thesis using k' i w by (auto simp: cap_send_def)
  next
    case (Inr slot)
    let ?e = "object slot" and ?i = "ipc k"
    have e: "?e < length (ep_pool ?i)" by (rule lookup_object [OF w Inr])
    show ?thesis
    proof (cases "epstate (ep_pool ?i ! ?e)")
      case EP_STATE_IDLE
      then have "i = ep_park ?e EP_STATE_SEND_WAITING arg1 ?i" using i Inr by (simp add: cap_send_def Let_def)
      then show ?thesis using k' w e ep_park_pool_nth [OF e] by (auto simp: user_waiters_def split: if_splits)
    next
      case EP_STATE_SEND_WAITING
      then show ?thesis using k' i Inr w by (auto simp: cap_send_def Let_def)
    next
      case EP_STATE_RECV_WAITING
      let ?p = "pending_msg (ep_pool ?i ! ?e)"
      have p: "\<not> bad_range ?p SIZEOF_IPC_MSG" using w e EP_STATE_RECV_WAITING by (simp add: user_waiters_def)
      define j where "j = (if ?p \<noteq> 0 then msg_copy ?p arg1 ?i else ?i)"
      have j: "i = ep_complete ?e j" using i Inr EP_STATE_RECV_WAITING by (simp add: cap_send_def Let_def j_def)
      have jp: "ep_pool j = ep_pool ?i" "umem j None = umem ?i None" using msg_copy_memory(2) [OF p] by (simp_all add: j_def)
      have "user_waiters (k\<lparr>ipc := i\<rparr>)"
        using w e ep_complete_pool_nth [of ?e j] unfolding user_waiters_def j by (auto simp: jp split: if_splits)
      then show ?thesis using k' w jp(2) j by auto
    qed
  qed
qed

lemma sys_cap_recv_memory:
  assumes "sys_cap_recv cur arg0 arg1 k = (r, k')"
  shows "c \<noteq> cr3 (sch (ipc k)) \<Longrightarrow> mem k' (Some c) = mem k (Some c)"
    "user_waiters k \<Longrightarrow> mem k' None = mem k None \<and> user_waiters k'"
proof -
  obtain err i where i: "cap_recv (ipc k) (task_caps cur k) (ucast arg0) arg1 = (err, i)" by force
  have k': "k' = k \<or> k' = k\<lparr>ipc := i\<rparr> \<and> \<not> bad_range arg1 SIZEOF_IPC_MSG"
    using assms i by (auto simp: sys_cap_recv_def split: if_splits)
  show "mem k' (Some c) = mem k (Some c)" if "c \<noteq> cr3 (sch (ipc k))"
    using k' i msg_copy_memory(1) [OF that] by (auto simp: cap_recv_def Let_def split: sum.splits ep_state.splits if_splits)
  assume w: "user_waiters k"
  show "mem k' None = mem k None \<and> user_waiters k'"
  proof (cases "cap_lookup (ipc k) (task_caps cur k) (ucast arg0) CAP_TYPE_ENDPOINT CAP_RIGHT_RECV")
    case (Inl e)
    then show ?thesis using k' i w by (auto simp: cap_recv_def)
  next
    case (Inr slot)
    let ?e = "object slot" and ?i = "ipc k"
    have e: "?e < length (ep_pool ?i)" by (rule lookup_object [OF w Inr])
    show ?thesis
    proof (cases "epstate (ep_pool ?i ! ?e)")
      case EP_STATE_IDLE
      then have "i = ep_park ?e EP_STATE_RECV_WAITING arg1 ?i" using i Inr by (simp add: cap_recv_def Let_def)
      then show ?thesis using k' w e ep_park_pool_nth [OF e] by (auto simp: user_waiters_def split: if_splits)
    next
      case EP_STATE_RECV_WAITING
      then show ?thesis using k' i Inr w by (auto simp: cap_recv_def Let_def)
    next
      case EP_STATE_SEND_WAITING
      let ?p = "pending_msg (ep_pool ?i ! ?e)"
      define j where "j = (if ?p \<noteq> 0 then msg_copy arg1 ?p ?i else ?i)"
      have j: "i = ep_complete ?e j" using i Inr EP_STATE_SEND_WAITING by (simp add: cap_recv_def Let_def j_def)
      have jp: "ep_pool j = ep_pool ?i" by (simp add: j_def)
      have m: "umem j None = umem ?i None" if "\<not> bad_range arg1 SIZEOF_IPC_MSG" using msg_copy_memory(2) [OF that] by (simp add: j_def)
      have "user_waiters (k\<lparr>ipc := i\<rparr>)"
        using w e ep_complete_pool_nth [of ?e j] unfolding user_waiters_def j by (auto simp: jp split: if_splits)
      then show ?thesis using k' w m j by auto
    qed
  qed
qed

text \<open>The other calls leave endpoints and capability tables alone, and most of them the memory.\<close>

definition same_memory :: "'d kernel \<Rightarrow> 'd kernel \<Rightarrow> bool" where
  "same_memory k k' = (ep_pool (ipc k') = ep_pool (ipc k) \<and> cap_tables k' = cap_tables k \<and> mem k' = mem k)"

lemma write_loop_tables: "cap_tables (write_loop n a k) = cap_tables k"
  by (induction n a k rule: write_loop.induct) (simp_all add: Let_def)

lemma quiet_calls:
  "same_memory k (snd (sys_write cur arg0 arg1 arg2 k))" "same_memory k (snd (sys_exit cur k))" "same_memory k (snd (sys_read_key cur arg0 k))"
  "same_memory k (snd (sys_tor_cell cur arg0 arg1 arg2 k))" "same_memory k (snd (sys_socket cur arg0 k))"
  "same_memory k (snd (sys_connect cur arg0 arg1 arg2 arg3 k))" "same_memory k (snd (sys_send cur arg0 arg1 arg2 arg3 k))"
  "same_memory k (set_sched s k)" "same_memory k k"
  by (simp_all add: same_memory_def sys_write_def sys_exit_def sys_read_key_def sys_tor_cell_def sys_socket_def sys_connect_def sys_send_def
      set_sched_def write_loop_mem write_loop_tables prod.case_eq_if Let_def)

lemma quiet_wipe: "sys_emergency_wipe cur arg0 k = Ret res k' \<Longrightarrow> same_memory k k'"
  by (auto simp: sys_emergency_wipe_def Let_def same_memory_def split: if_splits)

text \<open>The calls that store a result in user memory.\<close>

definition own_memory :: "'d kernel \<Rightarrow> 'd kernel \<Rightarrow> bool" where
  "own_memory k k' =
     (ep_pool (ipc k') = ep_pool (ipc k) \<and> cap_tables k' = cap_tables k \<and>
      (\<forall>c. c \<noteq> cr3 (sch (ipc k)) \<longrightarrow> mem k' (Some c) = mem k (Some c)))"

lemma storing_calls:
  "own_memory k (snd (sys_sysinfo arg0 k))" "own_memory k (snd (sys_recv cur arg0 arg1 arg2 arg3 k))"
  "own_memory k (snd (sys_pqc_kem arg0 arg1 arg2 k))"
  by (simp_all add: own_memory_def sys_sysinfo_def sys_recv_def sys_pqc_kem_def Let_def prod.case_eq_if put_bytes_def store_bytes_other)

lemma sys_recv_kernel:
  assumes "unat arg2 + unat arg3 < 2 ^ 64"
  shows "mem (snd (sys_recv cur arg0 arg1 arg2 arg3 k)) None = mem k None"
proof -
  obtain r bs t where e: "tcp_socket_recv (c_int arg1) (unat arg3) ((tcp k)\<lparr>net := knet k\<rparr>) = (r, bs, t)"
    by (cases "tcp_socket_recv (c_int arg1) (unat arg3) ((tcp k)\<lparr>net := knet k\<rparr>)")
  have l: "length bs \<le> unat arg3" by (rule recv_length [OF e])
  have "unat (arg2 + arg3) = unat arg2 + unat arg3" using assms by (subst unat_plus_if_size) (simp add: word_size)
  then have "\<not> bad_range arg2 arg3 \<Longrightarrow> unat arg2 + unat arg3 \<le> unat USER_TOP"
    by (simp add: bad_range_def not_le word_less_nat_alt)
  then show ?thesis using e l assms by (auto simp: sys_recv_def put_bytes_kernel)
qed

text \<open>C11: A system call that returns writes user memory only through the page tables of the task that makes it: no byte of another
  address space changes.  Five calls write memory at all: the two message calls, which copy the message, and the three that store a
  result.  As long as every waiting receiver waits with a buffer in the user half, which every call preserves, the kernel half is written
  by none of them but the system information and the key encapsulation call, which check only their first address, and a receive whose
  buffer wraps around the address space.\<close>

theorem syscall_memory_isolation:
  assumes "syscall_dispatch num arg0 arg1 arg2 arg3 k = Ret res k'"
  shows "(c \<noteq> cr3 (sch (ipc k)) \<longrightarrow> mem k' (Some c) = mem k (Some c)) \<and>
    (num \<notin> {SYS_CAP_SEND, SYS_CAP_RECV, SYS_SYSINFO, SYS_RECV, SYS_PQC_KEM} \<longrightarrow> mem k' = mem k) \<and>
    (user_waiters k \<longrightarrow> user_waiters k' \<and>
      (num \<notin> {SYS_SYSINFO, SYS_PQC_KEM} \<and> (num = SYS_RECV \<longrightarrow> unat arg2 + unat arg3 < 2 ^ 64) \<longrightarrow> mem k' None = mem k None))"
proof (cases "sched_get_current (sch (ipc k))")
  case None
  then show ?thesis using assms by (simp add: syscall_dispatch_def)
next
  case (Some cur)
  have 5: "same_memory k k'" if "num \<notin> {SYS_CAP_SEND, SYS_CAP_RECV, SYS_SYSINFO, SYS_RECV, SYS_PQC_KEM}"
    using assms that unfolding syscall_dispatch_def Some option.case
    by (auto simp: quiet_calls ret_of_def dest: quiet_wipe split: if_splits)
  have "num = SYS_CAP_SEND \<Longrightarrow> k' = snd (sys_cap_send cur arg0 arg1 k)" "num = SYS_CAP_RECV \<Longrightarrow> k' = snd (sys_cap_recv cur arg0 arg1 k)"
    "num = SYS_SYSINFO \<Longrightarrow> k' = snd (sys_sysinfo arg0 k)" "num = SYS_PQC_KEM \<Longrightarrow> k' = snd (sys_pqc_kem arg0 arg1 arg2 k)"
    "num = SYS_RECV \<Longrightarrow> k' = snd (sys_recv cur arg0 arg1 arg2 arg3 k)"
    using assms unfolding syscall_dispatch_def Some option.case by (simp_all add: ret_of_def)
  then consider "num = SYS_CAP_SEND" "k' = snd (sys_cap_send cur arg0 arg1 k)" | "num = SYS_CAP_RECV" "k' = snd (sys_cap_recv cur arg0 arg1 k)"
    | "num \<in> {SYS_SYSINFO, SYS_PQC_KEM}" "k' = snd (sys_sysinfo arg0 k) \<or> k' = snd (sys_pqc_kem arg0 arg1 arg2 k)"
    | "num = SYS_RECV" "k' = snd (sys_recv cur arg0 arg1 arg2 arg3 k)"
    | "num \<notin> {SYS_CAP_SEND, SYS_CAP_RECV, SYS_SYSINFO, SYS_RECV, SYS_PQC_KEM}" "same_memory k k'"
    using 5 by blast
  then show ?thesis
  proof cases
    case 1
    show ?thesis using sys_cap_send_memory [of cur arg0 arg1 k "fst (sys_cap_send cur arg0 arg1 k)" k'] 1 by simp
  next
    case 2
    show ?thesis using sys_cap_recv_memory [of cur arg0 arg1 k "fst (sys_cap_recv cur arg0 arg1 k)" k'] 2 by simp
  next
    case 3
    then have "own_memory k k'" using storing_calls by blast
    then show ?thesis using 3(1) user_waiters_pool [of k' k] by (auto simp: own_memory_def)
  next
    case 4
    then have "own_memory k k'" using storing_calls by blast
    then show ?thesis using 4 user_waiters_pool [of k' k] sys_recv_kernel by (auto simp: own_memory_def)
  next
    case 5
    then show ?thesis using user_waiters_pool [of k' k] by (auto simp: same_memory_def)
  qed
qed

text \<open>C35: The exit call does not end the task: while another task in the queue is READY, the switch that the call makes
  sets the task READY again, and it will be scheduled.\<close>

theorem exit_is_undone:
  assumes "sched_inv (sch (ipc k))" "sched_current (sch (ipc k)) = Some cur"
    "q < queue_count (sch (ipc k))" "q \<noteq> current_idx (sch (ipc k))" "queue_ready (sch (ipc k)) q"
  shows "\<exists>k'. syscall_dispatch SYS_EXIT arg0 arg1 arg2 arg3 k = Ret SYSRET_OK k' \<and> tstate (task_table (sch (ipc k')) ! cur) = READY"
  using sched_yield_stopped [OF assms(1,2), of DEAD] assms
  by (auto simp: syscall_dispatch_def sched_get_current_def sys_exit_def ret_of_def set_sched_def)

text \<open>Not every call is guarded, although the interface says so: the system information call asks for no capability,
  and it checks only the first address of its 16-byte result.  Called with the last user address it stores the second
  byte of the free memory count outside the user half.\<close>

theorem sysinfo_unguarded:
  assumes "sched_current (sch (ipc k)) = Some cur"
  shows "\<exists>k'. syscall_dispatch SYS_SYSINFO (USER_TOP - 1) arg1 arg2 arg3 k = Ret SYSRET_OK k' \<and>
    mem k' None USER_TOP = ucast (drop_bit 8 (word_of_nat (pmm_get_free_memory (phys k)) :: u64))"
proof -
  have e: "mem (put_bytes (USER_TOP - 1) (b0 # b1 # bs) k) None USER_TOP = b1" if "length bs = 14" for b0 b1 bs
  proof -
    have "load_bytes (store_bytes (USER_TOP - 1) (b0 # b1 # bs) (ipc k)) (USER_TOP - 1) (length (b0 # b1 # bs)) ! 1 = b1"
      using that by (subst load_store_bytes) simp_all
    then show ?thesis using that by (simp add: put_bytes_def load_bytes_def load_byte_def addr_space_def del: upt_Suc)
  qed
  have l: "le_bytes 8 w = ucast w # ucast (drop_bit 8 w) # map (\<lambda>i. ucast (drop_bit (8 * i) w)) [2, 3, 4, 5, 6, 7]" for w :: u64
    by (simp add: le_bytes_def upt_rec)
  show ?thesis
    using assms by (simp add: syscall_dispatch_def sched_get_current_def sys_sysinfo_def ret_of_def l e [simplified])
qed

section \<open>Witnesses\<close>

definition wkernel :: "ramdisk kernel" where
  "wkernel = \<lparr>ipc = wipc, cap_tables = (\<lambda>_. wtab), kbd = wkeys, con = wshell, serial_out = [], tcp = wtcp, tor = wtor,
     store = wstorage, knet = wnet, phys = wpmm, kpolls = (\<lambda>_. 1)\<rparr>"

theorem syscall_denied_without_capability_witness: "\<exists>e < 0. syscall_dispatch SYS_EMERGENCY_WIPE 2 0 0 0 wkernel = Ret e wkernel"
proof -
  have "\<not> (ctype null_slot = CAP_TYPE_ENDPOINT)" by (simp add: null_slot_def)
  then show ?thesis
    using syscall_denied_without_capability [of wkernel 0 SYS_EMERGENCY_WIPE CAP_RIGHT_SEND 2 0 0 0]
    by (simp add: wkernel_def wsched_fields required_right_def)
qed

theorem syscall_memory_isolation_witness:
  "\<exists>k'. syscall_dispatch SYS_SYSINFO 4096 0 0 0 wkernel = Ret 0 k' \<and> mem k' (Some 5) = mem wkernel (Some 5)"
proof -
  have "sched_get_current (sch (ipc wkernel)) = Some 0" "5 \<noteq> cr3 (sch (ipc wkernel))"
    by (simp_all add: wkernel_def sched_get_current_def wsched_def)
  then show ?thesis
    using syscall_memory_isolation [of SYS_SYSINFO 4096 0 0 0 wkernel 0 _ 5]
    by (simp add: syscall_dispatch_def ret_of_def sys_sysinfo_def)
qed

theorem exit_is_undone_witness:
  "\<exists>k'. syscall_dispatch SYS_EXIT 0 0 0 0 wkernel = Ret SYSRET_OK k' \<and> tstate (task_table (sch (ipc k')) ! 0) = READY"
  using exit_is_undone [of wkernel 0 1 0 0 0 0] wsched_inv wsched_fields by (simp add: wkernel_def)

theorem sysinfo_unguarded_witness:
  "\<exists>k'. syscall_dispatch SYS_SYSINFO (USER_TOP - 1) 0 0 0 wkernel = Ret SYSRET_OK k' \<and> mem k' None USER_TOP = 0x70"
  using sysinfo_unguarded [of wkernel 0 0 0 0] by (simp add: wkernel_def wsched_fields pmm_get_free_memory_def wpmm_def drop_bit_eq_div)

end
