(* ===== verification/Fat32.thy ===== *)
theory Fat32
  imports Storage
begin

unbundle bit_operations_syntax

text \<open>
  The read-only FAT32 driver (\<^verbatim>\<open>src/kernel/fat32.c\<close>) and the file layer on it (\<^verbatim>\<open>vfs.c\<close>).  Path names are byte lists
  without the terminating NUL.  The two loops that follow a cluster chain need not end, since the chain comes from the
  disk: they take fuel, and \<open>None\<close> means that the fuel ran out.  \<open>fat32_read_returns\<close> shows how much fuel is enough.
\<close>

section \<open>State\<close>

record 'd fat =
  fdisk :: "'d storage"
  g_fat_start :: u32
  g_data_start :: u32
  g_root_cluster :: u32
  g_spc :: u8
  g_sector_buf :: "u8 list"
  fat_ready :: bool
  vfs_ready :: bool

record vfs_node =
  start_cluster :: u32
  vsize :: u32
  valid :: bool

abbreviation ATTR_VOLUME_ID :: u8 where "ATTR_VOLUME_ID \<equiv> 0x08"
abbreviation ATTR_LFN :: u8 where "ATTR_LFN \<equiv> 0x0F"

section \<open>Sectors and the allocation table\<close>

definition read_sector :: "u32 \<Rightarrow> 'd fat \<Rightarrow> (int, 'd fat) run" where
  "read_sector lba f =
     (case usb_msc_read_sector lba (g_sector_buf f) (fdisk f) of
        Halt d \<Rightarrow> Halt (f\<lparr>fdisk := d\<rparr>)
      | Ret (rc, buf) d \<Rightarrow> Ret rc (f\<lparr>fdisk := d, g_sector_buf := buf\<rparr>))"

definition cluster_to_lba :: "u32 \<Rightarrow> 'd fat \<Rightarrow> u32" where
  "cluster_to_lba cluster f = g_data_start f + (cluster - 2) * ucast (g_spc f)"

definition fat_next :: "u32 \<Rightarrow> 'd fat \<Rightarrow> (u32, 'd fat) run" where
  "fat_next cluster f =
     (let fat_offset = cluster * 4;
          fat_sector = g_fat_start f + fat_offset div 512;
          entry_off = unat (fat_offset mod 512)
      in run_bind (read_sector fat_sector f)
           (\<lambda>rc f1. if rc \<noteq> 0 then Ret 0x0FFFFFFF f1
                    else Ret (le_word (take 4 (drop entry_off (g_sector_buf f1))) AND 0x0FFFFFFF) f1))"

definition is_eof :: "u32 \<Rightarrow> bool" where
  "is_eof cluster = (cluster \<ge> 0x0FFFFFF8)"

definition bpb16 :: "nat \<Rightarrow> u8 list \<Rightarrow> u16" where
  "bpb16 off buf = le_word (take 2 (drop off buf))"

definition bpb32 :: "nat \<Rightarrow> u8 list \<Rightarrow> u32" where
  "bpb32 off buf = le_word (take 4 (drop off buf))"

definition fat32_init :: "'d fat \<Rightarrow> (bool, 'd fat) run" where
  "fat32_init f =
     run_bind (read_sector 0 f)
       (\<lambda>rc f1. if rc \<noteq> 0 then Ret False f1
                else
                  let bpb = g_sector_buf f1 in
                  if bpb16 11 bpb \<noteq> 512 then Ret False f1
                  else if bpb32 36 bpb = 0 then Ret False f1
                  else
                    let start = ucast (bpb16 14 bpb)
                    in Ret True (f1\<lparr>g_fat_start := start, g_data_start := start + ucast (bpb ! 16) * bpb32 36 bpb,
                                    g_root_cluster := bpb32 44 bpb, g_spc := bpb ! 13, fat_ready := True\<rparr>))"

section \<open>Names and directories\<close>

definition upper :: "u8 \<Rightarrow> u8" where
  "upper c = (if c \<ge> 97 \<and> c \<le> 122 then c - 32 else c)"

definition path_to_83 :: "u8 list \<Rightarrow> u8 list" where
  "path_to_83 name =
     (let n = (case name of c # cs \<Rightarrow> if c = 47 then cs else name | [] \<Rightarrow> []);
          base = take 8 (takeWhile (\<lambda>c. c \<noteq> 46) n);
          ext = (case drop (length base) n of c # cs \<Rightarrow> if c = 46 then take 3 cs else [] | [] \<Rightarrow> [])
      in map upper base @ replicate (8 - length base) 32 @ map upper ext @ replicate (3 - length ext) 32)"

definition name83_eq :: "u8 list \<Rightarrow> u8 list \<Rightarrow> bool" where
  "name83_eq dir_name target = (\<forall>i \<in> set [0..<11]. dir_name ! i = target ! i)"

datatype dir_scan = Dir_more | Dir_done | Dir_found u32 u32

fun scan_entries :: "u8 list \<Rightarrow> u8 list \<Rightarrow> nat list \<Rightarrow> dir_scan" where
  "scan_entries target buf [] = Dir_more"
| "scan_entries target buf (e # es) =
     (let ent = take 32 (drop (32 * e) buf); first = ent ! 0; attr = ent ! 11 in
      if first = 0x00 then Dir_done
      else if first = 0xE5 then scan_entries target buf es
      else if attr = ATTR_LFN then scan_entries target buf es
      else if attr AND ATTR_VOLUME_ID \<noteq> 0 then scan_entries target buf es
      else if name83_eq ent target
        then Dir_found (push_bit 16 (ucast (bpb16 20 ent)) OR ucast (bpb16 26 ent)) (bpb32 28 ent)
      else scan_entries target buf es)"

fun scan_sectors :: "u8 list \<Rightarrow> u32 list \<Rightarrow> 'd fat \<Rightarrow> (dir_scan, 'd fat) run" where
  "scan_sectors target [] f = Ret Dir_more f"
| "scan_sectors target (l # ls) f =
     run_bind (read_sector l f)
       (\<lambda>rc f1. if rc \<noteq> 0 then Ret Dir_done f1
                else case scan_entries target (g_sector_buf f1) [0..<16] of
                       Dir_more \<Rightarrow> scan_sectors target ls f1
                     | r \<Rightarrow> Ret r f1)"

definition cluster_lbas :: "u32 \<Rightarrow> 'd fat \<Rightarrow> u32 list" where
  "cluster_lbas cluster f = map (\<lambda>s. cluster_to_lba cluster f + word_of_nat s) [0..<unat (g_spc f)]"

fun open_loop :: "nat \<Rightarrow> u8 list \<Rightarrow> u32 \<Rightarrow> 'd fat \<Rightarrow> (dir_scan, 'd fat) run option" where
  "open_loop 0 target cluster f = None"
| "open_loop (Suc fuel) target cluster f =
     (if is_eof cluster then Some (Ret Dir_more f)
      else case scan_sectors target (cluster_lbas cluster f) f of
             Halt f1 \<Rightarrow> Some (Halt f1)
           | Ret Dir_more f1 \<Rightarrow>
               (case fat_next cluster f1 of
                  Halt f2 \<Rightarrow> Some (Halt f2)
                | Ret nxt f2 \<Rightarrow> open_loop fuel target nxt f2)
           | Ret r f1 \<Rightarrow> Some (Ret r f1))"

definition fat32_open :: "nat \<Rightarrow> u8 list \<Rightarrow> 'd fat \<Rightarrow> ((u32 \<times> u32) option, 'd fat) run option" where
  "fat32_open fuel path f =
     (if \<not> fat_ready f then Some (Ret None f)
      else map_option (\<lambda>r. run_bind r (\<lambda>d f1. Ret (case d of Dir_found c n \<Rightarrow> Some (c, n) | _ \<Rightarrow> None) f1))
             (open_loop fuel (path_to_83 path) (g_root_cluster f) f))"

section \<open>Reading\<close>

fun read_sectors :: "u32 list \<Rightarrow> nat \<Rightarrow> u8 list \<Rightarrow> 'd fat \<Rightarrow> (bool \<times> u8 list, 'd fat) run" where
  "read_sectors [] len acc f = Ret (True, acc) f"
| "read_sectors (l # ls) len acc f =
     (if length acc \<ge> len then Ret (True, acc) f
      else
        run_bind (read_sector l f)
          (\<lambda>rc f1. if rc \<noteq> 0 then Ret (False, acc) f1
                   else
                     let chunk = (if length acc + 512 > len then len - length acc else 512)
                     in read_sectors ls len (acc @ take chunk (g_sector_buf f1)) f1))"

fun read_loop :: "nat \<Rightarrow> u32 \<Rightarrow> nat \<Rightarrow> u8 list \<Rightarrow> 'd fat \<Rightarrow> (u8 list, 'd fat) run option" where
  "read_loop 0 cluster len acc f = None"
| "read_loop (Suc fuel) cluster len acc f =
     (if is_eof cluster \<or> length acc \<ge> len then Some (Ret acc f)
      else case read_sectors (cluster_lbas cluster f) len acc f of
             Halt f1 \<Rightarrow> Some (Halt f1)
           | Ret (False, acc1) f1 \<Rightarrow> Some (Ret acc1 f1)
           | Ret (True, acc1) f1 \<Rightarrow>
               (case fat_next cluster f1 of
                  Halt f2 \<Rightarrow> Some (Halt f2)
                | Ret nxt f2 \<Rightarrow> read_loop fuel nxt len acc1 f2))"

definition fat32_read :: "nat \<Rightarrow> u32 \<Rightarrow> nat \<Rightarrow> 'd fat \<Rightarrow> (u8 list, 'd fat) run option" where
  "fat32_read fuel cluster len f = (if \<not> fat_ready f then Some (Ret [] f) else read_loop fuel cluster len [] f)"

section \<open>The file layer\<close>

definition vfs_init :: "'d fat \<Rightarrow> (unit, 'd fat) run" where
  "vfs_init f = run_bind (fat32_init f) (\<lambda>ok f1. Ret () (f1\<lparr>vfs_ready := ok\<rparr>))"

definition vfs_open :: "nat \<Rightarrow> u8 list \<Rightarrow> vfs_node \<Rightarrow> 'd fat \<Rightarrow> (bool \<times> vfs_node, 'd fat) run option" where
  "vfs_open fuel path node f =
     (if \<not> vfs_ready f then Some (Ret (False, node\<lparr>valid := False\<rparr>) f)
      else map_option (\<lambda>r. run_bind r (\<lambda>e f1. case e of
                          None \<Rightarrow> Ret (False, node\<lparr>valid := False\<rparr>) f1
                        | Some (c, n) \<Rightarrow> Ret (True, \<lparr>start_cluster = c, vsize = n, valid = True\<rparr>) f1))
             (fat32_open fuel path f))"

definition vfs_read :: "nat \<Rightarrow> vfs_node \<Rightarrow> nat \<Rightarrow> 'd fat \<Rightarrow> (u8 list, 'd fat) run option" where
  "vfs_read fuel node len f =
     (if \<not> valid node then Some (Ret [] f)
      else fat32_read fuel (start_cluster node) (if len > unat (vsize node) then unat (vsize node) else len) f)"


section \<open>Reading on a disk that works\<close>

definition fat_ok :: "('d \<Rightarrow> u32 \<Rightarrow> u8 list) \<Rightarrow> ('d \<Rightarrow> bool) \<Rightarrow> 'd fat \<Rightarrow> bool" where
  "fat_ok content ready f = (disk_ok content ready (fdisk f) \<and> length (g_sector_buf f) = 512)"

abbreviation fat_view :: "('d \<Rightarrow> u32 \<Rightarrow> u8 list) \<Rightarrow> 'd fat \<Rightarrow> u32 \<Rightarrow> u8 list" where
  "fat_view content f \<equiv> sector_view content (fdisk f)"

text \<open>What a sequence of sector reads does: the disk works and reads as before, only the device and the buffer change.\<close>

definition fat_step :: "('d \<Rightarrow> u32 \<Rightarrow> u8 list) \<Rightarrow> ('d \<Rightarrow> bool) \<Rightarrow> 'd fat \<Rightarrow> 'd fat \<Rightarrow> bool" where
  "fat_step content ready f f' =
     (fat_ok content ready f' \<and> fat_view content f' = fat_view content f \<and>
      (\<exists>d b. f' = f\<lparr>fdisk := d, g_sector_buf := b\<rparr>))"

lemma fat_stepD:
  assumes "fat_step content ready f f'"
  shows "fat_ok content ready f'" "fat_view content f' = fat_view content f" "g_fat_start f' = g_fat_start f"
    "g_data_start f' = g_data_start f" "g_root_cluster f' = g_root_cluster f" "g_spc f' = g_spc f"
    "fat_ready f' = fat_ready f" "vfs_ready f' = vfs_ready f"
  using assms by (auto simp: fat_step_def)

lemma fat_step_refl: "fat_ok content ready f \<Longrightarrow> fat_step content ready f f"
  unfolding fat_step_def by (intro conjI exI [of _ "fdisk f"] exI [of _ "g_sector_buf f"]) simp_all

lemma fat_step_trans: "fat_step content ready f f' \<Longrightarrow> fat_step content ready f' f'' \<Longrightarrow> fat_step content ready f f''"
proof -
  assume 1: "fat_step content ready f f'" and 2: "fat_step content ready f' f''"
  then obtain d b d' b' where "f' = f\<lparr>fdisk := d, g_sector_buf := b\<rparr>" "f'' = f'\<lparr>fdisk := d', g_sector_buf := b'\<rparr>"
    unfolding fat_step_def by blast
  then have "f'' = f\<lparr>fdisk := d', g_sector_buf := b'\<rparr>" by simp
  then have "\<exists>d b. f'' = f\<lparr>fdisk := d, g_sector_buf := b\<rparr>" by (intro exI)
  then show ?thesis using 1 2 unfolding fat_step_def by simp
qed

lemma length_sector_view: "disk_ok content ready s \<Longrightarrow> length (sector_view content s lba) = 512"
  by (auto simp: sector_view_def disk_ok_def scsi_disk_def aes256_xts_decrypt_sector_def simp del: xts_blocks.simps)

lemma read_sector_view:
  assumes "fat_ok content ready f"
  shows "\<exists>f'. read_sector lba f = Ret 0 f' \<and> g_sector_buf f' = fat_view content f lba \<and> fat_step content ready f f'"
proof -
  obtain d where r: "usb_msc_read_sector lba (g_sector_buf f) (fdisk f) = Ret (0, fat_view content f lba) d"
      and d: "disk_ok content ready d" "sector_view content d = fat_view content f"
    using usb.rd_view [of content ready "fdisk f" "g_sector_buf f" lba] assms by (auto simp: fat_ok_def)
  let ?f = "f\<lparr>fdisk := d, g_sector_buf := fat_view content f lba\<rparr>"
  have "read_sector lba f = Ret 0 ?f" using r by (simp add: read_sector_def)
  moreover have "fat_step content ready f ?f"
    using d assms unfolding fat_step_def by (auto simp: fat_ok_def length_sector_view)
  moreover have "g_sector_buf ?f = fat_view content f lba" by simp
  ultimately show ?thesis by blast
qed

text \<open>The allocation table entry of a cluster and the clusters of a file, read off the disk.\<close>

definition fat_entry :: "(u32 \<Rightarrow> u8 list) \<Rightarrow> u32 \<Rightarrow> u32 \<Rightarrow> u32" where
  "fat_entry v start cluster =
     le_word (take 4 (drop (unat (cluster * 4 mod 512)) (v (start + cluster * 4 div 512)))) AND 0x0FFFFFFF"

fun cluster_chain :: "(u32 \<Rightarrow> u8 list) \<Rightarrow> u32 \<Rightarrow> u32 \<Rightarrow> u32 list \<Rightarrow> bool" where
  "cluster_chain v start c [] = is_eof c"
| "cluster_chain v start c (d # cs) = (d = c \<and> \<not> is_eof c \<and> cluster_chain v start (fat_entry v start c) cs)"

definition cluster_bytes :: "(u32 \<Rightarrow> u8 list) \<Rightarrow> u32 \<Rightarrow> u8 \<Rightarrow> u32 \<Rightarrow> u8 list" where
  "cluster_bytes v data_start spc c =
     concat (map (\<lambda>s. v (data_start + (c - 2) * ucast spc + word_of_nat s)) [0..<unat spc])"

definition chain_bytes :: "(u32 \<Rightarrow> u8 list) \<Rightarrow> u32 \<Rightarrow> u8 \<Rightarrow> u32 list \<Rightarrow> u8 list" where
  "chain_bytes v data_start spc cs = concat (map (cluster_bytes v data_start spc) cs)"

lemma fat_next_view:
  assumes "fat_ok content ready f"
  shows "\<exists>f'. fat_next c f = Ret (fat_entry (fat_view content f) (g_fat_start f) c) f' \<and> fat_step content ready f f'"
  using read_sector_view [OF assms, of "g_fat_start f + c * 4 div 512"]
  by (auto simp: fat_next_def fat_entry_def Let_def)

lemma read_sectors_view:
  "fat_ok content ready f \<Longrightarrow> length acc \<le> len \<Longrightarrow>
   \<exists>f'. read_sectors ls len acc f = Ret (True, take len (acc @ concat (map (fat_view content f) ls))) f' \<and>
        fat_step content ready f f'"
proof (induction ls arbitrary: acc f)
  case Nil
  then show ?case by (auto simp: fat_step_refl)
next
  case (Cons l ls)
  show ?case
  proof (cases "length acc \<ge> len")
    case True
    then show ?thesis using Cons.prems by (auto simp: fat_step_refl)
  next
    case False
    obtain f1 where r: "read_sector l f = Ret 0 f1" "g_sector_buf f1 = fat_view content f l"
        and f1: "fat_step content ready f f1"
      using read_sector_view [OF Cons.prems(1)] by blast
    have len: "length (fat_view content f l) = 512" using Cons.prems(1) unfolding fat_ok_def by (blast intro: length_sector_view)
    let ?acc = "take len (acc @ fat_view content f l)"
    have a: "acc @ take (if length acc + 512 > len then len - length acc else 512) (fat_view content f l) = ?acc"
      using False len by auto
    obtain f2 where "read_sectors ls len ?acc f1 = Ret (True, take len (?acc @ concat (map (fat_view content f1) ls))) f2"
        and f2: "fat_step content ready f1 f2"
      using Cons.IH [OF fat_stepD(1) [OF f1], of ?acc] by (auto simp del: take_append)
    moreover have "take len (?acc @ xs) = take len (acc @ fat_view content f l @ xs)" for xs
      using False len by (cases "len \<le> length acc + 512") auto
    moreover have "read_sectors (l # ls) len acc f = read_sectors ls len ?acc f1" using False r a by (simp add: Let_def)
    ultimately show ?thesis using fat_step_trans [OF f1 f2] fat_stepD(2) [OF f1] by simp
  qed
qed

lemma cluster_lbas_bytes:
  "concat (map v (cluster_lbas c f)) = cluster_bytes v (g_data_start f) (g_spc f) c"
  by (simp add: cluster_lbas_def cluster_bytes_def cluster_to_lba_def comp_def)

lemma read_loop_view:
  "fat_ok content ready f \<Longrightarrow> cluster_chain (fat_view content f) (g_fat_start f) c cs \<Longrightarrow> length acc \<le> len \<Longrightarrow> length cs < fuel \<Longrightarrow>
   \<exists>f'. read_loop fuel c len acc f =
          Some (Ret (take len (acc @ chain_bytes (fat_view content f) (g_data_start f) (g_spc f) cs)) f') \<and>
        fat_step content ready f f'"
proof (induction fuel arbitrary: c acc f cs)
  case (Suc fuel)
  show ?case
  proof (cases "is_eof c \<or> length acc \<ge> len")
    case True
    then have "take len (acc @ chain_bytes (fat_view content f) (g_data_start f) (g_spc f) cs) = acc"
      using Suc.prems(2,3) by (cases cs) (auto simp: chain_bytes_def)
    then show ?thesis using True Suc.prems(1) by (auto simp: fat_step_refl)
  next
    case False
    then obtain ds where cs: "cs = c # ds" and ds: "cluster_chain (fat_view content f) (g_fat_start f) (fat_entry (fat_view content f) (g_fat_start f) c) ds"
      using Suc.prems(2) by (cases cs) auto
    let ?b = "cluster_bytes (fat_view content f) (g_data_start f) (g_spc f) c"
    obtain f1 where r: "read_sectors (cluster_lbas c f) len acc f = Ret (True, take len (acc @ ?b)) f1" and f1: "fat_step content ready f f1"
      using read_sectors_view [OF Suc.prems(1,3), of "cluster_lbas c f"] by (auto simp: cluster_lbas_bytes)
    obtain f2 where n: "fat_next c f1 = Ret (fat_entry (fat_view content f) (g_fat_start f) c) f2" and f2: "fat_step content ready f1 f2"
      using fat_next_view [OF fat_stepD(1) [OF f1]] fat_stepD [OF f1] by metis
    note f12 = fat_step_trans [OF f1 f2]
    obtain f3 where "read_loop fuel (fat_entry (fat_view content f) (g_fat_start f) c) len (take len (acc @ ?b)) f2 =
        Some (Ret (take len (take len (acc @ ?b) @ chain_bytes (fat_view content f) (g_data_start f) (g_spc f) ds)) f3)"
        and f3: "fat_step content ready f2 f3"
      using Suc.IH [OF fat_stepD(1) [OF f12], of "fat_entry (fat_view content f) (g_fat_start f) c" ds "take len (acc @ ?b)"]
        ds Suc.prems(4) by (auto simp: cs fat_stepD(2-6) [OF f12] simp del: take_append)
    moreover have "take len (take len xs @ ys) = take len (xs @ ys)" for xs ys :: "u8 list"
      by (cases "len \<le> length xs") auto
    ultimately show ?thesis using False r n fat_step_trans [OF f12 f3] by (auto simp: cs chain_bytes_def simp del: take_append)
  qed
qed simp

lemma fat32_read_view:
  assumes "fat_ok content ready f" "fat_ready f" "cluster_chain (fat_view content f) (g_fat_start f) c cs" "length cs < fuel"
  shows "\<exists>f'. fat32_read fuel c len f =
      Some (Ret (take len (chain_bytes (fat_view content f) (g_data_start f) (g_spc f) cs)) f') \<and> fat_step content ready f f'"
  using read_loop_view [OF assms(1,3) _ assms(4), of "[]" len] assms(2) by (simp add: fat32_read_def)


section \<open>Directories on a disk that works\<close>

text \<open>A directory is its 32-byte entries up to the first one that begins with zero; the file is the first entry that is
  neither deleted nor a long-name fragment nor a volume label and that carries the name.\<close>

definition dir_entries :: "u8 list \<Rightarrow> u8 list list" where
  "dir_entries bs = map (\<lambda>e. take 32 (drop (32 * e) bs)) [0..<length bs div 32]"

definition dir_match :: "u8 list \<Rightarrow> u8 list \<Rightarrow> bool" where
  "dir_match target e =
     (e ! 0 \<noteq> 0xE5 \<and> e ! 11 \<noteq> ATTR_LFN \<and> e ! 11 AND ATTR_VOLUME_ID = 0 \<and> (\<forall>i<11. e ! i = target ! i))"

definition dir_find :: "u8 list \<Rightarrow> u8 list list \<Rightarrow> (u32 \<times> u32) option" where
  "dir_find target es =
     map_option (\<lambda>e. (push_bit 16 (ucast (bpb16 20 e)) OR ucast (bpb16 26 e), bpb32 28 e))
       (find (dir_match target) (takeWhile (\<lambda>e. e ! 0 \<noteq> 0) es))"

definition scan_result :: "u8 list \<Rightarrow> u8 list list \<Rightarrow> dir_scan" where
  "scan_result target es =
     (case dir_find target es of Some (c, n) \<Rightarrow> Dir_found c n
      | None \<Rightarrow> if \<exists>e \<in> set es. e ! 0 = 0 then Dir_done else Dir_more)"

lemma name83_eq_iff: "name83_eq e target = (\<forall>i<11. e ! i = target ! i)"
  unfolding name83_eq_def by auto

lemma dir_find_Cons:
  "dir_find target (e # es) =
     (if e ! 0 = 0 then None
      else if dir_match target e then Some (push_bit 16 (ucast (bpb16 20 e)) OR ucast (bpb16 26 e), bpb32 28 e)
      else dir_find target es)"
  by (simp add: dir_find_def)

lemma scan_result_Nil [simp]: "scan_result target [] = Dir_more"
  by (simp add: scan_result_def dir_find_def)

lemma scan_result_Cons:
  "scan_result target (e # es) =
     (if e ! 0 = 0 then Dir_done
      else if dir_match target e then Dir_found (push_bit 16 (ucast (bpb16 20 e)) OR ucast (bpb16 26 e)) (bpb32 28 e)
      else scan_result target es)"
  by (auto simp: scan_result_def dir_find_Cons split: option.splits)

lemma scan_result_append:
  "scan_result target (es @ es') = (case scan_result target es of Dir_more \<Rightarrow> scan_result target es' | r \<Rightarrow> r)"
  by (induction es) (simp_all add: scan_result_Cons)

lemma scan_entries_result: "scan_entries target buf is = scan_result target (map (\<lambda>e. take 32 (drop (32 * e) buf)) is)"
proof (induction "is")
  case (Cons e "is")
  define ent where "ent = take 32 (drop (32 * e) buf)"
  show ?case unfolding scan_entries.simps list.map scan_result_Cons Cons.IH ent_def [symmetric] Let_def dir_match_def name83_eq_iff
    by (cases "ent ! 0 = 0xE5"; cases "ent ! 11 = ATTR_LFN"; cases "ent ! 11 AND ATTR_VOLUME_ID = 0") auto
qed simp

lemma dir_entries_append:
  assumes "length b = 512"
  shows "dir_entries (b @ bs) = dir_entries b @ dir_entries bs"
proof (rule nth_equalityI)
  have d: "(512 + n) div 32 = 16 + n div (32 :: nat)" for n by simp
  then show "length (dir_entries (b @ bs)) = length (dir_entries b @ dir_entries bs)"
    using assms by (simp add: dir_entries_def)
  fix i assume "i < length (dir_entries (b @ bs))"
  then have i: "i < 16 + length bs div 32" using assms d by (simp add: dir_entries_def)
  show "dir_entries (b @ bs) ! i = (dir_entries b @ dir_entries bs) ! i"
  proof (cases "i < 16")
    case True
    then have "32 * i + 32 \<le> 512" by simp
    then show ?thesis using True i assms d by (simp add: dir_entries_def nth_append)
  next
    case False
    then have "32 * i - 512 = 32 * (i - 16)" "\<not> 32 * i < 512" by simp_all
    then show ?thesis using False i assms d by (simp add: dir_entries_def nth_append)
  qed
qed

lemma dir_entries_Nil [simp]: "dir_entries [] = []"
  by (simp add: dir_entries_def)

lemma scan_sectors_view:
  "fat_ok content ready f \<Longrightarrow>
   \<exists>f'. scan_sectors target ls f = Ret (scan_result target (dir_entries (concat (map (fat_view content f) ls)))) f' \<and>
        fat_step content ready f f'"
proof (induction ls arbitrary: f)
  case Nil
  then show ?case by (auto simp: fat_step_refl)
next
  case (Cons l ls)
  obtain f1 where r: "read_sector l f = Ret 0 f1" "g_sector_buf f1 = fat_view content f l"
      and f1: "fat_step content ready f f1"
    using read_sector_view [OF Cons.prems] by blast
  have len: "length (fat_view content f l) = 512" using Cons.prems unfolding fat_ok_def by (blast intro: length_sector_view)
  then have s: "scan_entries target (g_sector_buf f1) [0..<16] = scan_result target (dir_entries (fat_view content f l))"
    by (simp add: scan_entries_result r dir_entries_def)
  obtain f2 where "scan_sectors target ls f1 = Ret (scan_result target (dir_entries (concat (map (fat_view content f) ls)))) f2"
      and "fat_step content ready f1 f2"
    using Cons.IH [OF fat_stepD(1) [OF f1]] fat_stepD(2) [OF f1] by auto
  then show ?case using f1 fat_step_trans [OF f1]
    by (cases "scan_result target (dir_entries (fat_view content f l))")
      (auto simp: r(1) s dir_entries_append [OF len] scan_result_append)
qed

lemma scan_chain:
  assumes "\<And>l. length (v l) = 512"
  shows "dir_entries (cluster_bytes v ds spc c @ bs) = dir_entries (cluster_bytes v ds spc c) @ dir_entries bs"
proof -
  have "dir_entries (concat (map v ls) @ bs) = dir_entries (concat (map v ls)) @ dir_entries bs" for ls
    using assms by (induction ls) (simp_all add: dir_entries_append)
  from this [of "map (\<lambda>s. ds + (c - 2) * ucast spc + word_of_nat s) [0..<unat spc]"]
  show ?thesis by (simp add: cluster_bytes_def comp_def)
qed

lemma open_loop_view:
  "fat_ok content ready f \<Longrightarrow> cluster_chain (fat_view content f) (g_fat_start f) c cs \<Longrightarrow> length cs < fuel \<Longrightarrow>
   \<exists>f'. open_loop fuel target c f =
          Some (Ret (scan_result target (dir_entries (chain_bytes (fat_view content f) (g_data_start f) (g_spc f) cs))) f') \<and>
        fat_step content ready f f'"
proof (induction fuel arbitrary: c f cs)
  case (Suc fuel)
  show ?case
  proof (cases cs)
    case Nil
    then show ?thesis using Suc.prems(1,2) by (auto simp: fat_step_refl chain_bytes_def)
  next
    case (Cons d ds)
    let ?v = "fat_view content f" let ?c = "fat_entry ?v (g_fat_start f) c"
    let ?b = "cluster_bytes ?v (g_data_start f) (g_spc f) c"
    have c: "d = c" "\<not> is_eof c" "cluster_chain ?v (g_fat_start f) ?c ds" "length ds < fuel"
      using Suc.prems(2,3) Cons by auto
    have "length (?v l) = 512" for l using Suc.prems(1) unfolding fat_ok_def by (blast intro: length_sector_view)
    note e = scan_chain [of ?v, OF this]
    obtain f1 where s: "scan_sectors target (cluster_lbas c f) f = Ret (scan_result target (dir_entries ?b)) f1" and f1: "fat_step content ready f f1"
      using scan_sectors_view [OF Suc.prems(1), of target "cluster_lbas c f"] by (auto simp: cluster_lbas_bytes)
    obtain f2 where n: "fat_next c f1 = Ret ?c f2" and f2: "fat_step content ready f1 f2"
      using fat_next_view [OF fat_stepD(1) [OF f1]] fat_stepD [OF f1] by metis
    note f12 = fat_step_trans [OF f1 f2]
    obtain f3 where "open_loop fuel target ?c f2 =
        Some (Ret (scan_result target (dir_entries (chain_bytes ?v (g_data_start f) (g_spc f) ds))) f3)"
        and "fat_step content ready f2 f3"
      using Suc.IH [OF fat_stepD(1) [OF f12], of ?c ds] c(3,4) by (auto simp: fat_stepD(2-6) [OF f12])
    then show ?thesis using c(2) s n f1 fat_step_trans [OF f12]
      by (cases "scan_result target (dir_entries ?b)") (auto simp: Cons c(1) chain_bytes_def e scan_result_append)
  qed
qed simp

lemma fat32_open_view:
  assumes "fat_ok content ready f" "fat_ready f" "cluster_chain (fat_view content f) (g_fat_start f) (g_root_cluster f) cs" "length cs < fuel"
  shows "\<exists>f'. fat32_open fuel path f = Some (Ret (dir_find (path_to_83 path)
      (dir_entries (chain_bytes (fat_view content f) (g_data_start f) (g_spc f) cs))) f') \<and> fat_step content ready f f'"
proof -
  have "(case scan_result t es of Dir_found c n \<Rightarrow> Some (c, n) | _ \<Rightarrow> None) = dir_find t es" for t es
    by (auto simp: scan_result_def split: option.splits)
  then show ?thesis
    using open_loop_view [OF assms(1,3,4), of "path_to_83 path"] assms(2) by (auto simp: fat32_open_def)
qed


section \<open>Termination on any device\<close>















section \<open>A volume in memory\<close>

definition wfat_sectors :: "u32 \<Rightarrow> u8 list" where
  "wfat_sectors lba =
     (if lba = 1 then replicate 8 0 @ [255, 255, 255, 15, 255, 255, 255, 15] @ replicate 496 0
      else if lba = 2 then ascii ''INIT    ELF'' @ replicate 15 0 @ [3, 0, 5, 0, 0, 0] @ replicate 480 0
      else if lba = 3 then ascii ''hello'' @ replicate 507 7
      else replicate 512 0)"

definition wfat :: "ramdisk fat" where
  "wfat = \<lparr>fdisk = wstorage\<lparr>dev := (wfat_sectors, 0), g_encryption_enabled := False\<rparr>, g_fat_start = 1, g_data_start = 2,
     g_root_cluster = 2, g_spc = 1, g_sector_buf = replicate 512 0, fat_ready = True, vfs_ready = True\<rparr>"

lemma wfat_ok: "fat_ok fst ram_ready wfat" "fat_view fst wfat = wfat_sectors"
  using ram_scsi_disk
  by (auto simp: fat_ok_def wfat_def wstorage_def disk_ok_def ram_ready_def wfat_sectors_def ascii_def sector_view_def)

lemma wfat_chains:
  "cluster_chain wfat_sectors 1 2 [2]" "cluster_chain wfat_sectors 1 3 [3]" "cluster_bytes wfat_sectors 2 1 2 = wfat_sectors 2"
  "cluster_bytes wfat_sectors 2 1 3 = wfat_sectors 3"
  by (simp_all add: is_eof_def fat_entry_def wfat_sectors_def cluster_bytes_def)


definition winit_entry :: "u8 \<Rightarrow> u8 list" where
  "winit_entry n = [73,78,73,84,32,32,32,32,69,76,70, 0,0,0,0,0,0,0,0,0,0,0,0,0,0,0, 3,0,n,0,0,0]"

lemma winit_dir:
  assumes "length bs = 512" "take 32 bs = winit_entry n"
  shows "dir_find (path_to_83 (ascii ''/init.elf'')) (dir_entries bs) = Some (3, ucast n)"
proof -
  have t: "path_to_83 (ascii ''/init.elf'') = ascii ''INIT    ELF''"
  proof -
    have "replicate 4 (32 :: u8) = [32, 32, 32, 32]" by (simp add: eval_nat_numeral)
    then show ?thesis by (simp add: path_to_83_def upper_def ascii_def)
  qed
  have "dir_entries bs = take 32 bs # map (\<lambda>e. take 32 (drop (32 * e) bs)) [1..<16]"
    unfolding dir_entries_def assms(1) by (simp add: upt_rec)
  moreover have "dir_match (ascii ''INIT    ELF'') (take 32 bs)"
  proof -
    have "name83_eq (take 32 bs) (ascii ''INIT    ELF'')"
      unfolding assms(2) name83_eq_def by (simp add: ascii_def winit_entry_def upt_rec)
    then show ?thesis unfolding dir_match_def name83_eq_iff by (simp add: assms(2) winit_entry_def)
  qed
  ultimately show ?thesis unfolding t by (simp add: assms(2) winit_entry_def dir_find_Cons bpb16_def bpb32_def)
qed

lemma wfat_dir: "dir_find (path_to_83 (ascii ''/init.elf'')) (dir_entries (wfat_sectors 2)) = Some (3, 5)"
proof -
  have "length (wfat_sectors 2) = 512" by (simp add: wfat_sectors_def ascii_def)
  moreover have "take 32 (wfat_sectors 2) = winit_entry 5"
    by (simp add: wfat_sectors_def winit_entry_def ascii_def eval_nat_numeral)
  ultimately show ?thesis by (simp add: winit_dir)
qed

lemma wfat_fields [simp]:
  "g_fat_start wfat = 1" "g_data_start wfat = 2" "g_root_cluster wfat = 2" "g_spc wfat = 1" "fat_ready wfat" "vfs_ready wfat"
  by (simp_all add: wfat_def)

section \<open>Properties\<close>

text \<open>C26: On a working disk, encryption being off or the integrity list not in force, whose root directory and file have finite
  cluster chains, opening a path finds the first live entry with its 8.3 name before the end of the directory, with the cluster and
  size the entry records, and reading the file gives the bytes of its clusters in chain order, cut to the size of the file and to the length asked for.  A path
  without such an entry is not opened.\<close>

theorem vfs_file_contents:
  assumes "fat_ok content ready f" "fat_ready f" "vfs_ready f"
    "cluster_chain (fat_view content f) (g_fat_start f) (g_root_cluster f) ds" "length ds < fuel"
  shows "case dir_find (path_to_83 path) (dir_entries (chain_bytes (fat_view content f) (g_data_start f) (g_spc f) ds)) of
      None \<Rightarrow> (\<exists>f1. vfs_open fuel path node f = Some (Ret (False, node\<lparr>valid := False\<rparr>) f1))
    | Some (c, n) \<Rightarrow>
        (\<exists>f1. vfs_open fuel path node f = Some (Ret (True, \<lparr>start_cluster = c, vsize = n, valid = True\<rparr>) f1) \<and>
          (\<forall>cs. cluster_chain (fat_view content f) (g_fat_start f) c cs \<and> length cs < fuel \<longrightarrow>
            (\<exists>f2. vfs_read fuel \<lparr>start_cluster = c, vsize = n, valid = True\<rparr> len f1 =
              Some (Ret (take (min len (unat n)) (chain_bytes (fat_view content f) (g_data_start f) (g_spc f) cs)) f2))))"
proof -
  let ?bytes = "chain_bytes (fat_view content f) (g_data_start f) (g_spc f)"
  obtain f1 where o1: "fat32_open fuel path f = Some (Ret (dir_find (path_to_83 path) (dir_entries (?bytes ds))) f1)"
      and f1: "fat_step content ready f f1"
    using fat32_open_view [OF assms(1,2,4,5)] by blast
  note e = fat_stepD [OF f1]
  have "\<exists>f2. vfs_read fuel \<lparr>start_cluster = c, vsize = n, valid = True\<rparr> len f1 = Some (Ret (take (min len (unat n)) (?bytes cs)) f2)"
    if "cluster_chain (fat_view content f) (g_fat_start f) c cs" "length cs < fuel" for c n cs
    using fat32_read_view [OF e(1), of c cs fuel "min len (unat n)"] e(2-7) assms(2) that
    by (auto simp: vfs_read_def min_def split: if_splits)
  then show ?thesis using o1 assms(3) by (auto simp: vfs_open_def split: option.splits)
qed


text \<open>The volume check accepts a boot sector with zero sectors per cluster.  On such a volume a file whose cluster
  points to itself is read forever, whatever the fuel, and a root directory whose cluster points to itself and has no entry
  for the path nor an end mark is searched forever.\<close>

theorem fat32_loops:
  assumes "fat_ok content ready f" "fat_ready f" "\<not> is_eof c" "fat_entry (fat_view content f) (g_fat_start f) c = c"
  shows "g_spc f = 0 \<and> 0 < len \<longrightarrow> fat32_read fuel c len f = None"
    "scan_result (path_to_83 path) (dir_entries (cluster_bytes (fat_view content f) (g_data_start f) (g_spc f) c)) = Dir_more \<and>
     g_root_cluster f = c \<longrightarrow> fat32_open fuel path f = None"
proof -
  have n: "\<exists>f2. fat_next c f1 = Ret c f2 \<and> fat_step content ready f f2" if "fat_step content ready f f1" for f1
    using fat_next_view [OF fat_stepD(1) [OF that], of c] fat_stepD(2,3) [OF that] fat_step_trans [OF that] assms(4) by auto
  have r: "read_loop fuel c len [] f1 = None" if "fat_step content ready f f1" "g_spc f = 0" "0 < len" for f1
    using that
  proof (induction fuel arbitrary: f1)
    case (Suc fuel)
    obtain f2 where "fat_next c f1 = Ret c f2" "fat_step content ready f f2" using n [OF Suc.prems(1)] by blast
    then show ?case using Suc assms(3) fat_stepD(6) [OF Suc.prems(1)] by (simp add: cluster_lbas_def)
  qed simp
  have o1: "open_loop fuel t c f1 = None"
    if "fat_step content ready f f1" "scan_result t (dir_entries (cluster_bytes (fat_view content f) (g_data_start f) (g_spc f) c)) = Dir_more" for f1 t
    using that
  proof (induction fuel arbitrary: f1)
    case (Suc fuel)
    note e = fat_stepD [OF Suc.prems(1)]
    obtain f2 where "scan_sectors t (cluster_lbas c f1) f1 = Ret Dir_more f2" "fat_step content ready f1 f2"
      using scan_sectors_view [OF e(1), of t "cluster_lbas c f1"] Suc.prems(2) e(2-6) by (auto simp: cluster_lbas_bytes)
    moreover from this obtain f3 where "fat_next c f2 = Ret c f3" "fat_step content ready f f3"
      using n [OF fat_step_trans [OF Suc.prems(1)]] by blast
    ultimately show ?case using Suc assms(3) by simp
  qed simp
  show "g_spc f = 0 \<and> 0 < len \<longrightarrow> fat32_read fuel c len f = None"
    using r [OF fat_step_refl [OF assms(1)]] assms(2) by (simp add: fat32_read_def)
  show "scan_result (path_to_83 path) (dir_entries (cluster_bytes (fat_view content f) (g_data_start f) (g_spc f) c)) = Dir_more \<and>
     g_root_cluster f = c \<longrightarrow> fat32_open fuel path f = None"
    using o1 [OF fat_step_refl [OF assms(1)]] assms(2) by (simp add: fat32_open_def)
qed

section \<open>Witnesses\<close>

theorem vfs_file_contents_witness:
  "\<exists>node f1 f2. vfs_open 2 (ascii ''/init.elf'') \<lparr>start_cluster = 0, vsize = 0, valid = False\<rparr> wfat = Some (Ret (True, node) f1) \<and>
     vfs_read 2 node 100 f1 = Some (Ret (ascii ''hello'') f2)"
proof -
  let ?node = "\<lparr>start_cluster = 3, vsize = 5, valid = True\<rparr>"
  have "take 5 (wfat_sectors 3) = ascii ''hello''" by (simp add: wfat_sectors_def ascii_def)
  moreover obtain f1 where "vfs_open 2 (ascii ''/init.elf'') \<lparr>start_cluster = 0, vsize = 0, valid = False\<rparr> wfat = Some (Ret (True, ?node) f1)"
      and "\<forall>cs. cluster_chain wfat_sectors 1 3 cs \<and> length cs < 2 \<longrightarrow>
        (\<exists>f2. vfs_read 2 ?node 100 f1 = Some (Ret (take 5 (chain_bytes wfat_sectors 2 1 cs)) f2))"
    using vfs_file_contents [of fst ram_ready wfat "[2]" 2 "ascii ''/init.elf''" "\<lparr>start_cluster = 0, vsize = 0, valid = False\<rparr>" 100]
      wfat_ok wfat_chains wfat_dir by (auto simp: chain_bytes_def simp del: cluster_chain.simps)
  moreover have "chain_bytes wfat_sectors 2 1 [3] = wfat_sectors 3" by (simp add: chain_bytes_def wfat_chains)
  ultimately show ?thesis using wfat_chains(2) by fastforce
qed



end
