(* ===== verification/Elf.thy ===== *)
theory Elf
  imports Heap Fat32
begin

unbundle bit_operations_syntax

text \<open>
  Program loading: the binary manifest (\<^verbatim>\<open>src/kernel/manifest.c\<close>) and the ELF loader (\<^verbatim>\<open>elf.c\<close>).  The program is a byte
  memory \<open>rd\<close>, indexed from \<^verbatim>\<open>elf_data\<close> as the pointer arithmetic of the code does, with the size the caller claims; nothing
  stops the code from reading past that size.  \<open>frames\<close> holds the bytes of the physical frames that the loader fills
  through the direct map; the frames that hold page tables are in the page-table memory of theory \<open>Vmm\<close>.  A call that
  ends in the halt loop of the page-table code has the value \<open>None\<close>.
\<close>

section \<open>The manifest\<close>

definition g_trusted_manifest :: "(u8 list \<times> u8 list) list" where
  "g_trusted_manifest =
     [(ascii ''init'', [0x7F, 0x45, 0x4C, 0x46]), (ascii ''tor_daemon'', [0x7F, 0x45, 0x4C, 0x46]),
      (ascii ''shell'', [0x7F, 0x45, 0x4C, 0x46])]"

text \<open>The digest is computed and printed, and no branch depends on it or on the table's prefixes.\<close>

fun manifest_lookup :: "u8 list option \<Rightarrow> (u8 list \<times> u8 list) list \<Rightarrow> bool" where
  "manifest_lookup name [] = True"
| "manifest_lookup name ((n, prefix) # es) = (if name = Some n then True else manifest_lookup name es)"

definition manifest_verify_elf :: "u8 list option \<Rightarrow> u8 list option \<Rightarrow> bool" where
  "manifest_verify_elf name data =
     (case data of
        None \<Rightarrow> False
      | Some d \<Rightarrow>
          if length d < 64 then False
          else if name = Some (ascii ''untrusted'') \<or> name = Some (ascii ''malware'') \<or> name = Some (ascii ''bad_init'') then False
          else manifest_lookup name g_trusted_manifest)"

section \<open>Headers\<close>

record elf64_header =
  e_ident :: "u8 list"
  e_type :: u16
  e_machine :: u16
  e_version :: u32
  e_entry :: u64
  e_phoff :: u64
  e_shoff :: u64
  e_flags :: u32
  e_ehsize :: u16
  e_phentsize :: u16
  e_phnum :: u16
  e_shentsize :: u16
  e_shnum :: u16
  e_shstrndx :: u16

record elf64_phdr =
  p_type :: u32
  p_flags :: u32
  p_offset :: u64
  p_vaddr :: u64
  p_paddr :: u64
  p_filesz :: u64
  p_memsz :: u64
  p_align :: u64

abbreviation ELF_MAGIC :: u32 where "ELF_MAGIC \<equiv> 0x464C457F"
abbreviation PT_LOAD :: u32 where "PT_LOAD \<equiv> 1"
abbreviation EHDR_SIZE :: nat where "EHDR_SIZE \<equiv> 64"
abbreviation PHDR_SIZE :: u64 where "PHDR_SIZE \<equiv> 56"

definition bytes_at :: "(u64 \<Rightarrow> u8) \<Rightarrow> u64 \<Rightarrow> nat \<Rightarrow> u8 list" where
  "bytes_at rd a n = map (\<lambda>i. rd (a + word_of_nat i)) [0..<n]"

definition elf_header :: "(u64 \<Rightarrow> u8) \<Rightarrow> elf64_header" where
  "elf_header rd =
     \<lparr>e_ident = bytes_at rd 0 16, e_type = le_word (bytes_at rd 16 2), e_machine = le_word (bytes_at rd 18 2),
      e_version = le_word (bytes_at rd 20 4), e_entry = le_word (bytes_at rd 24 8), e_phoff = le_word (bytes_at rd 32 8),
      e_shoff = le_word (bytes_at rd 40 8), e_flags = le_word (bytes_at rd 48 4), e_ehsize = le_word (bytes_at rd 52 2),
      e_phentsize = le_word (bytes_at rd 54 2), e_phnum = le_word (bytes_at rd 56 2), e_shentsize = le_word (bytes_at rd 58 2),
      e_shnum = le_word (bytes_at rd 60 2), e_shstrndx = le_word (bytes_at rd 62 2)\<rparr>"

definition elf_phdr :: "(u64 \<Rightarrow> u8) \<Rightarrow> u64 \<Rightarrow> elf64_phdr" where
  "elf_phdr rd a =
     \<lparr>p_type = le_word (bytes_at rd a 4), p_flags = le_word (bytes_at rd (a + 4) 4), p_offset = le_word (bytes_at rd (a + 8) 8),
      p_vaddr = le_word (bytes_at rd (a + 16) 8), p_paddr = le_word (bytes_at rd (a + 24) 8),
      p_filesz = le_word (bytes_at rd (a + 32) 8), p_memsz = le_word (bytes_at rd (a + 40) 8),
      p_align = le_word (bytes_at rd (a + 48) 8)\<rparr>"

definition elf_phdrs :: "(u64 \<Rightarrow> u8) \<Rightarrow> elf64_phdr list" where
  "elf_phdrs rd =
     map (\<lambda>i. elf_phdr rd (e_phoff (elf_header rd) + word_of_nat i * PHDR_SIZE)) [0..<unat (e_phnum (elf_header rd))]"

section \<open>Loading\<close>

record space =
  svm :: vmm_state
  frames :: "u64 \<Rightarrow> u8 list"

text \<open>The contents of one page: zero, with the file bytes where the segment overlaps it.\<close>

definition page_byte :: "(u64 \<Rightarrow> u8) \<Rightarrow> elf64_phdr \<Rightarrow> u64 \<Rightarrow> u8" where
  "page_byte rd ph byte_vaddr =
     (if byte_vaddr \<ge> p_vaddr ph \<and> byte_vaddr < p_vaddr ph + p_filesz ph
      then rd (p_offset ph + (byte_vaddr - p_vaddr ph)) else 0)"

definition page_bytes :: "(u64 \<Rightarrow> u8) \<Rightarrow> elf64_phdr \<Rightarrow> u64 \<Rightarrow> u8 list" where
  "page_bytes rd ph cur_vaddr = map (\<lambda>j. page_byte rd ph (cur_vaddr + word_of_nat j)) [0..<4096]"

definition segment_pages :: "elf64_phdr \<Rightarrow> u64 list" where
  "segment_pages ph =
     (let start_page = p_vaddr ph AND NOT 0xFFF; end_page = (p_vaddr ph + p_memsz ph + 4095) AND NOT 0xFFF
      in if start_page < end_page
         then map (\<lambda>i. start_page + word_of_nat (i * PAGE_SIZE)) [0..<unat (end_page - start_page) div PAGE_SIZE] else [])"

fun load_pages :: "(u64 \<Rightarrow> u8) \<Rightarrow> elf64_phdr \<Rightarrow> u64 list \<Rightarrow> space \<Rightarrow> (int \<times> space) option" where
  "load_pages rd ph [] s = Some (0, s)"
| "load_pages rd ph (cur_vaddr # vs) s =
     (let (phys, pm) = pmm_alloc_frame (pmm (svm s)); s1 = s\<lparr>svm := (svm s)\<lparr>pmm := pm\<rparr>\<rparr> in
      if phys = 0 then Some (- 6, s1)
      else
        let s2 = s1\<lparr>frames := (frames s1)(word_of_nat phys := page_bytes rd ph cur_vaddr)\<rparr> in
        case vmm_map_page cur_vaddr (word_of_nat phys) (PTE_PRESENT OR PTE_WRITABLE OR PTE_USER) (svm s2) of
          None \<Rightarrow> None
        | Some v \<Rightarrow> load_pages rd ph vs (s2\<lparr>svm := v\<rparr>))"

fun load_segments :: "(u64 \<Rightarrow> u8) \<Rightarrow> u64 \<Rightarrow> elf64_phdr list \<Rightarrow> space \<Rightarrow> (int \<times> space) option" where
  "load_segments rd sz [] s = Some (0, s)"
| "load_segments rd sz (ph # phs) s =
     (if p_type ph \<noteq> PT_LOAD then load_segments rd sz phs s
      else if p_offset ph + p_filesz ph > sz then Some (- 5, s)
      else
        case load_pages rd ph (segment_pages ph) s of
          None \<Rightarrow> None
        | Some (rc, s1) \<Rightarrow> if rc \<noteq> 0 then Some (rc, s1) else load_segments rd sz phs s1)"

definition set_space_pml4 :: "u64 \<Rightarrow> space \<Rightarrow> space" where
  "set_space_pml4 p s = s\<lparr>svm := vmm_set_pml4 p (svm s)\<rparr>"

definition elf_load :: "u64 \<Rightarrow> (u64 \<Rightarrow> u8) \<Rightarrow> u64 \<Rightarrow> space \<Rightarrow> (int \<times> space) option" where
  "elf_load task_pml4 rd sz s =
     (if \<not> manifest_verify_elf (Some (ascii ''init'')) (Some (bytes_at rd 0 (unat sz))) then Some (- 6, s)
      else if unat sz < EHDR_SIZE then Some (- 1, s)
      else
        let header = elf_header rd in
        if (le_word (take 4 (e_ident header)) :: u32) \<noteq> ELF_MAGIC then Some (- 2, s)
        else if e_ident header ! 4 \<noteq> 2 then Some (- 3, s)
        else if e_machine header \<noteq> 62 then Some (- 4, s)
        else
          let old_pml4 = vmm_get_pml4 (svm s) in
          case load_segments rd sz (elf_phdrs rd) (set_space_pml4 task_pml4 s) of
            None \<Rightarrow> None
          | Some (rc, s1) \<Rightarrow> Some (rc, set_space_pml4 old_pml4 s1))"

section \<open>Loading from the file system\<close>

record 'd loader =
  lheap :: heap_state
  lframes :: "u64 \<Rightarrow> u8 list"
  lfat :: "'d fat"

definition heap_write :: "nat \<Rightarrow> u8 list \<Rightarrow> heap_state \<Rightarrow> heap_state" where
  "heap_write p bs h = h\<lparr>hbytes := (\<lambda>a. if p \<le> a \<and> a < p + length bs then bs ! (a - p) else hbytes h a)\<rparr>"

definition heap_rd :: "nat \<Rightarrow> heap_state \<Rightarrow> u64 \<Rightarrow> u8" where
  "heap_rd p h off = hbytes h (unat (word_of_nat p + off :: u64))"

definition loader_free :: "nat \<Rightarrow> int \<Rightarrow> u64 option \<Rightarrow> 'd loader \<Rightarrow> (int \<times> u64 option, 'd loader) run option" where
  "loader_free p rc entry_out s =
     (case kfree p (lheap s) of None \<Rightarrow> None | Some (_, h) \<Rightarrow> Some (Ret (rc, entry_out) (s\<lparr>lheap := h\<rparr>)))"

definition load_buffer :: "u64 \<Rightarrow> nat \<Rightarrow> nat \<Rightarrow> 'd loader \<Rightarrow> (int \<times> u64 option, 'd loader) run option" where
  "load_buffer task_pml4 p got s =
     (let rd = heap_rd p (lheap s) in
      case elf_load task_pml4 rd (word_of_nat got) \<lparr>svm = hvmm (lheap s), frames = lframes s\<rparr> of
        None \<Rightarrow> None
      | Some (rc, sp) \<Rightarrow>
          loader_free p rc (if rc = 0 then Some (e_entry (elf_header rd)) else None)
            (s\<lparr>lheap := (lheap s)\<lparr>hvmm := svm sp\<rparr>, lframes := frames sp\<rparr>))"

definition elf_load_from_vfs :: "nat \<Rightarrow> u64 \<Rightarrow> u8 list \<Rightarrow> vfs_node \<Rightarrow> 'd loader \<Rightarrow> (int \<times> u64 option, 'd loader) run option" where
  "elf_load_from_vfs fuel task_pml4 path node s =
     (case vfs_open fuel path node (lfat s) of
        None \<Rightarrow> None
      | Some (Halt f) \<Rightarrow> Some (Halt (s\<lparr>lfat := f\<rparr>))
      | Some (Ret (found, node1) f) \<Rightarrow>
          if \<not> found then Some (Ret (- 1, None) (s\<lparr>lfat := f\<rparr>))
          else
            (case kmalloc (unat (vsize node1)) (lheap s) of
               None \<Rightarrow> None
             | Some (p, h) \<Rightarrow>
                 if p = 0 then Some (Ret (- 2, None) (s\<lparr>lfat := f, lheap := h\<rparr>))
                 else
                   (case vfs_read fuel node1 (unat (vsize node1)) f of
                      None \<Rightarrow> None
                    | Some (Halt f1) \<Rightarrow> Some (Halt (s\<lparr>lfat := f1, lheap := h\<rparr>))
                    | Some (Ret bs f1) \<Rightarrow>
                        let s1 = s\<lparr>lfat := f1, lheap := heap_write p bs h\<rparr> in
                        if length bs < EHDR_SIZE then loader_free p (- 3) None s1
                        else load_buffer task_pml4 p (length bs) s1)))"


section \<open>The address space the loader builds\<close>

lemma vmm_wf_pmm_shrink:
  assumes wf: "vmm_wf s" and a: "pmm_alloc_frame (pmm s) = (n, pm)"
  shows "vmm_wf (s\<lparr>pmm := pm\<rparr>)" "tab (s\<lparr>pmm := pm\<rparr>) q = tab s q" "avail_addrs pm = avail_addrs (pmm s) - {n}"
proof -
  note inv = vmm_wf_base(1)[OF wf]
  have pm: "pmm_inv pm" "avail_addrs pm = avail_addrs (pmm s) - {n}"
    using pmm.alloc_ok[OF inv] pmm.avail_alloc_all[OF inv] a by simp_all
  have tf: "total_frames pm = total_frames (pmm s)"
    using a by (auto simp: pmm_alloc_frame_def Let_def split: option.splits)
  have tb: "tab (s\<lparr>pmm := pm\<rparr>) q = tab s q" for q by (induction q) (auto simp: pml4_phys_def split: option.splits)
  then show "tab (s\<lparr>pmm := pm\<rparr>) q = tab s q" .
  show "avail_addrs pm = avail_addrs (pmm s) - {n}" by (rule pm)
  show "vmm_wf (s\<lparr>pmm := pm\<rparr>)"
  proof (rule vmm_wfI)
    show "unat t \<notin> avail_addrs (pmm (s\<lparr>pmm := pm\<rparr>))" if "length p \<le> 3" "tab (s\<lparr>pmm := pm\<rparr>) p = Some t" for p t
      using vmm_wf_tables[OF wf that(1), of t] that(2) pm(2) tb by simp
    show "p = q" if "length p \<le> 3" "length q \<le> 3" "tab (s\<lparr>pmm := pm\<rparr>) p = Some t" "tab (s\<lparr>pmm := pm\<rparr>) q = Some t" for p q t
      using vmm_wf_inj[OF wf that(1,2), of t] that(3,4) tb by simp
    show "\<not> bit (ptm (s\<lparr>pmm := pm\<rparr>) t i) 7"
      if "length p = 1 \<or> length p = 2" "tab (s\<lparr>pmm := pm\<rparr>) p = Some t" "bit (ptm (s\<lparr>pmm := pm\<rparr>) t i) 0" for p t i
      using vmm_wf_small[OF wf that(1), of t i] that(2,3) tb by simp
  qed (use pm(1) tf vmm_wf_base[OF wf] in simp_all)
qed

lemma vmm_next_table_avail:
  assumes "vmm_wf s" "vmm_next_table flags t i s = Some (u, s')"
  shows "avail_addrs (pmm s') \<subseteq> avail_addrs (pmm s)"
proof -
  have "avail_addrs (snd (pmm_alloc_frame (pmm s))) \<subseteq> avail_addrs (pmm s)"
    using pmm.avail_alloc_all[OF vmm_wf_base(1)[OF assms(1)]] by auto
  then show ?thesis
    using assms(2) by (auto simp: vmm_next_table_def Let_def zero_table_def prod.case_eq_if split: if_splits)
qed

lemma vmm_map_page_avail:
  assumes wf: "vmm_wf s" and m: "vmm_map_page v ph fl s = Some s'"
  shows "avail_addrs (pmm s') \<subseteq> avail_addrs (pmm s)"
proof -
  obtain t3 s1 t2 s2 t1 s3 where
    n3: "vmm_next_table fl (pml4_phys s) (PML4_INDEX v) s = Some (t3, s1)" and
    n2: "vmm_next_table fl t3 (PDPT_INDEX v) s1 = Some (t2, s2)" and
    n1: "vmm_next_table fl t2 (PD_INDEX v) s2 = Some (t1, s3)" and
    s': "s' = set_entry t1 (PT_INDEX v) ((ph AND PTE_ADDR_MASK) OR fl) s3"
    using m vmm_wf_base(3)[OF wf] by (auto simp: vmm_map_page_def split: option.splits)
  note A = vmm_next_table_ok[OF wf _ _ n3, of "[]"]
  note B = vmm_next_table_ok[OF A(1) A(2) _ n2]
  show ?thesis
    using vmm_next_table_avail[OF wf n3] vmm_next_table_avail[OF A(1) n2] vmm_next_table_avail[OF B(1) n1] by (auto simp: s')
qed

text \<open>The user half of the address space is below entry 256 of the root table.  The kernel half maps all physical memory, so
  only of the user half can one say that no frame an address maps to is available for allocation.\<close>

abbreviation user_half :: "u64 \<Rightarrow> bool" where
  "user_half v \<equiv> PML4_INDEX v < 256"

definition space_ok :: "space \<Rightarrow> bool" where
  "space_ok s =
     (vmm_wf (svm s) \<and> (\<forall>v f. user_half v \<and> tab (svm s) (vpath v) = Some f \<longrightarrow> unat f \<notin> avail_addrs (pmm (svm s))))"

definition page_at :: "space \<Rightarrow> u64 \<Rightarrow> u8 list option" where
  "page_at s v = (if user_half v then map_option (frames s) (tab (svm s) (vpath v)) else None)"

definition put_page :: "u64 \<Rightarrow> u8 list \<Rightarrow> (u64 \<Rightarrow> u8 list option) \<Rightarrow> u64 \<Rightarrow> u8 list option" where
  "put_page p b m v = (if user_half v \<and> vpath v = vpath p then Some b else m v)"

lemma load_flags:
  assumes "n mod PAGE_SIZE = 0" "n < 2 ^ 52"
  defines "e \<equiv> (word_of_nat n AND PTE_ADDR_MASK) OR (PTE_PRESENT OR PTE_WRITABLE OR PTE_USER) :: u64"
  shows "bit e 0" "e AND PTE_ADDR_MASK = word_of_nat n"
proof -
  note fb = bit_frame_addr[OF assms(1,2)]
  have m: "word_of_nat n AND PTE_ADDR_MASK = (word_of_nat n :: u64)"
    by (rule bit_word_eqI, unfold bit_and_iff bit_addr_mask) (use fb in auto)
  have e: "e = word_of_nat n OR (PTE_PRESENT OR PTE_WRITABLE OR (PTE_USER AND PTE_USER))"
    unfolding e_def m by (simp only: and.idem)
  show "bit e 0" "e AND PTE_ADDR_MASK = word_of_nat n"
    using frame_entry[OF assms(1,2), of PTE_USER] unfolding e by blast+
qed

text \<open>One page: a fresh frame with the bytes of the page, mapped at its address; every other page is as it was.\<close>

lemma load_page_step:
  fixes b :: "u8 list"
  assumes ok: "space_ok s" and a: "pmm_alloc_frame (pmm (svm s)) = (n, pm)" "n \<noteq> 0"
    and m: "vmm_map_page v (word_of_nat n) (PTE_PRESENT OR PTE_WRITABLE OR PTE_USER) ((svm s)\<lparr>pmm := pm\<rparr>) = Some vm"
  defines "s' \<equiv> s\<lparr>frames := (frames s)(word_of_nat n := b), svm := vm\<rparr>"
  shows "space_ok s'" "page_at s' = put_page v b (page_at s)" "avail_addrs (pmm vm) \<subseteq> avail_addrs (pmm (svm s)) - {n}"
    "current_pml4 vm = current_pml4 (svm s)" "hhdm_off vm = hhdm_off (svm s)"
proof -
  have wf: "vmm_wf (svm s)" using ok by (simp add: space_ok_def)
  note sh = vmm_wf_pmm_shrink[OF wf a(1)]
  note T = vmm_map_page_tab[OF sh(1) m]
  show av: "avail_addrs (pmm vm) \<subseteq> avail_addrs (pmm (svm s)) - {n}"
    using vmm_map_page_avail[OF sh(1) m] sh(3) by simp
  show "current_pml4 vm = current_pml4 (svm s)" "hhdm_off vm = hhdm_off (svm s)" using T(3,4) by simp_all
  have n: "n \<in> avail_addrs (pmm (svm s))"
    using pmm.alloc_fresh[OF vmm_wf_base(1)[OF wf]] pmm.alloc_null_iff[OF vmm_wf_base(1)[OF wf]] a by auto
  note nb = avail_addr_bounds[OF wf n]
  have fl: "tab vm (vpath v) = Some (word_of_nat n)" using T(5) load_flags[OF nb(1,2)] by simp
  have other: "tab vm (vpath w) = tab (svm s) (vpath w)" if "vpath w \<noteq> vpath v" for w using T(6)[OF that] sh(2) by simp
  have old: "unat f \<noteq> n \<and> f \<noteq> word_of_nat n" if "user_half w" "tab (svm s) (vpath w) = Some f" for w f
    using ok that n nb(3) unfolding space_ok_def by metis
  have t: "unat f \<notin> avail_addrs (pmm vm)" if "user_half w" "tab vm (vpath w) = Some f" for w f
  proof (cases "vpath w = vpath v")
    case True
    then show ?thesis using that fl nb(3) av by auto
  next
    case False
    then show ?thesis using that other[OF False] ok av unfolding space_ok_def by auto
  qed
  then show "space_ok s'" using T(1) by (auto simp: space_ok_def s'_def)
  show "page_at s' = put_page v b (page_at s)"
  proof
    fix w
    show "page_at s' w = put_page v b (page_at s) w"
    proof (cases "vpath w = vpath v")
      case True
      then show ?thesis using fl by (simp add: page_at_def put_page_def s'_def)
    next
      case False
      then show ?thesis using other[OF False] old by (cases "tab (svm s) (vpath w)") (auto simp: page_at_def put_page_def s'_def)
    qed
  qed
qed


text \<open>The pages of a program in the order they are loaded.\<close>

definition segment_image :: "(u64 \<Rightarrow> u8) \<Rightarrow> elf64_phdr \<Rightarrow> (u64 \<times> u8 list) list" where
  "segment_image rd ph = map (\<lambda>v. (v, page_bytes rd ph v)) (segment_pages ph)"

lemma length_segment_image: "length (segment_image rd ph) = length (segment_pages ph)"
  by (simp add: segment_image_def)

definition elf_image :: "(u64 \<Rightarrow> u8) \<Rightarrow> (u64 \<times> u8 list) list" where
  "elf_image rd = concat (map (segment_image rd) (filter (\<lambda>ph. p_type ph = PT_LOAD) (elf_phdrs rd)))"

definition put_pages :: "(u64 \<times> u8 list) list \<Rightarrow> (u64 \<Rightarrow> u8 list option) \<Rightarrow> u64 \<Rightarrow> u8 list option" where
  "put_pages ps = fold (\<lambda>(p, b). put_page p b) ps"

lemma put_pages_simps [simp]:
  "put_pages [] m = m" "put_pages ((p, b) # ps) m = put_pages ps (put_page p b m)"
  "put_pages (ps @ qs) m = put_pages qs (put_pages ps m)"
  by (simp_all add: put_pages_def)

definition loaded :: "int \<Rightarrow> (u64 \<times> u8 list) list \<Rightarrow> space \<Rightarrow> space \<Rightarrow> bool" where
  "loaded rc ps s s' =
     (space_ok s' \<and> current_pml4 (svm s') = current_pml4 (svm s) \<and> hhdm_off (svm s') = hhdm_off (svm s) \<and>
      avail_addrs (pmm (svm s')) \<subseteq> avail_addrs (pmm (svm s)) \<and>
      (rc = 0 \<longrightarrow> page_at s' = put_pages ps (page_at s)))"

lemma loaded_trans: "loaded 0 ps s s1 \<Longrightarrow> loaded rc qs s1 s2 \<Longrightarrow> loaded rc (ps @ qs) s s2"
  by (auto simp: loaded_def)

lemma load_pages_loaded:
  "space_ok s \<Longrightarrow> load_pages rd ph vs s = Some (rc, s') \<Longrightarrow>
   loaded rc (map (\<lambda>v. (v, page_bytes rd ph v)) vs) s s' \<and> (rc = 0 \<or> rc = - 6)"
proof (induction vs arbitrary: s)
  case Nil
  then show ?case by (simp add: loaded_def)
next
  case (Cons v vs)
  obtain n pm where a: "pmm_alloc_frame (pmm (svm s)) = (n, pm)" by force
  have wf: "vmm_wf (svm s)" using Cons.prems(1) by (simp add: space_ok_def)
  show ?case
  proof (cases "n = 0")
    case True
    then have r: "rc = - 6" "s' = s\<lparr>svm := (svm s)\<lparr>pmm := pm\<rparr>\<rparr>" using Cons.prems(2) a by simp_all
    have "space_ok s'" using Cons.prems(1) vmm_wf_pmm_shrink[OF wf a] by (auto simp: r(2) space_ok_def)
    then show ?thesis using vmm_wf_pmm_shrink(3)[OF wf a] by (auto simp: r loaded_def)
  next
    case False
    then obtain vm where m: "vmm_map_page v (word_of_nat n) (PTE_PRESENT OR PTE_WRITABLE OR PTE_USER) ((svm s)\<lparr>pmm := pm\<rparr>) = Some vm"
        and l: "load_pages rd ph vs (s\<lparr>frames := (frames s)(word_of_nat n := page_bytes rd ph v), svm := vm\<rparr>) = Some (rc, s')"
      using Cons.prems(2) a by (auto simp: Let_def split: option.splits)
    note st = load_page_step(1,2)[OF Cons.prems(1) a False m, where b = "page_bytes rd ph v"] load_page_step(3-5)[OF Cons.prems(1) a False m]
    have "loaded 0 [(v, page_bytes rd ph v)] s (s\<lparr>frames := (frames s)(word_of_nat n := page_bytes rd ph v), svm := vm\<rparr>)"
      using st by (auto simp: loaded_def)
    then show ?thesis using Cons.IH[OF st(1) l] loaded_trans by fastforce
  qed
qed

lemma load_segments_loaded:
  "space_ok s \<Longrightarrow> load_segments rd sz phs s = Some (rc, s') \<Longrightarrow>
   loaded rc (concat (map (segment_image rd) (filter (\<lambda>ph. p_type ph = PT_LOAD) phs))) s s'"
proof (induction phs arbitrary: s)
  case Nil
  then show ?case by (simp add: loaded_def)
next
  case (Cons ph phs)
  show ?case
  proof (cases "p_type ph \<noteq> PT_LOAD \<or> p_offset ph + p_filesz ph > sz")
    case True
    then show ?thesis using Cons by (auto simp: loaded_def split: if_splits)
  next
    case False
    then obtain rc1 s1 where l: "load_pages rd ph (segment_pages ph) s = Some (rc1, s1)"
      using Cons.prems(2) by (auto split: option.splits)
    note st = load_pages_loaded[OF Cons.prems(1) l]
    show ?thesis
    proof (cases "rc1 = 0")
      case True
      then have "load_segments rd sz phs s1 = Some (rc, s')" using Cons.prems(2) False l by simp
      moreover have "loaded 0 (segment_image rd ph) s s1" "space_ok s1" using st True by (simp_all add: loaded_def segment_image_def)
      ultimately show ?thesis using loaded_trans[OF _ Cons.IH[of s1]] False by simp
    next
      case nz: False
      then show ?thesis using Cons.prems(2) False l st by (auto simp: loaded_def)
    qed
  qed
qed

text \<open>A space seen through the page table of the task.\<close>

abbreviation task_space :: "u64 \<Rightarrow> space \<Rightarrow> space" where
  "task_space \<equiv> set_space_pml4"

lemma task_space_twice [simp]: "task_space p (task_space q s) = task_space p s"
  by (simp add: set_space_pml4_def vmm_set_pml4_def)

lemma task_space_current: "current_pml4 (svm s) = p \<Longrightarrow> task_space p s = s"
  by (simp add: set_space_pml4_def vmm_set_pml4_def)

lemma elf_load_loaded:
  assumes "space_ok (task_space pml4 s)" "elf_load pml4 rd sz s = Some (0, s')"
  shows "loaded 0 (elf_image rd) (task_space pml4 s) (task_space pml4 s')" "current_pml4 (svm s') = current_pml4 (svm s)"
proof -
  obtain s1 where l: "load_segments rd sz (elf_phdrs rd) (task_space pml4 s) = Some (0, s1)"
      and s': "s' = task_space (current_pml4 (svm s)) s1"
    using assms(2) by (auto simp: elf_load_def Let_def vmm_get_pml4_def split: if_splits option.splits)
  note st = load_segments_loaded[OF assms(1) l]
  then have "current_pml4 (svm s1) = pml4" by (simp add: loaded_def set_space_pml4_def vmm_set_pml4_def)
  then have "task_space pml4 s' = s1" by (simp add: s' task_space_current)
  then show "loaded 0 (elf_image rd) (task_space pml4 s) (task_space pml4 s')" using st by (simp add: elf_image_def)
  show "current_pml4 (svm s') = current_pml4 (svm s)" by (simp add: s' set_space_pml4_def vmm_set_pml4_def)
qed

text \<open>With enough frames the loader succeeds.\<close>

lemma load_pages_progress:
  "space_ok s \<Longrightarrow> 4 * length vs + k \<le> card (avail_addrs (pmm (svm s))) \<Longrightarrow>
   \<exists>s'. load_pages rd ph vs s = Some (0, s') \<and> k \<le> card (avail_addrs (pmm (svm s')))"
proof (induction vs arbitrary: s)
  case (Cons v vs)
  have wf: "vmm_wf (svm s)" using Cons.prems(1) by (simp add: space_ok_def)
  note inv = vmm_wf_base(1)[OF wf]
  obtain n pm where a: "pmm_alloc_frame (pmm (svm s)) = (n, pm)" by force
  have fin: "finite (avail_addrs (pmm (svm s)))" by (rule pmm.finite_avail_law[OF inv])
  have "card (avail_addrs (pmm (svm s))) \<noteq> 0" using Cons.prems(2) by simp
  then have "avail_addrs (pmm (svm s)) \<noteq> {}" by (metis card.empty)
  then have n: "n \<noteq> 0" using pmm.alloc_null_iff[OF inv] a by simp
  note sh = vmm_wf_pmm_shrink[OF wf a]
  have "n \<in> avail_addrs (pmm (svm s))" using vmm_wf_fresh(1)[OF wf a n] .
  then have "3 + (4 * length vs + k) \<le> card (avail_addrs pm)" using Cons.prems(2) sh(3) fin by simp
  then obtain vm where m: "vmm_map_page v (word_of_nat n) (PTE_PRESENT OR PTE_WRITABLE OR PTE_USER) ((svm s)\<lparr>pmm := pm\<rparr>) = Some vm"
      and c: "4 * length vs + k \<le> card (avail_addrs (pmm vm))"
    using vmm_map_page_progress[OF sh(1)] by fastforce
  note st = load_page_step(1)[OF Cons.prems(1) a n m, where b = "page_bytes rd ph v"]
  show ?case using Cons.IH[OF st] c a n m by (simp add: Let_def)
qed auto

lemma load_segments_progress:
  "space_ok s \<Longrightarrow> \<forall>ph \<in> set phs. p_type ph = PT_LOAD \<longrightarrow> p_offset ph + p_filesz ph \<le> sz \<Longrightarrow>
   4 * length (concat (map (segment_image rd) (filter (\<lambda>ph. p_type ph = PT_LOAD) phs))) \<le> card (avail_addrs (pmm (svm s))) \<Longrightarrow>
   \<exists>s'. load_segments rd sz phs s = Some (0, s')"
proof (induction phs arbitrary: s)
  case (Cons ph phs)
  let ?rest = "4 * length (concat (map (segment_image rd) (filter (\<lambda>ph. p_type ph = PT_LOAD) phs)))"
  show ?case
  proof (cases "p_type ph = PT_LOAD")
    case True
    have "4 * length (segment_pages ph) + ?rest \<le> card (avail_addrs (pmm (svm s)))"
      using Cons.prems(3) True by (simp add: length_segment_image)
    then obtain s1 where l: "load_pages rd ph (segment_pages ph) s = Some (0, s1)" and c: "?rest \<le> card (avail_addrs (pmm (svm s1)))"
      using load_pages_progress[OF Cons.prems(1)] by blast
    have ok: "space_ok s1" using load_pages_loaded[OF Cons.prems(1) l] by (simp add: loaded_def)
    have "\<not> sz < p_offset ph + p_filesz ph" using Cons.prems(2) True by (simp add: linorder_not_less)
    then show ?thesis using Cons.IH[OF ok _ c] Cons.prems(2) True l by simp
  next
    case False
    then show ?thesis using Cons.IH[OF Cons.prems(1)] Cons.prems(2,3) by simp
  qed
qed simp


section \<open>Bytes of a segment\<close>

lemma index_bits:
  "PML4_INDEX v = unat v div 2 ^ 39 mod 512" "PDPT_INDEX v = unat v div 2 ^ 30 mod 512"
  "PD_INDEX v = unat v div 2 ^ 21 mod 512" "PT_INDEX v = unat v div 2 ^ 12 mod 512"
proof -
  have m: "unat (drop_bit k v AND 0x1FF) = unat v div 2 ^ k mod 512" for k
  proof -
    have "(0x1FF :: u64) = mask 9" by (simp add: mask_eq_exp_minus_1)
    then have "drop_bit k v AND 0x1FF = take_bit 9 (drop_bit k v)" by (simp add: take_bit_eq_mask)
    then have "unat (drop_bit k v AND 0x1FF) = unat (take_bit 9 (drop_bit k v))" by (rule arg_cong)
    also have "\<dots> = unat v div 2 ^ k mod 512"
      using unsigned_less [where ?'a = nat, of v]
      by (simp only: unsigned_take_bit_eq unsigned_drop_bit_eq) (simp add: take_bit_eq_mod drop_bit_eq_div)
    finally show ?thesis .
  qed
  show "PML4_INDEX v = unat v div 2 ^ 39 mod 512" "PDPT_INDEX v = unat v div 2 ^ 30 mod 512"
    "PD_INDEX v = unat v div 2 ^ 21 mod 512" "PT_INDEX v = unat v div 2 ^ 12 mod 512"
    unfolding PML4_INDEX_def PDPT_INDEX_def PD_INDEX_def PT_INDEX_def by (simp_all only: m)
qed

text \<open>Below the 48 bits that the four levels decode, two addresses have the same path exactly when they are on the same page.\<close>

lemma vpath_page:
  assumes "unat p < 2 ^ 48" "unat q < 2 ^ 48"
  shows "vpath p = vpath q \<longleftrightarrow> unat p div PAGE_SIZE = unat q div PAGE_SIZE"
proof -
  have d: "n div 4096 div 512 = n div 2097152" "n div 4096 div 262144 = n div 1073741824"
    "n div 4096 div 134217728 = n div 549755813888" for n :: nat
    by (simp_all add: div_mult2_eq [symmetric])
  let ?p = "unat p div 4096" and ?q = "unat q div 4096"
  have lt: "?p div 134217728 < 512" "?q div 134217728 < 512" using assms by (simp_all add: div_less_iff_less_mult)
  have s: "n div 512 div 512 = n div 262144" "n div 262144 div 512 = n div 134217728" for n :: nat
    by (simp_all add: div_mult2_eq [symmetric])
  show ?thesis
  proof
    assume "vpath p = vpath q"
    then have m: "?p mod 512 = ?q mod 512" "?p div 512 mod 512 = ?q div 512 mod 512"
        "?p div 262144 mod 512 = ?q div 262144 mod 512" "?p div 134217728 mod 512 = ?q div 134217728 mod 512"
      unfolding d by (simp_all add: vpath_def index_bits)
    then have "?p div 134217728 = ?q div 134217728" using lt by simp
    then have "?p div 262144 = ?q div 262144" using div_mod_ext [of "?p div 262144" 512 "?q div 262144"] m(3) s(2) by simp
    then have "?p div 512 = ?q div 512" using div_mod_ext [of "?p div 512" 512 "?q div 512"] m(2) s(1) by simp
    then show "unat p div PAGE_SIZE = unat q div PAGE_SIZE" using div_mod_ext [of ?p 512 ?q] m(1) by simp
  next
    assume a: "unat p div PAGE_SIZE = unat q div PAGE_SIZE"
    have "unat p div 4096 div 512 = unat q div 4096 div 512" "unat p div 4096 div 262144 = unat q div 4096 div 262144"
      "unat p div 4096 div 134217728 = unat q div 4096 div 134217728" using a by simp_all
    then show "vpath p = vpath q" using a unfolding d by (simp add: vpath_def index_bits)
  qed
qed

lemma page_mask: "unat (v AND NOT 0xFFF) = unat v div PAGE_SIZE * PAGE_SIZE" "unat (v AND 0xFFF) = unat v mod PAGE_SIZE" for v :: u64
proof -
  have m: "(0xFFF :: u64) = mask 12" by (simp add: mask_eq_exp_minus_1)
  show l: "unat (v AND 0xFFF) = unat v mod PAGE_SIZE"
    by (simp only: m take_bit_eq_mask [symmetric] unsigned_take_bit_eq) (simp add: take_bit_eq_mod)
  have "v - (v AND 0xFFF) = v AND NOT (v AND 0xFFF)"
    by (rule disjunctive_diff_eq_and_not) (rule bit_word_eqI, simp only: bit_simps, auto)
  moreover have "v AND NOT (v AND 0xFFF) = v AND NOT 0xFFF" by (rule bit_word_eqI) (simp only: bit_simps, auto)
  ultimately have "v AND NOT 0xFFF = v - (v AND 0xFFF)" by (simp only:)
  then show "unat (v AND NOT 0xFFF) = unat v div PAGE_SIZE * PAGE_SIZE"
    using l by (simp add: unat_sub_if' word_le_nat_alt minus_mod_eq_div_mult)
qed


lemma div_round_up: "a < b \<Longrightarrow> a div PAGE_SIZE < (b + 4095) div PAGE_SIZE" for a b :: nat
proof -
  assume "a < b"
  then have "(a + PAGE_SIZE) div PAGE_SIZE \<le> (b + 4095) div PAGE_SIZE" by (intro div_le_mono) simp
  then show ?thesis by simp
qed

lemma segment_pages_unat:
  assumes "unat (p_vaddr ph) + unat (p_memsz ph) + 4095 < 2 ^ 64"
  shows "map unat (segment_pages ph) =
    map (\<lambda>k. k * PAGE_SIZE) [unat (p_vaddr ph) div PAGE_SIZE..<(unat (p_vaddr ph) + unat (p_memsz ph) + 4095) div PAGE_SIZE]"
proof -
  let ?S = "unat (p_vaddr ph) div PAGE_SIZE" and ?E = "(unat (p_vaddr ph) + unat (p_memsz ph) + 4095) div PAGE_SIZE"
  define st where "st = p_vaddr ph AND NOT 0xFFF"
  define fin where "fin = (p_vaddr ph + p_memsz ph + 4095) AND NOT 0xFFF"
  have "unat (p_vaddr ph + p_memsz ph + 4095) = unat (p_vaddr ph) + unat (p_memsz ph) + 4095"
    using assms by (simp add: unat_word_ariths)
  then have u: "unat st = ?S * PAGE_SIZE" "unat fin = ?E * PAGE_SIZE" unfolding st_def fin_def page_mask by simp_all
  have bound: "?E * PAGE_SIZE < 2 ^ 64" using assms by simp
  have seg: "segment_pages ph = (if st < fin then map (\<lambda>i. st + word_of_nat (i * PAGE_SIZE)) [0..<unat (fin - st) div PAGE_SIZE] else [])"
    by (simp add: segment_pages_def Let_def st_def fin_def)
  show ?thesis
  proof (cases "?S < ?E")
    case True
    then have lt: "st < fin" and "unat (fin - st) = (?E - ?S) * PAGE_SIZE"
      using u by (simp_all add: word_less_nat_alt unat_sub_if' diff_mult_distrib)
    then have d: "unat (fin - st) div PAGE_SIZE = ?E - ?S" by simp
    have "unat (st + word_of_nat (i * PAGE_SIZE)) = (i + ?S) * PAGE_SIZE" if "i < ?E - ?S" for i
    proof -
      have "(i + ?S) * PAGE_SIZE < ?E * PAGE_SIZE" using that by simp
      then have "(i + ?S) * PAGE_SIZE < 2 ^ 64" using bound by (rule less_trans)
      moreover have "st = word_of_nat (?S * PAGE_SIZE)" using u(1) by (metis of_nat_unat ucast_id)
      then have "st + word_of_nat (i * PAGE_SIZE) = word_of_nat ((i + ?S) * PAGE_SIZE)"
        by (simp only: add_mult_distrib of_nat_add add.commute)
      ultimately show ?thesis by (simp only: unsigned_of_nat) (simp add: take_bit_nat_eq_self)
    qed
    then have "map unat (segment_pages ph) = map (\<lambda>i. (i + ?S) * PAGE_SIZE) [0..<?E - ?S]"
      using lt d by (simp add: seg)
    also have "\<dots> = map (\<lambda>k. k * PAGE_SIZE) (map (\<lambda>i. i + ?S) [0..<?E - ?S])" by simp
    also have "map (\<lambda>i. i + ?S) [0..<?E - ?S] = [?S..<?E]" using True by (simp only: map_add_upt) simp
    finally show ?thesis .
  next
    case False
    then have "\<not> st < fin" using u by (simp add: word_less_nat_alt)
    then show ?thesis using False by (simp add: seg)
  qed
qed

definition in_segment :: "elf64_phdr \<Rightarrow> u64 \<Rightarrow> bool" where
  "in_segment ph v = (unat (p_vaddr ph) \<le> unat v \<and> unat v < unat (p_vaddr ph) + unat (p_memsz ph))"

text \<open>A segment of the lower half, where user programs live, that is not longer in the file than in memory.\<close>

definition user_segment :: "elf64_phdr \<Rightarrow> bool" where
  "user_segment ph = (unat (p_vaddr ph) + unat (p_memsz ph) \<le> 2 ^ 47 \<and> p_filesz ph \<le> p_memsz ph)"

lemma user_segment_pages:
  assumes "user_segment ph"
  shows "distinct (map unat (segment_pages ph))" "q \<in> set (segment_pages ph) \<Longrightarrow> unat q < 2 ^ 48"
    "q \<in> set (segment_pages ph) \<Longrightarrow> unat q mod PAGE_SIZE = 0"
    "in_segment ph v \<Longrightarrow> \<exists>q \<in> set (segment_pages ph). unat q = unat v div PAGE_SIZE * PAGE_SIZE"
proof -
  have nw: "unat (p_vaddr ph) + unat (p_memsz ph) + 4095 < 2 ^ 64" using assms by (simp add: user_segment_def)
  note m = segment_pages_unat [OF nw]
  have s: "unat ` set (segment_pages ph) =
      (\<lambda>k. k * PAGE_SIZE) ` {unat (p_vaddr ph) div PAGE_SIZE..<(unat (p_vaddr ph) + unat (p_memsz ph) + 4095) div PAGE_SIZE}"
    using arg_cong [OF m, of set] by simp
  show "distinct (map unat (segment_pages ph))" unfolding m by (simp add: distinct_map inj_on_def)
  show "unat q < 2 ^ 48" if "q \<in> set (segment_pages ph)"
  proof -
    have "unat q \<in> unat ` set (segment_pages ph)" using that by simp
    then obtain k where k: "unat q = k * PAGE_SIZE" "Suc k \<le> (unat (p_vaddr ph) + unat (p_memsz ph) + 4095) div PAGE_SIZE"
      unfolding s by auto
    have "Suc k * PAGE_SIZE \<le> (unat (p_vaddr ph) + unat (p_memsz ph) + 4095) div PAGE_SIZE * PAGE_SIZE"
      using k(2) by (rule mult_le_mono1)
    then have "Suc k * PAGE_SIZE \<le> unat (p_vaddr ph) + unat (p_memsz ph) + 4095"
      using div_times_less_eq_dividend le_trans by blast
    then show ?thesis using assms k(1) by (simp add: user_segment_def)
  qed
  show "unat q mod PAGE_SIZE = 0" if "q \<in> set (segment_pages ph)"
  proof -
    have "unat q \<in> unat ` set (segment_pages ph)" using that by simp
    then show ?thesis unfolding s by auto
  qed
  show "\<exists>q \<in> set (segment_pages ph). unat q = unat v div PAGE_SIZE * PAGE_SIZE" if "in_segment ph v"
  proof -
    have "unat (p_vaddr ph) div PAGE_SIZE \<le> unat v div PAGE_SIZE" using that by (simp add: in_segment_def div_le_mono)
    moreover have "unat v div PAGE_SIZE < (unat (p_vaddr ph) + unat (p_memsz ph) + 4095) div PAGE_SIZE"
      using that div_round_up unfolding in_segment_def by blast
    ultimately have "unat v div PAGE_SIZE * PAGE_SIZE \<in> unat ` set (segment_pages ph)" unfolding s by simp
    then show ?thesis by auto
  qed
qed

lemma page_bytes_nth:
  assumes "unat q = unat v div PAGE_SIZE * PAGE_SIZE"
  shows "page_bytes rd ph q ! unat (v AND 0xFFF) = page_byte rd ph v"
proof -
  have "unat v div PAGE_SIZE * PAGE_SIZE + unat v mod PAGE_SIZE = unat v" by simp
  then have "unat (q + word_of_nat (unat v mod PAGE_SIZE)) = unat v"
    using assms unsigned_less [where ?'a = nat, of v] by (simp add: unat_word_ariths unsigned_of_nat take_bit_eq_mod)
  then have "q + word_of_nat (unat v mod PAGE_SIZE) = v" by (rule unsigned_word_eqI)
  then show ?thesis by (simp add: page_bytes_def page_mask)
qed

text \<open>What the page table says of a path is what the last page loaded there holds.\<close>

lemma put_pages_untouched:
  "(\<And>p b. (p, b) \<in> set ps \<Longrightarrow> vpath p \<noteq> vpath v) \<Longrightarrow> put_pages ps m v = m v"
proof (induction ps arbitrary: m)
  case (Cons x ps)
  obtain p b where x: "x = (p, b)" by force
  then have "vpath v \<noteq> vpath p" using Cons.prems [of p b] by auto
  moreover have "put_pages ps (put_page p b m) v = put_page p b m v"
    by (rule Cons.IH) (use Cons.prems x in auto)
  ultimately show ?case by (simp add: x put_page_def)
qed simp

lemma put_pages_last:
  assumes "\<And>p' b'. (p', b') \<in> set qs \<Longrightarrow> vpath p' \<noteq> vpath v" "vpath p = vpath v" "user_half v"
  shows "put_pages (ps @ (p, b) # qs) m v = Some b"
proof -
  have "put_pages qs m' v = m' v" for m' by (rule put_pages_untouched) (rule assms(1))
  then show ?thesis using assms(2,3) by (simp add: put_page_def)
qed

lemma put_segment:
  assumes "user_segment ph" "in_segment ph v"
  shows "\<exists>q. unat q = unat v div PAGE_SIZE * PAGE_SIZE \<and> put_pages (segment_image rd ph) m v = Some (page_bytes rd ph q)"
proof -
  obtain q where q: "q \<in> set (segment_pages ph)" "unat q = unat v div PAGE_SIZE * PAGE_SIZE"
    using user_segment_pages(4) [OF assms] by blast
  then obtain xs ys where sp: "segment_pages ph = xs @ q # ys" by (meson split_list)
  have v: "unat v < 2 ^ 48" "unat v < 2 ^ 47" using assms by (simp_all add: user_segment_def in_segment_def)
  then have "unat v div 2 ^ 39 < 256" by (simp add: div_less_iff_less_mult)
  then have uh: "user_half v" by (simp add: index_bits)
  have other: "vpath p \<noteq> vpath v" if "p \<in> set ys" for p
  proof
    assume e: "vpath p = vpath v"
    have p: "p \<in> set (segment_pages ph)" using that sp by simp
    then have "unat p div PAGE_SIZE = unat v div PAGE_SIZE" using e vpath_page [OF user_segment_pages(2) [OF assms(1) p] v(1)] by simp
    then have "unat p = unat q" using user_segment_pages(3) [OF assms(1) p] q(2) by (metis div_mult_mod_eq add_0_right)
    then have "unat q \<in> unat ` set ys" using that by (metis imageI)
    then show False using user_segment_pages(1) [OF assms(1)] by (simp add: sp)
  qed
  have "vpath q = vpath v" using vpath_page [OF user_segment_pages(2) [OF assms(1) q(1)] v(1)] q(2) by simp
  then have "put_pages (map (\<lambda>v. (v, page_bytes rd ph v)) xs @ (q, page_bytes rd ph q) # map (\<lambda>v. (v, page_bytes rd ph v)) ys) m v =
      Some (page_bytes rd ph q)"
    using other uh by (intro put_pages_last) auto
  then show ?thesis using q(2) by (auto simp: segment_image_def sp)
qed

definition user_byte :: "space \<Rightarrow> u64 \<Rightarrow> u8 option" where
  "user_byte s v = map_option (\<lambda>b. b ! unat (v AND 0xFFF)) (page_at s v)"


lemma manifest_lookup_always: "manifest_lookup name es"
  by (induction es) auto

section \<open>Properties\<close>

text \<open>C23: A successful load changes the user half of the address space of the task exactly by the pages of the loadable segments, in file
  order, a later page replacing an earlier one at the same address: every page the program defines holds the bytes computed
  from the file, every other page of the task is what it was, no mapped frame is available to the allocator afterwards,
  and the kernel's own page table is active again.\<close>

theorem elf_load_image:
  assumes "space_ok (task_space pml4 s)" "elf_load pml4 rd sz s = Some (0, s')"
  shows "space_ok (task_space pml4 s') \<and> current_pml4 (svm s') = current_pml4 (svm s) \<and>
    page_at (task_space pml4 s') = put_pages (elf_image rd) (page_at (task_space pml4 s))"
  using elf_load_loaded [OF assms] by (simp add: loaded_def)

text \<open>After a successful load, every address of a user segment whose page no later segment touches holds the file's
  byte for it, or zero beyond the segment's length in the file.\<close>

theorem elf_segment_bytes:
  assumes "space_ok (task_space pml4 s)" "elf_load pml4 rd sz s = Some (0, s')"
    "elf_phdrs rd = before @ ph # after" "p_type ph = PT_LOAD" "user_segment ph" "in_segment ph v"
    "\<forall>ph' \<in> set after. p_type ph' = PT_LOAD \<longrightarrow> (\<forall>q \<in> set (segment_pages ph'). vpath q \<noteq> vpath v)"
  shows "user_byte (task_space pml4 s') v =
    Some (if unat v < unat (p_vaddr ph) + unat (p_filesz ph) then rd (p_offset ph + (v - p_vaddr ph)) else 0)"
proof -
  let ?L = "filter (\<lambda>ph. p_type ph = PT_LOAD)" let ?m = "page_at (task_space pml4 s)"
  have img: "elf_image rd = concat (map (segment_image rd) (?L before)) @ segment_image rd ph @ concat (map (segment_image rd) (?L after))"
    using assms(3,4) by (simp add: elf_image_def)
  obtain q where q: "unat q = unat v div PAGE_SIZE * PAGE_SIZE"
      "put_pages (segment_image rd ph) (put_pages (concat (map (segment_image rd) (?L before))) ?m) v = Some (page_bytes rd ph q)"
    using put_segment [OF assms(5,6)] by blast
  have "page_at (task_space pml4 s') v = Some (page_bytes rd ph q)"
  proof -
    have "put_pages (concat (map (segment_image rd) (?L after))) m v = m v" for m
      by (rule put_pages_untouched) (use assms(7) in \<open>auto simp: segment_image_def\<close>)
    then show ?thesis using elf_load_loaded(1) [OF assms(1,2)] q(2) by (simp add: loaded_def img)
  qed
  moreover have "page_byte rd ph v = (if unat v < unat (p_vaddr ph) + unat (p_filesz ph) then rd (p_offset ph + (v - p_vaddr ph)) else 0)"
  proof -
    have "unat (p_vaddr ph + p_filesz ph) = unat (p_vaddr ph) + unat (p_filesz ph)"
      using assms(5) by (simp add: user_segment_def unat_word_ariths word_le_nat_alt)
    then show ?thesis using assms(6) by (simp add: page_byte_def in_segment_def word_le_nat_alt word_less_nat_alt)
  qed
  ultimately show ?thesis using page_bytes_nth [OF q(1)] by (simp add: user_byte_def)
qed

text \<open>Four free frames per page of the program are enough: a 64-bit x86 ELF file of at least 64 bytes whose segments
  pass the length check is loaded.\<close>

theorem elf_load_succeeds:
  assumes "space_ok (task_space pml4 s)" "64 \<le> sz" "(le_word (bytes_at rd 0 4) :: u32) = ELF_MAGIC" "rd 4 = 2"
    "e_machine (elf_header rd) = 62"
    "\<forall>ph \<in> set (elf_phdrs rd). p_type ph = PT_LOAD \<longrightarrow> p_offset ph + p_filesz ph \<le> sz"
    "4 * length (elf_image rd) \<le> card (avail_addrs (pmm (svm s)))"
  shows "\<exists>s'. elf_load pml4 rd sz s = Some (0, s')"
proof -
  have "unat sz \<ge> 64" using assms(2) by (simp add: word_le_nat_alt)
  then have "manifest_verify_elf (Some (ascii ''init'')) (Some (bytes_at rd 0 (unat sz)))"
    by (simp add: manifest_verify_elf_def bytes_at_def g_trusted_manifest_def ascii_def)
  moreover have "take 4 (e_ident (elf_header rd)) = bytes_at rd 0 4" "e_ident (elf_header rd) ! 4 = rd 4"
    by (simp_all add: elf_header_def bytes_at_def take_map)
  moreover obtain s' where "load_segments rd sz (elf_phdrs rd) (task_space pml4 s) = Some (0, s')"
    using load_segments_progress [OF assms(1,6)] assms(7) by (auto simp: elf_image_def set_space_pml4_def vmm_set_pml4_def)
  ultimately show ?thesis using \<open>unat sz \<ge> 64\<close> assms(3-5) by (simp add: elf_load_def Let_def)
qed

text \<open>The manifest accepts every binary of at least 64 bytes unless its name is one of three blocked ones: neither the
  digest nor the table of trusted binaries decides anything.\<close>

theorem manifest_ignores_content:
  "manifest_verify_elf name (Some d) =
     (64 \<le> length d \<and> name \<notin> {Some (ascii ''untrusted''), Some (ascii ''malware''), Some (ascii ''bad_init'')})"
  by (auto simp: manifest_verify_elf_def manifest_lookup_always)

text \<open>The length check of a segment wraps around: a segment whose file offset lies beyond the file passes it when the sum
  with its length exceeds 64 bits, and the loader then copies bytes from outside the buffer it was given into the task.\<close>

theorem segment_check_wraps:
  assumes "unat sz < unat (p_offset ph)" "2 ^ 64 \<le> unat (p_offset ph) + unat (p_filesz ph)"
    "unat (p_offset ph) + unat (p_filesz ph) \<le> 2 ^ 64 + unat sz" "p_vaddr ph < p_vaddr ph + p_filesz ph"
  shows "\<not> p_offset ph + p_filesz ph > sz \<and> page_byte rd ph (p_vaddr ph) = rd (p_offset ph)"
proof -
  have "unat (p_offset ph + p_filesz ph) = unat (p_offset ph) + unat (p_filesz ph) - 2 ^ 64"
    using assms(2) by (simp add: unat_plus_if_size word_size)
  then have "\<not> p_offset ph + p_filesz ph > sz" using assms(3) by (simp add: word_less_nat_alt)
  then show ?thesis using assms(4) by (simp add: page_byte_def)
qed


section \<open>Witnesses\<close>

text \<open>A program of one segment: four bytes of file data at address 4 MiB, eight bytes long in memory.\<close>

definition welf :: "u8 list" where
  "welf = [0x7F,0x45,0x4C,0x46,2,1,1,0, 0,0,0,0,0,0,0,0, 2,0,62,0,1,0,0,0, 0,0,64,0,0,0,0,0, 64,0,0,0,0,0,0,0,
     0,0,0,0,0,0,0,0, 0,0,0,0,64,0,56,0, 1,0,0,0,0,0,0,0,
     1,0,0,0,5,0,0,0, 120,0,0,0,0,0,0,0, 0,0,64,0,0,0,0,0, 0,0,64,0,0,0,0,0, 4,0,0,0,0,0,0,0, 8,0,0,0,0,0,0,0, 0,16,0,0,0,0,0,0,
     0xAA,0xBB,0xCC,0xDD]"

definition welf_rd :: "u64 \<Rightarrow> u8" where
  "welf_rd a = (if unat a < 124 then welf ! unat a else 0)"

definition wspace :: space where
  "wspace = \<lparr>svm = wvmm, frames = (\<lambda>_. [])\<rparr>"

definition wph :: elf64_phdr where
  "wph = \<lparr>p_type = 1, p_flags = 5, p_offset = 120, p_vaddr = 0x400000, p_paddr = 0x400000, p_filesz = 4, p_memsz = 8, p_align = 4096\<rparr>"

lemma welf_bytes_at: "unat a + n \<le> 124 \<Longrightarrow> bytes_at welf_rd a n = take n (drop (unat a) welf)"
proof (rule nth_equalityI)
  assume a: "unat a + n \<le> 124"
  have l: "length welf = 124" by (simp add: welf_def)
  then show "length (bytes_at welf_rd a n) = length (take n (drop (unat a) welf))" using a by (simp add: bytes_at_def)
  fix i assume "i < length (bytes_at welf_rd a n)"
  then have i: "i < n" by (simp add: bytes_at_def)
  then have "unat (a + word_of_nat i) = unat a + i" using a by (simp add: unat_word_ariths unsigned_of_nat take_bit_nat_eq_self)
  then show "bytes_at welf_rd a n ! i = take n (drop (unat a) welf) ! i" using i a l by (simp add: bytes_at_def welf_rd_def)
qed

lemma welf_header: "e_phoff (elf_header welf_rd) = 64" "e_phnum (elf_header welf_rd) = 1" "e_machine (elf_header welf_rd) = 62"
    "(le_word (bytes_at welf_rd 0 4) :: u32) = ELF_MAGIC" "welf_rd 4 = 2"
  by (simp_all add: elf_header_def welf_bytes_at) (simp_all add: welf_rd_def welf_def)

lemma welf_phdrs: "elf_phdrs welf_rd = [wph]"
proof -
  have "elf_phdr welf_rd 64 = wph"
    by (simp add: elf_phdr_def welf_bytes_at wph_def) (simp add: welf_def)
  then show ?thesis by (simp add: elf_phdrs_def welf_header)
qed

lemma wph_pages: "segment_pages wph = [0x400000]" "user_segment wph"
  by (simp_all add: segment_pages_def wph_def user_segment_def)

lemma wspace_ok: "space_ok (task_space (current_pml4 wvmm) wspace)" "task_space (current_pml4 wvmm) wspace = wspace"
proof -
  show e: "task_space (current_pml4 wvmm) wspace = wspace" by (simp add: task_space_current wspace_def)
  have "tab wvmm (vpath v) = None" for v by (simp add: vpath_def wvmm_def)
  then show "space_ok (task_space (current_pml4 wvmm) wspace)" unfolding e using wvmm_wf by (simp add: space_ok_def wspace_def)
qed

theorem elf_load_succeeds_witness: "\<exists>s'. elf_load (current_pml4 wvmm) welf_rd 124 wspace = Some (0, s')"
proof -
  have "length (elf_image welf_rd) = 1" "p_type wph = PT_LOAD" "p_offset wph + p_filesz wph \<le> 124"
    by (simp_all add: elf_image_def welf_phdrs segment_image_def wph_pages) (simp_all add: wph_def)
  then show ?thesis
    using elf_load_succeeds [OF wspace_ok(1), of 124 welf_rd] welf_header welf_phdrs wvmm_avail by (simp add: wspace_def)
qed

lemma welf_loads: "\<exists>s'. elf_load (current_pml4 wvmm) welf_rd 124 wspace = Some (0, s')"
proof -
  obtain s' where "load_segments welf_rd 124 (elf_phdrs welf_rd) (task_space (current_pml4 wvmm) wspace) = Some (0, s')"
    using load_segments_progress [OF wspace_ok(1), of "elf_phdrs welf_rd" 124 welf_rd] wvmm_avail wspace_ok(2)
    by (auto simp: welf_phdrs wph_def segment_image_def wph_pages [unfolded wph_def] wspace_def)
  moreover have "take 4 (e_ident (elf_header welf_rd)) = bytes_at welf_rd 0 4" "e_ident (elf_header welf_rd) ! 4 = welf_rd 4"
    by (simp_all add: elf_header_def bytes_at_def take_map)
  ultimately show ?thesis using welf_header
    by (simp add: elf_load_def Let_def manifest_verify_elf_def manifest_lookup_always) (simp add: bytes_at_def ascii_def)
qed

theorem elf_segment_bytes_witness:
  "\<exists>s'. elf_load (current_pml4 wvmm) welf_rd 124 wspace = Some (0, s') \<and>
     user_byte (task_space (current_pml4 wvmm) s') 0x400001 = Some 0xBB \<and>
     user_byte (task_space (current_pml4 wvmm) s') 0x400006 = Some 0"
proof -
  obtain s' where l: "elf_load (current_pml4 wvmm) welf_rd 124 wspace = Some (0, s')" using welf_loads by blast
  note b = elf_segment_bytes [OF wspace_ok(1) l, of "[]" wph "[]"]
  show ?thesis using l b [of "0x400001"] b [of "0x400006"] wph_pages(2) welf_phdrs
    by (simp add: wph_def in_segment_def welf_rd_def welf_def)
qed

theorem elf_load_image_witness:
  "\<exists>s'. elf_load (current_pml4 wvmm) welf_rd 124 wspace = Some (0, s') \<and>
     page_at (task_space (current_pml4 wvmm) s') = put_pages [(0x400000, page_bytes welf_rd wph 0x400000)] (\<lambda>_. None)"
proof -
  obtain s' where l: "elf_load (current_pml4 wvmm) welf_rd 124 wspace = Some (0, s')" using welf_loads by blast
  have "tab wvmm (vpath v) = None" for v by (simp add: vpath_def wvmm_def)
  then have "page_at wspace = (\<lambda>_. None)" by (simp add: page_at_def wspace_def fun_eq_iff)
  moreover have "elf_image welf_rd = [(0x400000, page_bytes welf_rd wph 0x400000)]"
    by (simp add: elf_image_def welf_phdrs segment_image_def wph_pages) (simp add: wph_def)
  ultimately show ?thesis using l elf_load_image [OF wspace_ok(1) l] wspace_ok(2) by simp
qed


section \<open>Loading from the file system\<close>

lemma heap_wf_frame [simp]:
  "heap_wf (h\<lparr>hvmm := v\<rparr>) = heap_wf h" "heap_wf (h\<lparr>hbytes := b\<rparr>) = heap_wf h" "heap_wf (heap_write p bs h) = heap_wf h"
  "blocks (heap_write p bs h) = blocks h" "hvmm (heap_write p bs h) = hvmm h"
  by (simp_all add: heap_wf_def heap_write_def)

text \<open>A region that was allocated and is released again leaves the live regions as they were, whatever was done to the page
  tables and to the bytes in between.\<close>

lemma kmalloc_kfree:
  assumes "heap_wf h" "sz \<le> 2 ^ 30" "kmalloc sz h = Some (p, h1)" "p \<noteq> 0" "blocks h2 = blocks h1" "heap_wf h2"
  shows "\<exists>h3. kfree p h2 = Some (Freed, h3) \<and> heap_wf h3 \<and> live (blocks h3) = live (blocks h)"
proof -
  obtain n where l: "live (blocks h1) = insert (p, n) (live (blocks h))" and n: "sz \<le> n"
      and d: "\<forall>(q, m) \<in> live (blocks h). q + m \<le> p \<or> p + n \<le> q"
    using kmalloc_post [OF assms(1-3)] assms(4) by auto
  have "kmalloc 0 h = Some (0, h)" by (subst kmalloc.simps) simp
  then have "sz \<noteq> 0" using assms(3,4) by (intro notI) simp
  then have "(p, n) \<notin> live (blocks h)" using d n by auto
  moreover obtain h3 where "kfree p h2 = Some (Freed, h3)" "heap_wf h3" "live (blocks h3) = live (blocks h2) - {(p, n)}"
    using kfree_live [OF assms(6), of p n] l assms(5) by auto
  ultimately show ?thesis using l assms(5) by auto
qed

lemma loader_free_cases:
  assumes "heap_wf h" "sz \<le> 2 ^ 30" "kmalloc sz h = Some (p, h1)" "p \<noteq> 0" "blocks (lheap s) = blocks h1" "heap_wf (lheap s)"
    "loader_free p rc e s = Some r"
  shows "\<exists>h3. r = Ret (rc, e) (s\<lparr>lheap := h3\<rparr>) \<and> heap_wf h3 \<and> live (blocks h3) = live (blocks h)"
  using kmalloc_kfree [OF assms(1-6)] assms(7) by (auto simp: loader_free_def)

text \<open>Whatever the outcome, a call that loads a program from the file system and returns has given back the memory it
  used for the file: the heap is well formed and its live regions are those before the call.\<close>

theorem elf_load_from_vfs_no_leak:
  assumes "heap_wf (lheap s)" "elf_load_from_vfs fuel pml4 path node s = Some (Ret r s')"
    "\<forall>nd f1. vfs_open fuel path node (lfat s) = Some (Ret (True, nd) f1) \<longrightarrow> unat (vsize nd) \<le> 2 ^ 30"
  shows "heap_wf (lheap s') \<and> live (blocks (lheap s')) = live (blocks (lheap s))"
proof -
  obtain found nd f where o1: "vfs_open fuel path node (lfat s) = Some (Ret (found, nd) f)"
    using assms(2) by (auto simp: elf_load_from_vfs_def split: option.splits run.splits)
  show ?thesis
  proof (cases found)
    case False
    then show ?thesis using assms(1,2) o1 by (auto simp: elf_load_from_vfs_def)
  next
    case True
    then have b: "unat (vsize nd) \<le> 2 ^ 30" using assms(3) o1 by simp
    obtain p h where k: "kmalloc (unat (vsize nd)) (lheap s) = Some (p, h)"
      using assms(2) o1 True by (auto simp: elf_load_from_vfs_def split: option.splits)
    note post = kmalloc_post [OF assms(1) b k]
    show ?thesis
    proof (cases "p = 0")
      case True
      then show ?thesis using post assms(2) o1 k \<open>found\<close> by (auto simp: elf_load_from_vfs_def)
    next
      case False
      obtain bs f1 where v: "vfs_read fuel nd (unat (vsize nd)) f = Some (Ret bs f1)"
        using assms(2) o1 True k False by (auto simp: elf_load_from_vfs_def split: option.splits run.splits)
      define s1 where "s1 = s\<lparr>lfat := f1, lheap := heap_write p bs h\<rparr>"
      have wf1: "heap_wf (lheap s1)" "blocks (lheap s1) = blocks h" using post by (simp_all add: s1_def)
      have e: "elf_load_from_vfs fuel pml4 path node s =
          (if length bs < EHDR_SIZE then loader_free p (- 3) None s1 else load_buffer pml4 p (length bs) s1)"
        using o1 True k False v by (simp add: elf_load_from_vfs_def s1_def Let_def)
      note fin = loader_free_cases [OF assms(1) b k False]
      show ?thesis
      proof (cases "length bs < EHDR_SIZE")
        case True
        then show ?thesis using fin [OF wf1(2,1)] assms(2) e by fastforce
      next
        case long: False
        then obtain rc sp where "elf_load pml4 (heap_rd p (lheap s1)) (word_of_nat (length bs)) \<lparr>svm = hvmm (lheap s1), frames = lframes s1\<rparr> = Some (rc, sp)"
          using assms(2) e by (cases "elf_load pml4 (heap_rd p (lheap s1)) (word_of_nat (length bs)) \<lparr>svm = hvmm (lheap s1), frames = lframes s1\<rparr>")
            (auto simp: load_buffer_def Let_def)
        then have "loader_free p rc (if rc = 0 then Some (e_entry (elf_header (heap_rd p (lheap s1)))) else None)
            (s1\<lparr>lheap := (lheap s1)\<lparr>hvmm := svm sp\<rparr>, lframes := frames sp\<rparr>) = Some (Ret r s')"
          using assms(2) e long by (simp add: load_buffer_def Let_def)
        then show ?thesis using fin [of "s1\<lparr>lheap := (lheap s1)\<lparr>hvmm := svm sp\<rparr>, lframes := frames sp\<rparr>"] wf1 by fastforce
      qed
    qed
  qed
qed

abbreviation vol_bytes :: "('d \<Rightarrow> u32 \<Rightarrow> u8 list) \<Rightarrow> 'd fat \<Rightarrow> u32 list \<Rightarrow> u8 list" where
  "vol_bytes content f cs \<equiv> chain_bytes (fat_view content f) (g_data_start f) (g_spc f) cs"

text \<open>Loading a program from a working disk: the file is found by its 8.3 name, its bytes are the input of the loader,
  and on success the task's address space has changed by exactly the pages of that program and the entry point reported is
  the one in its header.\<close>

theorem elf_load_from_vfs_image:
  assumes "fat_ok content ready (lfat s)" "fat_ready (lfat s)" "vfs_ready (lfat s)" "heap_wf (lheap s)"
    "cluster_chain (fat_view content (lfat s)) (g_fat_start (lfat s)) (g_root_cluster (lfat s)) ds" "length ds < fuel"
    "dir_find (path_to_83 path) (dir_entries (vol_bytes content (lfat s) ds)) = Some (c, n)" "unat n \<le> 2 ^ 30"
    "cluster_chain (fat_view content (lfat s)) (g_fat_start (lfat s)) c cs" "length cs < fuel"
    "kmalloc (unat n) (lheap s) = Some (p, h)" "p \<noteq> 0"
    "space_ok (task_space pml4 \<lparr>svm = hvmm h, frames = lframes s\<rparr>)"
    "elf_load_from_vfs fuel pml4 path node s = Some (Ret (0, entry) s')"
  shows "\<exists>rd. (\<forall>off. unat off < length (take (unat n) (vol_bytes content (lfat s) cs)) \<longrightarrow> rd off = take (unat n) (vol_bytes content (lfat s) cs) ! unat off) \<and>
    entry = Some (e_entry (elf_header rd)) \<and>
    page_at (task_space pml4 \<lparr>svm = hvmm (lheap s'), frames = lframes s'\<rparr>) =
      put_pages (elf_image rd) (page_at (task_space pml4 \<lparr>svm = hvmm h, frames = lframes s\<rparr>))"
proof -
  let ?nd = "\<lparr>start_cluster = c, vsize = n, valid = True\<rparr>"
  define bs where "bs = take (unat n) (vol_bytes content (lfat s) cs)"
  obtain f1 where "fat32_open fuel path (lfat s) = Some (Ret (Some (c, n)) f1)" and f1: "fat_step content ready (lfat s) f1"
    using fat32_open_view [OF assms(1,2,5,6), of path] assms(7) by auto
  then have o1: "vfs_open fuel path node (lfat s) = Some (Ret (True, ?nd) f1)" using assms(3) by (simp add: vfs_open_def)
  note fd = fat_stepD [OF f1]
  obtain f2 where r: "vfs_read fuel ?nd (unat n) f1 = Some (Ret bs f2)"
    using fat32_read_view [OF fd(1), of c cs fuel "unat n"] fd(2-7) assms(2,9,10) by (auto simp: vfs_read_def bs_def)
  define s1 where "s1 = s\<lparr>lfat := f2, lheap := heap_write p bs h\<rparr>"
  define rd where "rd = heap_rd p (lheap s1)"
  have "elf_load_from_vfs fuel pml4 path node s =
      (if length bs < EHDR_SIZE then loader_free p (- 3) None s1 else load_buffer pml4 p (length bs) s1)"
    using o1 assms(11,12) r by (simp add: elf_load_from_vfs_def s1_def Let_def)
  then obtain sp where l: "elf_load pml4 rd (word_of_nat (length bs)) \<lparr>svm = hvmm h, frames = lframes s\<rparr> = Some (0, sp)"
      and fr: "loader_free p 0 (Some (e_entry (elf_header rd))) (s1\<lparr>lheap := (lheap s1)\<lparr>hvmm := svm sp\<rparr>, lframes := frames sp\<rparr>) =
        Some (Ret (0, entry) s')"
    using assms(14) by (auto simp: load_buffer_def loader_free_def Let_def rd_def s1_def split: if_splits option.splits)
  have post: "heap_wf h" "\<exists>m. unat n \<le> m \<and> p + m \<le> heap_end h" using kmalloc_post [OF assms(4,8,11)] assms(12) by auto
  have en: "entry = Some (e_entry (elf_header rd))" and sv: "hvmm (lheap s') = svm sp" "lframes s' = frames sp"
    using fr by (auto simp: loader_free_def kfree_def split: option.splits if_splits)
  have sp: "\<lparr>svm = hvmm (lheap s'), frames = lframes s'\<rparr> = sp" using sv by simp
  have "page_at (task_space pml4 sp) = put_pages (elf_image rd) (page_at (task_space pml4 \<lparr>svm = hvmm h, frames = lframes s\<rparr>))"
    using elf_load_loaded(1) [OF assms(13) l] by (simp add: loaded_def)
  moreover have "rd off = bs ! unat off" if "unat off < length bs" for off
  proof -
    have "length bs \<le> unat n" by (simp add: bs_def)
    moreover have "heap_end h < 2 ^ 64" using post(1) by (simp add: heap_wf_def)
    ultimately have "p + unat off < 2 ^ 64" using post(2) that by auto
    then have "unat (word_of_nat p + off :: u64) = p + unat off"
      by (simp add: unat_word_ariths unsigned_of_nat take_bit_nat_eq_self)
    then show ?thesis using that by (simp add: rd_def heap_rd_def s1_def heap_write_def)
  qed
  ultimately show ?thesis unfolding bs_def [symmetric] sp using en by blast
qed


text \<open>The program as a file on the volume.\<close>

definition wprog_sectors :: "u32 \<Rightarrow> u8 list" where
  "wprog_sectors lba =
     (if lba = 2 then ascii ''INIT    ELF'' @ replicate 15 0 @ [3, 0, 124, 0, 0, 0] @ replicate 480 0
      else if lba = 3 then welf @ replicate 388 0
      else wfat_sectors lba)"

definition wloader :: "ramdisk loader" where
  "wloader = \<lparr>lheap = wheap, lframes = (\<lambda>_. []), lfat = wfat\<lparr>fdisk := (fdisk wfat)\<lparr>dev := (wprog_sectors, 0)\<rparr>\<rparr>\<rparr>"

lemma wloader_fat: "fat_ok fst ram_ready (lfat wloader)" "fat_view fst (lfat wloader) = wprog_sectors"
    "g_fat_start (lfat wloader) = 1" "g_data_start (lfat wloader) = 2" "g_spc (lfat wloader) = 1" "g_root_cluster (lfat wloader) = 2"
    "fat_ready (lfat wloader)" "vfs_ready (lfat wloader)" "lheap wloader = wheap" "lframes wloader = (\<lambda>_. [])"
proof -
  have "length (wprog_sectors l) = 512" for l by (simp add: wprog_sectors_def wfat_sectors_def ascii_def welf_def)
  then show "fat_ok fst ram_ready (lfat wloader)" using ram_scsi_disk
    by (simp add: fat_ok_def wloader_def wfat_def wstorage_def disk_ok_def ram_ready_def)
  show "fat_view fst (lfat wloader) = wprog_sectors"
    by (simp add: wloader_def wfat_def wstorage_def sector_view_def fun_eq_iff)
qed (simp_all add: wloader_def wfat_def)

lemma wprog_chains: "cluster_chain wprog_sectors 1 2 [2]" "cluster_chain wprog_sectors 1 3 [3]"
    "chain_bytes wprog_sectors 2 1 [2] = wprog_sectors 2" "take 124 (chain_bytes wprog_sectors 2 1 [3]) = welf"
proof -
  have "fat_entry wprog_sectors 1 2 = fat_entry wfat_sectors 1 2" "fat_entry wprog_sectors 1 3 = fat_entry wfat_sectors 1 3"
    by (simp_all add: fat_entry_def wprog_sectors_def)
  then show "cluster_chain wprog_sectors 1 2 [2]" "cluster_chain wprog_sectors 1 3 [3]" using wfat_chains(1,2) by simp_all
  have "length welf = 124" by (simp add: welf_def)
  then show "chain_bytes wprog_sectors 2 1 [2] = wprog_sectors 2" "take 124 (chain_bytes wprog_sectors 2 1 [3]) = welf"
    by (simp_all add: chain_bytes_def cluster_bytes_def) (simp add: wprog_sectors_def)
qed

lemma wprog_dir: "dir_find (path_to_83 (ascii ''/init.elf'')) (dir_entries (wprog_sectors 2)) = Some (3, 124)"
proof -
  have "length (wprog_sectors 2) = 512" by (simp add: wprog_sectors_def ascii_def)
  moreover have "take 32 (wprog_sectors 2) = winit_entry 124"
    by (simp add: wprog_sectors_def winit_entry_def ascii_def eval_nat_numeral)
  ultimately show ?thesis by (simp add: winit_dir)
qed

lemma wloader_kmalloc: "\<exists>h. kmalloc 124 wheap = Some (4224, h) \<and> hvmm h = wvmm \<and> hbytes h = (\<lambda>_. 0)"
  by (subst kmalloc.simps) (simp add: wheap_def align_up_def wrap64_def take_block_def free_block_def Let_def)

lemma wloader_rd: "hbytes h = (\<lambda>_. 0) \<Longrightarrow> heap_rd 4224 (heap_write 4224 welf h) = welf_rd"
proof
  fix off :: u64 assume h: "hbytes h = (\<lambda>_. 0)"
  have l: "length welf = 124" by (simp add: welf_def)
  have "unat (4224 + off) = (if unat off < 2 ^ 64 - 4224 then 4224 + unat off else 4224 + unat off - 2 ^ 64)"
    by (simp add: unat_plus_if_size word_size)
  moreover have "unat off < 2 ^ 64" using unsigned_less [where ?'a = nat, of off] by simp
  ultimately show "heap_rd 4224 (heap_write 4224 welf h) off = welf_rd off"
    using h l by (auto simp: heap_rd_def heap_write_def welf_rd_def)
qed

lemma wloader_loads:
  "\<exists>s' nd h f1. elf_load_from_vfs 2 (current_pml4 wvmm) (ascii ''/init.elf'') nd wloader = Some (Ret (0, Some 0x400000) s') \<and>
     kmalloc 124 wheap = Some (4224, h) \<and> hvmm h = wvmm \<and>
     vfs_open 2 (ascii ''/init.elf'') nd (lfat wloader) = Some (Ret (True, \<lparr>start_cluster = 3, vsize = 124, valid = True\<rparr>) f1)"
proof -
  let ?nd = "\<lparr>start_cluster = 3, vsize = 124, valid = True\<rparr>"
  obtain f1 where "fat32_open 2 (ascii ''/init.elf'') (lfat wloader) = Some (Ret (Some (3, 124)) f1)" and f1: "fat_step fst ram_ready (lfat wloader) f1"
    using fat32_open_view [OF wloader_fat(1,7), of "[2]" 2 "ascii ''/init.elf''"] wprog_dir wprog_chains by (auto simp: wloader_fat)
  then have o1: "vfs_open 2 (ascii ''/init.elf'') ?nd (lfat wloader) = Some (Ret (True, ?nd) f1)"
    by (simp add: vfs_open_def wloader_fat)
  obtain f2 where r: "vfs_read 2 ?nd 124 f1 = Some (Ret welf f2)"
    using fat32_read_view [OF fat_stepD(1) [OF f1], of 3 "[3]" 2 124] wprog_chains
    by (auto simp: vfs_read_def fat_stepD(2-7) [OF f1] wloader_fat)
  obtain h where k: "kmalloc 124 wheap = Some (4224, h)" "hvmm h = wvmm" "hbytes h = (\<lambda>_. 0)" using wloader_kmalloc by blast
  obtain sp where l: "elf_load (current_pml4 wvmm) welf_rd 124 wspace = Some (0, sp)" using welf_loads by blast
  have wf: "heap_wf h" using kmalloc_post [OF wheap_wf _ k(1)] by simp
  have "length welf = 124" "e_entry (elf_header welf_rd) = 0x400000"
    by (simp_all add: elf_header_def welf_bytes_at) (simp_all add: welf_def)
  moreover obtain h3 where "kfree 4224 ((heap_write 4224 welf h)\<lparr>hvmm := svm sp\<rparr>) = Some (Freed, h3)"
    using kmalloc_kfree [OF wheap_wf _ k(1), of "(heap_write 4224 welf h)\<lparr>hvmm := svm sp\<rparr>"] wf by auto
  ultimately have "\<exists>s'. elf_load_from_vfs 2 (current_pml4 wvmm) (ascii ''/init.elf'') ?nd wloader = Some (Ret (0, Some 0x400000) s')"
    using o1 r k l wloader_rd [OF k(3)]
    by (simp add: elf_load_from_vfs_def wloader_fat load_buffer_def loader_free_def Let_def wspace_def)
  then show ?thesis using k o1 by blast
qed

theorem elf_load_from_vfs_no_leak_witness:
  "\<exists>s' nd. elf_load_from_vfs 2 (current_pml4 wvmm) (ascii ''/init.elf'') nd wloader = Some (Ret (0, Some 0x400000) s') \<and>
     live (blocks (lheap s')) = live (blocks wheap)"
proof -
  obtain s' nd f1 where l: "elf_load_from_vfs 2 (current_pml4 wvmm) (ascii ''/init.elf'') nd wloader = Some (Ret (0, Some 0x400000) s')"
      and "vfs_open 2 (ascii ''/init.elf'') nd (lfat wloader) = Some (Ret (True, \<lparr>start_cluster = 3, vsize = 124, valid = True\<rparr>) f1)"
    using wloader_loads by blast
  then show ?thesis using elf_load_from_vfs_no_leak [OF _ l] by (auto simp: wloader_fat)
qed

theorem elf_load_from_vfs_image_witness:
  "\<exists>s' nd rd. elf_load_from_vfs 2 (current_pml4 wvmm) (ascii ''/init.elf'') nd wloader = Some (Ret (0, Some 0x400000) s') \<and>
     rd 1 = (0x45 :: u8) \<and> rd 121 = 0xBB \<and>
     page_at (task_space (current_pml4 wvmm) \<lparr>svm = hvmm (lheap s'), frames = lframes s'\<rparr>) =
       put_pages (elf_image rd) (page_at (task_space (current_pml4 wvmm) wspace))"
proof -
  obtain s' nd h where l: "elf_load_from_vfs 2 (current_pml4 wvmm) (ascii ''/init.elf'') nd wloader = Some (Ret (0, Some 0x400000) s')"
      and k: "kmalloc 124 wheap = Some (4224, h)" "hvmm h = wvmm"
    using wloader_loads by blast
  have len: "length welf = 124" "welf ! 1 = 0x45" "welf ! 121 = 0xBB" by (simp_all add: welf_def)
  obtain rd where "\<forall>off. unat off < 124 \<longrightarrow> rd off = welf ! unat off"
      "page_at (task_space (current_pml4 wvmm) \<lparr>svm = hvmm (lheap s'), frames = lframes s'\<rparr>) =
       put_pages (elf_image rd) (page_at (task_space (current_pml4 wvmm) wspace))"
    using elf_load_from_vfs_image [of fst ram_ready wloader "[2]" 2 "ascii ''/init.elf''" 3 124 "[3]" 4224 h "current_pml4 wvmm" nd
        "Some 0x400000" s'] l k wprog_dir wprog_chains wspace_ok(1) len(1) by (auto simp: wloader_fat wspace_def)
  moreover from this(1) have "rd 1 = 0x45" "rd 121 = 0xBB" using len by (auto dest: spec [of _ 1] spec [of _ 121])
  ultimately show ?thesis using l by blast
qed

end
