(* ===== verification/Task_Create.thy ===== *)
theory Task_Create
  imports Elf Cap
begin

unbundle bit_operations_syntax

text \<open>
  Creation of user tasks, \<^verbatim>\<open>task_create_user\<close> of \<^verbatim>\<open>src/kernel/task.c\<close>, and the step of \<^verbatim>\<open>kernel_main\<close> (\<^verbatim>\<open>main.c\<close>) that
  creates the first user task and loads its program.  The state joins the task table, the heap with the page tables, the
  frames filled by the loader and the capability tables, which lie on the heap and are found by their address.  CR3 is
  switched to the new page table and back around the mapping of the user stack; the page-table memory does not depend on it,
  so the model only switches the active root of the page-table code.
\<close>

section \<open>State\<close>

record 'd boot =
  bload :: "'d loader"
  bsched :: sched_state
  btabs :: "nat \<Rightarrow> cap_tab"

abbreviation SIZEOF_CAP_TABLE :: nat where "SIZEOF_CAP_TABLE \<equiv> 1536"
abbreviation TASK_KERNEL_STACK_SIZE :: nat where "TASK_KERNEL_STACK_SIZE \<equiv> 16384"
abbreviation TASK_USER_STACK_PAGE :: u64 where "TASK_USER_STACK_PAGE \<equiv> 0x3FF000"

definition bheap :: "'d boot \<Rightarrow> heap_state" where
  "bheap b = lheap (bload b)"

definition set_bheap :: "heap_state \<Rightarrow> 'd boot \<Rightarrow> 'd boot" where
  "set_bheap h b = b\<lparr>bload := (bload b)\<lparr>lheap := h\<rparr>\<rparr>"

definition upd_btask :: "nat \<Rightarrow> (task \<Rightarrow> task) \<Rightarrow> 'd boot \<Rightarrow> 'd boot" where
  "upd_btask i g b = b\<lparr>bsched := upd_task i g (bsched b)\<rparr>"

section \<open>Creation\<close>

text \<open>The error path: the blocks allocated so far are released and the slot is free again.\<close>

fun create_fail :: "nat \<Rightarrow> nat list \<Rightarrow> 'd boot \<Rightarrow> (nat option \<times> 'd boot) option" where
  "create_fail i [] b = Some (None, upd_btask i (\<lambda>t. t\<lparr>tstate := UNUSED\<rparr>) b)"
| "create_fail i (p # ps) b =
     (case kfree p (bheap b) of None \<Rightarrow> None | Some (_, h) \<Rightarrow> create_fail i ps (set_bheap h b))"

text \<open>The new root table: user entries empty, kernel entries copied from the active table.\<close>

definition copy_kernel_half :: "u64 \<Rightarrow> vmm_state \<Rightarrow> vmm_state" where
  "copy_kernel_half new v =
     v\<lparr>ptm := (ptm v)(new := (\<lambda>i. if i < 256 then 0 else ptm v (pml4_phys v) i))\<rparr>"

definition create_space :: "u64 \<Rightarrow> nat \<Rightarrow> nat \<Rightarrow> nat \<Rightarrow> 'd boot \<Rightarrow> (nat option \<times> 'd boot) option" where
  "create_space entry_point i ct ks b =
     (let v = hvmm (bheap b); (pml4_phys, pm) = pmm_alloc_frame (pmm v); v1 = v\<lparr>pmm := pm\<rparr>
      in if pml4_phys = 0 then create_fail i [ks, ct] (set_bheap ((bheap b)\<lparr>hvmm := v1\<rparr>) b)
         else
           let new_pml4 = word_of_nat pml4_phys + vmm_get_hhdm_offset v1;
               v2 = copy_kernel_half (word_of_nat pml4_phys) v1;
               b2 = upd_btask i (\<lambda>t. t\<lparr>pml4 := new_pml4\<rparr>) b;
               (ustack_phys, pm2) = pmm_alloc_frame (pmm v2); v3 = v2\<lparr>pmm := pm2\<rparr>
           in if ustack_phys = 0 then
                (case pmm_free_frame pml4_phys pm2 of
                   Inl _ \<Rightarrow> None
                 | Inr pm3 \<Rightarrow> create_fail i [ks, ct] (set_bheap ((bheap b2)\<lparr>hvmm := v3\<lparr>pmm := pm3\<rparr>\<rparr>) b2))
              else
                let old_pml4 = vmm_get_pml4 v3 in
                case vmm_map_page TASK_USER_STACK_PAGE (word_of_nat ustack_phys) (PTE_PRESENT OR PTE_WRITABLE OR PTE_USER)
                       (vmm_set_pml4 new_pml4 v3) of
                  None \<Rightarrow> None
                | Some v4 \<Rightarrow>
                    Some (Some i,
                      upd_btask i (\<lambda>t. t\<lparr>regs := (regs t)\<lparr>rip := entry_point, rbx := entry_point, rsp := kstack_top t\<rparr>\<rparr>)
                        (set_bheap ((bheap b2)\<lparr>hvmm := vmm_set_pml4 old_pml4 v4\<rparr>) b2)))"

definition create_stack :: "u64 \<Rightarrow> nat \<Rightarrow> nat \<Rightarrow> 'd boot \<Rightarrow> (nat option \<times> 'd boot) option" where
  "create_stack entry_point i ct b =
     (case kmalloc TASK_KERNEL_STACK_SIZE (bheap b) of
        None \<Rightarrow> None
      | Some (ks, h) \<Rightarrow>
          let b1 = upd_btask i (\<lambda>t. t\<lparr>kstack_base := word_of_nat ks\<rparr>) (set_bheap h b) in
          if ks = 0 then create_fail i [ct] b1
          else create_space entry_point i ct ks
                 (upd_btask i (\<lambda>t. t\<lparr>kstack_top := kstack_base t + word_of_nat TASK_KERNEL_STACK_SIZE\<rparr>) b1))"

definition task_create_user :: "u64 \<Rightarrow> 'd boot \<Rightarrow> (nat option \<times> 'd boot) option" where
  "task_create_user entry_point b =
     (case alloc_task_slot (bsched b) of
        (None, s) \<Rightarrow> Some (None, b\<lparr>bsched := s\<rparr>)
      | (Some i, s) \<Rightarrow>
          (case kmalloc SIZEOF_CAP_TABLE (bheap b) of
             None \<Rightarrow> None
           | Some (ct, h) \<Rightarrow>
               let b1 = upd_btask i (\<lambda>t. t\<lparr>cap_table := word_of_nat ct\<rparr>) (set_bheap h (b\<lparr>bsched := s\<rparr>)) in
               if ct = 0 then create_fail i [] b1
               else create_stack entry_point i ct (b1\<lparr>btabs := (btabs b1)(ct := cap_table_init (btabs b1 ct))\<rparr>)))"


section \<open>Page tables of a new task\<close>

lemma vmm_next_table_frame:
  assumes wf: "vmm_wf s" and n: "vmm_next_table fl t i s = Some (u, s')"
  shows "x \<noteq> t \<Longrightarrow> unat x \<notin> avail_addrs (pmm s) \<Longrightarrow> ptm s' x = ptm s x"
    "tab s p = Some t \<Longrightarrow> length p \<le> 3 \<Longrightarrow> \<not> bit (ptm s t i) 0 \<Longrightarrow> unat u \<in> avail_addrs (pmm s) \<and> (\<forall>j. ptm s' u j = 0)"
proof -
  obtain a pm where a: "pmm_alloc_frame (pmm s) = (a, pm)" by force
  have fresh: "a \<in> avail_addrs (pmm s)" "unat (word_of_nat a :: u64) = a" "a mod PAGE_SIZE = 0" "a < 2 ^ 52"
    if "a \<noteq> 0" using vmm_wf_fresh(1) [OF wf a that] avail_addr_bounds [OF wf vmm_wf_fresh(1) [OF wf a that]] by simp_all
  show "ptm s' x = ptm s x" if "x \<noteq> t" "unat x \<notin> avail_addrs (pmm s)"
  proof -
    have "x \<noteq> word_of_nat a" if "a \<noteq> 0" using fresh(1,2) [OF that] \<open>unat x \<notin> _\<close> by metis
    then show ?thesis
      using n that a by (auto simp: vmm_next_table_def Let_def zero_table_def set_entry_def split: if_splits)
  qed
  show "unat u \<in> avail_addrs (pmm s) \<and> (\<forall>j. ptm s' u j = 0)"
    if t: "tab s p = Some t" "length p \<le> 3" and nb: "\<not> bit (ptm s t i) 0"
  proof -
    have z: "a \<noteq> 0" and s': "s' = set_entry t i (word_of_nat a OR (PTE_PRESENT OR PTE_WRITABLE OR (fl AND PTE_USER)))
        (zero_table (word_of_nat a) (s\<lparr>pmm := pm\<rparr>))" and u: "u = ptm s' t i AND PTE_ADDR_MASK"
      using n nb a by (auto simp: vmm_next_table_def Let_def and_present split: if_splits)
    note f = fresh [OF z]
    have "t \<noteq> word_of_nat a" using vmm_wf_tables [OF wf t(2,1)] f(1,2) by metis
    moreover have "u = word_of_nat a" using frame_entry(3) [OF f(3,4), of fl] by (simp add: u s')
    ultimately show ?thesis using f(1,2) by (simp add: s' zero_table_def set_entry_def)
  qed
qed

text \<open>Mapping a page below an empty entry of the root table writes the root table and fresh frames only.\<close>

lemma vmm_map_page_frame:
  assumes wf: "vmm_wf s" and m: "vmm_map_page v ph fl s = Some s'" and e: "tab s [PML4_INDEX v] = None"
    and x: "x \<noteq> pml4_phys s" "unat x \<notin> avail_addrs (pmm s)"
  shows "ptm s' x = ptm s x"
proof -
  obtain t3 s1 t2 s2 t1 s3 where
    n3: "vmm_next_table fl (pml4_phys s) (PML4_INDEX v) s = Some (t3, s1)" and
    n2: "vmm_next_table fl t3 (PDPT_INDEX v) s1 = Some (t2, s2)" and
    n1: "vmm_next_table fl t2 (PD_INDEX v) s2 = Some (t1, s3)" and
    s': "s' = set_entry t1 (PT_INDEX v) ((ph AND PTE_ADDR_MASK) OR fl) s3"
    using m vmm_wf_base(3)[OF wf] by (auto simp: vmm_map_page_def split: option.splits)
  have p0: "tab s [] = Some (pml4_phys s)" by simp
  note A = vmm_next_table_ok[OF wf p0 _ n3]
  note B = vmm_next_table_ok[OF A(1) A(2) _ n2]
  note av = vmm_next_table_avail[OF wf n3] vmm_next_table_avail[OF A(1) n2]
  have "\<not> bit (ptm s (pml4_phys s) (PML4_INDEX v)) 0" using e by (simp split: if_splits)
  then have 3: "unat t3 \<in> avail_addrs (pmm s)" "ptm s1 t3 j = 0" for j
    using vmm_next_table_frame(2) [OF wf n3 p0] by simp_all
  then have 2: "unat t2 \<in> avail_addrs (pmm s1)" "ptm s2 t2 j = 0" for j
    using vmm_next_table_frame(2) [OF A(1) n2 A(2)] by simp_all
  then have 1: "unat t1 \<in> avail_addrs (pmm s2)"
    using vmm_next_table_frame(2) [OF B(1) n1 B(2)] by simp
  have "x \<noteq> t3" "x \<noteq> t2" "x \<noteq> t1" using x(2) 3(1) 2(1) 1 av by auto
  moreover have "unat x \<notin> avail_addrs (pmm s1)" "unat x \<notin> avail_addrs (pmm s2)" using x(2) av by auto
  ultimately show ?thesis
    using vmm_next_table_frame(1) [OF wf n3 x] vmm_next_table_frame(1) [OF A(1) n2, of x] vmm_next_table_frame(1) [OF B(1) n1, of x]
    by (simp add: s' set_entry_def)
qed

text \<open>A tree whose tables nobody writes stays what it is.\<close>

lemma vmm_wf_transfer:
  assumes wf: "vmm_wf v" and p: "pmm_inv (pmm v')" "total_frames (pmm v') \<le> 2 ^ 40"
    "avail_addrs (pmm v') \<subseteq> avail_addrs (pmm v)" and c: "current_pml4 v' = current_pml4 v" "hhdm_off v' = hhdm_off v"
    and t: "\<And>q t. length q \<le> 3 \<Longrightarrow> tab v q = Some t \<Longrightarrow> ptm v' t = ptm v t"
  shows "vmm_wf v'" "length q \<le> 4 \<Longrightarrow> tab v' q = tab v q"
proof -
  have tb: "tab v' q = tab v q" if "length q \<le> 4" for q
    by (rule tab_cong [OF _ _ that]) (use t c in \<open>simp_all add: pml4_phys_def\<close>)
  then show "length q \<le> 4 \<Longrightarrow> tab v' q = tab v q" .
  show "vmm_wf v'"
  proof (rule vmm_wfI)
    show "unat t \<notin> avail_addrs (pmm v')" if "length q \<le> 3" "tab v' q = Some t" for q t
      using vmm_wf_tables [OF wf that(1), of t] that tb p(3) by auto
    show "q = r" if "length q \<le> 3" "length r \<le> 3" "tab v' q = Some t" "tab v' r = Some t" for q r t
      using vmm_wf_inj [OF wf that(1,2), of t] that tb by simp
    show "\<not> bit (ptm v' u i) 7" if "length q = 1 \<or> length q = 2" "tab v' q = Some u" "bit (ptm v' u i) 0" for q u i
    proof -
      have q: "length q \<le> 3" "tab v q = Some u" using that tb by auto
      then show ?thesis using vmm_wf_small [OF wf that(1) q(2), of i] that(3) t [OF q] by simp
    qed
  qed (use p c vmm_wf_base [OF wf] in simp_all)
qed

lemma new_root_tab:
  assumes wf: "vmm_wf v" and a: "pmm_alloc_frame (pmm v) = (n, pm)" "n \<noteq> 0"
  defines "v2 \<equiv> vmm_set_pml4 (word_of_nat n + hhdm_off v) (copy_kernel_half (word_of_nat n) (v\<lparr>pmm := pm\<rparr>))"
  shows "length p \<le> 4 \<Longrightarrow> tab v2 p = (if p = [] then Some (word_of_nat n) else if last p < 256 then None else tab v p)"
    "word_of_nat n + hhdm_off v \<noteq> 0 \<Longrightarrow> vmm_wf v2"
proof -
  note f = vmm_wf_fresh [OF wf a]
  have n: "unat (word_of_nat n :: u64) = n" using avail_addr_bounds [OF wf f(1)] by simp
  have m: "ptm v2 t = (if t = word_of_nat n then (\<lambda>i. if i < 256 then 0 else ptm v (pml4_phys v) i) else ptm v t)" for t
    by (auto simp: v2_def copy_kernel_half_def vmm_set_pml4_def pml4_phys_def fun_eq_iff)
  have root: "pml4_phys v2 = word_of_nat n" by (simp add: v2_def copy_kernel_half_def vmm_set_pml4_def pml4_phys_def)
  have ne: "t \<noteq> word_of_nat n" if "length q \<le> 3" "tab v q = Some t" for q t
    using vmm_wf_tables [OF wf that] f(1) n by metis
  have tb: "tab v2 p = (if p = [] then Some (word_of_nat n) else if last p < 256 then None else tab v p)" if "length p \<le> 4" for p
    using that
  proof (induction p)
    case (Cons i p)
    show ?case
    proof (cases "p = []")
      case True
      then show ?thesis by (auto simp: root m)
    next
      case False
      then show ?thesis using Cons ne [of p] by (auto simp: m split: option.splits)
    qed
  qed (simp add: root)
  then show "length p \<le> 4 \<Longrightarrow> tab v2 p = (if p = [] then Some (word_of_nat n) else if last p < 256 then None else tab v p)" .
  have old: "tab v q = Some t" if "length q \<le> 3" "tab v2 q = Some t" "q \<noteq> []" for q t
    using that tb [of q] by (auto split: if_splits)
  show "vmm_wf v2" if nz: "word_of_nat n + hhdm_off v \<noteq> 0"
  proof (rule vmm_wfI)
    show "pmm_inv (pmm v2)" "total_frames (pmm v2) \<le> 2 ^ 40" "current_pml4 v2 \<noteq> 0"
      using f nz vmm_wf_base [OF wf] by (simp_all add: v2_def copy_kernel_half_def vmm_set_pml4_def)
    have av: "avail_addrs (pmm v2) = avail_addrs (pmm v) - {n}" using f by (simp add: v2_def copy_kernel_half_def vmm_set_pml4_def)
    show "unat t \<notin> avail_addrs (pmm v2)" if "length q \<le> 3" "tab v2 q = Some t" for q t
      using that old [OF that] vmm_wf_tables [OF wf that(1)] n root by (cases "q = []") (auto simp: av)
    show "q = r" if "length q \<le> 3" "length r \<le> 3" "tab v2 q = Some t" "tab v2 r = Some t" for q r t
      using old [OF that(1,3)] old [OF that(2,4)] that ne [OF that(1)] ne [OF that(2)] vmm_wf_inj [OF wf that(1,2)] root
      by (cases "q = []"; cases "r = []") auto
    show "\<not> bit (ptm v2 t i) 7" if "length q = 1 \<or> length q = 2" "tab v2 q = Some t" "bit (ptm v2 t i) 0" for q t i
    proof -
      have q: "length q \<le> 3" "q \<noteq> []" using that(1) by auto
      note t = old [OF q(1) that(2) q(2)]
      then show ?thesis using vmm_wf_small [OF wf that(1) t, of i] that(3) ne [OF q(1) t] by (simp add: m)
    qed
  qed
qed


lemma boot_frame [simp]:
  "bheap (set_bheap h b) = h" "bheap (upd_btask i g b) = bheap b" "bsched (set_bheap h b) = bsched b"
  "bsched (upd_btask i g b) = upd_task i g (bsched b)" "btabs (set_bheap h b) = btabs b" "btabs (upd_btask i g b) = btabs b"
  "lframes (bload (set_bheap h b)) = lframes (bload b)" "lframes (bload (upd_btask i g b)) = lframes (bload b)"
  "lfat (bload (set_bheap h b)) = lfat (bload b)" "lfat (bload (upd_btask i g b)) = lfat (bload b)"
  by (simp_all add: bheap_def set_bheap_def upd_btask_def)

text \<open>The direct map of all tracked frames fits below the end of the address space.\<close>

definition hhdm_ok :: "vmm_state \<Rightarrow> bool" where
  "hhdm_ok v = (hhdm_off v \<noteq> 0 \<and> unat (hhdm_off v) + total_frames (pmm v) * PAGE_SIZE \<le> 2 ^ 64)"

lemma hhdm_pointer: "hhdm_ok v \<Longrightarrow> n \<in> avail_addrs (pmm v) \<Longrightarrow> word_of_nat n + hhdm_off v \<noteq> 0"
proof
  assume a: "hhdm_ok v" "n \<in> avail_addrs (pmm v)" and z: "word_of_nat n + hhdm_off v = 0"
  have "n < total_frames (pmm v) * PAGE_SIZE" using a(2) by (auto simp: avail_addrs_def avail_frames_def)
  then have "n + unat (hhdm_off v) < 2 ^ 64" using a(1) by (simp add: hhdm_ok_def)
  then have "unat (word_of_nat n + hhdm_off v :: u64) = n + unat (hhdm_off v)"
    by (simp add: unat_word_ariths unsigned_of_nat take_bit_nat_eq_self)
  then show False using a(1) z by (simp add: hhdm_ok_def unat_eq_zero)
qed

lemma alloc_total_frames: "pmm_alloc_frame p = (n, p') \<Longrightarrow> total_frames p' = total_frames p"
  by (auto simp: pmm_alloc_frame_def Let_def split: option.splits)

lemma vmm_next_table_total: "vmm_next_table fl t i s = Some (u, s') \<Longrightarrow> total_frames (pmm s') = total_frames (pmm s)"
  using alloc_total_frames [of "pmm s" "fst (pmm_alloc_frame (pmm s))" "snd (pmm_alloc_frame (pmm s))"]
  by (auto simp: vmm_next_table_def Let_def zero_table_def prod.case_eq_if split: if_splits)

lemma vmm_map_page_total_frames: "vmm_map_page v ph fl s = Some s' \<Longrightarrow> total_frames (pmm s') = total_frames (pmm s)"
  by (auto simp: vmm_map_page_def dest!: vmm_next_table_total split: if_splits option.splits)

lemma last_vpath [simp]: "last (vpath w) = PML4_INDEX w" "length (vpath w) = 4" "vpath w \<noteq> []"
  by (simp_all add: vpath_def)

text \<open>The address space of a new task: one user page, the kernel half of the creating space.\<close>

definition fresh_space :: "u64 \<Rightarrow> vmm_state \<Rightarrow> bool" where
  "fresh_space new vm =
     (space_ok \<lparr>svm = vmm_set_pml4 new vm, frames = (\<lambda>_. [])\<rparr> \<and>
      (\<forall>w. user_half w \<longrightarrow> (tab (vmm_set_pml4 new vm) (vpath w) \<noteq> None) = (vpath w = vpath TASK_USER_STACK_PAGE)) \<and>
      (\<forall>w. \<not> user_half w \<longrightarrow> tab (vmm_set_pml4 new vm) (vpath w) = tab vm (vpath w)))"

lemma set_pml4_pmm: "vmm_set_pml4 p (v\<lparr>pmm := q\<rparr>) = (vmm_set_pml4 p v)\<lparr>pmm := q\<rparr>"
  by (simp add: vmm_set_pml4_def)

lemma stack_page_user: "user_half TASK_USER_STACK_PAGE"
  by (simp add: index_bits)

lemma new_task_space:
  assumes wf: "vmm_wf v" "hhdm_ok v" and a: "pmm_alloc_frame (pmm v) = (n, pm)" "n \<noteq> 0" and u: "pmm_alloc_frame pm = (st, pm2)" "st \<noteq> 0"
    and m: "vmm_map_page TASK_USER_STACK_PAGE (word_of_nat st) (PTE_PRESENT OR PTE_WRITABLE OR PTE_USER)
      (vmm_set_pml4 (word_of_nat n + hhdm_off v) ((copy_kernel_half (word_of_nat n) (v\<lparr>pmm := pm\<rparr>))\<lparr>pmm := pm2\<rparr>)) = Some v4"
  defines "vm \<equiv> vmm_set_pml4 (current_pml4 v) v4" and "new \<equiv> word_of_nat n + hhdm_off v"
  shows "vmm_wf vm" "length q \<le> 4 \<Longrightarrow> tab vm q = tab v q" "fresh_space new vm" "hhdm_off vm = hhdm_off v"
    "current_pml4 vm = current_pml4 v" "avail_addrs (pmm vm) \<subseteq> avail_addrs (pmm v)" "hhdm_ok vm"
proof -
  define v2 where "v2 = vmm_set_pml4 new (copy_kernel_half (word_of_nat n) (v\<lparr>pmm := pm\<rparr>))"
  note f = vmm_wf_fresh [OF wf(1) a]
  note nb = avail_addr_bounds [OF wf(1) f(1)]
  have nz: "new \<noteq> 0" unfolding new_def by (rule hhdm_pointer [OF wf(2) f(1)])
  note nt = new_root_tab(1) [OF wf(1) a, folded new_def, folded v2_def]
  have wf2: "vmm_wf v2" using new_root_tab(2) [OF wf(1) a] nz by (simp add: v2_def new_def)
  have p2: "pmm v2 = pm" "current_pml4 v2 = new" "hhdm_off v2 = hhdm_off v"
    by (simp_all add: v2_def vmm_set_pml4_def copy_kernel_half_def)
  have u2: "pmm_alloc_frame (pmm v2) = (st, pm2)" using u(1) p2(1) by simp
  define s where "s = \<lparr>svm = v2, frames = (\<lambda>_. [] :: u8 list)\<rparr>"
  have oks: "space_ok s"
    using wf2 nt [of "vpath w" for w] by (auto simp: space_ok_def s_def)
  have m': "vmm_map_page TASK_USER_STACK_PAGE (word_of_nat st) (PTE_PRESENT OR PTE_WRITABLE OR PTE_USER) ((svm s)\<lparr>pmm := pm2\<rparr>) = Some v4"
    using m by (simp add: s_def v2_def new_def set_pml4_pmm)
  have as: "pmm_alloc_frame (pmm (svm s)) = (st, pm2)" using u2 by (simp add: s_def)
  note st = load_page_step(1) [OF oks as u(2) m', where b = "[]"] load_page_step(3-5) [OF oks as u(2) m']
  note sh = vmm_wf_pmm_shrink [OF wf2 u2]
  have m2: "vmm_map_page TASK_USER_STACK_PAGE (word_of_nat st) (PTE_PRESENT OR PTE_WRITABLE OR PTE_USER) (v2\<lparr>pmm := pm2\<rparr>) = Some v4"
    using m' by (simp add: s_def)
  note T = vmm_map_page_tab [OF sh(1) m2]
  have av: "avail_addrs (pmm v4) \<subseteq> avail_addrs (pmm v) - {n}" using st(2) f(2) p2 by (auto simp: s_def)
  show h: "hhdm_off vm = hhdm_off v" "current_pml4 vm = current_pml4 v" "avail_addrs (pmm vm) \<subseteq> avail_addrs (pmm v)"
    using st(3,4) p2 av by (auto simp: vm_def vmm_set_pml4_def s_def)
  have "total_frames (pmm v4) = total_frames (pmm v)"
    using vmm_map_page_total_frames [OF m] alloc_total_frames [OF u(1)] f(4) by (simp add: vmm_set_pml4_def)
  then show "hhdm_ok vm" using h(1) wf(2) by (simp add: hhdm_ok_def vm_def vmm_set_pml4_def)
  have vm4: "vmm_set_pml4 new vm = v4" using st(3) p2 by (simp add: vm_def vmm_set_pml4_def s_def)
  have old: "ptm vm t = ptm v t" if "length q \<le> 3" "tab v q = Some t" for q t
  proof -
    have out: "unat t \<notin> avail_addrs (pmm v)" by (rule vmm_wf_tables [OF wf(1) that])
    then have t: "t \<noteq> word_of_nat n" using f(1) nb(3) by metis
    have t2: "unat t \<notin> avail_addrs pm2" using out f(2) by (simp add: sh(3) p2(1))
    have root: "pml4_phys (v2\<lparr>pmm := pm2\<rparr>) = word_of_nat n" using p2 by (simp add: pml4_phys_def new_def)
    have "tab (v2\<lparr>pmm := pm2\<rparr>) [PML4_INDEX TASK_USER_STACK_PAGE] = None"
      unfolding sh(2) using nt [of "[PML4_INDEX TASK_USER_STACK_PAGE]"] stack_page_user by (simp del: tab.simps)
    then have "ptm v4 t = ptm (v2\<lparr>pmm := pm2\<rparr>) t" using vmm_map_page_frame [OF sh(1) m2] t t2 root by simp
    then show ?thesis using t by (simp add: vm_def vmm_set_pml4_def v2_def copy_kernel_half_def)
  qed
  have inv: "pmm_inv (pmm vm)" "total_frames (pmm vm) \<le> 2 ^ 40"
    using vmm_wf_base [OF T(1)] by (simp_all add: vm_def vmm_set_pml4_def)
  show "vmm_wf vm" by (rule vmm_wf_transfer(1) [OF wf(1) inv h(3) h(2,1)]) (rule old)
  show oldt: "tab vm q = tab v q" if "length q \<le> 4" for q
    by (rule vmm_wf_transfer(2) [OF wf(1) inv h(3) h(2,1) _ that]) (rule old)
  have "space_ok \<lparr>svm = v4, frames = \<lambda>_. []\<rparr>" using st(1) by (simp add: space_ok_def s_def)
  moreover have user: "tab v4 (vpath w) = None" if "user_half w" "vpath w \<noteq> vpath TASK_USER_STACK_PAGE" for w
    using T(6) [OF that(2)] nt [of "vpath w"] that(1) unfolding sh(2) by simp
  moreover have stk: "tab v4 (vpath TASK_USER_STACK_PAGE) \<noteq> None"
    unfolding T(5) using load_flags(1) avail_addr_bounds(1,2) [OF wf2 vmm_wf_fresh(1) [OF wf2 u2 u(2)]] by simp
  moreover have "tab v4 (vpath w) = tab vm (vpath w)" if "\<not> user_half w" for w
  proof -
    have "vpath w \<noteq> vpath TASK_USER_STACK_PAGE" using that stack_page_user by (auto simp: vpath_def)
    from T(6) [OF this] show ?thesis using nt [of "vpath w"] oldt [of "vpath w"] that unfolding sh(2) by simp
  qed
  moreover have "(tab v4 (vpath w) \<noteq> None) = (vpath w = vpath TASK_USER_STACK_PAGE)" if "user_half w" for w
  proof (cases "vpath w = vpath TASK_USER_STACK_PAGE")
    case True
    show ?thesis unfolding True using stk by simp
  next
    case False
    then show ?thesis using user [OF that] by simp
  qed
  ultimately show "fresh_space new vm" unfolding fresh_space_def vm4 by blast
qed


section \<open>Memory of a new task\<close>

lemma heap_map_pages_vmm:
  "vmm_wf v \<Longrightarrow> heap_map_pages n a v = Some (r, v') \<Longrightarrow>
   vmm_wf v' \<and> current_pml4 v' = current_pml4 v \<and> hhdm_off v' = hhdm_off v \<and> total_frames (pmm v') = total_frames (pmm v)"
proof (induction n arbitrary: a v)
  case (Suc n)
  obtain f pm where al: "pmm_alloc_frame (pmm v) = (f, pm)" by force
  note sh = vmm_wf_pmm_shrink [OF Suc.prems(1) al]
  show ?case
  proof (cases "f = 0")
    case True
    then show ?thesis using Suc.prems(2) al sh(1) alloc_total_frames [OF al] by auto
  next
    case False
    then obtain v2 where m: "vmm_map_page (word_of_nat a) (word_of_nat f) (PTE_PRESENT OR PTE_WRITABLE) (v\<lparr>pmm := pm\<rparr>) = Some v2"
        and r: "heap_map_pages n (a + PAGE_SIZE) v2 = Some (r, v')"
      using Suc.prems(2) al by (auto simp: Let_def split: option.splits)
    note T = vmm_map_page_tab [OF sh(1) m]
    show ?thesis using Suc.IH [OF T(1) r] T(3,4) vmm_map_page_total_frames [OF m] alloc_total_frames [OF al] by simp
  qed
qed simp

lemma kmalloc_vmm:
  assumes "heap_wf h" "vmm_wf (hvmm h)" "sz \<le> 2 ^ 30" "kmalloc sz h = Some (p, h')"
  shows "vmm_wf (hvmm h') \<and> current_pml4 (hvmm h') = current_pml4 (hvmm h) \<and> hhdm_off (hvmm h') = hhdm_off (hvmm h) \<and>
    total_frames (pmm (hvmm h')) = total_frames (pmm (hvmm h))"
proof (cases "sz = 0 \<or> kmalloc_walk (align_up sz) (blocks h) \<noteq> Not_found")
  case True
  then have "hvmm h' = hvmm h" using assms(4) by (subst (asm) kmalloc.simps) (auto split: walk.splits if_splits)
  then show ?thesis using assms(2) by simp
next
  case False
  then obtain r where g: "grow_heap (align_up sz) h = Some r" and h: "hvmm h' = hvmm (snd r)"
    using kmalloc_retry [OF assms(1) _ assms(3)] assms(4) by (auto split: option.splits prod.splits)
  have "hvmm (snd r) = hvmm h \<or> (\<exists>n ok. heap_map_pages n (heap_end h) (hvmm h) = Some (ok, hvmm (snd r)))"
    using g by (auto simp: grow_heap_def Let_def split: if_splits option.splits bool.splits)
  then show ?thesis using heap_map_pages_vmm [OF assms(2)] assms(2) h by auto
qed

lemma kfree_hvmm: "kfree p h = Some (r, h') \<Longrightarrow> hvmm h' = hvmm h"
  by (auto simp: kfree_def split: if_splits option.splits)

text \<open>The error path gives back every block it was handed, and nothing else changes but the task's slot.\<close>

lemma create_fail_releases:
  "heap_wf (bheap b) \<Longrightarrow> set xs \<subseteq> live (blocks (bheap b)) \<Longrightarrow> distinct xs \<Longrightarrow>
   \<exists>h. create_fail i (map fst xs) b = Some (None, upd_btask i (\<lambda>t. t\<lparr>tstate := UNUSED\<rparr>) (set_bheap h b)) \<and>
     heap_wf h \<and> live (blocks h) = live (blocks (bheap b)) - set xs \<and> hvmm h = hvmm (bheap b)"
proof (induction xs arbitrary: b)
  case Nil
  then show ?case by (intro exI [of _ "bheap b"]) (simp add: set_bheap_def bheap_def)
next
  case (Cons x xs)
  obtain p n where x: "x = (p, n)" by force
  then obtain h1 where f: "kfree p (bheap b) = Some (Freed, h1)" "heap_wf h1" "live (blocks h1) = live (blocks (bheap b)) - {(p, n)}"
    using kfree_live [OF Cons.prems(1), of p n] Cons.prems(2) by auto
  have "set xs \<subseteq> live (blocks h1)" using Cons.prems(2,3) f(3) x by auto
  then obtain h where "create_fail i (map fst xs) (set_bheap h1 b) = Some (None, upd_btask i (\<lambda>t. t\<lparr>tstate := UNUSED\<rparr>) (set_bheap h (set_bheap h1 b)))"
      "heap_wf h" "live (blocks h) = live (blocks h1) - set xs" "hvmm h = hvmm h1"
    using Cons.IH [of "set_bheap h1 b"] Cons.prems(3) f(2) by auto
  moreover have "set_bheap h (set_bheap h1 b) = set_bheap h b" for h by (simp add: set_bheap_def)
  ultimately show ?case using f kfree_hvmm [OF f(1)] by (intro exI [of _ h]) (auto simp: x)
qed

definition boot_ok :: "'d boot \<Rightarrow> bool" where
  "boot_ok b =
     (heap_wf (bheap b) \<and> vmm_wf (hvmm (bheap b)) \<and> hhdm_ok (hvmm (bheap b)) \<and>
      task_ids_ok (bsched b) \<and> next_task_id (bsched b) \<noteq> - 1)"

text \<open>What the two allocations of a new task leave behind.\<close>

lemma kmalloc_step:
  assumes "heap_wf h" "vmm_wf (hvmm h)" "hhdm_ok (hvmm h)" "0 < sz" "sz \<le> 2 ^ 30" "kmalloc sz h = Some (p, h')"
  shows "heap_wf h'" "vmm_wf (hvmm h')" "hhdm_ok (hvmm h')" "current_pml4 (hvmm h') = current_pml4 (hvmm h)"
    "p = 0 \<Longrightarrow> live (blocks h') = live (blocks h)"
    "p \<noteq> 0 \<Longrightarrow> \<exists>n. sz \<le> n \<and> p + n < 2 ^ 64 \<and> live (blocks h') = insert (p, n) (live (blocks h)) \<and> (p, n) \<notin> live (blocks h)"
proof -
  note post = kmalloc_post [OF assms(1,5,6)]
  note vm = kmalloc_vmm [OF assms(1,2,5,6)]
  show "heap_wf h'" "vmm_wf (hvmm h')" "hhdm_ok (hvmm h')" "current_pml4 (hvmm h') = current_pml4 (hvmm h)"
    using post vm assms(3) by (auto simp: hhdm_ok_def)
  show "p = 0 \<Longrightarrow> live (blocks h') = live (blocks h)" using post by simp
  show "\<exists>n. sz \<le> n \<and> p + n < 2 ^ 64 \<and> live (blocks h') = insert (p, n) (live (blocks h)) \<and> (p, n) \<notin> live (blocks h)" if nz: "p \<noteq> 0"
  proof -
    obtain n where n: "sz \<le> n" "p + n \<le> heap_end h'" "live (blocks h') = insert (p, n) (live (blocks h))"
        "\<forall>(q, m) \<in> live (blocks h). q + m \<le> p \<or> p + n \<le> q"
      using post nz by auto
    moreover have "heap_end h' < 2 ^ 64" using post by (simp add: heap_wf_def)
    moreover have "(p, n) \<notin> live (blocks h)" using n(1,4) assms(4) by auto
    ultimately show ?thesis by (intro exI [of _ n]) simp
  qed
qed


section \<open>Outcomes of creation\<close>

lemma upd_task_twice:
  "i < length (task_table s) \<Longrightarrow> upd_task i g (upd_task i f s) = upd_task i (\<lambda>t. g (f t)) s"
  by (simp add: upd_task_def)

text \<open>An abandoned creation: the slot is free, the heap holds what it held, the page tables are sound.\<close>

definition abandoned :: "nat \<Rightarrow> (nat \<times> nat) set \<Rightarrow> sched_state \<Rightarrow> 'd boot \<Rightarrow> bool" where
  "abandoned i L s b' =
     (heap_wf (bheap b') \<and> vmm_wf (hvmm (bheap b')) \<and> live (blocks (bheap b')) = L \<and>
      (\<exists>g. bsched b' = upd_task i g s \<and> (\<forall>t. tstate (g t) = UNUSED)))"

lemma create_fail_abandoned:
  assumes "heap_wf (bheap b)" "vmm_wf (hvmm (bheap b))" "set xs \<subseteq> live (blocks (bheap b))" "distinct xs"
    "create_fail i (map fst xs) b = Some (r, b')" "bsched b = upd_task i f s" "i < length (task_table s)"
  shows "r = None" "abandoned i (live (blocks (bheap b)) - set xs) s b'"
proof -
  obtain h where c: "create_fail i (map fst xs) b = Some (None, upd_btask i (\<lambda>t. t\<lparr>tstate := UNUSED\<rparr>) (set_bheap h b))"
      and h: "heap_wf h" "live (blocks h) = live (blocks (bheap b)) - set xs" "hvmm h = hvmm (bheap b)"
    using create_fail_releases [OF assms(1,3,4)] by blast
  then have b': "b' = upd_btask i (\<lambda>t. t\<lparr>tstate := UNUSED\<rparr>) (set_bheap h b)" and "r = None" using assms(5) by simp_all
  then show "r = None" by simp
  have "bsched b' = upd_task i (\<lambda>t. (f t)\<lparr>tstate := UNUSED\<rparr>) s" using assms(6,7) by (simp add: b' upd_task_twice)
  then show "abandoned i (live (blocks (bheap b)) - set xs) s b'"
    using h assms(2) unfolding abandoned_def by (simp add: b') (intro exI [of _ "\<lambda>t. (f t)\<lparr>tstate := UNUSED\<rparr>"], simp)
qed

lemma create_space_cases:
  assumes ok: "heap_wf (bheap b)" "vmm_wf (hvmm (bheap b))" "hhdm_ok (hvmm (bheap b))"
    and l: "{(ks, m), (ct, n)} \<subseteq> live (blocks (bheap b))" "(ks, m) \<noteq> (ct, n)"
    and i: "bsched b = upd_task i f s" "i < length (task_table s)" and c: "create_space e i ct ks b = Some (r, b')"
  shows "r = None \<and> abandoned i (live (blocks (bheap b)) - {(ks, m), (ct, n)}) s b' \<or>
    (\<exists>new vm. r = Some i \<and> bheap b' = (bheap b)\<lparr>hvmm := vm\<rparr> \<and> vmm_wf vm \<and> fresh_space new vm \<and>
       hhdm_ok vm \<and> current_pml4 vm = current_pml4 (hvmm (bheap b)) \<and>
       btabs b' = btabs b \<and> lframes (bload b') = lframes (bload b) \<and> lfat (bload b') = lfat (bload b) \<and>
       bsched b' = upd_task i (\<lambda>t. (f t)\<lparr>pml4 := new, regs := (regs (f t))\<lparr>rip := e, rbx := e, rsp := kstack_top (f t)\<rparr>\<rparr>) s)"
proof -
  define v where "v = hvmm (bheap b)"
  obtain p pm where a: "pmm_alloc_frame (pmm v) = (p, pm)" by force
  have wf: "vmm_wf v" "hhdm_ok v" using ok by (simp_all add: v_def)
  have ls: "set [(ks, m), (ct, n)] \<subseteq> live (blocks h) \<and> distinct [(ks, m), (ct, n)]" if "blocks h = blocks (bheap b)" for h
    using l that by auto
  show ?thesis
  proof (cases "p = 0")
    case True
    then have "create_fail i (map fst [(ks, m), (ct, n)]) (set_bheap ((bheap b)\<lparr>hvmm := v\<lparr>pmm := pm\<rparr>\<rparr>) b) = Some (r, b')"
      using c a by (simp add: create_space_def v_def [symmetric] Let_def del: create_fail.simps)
    then show ?thesis
      using create_fail_abandoned [of "set_bheap ((bheap b)\<lparr>hvmm := v\<lparr>pmm := pm\<rparr>\<rparr>) b" "[(ks, m), (ct, n)]" i r b' f s]
        ok(1) i ls [of "(bheap b)\<lparr>hvmm := v\<lparr>pmm := pm\<rparr>\<rparr>"] vmm_wf_pmm_shrink(1) [OF wf(1) a] by simp
  next
    case p: False
    define new where "new = word_of_nat p + hhdm_off v"
    define v2 where "v2 = copy_kernel_half (word_of_nat p) (v\<lparr>pmm := pm\<rparr>)"
    have v2: "pmm v2 = pm" "hhdm_off v2 = hhdm_off v" "current_pml4 v2 = current_pml4 v" by (simp_all add: v2_def copy_kernel_half_def)
    obtain u pm2 where u: "pmm_alloc_frame pm = (u, pm2)" by force
    let ?b2 = "upd_btask i (\<lambda>t. t\<lparr>pml4 := new\<rparr>) b"
    show ?thesis
    proof (cases "u = 0")
      case True
      note inv = vmm_wf_base(1) [OF wf(1)]
      have ne: "avail_addrs (pmm v) \<noteq> {}" using pmm.alloc_null_iff [OF inv] a p by simp
      have pm: "pmm_inv pm" using pmm.alloc_ok [OF inv] a by simp
      then have pm2: "pm2 = pm" using pmm.alloc_null_iff [OF pm] pmm.alloc_empty [OF pm] u True by simp
      have rel: "pmm_free_frame p pm = Inr (pmm v)" using pmm.release_alloc [OF inv ne] a by simp
      let ?v3 = "v2\<lparr>pmm := pmm v\<rparr>"
      have "create_fail i (map fst [(ks, m), (ct, n)]) (set_bheap ((bheap b)\<lparr>hvmm := ?v3\<rparr>) ?b2) = Some (r, b')"
        using c a p u True rel pm2 v2
        by (simp add: create_space_def v_def [symmetric] Let_def new_def [symmetric] v2_def [symmetric] vmm_get_hhdm_offset_def del: create_fail.simps)
      moreover have "vmm_wf ?v3"
      proof (rule vmm_wf_transfer(1) [OF wf(1)])
        fix q t assume t: "length q \<le> 3" "tab v q = Some t"
        note f = vmm_wf_fresh(1) [OF wf(1) a p]
        have "t \<noteq> word_of_nat p" using vmm_wf_tables [OF wf(1) t] f avail_addr_bounds(3) [OF wf(1) f] by metis
        then show "ptm ?v3 t = ptm v t" by (simp add: v2_def copy_kernel_half_def)
      qed (use vmm_wf_base [OF wf(1)] v2 in simp_all)
      moreover have "bsched ?b2 = upd_task i (\<lambda>t. (f t)\<lparr>pml4 := new\<rparr>) s" using i by (simp add: upd_task_twice)
      ultimately show ?thesis
        using create_fail_abandoned [of "set_bheap ((bheap b)\<lparr>hvmm := ?v3\<rparr>) ?b2" "[(ks, m), (ct, n)]" i r b' _ s]
          ok(1) i(2) ls [of "(bheap b)\<lparr>hvmm := ?v3\<rparr>"] by simp
    next
      case u0: False
      obtain v4 where mp: "vmm_map_page TASK_USER_STACK_PAGE (word_of_nat u) (PTE_PRESENT OR PTE_WRITABLE OR PTE_USER) (vmm_set_pml4 new (v2\<lparr>pmm := pm2\<rparr>)) = Some v4"
          and b': "r = Some i" "b' = upd_btask i (\<lambda>t. t\<lparr>regs := (regs t)\<lparr>rip := e, rbx := e, rsp := kstack_top t\<rparr>\<rparr>)
            (set_bheap ((bheap ?b2)\<lparr>hvmm := vmm_set_pml4 (current_pml4 v) v4\<rparr>) ?b2)"
        using c a p u u0 v2
        by (auto simp: create_space_def v_def [symmetric] Let_def new_def [symmetric] v2_def [symmetric] vmm_get_hhdm_offset_def
            vmm_get_pml4_def split: option.splits)
      note N = new_task_space [OF wf a p u u0, of v4, folded new_def, folded v2_def, OF mp]
      have "bsched b' = upd_task i (\<lambda>t. (f t)\<lparr>pml4 := new, regs := (regs (f t))\<lparr>rip := e, rbx := e, rsp := kstack_top (f t)\<rparr>\<rparr>) s"
        using i by (simp add: b'(2) upd_task_twice)
      then show ?thesis using N(1,3,5,7) b'(1)
        by (intro disjI2 exI [of _ new] exI [of _ "vmm_set_pml4 (current_pml4 v) v4"]) (simp add: b'(2) v_def)
    qed
  qed
qed


text \<open>A task that was created: its descriptor, its two heap blocks, its address space.\<close>

definition created :: "u64 \<Rightarrow> nat \<Rightarrow> 'd boot \<Rightarrow> 'd boot \<Rightarrow> bool" where
  "created e i b b' =
     (\<exists>new ct ks m n.
        heap_wf (bheap b') \<and> vmm_wf (hvmm (bheap b')) \<and> fresh_space new (hvmm (bheap b')) \<and>
        hhdm_ok (hvmm (bheap b')) \<and> current_pml4 (hvmm (bheap b')) = current_pml4 (hvmm (bheap b)) \<and> ct + n < 2 ^ 64 \<and> SIZEOF_CAP_TABLE \<le> n \<and>
        ks + m < 2 ^ 64 \<and> TASK_KERNEL_STACK_SIZE \<le> m \<and>
        live (blocks (bheap b')) = {(ks, m), (ct, n)} \<union> live (blocks (bheap b)) \<and> {(ks, m), (ct, n)} \<inter> live (blocks (bheap b)) = {} \<and>
        (ks, m) \<noteq> (ct, n) \<and>
        btabs b' = (btabs b)(ct := cap_table_init (btabs b ct)) \<and>
        lframes (bload b') = lframes (bload b) \<and> lfat (bload b') = lfat (bload b) \<and>
        bsched b' = upd_task i (\<lambda>t. t\<lparr>cap_table := word_of_nat ct, pml4 := new, kstack_base := word_of_nat ks,
            kstack_top := word_of_nat (ks + TASK_KERNEL_STACK_SIZE),
            regs := (regs t)\<lparr>rip := e, rbx := e, rsp := word_of_nat (ks + TASK_KERNEL_STACK_SIZE)\<rparr>\<rparr>) (snd (alloc_task_slot (bsched b))))"

lemma task_create_user_cases:
  assumes ok: "boot_ok b" and a: "alloc_task_slot (bsched b) = (Some i, s)" and c: "task_create_user e b = Some (r, b')"
  shows "r = None \<and> abandoned i (live (blocks (bheap b))) s b' \<or> r = Some i \<and> created e i b b'"
proof -
  have h: "heap_wf (bheap b)" "vmm_wf (hvmm (bheap b))" "hhdm_ok (hvmm (bheap b))" using ok by (simp_all add: boot_ok_def)
  have ids: "task_ids_ok (bsched b)" "next_task_id (bsched b) \<noteq> - 1" using ok unfolding boot_ok_def by blast+
  have "task_ids_ok s" "i < TASK_MAX_TASKS" using alloc_task_slot_Some [OF ids a] by blast+
  then have i: "i < length (task_table s)" unfolding task_ids_ok_def by simp
  obtain ct h1 where k1: "kmalloc SIZEOF_CAP_TABLE (bheap b) = Some (ct, h1)"
    using c a by (cases "kmalloc SIZEOF_CAP_TABLE (bheap b)") (auto simp: task_create_user_def)
  note K1 = kmalloc_step [OF h _ _ k1, simplified]
  define b1 where "b1 = upd_btask i (\<lambda>t. t\<lparr>cap_table := word_of_nat ct\<rparr>) (set_bheap h1 (b\<lparr>bsched := s\<rparr>))"
  have b1: "bheap b1 = h1" "bsched b1 = upd_task i (\<lambda>t. t\<lparr>cap_table := word_of_nat ct\<rparr>) s" "btabs b1 = btabs b"
      "lframes (bload b1) = lframes (bload b)" "lfat (bload b1) = lfat (bload b)"
    by (simp_all add: b1_def)
  show ?thesis
  proof (cases "ct = 0")
    case True
    then have "create_fail i (map fst ([] :: (nat \<times> nat) list)) b1 = Some (r, b')"
      using c a k1 by (simp add: task_create_user_def b1_def Let_def)
    then show ?thesis using create_fail_abandoned [OF _ _ _ _ _ b1(2) i, of "[]" r b'] K1(1,2,5) True b1(1) by simp
  next
    case ct: False
    then obtain n where n: "SIZEOF_CAP_TABLE \<le> n" "ct + n < 2 ^ 64" "live (blocks h1) = insert (ct, n) (live (blocks (bheap b)))"
        "(ct, n) \<notin> live (blocks (bheap b))"
      using K1(6) by auto
    define b2 where "b2 = b1\<lparr>btabs := (btabs b1)(ct := cap_table_init (btabs b1 ct))\<rparr>"
    have b2: "bheap b2 = h1" "bsched b2 = bsched b1" "btabs b2 = (btabs b)(ct := cap_table_init (btabs b ct))" "bload b2 = bload b1"
      using b1 by (simp_all add: b2_def bheap_def)
    have c2: "create_stack e i ct b2 = Some (r, b')"
      using c a k1 ct by (simp add: task_create_user_def b1_def b2_def Let_def)
    obtain ks h2 where k2: "kmalloc TASK_KERNEL_STACK_SIZE h1 = Some (ks, h2)"
      using c2 by (cases "kmalloc TASK_KERNEL_STACK_SIZE h1") (auto simp: create_stack_def b2)
    note K2 = kmalloc_step [OF K1(1-3) _ _ k2, simplified]
    define b3 where "b3 = upd_btask i (\<lambda>t. t\<lparr>kstack_base := word_of_nat ks\<rparr>) (set_bheap h2 b2)"
    define f where "f = (\<lambda>t. t\<lparr>cap_table := word_of_nat ct, kstack_base := word_of_nat ks\<rparr> :: task)"
    have b3: "bheap b3 = h2" "bsched b3 = upd_task i f s" "btabs b3 = btabs b2"
        "lframes (bload b3) = lframes (bload b)" "lfat (bload b3) = lfat (bload b)"
      using i b1 b2 by (simp_all add: b3_def f_def upd_task_twice)
    show ?thesis
    proof (cases "ks = 0")
      case True
      then have "create_fail i (map fst [(ct, n)]) b3 = Some (r, b')"
        using c2 k2 by (simp add: create_stack_def b2(1) b3_def Let_def)
      then show ?thesis
        using create_fail_abandoned [OF _ _ _ _ _ b3(2) i, of "[(ct, n)]" r b'] K2(1,2,5) True b3(1) n(3,4) by simp
    next
      case ks: False
      then obtain m where m: "TASK_KERNEL_STACK_SIZE \<le> m" "ks + m < 2 ^ 64" "live (blocks h2) = insert (ks, m) (live (blocks h1))"
          "(ks, m) \<notin> live (blocks h1)"
        using K2(6) by auto
      let ?b4 = "upd_btask i (\<lambda>t. t\<lparr>kstack_top := kstack_base t + word_of_nat TASK_KERNEL_STACK_SIZE\<rparr>) b3"
      define g where "g = (\<lambda>t. (f t)\<lparr>kstack_top := word_of_nat (ks + TASK_KERNEL_STACK_SIZE)\<rparr>)"
      have b4: "bheap ?b4 = h2" "bsched ?b4 = upd_task i g s"
        using i b3 by (simp_all add: upd_task_twice g_def f_def)
      have c4: "create_space e i ct ks ?b4 = Some (r, b')"
        using c2 k2 ks by (simp add: create_stack_def b2(1) b3_def Let_def)
      have l: "{(ks, m), (ct, n)} \<subseteq> live (blocks h2)" "(ks, m) \<noteq> (ct, n)"
          "live (blocks h2) - {(ks, m), (ct, n)} = live (blocks (bheap b))"
          "live (blocks h2) = {(ks, m), (ct, n)} \<union> live (blocks (bheap b))" "{(ks, m), (ct, n)} \<inter> live (blocks (bheap b)) = {}"
        using m(3,4) n(3,4) by auto
      have "r = None \<and> abandoned i (live (blocks (bheap b))) s b' \<or>
        (\<exists>new vm. r = Some i \<and> bheap b' = h2\<lparr>hvmm := vm\<rparr> \<and> vmm_wf vm \<and> fresh_space new vm \<and>
           hhdm_ok vm \<and> current_pml4 vm = current_pml4 (hvmm h2) \<and>
           btabs b' = btabs ?b4 \<and> lframes (bload b') = lframes (bload ?b4) \<and> lfat (bload b') = lfat (bload ?b4) \<and>
           bsched b' = upd_task i (\<lambda>t. (g t)\<lparr>pml4 := new, regs := (regs (g t))\<lparr>rip := e, rbx := e, rsp := kstack_top (g t)\<rparr>\<rparr>) s)"
        using create_space_cases [OF _ _ _ _ l(2) b4(2) i c4] K2(1-3) l(1) unfolding b4(1) l(3) by blast
      then show ?thesis
      proof (elim disjE exE)
        fix new vm
        assume A: "r = Some i \<and> bheap b' = h2\<lparr>hvmm := vm\<rparr> \<and> vmm_wf vm \<and> fresh_space new vm \<and>
           hhdm_ok vm \<and> current_pml4 vm = current_pml4 (hvmm h2) \<and>
           btabs b' = btabs ?b4 \<and> lframes (bload b') = lframes (bload ?b4) \<and> lfat (bload b') = lfat (bload ?b4) \<and>
           bsched b' = upd_task i (\<lambda>t. (g t)\<lparr>pml4 := new, regs := (regs (g t))\<lparr>rip := e, rbx := e, rsp := kstack_top (g t)\<rparr>\<rparr>) s"
        moreover have "(\<lambda>t. (g t)\<lparr>pml4 := new, regs := (regs (g t))\<lparr>rip := e, rbx := e, rsp := kstack_top (g t)\<rparr>\<rparr>) =
            (\<lambda>t. t\<lparr>cap_table := word_of_nat ct, pml4 := new, kstack_base := word_of_nat ks,
              kstack_top := word_of_nat (ks + TASK_KERNEL_STACK_SIZE),
              regs := (regs t)\<lparr>rip := e, rbx := e, rsp := word_of_nat (ks + TASK_KERNEL_STACK_SIZE)\<rparr>\<rparr>)"
          by (simp add: g_def f_def fun_eq_iff)
        ultimately have "created e i b b'"
          unfolding created_def using K1(4) K2(1,4) b2(3) b3(3-5) l(2,4,5) m(1,2) n(1,2) a
          by (intro exI [of _ new] exI [of _ ct] exI [of _ ks] exI [of _ m] exI [of _ n]) simp
        then show ?thesis using A by blast
      qed blast
    qed
  qed
qed


section \<open>The first user task\<close>

text \<open>The program that the kernel image carries, generated from the user sources, is the byte memory \<open>blob\<close>.  \<open>None\<close> stands for
  the halt loops and for a call that does not return.\<close>

definition boot_space :: "'d boot \<Rightarrow> space" where
  "boot_space b = \<lparr>svm = hvmm (bheap b), frames = lframes (bload b)\<rparr>"

definition boot_embedded :: "(u64 \<Rightarrow> u8) \<Rightarrow> u64 \<Rightarrow> 'd boot \<Rightarrow> (nat, 'd boot) run option" where
  "boot_embedded blob blob_len b =
     (case task_create_user (e_entry (elf_header blob)) b of
        None \<Rightarrow> None
      | Some (None, b1) \<Rightarrow> None
      | Some (Some utask, b1) \<Rightarrow>
          (case elf_load (pml4 (task_table (bsched b1) ! utask)) blob blob_len (boot_space b1) of
             None \<Rightarrow> None
           | Some (rc, sp) \<Rightarrow>
               if rc \<noteq> 0 then None
               else Some (Ret utask (b1\<lparr>bload := (bload b1)\<lparr>lheap := (bheap b1)\<lparr>hvmm := svm sp\<rparr>, lframes := frames sp\<rparr>\<rparr>))))"

definition boot_user_task :: "nat \<Rightarrow> bool \<Rightarrow> (u64 \<Rightarrow> u8) \<Rightarrow> u64 \<Rightarrow> vfs_node \<Rightarrow> 'd boot \<Rightarrow> (nat, 'd boot) run option" where
  "boot_user_task fuel usb_ok blob blob_len node b =
     (if \<not> usb_ok then boot_embedded blob blob_len b
      else
        case task_create_user 0 b of
          None \<Rightarrow> None
        | Some (None, b1) \<Rightarrow> boot_embedded blob blob_len b1
        | Some (Some utask, b1) \<Rightarrow>
            (case elf_load_from_vfs fuel (pml4 (task_table (bsched b1) ! utask)) (ascii ''/init.elf'') node (bload b1) of
               None \<Rightarrow> None
             | Some (Halt l) \<Rightarrow> Some (Halt (b1\<lparr>bload := l\<rparr>))
             | Some (Ret (rc, entry_out) l) \<Rightarrow>
                 let b2 = b1\<lparr>bload := l\<rparr> in
                 if rc = 0 then
                   let entry = (case entry_out of Some x \<Rightarrow> x | None \<Rightarrow> 0)
                   in Some (Ret utask (upd_btask utask (\<lambda>t. t\<lparr>regs := (regs t)\<lparr>rip := entry, rbx := entry\<rparr>\<rparr>) b2))
                 else boot_embedded blob blob_len b2))"

section \<open>Properties\<close>

lemma created_task:
  assumes "boot_ok b" "alloc_task_slot (bsched b) = (Some i, s)" "created e i b b'"
  shows "task_ids_ok (bsched b')" "i < TASK_MAX_TASKS" "tstate (task_table (bsched b) ! i) = UNUSED"
    "tstate (task_table (bsched b') ! i) = READY" "rip (regs (task_table (bsched b') ! i)) = e"
    "rbx (regs (task_table (bsched b') ! i)) = e"
    "rsp (regs (task_table (bsched b') ! i)) = kstack_base (task_table (bsched b') ! i) + 0x4000"
    "j \<noteq> i \<Longrightarrow> task_table (bsched b') ! j = task_table (bsched b) ! j"
    "btabs b' (unat (cap_table (task_table (bsched b') ! i))) = cap_table_init (btabs b (unat (cap_table (task_table (bsched b') ! i))))"
    "fresh_space (pml4 (task_table (bsched b') ! i)) (hvmm (bheap b'))" "vmm_wf (hvmm (bheap b'))" "heap_wf (bheap b')"
    "lframes (bload b') = lframes (bload b)" "hhdm_ok (hvmm (bheap b'))"
proof -
  have ids: "task_ids_ok (bsched b)" "next_task_id (bsched b) \<noteq> - 1" using assms(1) unfolding boot_ok_def by blast+
  note A = alloc_task_slot_Some [OF ids assms(2)]
  have len: "i < length (task_table s)" using A unfolding task_ids_ok_def by simp
  obtain new ct ks n where c: "fresh_space new (hvmm (bheap b'))" "ct + n < 2 ^ 64" "vmm_wf (hvmm (bheap b'))" "heap_wf (bheap b')"
      "btabs b' = (btabs b)(ct := cap_table_init (btabs b ct))" "lframes (bload b') = lframes (bload b)" "hhdm_ok (hvmm (bheap b'))"
      and u: "bsched b' = upd_task i (\<lambda>t. t\<lparr>cap_table := word_of_nat ct, pml4 := new, kstack_base := word_of_nat ks,
            kstack_top := word_of_nat (ks + TASK_KERNEL_STACK_SIZE),
            regs := (regs t)\<lparr>rip := e, rbx := e, rsp := word_of_nat (ks + TASK_KERNEL_STACK_SIZE)\<rparr>\<rparr>) s"
    using assms(3) unfolding created_def assms(2) snd_conv by (elim exE conjE) (rule that, assumption+)
  have t: "task_table (bsched b') ! i = (task_table s ! i)\<lparr>cap_table := word_of_nat ct, pml4 := new, kstack_base := word_of_nat ks,
            kstack_top := word_of_nat (ks + TASK_KERNEL_STACK_SIZE),
            regs := (regs (task_table s ! i))\<lparr>rip := e, rbx := e, rsp := word_of_nat (ks + TASK_KERNEL_STACK_SIZE)\<rparr>\<rparr>"
      "j \<noteq> i \<Longrightarrow> task_table (bsched b') ! j = task_table s ! j" for j
    using task_table_upd [OF len] by (simp_all add: u)
  have same: "tstate (task_table (bsched b') ! j) = tstate (task_table s ! j)" "tid (task_table (bsched b') ! j) = tid (task_table s ! j)" for j
    using t by (cases "j = i"; simp)+
  have rest: "next_task_id (bsched b') = next_task_id s" "length (task_table (bsched b')) = length (task_table s)" by (simp_all add: u)
  have "task_ids_ok s" using A by blast
  then show "task_ids_ok (bsched b')" unfolding task_ids_ok_def same rest .
  show "i < TASK_MAX_TASKS" "tstate (task_table (bsched b) ! i) = UNUSED" using A by blast+
  show "tstate (task_table (bsched b') ! i) = READY" unfolding same using A by blast
  show "rip (regs (task_table (bsched b') ! i)) = e" "rbx (regs (task_table (bsched b') ! i)) = e"
    "rsp (regs (task_table (bsched b') ! i)) = kstack_base (task_table (bsched b') ! i) + 0x4000" by (simp_all add: t)
  show "task_table (bsched b') ! j = task_table (bsched b) ! j" if "j \<noteq> i" using t(2) [OF that] A that by simp
  have "unat (cap_table (task_table (bsched b') ! i)) = ct" using c(2) by (simp add: t unsigned_of_nat take_bit_nat_eq_self)
  then show "btabs b' (unat (cap_table (task_table (bsched b') ! i))) = cap_table_init (btabs b (unat (cap_table (task_table (bsched b') ! i))))"
    using c(5) by simp
  show "fresh_space (pml4 (task_table (bsched b') ! i)) (hvmm (bheap b'))" using c(1) by (simp add: t)
  show "vmm_wf (hvmm (bheap b'))" "heap_wf (bheap b')" "lframes (bload b') = lframes (bload b)" "hhdm_ok (hvmm (bheap b'))" by fact+
qed

lemma live_disjoint:
  assumes "heap_wf h" "(p, n) \<in> live (blocks h)" "(q, m) \<in> live (blocks h)" "(p, n) \<noteq> (q, m)"
  shows "p + n \<le> q \<or> q + m \<le> p"
proof -
  obtain b c where "b \<in> set (blocks h)" "p = baddr b + HDR" "n = bsize b" "c \<in> set (blocks h)" "q = baddr c + HDR" "m = bsize c" "b \<noteq> c"
    using assms(2-4) unfolding live_def by auto
  then show ?thesis using chain_disjoint [of "heap_base h" "blocks h" "heap_end h" b c] assms(1) by (auto simp: heap_wf_def)
qed

text \<open>The kernel stack and the capability table of a created task are two new heap blocks, apart from each other and from every block
  that was live before.\<close>

lemma created_blocks:
  assumes "boot_ok b" "alloc_task_slot (bsched b) = (Some i, s)" "created e i b b'"
  defines "ks \<equiv> unat (kstack_base (task_table (bsched b') ! i))" and "ct \<equiv> unat (cap_table (task_table (bsched b') ! i))"
  shows "\<exists>m n. TASK_KERNEL_STACK_SIZE \<le> m \<and> ks + m < 2 ^ 64 \<and> SIZEOF_CAP_TABLE \<le> n \<and>
    live (blocks (bheap b')) = {(ks, m), (ct, n)} \<union> live (blocks (bheap b)) \<and> (ks + m \<le> ct \<or> ct + n \<le> ks) \<and>
    (\<forall>(q, k) \<in> live (blocks (bheap b)). (q + k \<le> ks \<or> ks + m \<le> q) \<and> (q + k \<le> ct \<or> ct + n \<le> q))"
proof -
  have ids: "task_ids_ok (bsched b)" "next_task_id (bsched b) \<noteq> - 1" using assms(1) unfolding boot_ok_def by blast+
  have len: "i < length (task_table s)" using alloc_task_slot_Some [OF ids assms(2)] unfolding task_ids_ok_def by simp
  obtain new c k m n where h: "heap_wf (bheap b')" and r: "c + n < 2 ^ 64" "SIZEOF_CAP_TABLE \<le> n" "k + m < 2 ^ 64" "TASK_KERNEL_STACK_SIZE \<le> m"
      and l: "live (blocks (bheap b')) = {(k, m), (c, n)} \<union> live (blocks (bheap b))" "{(k, m), (c, n)} \<inter> live (blocks (bheap b)) = {}"
      and u: "bsched b' = upd_task i (\<lambda>t. t\<lparr>cap_table := word_of_nat c, pml4 := new, kstack_base := word_of_nat k,
            kstack_top := word_of_nat (k + TASK_KERNEL_STACK_SIZE),
            regs := (regs t)\<lparr>rip := e, rbx := e, rsp := word_of_nat (k + TASK_KERNEL_STACK_SIZE)\<rparr>\<rparr>) s"
      and d: "(k, m) \<noteq> (c, n)"
    using assms(3) unfolding created_def assms(2) snd_conv by (elim exE conjE) (rule that, assumption+)
  have a: "ks = k" "ct = c"
    using task_table_upd(1) [OF len] r(1,3) by (simp_all add: ks_def ct_def u unsigned_of_nat take_bit_nat_eq_self)
  have "k + m \<le> c \<or> c + n \<le> k" using live_disjoint [OF h, of k m c n] l(1) d by auto
  moreover have "(q + j \<le> k \<or> k + m \<le> q) \<and> (q + j \<le> c \<or> c + n \<le> q)" if q: "(q, j) \<in> live (blocks (bheap b))" for q j
  proof -
    have "(q, j) \<in> live (blocks (bheap b'))" "(k, m) \<in> live (blocks (bheap b'))" "(c, n) \<in> live (blocks (bheap b'))"
      using q l(1) by auto
    moreover have "(q, j) \<noteq> (k, m)" "(q, j) \<noteq> (c, n)" using q l(2) by auto
    ultimately show ?thesis using live_disjoint [OF h, of q j k m] live_disjoint [OF h, of q j c n] by auto
  qed
  ultimately show ?thesis unfolding a using r l(1) by (intro exI [of _ m] exI [of _ n]) auto
qed

text \<open>C24: A user task that is created is ready to run at the entry point, in a slot that was free and under an identifier no other task
  has.  Its kernel stack and its capability table are two new heap blocks: they overlap neither each other nor any block that was live
  before (so no stack or table of another task), the stack has at least 16 KiB and the saved stack pointer is its end; the capability
  table is empty.  Its address space maps exactly the stack page in the user half and what the kernel maps in the kernel half; every
  other task is untouched.\<close>

theorem task_create_user_correct:
  assumes "boot_ok b" "task_create_user e b = Some (Some i, b')"
  defines "t \<equiv> task_table (bsched b') ! i"
  shows "i < TASK_MAX_TASKS \<and> tstate (task_table (bsched b) ! i) = UNUSED \<and> tstate t = READY \<and>
    rip (regs t) = e \<and> rbx (regs t) = e \<and> rsp (regs t) = kstack_base t + 0x4000 \<and>
    task_ids_ok (bsched b') \<and> (\<forall>j. j \<noteq> i \<longrightarrow> task_table (bsched b') ! j = task_table (bsched b) ! j) \<and>
    btabs b' (unat (cap_table t)) = cap_table_init (btabs b (unat (cap_table t))) \<and>
    (\<exists>m n. 0x4000 \<le> m \<and> unat (kstack_base t) + m < 2 ^ 64 \<and> SIZEOF_CAP_TABLE \<le> n \<and>
       live (blocks (bheap b')) = {(unat (kstack_base t), m), (unat (cap_table t), n)} \<union> live (blocks (bheap b)) \<and>
       (unat (kstack_base t) + m \<le> unat (cap_table t) \<or> unat (cap_table t) + n \<le> unat (kstack_base t)) \<and>
       (\<forall>(q, k) \<in> live (blocks (bheap b)). (q + k \<le> unat (kstack_base t) \<or> unat (kstack_base t) + m \<le> q) \<and>
          (q + k \<le> unat (cap_table t) \<or> unat (cap_table t) + n \<le> q))) \<and>
    heap_wf (bheap b') \<and> vmm_wf (hvmm (bheap b')) \<and> fresh_space (pml4 t) (hvmm (bheap b'))"
proof -
  obtain k s where a: "alloc_task_slot (bsched b) = (Some k, s)"
    using assms(2) by (auto simp: task_create_user_def split: option.splits prod.splits)
  have c: "k = i" "created e i b b'" using task_create_user_cases [OF assms(1) a assms(2)] by auto
  note C = created_task [OF assms(1) a [unfolded c(1)] c(2)] and B = created_blocks [OF assms(1) a [unfolded c(1)] c(2)]
  have "(0x4000 :: nat) = TASK_KERNEL_STACK_SIZE" by simp
  then show ?thesis unfolding t_def using C(1-7,9-12) by (intro conjI allI impI C(8) B) simp_all
qed

text \<open>When a user task cannot be created, because the table is full, the heap or the physical memory is exhausted, nothing is
  left behind: every slot of the task table is in the state it was in, the heap is well formed with the same live regions,
  and the page tables are sound.\<close>

theorem task_create_user_fails_clean:
  assumes "boot_ok b" "task_create_user e b = Some (None, b')"
  shows "heap_wf (bheap b') \<and> vmm_wf (hvmm (bheap b')) \<and> live (blocks (bheap b')) = live (blocks (bheap b)) \<and>
    (\<forall>j<TASK_MAX_TASKS. tstate (task_table (bsched b') ! j) = tstate (task_table (bsched b) ! j))"
proof (cases "alloc_task_slot (bsched b)")
  case (Pair r s)
  show ?thesis
  proof (cases r)
    case None
    then have "b' = b\<lparr>bsched := s\<rparr>" "s = bsched b"
      using assms(2) Pair by (auto simp: task_create_user_def alloc_task_slot_def split: option.splits)
    then show ?thesis using assms(1) unfolding boot_ok_def by (simp add: bheap_def)
  next
    case (Some i)
    have ids: "task_ids_ok (bsched b)" "next_task_id (bsched b) \<noteq> - 1" using assms(1) unfolding boot_ok_def by blast+
    note A = alloc_task_slot_Some [OF ids Pair [unfolded Some]]
    have len: "i < length (task_table s)" using A unfolding task_ids_ok_def by simp
    have ab: "abandoned i (live (blocks (bheap b))) s b'"
      using task_create_user_cases [OF assms(1) Pair [unfolded Some] assms(2)] by simp
    then obtain g where g: "bsched b' = upd_task i g s" "\<forall>t. tstate (g t) = UNUSED" unfolding abandoned_def by blast
    have "tstate (task_table (bsched b') ! j) = tstate (task_table (bsched b) ! j)" for j
      using task_table_upd [OF len, of g j] g A by (cases "j = i") simp_all
    then show ?thesis using ab unfolding abandoned_def by blast
  qed
qed

text \<open>C25: Booting the program that the kernel carries: when the kernel gets past this step, the first user task is ready at the
  program's entry point and the user half of its address space is the stack page with the pages of the program on top.\<close>

theorem boot_embedded_program:
  assumes "boot_ok b" "boot_embedded blob blob_len b = Some (Ret i b')"
  defines "t \<equiv> task_table (bsched b') ! i"
  shows "tstate t = READY \<and> rip (regs t) = e_entry (elf_header blob) \<and>
    (\<exists>P. (\<forall>v. (P v \<noteq> None) = (user_half v \<and> vpath v = vpath TASK_USER_STACK_PAGE)) \<and>
         page_at (task_space (pml4 t) (boot_space b')) = put_pages (elf_image blob) P)"
proof -
  obtain b1 sp where c: "task_create_user (e_entry (elf_header blob)) b = Some (Some i, b1)"
      and l: "elf_load (pml4 (task_table (bsched b1) ! i)) blob blob_len (boot_space b1) = Some (0, sp)"
      and b': "b' = b1\<lparr>bload := (bload b1)\<lparr>lheap := (bheap b1)\<lparr>hvmm := svm sp\<rparr>, lframes := frames sp\<rparr>\<rparr>"
    using assms(2) by (auto simp: boot_embedded_def split: option.splits if_splits)
  obtain k s where a: "alloc_task_slot (bsched b) = (Some k, s)"
    using c by (auto simp: task_create_user_def split: option.splits prod.splits)
  have k: "k = i" "created (e_entry (elf_header blob)) i b b1" using task_create_user_cases [OF assms(1) a c] by auto
  note C = created_task [OF assms(1) a [unfolded k(1)] k(2)]
  have t: "task_table (bsched b1) ! i = t" by (simp add: t_def b')
  have sp: "boot_space b' = sp" by (simp add: boot_space_def b' bheap_def)
  have "space_ok (task_space (pml4 t) (boot_space b1))"
    using C(10) unfolding fresh_space_def t by (simp add: space_ok_def set_space_pml4_def boot_space_def)
  from elf_load_loaded(1) [OF this l [unfolded t]]
  have "page_at (task_space (pml4 t) sp) = put_pages (elf_image blob) (page_at (task_space (pml4 t) (boot_space b1)))"
    by (simp add: loaded_def)
  moreover have "(page_at (task_space (pml4 t) (boot_space b1)) v \<noteq> None) = (user_half v \<and> vpath v = vpath TASK_USER_STACK_PAGE)" for v
    using C(10) unfolding fresh_space_def t by (simp add: page_at_def set_space_pml4_def boot_space_def)
  ultimately show ?thesis unfolding sp using C(4,5) unfolding t by blast
qed


section \<open>Witnesses\<close>

lemma create_space_succeeds:
  assumes "vmm_wf (hvmm (bheap b))" "hhdm_ok (hvmm (bheap b))" "5 + k \<le> card (avail_addrs (pmm (hvmm (bheap b))))"
  shows "\<exists>b'. create_space e i ct ks b = Some (Some i, b') \<and> k \<le> card (avail_addrs (pmm (hvmm (bheap b'))))"
proof -
  define v where "v = hvmm (bheap b)"
  have wf: "vmm_wf v" "hhdm_ok v" "5 + k \<le> card (avail_addrs (pmm v))" using assms by (simp_all add: v_def)
  note inv = vmm_wf_base(1) [OF wf(1)]
  obtain n pm where a: "pmm_alloc_frame (pmm v) = (n, pm)" by force
  have "card (avail_addrs (pmm v)) \<noteq> 0" using wf(3) by simp
  then have "avail_addrs (pmm v) \<noteq> {}" by (metis card.empty)
  then have n: "n \<noteq> 0" using pmm.alloc_null_iff [OF inv] a by simp
  note f = vmm_wf_fresh [OF wf(1) a n]
  have c1: "4 + k \<le> card (avail_addrs pm)" using wf(3) f(1,2) pmm.finite_avail_law [OF inv] by simp
  obtain st pm2 where u: "pmm_alloc_frame pm = (st, pm2)" by force
  have "card (avail_addrs pm) \<noteq> 0" using c1 by simp
  then have "avail_addrs pm \<noteq> {}" by (metis card.empty)
  then have st: "st \<noteq> 0" using pmm.alloc_null_iff [OF f(3)] u by simp
  define new where "new = word_of_nat n + hhdm_off v"
  define v2 where "v2 = copy_kernel_half (word_of_nat n) (v\<lparr>pmm := pm\<rparr>)"
  have nz: "new \<noteq> 0" unfolding new_def by (rule hhdm_pointer [OF wf(2) f(1)])
  have wf2: "vmm_wf (vmm_set_pml4 new v2)" using new_root_tab(2) [OF wf(1) a n] nz by (simp add: v2_def new_def)
  have p2: "pmm (vmm_set_pml4 new v2) = pm" "pmm v2 = pm" "hhdm_off v2 = hhdm_off v"
    by (simp_all add: vmm_set_pml4_def v2_def copy_kernel_half_def)
  note sh = vmm_wf_pmm_shrink [OF wf2, unfolded p2, OF u]
  have "st \<in> avail_addrs pm" using vmm_wf_fresh(1) [OF wf2, unfolded p2, OF u st] .
  then have "3 + k \<le> card (avail_addrs (pmm ((vmm_set_pml4 new v2)\<lparr>pmm := pm2\<rparr>)))" using c1 sh(3) pmm.finite_avail_law [OF f(3)] by simp
  then obtain v4 where "vmm_map_page TASK_USER_STACK_PAGE (word_of_nat st) (PTE_PRESENT OR PTE_WRITABLE OR PTE_USER) ((vmm_set_pml4 new v2)\<lparr>pmm := pm2\<rparr>) = Some v4"
      and c4: "k \<le> card (avail_addrs (pmm v4))"
    using vmm_map_page_progress [OF sh(1)] by blast
  moreover have "pmm (vmm_set_pml4 p x) = pmm x" for p x by (simp add: vmm_set_pml4_def)
  ultimately show ?thesis using a n u st p2
    by (simp add: create_space_def v_def [symmetric] Let_def vmm_get_hhdm_offset_def new_def [symmetric] v2_def [symmetric] set_pml4_pmm)
qed

definition wpmm24 :: pmm_state where
  "wpmm24 = \<lparr>bitmap = [0x07, 0, 0], total_frames = 24, bitmap_size = 3, bitmap_phys_addr = 8192,
             total_usable_memory = 98304, free_memory = 86016\<rparr>"

definition wvmm24 :: vmm_state where
  "wvmm24 = wvmm\<lparr>pmm := wpmm24\<rparr>"

lemma wpmm24_avail: "avail_frames wpmm24 = {3..<24}"
proof -
  have "filter (\<lambda>f. \<not> frame_used [0x07, 0, 0] f) [0..<24] = [3..<24]" by (simp add: frame_used_def upt_rec)
  then have "set (filter (\<lambda>f. \<not> frame_used [0x07, 0, 0] f) [0..<24]) = {3..<24}" by (simp only: set_upt)
  then show ?thesis by (auto simp: avail_frames_def wpmm24_def)
qed

lemma wvmm24_ok: "vmm_wf wvmm24" "hhdm_ok wvmm24" "card (avail_addrs (pmm wvmm24)) = 21" "vmm_wf wvmm" "hhdm_ok wvmm"
proof -
  show card: "card (avail_addrs (pmm wvmm24)) = 21"
    by (simp add: wvmm24_def avail_addrs_def wpmm24_avail card_image inj_on_def)
  have inv: "pmm_inv (pmm wvmm24)" by (simp add: wvmm24_def pmm_inv_def wpmm24_avail) (simp add: wpmm24_def frame_used_def)
  have z: "ptm wvmm24 t j = 0" "pml4_phys wvmm24 = 0x1000" for t j by (simp_all add: wvmm24_def wvmm_def pml4_phys_def)
  have tb: "tab wvmm24 q = (if q = [] then Some 0x1000 else None)" for q by (induction q) (simp_all add: z)
  have n: "4096 \<notin> avail_addrs wpmm24" by (simp add: avail_addrs_iff wpmm24_avail)
  have f: "pmm wvmm24 = wpmm24" "total_frames wpmm24 = 24" "current_pml4 wvmm24 \<noteq> 0"
    by (simp_all add: wvmm24_def wvmm_def wpmm24_def)
  show "vmm_wf wvmm24"
    by (rule vmm_wfI) (use inv n in \<open>auto simp: tb z f split: if_splits\<close>)
  show "hhdm_ok wvmm24" "hhdm_ok wvmm" by (simp_all add: hhdm_ok_def wvmm24_def wvmm_def wpmm24_def wpmm_def)
  show "vmm_wf wvmm" by (rule wvmm_wf)
qed

definition wheap24 :: heap_state where
  "wheap24 = \<lparr>blocks = [free_block 4096 65504], heap_base = 4096, heap_end = 69632, heap_ceiling = 69632, hvmm = wvmm24, hbytes = (\<lambda>_. 0)\<rparr>"

definition wboot :: "heap_state \<Rightarrow> ramdisk boot" where
  "wboot h = \<lparr>bload = wloader\<lparr>lheap := h\<rparr>, bsched = wsched, btabs = (\<lambda>_. replicate CAP_TABLE_SIZE null_slot)\<rparr>"

lemma wboot_ok: "boot_ok (wboot wheap24)" "boot_ok (wboot wheap)"
proof -
  have all: "(\<forall>i<8. P i) = (\<forall>i \<in> set [0..<8]. P i)" for P :: "nat \<Rightarrow> bool" by auto
  have t: "task_ids_ok wsched" "next_task_id wsched \<noteq> - 1"
    unfolding task_ids_ok_def all upts by (simp_all add: wsched_def wtask_def)
  have h: "heap_wf wheap24" "heap_wf wheap" "hvmm wheap24 = wvmm24" "hvmm wheap = wvmm"
    by (simp_all add: wheap24_def heap_wf_def block_ok_def free_block_def wheap_def)
  show "boot_ok (wboot wheap24)" "boot_ok (wboot wheap)"
    using t h wvmm24_ok by (simp_all add: boot_ok_def wboot_def bheap_def)
qed

lemma wboot_slot: "alloc_task_slot wsched = (Some 3, snd (alloc_task_slot wsched))"
  by (simp add: alloc_task_slot_def wsched_def wtask_def upt_rec)

lemma wboot_creates:
  "\<exists>b'. task_create_user e (wboot wheap24) = Some (Some 3, b') \<and> 16 \<le> card (avail_addrs (pmm (hvmm (bheap b'))))"
proof -
  have k1: "\<exists>h. kmalloc SIZEOF_CAP_TABLE wheap24 = Some (4128, h) \<and> hvmm h = wvmm24 \<and> kmalloc TASK_KERNEL_STACK_SIZE h = Some (5696, h\<lparr>blocks :=
      [hd (blocks h), \<lparr>baddr = 5664, magic = HEAP_MAGIC_USED, bfree = False, bsize = 16384\<rparr>, free_block 22080 47520]\<rparr>)"
    by (subst kmalloc.simps, simp add: wheap24_def align_up_def wrap64_def take_block_def free_block_def Let_def)
      (subst kmalloc.simps, simp add: align_up_def wrap64_def take_block_def free_block_def Let_def)
  then obtain h h2 where k: "kmalloc SIZEOF_CAP_TABLE wheap24 = Some (4128, h)" "kmalloc TASK_KERNEL_STACK_SIZE h = Some (5696, h2)" "hvmm h2 = wvmm24"
    by auto
  have b: "bheap (wboot wheap24) = wheap24" "bsched (wboot wheap24) = wsched" by (simp_all add: wboot_def bheap_def)
  obtain s where a: "alloc_task_slot wsched = (Some 3, s)" using wboot_slot by blast
  define b1 where "b1 = upd_btask 3 (\<lambda>t. t\<lparr>cap_table := word_of_nat 4128\<rparr>) (set_bheap h ((wboot wheap24)\<lparr>bsched := s\<rparr>))"
  define b2 where "b2 = b1\<lparr>btabs := (btabs b1)(4128 := cap_table_init (btabs b1 4128))\<rparr>"
  define b0 where "b0 = upd_btask 3 (\<lambda>t. t\<lparr>kstack_top := kstack_base t + word_of_nat TASK_KERNEL_STACK_SIZE\<rparr>)
      (upd_btask 3 (\<lambda>t. t\<lparr>kstack_base := word_of_nat 5696\<rparr>) (set_bheap h2 b2))"
  have "bheap b2 = h" by (simp add: b2_def b1_def bheap_def set_bheap_def upd_btask_def)
  then have "create_stack e 3 4128 b2 = create_space e 3 4128 5696 b0" using k(2) by (simp add: create_stack_def b0_def Let_def)
  moreover have "task_create_user e (wboot wheap24) = create_stack e 3 4128 b2"
    using k(1) a b by (simp add: task_create_user_def b1_def b2_def Let_def)
  ultimately have "task_create_user e (wboot wheap24) = create_space e 3 4128 5696 b0" "hvmm (bheap b0) = wvmm24"
    using k(3) by (simp_all add: b0_def)
  then show ?thesis using create_space_succeeds [of b0 16 e 3 4128 5696] wvmm24_ok by simp
qed

theorem task_create_user_correct_witness:
  "\<exists>b'. task_create_user 0x400000 (wboot wheap24) = Some (Some 3, b') \<and> tstate (task_table (bsched b') ! 3) = READY \<and>
     rip (regs (task_table (bsched b') ! 3)) = 0x400000"
  using wboot_creates [of "0x400000"] task_create_user_correct [OF wboot_ok(1)] by blast


text \<open>On the small heap the kernel stack does not fit.\<close>

theorem task_create_user_fails_clean_witness:
  "\<exists>b'. task_create_user 0 (wboot wheap) = Some (None, b') \<and> live (blocks (bheap b')) = live (blocks wheap) \<and>
     tstate (task_table (bsched b') ! 3) = UNUSED"
proof -
  obtain h where k1: "kmalloc SIZEOF_CAP_TABLE wheap = Some (4224, h)" and h: "blocks h = [\<lparr>baddr = 4096, magic = HEAP_MAGIC_USED, bfree = False, bsize = 64\<rparr>,
      \<lparr>baddr = 4192, magic = HEAP_MAGIC_USED, bfree = False, bsize = 1536\<rparr>, free_block 5760 2400]" "heap_end h = 8192" "heap_ceiling h = 12288"
    by (subst (asm) kmalloc.simps) (simp add: wheap_def align_up_def wrap64_def take_block_def free_block_def Let_def)
  have k2: "kmalloc TASK_KERNEL_STACK_SIZE h = Some (0, h)"
    using h by (subst kmalloc.simps) (simp add: align_up_def wrap64_def grow_heap_def free_block_def Let_def)
  obtain s where a: "alloc_task_slot wsched = (Some 3, s)" using wboot_slot by blast
  have b: "bheap (wboot wheap) = wheap" "bsched (wboot wheap) = wsched" by (simp_all add: wboot_def bheap_def)
  define b1 where "b1 = upd_btask 3 (\<lambda>t. t\<lparr>cap_table := word_of_nat 4224\<rparr>) (set_bheap h ((wboot wheap)\<lparr>bsched := s\<rparr>))"
  define b2 where "b2 = b1\<lparr>btabs := (btabs b1)(4224 := cap_table_init (btabs b1 4224))\<rparr>"
  have "bheap b2 = h" by (simp add: b2_def b1_def bheap_def set_bheap_def upd_btask_def)
  moreover have "task_create_user 0 (wboot wheap) = create_stack 0 3 4224 b2"
    using k1 a b by (simp add: task_create_user_def b1_def b2_def Let_def)
  moreover have "\<exists>h3. kfree 4224 h = Some (Freed, h3)"
    using h by (simp add: kfree_def free_block_def)
  ultimately obtain b' where c: "task_create_user 0 (wboot wheap) = Some (None, b')" using k2 by (auto simp: create_stack_def Let_def)
  have "tstate (task_table wsched ! 3) = UNUSED" by (simp add: wsched_def wtask_def)
  then show ?thesis using c task_create_user_fails_clean [OF wboot_ok(2) c] b by auto
qed

theorem boot_embedded_program_witness:
  "\<exists>b'. boot_embedded welf_rd 124 (wboot wheap24) = Some (Ret 3 b') \<and> rip (regs (task_table (bsched b') ! 3)) = 0x400000 \<and>
     page_at (task_space (pml4 (task_table (bsched b') ! 3)) (boot_space b')) 0x400000 = Some (page_bytes welf_rd wph 0x400000)"
proof -
  have e: "e_entry (elf_header welf_rd) = 0x400000" by (simp add: elf_header_def welf_bytes_at) (simp add: welf_def)
  obtain b1 where c: "task_create_user 0x400000 (wboot wheap24) = Some (Some 3, b1)" and n: "16 \<le> card (avail_addrs (pmm (hvmm (bheap b1))))"
    using wboot_creates by blast
  let ?p = "pml4 (task_table (bsched b1) ! 3)"
  obtain s where a: "alloc_task_slot (bsched (wboot wheap24)) = (Some 3, s)" using wboot_slot by (simp add: wboot_def)
  then have "created 0x400000 3 (wboot wheap24) b1" using task_create_user_cases [OF wboot_ok(1) a c] by simp
  note C = created_task(10) [OF wboot_ok(1) a this]
  have ok: "space_ok (task_space ?p (boot_space b1))"
    using C unfolding fresh_space_def by (simp add: space_ok_def set_space_pml4_def boot_space_def)
  have img: "elf_image welf_rd = [(0x400000, page_bytes welf_rd wph 0x400000)]"
    by (simp add: elf_image_def welf_phdrs segment_image_def wph_pages) (simp add: wph_def)
  obtain sp where l: "elf_load ?p welf_rd 124 (boot_space b1) = Some (0, sp)"
  proof -
    have "\<exists>s'. load_segments welf_rd 124 (elf_phdrs welf_rd) (task_space ?p (boot_space b1)) = Some (0, s')"
    proof (rule load_segments_progress [OF ok])
      show "\<forall>ph \<in> set (elf_phdrs welf_rd). p_type ph = PT_LOAD \<longrightarrow> p_offset ph + p_filesz ph \<le> 124"
        by (simp add: welf_phdrs wph_def)
      show "4 * length (concat (map (segment_image welf_rd) (filter (\<lambda>ph. p_type ph = PT_LOAD) (elf_phdrs welf_rd))))
          \<le> card (avail_addrs (pmm (svm (task_space ?p (boot_space b1)))))"
        using img n unfolding elf_image_def by (simp add: set_space_pml4_def vmm_set_pml4_def boot_space_def)
    qed
    moreover have "take 4 (e_ident (elf_header welf_rd)) = bytes_at welf_rd 0 4" "e_ident (elf_header welf_rd) ! 4 = welf_rd 4"
      by (simp_all add: elf_header_def bytes_at_def take_map)
    moreover have "manifest_verify_elf (Some (ascii ''init'')) (Some (bytes_at welf_rd 0 124))"
      by (simp add: manifest_verify_elf_def manifest_lookup_always) (simp add: bytes_at_def ascii_def)
    ultimately show ?thesis using welf_header that by (auto simp: elf_load_def Let_def)
  qed
  obtain b' where b': "boot_embedded welf_rd 124 (wboot wheap24) = Some (Ret 3 b')"
    using c l e by (simp add: boot_embedded_def)
  have "put_pages (elf_image welf_rd) P 0x400000 = Some (page_bytes welf_rd wph 0x400000)" for P
    by (simp add: img put_page_def index_bits)
  then show ?thesis using b' boot_embedded_program [OF wboot_ok(1) b'] e by auto
qed

end
