(* ===== verification/Auth_Counter.thy ===== *)
theory Auth_Counter
  imports Storage
begin

unbundle bit_operations_syntax

text \<open>
  The attempt counter of the log-in screen, \<^verbatim>\<open>src/kernel/auth_counter.c\<close>: a count in memory that is kept in sector 5
  of the USB disk with a keyed hash over it.  The key comes from the processor identification, so \<open>cpuid\<close>, the
  answer of the processor for a leaf as the registers EAX, EBX, ECX and EDX, is part of the state.  The sector
  goes to the disk through the storage stack of theory \<open>Storage\<close>.
\<close>

section \<open>State and operations\<close>

abbreviation AUTH_COUNTER_LBA :: u32 where "AUTH_COUNTER_LBA \<equiv> 5"
abbreviation AUTH_COUNTER_MAX :: int where "AUTH_COUNTER_MAX \<equiv> 3"
abbreviation COUNTER_MAGIC :: u32 where "COUNTER_MAGIC \<equiv> 0x53545843"

record 'd counter =
  cstore :: "'d storage"
  cpuid :: "u32 \<Rightarrow> u32 \<times> u32 \<times> u32 \<times> u32"
  g_count :: int
  g_usb_present :: bool

definition derive_device_key :: "'d counter \<Rightarrow> u8 list" where
  "derive_device_key c =
     (let stk = stack (cstore c);
          (eax, _, _, edx) = cpuid c 1;
          fingerprint = le_bytes 4 eax @ [ucast edx, ucast (drop_bit 8 edx)] @ replicate 26 0;
          out = sha512 stk fingerprint;
          salt_hash = hmac_sha512 stk out (ascii ''styxos-counter-key-v1'')
      in xor_bytes out salt_hash)"

definition counter_head :: "int \<Rightarrow> u8 list" where
  "counter_head count = le_bytes 4 COUNTER_MAGIC @ [word_of_int count]"

definition counter_sector :: "int \<Rightarrow> 'd counter \<Rightarrow> u8 list" where
  "counter_sector count c =
     counter_head count @ hmac_sha512 (stack (cstore c)) (derive_device_key c) (counter_head count) @ replicate 443 0"

definition counter_write :: "int \<Rightarrow> 'd counter \<Rightarrow> 'd counter" where
  "counter_write count c =
     c\<lparr>cstore := snd (usb_msc_write_sector AUTH_COUNTER_LBA (counter_sector count c) (cstore c))\<rparr>"

text \<open>The bytes of the uninitialised buffer are never used: a failed transfer gives zero.\<close>

definition counter_read :: "'d counter \<Rightarrow> (int, 'd counter) run" where
  "counter_read c =
     (case raw_read AUTH_COUNTER_LBA (replicate 512 0) (cstore c) of
        Halt d \<Rightarrow> Halt (c\<lparr>cstore := d\<rparr>)
      | Ret (rc, sector) d \<Rightarrow>
          let c1 = c\<lparr>cstore := d\<rparr> in
          if rc \<noteq> 0 then Ret 0 c1
          else if (le_word (take 4 sector) :: u32) \<noteq> COUNTER_MAGIC then Ret 0 (counter_write 0 c1)
          else if take 64 (drop 5 sector) \<noteq> hmac_sha512 (stack (cstore c)) (derive_device_key c) (take 5 sector)
          then Ret AUTH_COUNTER_MAX c1
          else Ret (uint (sector ! 4)) c1)"

definition auth_counter_init :: "'d counter \<Rightarrow> (unit, 'd counter) run" where
  "auth_counter_init c =
     (let c1 = c\<lparr>g_usb_present := usb_msc_sector_count (cstore c) > 0\<rparr> in
      if \<not> g_usb_present c1 then Ret () (c1\<lparr>g_count := 0\<rparr>)
      else run_bind (counter_read c1) (\<lambda>n c2. Ret () (c2\<lparr>g_count := n\<rparr>)))"

definition auth_counter_get :: "'d counter \<Rightarrow> int" where
  "auth_counter_get c = g_count c"

definition auth_counter_increment :: "'d counter \<Rightarrow> 'd counter" where
  "auth_counter_increment c =
     (let c1 = c\<lparr>g_count := g_count c + 1\<rparr> in if g_usb_present c1 then counter_write (g_count c1) c1 else c1)"

definition auth_counter_reset :: "'d counter \<Rightarrow> 'd counter" where
  "auth_counter_reset c =
     (let c1 = c\<lparr>g_count := 0\<rparr> in if g_usb_present c1 then counter_write 0 c1 else c1)"

definition auth_counter_locked :: "'d counter \<Rightarrow> bool" where
  "auth_counter_locked c = (g_count c \<ge> AUTH_COUNTER_MAX)"

section \<open>The counter sector\<close>

text \<open>What a sector says: zero without the magic number, the maximum when the keyed hash does not fit.\<close>

definition sector_genuine :: "'d counter \<Rightarrow> u8 list \<Rightarrow> bool" where
  "sector_genuine c sector = (take 64 (drop 5 sector) = hmac_sha512 (stack (cstore c)) (derive_device_key c) (take 5 sector))"

definition sector_count :: "'d counter \<Rightarrow> u8 list \<Rightarrow> int" where
  "sector_count c sector =
     (if (le_word (take 4 sector) :: u32) \<noteq> COUNTER_MAGIC then 0
      else if \<not> sector_genuine c sector then AUTH_COUNTER_MAX
      else uint (sector ! 4))"

definition same_device :: "'d counter \<Rightarrow> 'd counter \<Rightarrow> bool" where
  "same_device c c' = (stack (cstore c') = stack (cstore c) \<and> cpuid c' = cpuid c)"

lemma device_key_same: "same_device c c' \<Longrightarrow> derive_device_key c' = derive_device_key c"
  by (simp add: derive_device_key_def same_device_def)

lemma sector_count_same: "same_device c c' \<Longrightarrow> sector_count c' b = sector_count c b"
  using device_key_same [of c c'] by (simp add: sector_count_def sector_genuine_def same_device_def)

lemma length_device_key: "length (stack (cstore c)) = 128 \<Longrightarrow> length (derive_device_key c) = 64"
  by (simp add: derive_device_key_def prod.case_eq_if Let_def sha512_eq_ref hmac_eq_ref xor_bytes_def ascii_def)

lemma length_counter_head [simp]: "length (counter_head n) = 5"
  by (simp add: counter_head_def)

lemma length_counter_mac:
  assumes "length (stack (cstore c)) = 128"
  shows "length (hmac_sha512 (stack (cstore c)) (derive_device_key c) (counter_head n)) = 64"
  using assms length_device_key [OF assms] by (simp add: hmac_eq_ref)

lemma length_counter_sector: "length (stack (cstore c)) = 128 \<Longrightarrow> length (counter_sector n c) = 512"
  by (simp add: counter_sector_def length_counter_mac)

lemma counter_sector_count:
  assumes "length (stack (cstore c)) = 128" "same_device c c'"
  shows "sector_count c' (counter_sector n c) = n mod 256"
proof -
  let ?mac = "hmac_sha512 (stack (cstore c)) (derive_device_key c) (counter_head n)"
  have t5: "take 5 (counter_sector n c) = counter_head n" by (simp add: counter_sector_def)
  have t4: "take 4 (counter_sector n c) = le_bytes 4 COUNTER_MAGIC" by (simp add: counter_sector_def counter_head_def)
  have n4: "counter_sector n c ! 4 = word_of_int n" by (simp add: counter_sector_def counter_head_def nth_append)
  have mac: "take 64 (drop 5 (counter_sector n c)) = ?mac"
    using length_counter_mac [OF assms(1), of n] by (simp add: counter_sector_def)
  have "(le_word (le_bytes 4 COUNTER_MAGIC) :: u32) = COUNTER_MAGIC" by (rule le_word_bytes) simp
  then show ?thesis
    unfolding sector_count_same [OF assms(2)] using mac t5 by (simp add: sector_count_def sector_genuine_def t4 n4 uint_word_of_int)
qed


section \<open>A count that survives power loss\<close>

locale attempt_store =
  fixes load :: "'s \<Rightarrow> (unit, 's) run"
    and bump :: "'s \<Rightarrow> 's"
    and reset :: "'s \<Rightarrow> 's"
    and count :: "'s \<Rightarrow> int"
    and stored :: "'s \<Rightarrow> int"
    and ok :: "'s \<Rightarrow> bool"
    and live :: "'s \<Rightarrow> bool"
    and power_loss :: "'s \<Rightarrow> 's \<Rightarrow> bool"
  assumes load: "ok s \<Longrightarrow> \<exists>s'. load s = Ret () s' \<and> ok s' \<and> live s' \<and> count s' = stored s \<and> stored s' = stored s"
    and stored_byte: "0 \<le> stored s \<and> stored s < 256"
    and bump: "ok s \<Longrightarrow> live s \<Longrightarrow>
      ok (bump s) \<and> live (bump s) \<and> count (bump s) = count s + 1 \<and> stored (bump s) = (count s + 1) mod 256"
    and reset: "ok s \<Longrightarrow> live s \<Longrightarrow> ok (reset s) \<and> live (reset s) \<and> count (reset s) = 0 \<and> stored (reset s) = 0"
    and loss: "ok s \<Longrightarrow> power_loss s s' \<Longrightarrow> ok s' \<and> stored s' = stored s"
begin

lemma bumps:
  assumes "ok s" "live s"
  shows "ok ((bump ^^ n) s) \<and> live ((bump ^^ n) s) \<and> count ((bump ^^ n) s) = count s + int n \<and>
    (0 < n \<longrightarrow> stored ((bump ^^ n) s) = (count s + int n) mod 256)"
proof (induction n)
  case (Suc n)
  then show ?case using bump [of "(bump ^^ n) s"] by (simp add: algebra_simps)
qed (use assms in simp)

text \<open>A boot loads the stored count; after a number of failed attempts and a power loss the next boot loads that many more.\<close>

lemma attempts_counted:
  assumes "ok s"
  shows "\<exists>s1. load s = Ret () s1 \<and> count s1 = stored s \<and>
    (\<forall>s2. power_loss ((bump ^^ n) s1) s2 \<longrightarrow> (\<exists>s3. load s2 = Ret () s3 \<and> count s3 = (stored s + int n) mod 256))"
proof -
  obtain s1 where s1: "load s = Ret () s1" "ok s1" "live s1" "count s1 = stored s" "stored s1 = stored s" using load [OF assms] by blast
  let ?t = "(bump ^^ n) s1"
  have t: "ok ?t" "stored ?t = (stored s + int n) mod 256"
    using bumps [OF s1(2,3), of n] s1(4,5) stored_byte [of s] by (cases n; simp)+
  then have "\<exists>s3. load s2 = Ret () s3 \<and> count s3 = (stored s + int n) mod 256" if "power_loss ?t s2" for s2
    using loss [OF t(1) that] load [of s2] by auto
  then show ?thesis using s1 by blast
qed

text \<open>The same from a reset on.\<close>

lemma attempts_after_reset:
  assumes "ok s" "live s"
  shows "ok ((bump ^^ n) (reset s)) \<and> stored ((bump ^^ n) (reset s)) = int n mod 256"
  using bumps [of "reset s" n] reset [OF assms] by (cases n) simp_all

end

definition counter_ok :: "('d \<Rightarrow> u32 \<Rightarrow> u8 list) \<Rightarrow> ('d \<Rightarrow> bool) \<Rightarrow> 'd counter \<Rightarrow> bool" where
  "counter_ok content ready c =
     (raw_ok content ready (cstore c) \<and> g_sector_cnt (cstore c) \<noteq> 0 \<and> length (stack (cstore c)) = 128)"

definition stored_count :: "('d \<Rightarrow> u32 \<Rightarrow> u8 list) \<Rightarrow> 'd counter \<Rightarrow> int" where
  "stored_count content c = sector_count c (content (dev (cstore c)) AUTH_COUNTER_LBA)"

definition counter_power_loss :: "'d counter \<Rightarrow> 'd counter \<Rightarrow> bool" where
  "counter_power_loss c c' = (\<exists>n b. c' = c\<lparr>g_count := n, g_usb_present := b\<rparr>)"

lemma same_deviceI [simp]:
  "same_storage (cstore c) d \<Longrightarrow> same_device c (c\<lparr>cstore := d\<rparr>)"
  "same_device c c" "same_device c (c\<lparr>g_count := n\<rparr>)" "same_device c (c\<lparr>g_usb_present := b\<rparr>)"
  by (simp_all add: same_device_def same_storageD)

lemma counter_write_ok:
  assumes "counter_ok content ready c"
  shows "counter_ok content ready (counter_write n c) \<and> same_device c (counter_write n c) \<and>
    g_usb_present (counter_write n c) = g_usb_present c \<and> g_count (counter_write n c) = g_count c \<and>
    content (dev (cstore (counter_write n c))) = (content (dev (cstore c)))(AUTH_COUNTER_LBA := counter_sector n c)"
proof -
  let ?d = "snd (usb_msc_write_sector AUTH_COUNTER_LBA (counter_sector n c) (cstore c))"
  have len: "length (stack (cstore c)) = 128" and ok: "raw_ok content ready (cstore c)" and n: "g_sector_cnt (cstore c) \<noteq> 0"
    using assms by (simp_all add: counter_ok_def)
  have same: "same_storage (cstore c) ?d" by (rule write_same)
  show ?thesis
    using raw_write_content [OF ok length_counter_sector [OF len]] same same_storageD [OF same] len n
    by (simp add: counter_write_def counter_ok_def)
qed

lemma counter_write_stored:
  assumes "counter_ok content ready c"
  shows "stored_count content (counter_write n c) = n mod 256"
  using counter_write_ok [OF assms, of n] counter_sector_count [of c "counter_write n c" n] assms
  by (simp add: stored_count_def counter_ok_def)

lemma raw_read_content:
  assumes "raw_ok content ready s" "length buf = 512"
  shows "\<exists>s'. raw_read lba buf s = Ret (0, content (dev s) lba) s' \<and> same_storage s s' \<and> raw_ok content ready s' \<and>
    content (dev s') = content (dev s)"
proof -
  have off: "s\<lparr>g_encryption_enabled := False\<rparr> = s" using assms(1) by (simp add: raw_ok_def)
  have "disk_ok content ready s" using assms(1) by (simp add: disk_ok_def raw_ok_def)
  then obtain s' where r: "usb_msc_read_sector lba buf s = Ret (0, sector_view content s lba) s'" and
      ok: "disk_ok content ready s'" and v: "sector_view content s' = sector_view content s" and same: "same_storage s s'"
    using usb.rd_view [of content ready s buf lba] assms(2) by blast
  have e: "\<not> g_encryption_enabled s" "\<not> g_encryption_enabled s'"
    using assms(1) same_storageD(1) [OF same] by (simp_all add: raw_ok_def)
  have "content (dev s') = content (dev s)" using v e by (auto simp: sector_view_def fun_eq_iff)
  moreover have "raw_read lba buf s = Ret (0, content (dev s) lba) s'" using r e by (simp add: raw_read_def off sector_view_def)
  moreover have "raw_ok content ready s'" using ok e by (simp add: disk_ok_def raw_ok_def)
  ultimately show ?thesis using same by blast
qed

lemma counter_read_ok:
  assumes "counter_ok content ready c"
  shows "\<exists>c'. counter_read c = Ret (stored_count content c) c' \<and> counter_ok content ready c' \<and> g_usb_present c' = g_usb_present c \<and>
    stored_count content c' = stored_count content c"
proof -
  let ?s = "content (dev (cstore c)) AUTH_COUNTER_LBA"
  obtain d where r: "raw_read AUTH_COUNTER_LBA (replicate 512 0) (cstore c) = Ret (0, ?s) d" and same: "same_storage (cstore c) d"
      and ok: "raw_ok content ready d" and c: "content (dev d) = content (dev (cstore c))"
    using raw_read_content [of content ready "cstore c" "replicate 512 0" AUTH_COUNTER_LBA] assms by (auto simp: counter_ok_def)
  let ?c1 = "c\<lparr>cstore := d\<rparr>"
  have c1: "counter_ok content ready ?c1" "stored_count content ?c1 = stored_count content c" "same_device c ?c1"
    using assms ok same same_storageD [OF same] sector_count_same [of c ?c1] by (simp_all add: counter_ok_def stored_count_def c)
  show ?thesis
  proof (cases "(le_word (take 4 ?s) :: u32) = COUNTER_MAGIC")
    case True
    then show ?thesis using r c1 by (simp add: counter_read_def stored_count_def [of content c] sector_count_def sector_genuine_def)
  next
    case False
    then show ?thesis using r c1 counter_write_ok [OF c1(1), of 0] counter_write_stored [OF c1(1), of 0]
      by (simp add: counter_read_def stored_count_def [of content c] sector_count_def)
  qed
qed

lemma counter_init_ok:
  assumes "counter_ok content ready c"
  shows "\<exists>c'. auth_counter_init c = Ret () c' \<and> counter_ok content ready c' \<and> g_usb_present c' \<and>
    auth_counter_get c' = stored_count content c \<and> stored_count content c' = stored_count content c"
proof -
  let ?c = "c\<lparr>g_usb_present := True\<rparr>"
  have "counter_ok content ready ?c" "stored_count content ?c = stored_count content c"
    using assms sector_count_same [of c ?c] by (simp_all add: counter_ok_def stored_count_def)
  moreover have "usb_msc_sector_count (cstore c) > 0"
    using assms by (simp add: counter_ok_def usb_msc_sector_count_def word_neq_0_conv)
  moreover have "stored_count content (c1\<lparr>g_count := n\<rparr>) = stored_count content c1" for c1 n
    using sector_count_same [of c1 "c1\<lparr>g_count := n\<rparr>"] by (simp add: stored_count_def)
  ultimately show ?thesis using counter_read_ok [of content ready ?c]
    by (auto simp: auth_counter_init_def auth_counter_get_def counter_ok_def)
qed

lemma stored_count_byte: "0 \<le> stored_count content c \<and> stored_count content c < 256"
  using uint_lt2p [of "content (dev (cstore c)) AUTH_COUNTER_LBA ! 4"] by (simp add: stored_count_def sector_count_def)

lemma counter_ok_ram [simp]:
  "counter_ok content ready (c\<lparr>g_count := n\<rparr>) = counter_ok content ready c"
  "counter_ok content ready (c\<lparr>g_usb_present := b\<rparr>) = counter_ok content ready c"
  by (simp_all add: counter_ok_def)

lemma counter_bump_ok:
  assumes "counter_ok content ready c" "g_usb_present c"
  shows "counter_ok content ready (auth_counter_increment c) \<and> g_usb_present (auth_counter_increment c) \<and>
    auth_counter_get (auth_counter_increment c) = auth_counter_get c + 1 \<and>
    stored_count content (auth_counter_increment c) = (auth_counter_get c + 1) mod 256"
  using assms counter_write_ok [of content ready "c\<lparr>g_count := g_count c + 1\<rparr>" "g_count c + 1"]
    counter_write_stored [of content ready "c\<lparr>g_count := g_count c + 1\<rparr>" "g_count c + 1"]
  by (simp add: auth_counter_increment_def auth_counter_get_def Let_def)

lemma counter_reset_ok:
  assumes "counter_ok content ready c" "g_usb_present c"
  shows "counter_ok content ready (auth_counter_reset c) \<and> g_usb_present (auth_counter_reset c) \<and>
    auth_counter_get (auth_counter_reset c) = 0 \<and> stored_count content (auth_counter_reset c) = 0"
  using assms counter_write_ok [of content ready "c\<lparr>g_count := 0\<rparr>" 0] counter_write_stored [of content ready "c\<lparr>g_count := 0\<rparr>" 0]
  by (simp add: auth_counter_reset_def auth_counter_get_def Let_def)

interpretation attempts: attempt_store auth_counter_init auth_counter_increment auth_counter_reset auth_counter_get
    "stored_count content" "counter_ok content ready" g_usb_present counter_power_loss
  for content ready
proof
  show "counter_ok content ready s' \<and> stored_count content s' = stored_count content s"
    if "counter_ok content ready s" "counter_power_loss s s'" for s s'
    using that sector_count_same [of s s'] by (auto simp: counter_power_loss_def stored_count_def same_device_def)
qed (fact counter_init_ok stored_count_byte counter_bump_ok counter_reset_ok)+

section \<open>Properties\<close>

text \<open>C16: Failed attempts are counted across reboots.  On a working disk and while encryption is off, as it is until a log-in succeeds, a boot
  loads the count that sector 5 holds; after any number of further failed attempts and a loss of power, which forgets the memory, the
  next boot loads that many more, modulo the byte it is stored in, and is locked out from three on.\<close>

theorem attempts_survive_reboot:
  assumes "counter_ok content ready c"
  shows "\<exists>c1 c2. auth_counter_init c = Ret () c1 \<and> auth_counter_get c1 = stored_count content c \<and>
    auth_counter_init (((auth_counter_increment ^^ n) c1)\<lparr>g_count := x, g_usb_present := b\<rparr>) = Ret () c2 \<and>
    auth_counter_get c2 = (stored_count content c + int n) mod 256 \<and>
    (auth_counter_locked c2 \<longleftrightarrow> 3 \<le> (stored_count content c + int n) mod 256)"
proof -
  have "counter_power_loss s (s\<lparr>g_count := x, g_usb_present := b\<rparr>)" for s :: "'a counter"
    unfolding counter_power_loss_def by blast
  then show ?thesis
    using attempts.attempts_counted [OF assms, of n] unfolding auth_counter_locked_def auth_counter_get_def by metis
qed

text \<open>The counter that a boot loads is locked exactly when sector 5 has the magic number and either its keyed hash does
  not fit or it holds a count of three or more: every change of the first five bytes or the hash that keeps the magic
  number and misses the hash locks the machine, and a sector without the magic number counts as no attempts.\<close>

theorem counter_locked_exact:
  assumes "counter_ok content ready c" "sector = content (dev (cstore c)) AUTH_COUNTER_LBA"
  shows "\<exists>c'. auth_counter_init c = Ret () c' \<and>
    (auth_counter_locked c' \<longleftrightarrow> (le_word (take 4 sector) :: u32) = COUNTER_MAGIC \<and>
      (take 64 (drop 5 sector) \<noteq> hmac_sha512 (stack (cstore c)) (derive_device_key c) (take 5 sector) \<or> 3 \<le> uint (sector ! 4)))"
  using counter_init_ok [OF assms(1)] assms(2)
  by (auto simp: auth_counter_locked_def auth_counter_get_def stored_count_def sector_count_def sector_genuine_def)

section \<open>Witnesses\<close>

definition wcounter :: "ramdisk counter" where
  "wcounter = \<lparr>cstore = wstorage\<lparr>g_encryption_enabled := False\<rparr>, cpuid = (\<lambda>_. (0x306A9, 0, 0, 0x178BFBFF)), g_count = 0,
     g_usb_present = True\<rparr>"

lemma wcounter_ok: "counter_ok fst ram_ready wcounter" "g_usb_present wcounter"
  using wstorage_ok by (simp_all add: counter_ok_def wcounter_def raw_ok_def) (simp add: wstorage_def)

lemma wcounter_stored: "stored_count fst wcounter = 0"
proof -
  have "(le_word (take 4 (replicate 512 0)) :: u32) \<noteq> COUNTER_MAGIC" by code_simp
  then show ?thesis by (simp add: stored_count_def sector_count_def wcounter_def wstorage_def del: take_replicate)
qed

theorem attempts_survive_reboot_witness:
  "\<exists>c1 c2. auth_counter_init wcounter = Ret () c1 \<and>
     auth_counter_init (((auth_counter_increment ^^ 3) c1)\<lparr>g_count := 0, g_usb_present := False\<rparr>) = Ret () c2 \<and>
     auth_counter_get c2 = 3 \<and> auth_counter_locked c2"
proof -
  have "\<exists>c1 c2. auth_counter_init wcounter = Ret () c1 \<and> auth_counter_get c1 = stored_count fst wcounter \<and>
      auth_counter_init (((auth_counter_increment ^^ 3) c1)\<lparr>g_count := 0, g_usb_present := False\<rparr>) = Ret () c2 \<and>
      auth_counter_get c2 = (stored_count fst wcounter + int 3) mod 256 \<and>
      (auth_counter_locked c2 \<longleftrightarrow> 3 \<le> (stored_count fst wcounter + int 3) mod 256)"
    by (rule attempts_survive_reboot [OF wcounter_ok(1)])
  then show ?thesis unfolding wcounter_stored by simp blast
qed

theorem counter_locked_exact_witness:
  "\<exists>c'. auth_counter_init wcounter = Ret () c' \<and> \<not> auth_counter_locked c'"
proof -
  have "fst (dev (cstore wcounter)) AUTH_COUNTER_LBA = replicate 512 0" by (simp add: wcounter_def wstorage_def)
  moreover have "(le_word (take 4 (replicate 512 0)) :: u32) \<noteq> COUNTER_MAGIC" by code_simp
  ultimately show ?thesis using counter_locked_exact [OF wcounter_ok(1) refl] by auto
qed

end
