(* ===== verification/Fido2.thy ===== *)
theory Fido2
  imports Net Sha512
begin

unbundle bit_operations_syntax

text \<open>
  The second factor of the log-in, \<^verbatim>\<open>src/kernel/fido2.c\<close>, with the USB HID layer under it, \<^verbatim>\<open>usb_hid.c\<close>.  The answer of
  the processor to CPUID for a leaf (EAX, EBX, ECX, EDX) is the argument \<open>cpu\<close>, and \<open>stk\<close> stands for the
  uninitialised stack bytes that the hash contexts are placed on, as in theory \<open>Sha512\<close>.
\<close>

section \<open>HID layer\<close>

record hid_state =
  g_hid_present :: bool

definition usb_hid_init :: "hid_state \<Rightarrow> bool \<times> hid_state" where
  "usb_hid_init h = (False, h\<lparr>g_hid_present := False\<rparr>)"

definition usb_hid_send_report :: "u8 list \<Rightarrow> hid_state \<Rightarrow> int" where
  "usb_hid_send_report report h = (if \<not> g_hid_present h then - 1 else 0)"

definition usb_hid_recv_report :: "u8 list \<Rightarrow> hid_state \<Rightarrow> int \<times> u8 list" where
  "usb_hid_recv_report report h = (if \<not> g_hid_present h then (- 1, report) else (0, replicate 64 0))"

section \<open>Assertions\<close>

type_synonym cpuid_regs = "u32 \<times> u32 \<times> u32 \<times> u32"

abbreviation FIDO2_CHALLENGE_SIZE :: nat where "FIDO2_CHALLENGE_SIZE \<equiv> 32"

definition fingerprint_raw :: "(u32 \<Rightarrow> cpuid_regs) \<Rightarrow> u8 list" where
  "fingerprint_raw cpu =
     (let (eax, ebx, ecx, edx) = cpu 1;
          (_, ebx0, ecx0, edx0) = cpu 0
      in le_bytes 4 eax @ le_bytes 4 edx @ [ucast ebx, ucast ecx] @
         [ucast ebx0, ucast (drop_bit 8 ebx0), ucast edx0, ucast (drop_bit 8 edx0), ucast ecx0, ucast (drop_bit 8 ecx0)] @
         replicate 48 0)"

definition derive_device_fingerprint :: "u8 list \<Rightarrow> (u32 \<Rightarrow> cpuid_regs) \<Rightarrow> u8 list" where
  "derive_device_fingerprint stk cpu =
     hmac_sha512 stk (take 16 (fingerprint_raw cpu)) (ascii ''styxos-fido2-cred-v1'')"

definition build_authenticator_data :: "u8 list \<Rightarrow> u8 list \<Rightarrow> u32 \<Rightarrow> u8 list" where
  "build_authenticator_data stk challenge sign_count =
     take 32 (sha512 stk (ascii ''styxos.io'')) @ [0x01] @ be_bytes 4 sign_count"

definition fido2_device_detect :: "hid_state \<Rightarrow> bool \<times> hid_state" where
  "fido2_device_detect h = usb_hid_init h"

text \<open>A PIN is a C string; \<open>None\<close> is the NULL pointer.\<close>

definition fido2_emulate_assertion ::
  "u8 list \<Rightarrow> (u32 \<Rightarrow> cpuid_regs) \<Rightarrow> u8 list \<Rightarrow> u8 list option \<Rightarrow> int \<times> u8 list" where
  "fido2_emulate_assertion stk cpu challenge pin =
     (let device_fp = derive_device_fingerprint stk cpu;
          pin_hash = (case pin of
              None \<Rightarrow> replicate 64 0
            | Some p \<Rightarrow> if p = [] then replicate 64 0 else sha512 stk p);
          auth_data = build_authenticator_data stk challenge 1;
          ikm = take FIDO2_CHALLENGE_SIZE challenge @ pin_hash;
          prk = hkdf_sha512_extract stk device_fp ikm;
          private_key = hkdf_sha512_expand stk prk (ascii ''styxos-fido2-signing-key'') 64;
          to_sign = auth_data @ take FIDO2_CHALLENGE_SIZE challenge
      in (0, hmac_sha512 stk private_key to_sign))"

definition fido2_get_assertion ::
  "u8 list \<Rightarrow> (u32 \<Rightarrow> cpuid_regs) \<Rightarrow> u8 list \<Rightarrow> u8 list option \<Rightarrow> u8 list \<Rightarrow> hid_state \<Rightarrow> int \<times> u8 list \<times> hid_state" where
  "fido2_get_assertion stk cpu challenge pin secret h =
     (let (found, h1) = fido2_device_detect h in
      if \<not> found then (- 1, secret, h1)
      else let (rc, s) = fido2_emulate_assertion stk cpu challenge pin in (rc, s, h1))"

section \<open>The assertion against its definition\<close>

definition fido2_fingerprint_ref :: "(u32 \<Rightarrow> cpuid_regs) \<Rightarrow> u8 list" where
  "fido2_fingerprint_ref cpu = hmac_ref (take 16 (fingerprint_raw cpu)) (ascii ''styxos-fido2-cred-v1'')"

definition fido2_assertion_ref :: "(u32 \<Rightarrow> cpuid_regs) \<Rightarrow> u8 list \<Rightarrow> u8 list option \<Rightarrow> u8 list" where
  "fido2_assertion_ref cpu challenge pin =
     (let prk = hmac_ref (fido2_fingerprint_ref cpu)
            (challenge @ (case pin of None \<Rightarrow> replicate 64 0 | Some p \<Rightarrow> if p = [] then replicate 64 0 else sha512_ref p));
          key = hkdf_T prk (ascii ''styxos-fido2-signing-key'') 1
      in hmac_ref key (take 32 (sha512_ref (ascii ''styxos.io'')) @ [0x01, 0, 0, 0, 1] @ challenge))"

lemma hkdf_expand_64:
  assumes "length stk = 128" "length prk = 64" "length info \<le> 128"
  shows "hkdf_sha512_expand stk prk info 64 = hkdf_T prk info 1"
  using hkdf_loop_eq [OF assms(1,3,2), of 1 "[]" 1 64] assms(2) by (simp add: hkdf_sha512_expand_def)

lemma hkdf_extract_eq:
  assumes "length stk = 128" "salt \<noteq> []" "length salt < 2 ^ 61" "length ikm + 128 < 2 ^ 61"
  shows "hkdf_sha512_extract stk salt ikm = hmac_ref salt ikm"
  using assms by (simp add: hkdf_sha512_extract_def hmac_eq_ref)

lemma length_hkdf_T1: "length (hkdf_T prk info (Suc 0)) = 64"
  by simp

text \<open>The software assertion is the documented construction over the standard functions: an HMAC of the authenticator data
  and the challenge, under the HKDF key of the challenge and the PIN hash salted with the device fingerprint; it always
  succeeds with 64 bytes.  The hardware path never does: no security key is ever detected, so the assertion is a function
  of the processor identification, the challenge and the PIN alone.\<close>

theorem fido2_assertion_correct:
  assumes "length stk = 128" "length challenge = FIDO2_CHALLENGE_SIZE" "\<forall>p. pin = Some p \<longrightarrow> length p < 2 ^ 61"
  shows "fido2_emulate_assertion stk cpu challenge pin = (0, fido2_assertion_ref cpu challenge pin) \<and>
    length (fido2_assertion_ref cpu challenge pin) = 64 \<and>
    fido2_get_assertion stk cpu challenge pin secret h = (- 1, secret, h\<lparr>g_hid_present := False\<rparr>)"
proof -
  have fp: "derive_device_fingerprint stk cpu = fido2_fingerprint_ref cpu"
    using assms(1) by (simp add: derive_device_fingerprint_def fido2_fingerprint_ref_def hmac_eq_ref ascii_def)
  have fp0: "fido2_fingerprint_ref cpu \<noteq> []"
    using length_hmac_ref by (metis fido2_fingerprint_ref_def list.size(3) zero_neq_numeral)
  have be: "be_bytes 4 (1 :: u32) = [0, 0, 0, 1]" by code_simp
  let ?ph = "case pin of None \<Rightarrow> replicate 64 0 | Some p \<Rightarrow> if p = [] then replicate 64 0 else sha512 stk p"
  have ph: "?ph = (case pin of None \<Rightarrow> replicate 64 0 | Some p \<Rightarrow> if p = [] then replicate 64 0 else sha512_ref p)"
      "length ?ph = 64"
    using assms(1,3) by (auto simp: sha512_eq_ref split: option.split)
  have prk: "hkdf_sha512_extract stk (fido2_fingerprint_ref cpu) (challenge @ ?ph) = hmac_ref (fido2_fingerprint_ref cpu) (challenge @ ?ph)"
    using assms(1,2) fp0 ph(2) by (intro hkdf_extract_eq) (simp_all add: fido2_fingerprint_ref_def)
  have info: "length (ascii ''styxos-fido2-signing-key'') \<le> 128" by (simp add: ascii_def)
  have sha: "sha512 stk (ascii ''styxos.io'') = sha512_ref (ascii ''styxos.io'')"
    using assms(1) by (simp add: sha512_eq_ref ascii_def)
  have e: "fido2_emulate_assertion stk cpu challenge pin = (0, fido2_assertion_ref cpu challenge pin)"
    using assms(1,2)
    by (simp add: fido2_emulate_assertion_def fido2_assertion_ref_def Let_def fp prk hkdf_expand_64 [OF assms(1) _ info] ph(1) [symmetric]
        build_authenticator_data_def sha be hmac_eq_ref length_hkdf_T1 del: hkdf_T.simps)
  moreover have "length (fido2_assertion_ref cpu challenge pin) = 64" by (simp add: fido2_assertion_ref_def Let_def)
  ultimately show ?thesis by (simp add: fido2_get_assertion_def fido2_device_detect_def usb_hid_init_def)
qed

theorem fido2_assertion_correct_witness:
  "fst (fido2_emulate_assertion (replicate 128 0) (\<lambda>_. (1, 2, 3, 4)) (replicate 32 7) None) = 0 \<and>
   length (snd (fido2_emulate_assertion (replicate 128 0) (\<lambda>_. (1, 2, 3, 4)) (replicate 32 7) None)) = 64"
  using fido2_assertion_correct [of "replicate 128 0" "replicate 32 7" None "\<lambda>_. (1, 2, 3, 4)"] by simp

end
