(* ===== verification/Snapshot_Store.thy ===== *)
theory Snapshot_Store
  imports Oram Gcm
begin

unbundle bit_operations_syntax

text \<open>
  The sealed blocks of a session snapshot, the key handling and the block input and output of \<^verbatim>\<open>src/kernel/snapshot.c\<close>: the
  snapshot key, the layout of a sealed 512-byte sector (480 bytes of ciphertext, IV, tag, block number), the loop of
  \<^verbatim>\<open>snapshot_save\<close> that writes the blocks through the oblivious RAM with block 0 last, and the loop of
  \<^verbatim>\<open>snapshot_restore\<close> that reads them back.  The serialisation buffer is a list of 32768 bytes; an access beyond its end
  has no described value and gives \<open>None\<close>.
\<close>

section \<open>The key\<close>

record snap_key =
  g_snapshot_key :: "u8 list"
  g_snapshot_key_set :: bool
  g_sequence_number :: u64

definition snapshot_set_key :: "u8 list \<Rightarrow> u8 list option \<Rightarrow> snap_key \<Rightarrow> snap_key" where
  "snapshot_set_key stk auth_derived_key k =
     (case auth_derived_key of
        None \<Rightarrow> k
      | Some a \<Rightarrow>
          let prk = hkdf_sha512_extract stk (take 32 a) (take 32 (drop 32 a))
          in k\<lparr>g_snapshot_key := hkdf_sha512_expand stk prk (ascii ''styxos-snapshot-key-v1'') 32, g_snapshot_key_set := True\<rparr>)"

definition snapshot_zero_key :: "snap_key \<Rightarrow> snap_key" where
  "snapshot_zero_key k = k\<lparr>g_snapshot_key := replicate 32 0, g_snapshot_key_set := False\<rparr>"

section \<open>Sealed sectors\<close>

abbreviation BLOCK_PAYLOAD :: nat where "BLOCK_PAYLOAD \<equiv> 480"
abbreviation HEADER_SIZE :: nat where "HEADER_SIZE \<equiv> 568"
abbreviation SERIALIZE_SIZE :: nat where "SERIALIZE_SIZE \<equiv> 32768"

definition snap_iv :: "nat \<Rightarrow> u64 \<Rightarrow> u8 list" where
  "snap_iv lba sequence = be_bytes 4 (word_of_nat lba :: u32) @ be_bytes 8 sequence"

definition seal_sector :: "aes_gcm_ctx \<Rightarrow> u64 \<Rightarrow> nat \<Rightarrow> u8 list \<Rightarrow> u8 list" where
  "seal_sector ctx sequence lba pt =
     (let iv = snap_iv lba sequence;
          (ct, tag) = aes_gcm_encrypt ctx iv iv pt
      in ct @ iv @ tag @ be_bytes 4 (word_of_nat lba :: u32))"

definition open_sector :: "aes_gcm_ctx \<Rightarrow> u8 list \<Rightarrow> int \<times> u8 list" where
  "open_sector ctx sector =
     (let iv = take 12 (drop 480 sector);
          tag = take 16 (drop 492 sector)
      in aes_gcm_decrypt ctx iv iv (take BLOCK_PAYLOAD sector) tag)"

section \<open>Writing and reading the blocks\<close>

definition payload_at :: "nat \<Rightarrow> u8 list \<Rightarrow> u8 list" where
  "payload_at lba buf = take BLOCK_PAYLOAD (drop (HEADER_SIZE + (lba - 1) * BLOCK_PAYLOAD) buf)"

definition payload_fits :: "nat \<Rightarrow> u8 list \<Rightarrow> bool" where
  "payload_fits lba buf = (HEADER_SIZE + (lba - 1) * BLOCK_PAYLOAD + BLOCK_PAYLOAD \<le> length buf)"

fun snap_write_sectors :: "aes_gcm_ctx \<Rightarrow> u64 \<Rightarrow> u8 list \<Rightarrow> nat list \<Rightarrow> 'd oram \<Rightarrow> (int, 'd oram) run option" where
  "snap_write_sectors ctx sequence buf [] o' = Some (Ret 0 o')"
| "snap_write_sectors ctx sequence buf (lba # lbas) o' =
     (if \<not> payload_fits lba buf then None
      else
        case oram_access (word_of_nat lba) True (seal_sector ctx sequence lba (payload_at lba buf)) o' of
          Halt o1 \<Rightarrow> Some (Halt o1)
        | Ret (rc, _) o1 \<Rightarrow> if rc \<noteq> 0 then Some (Ret (- 1) o1) else snap_write_sectors ctx sequence buf lbas o1)"

text \<open>The data blocks first, then the commit: the header block is written last.\<close>

definition write_snapshot :: "aes_gcm_ctx \<Rightarrow> u64 \<Rightarrow> u8 list \<Rightarrow> nat \<Rightarrow> 'd oram \<Rightarrow> (int, 'd oram) run option" where
  "write_snapshot ctx sequence buf total_sectors o' =
     (case snap_write_sectors ctx sequence buf [1..<Suc total_sectors] o' of
        None \<Rightarrow> None
      | Some (Halt o1) \<Rightarrow> Some (Halt o1)
      | Some (Ret rc o1) \<Rightarrow>
          if rc \<noteq> 0 then Some (Ret rc o1)
          else
            case oram_access 0 True (seal_sector ctx sequence 0 (take BLOCK_PAYLOAD buf)) o1 of
              Halt o2 \<Rightarrow> Some (Halt o2)
            | Ret (rc2, _) o2 \<Rightarrow> Some (Ret (if rc2 \<noteq> 0 then - 1 else 0) o2))"

definition put_payload :: "nat \<Rightarrow> u8 list \<Rightarrow> u8 list \<Rightarrow> u8 list" where
  "put_payload lba pt buf =
     (let off = HEADER_SIZE + (lba - 1) * BLOCK_PAYLOAD in take off buf @ pt @ drop (off + length pt) buf)"

text \<open>The sector buffers are uninitialised stack memory, which a read overwrites.\<close>

fun snap_read_sectors :: "aes_gcm_ctx \<Rightarrow> nat list \<Rightarrow> u8 list \<Rightarrow> 'd oram \<Rightarrow> (int \<times> u8 list, 'd oram) run option" where
  "snap_read_sectors ctx [] buf o' = Some (Ret (0, buf) o')"
| "snap_read_sectors ctx (lba # lbas) buf o' =
     (case oram_access (word_of_nat lba) False (replicate 512 0) o' of
        Halt o1 \<Rightarrow> Some (Halt o1)
      | Ret (rc, sector) o1 \<Rightarrow>
          if rc \<noteq> 0 then Some (Ret (- 1, buf) o1)
          else if \<not> payload_fits lba buf then None
          else
            let (rc2, pt) = open_sector ctx sector; buf1 = put_payload lba pt buf
            in if rc2 \<noteq> 0 then Some (Ret (- 1, buf1) o1) else snap_read_sectors ctx lbas buf1 o1)"

section \<open>Lemmas\<close>

lemma length_snap_iv [simp]: "length (snap_iv lba sequence) = 12"
  by (simp add: snap_iv_def)

lemma gcm_encrypt_decrypt:
  assumes "aes_gcm_encrypt (aes_gcm_init key) iv aad pt = (ct, tag)"
  shows "aes_gcm_decrypt (aes_gcm_init key) iv aad ct tag = (0, pt)" "length ct = length pt" "length tag = 16"
  using assms by (auto simp: aes_gcm_encrypt_def aes_gcm_decrypt_def Let_def gcmctr.f_involution gcmctr.length_f aes_gcm_init_def length_ghash)

lemma length_seal: "length pt = 480 \<Longrightarrow> length (seal_sector (aes_gcm_init key) sequence lba pt) = 512"
  using gcm_encrypt_decrypt [OF prod.collapse [symmetric], of key "snap_iv lba sequence" "snap_iv lba sequence" pt]
  by (simp add: seal_sector_def Let_def prod.case_eq_if)

text \<open>Only the first 508 bytes of a sealed sector matter to its opening, which are the bytes the oblivious RAM keeps.\<close>

lemma open_sector_508: "open_sector ctx (take 508 s) = open_sector ctx s"
  by (simp add: open_sector_def drop_take)

lemma open_seal:
  assumes "length pt = 480"
  shows "open_sector (aes_gcm_init key) (seal_sector (aes_gcm_init key) sequence lba pt) = (0, pt)"
proof -
  let ?iv = "snap_iv lba sequence"
  obtain ct tag where e: "aes_gcm_encrypt (aes_gcm_init key) ?iv ?iv pt = (ct, tag)" by force
  note r = gcm_encrypt_decrypt [OF e]
  have s: "seal_sector (aes_gcm_init key) sequence lba pt = ct @ ?iv @ tag @ be_bytes 4 (word_of_nat lba :: u32)"
    by (simp add: seal_sector_def e)
  have "drop 492 (seal_sector (aes_gcm_init key) sequence lba pt) = tag @ be_bytes 4 (word_of_nat lba :: u32)"
    using r(2) assms by (simp add: s)
  then show ?thesis using r assms by (simp add: open_sector_def s)
qed

lemma open_stored:
  assumes "length pt = 480" "take 508 out = take 508 (seal_sector (aes_gcm_init key) sequence lba pt)"
  shows "open_sector (aes_gcm_init key) out = (0, pt)"
  using open_seal [OF assms(1)] assms(2) by (metis open_sector_508)

lemma length_payload_at: "payload_fits l buf \<Longrightarrow> length (payload_at l buf) = 480"
  unfolding payload_at_def payload_fits_def length_take length_drop by linarith

lemma unat_block: "l < 64 \<Longrightarrow> unat (word_of_nat l :: u32) = l"
  by (simp add: unsigned_of_nat take_bit_nat_eq_self)

lemma snap_write_sectors_ok:
  assumes "oram_inv content ready o'" "\<forall>l \<in> set lbas. l < 64 \<and> payload_fits l buf"
  shows "\<exists>o1. snap_write_sectors (aes_gcm_init key) sequence buf lbas o' = Some (Ret 0 o1) \<and> oram_inv content ready o1 \<and>
    (\<forall>b. oram_value content o1 b =
      (if b \<in> word_of_nat ` set lbas then take 508 (seal_sector (aes_gcm_init key) sequence (unat b) (payload_at (unat b) buf))
       else oram_value content o' b))"
  using assms
proof (induction lbas arbitrary: o')
  case (Cons l lbas)
  let ?sec = "\<lambda>l. seal_sector (aes_gcm_init key) sequence l (payload_at l buf)"
  have u: "unat (word_of_nat l :: u32) = l" using Cons.prems(2) by (simp add: unat_block)
  have pl: "length (payload_at l buf) = 480" using Cons.prems(2) by (simp add: length_payload_at)
  obtain out o1 where o1: "oram_access (word_of_nat l) True (?sec l) o' = Ret (0, out) o1" "oram_inv content ready o1"
      "oram_value content o1 = (oram_value content o')(word_of_nat l := take 508 (?sec l))"
    using oram_array.acc_write [OF Cons.prems(1), of "word_of_nat l" "?sec l"] u pl length_seal Cons.prems(2) by auto
  obtain o2 where o2: "snap_write_sectors (aes_gcm_init key) sequence buf lbas o1 = Some (Ret 0 o2)" "oram_inv content ready o2"
      "\<And>b. oram_value content o2 b = (if b \<in> word_of_nat ` set lbas then take 508 (?sec (unat b)) else oram_value content o1 b)"
    using Cons.IH [OF o1(2)] Cons.prems(2) by auto
  show ?case using o1 o2 u Cons.prems(2) by (auto simp: o1(3))
qed simp

text \<open>The sequence number and the block number under which a block was sealed play no role in its opening.\<close>

lemma snap_read_sectors_ok:
  assumes "oram_inv content ready o'" "length buf = SERIALIZE_SIZE" "distinct lbas"
    "\<forall>l \<in> set lbas. 0 < l \<and> l < 64 \<and> payload_fits l buf \<and> length (pt l) = 480 \<and>
       oram_value content o' (word_of_nat l) = take 508 (seal_sector (aes_gcm_init key) (sequence l) (origin l) (pt l))"
  shows "\<exists>o1. snap_read_sectors (aes_gcm_init key) lbas buf o' = Some (Ret (0, fold (\<lambda>l. put_payload l (pt l)) lbas buf) o1) \<and>
    oram_inv content ready o1 \<and> oram_value content o1 = oram_value content o'"
  using assms
proof (induction lbas arbitrary: o' buf)
  case (Cons l lbas)
  have u: "unat (word_of_nat l :: u32) = l" using Cons.prems(4) by (simp add: unat_block)
  obtain out o1 where o1: "oram_access (word_of_nat l) False (replicate 512 0) o' = Ret (0, out) o1" "oram_inv content ready o1"
      "oram_value content o1 = oram_value content o'" "take 508 out = oram_value content o' (word_of_nat l)"
    using oram_array.acc_read [OF Cons.prems(1), of "word_of_nat l" "replicate 512 0"] u Cons.prems(4) by auto
  then have op: "open_sector (aes_gcm_init key) out = (0, pt l)" using open_stored [of "pt l" out] Cons.prems(4) by simp
  let ?b = "put_payload l (pt l) buf"
  have len: "length ?b = SERIALIZE_SIZE"
    using Cons.prems(2,4) by (simp add: put_payload_def payload_fits_def Let_def)
  then have "\<exists>o2. snap_read_sectors (aes_gcm_init key) lbas ?b o1 = Some (Ret (0, fold (\<lambda>l. put_payload l (pt l)) lbas ?b) o2) \<and>
      oram_inv content ready o2 \<and> oram_value content o2 = oram_value content o1"
    using Cons.IH [OF o1(2) len] Cons.prems o1(3) by (simp add: payload_fits_def)
  then show ?case using o1 op Cons.prems(4) by auto
qed simp


text \<open>Filling the payload area block by block.\<close>

lemma fill_payload:
  assumes "length buf = SERIALIZE_SIZE" "length src = SERIALIZE_SIZE" "HEADER_SIZE + n * BLOCK_PAYLOAD \<le> SERIALIZE_SIZE"
  shows "fold (\<lambda>l. put_payload l (payload_at l src)) [1..<Suc n] buf =
    take HEADER_SIZE buf @ take (n * BLOCK_PAYLOAD) (drop HEADER_SIZE src) @ drop (HEADER_SIZE + n * BLOCK_PAYLOAD) buf"
  using assms(3)
proof (induction n)
  case (Suc n)
  let ?off = "HEADER_SIZE + n * BLOCK_PAYLOAD"
  let ?b = "take HEADER_SIZE buf @ take (n * BLOCK_PAYLOAD) (drop HEADER_SIZE src) @ drop ?off buf"
  let ?p = "take BLOCK_PAYLOAD (drop ?off src)"
  have p: "payload_at (Suc n) src = ?p" by (simp add: payload_at_def)
  have l: "length ?p = 480" using assms Suc.prems by simp
  have t: "take ?off ?b = take HEADER_SIZE buf @ take (n * BLOCK_PAYLOAD) (drop HEADER_SIZE src)" using assms Suc.prems by simp
  have d: "drop (?off + 480) ?b = drop (HEADER_SIZE + Suc n * BLOCK_PAYLOAD) buf" using assms Suc.prems by (simp add: algebra_simps)
  have a: "take (Suc n * BLOCK_PAYLOAD) (drop HEADER_SIZE src) = take (n * BLOCK_PAYLOAD) (drop HEADER_SIZE src) @ ?p"
    using take_add [of "n * BLOCK_PAYLOAD" BLOCK_PAYLOAD "drop HEADER_SIZE src"] by (simp add: add.commute)
  have "fold (\<lambda>l. put_payload l (payload_at l src)) [1..<Suc (Suc n)] buf = put_payload (Suc n) ?p ?b"
    using Suc p by simp
  also have "\<dots> = take ?off ?b @ ?p @ drop (?off + length ?p) ?b" unfolding put_payload_def Let_def by simp
  finally show ?case unfolding l t d a by simp
qed simp

lemma fits_iff: "length buf = SERIALIZE_SIZE \<Longrightarrow> HEADER_SIZE + n * BLOCK_PAYLOAD \<le> SERIALIZE_SIZE \<Longrightarrow> l \<in> set [1..<Suc n] \<Longrightarrow> payload_fits l buf"
proof -
  assume *: "length buf = SERIALIZE_SIZE" "HEADER_SIZE + n * BLOCK_PAYLOAD \<le> SERIALIZE_SIZE" "l \<in> set [1..<Suc n]"
  then have "l - 1 < n" by auto
  then show ?thesis using * by (simp add: payload_fits_def)
qed

lemma snapshot_blocks_stored:
  assumes "oram_inv content ready o'" "length buf = SERIALIZE_SIZE" "n < 64" "HEADER_SIZE + n * BLOCK_PAYLOAD \<le> SERIALIZE_SIZE"
  shows "\<exists>o1. write_snapshot (aes_gcm_init key) sequence buf n o' = Some (Ret 0 o1) \<and> oram_inv content ready o1 \<and>
    oram_value content o1 0 = take 508 (seal_sector (aes_gcm_init key) sequence 0 (take BLOCK_PAYLOAD buf)) \<and>
    (\<forall>l \<in> set [1..<Suc n]. oram_value content o1 (word_of_nat l) =
      take 508 (seal_sector (aes_gcm_init key) sequence l (payload_at l buf)))"
proof -
  let ?h = "seal_sector (aes_gcm_init key) sequence 0 (take BLOCK_PAYLOAD buf)"
  have "\<forall>l \<in> set [1..<Suc n]. l < 64 \<and> payload_fits l buf" using fits_iff [OF assms(2,4)] assms(3) by auto
  from snap_write_sectors_ok [OF assms(1) this, of key sequence] obtain o1 where
    w: "snap_write_sectors (aes_gcm_init key) sequence buf [1..<Suc n] o' = Some (Ret 0 o1)" "oram_inv content ready o1"
      "\<And>b. b \<in> word_of_nat ` set [1..<Suc n] \<Longrightarrow>
        oram_value content o1 b = take 508 (seal_sector (aes_gcm_init key) sequence (unat b) (payload_at (unat b) buf))" by auto
  have "length ?h = 512" using assms(2) by (simp add: length_seal)
  from oram_array.acc_write [OF w(2) _ this, of 0] obtain out o2 where
    h: "oram_access 0 True ?h o1 = Ret (0, out) o2" "oram_inv content ready o2"
      "oram_value content o2 = (oram_value content o1)(0 := take 508 ?h)" by auto
  have "oram_value content o2 (word_of_nat l) = take 508 (seal_sector (aes_gcm_init key) sequence l (payload_at l buf))"
    if "l \<in> set [1..<Suc n]" for l
  proof -
    have u: "unat (word_of_nat l :: u32) = l" using that assms(3) by (auto simp: unat_block)
    then have "(word_of_nat l :: u32) \<noteq> 0" using that by auto
    then show ?thesis using w(3) [of "word_of_nat l"] that u by (simp add: h(3))
  qed
  then show ?thesis using h w(1) by (auto simp: write_snapshot_def simp del: upt_Suc)
qed

lemma snapshot_blocks_loaded:
  assumes "oram_inv content ready o1" "length src = SERIALIZE_SIZE" "length buf = SERIALIZE_SIZE" "n < 64"
    "HEADER_SIZE + n * BLOCK_PAYLOAD \<le> SERIALIZE_SIZE"
    "\<forall>l \<in> set [1..<Suc n]. oram_value content o1 (word_of_nat l) = take 508 (seal_sector (aes_gcm_init key) sequence l (payload_at l src))"
  shows "\<exists>o2. snap_read_sectors (aes_gcm_init key) [1..<Suc n] buf o1 =
      Some (Ret (0, take HEADER_SIZE buf @ take (n * BLOCK_PAYLOAD) (drop HEADER_SIZE src) @ drop (HEADER_SIZE + n * BLOCK_PAYLOAD) buf) o2) \<and>
    oram_inv content ready o2 \<and> oram_value content o2 = oram_value content o1"
proof -
  have "length (payload_at l src) = 480" if "l \<in> set [1..<Suc n]" for l
    using fits_iff [OF assms(2,5) that] by (rule length_payload_at)
  then have "\<forall>l \<in> set [1..<Suc n]. 0 < l \<and> l < 64 \<and> payload_fits l buf \<and> length (payload_at l src) = 480 \<and>
       oram_value content o1 (word_of_nat l) = take 508 (seal_sector (aes_gcm_init key) ((\<lambda>_. sequence) l) ((\<lambda>l. l) l) (payload_at l src))"
    using assms(4,6) fits_iff [OF assms(3,5)] by auto
  from snap_read_sectors_ok [OF assms(1,3) _ this] show ?thesis
    by (simp only: fill_payload [OF assms(3,2,5)] distinct_upt simp_thms)
qed


section \<open>Properties\<close>

text \<open>A snapshot that was written through the oblivious RAM is read back: with at most 63 data blocks the write succeeds,
  the header block opens to the first 480 bytes of the buffer, and reading the data blocks under the same key into any
  buffer succeeds and restores every payload byte.\<close>

theorem snapshot_blocks_roundtrip:
  assumes "oram_inv content ready o'" "length src = SERIALIZE_SIZE" "length buf = SERIALIZE_SIZE" "n < 64"
    "HEADER_SIZE + n * BLOCK_PAYLOAD \<le> SERIALIZE_SIZE"
  shows "\<exists>o1 out o2 o3. write_snapshot (aes_gcm_init key) sequence src n o' = Some (Ret 0 o1) \<and>
    oram_access 0 False (replicate 512 0) o1 = Ret (0, out) o2 \<and>
    open_sector (aes_gcm_init key) out = (0, take BLOCK_PAYLOAD src) \<and>
    snap_read_sectors (aes_gcm_init key) [1..<Suc n] buf o2 =
      Some (Ret (0, take HEADER_SIZE buf @ take (n * BLOCK_PAYLOAD) (drop HEADER_SIZE src) @ drop (HEADER_SIZE + n * BLOCK_PAYLOAD) buf) o3)"
proof -
  obtain o1 where w: "write_snapshot (aes_gcm_init key) sequence src n o' = Some (Ret 0 o1)" "oram_inv content ready o1"
      "oram_value content o1 0 = take 508 (seal_sector (aes_gcm_init key) sequence 0 (take BLOCK_PAYLOAD src))"
      "\<forall>l \<in> set [1..<Suc n]. oram_value content o1 (word_of_nat l) = take 508 (seal_sector (aes_gcm_init key) sequence l (payload_at l src))"
    using snapshot_blocks_stored [OF assms(1,2,4,5)] by blast
  obtain out o2 where h: "oram_access 0 False (replicate 512 0) o1 = Ret (0, out) o2" "oram_inv content ready o2"
      "oram_value content o2 = oram_value content o1" "take 508 out = oram_value content o1 0"
    using oram_array.acc_read [OF w(2), of 0 "replicate 512 0"] by auto
  have "open_sector (aes_gcm_init key) out = (0, take BLOCK_PAYLOAD src)"
    using open_stored [of "take BLOCK_PAYLOAD src" out key sequence 0] h(4) w(3) assms(2) by simp
  moreover have "\<forall>l \<in> set [1..<Suc n]. oram_value content o2 (word_of_nat l) = take 508 (seal_sector (aes_gcm_init key) sequence l (payload_at l src))"
    using w(4) h(3) by simp
  ultimately show ?thesis using snapshot_blocks_loaded [OF h(2) assms(2-5)] w(1) h(1) by blast
qed

text \<open>A save that is cut short does not leave the previous snapshot intact: when an older snapshot of n blocks is in place
  and the first k of them have been overwritten by a newer save under the same key, the data blocks still read back
  without an error, k of them from the newer session and the rest from the older one, although the header block is
  still the older one.\<close>

theorem interrupted_save_mixes_sessions:
  assumes "oram_inv content ready o'" "length old = SERIALIZE_SIZE" "length new = SERIALIZE_SIZE" "length buf = SERIALIZE_SIZE"
    "n < 64" "k \<le> n" "HEADER_SIZE + n * BLOCK_PAYLOAD \<le> SERIALIZE_SIZE"
  shows "\<exists>o1 o2 o3. write_snapshot (aes_gcm_init key) sequence old n o' = Some (Ret 0 o1) \<and>
    snap_write_sectors (aes_gcm_init key) sequence' new [1..<Suc k] o1 = Some (Ret 0 o2) \<and>
    oram_value content o2 0 = oram_value content o1 0 \<and>
    snap_read_sectors (aes_gcm_init key) [1..<Suc n] buf o2 =
      Some (Ret (0, fold (\<lambda>l. put_payload l (payload_at l (if l \<le> k then new else old))) [1..<Suc n] buf) o3)"
proof -
  obtain o1 where w: "write_snapshot (aes_gcm_init key) sequence old n o' = Some (Ret 0 o1)" "oram_inv content ready o1"
      "\<forall>l \<in> set [1..<Suc n]. oram_value content o1 (word_of_nat l) = take 508 (seal_sector (aes_gcm_init key) sequence l (payload_at l old))"
    using snapshot_blocks_stored [OF assms(1,2,5,7)] by blast
  have sub: "l \<in> set [1..<Suc n]" if "l \<in> set [1..<Suc k]" for l using that assms(6) by auto
  have "\<forall>l \<in> set [1..<Suc k]. l < 64 \<and> payload_fits l new" using fits_iff [OF assms(3,7) sub] assms(5,6) by auto
  from snap_write_sectors_ok [OF w(2) this, of key sequence'] obtain o2 where
    v: "snap_write_sectors (aes_gcm_init key) sequence' new [1..<Suc k] o1 = Some (Ret 0 o2)" "oram_inv content ready o2"
      "\<And>b. oram_value content o2 b = (if b \<in> word_of_nat ` set [1..<Suc k]
        then take 508 (seal_sector (aes_gcm_init key) sequence' (unat b) (payload_at (unat b) new)) else oram_value content o1 b)" by blast
  have u: "unat (word_of_nat l :: u32) = l" if "l \<le> n" for l using that assms(5) by (simp add: unat_block)
  have mem: "(word_of_nat l :: u32) \<in> word_of_nat ` set [1..<Suc k] \<longleftrightarrow> 0 < l \<and> l \<le> k" if "l \<le> n" for l
  proof
    assume "(word_of_nat l :: u32) \<in> word_of_nat ` set [1..<Suc k]"
    then obtain j where j: "(word_of_nat l :: u32) = word_of_nat j" "0 < j" "j \<le> k" by auto
    have "j \<le> n" using j(3) assms(6) by simp
    then have "l = j" using arg_cong [OF j(1), of unat] u [OF that] u [of j] by (simp only:)
    then show "0 < l \<and> l \<le> k" using j by simp
  qed (rule imageI, simp del: upt_Suc)
  let ?src = "\<lambda>l. if l \<le> k then new else old"
  have "length (payload_at l (?src l)) = 480" if "l \<in> set [1..<Suc n]" for l
    using length_payload_at [OF fits_iff [OF assms(2,7) that]] length_payload_at [OF fits_iff [OF assms(3,7) that]] by simp
  then have "\<forall>l \<in> set [1..<Suc n]. 0 < l \<and> l < 64 \<and> payload_fits l buf \<and> length (payload_at l (?src l)) = 480 \<and>
      oram_value content o2 (word_of_nat l) = take 508 (seal_sector (aes_gcm_init key) ((\<lambda>l. if l \<le> k then sequence' else sequence) l)
        ((\<lambda>l. l) l) (payload_at l (?src l)))"
  proof (intro ballI conjI, goal_cases)
    case (3 l)
    from 3(2) show ?case by (rule fits_iff [OF assms(4,7)])
  next
    case (5 l)
    then have l: "0 < l" "l \<le> n" by auto
    show ?case using mem [OF l(2)] u [OF l(2)] l(1) bspec [OF w(3) 5(2)] by (simp add: v(3) del: upt_Suc)
  qed (use assms(5) in auto)
  from snap_read_sectors_ok [OF v(2) assms(4) distinct_upt this] obtain o3 where
    "snap_read_sectors (aes_gcm_init key) [1..<Suc n] buf o2 = Some (Ret (0, fold (\<lambda>l. put_payload l (payload_at l (?src l))) [1..<Suc n] buf) o3)"
    by blast
  moreover have "oram_value content o2 0 = oram_value content o1 0" using mem [of 0] by (simp add: v(3) del: upt_Suc)
  ultimately show ?thesis using w(1) v(1) by blast
qed

section \<open>Witnesses\<close>

lemma woram_formatted: "oram_inv fst ram_ready (oram_format woram)"
  using format_establishes [OF woram_ok] by simp

theorem snapshot_blocks_roundtrip_witness:
  "\<exists>o1 out o2. write_snapshot (aes_gcm_init (replicate 32 1)) 1 (replicate 32768 7) 2 (oram_format woram) = Some (Ret 0 o1) \<and>
     oram_access 0 False (replicate 512 0) o1 = Ret (0, out) o2 \<and>
     open_sector (aes_gcm_init (replicate 32 1)) out = (0, replicate 480 7)"
  using snapshot_blocks_roundtrip [OF woram_formatted, of "replicate 32768 7" "replicate 32768 0" 2 "replicate 32 1" 1] by fastforce

theorem interrupted_save_mixes_sessions_witness:
  "\<exists>o1 o2. write_snapshot (aes_gcm_init (replicate 32 1)) 1 (replicate 32768 7) 2 (oram_format woram) = Some (Ret 0 o1) \<and>
     snap_write_sectors (aes_gcm_init (replicate 32 1)) 2 (replicate 32768 9) [1..<Suc 1] o1 = Some (Ret 0 o2) \<and>
     oram_value fst o2 0 = oram_value fst o1 0"
proof -
  have "\<exists>o1 o2 o3. write_snapshot (aes_gcm_init (replicate 32 1)) 1 (replicate 32768 7) 2 (oram_format woram) = Some (Ret 0 o1) \<and>
     snap_write_sectors (aes_gcm_init (replicate 32 1)) 2 (replicate 32768 9) [1..<Suc 1] o1 = Some (Ret 0 o2) \<and>
     oram_value fst o2 0 = oram_value fst o1 0 \<and>
     snap_read_sectors (aes_gcm_init (replicate 32 1)) [1..<Suc 2] (replicate 32768 0) o2 =
       Some (Ret (0, fold (\<lambda>l. put_payload l (payload_at l (if l \<le> 1 then replicate 32768 9 else replicate 32768 7)))
         [1..<Suc 2] (replicate 32768 0)) o3)"
    by (rule interrupted_save_mixes_sessions [OF woram_formatted]) simp_all
  then show ?thesis by blast
qed

end
