(* ===== verification/Snapshot_Layout.thy ===== *)
theory Snapshot_Layout
  imports Cap
begin

unbundle bit_operations_syntax

text \<open>
  The structures of a session snapshot as they lie in memory, \<^verbatim>\<open>snapshot_header_t\<close>, \<^verbatim>\<open>snapshot_task_t\<close> and
  \<^verbatim>\<open>snapshot_page_header_t\<close> of \<^verbatim>\<open>src/kernel/snapshot.c\<close> with the kernel structures copied into them: their little-endian bytes
  with the padding of the compiler, and the reading of such bytes.  Reading gives \<open>None\<close> when the bytes end too early or when
  an enumeration has a number without a name.  The interface \<open>codec\<close> states that a layout can be read back; each structure is
  an interpretation of it.
\<close>

section \<open>Structures with a fixed size\<close>

definition field :: "nat \<Rightarrow> nat \<Rightarrow> u8 list \<Rightarrow> 'a::len word" where
  "field off n bs = le_word (take n (drop off bs))"

definition read_array :: "(u8 list \<Rightarrow> 'a option) \<Rightarrow> nat \<Rightarrow> nat \<Rightarrow> u8 list \<Rightarrow> 'a list option" where
  "read_array dec sz n bs = those (map (\<lambda>i. dec (drop (i * sz) bs)) [0..<n])"

locale codec =
  fixes enc :: "'a \<Rightarrow> u8 list"
    and dec :: "u8 list \<Rightarrow> 'a option"
    and sz :: nat
    and valid :: "'a \<Rightarrow> bool"
  assumes length_enc: "valid x \<Longrightarrow> length (enc x) = sz"
    and dec_enc: "valid x \<Longrightarrow> dec (enc x @ rest) = Some x"

lemma those_map_Some: "those (map (\<lambda>x. Some (f x)) xs) = Some (map f xs)"
  by (induction xs) simp_all

context codec
begin

lemma length_encs: "list_all valid xs \<Longrightarrow> length (concat (map enc xs)) = length xs * sz"
  by (induction xs) (simp_all add: length_enc)

lemma drop_encs: "list_all valid xs \<Longrightarrow> i \<le> length xs \<Longrightarrow>
    drop (i * sz) (concat (map enc xs) @ rest) = concat (map enc (drop i xs)) @ rest"
proof (induction xs arbitrary: i)
  case (Cons x xs)
  show ?case
  proof (cases i)
    case (Suc j)
    have "drop (sz + j * sz) ((enc x @ concat (map enc xs)) @ rest) = drop (j * sz) (concat (map enc xs) @ rest)"
      using Cons.prems by (simp add: length_enc)
    then show ?thesis using Cons.IH [of j] Cons.prems Suc by simp
  qed simp
qed simp

lemma dec_nth:
  assumes "list_all valid xs" "i < length xs"
  shows "dec (drop (i * sz) (concat (map enc xs) @ rest)) = Some (xs ! i)"
proof -
  have "drop i xs = xs ! i # drop (Suc i) xs" using assms(2) by (simp add: Cons_nth_drop_Suc)
  moreover have "valid (xs ! i)" using assms by (simp add: list_all_length)
  ultimately show ?thesis using drop_encs [OF assms(1), of i] assms(2) by (simp add: dec_enc)
qed

lemma read_array_encs:
  assumes "list_all valid xs" "length xs = n"
  shows "read_array dec sz n (concat (map enc xs) @ rest) = Some xs"
proof -
  have m: "map (\<lambda>i. dec (drop (i * sz) (concat (map enc xs) @ rest))) [0..<n] = map (\<lambda>i. Some (xs ! i)) [0..<n]"
    using dec_nth [OF assms(1)] assms(2) by (intro map_cong refl) (simp del: drop_append)
  show ?thesis unfolding read_array_def m those_map_Some using assms(2) map_nth [of xs] by simp
qed

end

section \<open>Enumerations\<close>

fun task_state_code :: "task_state \<Rightarrow> u32" where
  "task_state_code UNUSED = 0"
| "task_state_code READY = 1"
| "task_state_code RUNNING = 2"
| "task_state_code BLOCKED = 3"
| "task_state_code DEAD = 4"

definition task_state_of :: "u32 \<Rightarrow> task_state option" where
  "task_state_of w = find (\<lambda>s. task_state_code s = w) [UNUSED, READY, RUNNING, BLOCKED, DEAD]"

fun cap_type_code :: "cap_type \<Rightarrow> u32" where
  "cap_type_code CAP_TYPE_NULL = 0"
| "cap_type_code CAP_TYPE_ENDPOINT = 1"
| "cap_type_code CAP_TYPE_MEMORY = 2"
| "cap_type_code CAP_TYPE_IRQ = 3"
| "cap_type_code CAP_TYPE_DEVPORT = 4"

definition cap_type_of :: "u32 \<Rightarrow> cap_type option" where
  "cap_type_of w = find (\<lambda>t. cap_type_code t = w) [CAP_TYPE_NULL, CAP_TYPE_ENDPOINT, CAP_TYPE_MEMORY, CAP_TYPE_IRQ, CAP_TYPE_DEVPORT]"

fun ep_state_code :: "ep_state \<Rightarrow> u32" where
  "ep_state_code EP_STATE_IDLE = 0"
| "ep_state_code EP_STATE_SEND_WAITING = 1"
| "ep_state_code EP_STATE_RECV_WAITING = 2"

definition ep_state_of :: "u32 \<Rightarrow> ep_state option" where
  "ep_state_of w = find (\<lambda>s. ep_state_code s = w) [EP_STATE_IDLE, EP_STATE_SEND_WAITING, EP_STATE_RECV_WAITING]"

lemma enum_codes [simp]:
  "task_state_of (task_state_code s) = Some s" "cap_type_of (cap_type_code t) = Some t" "ep_state_of (ep_state_code e) = Some e"
proof -
  show "task_state_of (task_state_code s) = Some s" by (cases s) (simp_all add: task_state_of_def)
  show "cap_type_of (cap_type_code t) = Some t" by (cases t) (simp_all add: cap_type_of_def)
  show "ep_state_of (ep_state_code e) = Some e" by (cases e) (simp_all add: ep_state_of_def)
qed

section \<open>Endpoints and capability slots\<close>

abbreviation SIZEOF_ENDPOINT :: nat where "SIZEOF_ENDPOINT \<equiv> 32"
abbreviation SIZEOF_SLOT :: nat where "SIZEOF_SLOT \<equiv> 24"

definition enc_endpoint :: "endpoint \<Rightarrow> u8 list" where
  "enc_endpoint ep = le_bytes 8 (ep_generation ep) @ le_bytes 4 (ep_state_code (epstate ep)) @ replicate 4 0 @
     le_bytes 8 (pending_msg ep) @ le_bytes 4 (owner_task ep) @ le_bytes 4 (parked_task_id ep)"

definition dec_endpoint :: "u8 list \<Rightarrow> endpoint option" where
  "dec_endpoint bs =
     (if length bs < SIZEOF_ENDPOINT then None
      else map_option (\<lambda>st. \<lparr>ep_generation = field 0 8 bs, epstate = st, pending_msg = field 16 8 bs,
             owner_task = field 24 4 bs, parked_task_id = field 28 4 bs\<rparr>) (ep_state_of (field 8 4 bs)))"

text \<open>The object of a slot is a pointer into the endpoint pool, which lies at the address \<open>pool\<close>.\<close>

definition enc_slot :: "u64 \<Rightarrow> cap_slot \<Rightarrow> u8 list" where
  "enc_slot pool s = le_bytes 4 (cap_type_code (ctype s)) @ le_bytes 4 (rights s) @ le_bytes 8 (generation s) @
     le_bytes 8 (if ctype s = CAP_TYPE_NULL then 0 else pool + word_of_nat (object s * SIZEOF_ENDPOINT) :: u64)"

definition dec_slot :: "u64 \<Rightarrow> u8 list \<Rightarrow> cap_slot option" where
  "dec_slot pool bs =
     (if length bs < SIZEOF_SLOT then None
      else map_option (\<lambda>ty. \<lparr>ctype = ty, rights = field 4 4 bs, generation = field 8 8 bs,
             object = (if ty = CAP_TYPE_NULL then 0 else unat (field 16 8 bs - pool) div SIZEOF_ENDPOINT)\<rparr>)
             (cap_type_of (field 0 4 bs)))"

definition slot_valid :: "cap_slot \<Rightarrow> bool" where
  "slot_valid s = (if ctype s = CAP_TYPE_NULL then object s = 0 else object s < ENDPOINT_POOL_SIZE)"

lemma field_hit:
  fixes w :: "'a::len word"
  shows "LENGTH('a) \<le> 8 * n \<Longrightarrow> field 0 n (le_bytes n w @ rest) = w"
  by (simp add: field_def le_word_bytes)

lemma field_skip: "length xs \<le> off \<Longrightarrow> field off n (xs @ rest) = field (off - length xs) n rest"
  by (simp add: field_def)

lemmas field_simps = field_hit field_skip

lemma field_last:
  fixes w :: "'a::len word"
  shows "LENGTH('a) \<le> 8 * n \<Longrightarrow> field 0 n (le_bytes n w) = w"
  using field_hit [of n w "[]"] by simp

interpretation endpoint: codec enc_endpoint dec_endpoint SIZEOF_ENDPOINT "\<lambda>_. True"
  by unfold_locales (simp_all add: enc_endpoint_def dec_endpoint_def field_simps)

interpretation slot: codec "enc_slot pool" "dec_slot pool" SIZEOF_SLOT slot_valid for pool
proof
  show "length (enc_slot pool x) = SIZEOF_SLOT" for x by (simp add: enc_slot_def)
  have p: "unat (word_of_nat (n * SIZEOF_ENDPOINT) :: u64) div SIZEOF_ENDPOINT = n" if "n < ENDPOINT_POOL_SIZE" for n
  proof -
    have "unat (word_of_nat (n * SIZEOF_ENDPOINT) :: u64) = n * SIZEOF_ENDPOINT"
      using that by (subst unsigned_of_nat) (simp add: take_bit_nat_eq_self)
    then show ?thesis by simp
  qed
  show "dec_slot pool (enc_slot pool x @ rest) = Some x" if "slot_valid x" for x rest
    using that p [of "object x"] by (auto simp: enc_slot_def dec_slot_def field_simps slot_valid_def)
qed

section \<open>Saved tasks\<close>

abbreviation SIZEOF_SNAPSHOT_TASK :: nat where "SIZEOF_SNAPSHOT_TASK \<equiv> 1632"

record snapshot_task =
  st_id :: u32
  st_state :: task_state
  st_ticks :: u32
  st_kstack_top :: u64
  st_regs :: task_regs
  st_cap_table :: cap_tab
  st_has_pml4 :: u32

definition enc_regs :: "task_regs \<Rightarrow> u8 list" where
  "enc_regs r = le_bytes 8 (rbx r) @ le_bytes 8 (rbp r) @ le_bytes 8 (r12 r) @ le_bytes 8 (r13 r) @ le_bytes 8 (r14 r) @
     le_bytes 8 (r15 r) @ le_bytes 8 (rip r) @ le_bytes 8 (rsp r)"

definition dec_regs :: "u8 list \<Rightarrow> task_regs" where
  "dec_regs bs = \<lparr>rbx = field 0 8 bs, rbp = field 8 8 bs, r12 = field 16 8 bs, r13 = field 24 8 bs, r14 = field 32 8 bs,
     r15 = field 40 8 bs, rip = field 48 8 bs, rsp = field 56 8 bs\<rparr>"

definition enc_task :: "u64 \<Rightarrow> snapshot_task \<Rightarrow> u8 list" where
  "enc_task pool st = le_bytes 4 (st_id st) @ le_bytes 4 (task_state_code (st_state st)) @ le_bytes 4 (st_ticks st) @ replicate 4 0 @
     le_bytes 8 (st_kstack_top st) @ enc_regs (st_regs st) @ concat (map (enc_slot pool) (st_cap_table st)) @
     le_bytes 4 (st_has_pml4 st) @ replicate 4 0"

definition dec_task :: "u64 \<Rightarrow> u8 list \<Rightarrow> snapshot_task option" where
  "dec_task pool bs =
     (if length bs < SIZEOF_SNAPSHOT_TASK then None
      else case (task_state_of (field 4 4 bs), read_array (dec_slot pool) SIZEOF_SLOT CAP_TABLE_SIZE (drop 88 bs)) of
        (Some s, Some tab) \<Rightarrow> Some \<lparr>st_id = field 0 4 bs, st_state = s, st_ticks = field 8 4 bs, st_kstack_top = field 16 8 bs,
           st_regs = dec_regs (drop 24 bs), st_cap_table = tab, st_has_pml4 = field 1624 4 bs\<rparr>
      | _ \<Rightarrow> None)"

definition task_valid :: "snapshot_task \<Rightarrow> bool" where
  "task_valid st = (length (st_cap_table st) = CAP_TABLE_SIZE \<and> list_all slot_valid (st_cap_table st))"

lemma length_enc_regs [simp]: "length (enc_regs r) = 64"
  by (simp add: enc_regs_def)

lemma dec_enc_regs [simp]: "dec_regs (enc_regs r @ rest) = r"
  by (simp add: enc_regs_def dec_regs_def field_simps)

interpretation task_layout: codec "enc_task pool" "dec_task pool" SIZEOF_SNAPSHOT_TASK task_valid for pool
proof
  fix x rest
  assume v: "task_valid x"
  let ?tab = "concat (map (enc_slot pool) (st_cap_table x))"
  have l: "length ?tab = 1536" using slot.length_encs [of "st_cap_table x" pool] v by (simp add: task_valid_def)
  show len: "length (enc_task pool x) = SIZEOF_SNAPSHOT_TASK" by (simp add: enc_task_def l)
  let ?bs = "enc_task pool x @ rest"
  have d: "drop 24 ?bs = enc_regs (st_regs x) @ ?tab @ le_bytes 4 (st_has_pml4 x) @ replicate 4 0 @ rest"
    "drop 88 ?bs = ?tab @ le_bytes 4 (st_has_pml4 x) @ replicate 4 0 @ rest"
    by (simp_all add: enc_task_def)
  have f: "field 0 4 ?bs = st_id x" "field 4 4 ?bs = task_state_code (st_state x)" "field 8 4 ?bs = st_ticks x"
    "field 16 8 ?bs = st_kstack_top x" "field 1624 4 ?bs = st_has_pml4 x"
    by (simp_all add: enc_task_def field_simps l)
  have a: "read_array (dec_slot pool) SIZEOF_SLOT CAP_TABLE_SIZE (drop 88 ?bs) = Some (st_cap_table x)"
    unfolding d by (rule slot.read_array_encs) (use v in \<open>simp_all add: task_valid_def\<close>)
  have r: "dec_regs (drop 24 ?bs) = st_regs x" unfolding d by simp
  show "dec_task pool ?bs = Some x" unfolding dec_task_def f a r using len by simp
qed

section \<open>Saved pages\<close>

abbreviation SIZEOF_PAGE_HEADER :: nat where "SIZEOF_PAGE_HEADER \<equiv> 16"

record snapshot_page =
  ph_task_id :: u32
  ph_virt_addr :: u64
  ph_bytes :: "u8 list"

definition enc_page :: "snapshot_page \<Rightarrow> u8 list" where
  "enc_page ph = le_bytes 4 (ph_task_id ph) @ replicate 4 0 @ le_bytes 8 (ph_virt_addr ph) @ ph_bytes ph"

definition dec_page :: "u8 list \<Rightarrow> snapshot_page option" where
  "dec_page bs =
     (if length bs < SIZEOF_PAGE_HEADER + 4096 then None
      else Some \<lparr>ph_task_id = field 0 4 bs, ph_virt_addr = field 8 8 bs, ph_bytes = take 4096 (drop SIZEOF_PAGE_HEADER bs)\<rparr>)"

interpretation page_layout: codec enc_page dec_page "SIZEOF_PAGE_HEADER + 4096" "\<lambda>ph. length (ph_bytes ph) = 4096"
  by unfold_locales (simp_all add: enc_page_def dec_page_def field_simps)

section \<open>The header\<close>

abbreviation SNAPSHOT_MAGIC :: u64 where "SNAPSHOT_MAGIC \<equiv> 0x53545958534e4150"
abbreviation SNAPSHOT_VERSION :: u32 where "SNAPSHOT_VERSION \<equiv> 1"
abbreviation SIZEOF_HEADER :: nat where "SIZEOF_HEADER \<equiv> 568"

record snapshot_header =
  h_magic :: u64
  h_version :: u32
  h_cpuid_ecx :: u32
  h_cpuid_edx :: u32
  h_task_count :: u32
  h_page_count :: u32
  h_total_sectors :: u32
  h_sequence :: u64
  h_cap_pool :: "endpoint list"
  h_cap_pool_used :: "u8 list"

definition enc_header :: "snapshot_header \<Rightarrow> u8 list" where
  "enc_header hdr = le_bytes 8 (h_magic hdr) @ le_bytes 4 (h_version hdr) @ le_bytes 4 (h_cpuid_ecx hdr) @ le_bytes 4 (h_cpuid_edx hdr) @
     le_bytes 4 (h_task_count hdr) @ le_bytes 4 (h_page_count hdr) @ le_bytes 4 (h_total_sectors hdr) @ le_bytes 8 (h_sequence hdr) @
     concat (map enc_endpoint (h_cap_pool hdr)) @ h_cap_pool_used hdr"

definition dec_header :: "u8 list \<Rightarrow> snapshot_header option" where
  "dec_header bs =
     (if length bs < SIZEOF_HEADER then None
      else map_option (\<lambda>eps. \<lparr>h_magic = field 0 8 bs, h_version = field 8 4 bs, h_cpuid_ecx = field 12 4 bs,
             h_cpuid_edx = field 16 4 bs, h_task_count = field 20 4 bs, h_page_count = field 24 4 bs, h_total_sectors = field 28 4 bs,
             h_sequence = field 32 8 bs, h_cap_pool = eps, h_cap_pool_used = take ENDPOINT_POOL_SIZE (drop 552 bs)\<rparr>)
             (read_array dec_endpoint SIZEOF_ENDPOINT ENDPOINT_POOL_SIZE (drop 40 bs)))"

definition header_valid :: "snapshot_header \<Rightarrow> bool" where
  "header_valid hdr = (length (h_cap_pool hdr) = ENDPOINT_POOL_SIZE \<and> length (h_cap_pool_used hdr) = ENDPOINT_POOL_SIZE)"

lemma length_pool: "length (h_cap_pool hdr) = ENDPOINT_POOL_SIZE \<Longrightarrow> length (concat (map enc_endpoint (h_cap_pool hdr))) = 512"
  using endpoint.length_encs [of "h_cap_pool hdr"] by (simp add: list.pred_True)

lemma enc_header_fields:
  "field 0 8 (enc_header hdr @ rest) = h_magic hdr" "field 8 4 (enc_header hdr @ rest) = h_version hdr"
  "field 12 4 (enc_header hdr @ rest) = h_cpuid_ecx hdr" "field 16 4 (enc_header hdr @ rest) = h_cpuid_edx hdr"
  "field 20 4 (enc_header hdr @ rest) = h_task_count hdr" "field 24 4 (enc_header hdr @ rest) = h_page_count hdr"
  "field 28 4 (enc_header hdr @ rest) = h_total_sectors hdr" "field 32 8 (enc_header hdr @ rest) = h_sequence hdr"
  by (simp_all add: enc_header_def field_simps)

interpretation header_layout: codec enc_header dec_header SIZEOF_HEADER header_valid
proof
  fix x rest
  assume v: "header_valid x"
  have l: "length (concat (map enc_endpoint (h_cap_pool x))) = 512" using v by (simp add: header_valid_def length_pool)
  show len: "length (enc_header x) = SIZEOF_HEADER" using v by (simp add: enc_header_def l header_valid_def)
  let ?bs = "enc_header x @ rest"
  have d: "drop 40 ?bs = concat (map enc_endpoint (h_cap_pool x)) @ h_cap_pool_used x @ rest"
    "drop 552 ?bs = h_cap_pool_used x @ rest"
    by (simp_all add: enc_header_def l)
  have a: "read_array dec_endpoint SIZEOF_ENDPOINT ENDPOINT_POOL_SIZE (drop 40 ?bs) = Some (h_cap_pool x)"
    unfolding d by (rule endpoint.read_array_encs) (use v in \<open>simp_all add: header_valid_def list.pred_True\<close>)
  have u: "take ENDPOINT_POOL_SIZE (drop 552 ?bs) = h_cap_pool_used x" unfolding d using v by (simp add: header_valid_def)
  show "dec_header ?bs = Some x" unfolding dec_header_def a u enc_header_fields using len by simp
qed

end
