(* ===== verification/Snapshot.thy ===== *)
theory Snapshot
  imports Task_Create Snapshot_Store Snapshot_Layout
begin

unbundle bit_operations_syntax

text \<open>
  Saving and restoring a session, \<^verbatim>\<open>snapshot_init\<close>, \<^verbatim>\<open>snapshot_save\<close> and \<^verbatim>\<open>snapshot_restore\<close> of \<^verbatim>\<open>src/kernel/snapshot.c\<close>: the tasks
  of the run queue with their capability tables, the pages mapped for user mode in their address spaces and the endpoint
  pool are written into a buffer, sealed in blocks of the oblivious store, read back and put into place.  What the code reads
  or writes outside its buffers has no described value and gives \<open>None\<close>; an exception is the read of the header beyond the end of
  \<^verbatim>\<open>header_buf\<close>, whose bytes (the stack above it) are an argument.  Log messages are left out.
\<close>

section \<open>State\<close>

text \<open>\<open>spool\<close> is the endpoint pool with its used flags, which \<^verbatim>\<open>cap_export_pool\<close> and \<^verbatim>\<open>cap_import_pool\<close> copy; \<open>pool_addr\<close> is its address
  and \<open>cpuid\<close> are the feature words of the processor.\<close>

record ('d, 'o) session =
  sboot :: "'d boot"
  spool :: "endpoint list \<times> u8 list"
  pool_addr :: u64
  soram :: "'o oram"
  skey :: snap_key
  cpuid :: "u32 \<times> u32"

definition snapshot_init :: "('d, 'o) session \<Rightarrow> (unit, ('d, 'o) session) run" where
  "snapshot_init s =
     (let s1 = s\<lparr>skey := snapshot_zero_key (skey s)\<rparr> in
      case oram_init (soram s1) of Ret _ o1 \<Rightarrow> Ret () (s1\<lparr>soram := o1\<rparr>) | Halt o1 \<Rightarrow> Halt (s1\<lparr>soram := o1\<rparr>))"

section \<open>User pages of an address space\<close>

definition user_entry :: "u64 \<Rightarrow> bool" where
  "user_entry e = (e AND PTE_PRESENT \<noteq> 0 \<and> e AND PTE_USER \<noteq> 0)"

definition user_entries :: "vmm_state \<Rightarrow> u64 \<Rightarrow> nat list" where
  "user_entries v t = filter (\<lambda>i. user_entry (ptm v t i)) [0..<512]"

definition page_virt :: "nat \<Rightarrow> nat \<Rightarrow> nat \<Rightarrow> nat \<Rightarrow> u64" where
  "page_virt pml4_i pdpt_i pd_i pt_i =
     push_bit 39 (word_of_nat pml4_i) OR push_bit 30 (word_of_nat pdpt_i) OR push_bit 21 (word_of_nat pd_i) OR push_bit 12 (word_of_nat pt_i)"

definition user_pages :: "vmm_state \<Rightarrow> u64 \<Rightarrow> (u64 \<times> u64) list" where
  "user_pages v root =
     concat (map (\<lambda>pml4_i. let pdpt = ptm v root pml4_i AND PTE_ADDR_MASK in
       concat (map (\<lambda>pdpt_i. let pd = ptm v pdpt pdpt_i AND PTE_ADDR_MASK in
         concat (map (\<lambda>pd_i. let pt = ptm v pd pd_i AND PTE_ADDR_MASK in
           map (\<lambda>pt_i. (page_virt pml4_i pdpt_i pd_i pt_i, ptm v pt pt_i AND PTE_ADDR_MASK)) (user_entries v pt))
         (user_entries v pd)))
       (user_entries v pdpt)))
     (user_entries v root))"

section \<open>Saving\<close>

definition save_task :: "'d boot \<Rightarrow> nat \<Rightarrow> snapshot_task" where
  "save_task b i =
     (let t = task_table (bsched b) ! i in
      \<lparr>st_id = tid t, st_state = tstate t, st_ticks = ticks t, st_kstack_top = kstack_top t, st_regs = regs t,
       st_cap_table = (if cap_table t \<noteq> 0 then btabs b (unat (cap_table t)) else replicate CAP_TABLE_SIZE null_slot),
       st_has_pml4 = (if pml4 t \<noteq> 0 then 1 else 0)\<rparr>)"

definition save_pages :: "'d boot \<Rightarrow> nat \<Rightarrow> snapshot_page list" where
  "save_pages b i =
     (let t = task_table (bsched b) ! i; v = hvmm (bheap b) in
      if pml4 t = 0 then []
      else map (\<lambda>(virt, phys). \<lparr>ph_task_id = tid t, ph_virt_addr = virt, ph_bytes = lframes (bload b) phys\<rparr>)
             (user_pages v (pml4 t - vmm_get_hhdm_offset v)))"

definition save_payload :: "u64 \<Rightarrow> 'd boot \<Rightarrow> nat list \<Rightarrow> u8 list" where
  "save_payload pool b ts =
     concat (map (enc_task pool) (map (save_task b) ts)) @ concat (map enc_page (concat (map (save_pages b) ts)))"

definition payload_sectors :: "nat \<Rightarrow> nat" where
  "payload_sectors payload_len = (payload_len + BLOCK_PAYLOAD - 1) div BLOCK_PAYLOAD"

definition save_header :: "('d, 'o) session \<Rightarrow> nat list \<Rightarrow> snapshot_header" where
  "save_header s ts =
     \<lparr>h_magic = SNAPSHOT_MAGIC, h_version = SNAPSHOT_VERSION, h_cpuid_ecx = fst (cpuid s), h_cpuid_edx = snd (cpuid s),
      h_task_count = word_of_nat (length ts), h_page_count = word_of_nat (length (concat (map (save_pages (sboot s)) ts))),
      h_total_sectors = word_of_nat (payload_sectors (length (save_payload (pool_addr s) (sboot s) ts))),
      h_sequence = g_sequence_number (skey s), h_cap_pool = fst (spool s), h_cap_pool_used = snd (spool s)\<rparr>"

text \<open>The buffer of 32768 bytes, zero behind what is written to it.\<close>

definition save_buffer :: "('d, 'o) session \<Rightarrow> nat list \<Rightarrow> u8 list option" where
  "save_buffer s ts =
     (let bs = enc_header (save_header s ts) @ save_payload (pool_addr s) (sboot s) ts in
      if length bs > SERIALIZE_SIZE then None else Some (bs @ replicate (SERIALIZE_SIZE - length bs) 0))"

definition snapshot_save :: "('d, 'o) session \<Rightarrow> (int, ('d, 'o) session) run option" where
  "snapshot_save s =
     (case kmalloc SERIALIZE_SIZE (bheap (sboot s)) of
        None \<Rightarrow> None
      | Some (p, hp) \<Rightarrow>
          let s1 = s\<lparr>sboot := set_bheap hp (sboot s), soram := oram_reset_counters (soram s)\<rparr> in
          if p = 0 then Some (Ret (- 1) s1)
          else
            case those (sched_get_tasks 8 (bsched (sboot s1))) of
              None \<Rightarrow> None
            | Some ts \<Rightarrow>
                (case save_buffer s1 ts of
                   None \<Rightarrow> None
                 | Some buf \<Rightarrow>
                     (case write_snapshot (aes_gcm_init (g_snapshot_key (skey s1))) (g_sequence_number (skey s1)) buf
                             (payload_sectors (length (save_payload (pool_addr s1) (sboot s1) ts))) (soram s1) of
                        None \<Rightarrow> None
                      | Some (Halt o1) \<Rightarrow> Some (Halt (s1\<lparr>soram := o1\<rparr>))
                      | Some (Ret rc o1) \<Rightarrow>
                          (case kfree p hp of
                             None \<Rightarrow> None
                           | Some (_, h2) \<Rightarrow>
                               let s2 = s1\<lparr>sboot := set_bheap h2 (sboot s1), soram := o1\<rparr>
                               in Some (Ret rc (if rc \<noteq> 0 then s2
                                    else s2\<lparr>skey := (skey s2)\<lparr>g_sequence_number := g_sequence_number (skey s2) + 1\<rparr>\<rparr>))))))"

section \<open>Restoring\<close>

definition restore_slot :: "snapshot_task \<Rightarrow> 'd boot \<Rightarrow> (nat option \<times> 'd boot) option" where
  "restore_slot st b =
     (case task_get (st_id st) (bsched b) of
        Some i \<Rightarrow> Some (Some i, b)
      | None \<Rightarrow>
          if st_has_pml4 st \<noteq> 0 then task_create_user (rip (st_regs st)) b
          else let (r, s) = task_create_kernel (vmm_get_pml4 (hvmm (bheap b))) (bsched b) in Some (r, b\<lparr>bsched := s\<rparr>))"

definition restore_task :: "snapshot_task \<Rightarrow> nat \<Rightarrow> 'd boot \<Rightarrow> 'd boot" where
  "restore_task st i b =
     (let b1 = upd_btask i (\<lambda>t. t\<lparr>tstate := st_state st, ticks := st_ticks st, kstack_top := st_kstack_top st, regs := st_regs st\<rparr>) b;
          ct = cap_table (task_table (bsched b1) ! i)
      in if st_has_pml4 st \<noteq> 0 \<and> ct \<noteq> 0 then b1\<lparr>btabs := (btabs b1)(unat ct := st_cap_table st)\<rparr> else b1)"

text \<open>The entry of \<^verbatim>\<open>tasks\<close> for a task that could not be created keeps an undefined pointer, which then enters the run queue: \<open>None\<close>.\<close>

fun restore_tasks :: "u64 \<Rightarrow> nat \<Rightarrow> u8 list \<Rightarrow> 'd boot \<Rightarrow> (nat option list \<times> u8 list \<times> 'd boot) option" where
  "restore_tasks pool 0 p b = Some ([], p, b)"
| "restore_tasks pool (Suc n) p b =
     (case dec_task pool p of
        None \<Rightarrow> None
      | Some st \<Rightarrow>
          (case restore_slot st b of
             Some (Some i, b1) \<Rightarrow>
               map_option (\<lambda>(ts, p', b'). (Some i # ts, p', b'))
                 (restore_tasks pool n (drop SIZEOF_SNAPSHOT_TASK p) (restore_task st i b1))
           | _ \<Rightarrow> None))"

definition restore_page :: "snapshot_page \<Rightarrow> 'd boot \<Rightarrow> 'd boot" where
  "restore_page ph b =
     (case task_get (ph_task_id ph) (bsched b) of
        None \<Rightarrow> b
      | Some i \<Rightarrow>
          if pml4 (task_table (bsched b) ! i) = 0 then b
          else
            let v = hvmm (bheap b); old_pml4 = vmm_get_pml4 v;
                v1 = vmm_set_pml4 (pml4 (task_table (bsched b) ! i)) v;
                phys = vmm_virt_to_phys v1 (ph_virt_addr ph);
                b1 = (if phys \<noteq> 0 then b\<lparr>bload := (bload b)\<lparr>lframes := (lframes (bload b))(phys := ph_bytes ph)\<rparr>\<rparr> else b)
            in set_bheap ((bheap b1)\<lparr>hvmm := vmm_set_pml4 old_pml4 v1\<rparr>) b1)"

fun restore_pages :: "nat \<Rightarrow> u8 list \<Rightarrow> 'd boot \<Rightarrow> 'd boot option" where
  "restore_pages 0 p b = Some b"
| "restore_pages (Suc n) p b =
     (case dec_page p of
        None \<Rightarrow> None
      | Some ph \<Rightarrow> restore_pages n (drop (SIZEOF_PAGE_HEADER + 4096) p) (restore_page ph b))"

text \<open>Steps 5 to 7.  The comparison of the processor features only chooses the message that is printed.\<close>

definition restore_state :: "snapshot_header \<Rightarrow> u8 list \<Rightarrow> ('d, 'o) session \<Rightarrow> ('d, 'o) session option" where
  "restore_state hdr buf s =
     (let s1 = s\<lparr>spool := (h_cap_pool hdr, h_cap_pool_used hdr)\<rparr> in
      if unat (h_task_count hdr) > 8 then None
      else
        case restore_tasks (pool_addr s) (unat (h_task_count hdr)) (drop SIZEOF_HEADER buf) (sboot s1) of
          None \<Rightarrow> None
        | Some (tasks, p, b1) \<Rightarrow>
            map_option (\<lambda>b2. s1\<lparr>sboot := b2\<rparr>)
              (restore_pages (unat (h_page_count hdr)) p (b1\<lparr>bsched := sched_set_tasks tasks (bsched b1)\<rparr>)))"

definition snapshot_restore :: "u8 list \<Rightarrow> ('d, 'o) session \<Rightarrow> (int, ('d, 'o) session) run option" where
  "snapshot_restore stk s =
     (let ctx = aes_gcm_init (g_snapshot_key (skey s)) in
      case oram_access 0 False (replicate 512 0) (oram_reset_counters (soram s)) of
        Halt o1 \<Rightarrow> Some (Halt (s\<lparr>soram := o1\<rparr>))
      | Ret (rc, sector) o1 \<Rightarrow>
          let s1 = s\<lparr>soram := o1\<rparr> in
          if rc \<noteq> 0 then Some (Ret (- 1) s1)
          else
            let (rc1, pt) = open_sector ctx sector; header = pt @ stk in
            if rc1 \<noteq> 0 then Some (Ret (- 1) s1)
            else if field 0 8 header \<noteq> SNAPSHOT_MAGIC \<or> field 8 4 header \<noteq> SNAPSHOT_VERSION then Some (Ret (- 1) s1)
            else
              case kmalloc SERIALIZE_SIZE (bheap (sboot s1)) of
                None \<Rightarrow> None
              | Some (q, hp) \<Rightarrow>
                  let s2 = s1\<lparr>sboot := set_bheap hp (sboot s1)\<rparr> in
                  if q = 0 then Some (Ret (- 1) s2)
                  else
                    case snap_read_sectors ctx [1..<Suc (unat (field 28 4 header :: u32))]
                           (take SIZEOF_HEADER header @ replicate (SERIALIZE_SIZE - SIZEOF_HEADER) 0) (soram s2) of
                      None \<Rightarrow> None
                    | Some (Halt o2) \<Rightarrow> Some (Halt (s2\<lparr>soram := o2\<rparr>))
                    | Some (Ret (rc2, buf) o2) \<Rightarrow>
                        let s3 = s2\<lparr>soram := o2\<rparr>;
                            release = (\<lambda>rc s'. map_option (\<lambda>(_, hp'). Ret rc (s'\<lparr>sboot := set_bheap hp' (sboot s')\<rparr>)) (kfree q (bheap (sboot s'))))
                        in if rc2 \<noteq> 0 then release (- 1) s3
                           else Option.bind (Option.bind (dec_header header) (\<lambda>hdr. restore_state hdr buf s3)) (release 0))"

section \<open>User pages and address translation\<close>

lemma bit_index: "i < 512 \<Longrightarrow> bit (word_of_nat i :: u64) k = bit i k"
proof -
  assume "i < 512"
  then have "unat (word_of_nat i :: u64) = i" by (simp add: unsigned_of_nat take_bit_nat_eq_self)
  then show ?thesis using bit_unsigned_iff [where ?'a = nat, of "word_of_nat i :: u64" k] by simp
qed

lemma bit_small:
  assumes "i < 512" "bit (word_of_nat i :: u64) k"
  shows "k < 9"
proof (rule ccontr)
  assume "\<not> k < 9"
  then have "(512 :: nat) \<le> 2 ^ k" using power_increasing [of 9 k "2 :: nat"] by simp
  then have "\<not> bit i k" using assms(1) by (simp add: bit_iff_odd)
  then show False using assms(2) by (simp add: bit_index [OF assms(1)])
qed

lemma index_of_bits:
  assumes "i < 512" "n \<le> 39" "\<And>k. k < 9 \<Longrightarrow> bit (v :: u64) (n + k) = bit (word_of_nat i :: u64) k"
  shows "unat (drop_bit n v AND 0x1FF) = i"
proof -
  have m: "(0x1FF :: u64) = mask 9" by (simp add: mask_eq_exp_minus_1)
  have "drop_bit n v AND 0x1FF = word_of_nat i" unfolding m
  proof (rule bit_word_eqI)
    fix k
    show "bit (drop_bit n v AND mask 9) k = bit (word_of_nat i :: u64) k" if "k < LENGTH(64)"
      using assms(3) [of k] bit_small [OF assms(1), of k] by (auto simp: bit_and_iff bit_drop_bit_eq bit_mask_iff that)
  qed
  then show ?thesis using assms(1) by (simp add: unsigned_of_nat take_bit_nat_eq_self)
qed

lemma page_virt_index:
  assumes "i4 < 512" "i3 < 512" "i2 < 512" "i1 < 512"
  defines "v \<equiv> page_virt i4 i3 i2 i1"
  shows "PML4_INDEX v = i4" "PDPT_INDEX v = i3" "PD_INDEX v = i2" "PT_INDEX v = i1" "v AND 0xFFF = 0"
    "i4 < 256 \<Longrightarrow> v < 0x800000000000"
proof -
  have b: "bit v k = (k < 64 \<and> ((39 \<le> k \<and> bit (word_of_nat i4 :: u64) (k - 39)) \<or> (30 \<le> k \<and> bit (word_of_nat i3 :: u64) (k - 30)) \<or>
      (21 \<le> k \<and> bit (word_of_nat i2 :: u64) (k - 21)) \<or> (12 \<le> k \<and> bit (word_of_nat i1 :: u64) (k - 12))))" for k
    by (auto simp: v_def page_virt_def bit_or_iff bit_push_bit_iff)
  note s = bit_small [OF assms(1)] bit_small [OF assms(2)] bit_small [OF assms(3)] bit_small [OF assms(4)]
  show "PML4_INDEX v = i4" unfolding PML4_INDEX_def
    by (rule index_of_bits) (use assms(1) in \<open>auto simp: b dest: s\<close>)
  show "PDPT_INDEX v = i3" unfolding PDPT_INDEX_def
    by (rule index_of_bits) (use assms(2) in \<open>auto simp: b dest: s\<close>)
  show "PD_INDEX v = i2" unfolding PD_INDEX_def
    by (rule index_of_bits) (use assms(3) in \<open>auto simp: b dest: s\<close>)
  show "PT_INDEX v = i1" unfolding PT_INDEX_def
    by (rule index_of_bits) (use assms(4) in \<open>auto simp: b dest: s\<close>)
  have m: "(0xFFF :: u64) = mask 12" by (simp add: mask_eq_exp_minus_1)
  show "v AND 0xFFF = 0" unfolding m by (rule bit_word_eqI) (auto simp: b bit_and_iff bit_mask_iff)
  show "v < 0x800000000000" if "i4 < 256"
  proof -
    have "\<not> bit (word_of_nat i4 :: u64) k" if "8 \<le> k" for k
    proof -
      have "(256 :: nat) \<le> 2 ^ k" using power_increasing [of 8 k "2 :: nat"] that by simp
      then have "\<not> bit i4 k" using \<open>i4 < 256\<close> by (simp add: bit_iff_odd)
      then show ?thesis by (simp add: bit_index [OF assms(1)])
    qed
    then have "\<not> bit v k" if "47 \<le> k" for k using that by (auto simp: b dest: s)
    then have "take_bit 47 v = v" by (intro bit_word_eqI) (auto simp: bit_take_bit_iff, metis not_le)
    then have "unat v < 2 ^ 47" by (metis take_bit_nat_less_exp unsigned_take_bit_eq)
    then show ?thesis by (simp add: word_less_nat_alt)
  qed
qed

definition user_space_ok :: "vmm_state \<Rightarrow> u64 \<Rightarrow> bool" where
  "user_space_ok v p =
     (vmm_wf (vmm_set_pml4 p v) \<and> 0x800000000000 \<le> hhdm_off v \<and>
      (\<forall>i. 256 \<le> i \<longrightarrow> \<not> user_entry (ptm v (p - hhdm_off v) i)) \<and>
      (\<forall>(virt, phys) \<in> set (user_pages v (p - hhdm_off v)). phys \<noteq> 0))"

lemma user_pages_translate:
  assumes ok: "user_space_ok v p" and m: "(virt, phys) \<in> set (user_pages v (p - hhdm_off v))"
  shows "vmm_virt_to_phys (vmm_set_pml4 p v) virt = phys" "phys \<noteq> 0"
proof -
  let ?s = "vmm_set_pml4 p v" and ?r = "p - hhdm_off v"
  have s: "ptm ?s = ptm v" "hhdm_off ?s = hhdm_off v" "pml4_phys ?s = ?r" "current_pml4 ?s = p"
    by (simp_all add: vmm_set_pml4_def pml4_phys_def)
  obtain i4 i3 i2 i1 where i: "i4 \<in> set (user_entries v ?r)" "i3 \<in> set (user_entries v (ptm v ?r i4 AND PTE_ADDR_MASK))"
      "i2 \<in> set (user_entries v (ptm v (ptm v ?r i4 AND PTE_ADDR_MASK) i3 AND PTE_ADDR_MASK))"
      "i1 \<in> set (user_entries v (ptm v (ptm v (ptm v ?r i4 AND PTE_ADDR_MASK) i3 AND PTE_ADDR_MASK) i2 AND PTE_ADDR_MASK))"
      "virt = page_virt i4 i3 i2 i1"
      "phys = ptm v (ptm v (ptm v (ptm v ?r i4 AND PTE_ADDR_MASK) i3 AND PTE_ADDR_MASK) i2 AND PTE_ADDR_MASK) i1 AND PTE_ADDR_MASK"
    using m by (auto simp: user_pages_def Let_def)
  define e4 e3 e2 e1 where "e4 = ptm v ?r i4" and "e3 = ptm v (e4 AND PTE_ADDR_MASK) i3" and "e2 = ptm v (e3 AND PTE_ADDR_MASK) i2"
    and "e1 = ptm v (e2 AND PTE_ADDR_MASK) i1"
  note e = e4_def e3_def e2_def e1_def
  have u: "user_entry e4" "user_entry e3" "user_entry e2" "user_entry e1" "i4 < 512" "i3 < 512" "i2 < 512" "i1 < 512"
    using i(1-4) by (simp_all add: user_entries_def e)
  have p: "bit e4 0" "bit e3 0" "bit e2 0" "bit e1 0" using u(1-4) by (simp_all add: user_entry_def bits)
  have i4: "i4 < 256" using ok u(1) unfolding user_space_ok_def e4_def by (metis not_le)
  note x = page_virt_index [OF u(5-8), folded i(5)]
  have wf: "vmm_wf ?s" using ok by (simp add: user_space_ok_def)
  have t1: "tab ?s [i4] = Some (e4 AND PTE_ADDR_MASK)" using p(1) by (simp add: s e4_def)
  have t2: "tab ?s [i3, i4] = Some (e3 AND PTE_ADDR_MASK)" using p(2) t1 by (simp add: s e3_def)
  have h: "\<not> bit e3 7" "\<not> bit e2 7"
    using vmm_wf_small [OF wf _ t1, of i3] vmm_wf_small [OF wf _ t2, of i2] p(2,3) by (simp_all add: s e3_def [symmetric] e2_def [symmetric])
  have "walk_page ?s ?r virt = e1 AND PTE_ADDR_MASK"
    using p h by (simp add: walk_page_def s x Let_def bits e4_def [symmetric] e3_def [symmetric] e2_def [symmetric] e1_def [symmetric])
  moreover have "\<not> hhdm_off v \<le> virt" using x(6) [OF i4] ok unfolding user_space_ok_def by auto
  moreover have "p \<noteq> 0" using vmm_wf_base(3) [OF wf] s(4) by simp
  ultimately show "vmm_virt_to_phys ?s virt = phys" by (simp add: vmm_virt_to_phys_def s i(6) e)
  show "phys \<noteq> 0" using ok m unfolding user_space_ok_def by auto
qed

section \<open>Putting tasks back\<close>

lemma task_table_upd_any:
  "task_table (upd_task i g s) ! j = (if j = i \<and> i < length (task_table s) then g (task_table s ! j) else task_table s ! j)"
proof (cases "i < length (task_table s)")
  case False
  then have "length (task_table s) \<le> i" by simp
  then have "(task_table s)[i := g (task_table s ! i)] = task_table s" by (rule list_update_beyond)
  then show ?thesis using False by (simp add: upd_task_def)
qed (simp add: upd_task_def nth_list_update)

lemma restore_task_sel [simp]:
  "bload (restore_task st i b) = bload b" "bheap (restore_task st i b) = bheap b"
  "bsched (restore_task st i b) =
     upd_task i (\<lambda>t. t\<lparr>tstate := st_state st, ticks := st_ticks st, kstack_top := st_kstack_top st, regs := st_regs st\<rparr>) (bsched b)"
  by (simp_all add: restore_task_def Let_def upd_btask_def bheap_def)

lemma task_get_hit: "task_get n s = Some i \<Longrightarrow> tstate (task_table s ! i) \<noteq> UNUSED \<and> tid (task_table s ! i) = n \<and> i < TASK_MAX_TASKS"
  by (simp add: task_get_def find_upt_Some_iff)

lemma task_get_restore:
  assumes "tstate (task_table (bsched b) ! i) \<noteq> UNUSED" "st_state st \<noteq> UNUSED"
  shows "task_get n (bsched (restore_task st i b)) = task_get n (bsched b)"
  unfolding task_get_def by (rule find_cong_set) (use assms in \<open>auto simp: task_table_upd_any\<close>)

lemma restore_tasks_existing:
  assumes "list_all task_valid (map img ts)"
    "\<forall>i \<in> set ts. task_get (st_id (img i)) (bsched b) = Some i \<and> st_state (img i) \<noteq> UNUSED"
  shows "restore_tasks pool (length ts) (concat (map (enc_task pool) (map img ts)) @ rest) b =
    Some (map Some ts, rest, fold (\<lambda>i. restore_task (img i) i) ts b)"
  using assms
proof (induction ts arbitrary: b)
  case (Cons i ts)
  have v: "task_valid (img i)" using Cons.prems(1) by simp
  have g: "task_get (st_id (img i)) (bsched b) = Some i" "st_state (img i) \<noteq> UNUSED" using Cons.prems(2) by simp_all
  have "\<forall>j \<in> set ts. task_get (st_id (img j)) (bsched (restore_task (img i) i b)) = Some j \<and> st_state (img j) \<noteq> UNUSED"
    using Cons.prems(2) task_get_hit [OF g(1)] g(2) by (simp add: task_get_restore del: restore_task_sel)
  moreover have "restore_slot (img i) b = Some (Some i, b)" by (simp add: restore_slot_def g(1))
  moreover have "dec_task pool ((enc_task pool (img i) @ concat (map (enc_task pool) (map img ts))) @ rest) = Some (img i)"
    using task_layout.dec_enc [OF v] by simp
  moreover have "drop SIZEOF_SNAPSHOT_TASK ((enc_task pool (img i) @ concat (map (enc_task pool) (map img ts))) @ rest) =
      concat (map (enc_task pool) (map img ts)) @ rest"
    using task_layout.length_enc [OF v, of pool] by simp
  ultimately show ?case using Cons.IH Cons.prems(1) by (simp add: restore_slot_def g(1))
qed simp

lemma fold_restore_task:
  fixes img :: "nat \<Rightarrow> snapshot_task"
  assumes "\<forall>i \<in> set ts. i < length (task_table (bsched b))"
  defines "b' \<equiv> fold (\<lambda>i. restore_task (img i) i) ts b"
  shows "bload b' = bload b" "length (task_table (bsched b')) = length (task_table (bsched b))"
    "run_queue (bsched b') = run_queue (bsched b)"
    "task_table (bsched b') ! j = (if j \<in> set ts
       then (task_table (bsched b) ! j)\<lparr>tstate := st_state (img j), ticks := st_ticks (img j), kstack_top := st_kstack_top (img j), regs := st_regs (img j)\<rparr>
       else task_table (bsched b) ! j)"
proof -
  have "bload b' = bload b \<and> length (task_table (bsched b')) = length (task_table (bsched b)) \<and>
    run_queue (bsched b') = run_queue (bsched b) \<and> (\<forall>j. task_table (bsched b') ! j = (if j \<in> set ts
       then (task_table (bsched b) ! j)\<lparr>tstate := st_state (img j), ticks := st_ticks (img j), kstack_top := st_kstack_top (img j), regs := st_regs (img j)\<rparr>
       else task_table (bsched b) ! j))"
    using assms(1) unfolding b'_def
  proof (induction ts arbitrary: b)
    case (Cons i ts)
    have "\<forall>j \<in> set ts. j < length (task_table (bsched (restore_task (img i) i b)))" using Cons.prems by simp
    note IH = Cons.IH [OF this]
    show ?case using IH Cons.prems by (auto simp: task_table_upd_any)
  qed simp
  then show "bload b' = bload b" "length (task_table (bsched b')) = length (task_table (bsched b))"
    "run_queue (bsched b') = run_queue (bsched b)"
    "task_table (bsched b') ! j = (if j \<in> set ts
       then (task_table (bsched b) ! j)\<lparr>tstate := st_state (img j), ticks := st_ticks (img j), kstack_top := st_kstack_top (img j), regs := st_regs (img j)\<rparr>
       else task_table (bsched b) ! j)" by blast+
qed

text \<open>Capability tables at one address are restored from one table.\<close>

lemma restore_task_tabs:
  "btabs (restore_task st i b) = (let ct = cap_table (task_table (bsched b) ! i) in
     if st_has_pml4 st \<noteq> 0 \<and> ct \<noteq> 0 then (btabs b)(unat ct := st_cap_table st) else btabs b)"
proof -
  have "cap_table (task_table (upd_task i (\<lambda>t. t\<lparr>tstate := st_state st, ticks := st_ticks st, kstack_top := st_kstack_top st, regs := st_regs st\<rparr>)
      (bsched b)) ! i) = cap_table (task_table (bsched b) ! i)" by (simp add: task_table_upd_any)
  then show ?thesis by (simp add: restore_task_def Let_def upd_btask_def)
qed

lemma fold_restore_tabs:
  assumes "\<forall>i \<in> set ts. st_has_pml4 (img i) \<noteq> 0 \<and> cap_table (task_table (bsched b) ! i) \<noteq> 0 \<longrightarrow>
      st_cap_table (img i) = G (unat (cap_table (task_table (bsched b) ! i)))"
  shows "(btabs b a = G a \<or> (\<exists>i \<in> set ts. st_has_pml4 (img i) \<noteq> 0 \<and> cap_table (task_table (bsched b) ! i) \<noteq> 0 \<and>
      a = unat (cap_table (task_table (bsched b) ! i)))) \<longrightarrow> btabs (fold (\<lambda>i. restore_task (img i) i) ts b) a = G a"
  using assms
proof (induction ts arbitrary: b)
  case (Cons i ts)
  let ?b = "restore_task (img i) i b"
  have c: "cap_table (task_table (bsched ?b) ! j) = cap_table (task_table (bsched b) ! j)" for j
    by (simp add: task_table_upd_any)
  have "\<forall>j \<in> set ts. st_has_pml4 (img j) \<noteq> 0 \<and> cap_table (task_table (bsched ?b) ! j) \<noteq> 0 \<longrightarrow>
      st_cap_table (img j) = G (unat (cap_table (task_table (bsched ?b) ! j)))" using Cons.prems unfolding c by simp
  note IH = Cons.IH [OF this, unfolded c]
  show ?case using IH Cons.prems unfolding fold_simps comp_def by (auto simp: restore_task_tabs Let_def)
qed simp

section \<open>Putting pages back\<close>

definition page_frame :: "'d boot \<Rightarrow> snapshot_page \<Rightarrow> u64" where
  "page_frame b ph =
     (case task_get (ph_task_id ph) (bsched b) of
        None \<Rightarrow> 0
      | Some i \<Rightarrow> if pml4 (task_table (bsched b) ! i) = 0 then 0
                  else vmm_virt_to_phys (vmm_set_pml4 (pml4 (task_table (bsched b) ! i)) (hvmm (bheap b))) (ph_virt_addr ph))"

lemma restore_page_frame:
  "restore_page ph b = (if page_frame b ph = 0 then b
     else b\<lparr>bload := (bload b)\<lparr>lframes := (lframes (bload b))(page_frame b ph := ph_bytes ph)\<rparr>\<rparr>)"
  by (simp add: restore_page_def page_frame_def Let_def vmm_set_pml4_def vmm_get_pml4_def set_bheap_def bheap_def split: option.splits)

lemma page_frame_cong: "bsched b' = bsched b \<Longrightarrow> bheap b' = bheap b \<Longrightarrow> page_frame b' = page_frame b"
  by (rule ext) (simp add: page_frame_def cong: option.case_cong if_cong)

lemma restore_page_sel:
  "bsched (restore_page ph b) = bsched b" "bheap (restore_page ph b) = bheap b" "btabs (restore_page ph b) = btabs b"
  by (simp_all add: restore_page_frame bheap_def)

lemma restore_pages_all:
  assumes "\<forall>ph \<in> set phs. length (ph_bytes ph) = 4096"
  shows "restore_pages (length phs) (concat (map enc_page phs) @ rest) b = Some (fold restore_page phs b)"
  using assms
proof (induction phs arbitrary: b)
  case (Cons ph phs)
  have d: "dec_page ((enc_page ph @ concat (map enc_page phs)) @ rest) = Some ph"
    using page_layout.dec_enc [of ph] Cons.prems by simp
  have "drop (SIZEOF_PAGE_HEADER + 4096) ((enc_page ph @ concat (map enc_page phs)) @ rest) = concat (map enc_page phs) @ rest"
    using page_layout.length_enc [of ph] Cons.prems by simp
  then show ?case using d Cons.IH Cons.prems by simp
qed simp

lemma fold_restore_page:
  assumes "\<forall>ph \<in> set phs. page_frame b ph \<noteq> 0 \<longrightarrow> ph_bytes ph = F (page_frame b ph)"
  defines "b' \<equiv> fold restore_page phs b"
  shows "bsched b' = bsched b" "bheap b' = bheap b" "btabs b' = btabs b"
    "ph \<in> set phs \<Longrightarrow> page_frame b ph \<noteq> 0 \<Longrightarrow> lframes (bload b') (page_frame b ph) = F (page_frame b ph)"
proof -
  have *: "bsched b' = bsched b \<and> bheap b' = bheap b \<and> btabs b' = btabs b \<and>
      (\<forall>a. a \<in> page_frame b ` set phs \<and> a \<noteq> 0 \<or> lframes (bload b) a = F a \<longrightarrow> lframes (bload b') a = F a)"
    using assms(1) unfolding b'_def
  proof (induction phs arbitrary: b)
    case (Cons ph phs)
    let ?b = "restore_page ph b"
    have f: "page_frame ?b = page_frame b" by (rule page_frame_cong) (simp_all add: restore_page_sel)
    have "\<forall>p \<in> set phs. page_frame ?b p \<noteq> 0 \<longrightarrow> ph_bytes p = F (page_frame ?b p)" using Cons.prems by (simp add: f)
    note IH = Cons.IH [OF this, unfolded f]
    have l: "lframes (bload ?b) a = (if page_frame b ph \<noteq> 0 \<and> a = page_frame b ph then ph_bytes ph else lframes (bload b) a)" for a
      by (simp add: restore_page_frame)
    have h: "page_frame b ph \<noteq> 0 \<Longrightarrow> ph_bytes ph = F (page_frame b ph)" using Cons.prems by simp
    have "lframes (bload (fold restore_page phs ?b)) a = F a"
      if "a \<in> page_frame b ` set (ph # phs) \<and> a \<noteq> 0 \<or> lframes (bload b) a = F a" for a
    proof -
      have "a \<in> page_frame b ` set phs \<and> a \<noteq> 0 \<or> lframes (bload ?b) a = F a"
        using that h unfolding l by auto
      then show ?thesis using IH by blast
    qed
    then show ?case using IH unfolding fold_simps comp_def restore_page_sel by blast
  qed simp
  then show "bsched b' = bsched b" "bheap b' = bheap b" "btabs b' = btabs b" by blast+
  show "ph \<in> set phs \<Longrightarrow> page_frame b ph \<noteq> 0 \<Longrightarrow> lframes (bload b') (page_frame b ph) = F (page_frame b ph)"
    using * by blast
qed

end
