(* ===== verification/Session_Resume.thy ===== *)
theory Session_Resume
  imports Snapshot
begin

unbundle bit_operations_syntax

text \<open>
  What a session snapshot keeps: theorems about \<^verbatim>\<open>snapshot_save\<close> followed by \<^verbatim>\<open>snapshot_restore\<close> (theory \<open>Snapshot\<close>), from the buffer
  over the sealed blocks back to tasks, capability tables, page contents and the run queue.
\<close>

section \<open>The buffer\<close>

lemma oram_inv_reset: "oram_inv content ready (oram_reset_counters o') = oram_inv content ready o'"
  by (simp add: oram_inv_def oram_reset_counters_def good_def located_def oram_entries_def)







section \<open>The whole way\<close>








lemma oram_value_reset: "oram_value content (oram_reset_counters o') = oram_value content o'"
  by (rule ext) (simp add: oram_value_def oram_reset_counters_def oram_entries_def)















section \<open>Properties\<close>


text \<open>C18: A restore that fails leaves tasks, capability tables, page contents, endpoints and the key as they were: nothing is put into place
  before every block has been opened.\<close>

theorem failed_restore_changes_nothing:
  assumes "snapshot_restore stk s = Some (Ret rc s')" "rc \<noteq> 0"
  shows "rc = - 1 \<and> bsched (sboot s') = bsched (sboot s) \<and> btabs (sboot s') = btabs (sboot s) \<and>
    lframes (bload (sboot s')) = lframes (bload (sboot s)) \<and> spool s' = spool s \<and> skey s' = skey s"
  using assms
  by (auto simp: snapshot_restore_def Let_def set_bheap_def split: run.splits prod.splits option.splits if_splits bind_splits)

text \<open>A task that was deleted since the snapshot is created again under a new identifier, and the saved pages of its old one are
  dropped: it resumes at the saved address in an address space without its program.\<close>

theorem recreated_task_loses_pages:
  assumes "boot_ok b" "task_get (st_id st) (bsched b) = None" "st_has_pml4 st \<noteq> 0" "restore_slot st b = Some (Some i, b1)"
    "st_id st \<noteq> next_task_id (bsched b)" "ph_task_id ph = st_id st"
  shows "rip (regs (task_table (bsched (restore_task st i b1)) ! i)) = rip (st_regs st) \<and> fresh_space (pml4 (task_table (bsched b1) ! i)) (hvmm (bheap b1)) \<and>
    restore_page ph (restore_task st i b1) = restore_task st i b1"
proof -
  have c: "task_create_user (rip (st_regs st)) b = Some (Some i, b1)" using assms(2-4) by (simp add: restore_slot_def)
  obtain k s where a: "alloc_task_slot (bsched b) = (Some k, s)"
    using c by (auto simp: task_create_user_def split: option.splits prod.splits)
  have k: "k = i" "created (rip (st_regs st)) i b b1" using task_create_user_cases [OF assms(1) a c] by auto
  note C = created_task [OF assms(1) a [unfolded k(1)] k(2)]
  have ids: "task_ids_ok (bsched b)" "next_task_id (bsched b) \<noteq> - 1" using assms(1) unfolding boot_ok_def by blast+
  note A = alloc_task_slot_Some [OF ids a [unfolded k(1)]]
  have tidi: "tid (task_table (bsched b1) ! i) = next_task_id (bsched b)"
    using k(2) A unfolding created_def a snd_conv by (auto simp: task_table_upd_any)
  let ?b2 = "restore_task st i b1"
  have "task_get (st_id st) (bsched ?b2) = None"
  proof -
    have "\<not> (tstate (task_table (bsched ?b2) ! j) \<noteq> UNUSED \<and> tid (task_table (bsched ?b2) ! j) = st_id st)" if "j < TASK_MAX_TASKS" for j
    proof (cases "j = i")
      case True
      then show ?thesis using tidi assms(5) by (simp add: task_table_upd_any)
    next
      case False
      have "\<not> (tstate (task_table (bsched b) ! j) \<noteq> UNUSED \<and> tid (task_table (bsched b) ! j) = st_id st)"
        using assms(2) that unfolding task_get_def find_upt_None_iff by blast
      then show ?thesis using C(8) [OF False] False by (simp add: task_table_upd_any)
    qed
    then show ?thesis unfolding task_get_def find_upt_None_iff by blast
  qed
  then have "restore_page ph ?b2 = ?b2" by (simp add: restore_page_def assms(6))
  moreover have "i < length (task_table (bsched b1))" using C(1,2) by (simp add: task_ids_ok_def)
  ultimately show ?thesis using C(10) by (simp add: task_table_upd_any)
qed

section \<open>Witnesses\<close>

text \<open>An address space with the stack page of a user task: four tables in the frames 1 to 4 and the page in frame 5.\<close>

definition wpmm8 :: pmm_state where
  "wpmm8 = wpmm24\<lparr>bitmap := [0xFF, 0, 0], free_memory := 65536\<rparr>"

definition wptm :: "u64 \<Rightarrow> nat \<Rightarrow> u64" where
  "wptm t i = (if t = 0x1000 \<and> i = 0 then 0x2007 else if t = 0x2000 \<and> i = 0 then 0x3007
     else if t = 0x3000 \<and> i = 1 then 0x4007 else if t = 0x4000 \<and> i = 511 then 0x5007 else 0)"

definition wuser :: vmm_state where
  "wuser = wvmm\<lparr>pmm := wpmm8, ptm := wptm\<rparr>"

lemma wuser_sel [simp]: "ptm wuser = wptm" "hhdm_off wuser = 0xffff800000000000" "current_pml4 wuser = 0xffff800000001000"
    "pml4_phys wuser = 0x1000" "pmm wuser = wpmm8"
  by (simp_all add: wuser_def wvmm_def pml4_phys_def)









definition wheapu :: heap_state where
  "wheapu = wheap24\<lparr>hvmm := wuser\<rparr>"



text \<open>The state differs in the contents of the page and in the context of the first task.\<close>

definition wresume :: "u8 \<Rightarrow> u64 \<Rightarrow> ramdisk boot" where
  "wresume c r = \<lparr>bload = wloader\<lparr>lheap := wheapu, lframes := (\<lambda>_. replicate 4096 c)\<rparr>,
     bsched = upd_task 0 (\<lambda>t. t\<lparr>pml4 := 0xffff800000001000, cap_table := 8192, kstack_top := r\<rparr>) wsched,
     btabs = (\<lambda>_. replicate CAP_TABLE_SIZE null_slot)\<rparr>"

definition wsession :: "(ramdisk, ramdisk) session" where
  "wsession = \<lparr>sboot = wresume 7 1,
     spool = (replicate 16 \<lparr>ep_generation = 0, epstate = EP_STATE_IDLE, pending_msg = 0, owner_task = 0, parked_task_id = 0\<rparr>, replicate 16 1),
     pool_addr = 0xffffffff80100000, soram = oram_format woram,
     skey = \<lparr>g_snapshot_key = replicate 32 1, g_snapshot_key_set = True, g_sequence_number = 1\<rparr>, cpuid = (0, 0)\<rparr>"

lemma wresume_sel [simp]: "bheap (wresume c r) = wheapu" "lframes (bload (wresume c r)) = (\<lambda>_. replicate 4096 c)"
    "btabs (wresume c r) = (\<lambda>_. replicate CAP_TABLE_SIZE null_slot)" "length (run_queue (bsched (wresume c r))) = 8"
    "queue_count (bsched (wresume c r)) = 3" "run_queue (bsched (wresume c r)) = [Some 0, Some 1, Some 2] @ replicate 5 None"
    "length (task_table (bsched (wresume c r))) = 8"
  by (simp_all add: wresume_def bheap_def wsched_def)







text \<open>A sealed block without the magic number.\<close>

theorem failed_restore_changes_nothing_witness:
  "\<exists>r o1 s'. oram_access 0 True (seal_sector (aes_gcm_init (replicate 32 1)) 1 0 (replicate 480 0)) (oram_format woram) = Ret r o1 \<and>
     snapshot_restore (replicate 88 0) (wsession\<lparr>soram := o1\<rparr>) = Some (Ret (- 1) s') \<and> spool s' = spool wsession"
proof -
  let ?sec = "seal_sector (aes_gcm_init (replicate 32 1)) 1 0 (replicate 480 0)"
  obtain out o1 where w: "oram_access 0 True ?sec (oram_format woram) = Ret (0, out) o1" "oram_inv fst ram_ready o1"
      "oram_value fst o1 = (oram_value fst (oram_format woram))(0 := take 508 ?sec)"
    using oram_array.acc_write [OF woram_formatted, of 0 ?sec] length_seal [of "replicate 480 0"] by auto
  have "oram_inv fst ram_ready (oram_reset_counters o1)" using w(2) by (simp add: oram_inv_reset)
  then obtain out2 o2 where r: "oram_access 0 False (replicate 512 0) (oram_reset_counters o1) = Ret (0, out2) o2"
      "take 508 out2 = oram_value fst (oram_reset_counters o1) 0"
    using oram_array.acc_read [of fst ram_ready "oram_reset_counters o1" 0 "replicate 512 0"] by auto
  have op: "open_sector (aes_gcm_init (replicate 32 1)) out2 = (0, replicate 480 0)"
    by (rule open_stored [of _ _ _ 1 0]) (use r(2) w(3) in \<open>simp_all add: oram_value_reset\<close>)
  have "field 0 8 (replicate 480 0 @ replicate 88 0) = (0 :: u64)" by (simp add: field_def take_replicate eval_nat_numeral)
  moreover have "g_snapshot_key (skey (wsession\<lparr>soram := o1\<rparr>)) = replicate 32 1" by (simp add: wsession_def)
  ultimately have f: "\<exists>s'. snapshot_restore (replicate 88 0) (wsession\<lparr>soram := o1\<rparr>) = Some (Ret (- 1) s')"
    using r(1) op by (simp add: snapshot_restore_def Let_def)
  then obtain s' where s': "snapshot_restore (replicate 88 0) (wsession\<lparr>soram := o1\<rparr>) = Some (Ret (- 1) s')" by blast
  then show ?thesis using failed_restore_changes_nothing [OF s'] w(1) by auto
qed

theorem recreated_task_loses_pages_witness:
  "\<exists>b1. restore_slot ((save_task (wboot wheap24) 1)\<lparr>st_id := 7, st_has_pml4 := 1\<rparr>) (wboot wheap24) = Some (Some 3, b1) \<and>
     restore_page \<lparr>ph_task_id = 7, ph_virt_addr = 0x400000, ph_bytes = replicate 4096 7\<rparr>
       (restore_task ((save_task (wboot wheap24) 1)\<lparr>st_id := 7, st_has_pml4 := 1\<rparr>) 3 b1) =
     restore_task ((save_task (wboot wheap24) 1)\<lparr>st_id := 7, st_has_pml4 := 1\<rparr>) 3 b1"
proof -
  let ?st = "(save_task (wboot wheap24) 1)\<lparr>st_id := 7, st_has_pml4 := 1\<rparr>"
  obtain b1 where c: "task_create_user (rip (st_regs ?st)) (wboot wheap24) = Some (Some 3, b1)" using wboot_creates by blast
  have g: "task_get 7 (bsched (wboot wheap24)) = None"
    by (simp add: task_get_def upts wboot_def wsched_def wtask_def)
  have r: "restore_slot ?st (wboot wheap24) = Some (Some 3, b1)" using c g by (simp add: restore_slot_def)
  have "st_id ?st \<noteq> next_task_id (bsched (wboot wheap24))" by (simp add: wboot_def wsched_def)
  then show ?thesis using recreated_task_loses_pages [OF wboot_ok(1) _ _ r, of "\<lparr>ph_task_id = 7, ph_virt_addr = 0x400000, ph_bytes = replicate 4096 7\<rparr>"] r g
    by simp
qed

end
