(* ===== verification/Auth.thy ===== *)
theory Auth
  imports Fido2 Auth_Counter Snapshot_Store Console
begin

unbundle bit_operations_syntax

text \<open>
  The log-in screen before boot, \<^verbatim>\<open>src/kernel/auth.c\<close>.  The loops of \<^verbatim>\<open>auth_preboot\<close> poll the serial line and the keyboard
  controller until a key arrives: the input is the list of what the successive polls read from the ports, and a run
  that is still polling when the list ends gives \<open>None\<close>.  A lock-out ends in the self-destruct sequence of theory
  \<open>Storage\<close>, which never returns (\<open>Halt\<close>).  The delay loops and the messages on the serial line are left out.
\<close>

section \<open>State\<close>

text \<open>One poll: the line status and data registers of the serial port, the status and data registers of the keyboard.\<close>

record ports =
  com1_lsr :: u8
  com1_rbr :: u8
  kbd_status :: u8
  kbd_data :: u8

record 'd auth =
  ctr :: "'d counter"
  hid :: hid_state
  skey :: snap_key
  g_challenge :: "u8 list"
  g_failed_attempts :: int
  shift :: bool
  interrupts :: bool
  pw_stack :: "u8 list"
  ascreen :: fb

definition astore :: "'d auth \<Rightarrow> 'd storage" where
  "astore a = cstore (ctr a)"

definition set_astore :: "'d storage \<Rightarrow> 'd auth \<Rightarrow> 'd auth" where
  "set_astore s a = a\<lparr>ctr := (ctr a)\<lparr>cstore := s\<rparr>\<rparr>"

section \<open>Keyboard polling\<close>

definition auth_scancode_nomod :: "u8 list" where
  "auth_scancode_nomod = [
    0, 27, 49, 50, 51, 52, 53, 54, 55, 56, 57, 48, 45, 61, 8, 9,
    113, 119, 101, 114, 116, 121, 117, 105, 111, 112, 91, 93, 10, 0, 97, 115,
    100, 102, 103, 104, 106, 107, 108, 59, 39, 96, 0, 92, 122, 120, 99, 118,
    98, 110, 109, 44, 46, 47, 0, 42, 0, 32]"

definition auth_scancode_shift :: "u8 list" where
  "auth_scancode_shift = [
    0, 27, 33, 64, 35, 36, 37, 94, 38, 42, 40, 41, 95, 43, 8, 9,
    81, 87, 69, 82, 84, 89, 85, 73, 79, 80, 123, 125, 10, 0, 65, 83,
    68, 70, 71, 72, 74, 75, 76, 58, 34, 126, 0, 124, 90, 88, 67, 86,
    66, 78, 77, 60, 62, 63, 0, 42, 0, 32]"

record polled_key =
  kchar :: u8
  is_f2 :: bool
  is_space :: bool

definition get_char_poll :: "ports \<Rightarrow> bool \<Rightarrow> polled_key \<times> bool" where
  "get_char_poll p sh =
     (let none = \<lparr>kchar = 0, is_f2 = False, is_space = False\<rparr> in
      if com1_lsr p AND 0x01 \<noteq> 0 then
        let c = (if com1_rbr p = 13 then 10 else com1_rbr p)
        in (\<lparr>kchar = c, is_f2 = False, is_space = (c = 32 \<or> c = 10)\<rparr>, sh)
      else if kbd_status p AND 0x01 \<noteq> 0 then
        let scancode = kbd_data p in
        if scancode = 0x2A \<or> scancode = 0x36 then (none, True)
        else if scancode = 0xAA \<or> scancode = 0xB6 then (none, False)
        else if scancode AND 0x80 \<noteq> 0 then (none, sh)
        else if scancode = 0x3C then (none\<lparr>is_f2 := True\<rparr>, sh)
        else if scancode = 0x39 then (none\<lparr>kchar := 32, is_space := True\<rparr>, sh)
        else if unat scancode < length auth_scancode_nomod then
          (none\<lparr>kchar := if sh then auth_scancode_shift ! unat scancode else auth_scancode_nomod ! unat scancode\<rparr>, sh)
        else (none, sh)
      else (none, sh))"

section \<open>Drawing\<close>

definition draw_box :: "int \<Rightarrow> int \<Rightarrow> int \<Rightarrow> int \<Rightarrow> u32 \<Rightarrow> u32 \<Rightarrow> fb \<Rightarrow> fb" where
  "draw_box x y w ht bg_color border_color f =
     fold (\<lambda>i g.
         fb_draw_rect (x + w + i - 1) (y - i) 1 (ht + 2 * i) border_color
           (fb_draw_rect (x - i) (y - i) 1 (ht + 2 * i) border_color
             (fb_draw_rect (x - i) (y + ht + i - 1) (w + 2 * i) 1 border_color
               (fb_draw_rect (x - i) (y - i) (w + 2 * i) 1 border_color g))))
       [0, 1, 2] (fb_draw_rect x y w ht bg_color f)"

definition draw_glow_border :: "u32 \<Rightarrow> fb \<Rightarrow> fb" where
  "draw_glow_border color f =
     (let W = fb_width f; H = fb_height f in
      fold (\<lambda>i g.
          fb_draw_rect (sint (W - 10 - i)) (10 + uint i) 1 (sint (H - 20 - 2 * i)) color
            (fb_draw_rect (10 + uint i) (10 + uint i) 1 (sint (H - 20 - 2 * i)) color
              (fb_draw_rect (10 + uint i) (sint (H - 10 - i)) (sint (W - 20 - 2 * i)) 1 color
                (fb_draw_rect (10 + uint i) (10 + uint i) (sint (W - 20 - 2 * i)) 1 color g))))
        [0, 1, 2, 3] f)"

definition centred :: "u32 \<Rightarrow> u32 \<Rightarrow> int" where
  "centred whole part = uint ((whole - part) div 2)"

definition draw_lockout :: "fb \<Rightarrow> fb" where
  "draw_lockout f =
     (let f1 = draw_glow_border 0x00EF4444 (fb_clear 0x007F1D1D f);
          bx = centred (fb_width f1) 640; by' = centred (fb_height f1) 240;
          f2 = draw_box bx by' 640 240 0x00450A0A 0x00F87171 f1;
          f3 = fb_draw_string (bx + 40) (by' + 40) (ascii ''!!! SECURITY COMPROMISED: TAMPER LOCKOUT !!!'') 0x00F87171 f2;
          f4 = fb_draw_string (bx + 40) (by' + 80) (ascii ''Too many failed authentication attempts.'') 0x00FFFFFF f3;
          f5 = fb_draw_string (bx + 40) (by' + 120) (ascii ''Master session keys permanently destroyed.'') 0x00FFFFFF f4
      in fb_draw_string (bx + 40) (by' + 160) (ascii ''System execution permanently halted.'') 0x00F87171 f5)"

definition trigger_tamper_lockout :: "'d auth \<Rightarrow> 'd auth" where
  "trigger_tamper_lockout a =
     (let a1 = a\<lparr>ascreen := draw_lockout (ascreen a)\<rparr>
      in set_astore (destruct_trigger (Some (ascii ''Too many failed authentication attempts'')) (astore a1)) a1)"

definition draw_login :: "int \<Rightarrow> int \<Rightarrow> int \<Rightarrow> fb \<Rightarrow> fb" where
  "draw_login bx by' failed f =
     (let f1 = draw_glow_border 0x0006B6D4 (fb_clear 0x000F172A f);
          f2 = draw_box bx by' 540 320 0x001E293B 0x0006B6D4 f1;
          f3 = fb_draw_string (bx + 110) (by' + 30) (ascii ''STYXOS SECURE GATEWAY'') 0x00FFFFFF f2;
          f4 = fb_draw_string (bx + 30) (by' + 60) (concat (replicate 48 [0xE2, 0x94, 0x80])) 0x00334155 f3;
          f5 = (if failed > 0 then
                  fb_draw_string (bx + 30) (by' + 80)
                    (ascii ''Warning: '' @ ascii (if failed = 1 then ''1 failed attempt. 2 remaining.'' else ''2 failed attempts. 1 remaining!''))
                    0x00F87171 f4
                else fb_draw_string (bx + 30) (by' + 80) (ascii ''Multi-factor authentication required.'') 0x0094A3B8 f4)
      in fb_draw_string (bx + 30) (by' + 120) (ascii ''Password: '') 0x0038BDF8 f5)"

section \<open>Password entry\<close>

record pw_entry =
  password :: "u8 list"
  pw_idx :: nat
  f2_triggered :: bool
  cursor_state :: bool
  cursor_ticks :: u32
  eshift :: bool
  escreen :: fb

definition cursor_rect :: "int \<Rightarrow> int \<Rightarrow> nat \<Rightarrow> u32 \<Rightarrow> fb \<Rightarrow> fb" where
  "cursor_rect bx by' i color f = fb_draw_rect (bx + 120 + int i * 8) (by' + 120) 8 16 color f"

definition edit_key :: "int \<Rightarrow> int \<Rightarrow> u8 \<Rightarrow> pw_entry \<Rightarrow> pw_entry" where
  "edit_key bx by' c e =
     (if c = 10 then e
      else if c = 8 then
        if pw_idx e > 0 then
          e\<lparr>pw_idx := pw_idx e - 1, password := store_at (pw_idx e - 1) 0 (password e),
            escreen := cursor_rect bx by' (pw_idx e - 1) 0x001E293B (escreen e)\<rparr>
        else e
      else if c \<ge> 32 \<and> c \<le> 126 \<and> pw_idx e < 32 then
        e\<lparr>password := store_at (pw_idx e + 1) 0 (store_at (pw_idx e) c (password e)), pw_idx := pw_idx e + 1,
          escreen := fb_draw_char (bx + 120 + int (pw_idx e) * 8) (by' + 120) 42 0x0034D399 (escreen e)\<rparr>
      else e)"

definition blink_cursor :: "int \<Rightarrow> int \<Rightarrow> pw_entry \<Rightarrow> pw_entry" where
  "blink_cursor bx by' e =
     (let e1 = e\<lparr>cursor_ticks := cursor_ticks e + 1\<rparr> in
      if cursor_ticks e1 mod 100000 = 0 then
        e1\<lparr>cursor_state := \<not> cursor_state e1,
           escreen := cursor_rect bx by' (pw_idx e1) (if \<not> cursor_state e1 then 0x0034D399 else 0x001E293B) (escreen e1)\<rparr>
      else e1)"

fun collect_password :: "int \<Rightarrow> int \<Rightarrow> ports list \<Rightarrow> pw_entry \<Rightarrow> (pw_entry \<times> ports list) option" where
  "collect_password bx by' [] e = None"
| "collect_password bx by' (p # ps) e =
     (let (k, sh) = get_char_poll p (eshift e);
          e1 = e\<lparr>eshift := sh, f2_triggered := f2_triggered e \<or> is_f2 k\<rparr>
      in if kchar k = 10 \<and> pw_idx e1 > 0 then Some (e1, ps)
         else collect_password bx by' ps (blink_cursor bx by' (edit_key bx by' (kchar k) e1)))"

section \<open>The second factor\<close>

fun wait_key :: "(polled_key \<Rightarrow> bool) \<Rightarrow> ports list \<Rightarrow> bool \<Rightarrow> (bool \<times> ports list) option" where
  "wait_key stop [] sh = None"
| "wait_key stop (p # ps) sh =
     (let (k, sh1) = get_char_poll p sh in if stop k then Some (sh1, ps) else wait_key stop ps sh1)"

definition emulator_key :: "polled_key \<Rightarrow> bool" where
  "emulator_key k = (is_f2 k \<or> is_space k \<or> kchar k = 50 \<or> kchar k = 10 \<or> kchar k = 32)"

definition draw_fido :: "int \<Rightarrow> int \<Rightarrow> string \<Rightarrow> u32 \<Rightarrow> 'd auth \<Rightarrow> 'd auth" where
  "draw_fido bx by' msg color a = a\<lparr>ascreen := fb_draw_string (bx + 120) (by' + 160) (ascii msg) color (ascreen a)\<rparr>"

definition clear_fido :: "int \<Rightarrow> int \<Rightarrow> 'd auth \<Rightarrow> 'd auth" where
  "clear_fido bx by' a = a\<lparr>ascreen := fb_draw_rect (bx + 120) (by' + 160) 400 16 0x001E293B (ascreen a)\<rparr>"

definition emulate_touch :: "int \<Rightarrow> int \<Rightarrow> ports list \<Rightarrow> u8 list \<Rightarrow> 'd auth \<Rightarrow> (bool \<times> u8 list \<times> ports list \<times> 'd auth) option" where
  "emulate_touch bx by' ps secret a =
     (case wait_key is_space ps (shift a) of
        None \<Rightarrow> None
      | Some (sh, ps1) \<Rightarrow>
          let a1 = draw_fido bx by' ''Generating cryptographic assertion...'' 0x0038BDF8 (clear_fido bx by' (a\<lparr>shift := sh\<rparr>));
              (rc, s) = fido2_emulate_assertion (stack (astore a1)) (cpuid (ctr a1)) (g_challenge a1) None
          in if rc = 0 then Some (True, s, ps1, draw_fido bx by' ''Emulated Touch Authorized.'' 0x0034D399 (clear_fido bx by' a1))
             else Some (False, s, ps1, a1))"

definition fido2_phase :: "int \<Rightarrow> int \<Rightarrow> ports list \<Rightarrow> 'd auth \<Rightarrow> (bool \<times> u8 list \<times> ports list \<times> 'd auth) option" where
  "fido2_phase bx by' ps a =
     (let (real_hid, hs) = fido2_device_detect (hid a);
          a1 = a\<lparr>hid := hs, ascreen := fb_draw_string (bx + 30) (by' + 160) (ascii ''FIDO2 Key: '') 0x0038BDF8 (ascreen a)\<rparr>;
          secret = replicate 64 0
      in if real_hid then
           let a2 = draw_fido bx by' ''Device found. Touch key to authorize...'' 0x00FBBF24 a1;
               (rc, s, hs2) = fido2_get_assertion (stack (astore a2)) (cpuid (ctr a2)) (g_challenge a2) None secret (hid a2);
               a3 = a2\<lparr>hid := hs2\<rparr>
           in if rc = 0 then Some (True, s, ps, draw_fido bx by' ''Authorized successfully.          '' 0x0034D399 a3)
              else Some (False, s, ps, draw_fido bx by' ''Authorization failed.             '' 0x00F87171 a3)
         else
           let a2 = draw_fido bx by' ''Not found. Press F2 for Emulator Mode'' 0x00F87171 a1 in
           case wait_key emulator_key ps (shift a2) of
             None \<Rightarrow> None
           | Some (sh, ps1) \<Rightarrow>
               emulate_touch bx by' ps1 secret
                 (draw_fido bx by' ''EMULATOR ACTIVE. Press SPACE to Touch'' 0x00FBBF24 (clear_fido bx by' (a2\<lparr>shift := sh\<rparr>))))"

section \<open>Key derivation\<close>

definition strlen :: "u8 list \<Rightarrow> nat" where
  "strlen s = length (takeWhile (\<lambda>c. c \<noteq> 0) s)"

definition auth_ikm :: "u8 list \<Rightarrow> u8 list \<Rightarrow> u8 list" where
  "auth_ikm pw secret = take (strlen pw) pw @ take 64 secret"

definition auth_derive :: "u8 list \<Rightarrow> u8 list \<Rightarrow> u8 list" where
  "auth_derive stk ikm =
     hkdf_sha512_expand stk (hkdf_sha512_extract stk (ascii ''styxos-salt'') ikm) (ascii ''styxos-key'') 64"

definition auth_grant :: "int \<Rightarrow> int \<Rightarrow> u8 list \<Rightarrow> 'd auth \<Rightarrow> 'd auth" where
  "auth_grant bx by' derived_key a =
     (let a1 = set_astore ((astore a)\<lparr>g_xts_ctx := aes256_xts_init derived_key, g_encryption_enabled := True,
                                     g_auth_derived_key := derived_key\<rparr>) a;
          a2 = a1\<lparr>skey := snapshot_set_key (stack (astore a1)) (Some derived_key) (skey a1)\<rparr>;
          a3 = a2\<lparr>ctr := auth_counter_reset (ctr a2)\<rparr>
      in a3\<lparr>ascreen := fb_draw_string (bx + 30) (by' + 210) (ascii ''ACCESS GRANTED. Booting StyxOS...'') 0x0034D399 (ascreen a3),
            interrupts := True\<rparr>)"

definition auth_fail :: "'d auth \<Rightarrow> (bool, 'd auth) run" where
  "auth_fail a =
     (let c = auth_counter_increment (ctr a); a1 = a\<lparr>ctr := c, g_failed_attempts := auth_counter_get c\<rparr>
      in if auth_counter_locked c then Halt (trigger_tamper_lockout a1) else Ret False a1)"

section \<open>The log-in loop\<close>

definition auth_verify :: "int \<Rightarrow> int \<Rightarrow> u8 list \<Rightarrow> u8 list \<Rightarrow> 'd auth \<Rightarrow> (bool, 'd auth) run" where
  "auth_verify bx by' pw secret a =
     (let derived_key = auth_derive (stack (astore a)) (auth_ikm pw secret);
          key_valid = (strlen pw > 0 \<and> take 64 derived_key \<noteq> replicate 64 0)
      in if key_valid then Ret True (auth_grant bx by' derived_key a)
         else auth_fail (a\<lparr>ascreen := fb_draw_string (bx + 30) (by' + 210) (ascii ''Authentication failed! Incorrect key.'') 0x00F87171 (ascreen a)\<rparr>))"

text \<open>One round of the loop: \<open>Ret True\<close> when access is granted, \<open>Ret False\<close> when the loop goes round again.\<close>

definition auth_round :: "int \<Rightarrow> int \<Rightarrow> ports list \<Rightarrow> 'd auth \<Rightarrow> ((bool, 'd auth) run \<times> ports list) option" where
  "auth_round bx by' ps a =
     (let e = \<lparr>password = (pw_stack a)[0 := 0], pw_idx = 0, f2_triggered = False, cursor_state = True, cursor_ticks = 0,
               eshift = shift a, escreen = draw_login bx by' (g_failed_attempts a) (ascreen a)\<rparr>
      in case collect_password bx by' ps e of
           None \<Rightarrow> None
         | Some (e1, ps1) \<Rightarrow>
             let a1 = a\<lparr>shift := eshift e1, ascreen := cursor_rect bx by' (pw_idx e1) 0x001E293B (escreen e1)\<rparr> in
             case fido2_phase bx by' ps1 a1 of
               None \<Rightarrow> None
             | Some (fido2_ok, secret, ps2, a2) \<Rightarrow>
                 Some (if \<not> fido2_ok then auth_fail a2 else auth_verify bx by' (password e1) secret a2, ps2))"

lemma wait_key_shorter: "wait_key stop ps sh = Some (sh1, ps1) \<Longrightarrow> length ps1 < length ps"
  by (induction ps arbitrary: sh) (fastforce simp: Let_def split: prod.splits if_splits)+

lemma collect_shorter: "collect_password bx by' ps e = Some (e1, ps1) \<Longrightarrow> length ps1 < length ps"
proof (induction ps arbitrary: e)
  case (Cons p ps)
  show ?case
    using Cons.prems Cons.IH [of "blink_cursor bx by' (edit_key bx by' (kchar (fst (get_char_poll p (eshift e))))
        (e\<lparr>eshift := snd (get_char_poll p (eshift e)), f2_triggered := f2_triggered e \<or> is_f2 (fst (get_char_poll p (eshift e)))\<rparr>))"]
    by (auto simp: Let_def prod.case_eq_if split: if_splits)
qed simp

lemma fido2_phase_shorter: "fido2_phase bx by' ps a = Some (ok, s, ps1, a1) \<Longrightarrow> length ps1 \<le> length ps"
  by (auto simp: fido2_phase_def emulate_touch_def Let_def split: prod.splits if_splits option.splits dest!: wait_key_shorter)

lemma auth_round_shorter: "auth_round bx by' ps a = Some (r, ps1) \<Longrightarrow> length ps1 < length ps"
  by (auto simp: auth_round_def Let_def split: option.splits prod.splits dest!: collect_shorter fido2_phase_shorter)

function auth_loop :: "int \<Rightarrow> int \<Rightarrow> ports list \<Rightarrow> 'd auth \<Rightarrow> (bool, 'd auth) run option" where
  "auth_loop bx by' ps a =
     (case auth_round bx by' ps a of
        None \<Rightarrow> None
      | Some (Halt a1, _) \<Rightarrow> Some (Halt a1)
      | Some (Ret granted a1, ps1) \<Rightarrow> if granted then Some (Ret True a1) else auth_loop bx by' ps1 a1)"
  by pat_completeness auto
termination
  by (relation "measure (\<lambda>(_, _, ps, _). length ps)") (auto dest: auth_round_shorter)

declare auth_loop.simps [simp del]

definition rng_seed :: "rng \<Rightarrow> rng" where
  "rng_seed r = r\<lparr>gen := fst (readings r (calls r)), calls := calls r + 1\<rparr>"

definition fresh_challenge :: "'d auth \<Rightarrow> 'd auth" where
  "fresh_challenge a =
     (let net = snet (astore a); (bs, r) = rng_bytes 32 (rng_seed (rand net))
      in (set_astore ((astore a)\<lparr>snet := net\<lparr>rand := r\<rparr>\<rparr>) a)\<lparr>g_challenge := bs\<rparr>)"

definition auth_preboot :: "ports list \<Rightarrow> 'd auth \<Rightarrow> (bool, 'd auth) run option" where
  "auth_preboot ps a =
     (case auth_counter_init (ctr a) of
        Halt c \<Rightarrow> Some (Halt (a\<lparr>ctr := c\<rparr>))
      | Ret _ c \<Rightarrow>
          let a1 = a\<lparr>ctr := c\<rparr> in
          if auth_counter_locked c then Some (Halt (trigger_tamper_lockout a1))
          else
            let a2 = (fresh_challenge (a1\<lparr>g_failed_attempts := auth_counter_get c\<rparr>))\<lparr>interrupts := False\<rparr>
            in auth_loop (centred (fb_width (ascreen a2)) 540) (centred (fb_height (ascreen a2)) 320) ps a2)"


section \<open>Password entry as line editing\<close>

text \<open>The reference: a line of at most 32 printable characters with a backspace key, ended by a line feed.\<close>

definition edit_ref :: "u8 \<Rightarrow> u8 list \<Rightarrow> u8 list" where
  "edit_ref c w =
     (if c = 8 then butlast w else if 32 \<le> c \<and> c \<le> 126 \<and> length w < 32 then w @ [c] else w)"

fun line_ref :: "u8 list \<Rightarrow> u8 list \<Rightarrow> (u8 list \<times> nat) option" where
  "line_ref w [] = None"
| "line_ref w (c # cs) = (if c = 10 \<and> w \<noteq> [] then Some (w, length cs) else line_ref (edit_ref c w) cs)"

fun polled_chars :: "bool \<Rightarrow> ports list \<Rightarrow> u8 list" where
  "polled_chars sh [] = []"
| "polled_chars sh (p # ps) = kchar (fst (get_char_poll p sh)) # polled_chars (snd (get_char_poll p sh)) ps"

definition printable :: "u8 \<Rightarrow> bool" where
  "printable c = (32 \<le> c \<and> c \<le> 126)"

definition entry_line :: "pw_entry \<Rightarrow> u8 list" where
  "entry_line e = take (pw_idx e) (password e)"

definition entry_ok :: "pw_entry \<Rightarrow> bool" where
  "entry_ok e = (length (password e) = 33 \<and> pw_idx e \<le> 32 \<and> list_all printable (entry_line e) \<and> password e ! pw_idx e = 0)"

lemma printable_nonzero: "printable c \<Longrightarrow> c \<noteq> 0"
  by (auto simp: printable_def)

lemma strlen_entry:
  assumes "entry_ok e"
  shows "strlen (password e) = pw_idx e"
proof -
  have "password e = entry_line e @ 0 # drop (Suc (pw_idx e)) (password e)"
    using assms id_take_nth_drop [of "pw_idx e" "password e"] by (simp add: entry_ok_def entry_line_def)
  moreover have "\<forall>c \<in> set (entry_line e). c \<noteq> 0" using assms printable_nonzero by (auto simp: entry_ok_def list_all_iff)
  ultimately have "takeWhile (\<lambda>c. c \<noteq> 0) (password e) = entry_line e"
    by (metis (mono_tags, lifting) append_Nil2 takeWhile.simps(2) takeWhile_append2)
  then show ?thesis using assms by (simp add: strlen_def entry_line_def entry_ok_def)
qed

lemma edit_key_inside:
  assumes "length (password e) = 33" "pw_idx e \<le> 32"
  shows "edit_key bx by' c e =
     (if c = 10 then e
      else if c = 8 then
        if pw_idx e > 0 then
          e\<lparr>pw_idx := pw_idx e - 1, password := (password e)[pw_idx e - 1 := 0],
            escreen := cursor_rect bx by' (pw_idx e - 1) 0x001E293B (escreen e)\<rparr>
        else e
      else if c \<ge> 32 \<and> c \<le> 126 \<and> pw_idx e < 32 then
        e\<lparr>password := (password e)[pw_idx e := c, pw_idx e + 1 := 0], pw_idx := pw_idx e + 1,
          escreen := fb_draw_char (bx + 120 + int (pw_idx e) * 8) (by' + 120) 42 0x0034D399 (escreen e)\<rparr>
      else e)"
  using assms by (simp add: edit_key_def store_at_inside)

lemma edit_key_refines:
  assumes "entry_ok e"
  shows "entry_ok (edit_key bx by' c e)" "entry_line (edit_key bx by' c e) = edit_ref c (entry_line e)"
    "eshift (edit_key bx by' c e) = eshift e"
proof -
  have len: "length (password e) = 33" and i: "pw_idx e \<le> 32" and z: "password e ! pw_idx e = 0"
    and pr: "list_all printable (entry_line e)" and l: "length (entry_line e) = pw_idx e"
    using assms by (simp_all add: entry_ok_def entry_line_def)
  note ed = edit_key_inside [OF len i]
  have bs: "take (pw_idx e - 1) ((password e)[pw_idx e - 1 := 0]) = butlast (entry_line e)"
    using len i by (simp add: entry_line_def butlast_take)
  have "list_all printable (butlast (entry_line e))"
    using pr by (auto simp: list_all_iff dest: in_set_butlastD)
  moreover have add: "take (Suc (pw_idx e)) ((password e)[pw_idx e := c, Suc (pw_idx e) := 0]) = entry_line e @ [c]"
    if "pw_idx e < 32" using that len by (simp add: entry_line_def take_Suc_conv_app_nth)
  ultimately show "entry_ok (edit_key bx by' c e)"
    using len i z pr l bs by (auto simp: ed entry_ok_def entry_line_def [of "e\<lparr>pw_idx := _, password := _, escreen := _\<rparr>"]
        entry_line_def [of "e\<lparr>password := _, pw_idx := _, escreen := _\<rparr>"] printable_def)
  show "entry_line (edit_key bx by' c e) = edit_ref c (entry_line e)"
    using len i l bs add by (auto simp: ed edit_ref_def entry_line_def)
  show "eshift (edit_key bx by' c e) = eshift e" by (simp add: edit_key_def)
qed

lemma blink_cursor_same:
  "entry_ok (blink_cursor bx by' e) = entry_ok e" "entry_line (blink_cursor bx by' e) = entry_line e"
  "eshift (blink_cursor bx by' e) = eshift e"
  by (simp_all add: blink_cursor_def Let_def entry_ok_def entry_line_def)

lemma note_poll_same:
  "entry_ok (e\<lparr>eshift := b, f2_triggered := d\<rparr>) = entry_ok e" "entry_line (e\<lparr>eshift := b, f2_triggered := d\<rparr>) = entry_line e"
  by (simp_all add: entry_ok_def entry_line_def)

lemma collect_refines:
  assumes "entry_ok e"
  shows "case collect_password bx by' ps e of
      None \<Rightarrow> line_ref (entry_line e) (polled_chars (eshift e) ps) = None
    | Some (e1, rest) \<Rightarrow> entry_ok e1 \<and> entry_line e1 \<noteq> [] \<and> (\<exists>used. ps = used @ rest) \<and>
        line_ref (entry_line e) (polled_chars (eshift e) ps) = Some (entry_line e1, length rest)"
  using assms
proof (induction ps arbitrary: e)
  case (Cons p ps)
  obtain k sh where k: "get_char_poll p (eshift e) = (k, sh)" by force
  define e1 where "e1 = e\<lparr>eshift := sh, f2_triggered := f2_triggered e \<or> is_f2 k\<rparr>"
  define e2 where "e2 = blink_cursor bx by' (edit_key bx by' (kchar k) e1)"
  have e1: "entry_ok e1" "entry_line e1 = entry_line e" "eshift e1 = sh" "pw_idx e1 = pw_idx e"
    using Cons.prems by (simp_all add: e1_def note_poll_same)
  have e2: "entry_ok e2" "entry_line e2 = edit_ref (kchar k) (entry_line e)" "eshift e2 = sh"
    using edit_key_refines [OF e1(1)] e1 by (simp_all add: e2_def blink_cursor_same)
  have c: "collect_password bx by' (p # ps) e = (if kchar k = 10 \<and> pw_idx e > 0 then Some (e1, ps) else collect_password bx by' ps e2)"
    by (simp add: k e1_def [symmetric] e2_def [symmetric] e1(4))
  have ne: "pw_idx e > 0 \<longleftrightarrow> entry_line e \<noteq> []" using Cons.prems by (auto simp: entry_ok_def entry_line_def)
  have len: "length (polled_chars sh ps) = length ps" for sh by (induction ps arbitrary: sh) simp_all
  show ?case
  proof (cases "kchar k = 10 \<and> pw_idx e > 0")
    case True
    then show ?thesis using e1 ne c by (simp add: k len)
  next
    case False
    then have c': "collect_password bx by' (p # ps) e = collect_password bx by' ps e2" unfolding c by (simp only: if_False)
    have r: "line_ref (entry_line e) (polled_chars (eshift e) (p # ps)) = line_ref (entry_line e2) (polled_chars (eshift e2) ps)"
      using False by (auto simp: k e2 ne [symmetric])
    show ?thesis
    proof (cases "collect_password bx by' ps e2")
      case None
      then show ?thesis using Cons.IH [OF e2(1)] unfolding c' r by simp
    next
      case (Some q)
      obtain e3 rest where q: "q = (e3, rest)" by force
      obtain used where "ps = used @ rest" using Cons.IH [OF e2(1)] Some q by auto
      then have "p # ps = (p # used) @ rest" by simp
      then show ?thesis using Cons.IH [OF e2(1)] Some q unfolding c' r by (simp del: append_Cons)
    qed
  qed
qed simp


section \<open>Granting access\<close>

lemma astore_simps [simp]:
  "astore (set_astore s a) = s" "ctr (set_astore s a) = (ctr a)\<lparr>cstore := s\<rparr>"
  "astore (a\<lparr>ctr := c\<rparr>) = cstore c" "astore (a\<lparr>hid := h'\<rparr>) = astore a" "astore (a\<lparr>skey := k\<rparr>) = astore a"
  "astore (a\<lparr>g_challenge := ch\<rparr>) = astore a" "astore (a\<lparr>g_failed_attempts := n\<rparr>) = astore a" "astore (a\<lparr>shift := b\<rparr>) = astore a"
  "astore (a\<lparr>interrupts := b\<rparr>) = astore a" "astore (a\<lparr>ascreen := f\<rparr>) = astore a"
  "skey (set_astore s a) = skey a" "g_challenge (set_astore s a) = g_challenge a" "shift (set_astore s a) = shift a"
  "pw_stack (set_astore s a) = pw_stack a" "ascreen (set_astore s a) = ascreen a" "hid (set_astore s a) = hid a"
  by (simp_all add: astore_def set_astore_def)

lemma reset_same: "same_storage (cstore c) (cstore (auth_counter_reset c))" "auth_counter_get (auth_counter_reset c) = 0"
  by (simp_all add: auth_counter_reset_def Let_def counter_write_def write_same same_storage_refl auth_counter_get_def)

definition unlocked :: "u8 list \<Rightarrow> 'd auth \<Rightarrow> bool" where
  "unlocked key a =
     (g_encryption_enabled (astore a) \<and> g_xts_ctx (astore a) = aes256_xts_init key \<and> g_auth_derived_key (astore a) = key \<and>
      g_snapshot_key_set (skey a) \<and>
      g_snapshot_key (skey a) = hkdf_sha512_expand (stack (astore a))
        (hkdf_sha512_extract (stack (astore a)) (take 32 key) (take 32 (drop 32 key))) (ascii ''styxos-snapshot-key-v1'') 32 \<and>
      auth_counter_get (ctr a) = 0 \<and> interrupts a)"

lemma grant_unlocks: "unlocked key (auth_grant bx by' key a)"
proof -
  define c where "c = (ctr a)\<lparr>cstore := (astore a)\<lparr>g_xts_ctx := aes256_xts_init key, g_encryption_enabled := True,
      g_auth_derived_key := key\<rparr>\<rparr>"
  note s = same_storageD [OF reset_same(1) [of c]]
  show ?thesis
    using s reset_same(2) [of c] by (simp add: unlocked_def auth_grant_def Let_def snapshot_set_key_def c_def astore_def set_astore_def)
qed

lemma auth_fail_not_granted: "auth_fail a \<noteq> Ret True a'"
  by (simp add: auth_fail_def Let_def)

text \<open>The secret of the second factor, and what stays the same during a log-in.\<close>

definition login_secret :: "'d auth \<Rightarrow> u8 list" where
  "login_secret a = snd (fido2_emulate_assertion (stack (astore a)) (cpuid (ctr a)) (g_challenge a) None)"

definition login_const :: "'d auth \<Rightarrow> 'd auth \<Rightarrow> bool" where
  "login_const a a' =
     (stack (astore a') = stack (astore a) \<and> cpuid (ctr a') = cpuid (ctr a) \<and> g_challenge a' = g_challenge a \<and> pw_stack a' = pw_stack a)"

lemma login_const_trans: "login_const a b \<Longrightarrow> login_const b c \<Longrightarrow> login_const a c"
  by (simp add: login_const_def)

lemma login_const_secret: "login_const a a' \<Longrightarrow> login_secret a' = login_secret a"
  by (simp add: login_const_def login_secret_def)

lemma login_const_screen:
  "login_const a (a\<lparr>shift := b, ascreen := f\<rparr>)" "login_const a (a\<lparr>ascreen := f\<rparr>)"
  "login_const a (draw_fido bx by' m c a)" "login_const a (clear_fido bx by' a)"
  by (simp_all add: login_const_def draw_fido_def clear_fido_def astore_def)

text \<open>The second factor never fails: no security key is found and the emulator always answers.\<close>

lemma fido2_phase_secret:
  assumes "fido2_phase bx by' ps a = Some (ok, secret, ps1, a1)"
  shows "login_const a a1 \<and> secret = login_secret a \<and> (\<exists>k. ps1 = drop k ps)"
proof -
  have suffix: "wait_key stop qs sh = Some (sh1, qs1) \<Longrightarrow> \<exists>k. qs1 = drop k qs" for stop qs sh sh1 qs1
  proof (induction qs arbitrary: sh)
    case (Cons q qs)
    then show ?case by (auto simp: Let_def split: prod.splits if_splits) (metis drop0 drop_Suc_Cons, metis drop_Suc_Cons)
  qed simp
  obtain sh qs sh2 where w: "wait_key emulator_key ps (shift a) = Some (sh, qs)" "wait_key is_space qs sh = Some (sh2, ps1)"
    using assms by (auto simp: fido2_phase_def emulate_touch_def fido2_device_detect_def usb_hid_init_def Let_def draw_fido_def clear_fido_def
        fido2_emulate_assertion_def split: option.splits prod.splits if_splits)
  obtain j k where "qs = drop j ps" "ps1 = drop k qs" using suffix [OF w(1)] suffix [OF w(2)] by blast
  then have "ps1 = drop (k + j) ps" by simp
  moreover have "login_const a a1 \<and> secret = login_secret a"
    using assms by (auto simp: fido2_phase_def emulate_touch_def fido2_device_detect_def usb_hid_init_def Let_def draw_fido_def clear_fido_def
        fido2_emulate_assertion_def login_secret_def login_const_def astore_def split: option.splits prod.splits if_splits)
  ultimately show ?thesis by blast
qed

lemma fail_const: "auth_fail a = Ret b a' \<Longrightarrow> login_const a a'"
proof -
  have "same_storage (cstore (ctr a)) (cstore (auth_counter_increment (ctr a)))" "cpuid (auth_counter_increment (ctr a)) = cpuid (ctr a)"
    by (simp_all add: auth_counter_increment_def counter_write_def Let_def write_same same_storage_refl)
  then show "auth_fail a = Ret b a' \<Longrightarrow> login_const a a'"
    by (auto simp: auth_fail_def Let_def login_const_def astore_def same_storageD split: if_splits)
qed

lemma grant_const: "login_const a (auth_grant bx by' key a)"
  by (simp add: login_const_def auth_grant_def Let_def)
    (simp add: astore_def set_astore_def auth_counter_reset_def counter_write_def Let_def same_storageD(7) [OF write_same])

text \<open>The key of a log-in: derived from a line that was typed at some point and from the second factor.\<close>

definition typed_line :: "ports list \<Rightarrow> u8 list \<Rightarrow> bool" where
  "typed_line ps pw = (\<exists>k sh n. line_ref [] (polled_chars sh (drop k ps)) = Some (pw, n))"

definition login_key :: "ports list \<Rightarrow> 'd auth \<Rightarrow> u8 list \<Rightarrow> bool" where
  "login_key ps a key =
     (\<exists>pw. typed_line ps pw \<and> pw \<noteq> [] \<and> length pw \<le> 32 \<and> list_all printable pw \<and>
        key = auth_derive (stack (astore a)) (pw @ take 64 (login_secret a)) \<and> take 64 key \<noteq> replicate 64 0)"

lemma typed_line_drop: "typed_line (drop k ps) pw \<Longrightarrow> typed_line ps pw"
  unfolding typed_line_def by (metis drop_drop)

lemma login_key_drop: "login_key (drop k ps) a key \<Longrightarrow> login_key ps a key"
  unfolding login_key_def using typed_line_drop by blast

lemma login_key_const: "login_const a a' \<Longrightarrow> login_key ps a' key = login_key ps a key"
  unfolding login_key_def using login_const_secret [of a a'] by (simp add: login_const_def)

lemma round_outcome:
  assumes "length (pw_stack a) = 33" "auth_round bx by' ps a = Some (Ret g a', ps1)"
  shows "login_const a a' \<and> (\<exists>k. ps1 = drop k ps) \<and> (g \<longrightarrow> (\<exists>key. login_key ps a key \<and> unlocked key a'))"
proof -
  define e where "e = \<lparr>password = (pw_stack a)[0 := 0], pw_idx = 0, f2_triggered = False, cursor_state = True, cursor_ticks = 0,
      eshift = shift a, escreen = draw_login bx by' (g_failed_attempts a) (ascreen a)\<rparr>"
  have e: "entry_ok e" "entry_line e = []" using assms(1) by (simp_all add: e_def entry_ok_def entry_line_def)
  obtain e1 rest where c: "collect_password bx by' ps e = Some (e1, rest)"
    using assms(2) by (auto simp: auth_round_def e_def [symmetric] Let_def split: option.splits)
  then obtain used where u: "ps = used @ rest" and e1: "entry_ok e1" "entry_line e1 \<noteq> []"
      and l: "line_ref [] (polled_chars (eshift e) ps) = Some (entry_line e1, length rest)"
    using collect_refines [OF e(1), where bx = bx and by' = by' and ps = ps] e(2) by auto
  let ?pw = "entry_line e1"
  have pw: "?pw \<noteq> []" "length ?pw \<le> 32" "list_all printable ?pw"
    using e1 by (simp_all add: entry_ok_def entry_line_def)
  have "line_ref [] (polled_chars (eshift e) (drop 0 ps)) = Some (?pw, length rest)" using l by simp
  then have tl: "typed_line ps ?pw" unfolding typed_line_def by blast
  have ikm: "auth_ikm (password e1) s = ?pw @ take 64 s" "strlen (password e1) = pw_idx e1" for s
    unfolding auth_ikm_def strlen_entry [OF e1(1)] by (simp_all add: entry_line_def)
  define a1 where "a1 = a\<lparr>shift := eshift e1, ascreen := cursor_rect bx by' (pw_idx e1) 0x001E293B (escreen e1)\<rparr>"
  have a1: "login_const a a1" by (simp add: a1_def login_const_screen)
  obtain ok secret a2 where f: "fido2_phase bx by' rest a1 = Some (ok, secret, ps1, a2)"
      and r: "Ret g a' = (if \<not> ok then auth_fail a2 else auth_verify bx by' (password e1) secret a2)"
    using assms(2) by (auto simp: auth_round_def e_def [symmetric] a1_def [symmetric] c Let_def split: option.splits)
  note sec = fido2_phase_secret [OF f]
  have a2: "login_const a a2" using login_const_trans [OF a1] sec by blast
  have key: "login_key ps a (auth_derive (stack (astore a2)) (auth_ikm (password e1) secret))"
    if "take 64 (auth_derive (stack (astore a2)) (auth_ikm (password e1) secret)) \<noteq> replicate 64 0"
  proof -
    have "secret = login_secret a" "stack (astore a2) = stack (astore a)"
      using sec login_const_secret [OF a1] a2 by (simp_all add: login_const_def)
    then have k: "auth_derive (stack (astore a2)) (auth_ikm (password e1) secret) =
        auth_derive (stack (astore a)) (?pw @ take 64 (login_secret a))"
      by (simp only: ikm(1))
    show ?thesis unfolding login_key_def by (rule exI [of _ ?pw]) (use that pw tl k in simp)
  qed
  obtain k where "ps1 = drop k rest" using sec by blast
  then have "ps1 = drop (k + length used) ps" by (simp add: u)
  then have d: "\<exists>k. ps1 = drop k ps" by blast
  show ?thesis
  proof (cases "\<exists>b. auth_fail b = Ret g a' \<and> login_const a b")
    case True
    then obtain b where b: "auth_fail b = Ret g a'" "login_const a b" by blast
    have "login_const a a'" by (rule login_const_trans [OF b(2) fail_const [OF b(1)]])
    moreover have "\<not> g" using b(1) auth_fail_not_granted [of b a'] by (cases g) simp_all
    ultimately show ?thesis using d by simp
  next
    case False
    let ?key = "auth_derive (stack (astore a2)) (auth_ikm (password e1) secret)"
    let ?f = "a2\<lparr>ascreen := fb_draw_string (bx + 30) (by' + 210) (ascii ''Authentication failed! Incorrect key.'') 0x00F87171 (ascreen a2)\<rparr>"
    have nf: "auth_fail a2 \<noteq> Ret g a'" "auth_fail ?f \<noteq> Ret g a'"
      using False a2 login_const_trans [OF a2 login_const_screen(2)] by blast+
    then have v: "auth_verify bx by' (password e1) secret a2 = Ret g a'" using r by (simp split: if_splits)
    have g: "take 64 ?key \<noteq> replicate 64 0" "g" "a' = auth_grant bx by' ?key a2"
      using v nf(2) unfolding auth_verify_def Let_def by (simp_all split: if_splits)
    have "login_const a a'" unfolding g(3) by (rule login_const_trans [OF a2 grant_const])
    moreover have "unlocked ?key a'" unfolding g(3) by (rule grant_unlocks)
    ultimately show ?thesis using key [OF g(1)] d by blast
  qed
qed

lemma loop_granted:
  "auth_loop bx by' ps a = Some (Ret b a') \<Longrightarrow> length (pw_stack a) = 33 \<Longrightarrow>
     b \<and> login_const a a' \<and> (\<exists>key. login_key ps a key \<and> unlocked key a')"
proof (induction "length ps" arbitrary: ps a rule: less_induct)
  case less
  obtain r ps1 where r: "auth_round bx by' ps a = Some (r, ps1)" using less.prems by (subst (asm) auth_loop.simps) (auto split: option.splits)
  show ?case
  proof (cases r)
    case (Ret g a1)
    note o = round_outcome [OF less.prems(2) r [unfolded Ret]]
    show ?thesis
    proof (cases g)
      case True
      then have "b" "a' = a1" using less.prems(1) r Ret by (subst (asm) auth_loop.simps, simp)+
      then show ?thesis using o True by simp
    next
      case False
      then have l: "auth_loop bx by' ps1 a1 = Some (Ret b a')" using less.prems(1) r Ret by (subst (asm) auth_loop.simps) simp
      have "length (pw_stack a1) = 33" using o less.prems(2) by (simp add: login_const_def)
      then have IH: "b \<and> login_const a1 a' \<and> (\<exists>key. login_key ps1 a1 key \<and> unlocked key a')"
        using less.hyps [OF auth_round_shorter [OF r] l] by blast
      then show ?thesis using o login_const_trans login_key_const login_key_drop by metis
    qed
  next
    case (Halt a1)
    then show ?thesis using less.prems(1) r by (subst (asm) auth_loop.simps) simp
  qed
qed

text \<open>A character that arrives on the serial line.\<close>

definition serial :: "u8 \<Rightarrow> ports" where
  "serial c = \<lparr>com1_lsr = 1, com1_rbr = c, kbd_status = 0, kbd_data = 0\<rparr>"

lemma poll_serial: "c \<noteq> 13 \<Longrightarrow> get_char_poll (serial c) sh = (\<lparr>kchar = c, is_f2 = False, is_space = (c = 32 \<or> c = 10)\<rparr>, sh)"
  by (simp add: get_char_poll_def serial_def)

lemma printable_not: "printable c \<Longrightarrow> c \<noteq> 13 \<and> c \<noteq> 10 \<and> c \<noteq> 8"
  by (auto simp: printable_def)

lemma line_ref_typed:
  "list_all printable pw \<Longrightarrow> length w + length pw \<le> 32 \<Longrightarrow> w @ pw \<noteq> [] \<Longrightarrow>
   line_ref w (polled_chars sh (map serial (pw @ [10]) @ later)) = Some (w @ pw, length later)"
proof (induction pw arbitrary: w)
  case Nil
  have "length (polled_chars sh later) = length later" by (induction later arbitrary: sh) simp_all
  then show ?case using Nil by (simp add: poll_serial)
next
  case (Cons c pw)
  have c: "c \<noteq> 13 \<and> c \<noteq> 10 \<and> c \<noteq> 8" "printable c" using Cons.prems printable_not by simp_all
  then have e: "edit_ref c w = w @ [c]" using Cons.prems by (simp add: edit_ref_def printable_def)
  have "line_ref w (polled_chars sh (map serial ((c # pw) @ [10]) @ later)) =
      line_ref (w @ [c]) (polled_chars sh (map serial (pw @ [10]) @ later))"
    using c(1) by (simp add: poll_serial e)
  also have "\<dots> = Some ((w @ [c]) @ pw, length later)" using Cons.prems by (intro Cons.IH) simp_all
  finally show ?case by simp
qed

lemma collect_typed:
  assumes "entry_ok e" "entry_line e = []" "list_all printable pw" "pw \<noteq> []" "length pw \<le> 32"
  shows "\<exists>e1. collect_password bx by' (map serial (pw @ [10]) @ later) e = Some (e1, later) \<and> entry_ok e1 \<and> entry_line e1 = pw"
proof -
  let ?ps = "map serial (pw @ [10]) @ later"
  have l: "line_ref (entry_line e) (polled_chars (eshift e) ?ps) = Some (pw, length later)"
    using line_ref_typed [of pw "[]" "eshift e" later] assms by simp
  obtain e1 rest where c: "collect_password bx by' ?ps e = Some (e1, rest)"
    using collect_refines [OF assms(1), where bx = bx and by' = by' and ps = ?ps] l by (cases "collect_password bx by' ?ps e") auto
  then obtain used where u: "?ps = used @ rest" and e1: "entry_ok e1" "entry_line e1 = pw" "length rest = length later"
    using collect_refines [OF assms(1), where bx = bx and by' = by' and ps = ?ps] l by auto
  have "rest = later" using u e1(3) by (metis append_eq_append_conv)
  then show ?thesis using c e1 by blast
qed


section \<open>A typed log-in\<close>

definition same_login :: "'d auth \<Rightarrow> 'd auth \<Rightarrow> bool" where
  "same_login a a' = (ctr a' = ctr a \<and> g_challenge a' = g_challenge a \<and> skey a' = skey a)"

lemma draw_fido_same: "same_login a (draw_fido bx by' m c a)" "same_login a (clear_fido bx by' a)"
    "shift (draw_fido bx by' m c a) = shift a" "shift (clear_fido bx by' a) = shift a"
  by (simp_all add: same_login_def draw_fido_def clear_fido_def)

lemma same_login_trans: "same_login a b \<Longrightarrow> same_login b c \<Longrightarrow> same_login a c"
  by (simp add: same_login_def)

lemma same_login_secret: "same_login a a' \<Longrightarrow> login_secret a' = login_secret a"
  by (simp add: same_login_def login_secret_def astore_def)

lemma fido2_typed:
  "\<exists>a'. fido2_phase bx by' (serial 32 # serial 32 # later) a = Some (True, login_secret a, later, a') \<and> same_login a a'"
  by (simp add: fido2_phase_def emulate_touch_def fido2_device_detect_def usb_hid_init_def poll_serial emulator_key_def Let_def
      fido2_emulate_assertion_def login_secret_def draw_fido_def clear_fido_def same_login_def astore_def)

lemma round_typed:
  assumes "length (pw_stack a) = 33" "list_all printable pw" "pw \<noteq> []" "length pw \<le> 32"
  shows "\<exists>a' buf. auth_round bx by' (map serial (pw @ [10, 32, 32]) @ later) a = Some (auth_verify bx by' buf (login_secret a) a', later) \<and>
    same_login a a' \<and> strlen buf = length pw \<and> take (strlen buf) buf = pw"
proof -
  define e where "e = \<lparr>password = (pw_stack a)[0 := 0], pw_idx = 0, f2_triggered = False, cursor_state = True, cursor_ticks = 0,
      eshift = shift a, escreen = draw_login bx by' (g_failed_attempts a) (ascreen a)\<rparr>"
  have e: "entry_ok e" "entry_line e = []" using assms(1) by (simp_all add: e_def entry_ok_def entry_line_def)
  obtain e1 where c: "collect_password bx by' (map serial (pw @ [10]) @ serial 32 # serial 32 # later) e = Some (e1, serial 32 # serial 32 # later)"
      "entry_ok e1" "entry_line e1 = pw"
    using collect_typed [OF e assms(2-4)] by blast
  define a1 where "a1 = a\<lparr>shift := eshift e1, ascreen := cursor_rect bx by' (pw_idx e1) 0x001E293B (escreen e1)\<rparr>"
  have s1: "same_login a a1" by (simp add: a1_def same_login_def)
  obtain a2 where f: "fido2_phase bx by' (serial 32 # serial 32 # later) a1 = Some (True, login_secret a1, later, a2)" "same_login a1 a2"
    using fido2_typed by blast
  have "auth_round bx by' (map serial (pw @ [10, 32, 32]) @ later) a = Some (auth_verify bx by' (password e1) (login_secret a1) a2, later)"
    using c(1) f(1) by (simp add: auth_round_def e_def [symmetric] a1_def [symmetric] Let_def)
  moreover have "strlen (password e1) = length pw" "take (strlen (password e1)) (password e1) = pw"
    using strlen_entry [OF c(2)] c(2,3) by (auto simp: entry_line_def entry_ok_def)
  ultimately show ?thesis using same_login_trans [OF s1 f(2)] same_login_secret [OF s1] by metis
qed

section \<open>Properties\<close>

text \<open>C15: Password entry implements line editing: whatever keys are polled, the loop ends exactly when the reference editor
  accepts the line, with the same line in the buffer up to its terminating zero and at the same point of the input.\<close>

theorem password_entry_refines:
  assumes "length (password e) = 33" "pw_idx e = 0" "password e ! 0 = 0"
  shows "map_option (\<lambda>(e1, rest). (take (strlen (password e1)) (password e1), length rest)) (collect_password bx by' ps e) =
    line_ref [] (polled_chars (eshift e) ps)"
proof -
  have e: "entry_ok e" "entry_line e = []" using assms by (simp_all add: entry_ok_def entry_line_def)
  show ?thesis
  proof (cases "collect_password bx by' ps e")
    case None
    then show ?thesis using collect_refines [OF e(1), where bx = bx and by' = by' and ps = ps] e(2) by simp
  next
    case (Some q)
    obtain e1 rest where q: "q = (e1, rest)" by force
    then have "entry_ok e1" "line_ref [] (polled_chars (eshift e) ps) = Some (entry_line e1, length rest)"
      using collect_refines [OF e(1), where bx = bx and by' = by' and ps = ps] e(2) Some by auto
    then show ?thesis using strlen_entry [of e1] Some q by (simp add: entry_line_def)
  qed
qed

text \<open>C37: The buffers of the log-in are never overrun: an accepted password has between 1 and 32 printable characters with
  its terminating zero inside the 33-byte buffer, and with the 64-byte secret it fits the 128 bytes of key material.\<close>

theorem password_bounds:
  assumes "length (password e) = 33" "pw_idx e = 0" "password e ! 0 = 0" "collect_password bx by' ps e = Some (e1, rest)"
  shows "length (password e1) = 33 \<and> 0 < strlen (password e1) \<and> strlen (password e1) \<le> 32 \<and>
    list_all printable (take (strlen (password e1)) (password e1)) \<and> length (auth_ikm (password e1) secret) \<le> 96"
proof -
  have e: "entry_ok e" using assms by (simp add: entry_ok_def entry_line_def)
  then have e1: "entry_ok e1" "entry_line e1 \<noteq> []"
    using collect_refines [OF e, where bx = bx and by' = by' and ps = ps] assms(4) by auto
  then have i: "0 < pw_idx e1" "pw_idx e1 \<le> 32" by (auto simp: entry_line_def entry_ok_def)
  then have "length (auth_ikm (password e1) secret) \<le> 96" unfolding auth_ikm_def strlen_entry [OF e1(1)] by auto
  then show ?thesis using e1(1) i strlen_entry [OF e1(1)] by (simp add: entry_ok_def entry_line_def)
qed

text \<open>C13: The log-in never lets the boot continue unprotected: when \<^verbatim>\<open>auth_preboot\<close> returns, it returns true, disk encryption is
  on, and its key is the one derived from a line of 1 to 32 printable characters that was typed and from the answer of the second
  factor to the challenge of this boot; that key is not zero, the snapshot key is derived from it, the attempt counter is zero and
  interrupts are enabled.\<close>

theorem auth_return_unlocked:
  assumes "length (pw_stack a) = 33"
  shows "case auth_preboot ps a of
     Some (Ret b a') \<Rightarrow> b \<and> (\<exists>pw key. typed_line ps pw \<and> pw \<noteq> [] \<and> length pw \<le> 32 \<and> list_all printable pw \<and>
       key = auth_derive (stack (astore a'))
         (pw @ take 64 (snd (fido2_emulate_assertion (stack (astore a')) (cpuid (ctr a')) (g_challenge a') None))) \<and>
       take 64 key \<noteq> replicate 64 0 \<and> unlocked key a')
   | _ \<Rightarrow> True"
proof (cases "auth_preboot ps a")
  case (Some r)
  show ?thesis
  proof (cases r)
    case (Ret b a')
    obtain bx by' a2 where l: "auth_loop bx by' ps a2 = Some (Ret b a')" "pw_stack a2 = pw_stack a"
      using Some Ret unfolding auth_preboot_def Let_def
      by (auto simp: fresh_challenge_def Let_def prod.case_eq_if set_astore_def split: run.splits if_splits)
    then have "b \<and> login_const a2 a' \<and> (\<exists>key. login_key ps a2 key \<and> unlocked key a')"
      using assms by (intro loop_granted) simp_all
    then have "b \<and> (\<exists>key. login_key ps a' key \<and> unlocked key a')" using login_key_const by blast
    then show ?thesis using Some Ret unfolding login_key_def login_secret_def by auto
  qed (use Some in simp)
qed simp

text \<open>Any password is accepted: with the counter below its limit, every line of 1 to 32 printable characters followed by
  two key presses is granted access, under the key derived from it, the processor identification and the random
  challenge of this boot; only an all-zero derived key would send the loop round again.  No stored secret is consulted.\<close>

theorem any_password_accepted:
  assumes "auth_counter_init (ctr a) = Ret () c" "\<not> auth_counter_locked c" "length (pw_stack a) = 33"
    "list_all printable pw" "pw \<noteq> []" "length pw \<le> 32"
    "challenge = fst (rng_bytes 32 (rng_seed (rand (snet (cstore c)))))"
    "key = auth_derive (stack (cstore c)) (pw @ take 64 (snd (fido2_emulate_assertion (stack (cstore c)) (cpuid c) challenge None)))"
  shows "\<exists>a1 a2 bx by'. auth_preboot (map serial (pw @ [10, 32, 32]) @ later) a =
      (if take 64 key = replicate 64 0 then
         (case auth_fail a1 of Halt a3 \<Rightarrow> Some (Halt a3) | Ret _ a3 \<Rightarrow> auth_loop bx by' later a3)
       else Some (Ret True a2)) \<and> unlocked key a2"
proof -
  define a0 where "a0 = (fresh_challenge (a\<lparr>ctr := c, g_failed_attempts := auth_counter_get c\<rparr>))\<lparr>interrupts := False\<rparr>"
  define typed where "typed = map serial (pw @ [10, 32, 32]) @ later"
  define bx where "bx = centred (fb_width (ascreen a0)) 540"
  define by' where "by' = centred (fb_height (ascreen a0)) 320"
  have a0: "pw_stack a0 = pw_stack a" "stack (astore a0) = stack (cstore c)" "cpuid (ctr a0) = cpuid c" "g_challenge a0 = challenge"
    by (simp_all add: a0_def fresh_challenge_def Let_def prod.case_eq_if assms(7))
  obtain a1 buf where r: "auth_round bx by' typed a0 =
      Some (auth_verify bx by' buf (login_secret a0) a1, later)" and s: "same_login a0 a1" and
      buf: "strlen buf = length pw" "take (strlen buf) buf = pw"
    using round_typed [of a0 pw bx by' later] assms(3-6) a0(1) unfolding typed_def by metis
  have st: "stack (astore a1) = stack (cstore c)" using s a0(2) by (simp add: same_login_def astore_def)
  have k: "auth_derive (stack (astore a1)) (auth_ikm buf (login_secret a0)) = key"
    using buf by (simp add: auth_ikm_def login_secret_def a0 assms(8) st)
  have p: "auth_preboot typed a = auth_loop bx by' typed a0"
    using assms(1,2) by (simp add: auth_preboot_def a0_def bx_def by'_def Let_def)
  have v: "auth_verify bx by' buf (login_secret a0) a1 = (if take 64 key = replicate 64 0 then
      auth_fail (a1\<lparr>ascreen := fb_draw_string (bx + 30) (by' + 210) (ascii ''Authentication failed! Incorrect key.'') 0x00F87171 (ascreen a1)\<rparr>)
      else Ret True (auth_grant bx by' key a1))"
    unfolding auth_verify_def Let_def k using buf assms(5) by simp
  have "auth_preboot typed a =
      (if take 64 key = replicate 64 0 then
         (case auth_fail (a1\<lparr>ascreen := fb_draw_string (bx + 30) (by' + 210) (ascii ''Authentication failed! Incorrect key.'') 0x00F87171 (ascreen a1)\<rparr>) of
            Halt a3 \<Rightarrow> Some (Halt a3) | Ret _ a3 \<Rightarrow> auth_loop bx by' later a3)
       else Some (Ret True (auth_grant bx by' key a1)))"
    unfolding p by (subst auth_loop.simps) (auto simp: r v auth_fail_not_granted split: run.split)
  then show ?thesis using grant_unlocks unfolding typed_def by blast
qed


text \<open>C14: When the attempt counter on the disk is at its limit, or has been tampered with, the log-in screen never appears:
  whatever is typed, the self-destruct sequence runs, the boot never returns, sectors 1 to 9 and 500 hold generator output
  and the derived key in memory is zero.\<close>

theorem locked_counter_destroys:
  assumes "counter_ok content ready (ctr a)" "stored_count content (ctr a) \<ge> AUTH_COUNTER_MAX"
  shows "\<exists>a'. auth_preboot ps a = Some (Halt a') \<and> g_auth_derived_key (astore a') = replicate 64 0 \<and>
    (\<forall>lba \<in> wiped_lbas. noise (content (dev (astore a')) lba))"
proof -
  obtain c where c: "auth_counter_init (ctr a) = Ret () c" "counter_ok content ready c" "auth_counter_get c = stored_count content (ctr a)"
    using counter_init_ok [OF assms(1)] by blast
  let ?reason = "Some (ascii ''Too many failed authentication attempts'')"
  have "auth_preboot ps a = Some (Halt (trigger_tamper_lockout (a\<lparr>ctr := c\<rparr>)))"
    using c(1,3) assms(2) by (simp add: auth_preboot_def Let_def auth_counter_locked_def auth_counter_get_def)
  moreover have "astore (trigger_tamper_lockout (a\<lparr>ctr := c\<rparr>)) = destruct_trigger ?reason (cstore c)"
    by (simp add: trigger_tamper_lockout_def Let_def)
  moreover have "scsi_disk content ready (xhci_bulk_out (cstore c)) (xhci_bulk_in (cstore c))" "ready (dev (cstore c))"
    using c(2) by (simp_all add: counter_ok_def raw_ok_def)
  ultimately show ?thesis using destruct_erases [of content ready "cstore c" _ ?reason] by auto
qed

text \<open>A successful log-in resets the counter through the encrypted stack, so that sector 5 then holds the counter encrypted
  under the key of this boot, while the next boot reads the sector without decryption.\<close>

theorem reset_counter_is_encrypted:
  assumes "counter_ok content ready (ctr a)" "g_usb_present (ctr a)"
  shows "content (dev (astore (auth_grant bx by' key a))) AUTH_COUNTER_LBA =
    aes256_xts_encrypt_sector (aes256_xts_init key) AUTH_COUNTER_LBA (counter_sector 0 (ctr a))"
proof -
  define s where "s = (astore a)\<lparr>g_xts_ctx := aes256_xts_init key, g_encryption_enabled := True, g_auth_derived_key := key\<rparr>"
  define c where "c = (ctr a)\<lparr>cstore := s, g_count := 0\<rparr>"
  let ?data = "aes256_xts_encrypt_sector (aes256_xts_init key) AUTH_COUNTER_LBA (counter_sector 0 (ctr a))"
  have len: "length (stack (cstore (ctr a))) = 128" using assms(1) by (simp add: counter_ok_def)
  have sd: "same_device (ctr a) c" by (simp add: same_device_def c_def s_def astore_def)
  have sec: "counter_sector 0 c = counter_sector 0 (ctr a)"
    using sd by (simp add: counter_sector_def device_key_same [OF sd] same_device_def)
  have ok: "scsi_disk content ready (xhci_bulk_out s) (xhci_bulk_in s)" "ready (dev s)" "length ?data = 512"
    using assms(1) len by (simp_all add: counter_ok_def raw_ok_def s_def astore_def length_counter_sector xts_sector_inverse)
  have e: "g_encryption_enabled s" "g_xts_ctx s = aes256_xts_init key" by (simp_all add: s_def)
  obtain s' where "bot_execute (rw_cbw 0x2A AUTH_COUNTER_LBA (fst (make_cbw 512 0x00 10 s))) ?data False (snd (make_cbw 512 0x00 10 s)) =
      (0, ?data, s')" "content (dev s') = (content (dev s))(AUTH_COUNTER_LBA := ?data)"
    using bot_write [OF ok, of AUTH_COUNTER_LBA] by blast
  then have "content (dev (snd (usb_msc_write_sector AUTH_COUNTER_LBA (counter_sector 0 (ctr a)) s))) AUTH_COUNTER_LBA = ?data"
    using e by (simp add: usb_msc_write_sector_def prod.case_eq_if Let_def)
  moreover have "astore (auth_grant bx by' key a) = snd (usb_msc_write_sector AUTH_COUNTER_LBA (counter_sector 0 (ctr a)) s)"
    using assms(2) sec
    by (simp add: auth_grant_def Let_def auth_counter_reset_def counter_write_def set_astore_def astore_def s_def [unfolded astore_def, symmetric] c_def)
  ultimately show ?thesis by simp
qed

section \<open>Witnesses\<close>

definition wauth :: "ramdisk auth" where
  "wauth = \<lparr>ctr = wcounter, hid = \<lparr>g_hid_present = False\<rparr>,
     skey = \<lparr>g_snapshot_key = replicate 32 0, g_snapshot_key_set = False, g_sequence_number = 1\<rparr>,
     g_challenge = replicate 32 0, g_failed_attempts = 0, shift = False, interrupts = True, pw_stack = replicate 33 5,
     ascreen = fb_init (\<lambda>_. 0) 800 600 3200\<rparr>"

definition wentry :: pw_entry where
  "wentry = \<lparr>password = (replicate 33 5)[0 := 0], pw_idx = 0, f2_triggered = False, cursor_state = True, cursor_ticks = 0,
     eshift = False, escreen = fb_init (\<lambda>_. 0) 0 0 0\<rparr>"

theorem password_entry_refines_witness:
  "map_option (\<lambda>(e1, rest). (take (strlen (password e1)) (password e1), length rest))
     (collect_password 0 0 (map serial [97, 98, 8, 99, 10, 32]) wentry) = Some ([97, 99], 1)"
proof -
  have "line_ref [] (polled_chars False (map serial [97, 98, 8, 99, 10, 32])) = Some ([97, 99], 1)" by code_simp
  then show ?thesis
    using password_entry_refines [of wentry 0 0 "map serial [97, 98, 8, 99, 10, 32]"] by (simp add: wentry_def)
qed

theorem password_bounds_witness:
  "\<exists>e1 rest. collect_password 0 0 (map serial [97, 10]) wentry = Some (e1, rest) \<and> strlen (password e1) \<le> 32"
proof -
  have w: "length (password wentry) = 33" "pw_idx wentry = 0" "password wentry ! 0 = 0" by (simp_all add: wentry_def)
  then have "entry_ok wentry" "entry_line wentry = []" by (simp_all add: entry_ok_def entry_line_def)
  then obtain e1 where c: "collect_password 0 0 (map serial [97, 10]) wentry = Some (e1, [])"
    using collect_typed [of wentry "[97]" 0 0 "[]"] by (auto simp: printable_def)
  show ?thesis using password_bounds [OF w c] c by blast
qed

lemma wcounter_unlocked: "\<exists>c. auth_counter_init wcounter = Ret () c \<and> \<not> auth_counter_locked c"
  using wcounter_stored counter_init_ok [OF wcounter_ok(1)] by (auto simp: auth_counter_locked_def auth_counter_get_def)

theorem auth_return_unlocked_witness:
  "case auth_preboot (map serial [97, 10, 32, 32]) wauth of
     Some (Ret b a') \<Rightarrow> b \<and> g_encryption_enabled (astore a') \<and>
       (\<exists>pw. typed_line (map serial [97, 10, 32, 32]) pw \<and> pw \<noteq> [] \<and>
          g_auth_derived_key (astore a') = auth_derive (stack (astore a'))
            (pw @ take 64 (snd (fido2_emulate_assertion (stack (astore a')) (cpuid (ctr a')) (g_challenge a') None))))
   | _ \<Rightarrow> True"
proof -
  have "length (pw_stack wauth) = 33" by (simp add: wauth_def)
  from auth_return_unlocked [OF this, of "map serial [97, 10, 32, 32]"] show ?thesis
    unfolding unlocked_def by (auto split: option.splits run.splits)
qed

theorem any_password_accepted_witness:
  "\<exists>key a1 a2 bx by'. auth_preboot (map serial ([97] @ [10, 32, 32])) wauth =
      (if take 64 key = replicate 64 0 then
         (case auth_fail a1 of Halt a3 \<Rightarrow> Some (Halt a3) | Ret _ a3 \<Rightarrow> auth_loop bx by' [] a3)
       else Some (Ret True a2)) \<and> unlocked key a2"
proof -
  obtain c where c: "auth_counter_init (ctr wauth) = Ret () c" "\<not> auth_counter_locked c"
    using wcounter_unlocked by (auto simp: wauth_def)
  have w: "length (pw_stack wauth) = 33" "list_all printable [97]" "[97 :: u8] \<noteq> []" "length [97 :: u8] \<le> 32"
    by (simp_all add: wauth_def printable_def)
  show ?thesis
    using any_password_accepted [OF c w refl refl, where later = "[]"] unfolding append_Nil2 by blast
qed

definition wlocked :: "ramdisk auth" where
  "wlocked = wauth\<lparr>ctr := (auth_counter_increment ^^ 3) wcounter\<rparr>"

lemma wlocked_ok: "counter_ok fst ram_ready (ctr wlocked)" "stored_count fst (ctr wlocked) = 3"
  using attempts.bumps [OF wcounter_ok, of 3] by (simp_all add: wlocked_def auth_counter_get_def wcounter_def)

theorem locked_counter_destroys_witness:
  "\<exists>a'. auth_preboot [] wlocked = Some (Halt a') \<and> g_auth_derived_key (astore a') = replicate 64 0 \<and> noise (fst (dev (astore a')) 5)"
proof -
  have "5 \<in> wiped_lbas" by (simp add: wiped_lbas_def)
  then show ?thesis using locked_counter_destroys [OF wlocked_ok(1), of "[]"] wlocked_ok(2) by auto
qed

theorem reset_counter_is_encrypted_witness:
  "fst (dev (astore (auth_grant 0 0 (replicate 64 9) wauth))) AUTH_COUNTER_LBA =
    aes256_xts_encrypt_sector (aes256_xts_init (replicate 64 9)) AUTH_COUNTER_LBA (counter_sector 0 wcounter)"
proof -
  have "counter_ok fst ram_ready (ctr wauth)" "g_usb_present (ctr wauth)" "ctr wauth = wcounter"
    using wcounter_ok by (simp_all add: wauth_def)
  then show ?thesis using reset_counter_is_encrypted [of fst ram_ready wauth 0 0 "replicate 64 9"] by simp
qed

end
