(* ===== verification/Cstring.thy ===== *)
theory Cstring
  imports Styx_Prelude
begin

text \<open>
  The C library functions of \<^verbatim>\<open>src/kernel/string.c\<close> on a byte memory.  Pointers are 64-bit words and pointer arithmetic
  wraps; \<^verbatim>\<open>n\<close> is the remaining count of the loops.  A loop over a string without a terminating zero
  does not return, which is the value \<open>None\<close>.  The other theories describe the
  effect of these calls on the buffers they model as lists; the properties here relate the two views.
\<close>

section \<open>Memory\<close>

type_synonym memory = "u64 \<Rightarrow> u8"

definition bytes_of :: "memory \<Rightarrow> u64 \<Rightarrow> nat \<Rightarrow> u8 list" where
  "bytes_of m p n = map (\<lambda>i. m (p + word_of_nat i)) [0..<n]"

section \<open>Copy and fill\<close>

fun copy_up :: "u64 \<Rightarrow> u64 \<Rightarrow> nat \<Rightarrow> memory \<Rightarrow> memory" where
  "copy_up d s 0 m = m"
| "copy_up d s (Suc n) m = copy_up (d + 1) (s + 1) n (m(d := m s))"

fun copy_down :: "u64 \<Rightarrow> u64 \<Rightarrow> nat \<Rightarrow> memory \<Rightarrow> memory" where
  "copy_down d s 0 m = m"
| "copy_down d s (Suc n) m = copy_down (d - 1) (s - 1) n (m(d - 1 := m (s - 1)))"

definition memcpy :: "u64 \<Rightarrow> u64 \<Rightarrow> nat \<Rightarrow> memory \<Rightarrow> u64 \<times> memory" where
  "memcpy dest src n m = (dest, copy_up dest src n m)"

definition memmove :: "u64 \<Rightarrow> u64 \<Rightarrow> nat \<Rightarrow> memory \<Rightarrow> u64 \<times> memory" where
  "memmove dest src n m =
     (dest, if dest < src then copy_up dest src n m
            else copy_down (dest + word_of_nat n) (src + word_of_nat n) n m)"

fun fill_up :: "u64 \<Rightarrow> u8 \<Rightarrow> nat \<Rightarrow> memory \<Rightarrow> memory" where
  "fill_up d c 0 m = m"
| "fill_up d c (Suc n) m = fill_up (d + 1) c n (m(d := c))"

definition memset :: "u64 \<Rightarrow> int \<Rightarrow> nat \<Rightarrow> memory \<Rightarrow> u64 \<times> memory" where
  "memset dest c n m = (dest, fill_up dest (word_of_int c) n m)"

section \<open>Comparison\<close>

fun memcmp :: "memory \<Rightarrow> u64 \<Rightarrow> u64 \<Rightarrow> nat \<Rightarrow> int" where
  "memcmp m a b 0 = 0"
| "memcmp m a b (Suc n) = (if m a \<noteq> m b then uint (m a) - uint (m b) else memcmp m (a + 1) (b + 1) n)"

section \<open>Terminated strings\<close>

partial_function (option) strlen_loop :: "memory \<Rightarrow> u64 \<Rightarrow> u64 \<Rightarrow> u64 option" where
  "strlen_loop m s len = (if m (s + len) \<noteq> 0 then strlen_loop m s (len + 1) else Some len)"

definition strlen_at :: "memory \<Rightarrow> u64 \<Rightarrow> u64 option" where
  "strlen_at m s = strlen_loop m s 0"

partial_function (option) strcmp :: "memory \<Rightarrow> u64 \<Rightarrow> u64 \<Rightarrow> int option" where
  "strcmp m s1 s2 =
     (if m s1 \<noteq> 0 \<and> m s1 = m s2 then strcmp m (s1 + 1) (s2 + 1) else Some (uint (m s1) - uint (m s2)))"

partial_function (option) strcat_copy :: "u64 \<Rightarrow> u64 \<Rightarrow> memory \<Rightarrow> memory option" where
  "strcat_copy d s m =
     (let m1 = m(d := m s) in if m1 d \<noteq> 0 then strcat_copy (d + 1) (s + 1) m1 else Some m1)"

definition strcat :: "u64 \<Rightarrow> u64 \<Rightarrow> memory \<Rightarrow> (u64 \<times> memory) option" where
  "strcat dest src m =
     (case strlen_at m dest of
        None \<Rightarrow> None
      | Some l \<Rightarrow> (case strcat_copy (dest + l) src m of None \<Rightarrow> None | Some m1 \<Rightarrow> Some (dest, m1)))"


section \<open>Lemmas\<close>

lemma word_nat_add: "(p :: u64) + 1 + word_of_nat i = p + word_of_nat (Suc i)"
  by simp

lemma word_of_nat_inj: "i < 2 ^ 64 \<Longrightarrow> j < 2 ^ 64 \<Longrightarrow> (word_of_nat i :: u64) = word_of_nat j \<Longrightarrow> i = j"
  by (simp add: word_of_nat_eq_iff take_bit_nat_eq_self)

lemma length_bytes_of [simp]: "length (bytes_of m p n) = n"
  by (simp add: bytes_of_def)

lemma bytes_of_nth: "i < n \<Longrightarrow> bytes_of m p n ! i = m (p + word_of_nat i)"
  by (simp add: bytes_of_def)

lemma bytes_of_Suc: "bytes_of m p (Suc n) = m p # bytes_of m (p + 1) n"
  unfolding bytes_of_def upt_conv_Cons [OF zero_less_Suc] map_Suc_upt [symmetric] by (simp add: word_nat_add)

text \<open>A copy is right when no byte that is still to be read has been overwritten.\<close>

lemma copy_up_at:
  assumes "\<forall>i j. i < j \<longrightarrow> j < n \<longrightarrow> d + word_of_nat i \<noteq> s + word_of_nat j" "n \<le> 2 ^ 64" "k < 2 ^ 64"
  shows "copy_up d s n m (d + word_of_nat k) = (if k < n then m (s + word_of_nat k) else m (d + word_of_nat k))"
  using assms
proof (induction n arbitrary: d s m k)
  case (Suc n)
  let ?m = "m(d := m s)"
  have later: "d \<noteq> s + word_of_nat (Suc j)" if "j < n" for j
    using Suc.prems(1)[rule_format, of 0 "Suc j"] that by simp
  have self: "d \<noteq> d + word_of_nat (Suc j)" if "Suc j < 2 ^ 64" for j
    using word_of_nat_inj [of "Suc j" 0] that by auto
  have hyp: "\<forall>i j. i < j \<longrightarrow> j < n \<longrightarrow> (d + 1) + word_of_nat i \<noteq> (s + 1) + word_of_nat j"
    using Suc.prems(1) by (metis Suc_less_eq word_nat_add)
  show ?case
  proof (cases k)
    case 0
    define x where "x = unat (- 1 :: u64)"
    have "(word_of_nat x :: u64) = - 1" by (simp add: x_def)
    then have d: "(d + 1) + word_of_nat x = d" by simp
    have "x < 2 ^ 64" "n \<le> x" using Suc.prems(2) by (simp_all add: x_def unsigned_minus_1_eq_mask mask_eq_exp_minus_1)
    moreover have "n \<le> 2 ^ 64" using Suc.prems(2) by simp
    ultimately have "copy_up (d + 1) (s + 1) n ?m d = ?m d" using Suc.IH [OF hyp, of x ?m] by (simp only: d if_not_P not_less)
    then show ?thesis using 0 by simp
  next
    case (Suc j)
    then have "copy_up d s (Suc n) m (d + word_of_nat k) = copy_up (d + 1) (s + 1) n ?m ((d + 1) + word_of_nat j)"
      by (simp add: word_nat_add)
    also have "\<dots> = (if j < n then ?m ((s + 1) + word_of_nat j) else ?m ((d + 1) + word_of_nat j))"
      using Suc Suc.prems by (intro Suc.IH [OF hyp]) simp_all
    finally show ?thesis using Suc later [of j] self [of j] Suc.prems(3) unfolding word_nat_add by auto
  qed
qed simp

lemma copy_down_at:
  assumes "\<forall>i j. j < i \<longrightarrow> i < n \<longrightarrow> d + word_of_nat i \<noteq> s + word_of_nat j" "n \<le> 2 ^ 64" "k < 2 ^ 64"
  shows "copy_down (d + word_of_nat n) (s + word_of_nat n) n m (d + word_of_nat k) =
    (if k < n then m (s + word_of_nat k) else m (d + word_of_nat k))"
  using assms
proof (induction n arbitrary: m)
  case (Suc n)
  let ?m = "m(d + word_of_nat n := m (s + word_of_nat n))"
  have "copy_down (d + word_of_nat (Suc n)) (s + word_of_nat (Suc n)) (Suc n) m (d + word_of_nat k) =
      copy_down (d + word_of_nat n) (s + word_of_nat n) n ?m (d + word_of_nat k)" by (simp add: add.assoc)
  also have "\<dots> = (if k < n then ?m (s + word_of_nat k) else ?m (d + word_of_nat k))"
    using Suc.prems by (intro Suc.IH) simp_all
  also have "\<dots> = (if k < Suc n then m (s + word_of_nat k) else m (d + word_of_nat k))"
    using Suc.prems(1)[rule_format, of k n] word_of_nat_inj [of k n] Suc.prems(2,3) by (auto simp: less_Suc_eq)
  finally show ?case .
qed simp

lemma no_wrap_eq:
  fixes p q :: u64
  assumes "unat p + i < 2 ^ 64" "unat q + j < 2 ^ 64" "p + word_of_nat i = q + word_of_nat j"
  shows "unat p + i = unat q + j"
proof -
  have "(word_of_nat (unat p + i) :: u64) = word_of_nat (unat q + j)" using assms(3) by simp
  then show ?thesis using word_of_nat_inj assms(1,2) by blast
qed

text \<open>Every address is at some distance from the start of a block.\<close>

lemma block_distance: "a = p + word_of_nat (unat (a - p))" "unat (a - p) < 2 ^ 64" for a p :: u64
  using unsigned_less [where ?'a = nat, of "a - p"] by simp_all

lemma copied_block:
  assumes "\<And>k. k < 2 ^ 64 \<Longrightarrow> m' (d + word_of_nat k) = (if k < n then m (s + word_of_nat k) else m (d + word_of_nat k))" "n \<le> 2 ^ 64"
  shows "bytes_of m' d n = bytes_of m s n \<and> (\<forall>a. n \<le> unat (a - d) \<longrightarrow> m' a = m a)"
proof
  show "bytes_of m' d n = bytes_of m s n" using assms by (auto simp: bytes_of_def)
  show "\<forall>a. n \<le> unat (a - d) \<longrightarrow> m' a = m a"
    using assms(1) block_distance by (metis not_less)
qed

text \<open>The string at an address: the bytes before the first zero.\<close>

definition string_at :: "memory \<Rightarrow> u64 \<Rightarrow> u8 list \<Rightarrow> bool" where
  "string_at m p w = (bytes_of m p (length w) = w \<and> 0 \<notin> set w \<and> m (p + word_of_nat (length w)) = 0)"

lemma string_at_Cons: "string_at m p (c # w) \<longleftrightarrow> m p = c \<and> c \<noteq> 0 \<and> string_at m (p + 1) w"
  unfolding string_at_def by (auto simp: bytes_of_Suc word_nat_add)

lemma string_at_Nil: "string_at m p [] \<longleftrightarrow> m p = 0"
  by (simp add: string_at_def bytes_of_def)

lemma strlen_loop_at: "string_at m (s + l) w \<Longrightarrow> strlen_loop m s l = Some (l + word_of_nat (length w))"
proof (induction w arbitrary: l)
  case (Cons c w)
  then have "m (s + l) \<noteq> 0" "string_at m (s + (l + 1)) w" by (simp_all add: string_at_Cons add.assoc)
  then show ?case using Cons.IH [of "l + 1"] by (subst strlen_loop.simps) (simp add: add.assoc)
qed (simp add: string_at_Nil strlen_loop.simps)

fun compare_ref :: "u8 list \<Rightarrow> u8 list \<Rightarrow> int" where
  "compare_ref [] [] = 0"
| "compare_ref [] (d # ds) = - uint d"
| "compare_ref (c # cs) [] = uint c"
| "compare_ref (c # cs) (d # ds) = (if c = d then compare_ref cs ds else uint c - uint d)"

lemma strcmp_at: "string_at m p v \<Longrightarrow> string_at m q w \<Longrightarrow> strcmp m p q = Some (compare_ref v w)"
proof (induction v w arbitrary: p q rule: compare_ref.induct)
  case (4 c cs d ds)
  then show ?case by (subst strcmp.simps) (auto simp: string_at_Cons)
qed (subst strcmp.simps, auto simp: string_at_Cons string_at_Nil)+

lemma compare_ref_zero: "compare_ref v w = 0 \<longleftrightarrow> v = w" if "0 \<notin> set v" "0 \<notin> set w"
  using that by (induction v w rule: compare_ref.induct) (auto simp: uint_0_iff dest: unsigned_word_eqI)

lemma memcmp_ref: "memcmp m a b n = compare_ref (bytes_of m a n) (bytes_of m b n)"
  by (induction n arbitrary: a b) (simp_all add: bytes_of_Suc, simp add: bytes_of_def)

lemma compare_ref_same_length: "length v = length w \<Longrightarrow> compare_ref v w = 0 \<longleftrightarrow> v = w"
  by (induction v w rule: compare_ref.induct) (auto dest: unsigned_word_eqI)

lemma strcat_copy_at:
  assumes "string_at m s w" "\<forall>i \<le> length w. \<forall>j \<le> length w. d + word_of_nat i \<noteq> s + word_of_nat j"
  shows "strcat_copy d s m = Some (copy_up d s (Suc (length w)) m)"
  using assms
proof (induction w arbitrary: d s m)
  case Nil
  then show ?case by (subst strcat_copy.simps) (simp add: string_at_Nil)
next
  case (Cons c w)
  let ?m = "m(d := m s)"
  have c: "m s \<noteq> 0" "string_at m (s + 1) w" using Cons.prems(1) by (simp_all add: string_at_Cons)
  have ne: "s + 1 + word_of_nat j \<noteq> d" if "j \<le> length w" for j
    using Cons.prems(2)[rule_format, of 0 "Suc j"] that by (simp add: word_nat_add del: of_nat_Suc)
  have "bytes_of ?m (s + 1) (length w) = bytes_of m (s + 1) (length w)" using ne by (auto simp: bytes_of_def)
  then have "string_at ?m (s + 1) w" using c(2) ne [of "length w"] by (simp add: string_at_def)
  moreover have "\<forall>i \<le> length w. \<forall>j \<le> length w. (d + 1) + word_of_nat i \<noteq> (s + 1) + word_of_nat j"
    using Cons.prems(2) unfolding word_nat_add by simp
  ultimately have "strcat_copy (d + 1) (s + 1) ?m = Some (copy_up (d + 1) (s + 1) (Suc (length w)) ?m)" by (rule Cons.IH)
  then show ?case using c(1) by (subst strcat_copy.simps) simp
qed

section \<open>Properties\<close>

text \<open>C39: \<^verbatim>\<open>memmove\<close> copies correctly however the two blocks overlap, as long as neither runs past the end of the address space:
  the destination holds what the source held, and no other byte changes.\<close>

theorem memmove_correct:
  assumes "unat dest + n < 2 ^ 64" "unat src + n < 2 ^ 64"
  shows "\<exists>m'. memmove dest src n m = (dest, m') \<and> bytes_of m' dest n = bytes_of m src n \<and> (\<forall>a. n \<le> unat (a - dest) \<longrightarrow> m' a = m a)"
proof (cases "dest < src")
  case True
  have ne: "\<forall>i j. i < j \<longrightarrow> j < n \<longrightarrow> dest + word_of_nat i \<noteq> src + word_of_nat j"
  proof (intro allI impI notI)
    fix i j assume "i < j" "j < n" "dest + word_of_nat i = src + word_of_nat j"
    then show False using no_wrap_eq [of dest i src j] True assms by (simp add: word_less_nat_alt)
  qed
  have "copy_up dest src n m (dest + word_of_nat k) = (if k < n then m (src + word_of_nat k) else m (dest + word_of_nat k))"
    if "k < 2 ^ 64" for k using copy_up_at [OF ne _ that] assms(1) by simp
  then have "bytes_of (copy_up dest src n m) dest n = bytes_of m src n \<and> (\<forall>a. n \<le> unat (a - dest) \<longrightarrow> copy_up dest src n m a = m a)"
    by (intro copied_block) (use assms(1) in simp_all)
  then show ?thesis unfolding memmove_def if_P [OF True] by blast
next
  case False
  have ne: "\<forall>i j. j < i \<longrightarrow> i < n \<longrightarrow> dest + word_of_nat i \<noteq> src + word_of_nat j"
  proof (intro allI impI notI)
    fix i j assume "j < i" "i < n" "dest + word_of_nat i = src + word_of_nat j"
    then show False using no_wrap_eq [of dest i src j] False assms by (simp add: word_less_nat_alt)
  qed
  have "copy_down (dest + word_of_nat n) (src + word_of_nat n) n m (dest + word_of_nat k) =
      (if k < n then m (src + word_of_nat k) else m (dest + word_of_nat k))"
    if "k < 2 ^ 64" for k using copy_down_at [OF ne _ that] assms(1) by simp
  then have "bytes_of (copy_down (dest + word_of_nat n) (src + word_of_nat n) n m) dest n = bytes_of m src n \<and>
      (\<forall>a. n \<le> unat (a - dest) \<longrightarrow> copy_down (dest + word_of_nat n) (src + word_of_nat n) n m a = m a)"
    by (intro copied_block) (use assms(1) in simp_all)
  then show ?thesis unfolding memmove_def if_not_P [OF False] by blast
qed

text \<open>\<^verbatim>\<open>memcpy\<close> copies upwards without looking at the addresses: it agrees with \<^verbatim>\<open>memmove\<close> when the destination does not start
  inside the source block.\<close>

theorem memcpy_agrees:
  assumes "unat dest + n < 2 ^ 64" "unat src + n < 2 ^ 64" "dest \<le> src \<or> unat src + n \<le> unat dest"
  shows "\<exists>m'. memcpy dest src n m = (dest, m') \<and> bytes_of m' dest n = bytes_of m src n \<and> (\<forall>a. n \<le> unat (a - dest) \<longrightarrow> m' a = m a)"
proof -
  have ne: "\<forall>i j. i < j \<longrightarrow> j < n \<longrightarrow> dest + word_of_nat i \<noteq> src + word_of_nat j"
  proof (intro allI impI notI)
    fix i j assume "i < j" "j < n" "dest + word_of_nat i = src + word_of_nat j"
    then show False using no_wrap_eq [of dest i src j] assms by (auto simp: word_le_nat_alt)
  qed
  have "copy_up dest src n m (dest + word_of_nat k) = (if k < n then m (src + word_of_nat k) else m (dest + word_of_nat k))"
    if "k < 2 ^ 64" for k using copy_up_at [OF ne _ that] assms(1) by simp
  then have "bytes_of (copy_up dest src n m) dest n = bytes_of m src n \<and> (\<forall>a. n \<le> unat (a - dest) \<longrightarrow> copy_up dest src n m a = m a)"
    by (intro copied_block) (use assms(1) in simp_all)
  then show ?thesis unfolding memcpy_def by blast
qed

text \<open>The comparisons and the length are those of the byte strings in memory: \<^verbatim>\<open>strlen\<close> gives the number of bytes before the
  terminator, \<^verbatim>\<open>strcmp\<close> and \<^verbatim>\<open>memcmp\<close> return zero exactly for equal contents and otherwise the difference of the first two bytes
  that differ, and \<^verbatim>\<open>strcat\<close> puts the source with its terminator behind the destination string, changing nothing else.\<close>

theorem string_functions_correct:
  assumes "string_at m p v" "string_at m q w" "length v < 2 ^ 64"
    "\<forall>i \<le> length w. \<forall>j \<le> length w. p + word_of_nat (length v + i) \<noteq> q + word_of_nat j"
    "length v + length w < 2 ^ 64 - 1"
  shows "strlen_at m p = Some (word_of_nat (length v)) \<and> strcmp m p q = Some (compare_ref v w) \<and> (compare_ref v w = 0 \<longleftrightarrow> v = w) \<and>
    (memcmp m a b n = 0 \<longleftrightarrow> bytes_of m a n = bytes_of m b n) \<and>
    (\<exists>m'. strcat p q m = Some (p, m') \<and> string_at m' p (v @ w))"
proof -
  have len: "strlen_at m p = Some (word_of_nat (length v))"
    using strlen_loop_at [of m p 0 v] assms(1) by (simp add: strlen_at_def)
  have z: "0 \<notin> set v" "0 \<notin> set w" using assms(1,2) by (simp_all add: string_at_def)
  let ?d = "p + word_of_nat (length v)" and ?n = "Suc (length w)"
  let ?m = "copy_up ?d q ?n m"
  have ne: "\<forall>i \<le> length w. \<forall>j \<le> length w. ?d + word_of_nat i \<noteq> q + word_of_nat j"
    using assms(4) by (simp add: add.assoc)
  then have cat: "strcat p q m = Some (p, ?m)"
    using strcat_copy_at [OF assms(2), of ?d] len by (simp add: strcat_def)
  have m: "?m (?d + word_of_nat k) = (if k < ?n then m (q + word_of_nat k) else m (?d + word_of_nat k))" if "k < 2 ^ 64" for k
    using copy_up_at [of ?n ?d q k m] ne that assms(5) by simp
  have before: "?m (p + word_of_nat i) = m (p + word_of_nat i)" if "i < length v" for i
  proof -
    define x where "x = 2 ^ 64 - (length v - i)"
    have e: "p + word_of_nat i = ?d + word_of_nat x" using that assms(3) by (simp add: x_def of_nat_diff)
    have "x < 2 ^ 64" "\<not> x < ?n" using that assms(5) by (simp_all add: x_def)
    then show ?thesis unfolding e by (simp only: m if_False)
  qed
  have "bytes_of ?m p (length (v @ w)) = v @ w"
  proof (rule nth_equalityI)
    fix i assume i: "i < length (bytes_of ?m p (length (v @ w)))"
    show "bytes_of ?m p (length (v @ w)) ! i = (v @ w) ! i"
    proof (cases "i < length v")
      case True
      then have "v ! i = m (p + word_of_nat i)" using assms(1) bytes_of_nth [of i "length v" m p] by (simp add: string_at_def)
      then show ?thesis using True i before by (simp add: bytes_of_nth nth_append)
    next
      case False
      then obtain k where k: "i = length v + k" "k < length w" using i by (metis add_less_cancel_left le_Suc_ex length_append length_bytes_of not_less)
      have "w ! k = m (q + word_of_nat k)" using assms(2) bytes_of_nth [of k "length w" m q] k(2) by (simp add: string_at_def)
      then show ?thesis using m [of k] k assms(5) by (simp add: bytes_of_nth nth_append add.assoc)
    qed
  qed simp
  moreover have "?m (p + word_of_nat (length (v @ w))) = 0"
    using m [of "length w"] assms(2,5) by (simp add: string_at_def add.assoc)
  ultimately have "string_at ?m p (v @ w)" using z unfolding string_at_def by simp
  then show ?thesis
    using len cat strcmp_at [OF assms(1,2)] compare_ref_zero [OF z] compare_ref_same_length [of "bytes_of m a n" "bytes_of m b n"]
    by (simp add: memcmp_ref)
qed


section \<open>Witnesses\<close>

definition wmem :: memory where
  "wmem = (\<lambda>a. if a = 16 then 97 else if a = 17 then 98 else if a = 32 then 99 else 0)"

theorem memmove_correct_witness:
  "\<exists>m'. memmove 17 16 2 wmem = (17, m') \<and> bytes_of m' 17 2 = [97, 98]"
proof -
  have "bytes_of wmem 16 2 = [97, 98]" by code_simp
  then show ?thesis using memmove_correct [of 17 2 16 wmem] by auto
qed

theorem memcpy_agrees_witness:
  "\<exists>m'. memcpy 16 17 2 wmem = (16, m') \<and> bytes_of m' 16 2 = [98, 0]"
proof -
  have "bytes_of wmem 17 2 = [98, 0]" by code_simp
  then show ?thesis using memcpy_agrees [of 16 2 17 wmem] by auto
qed

theorem string_functions_correct_witness:
  "strlen_at wmem 16 = Some 2 \<and> (\<exists>m'. strcat 16 32 wmem = Some (16, m') \<and> string_at m' 16 [97, 98, 99])"
proof -
  have s: "string_at wmem 16 [97, 98]" "string_at wmem 32 [99]" by code_simp+
  have e: "\<forall>i \<le> length [99 :: u8]. \<forall>j \<le> length [99 :: u8]. (16 :: u64) + word_of_nat (length [97 :: u8, 98] + i) \<noteq> 32 + word_of_nat j"
    by (simp add: le_Suc_eq)
  show ?thesis using string_functions_correct [OF s _ e] by simp
qed

end
