(* ===== verification/Tpm.thy ===== *)
theory Tpm
  imports Net Sha512 Vmm
begin

unbundle bit_operations_syntax

text \<open>
  The TPM: the register interface of \<^verbatim>\<open>src/kernel/tpm_tis.c\<close> with its command builders, and the platform configuration registers
  kept in memory by \<^verbatim>\<open>tpm.c\<close>.  The chip is hardware: \<open>tis_in8\<close> and \<open>tis_in32\<close> are what a read of a register returns and does to
  its state \<open>chip\<close>, \<open>tis_out8\<close> is the effect of a write, and \<open>tis_log\<close> records the writes in order.  The loop that drains a
  response has no bound in the code: the value \<open>None\<close> means that it does not end (or that the page tables could not be
  extended, where the kernel halts).  The field \<open>tstack\<close> holds the uninitialised bytes under the response buffers and \<open>tsha\<close>
  those under the hash contexts.
\<close>

section \<open>State\<close>

abbreviation TIS_BASE :: u64 where "TIS_BASE \<equiv> 0xFED40000"
abbreviation TIS_ACCESS :: u32 where "TIS_ACCESS \<equiv> 0x0000"
abbreviation TIS_STS :: u32 where "TIS_STS \<equiv> 0x0018"
abbreviation TIS_DATA_FIFO :: u32 where "TIS_DATA_FIFO \<equiv> 0x0024"
abbreviation TIS_VENDOR_ID :: u32 where "TIS_VENDOR_ID \<equiv> 0x0F00"
abbreviation TIS_ACCESS_VALID :: u8 where "TIS_ACCESS_VALID \<equiv> 0x80"
abbreviation TIS_ACCESS_ACTIVE_LOCALITY :: u8 where "TIS_ACCESS_ACTIVE_LOCALITY \<equiv> 0x20"
abbreviation TIS_ACCESS_REQUEST_USE :: u8 where "TIS_ACCESS_REQUEST_USE \<equiv> 0x02"
abbreviation TIS_STS_CMD_READY :: u8 where "TIS_STS_CMD_READY \<equiv> 0x40"
abbreviation TIS_STS_GO :: u8 where "TIS_STS_GO \<equiv> 0x20"
abbreviation TIS_STS_AVAIL :: u8 where "TIS_STS_AVAIL \<equiv> 0x90"
abbreviation TIS_STS_EXPECT :: u8 where "TIS_STS_EXPECT \<equiv> 0x08"
abbreviation TPM_PCR_COUNT :: nat where "TPM_PCR_COUNT \<equiv> 24"

record 't tpm =
  chip :: 't
  tis_in8 :: "u32 \<Rightarrow> 't \<Rightarrow> u8 \<times> 't"
  tis_in32 :: "u32 \<Rightarrow> 't \<Rightarrow> u32 \<times> 't"
  tis_out8 :: "u32 \<Rightarrow> u8 \<Rightarrow> 't \<Rightarrow> 't"
  tis_log :: "(u32 \<times> u8) list"
  g_tis_virt :: u64
  g_tis_ready :: bool
  pcr :: "u8 list list"
  initialized :: bool
  tvmm :: vmm_state
  tstack :: "u8 list"
  tsha :: "u8 list"

section \<open>Register access\<close>

definition tis_read8 :: "u32 \<Rightarrow> 't tpm \<Rightarrow> u8 \<times> 't tpm" where
  "tis_read8 off t = (let (v, c) = tis_in8 t off (chip t) in (v, t\<lparr>chip := c\<rparr>))"

definition tis_read32 :: "u32 \<Rightarrow> 't tpm \<Rightarrow> u32 \<times> 't tpm" where
  "tis_read32 off t = (let (v, c) = tis_in32 t off (chip t) in (v, t\<lparr>chip := c\<rparr>))"

definition tis_write8 :: "u32 \<Rightarrow> u8 \<Rightarrow> 't tpm \<Rightarrow> 't tpm" where
  "tis_write8 off v t = t\<lparr>chip := tis_out8 t off v (chip t), tis_log := tis_log t @ [(off, v)]\<rparr>"

text \<open>The waiting loops: at most \<^verbatim>\<open>timeout_ms * 1000\<close> reads.\<close>

fun tis_wait :: "nat \<Rightarrow> u32 \<Rightarrow> (u8 \<Rightarrow> bool) \<Rightarrow> 't tpm \<Rightarrow> bool \<times> 't tpm" where
  "tis_wait 0 off good t = (False, t)"
| "tis_wait (Suc n) off good t = (let (v, t1) = tis_read8 off t in if good v then (True, t1) else tis_wait n off good t1)"

definition tis_wait_sts :: "u8 \<Rightarrow> u8 \<Rightarrow> nat \<Rightarrow> 't tpm \<Rightarrow> bool \<times> 't tpm" where
  "tis_wait_sts msk val timeout_ms t = tis_wait (timeout_ms * 1000) TIS_STS (\<lambda>v. v AND msk = val) t"

definition tis_wait_access :: "u8 \<Rightarrow> nat \<Rightarrow> 't tpm \<Rightarrow> bool \<times> 't tpm" where
  "tis_wait_access msk timeout_ms t = tis_wait (timeout_ms * 1000) TIS_ACCESS (\<lambda>v. v AND msk \<noteq> 0) t"

definition tis_request_locality :: "'t tpm \<Rightarrow> bool \<times> 't tpm" where
  "tis_request_locality t = tis_wait_access TIS_ACCESS_ACTIVE_LOCALITY 100 (tis_write8 TIS_ACCESS TIS_ACCESS_REQUEST_USE t)"

fun tis_map :: "nat list \<Rightarrow> u64 \<Rightarrow> vmm_state \<Rightarrow> vmm_state option" where
  "tis_map [] virt v = Some v"
| "tis_map (i # is) virt v =
     (case vmm_map_page (virt + word_of_nat i * 0x1000) (TIS_BASE + word_of_nat i * 0x1000) (PTE_PRESENT OR PTE_WRITABLE) v of
        None \<Rightarrow> None
      | Some v1 \<Rightarrow> tis_map is virt v1)"

definition tpm_tis_init :: "'t tpm \<Rightarrow> (bool \<times> 't tpm) option" where
  "tpm_tis_init t =
     (let virt = vmm_get_hhdm_offset (tvmm t) + TIS_BASE in
      case tis_map [0, 1, 2, 3] virt (tvmm t) of
        None \<Rightarrow> None
      | Some v \<Rightarrow>
          let (acc, t1) = tis_read8 TIS_ACCESS (t\<lparr>tvmm := v, g_tis_virt := virt\<rparr>) in
          if acc AND TIS_ACCESS_VALID = 0 then Some (False, t1)
          else
            let (ok, t2) = tis_request_locality t1 in
            if \<not> ok then Some (False, t2)
            else let (vid, t3) = tis_read32 TIS_VENDOR_ID t2 in Some (True, t3\<lparr>g_tis_ready := True\<rparr>))"

section \<open>Commands\<close>

fun tis_send_bytes :: "u8 list \<Rightarrow> 't tpm \<Rightarrow> bool \<times> 't tpm" where
  "tis_send_bytes [] t = (True, t)"
| "tis_send_bytes [b] t = (True, tis_write8 TIS_DATA_FIFO b t)"
| "tis_send_bytes (b # c # bs) t =
     (let (ok, t1) = tis_wait_sts TIS_STS_EXPECT TIS_STS_EXPECT 10 t in
      if \<not> ok then (False, t1) else tis_send_bytes (c # bs) (tis_write8 TIS_DATA_FIFO b t1))"

partial_function (option) tis_drain :: "u8 list \<Rightarrow> nat \<Rightarrow> 't tpm \<Rightarrow> (u8 list \<times> nat \<times> 't tpm) option" where
  "tis_drain resp got t =
     (let (v, t1) = tis_read8 TIS_STS t in
      if v AND TIS_STS_AVAIL = TIS_STS_AVAIL then
        let (b, t2) = tis_read8 TIS_DATA_FIFO t1
        in tis_drain (if got < length resp then store_at got b resp else resp) (got + 1) t2
      else Some (resp, got, t1))"

definition resp_code :: "u8 list \<Rightarrow> u32" where
  "resp_code resp = be_word (take 4 (drop 6 resp))"

text \<open>The result: success, the response buffer and the length reported through \<^verbatim>\<open>resp_len\<close>.\<close>

definition tpm_tis_send_cmd :: "u8 list \<Rightarrow> u8 list \<Rightarrow> 't tpm \<Rightarrow> (bool \<times> u8 list \<times> nat \<times> 't tpm) option" where
  "tpm_tis_send_cmd cmd resp t =
     (if \<not> g_tis_ready t \<or> cmd = [] then Some (False, resp, length resp, t)
      else
        let (ok1, t1) = tis_wait_sts TIS_STS_CMD_READY TIS_STS_CMD_READY 50 (tis_write8 TIS_STS TIS_STS_CMD_READY t) in
        if \<not> ok1 then Some (False, resp, length resp, t1)
        else
          let (ok2, t2) = tis_send_bytes cmd t1 in
          if \<not> ok2 then Some (False, resp, length resp, t2)
          else
            let (ok3, t3) = tis_wait_sts TIS_STS_AVAIL TIS_STS_AVAIL 5000 (tis_write8 TIS_STS TIS_STS_GO t2) in
            if \<not> ok3 then Some (False, resp, length resp, t3)
            else
              case tis_drain resp 0 t3 of
                None \<Rightarrow> None
              | Some (resp1, got, t4) \<Rightarrow>
                  Some (\<not> (got \<ge> 10 \<and> resp_code resp1 \<noteq> 0), resp1, got, tis_write8 TIS_STS TIS_STS_CMD_READY t4))"

section \<open>Command builders\<close>

definition tpm2_startup :: "'t tpm \<Rightarrow> (bool \<times> 't tpm) option" where
  "tpm2_startup t =
     (case tpm_tis_send_cmd [0x80, 0x01, 0, 0, 0, 0x0C, 0, 0, 0x01, 0x44, 0, 0] (take 64 (tstack t)) t of
        None \<Rightarrow> None
      | Some (ok, resp, rlen, t1) \<Rightarrow> Some (if \<not> ok \<and> rlen \<ge> 10 \<and> resp_code resp = 0x100 then True else ok, t1))"

definition tpm2_self_test :: "'t tpm \<Rightarrow> (bool \<times> 't tpm) option" where
  "tpm2_self_test t =
     (case tpm_tis_send_cmd [0x80, 0x01, 0, 0, 0, 0x0B, 0, 0, 0x01, 0x43, 0x01] (take 32 (tstack t)) t of
        None \<Rightarrow> None
      | Some (ok, _, _, t1) \<Rightarrow> Some (ok, t1))"

text \<open>The array for the extend command has 61 bytes and the code stores the following 65: the last four go past its end.\<close>

definition pcr_extend_cmd :: "u32 \<Rightarrow> u8 list \<Rightarrow> u8 list" where
  "pcr_extend_cmd pcr_index digest =
     [0x80, 0x02, 0, 0, 0, 65, 0, 0, 0x01, 0x82, 0, 0, 0, ucast pcr_index,
      0, 0, 0, 0x09, 0x40, 0, 0, 0x09, 0, 0, 0, 0, 0, 0, 0, 0, 0x01, 0, 0x0B] @ take 32 digest"

abbreviation EXTEND_CMD_SIZE :: nat where "EXTEND_CMD_SIZE \<equiv> 61"

definition tpm2_pcr_extend_real :: "u32 \<Rightarrow> u8 list \<Rightarrow> 't tpm \<Rightarrow> (bool \<times> 't tpm) option" where
  "tpm2_pcr_extend_real pcr_index digest t =
     (case tpm_tis_send_cmd (pcr_extend_cmd pcr_index digest) (take 64 (tstack t)) t of
        None \<Rightarrow> None
      | Some (ok, _, _, t1) \<Rightarrow> Some (ok, t1))"

definition pcr_read_cmd :: "u32 \<Rightarrow> u8 list" where
  "pcr_read_cmd pcr_index =
     [0x80, 0x01, 0, 0, 0, 0x21, 0, 0, 0x01, 0x7E, 0, 0, 0, 0x01, 0, 0x0B, 0x03] @
     (if pcr_index < 8 then [push_bit (unat pcr_index) 1, 0, 0]
      else if pcr_index < 16 then [0, push_bit (unat pcr_index - 8) 1, 0]
      else if pcr_index < 24 then [0, 0, push_bit (unat pcr_index - 16) 1]
      else [0, 0, 0])"

definition tpm2_pcr_read_real :: "u32 \<Rightarrow> 't tpm \<Rightarrow> (u8 list option \<times> 't tpm) option" where
  "tpm2_pcr_read_real pcr_index t =
     (case tpm_tis_send_cmd (pcr_read_cmd pcr_index) (take 256 (tstack t)) t of
        None \<Rightarrow> None
      | Some (ok, resp, rlen, t1) \<Rightarrow>
          Some (if \<not> ok \<or> rlen < 60 then None else Some (take 32 (drop 28 resp)), t1))"

definition tpm2_get_random :: "nat \<Rightarrow> 't tpm \<Rightarrow> (u8 list option \<times> 't tpm) option" where
  "tpm2_get_random len t =
     (if len = 0 \<or> len > 32 then Some (None, t)
      else
        case tpm_tis_send_cmd [0x80, 0x01, 0, 0, 0, 0x0C, 0, 0, 0x01, 0x7B, 0, word_of_nat len] (take 64 (tstack t)) t of
          None \<Rightarrow> None
        | Some (ok, resp, rlen, t1) \<Rightarrow>
            Some (if \<not> ok \<or> rlen < 12 + len then None else Some (take len (drop 12 resp)), t1))"

definition quote_cmd :: "u32 \<Rightarrow> u8 list \<Rightarrow> u8 list" where
  "quote_cmd pcr_mask nonce =
     [0x80, 0x02, 0, 0, 0, 73, 0, 0, 0x01, 0x58, 0x40, 0, 0, 0x0C,
      0, 0, 0, 0x09, 0x40, 0, 0, 0x09, 0, 0, 0, 0, 0, 0, 0x20] @ take 32 nonce @
     [0, 0x10, 0, 0, 0, 0x01, 0, 0x0B, 0x03,
      ucast (pcr_mask AND 0xFF), ucast (drop_bit 8 pcr_mask AND 0xFF), ucast (drop_bit 16 pcr_mask AND 0xFF)]"

definition tpm2_quote_real :: "u32 \<Rightarrow> u8 list \<Rightarrow> 't tpm \<Rightarrow> (u8 list \<times> u8 list \<times> 't tpm) option" where
  "tpm2_quote_real pcr_mask nonce t =
     (case tpm_tis_send_cmd (quote_cmd pcr_mask nonce) (take 256 (tstack t)) t of
        None \<Rightarrow> None
      | Some (ok, resp, rlen, t1) \<Rightarrow>
          let quote = (if ok \<and> rlen \<ge> 64 then take 64 (drop 10 resp) else 0x51 # take 32 nonce @ replicate 31 0x51);
              sig = 0x53 # take 32 nonce @ replicate 31 0x53
          in Some (quote, sig, t1))"

section \<open>Measurements\<close>

definition tpm2_pcr_extend :: "u32 \<Rightarrow> u8 list \<Rightarrow> 't tpm \<Rightarrow> (bool \<times> 't tpm) option" where
  "tpm2_pcr_extend pcr_index data t =
     (if unat pcr_index \<ge> TPM_PCR_COUNT \<or> data = [] then Some (False, t)
      else
        let input_buffer = pcr t ! unat pcr_index @ sha512 (tsha t) data;
            extended_digest = sha512 (tsha t) input_buffer;
            t1 = t\<lparr>pcr := (pcr t)[unat pcr_index := take 32 extended_digest]\<rparr>
        in case tpm2_pcr_extend_real pcr_index extended_digest t1 of
             None \<Rightarrow> None
           | Some (_, t2) \<Rightarrow> Some (True, t2))"

definition tpm2_get_pcr :: "u32 \<Rightarrow> u8 list \<Rightarrow> 't tpm \<Rightarrow> (u8 list \<times> 't tpm) option" where
  "tpm2_get_pcr pcr_index out t =
     (if unat pcr_index \<ge> TPM_PCR_COUNT then Some (out, t)
      else
        case tpm2_pcr_read_real pcr_index t of
          None \<Rightarrow> None
        | Some (Some d, t1) \<Rightarrow> Some (d, t1)
        | Some (None, t1) \<Rightarrow> Some (pcr t1 ! unat pcr_index, t1))"

definition tpm2_init :: "'t tpm \<Rightarrow> 't tpm option" where
  "tpm2_init t =
     Option.bind (tpm_tis_init (t\<lparr>pcr := replicate TPM_PCR_COUNT (replicate 32 0), initialized := False\<rparr>)) (\<lambda>(tis_ok, t1).
     Option.bind (if tis_ok then Option.bind (tpm2_startup t1) (\<lambda>(_, t2). Option.bind (tpm2_self_test t2) (\<lambda>(_, t3). Some t3)) else Some t1) (\<lambda>t4.
     Option.bind (tpm2_pcr_extend 0 (ascii ''STYX_KERNEL_IMAGE_V2.0'') (t4\<lparr>initialized := True\<rparr>)) (\<lambda>(_, t5).
     Option.bind (tpm2_pcr_extend 1 (ascii ''LIMINE_BOOT_CFG_MEASURED'') t5) (\<lambda>(_, t6).
     Option.bind (tpm2_pcr_extend 2 (ascii ''PMM_BITMAP_126MB_LAYOUT'') t6) (\<lambda>(_, t7). Some t7)))))"

definition attest_nonce :: "u8 list" where
  "attest_nonce = [0xAA, 0xBB, 0xCC, 0xDD, 0xEE, 0xFF, 0x11, 0x22] @ replicate 24 0"

definition tpm2_verify_attestation :: "'t tpm \<Rightarrow> (bool \<times> 't tpm) option" where
  "tpm2_verify_attestation t =
     Option.bind (tpm2_get_pcr 0 (take 32 (tstack t)) t) (\<lambda>(pcr0, t1).
     Option.bind (tpm2_get_pcr 1 (take 32 (tstack t)) t1) (\<lambda>(pcr1, t2).
     Option.bind (tpm2_get_pcr 2 (take 32 (tstack t)) t2) (\<lambda>(pcr2, t3).
       if pcr0 = replicate 32 0 \<or> pcr1 = replicate 32 0 \<or> pcr2 = replicate 32 0 then Some (False, t3)
       else
         Option.bind (tpm2_quote_real 0x07 attest_nonce t3) (\<lambda>(quote, sig, t4).
           Some (quote ! 0 = 0x51 \<and> sig ! 0 = 0x53, t4)))))"

section \<open>The visual seal\<close>

record seal =
  seal_words :: "u8 list list"
  seal_colors :: "u32 list"

definition seal_wordlist :: "string list" where
  "seal_wordlist = [
    ''AEGIS'', ''ARGON'', ''AURORA'', ''BEACON'', ''CIPHER'', ''COBALT'', ''CRIMSON'', ''CRYPTO'',
    ''CYBER'', ''DAWN'', ''ECHO'', ''ECLIPSE'', ''EMERALD'', ''FALCON'', ''FORGE'', ''FROST'',
    ''GENESIS'', ''GLACIER'', ''GRID'', ''HALO'', ''HELIOS'', ''HYDRA'', ''IGNEOUS'', ''INFINITY'',
    ''IRIS'', ''JADE'', ''KINETIC'', ''LEGION'', ''LUNAR'', ''MATRIX'', ''NEBULA'', ''NEXUS'',
    ''NOVA'', ''OBSIDIAN'', ''ODYSSEY'', ''OMEGA'', ''ONYX'', ''ORION'', ''PHANTOM'', ''PHOENIX'',
    ''PULSE'', ''QUANTUM'', ''QUARTZ'', ''RADIAN'', ''RUBY'', ''SAPPHIRE'', ''SENTINEL'', ''SHADOW'',
    ''SHIELD'', ''SPECTRE'', ''STEALTH'', ''STORM'', ''STYX'', ''TITAN'', ''TORRENT'', ''VALKYRIE'',
    ''VECTOR'', ''VERITAS'', ''VIPER'', ''VORTEX'', ''ZENITH'', ''ZEPHYR'', ''ZERO'', ''ZODIAC'']"

definition seal_color :: "u8 list \<Rightarrow> nat \<Rightarrow> u32" where
  "seal_color d i = 0xFF000000 OR push_bit 16 (ucast (d ! i)) OR push_bit 8 (ucast (d ! (i + 1))) OR ucast (d ! (i + 2))"

definition tpm_visual_derive_seal :: "'t tpm \<Rightarrow> (seal \<times> 't tpm) option" where
  "tpm_visual_derive_seal t =
     Option.bind (tpm2_get_pcr 0 (take 32 (tstack t)) t) (\<lambda>(pcr0, t1).
     Option.bind (tpm2_get_pcr 1 (take 32 (tstack t)) t1) (\<lambda>(pcr1, t2).
       Some (\<lparr>seal_words = map (\<lambda>i. ascii (seal_wordlist ! (unat (pcr0 ! i) mod 64))) [0, 1, 2],
              seal_colors = map (seal_color pcr1) [0, 3, 6, 9]\<rparr>, t2)))"

section \<open>Lemmas\<close>

text \<open>Talking to the chip changes only the chip and the log, and the log only grows.\<close>

definition same_tpm :: "'t tpm \<Rightarrow> 't tpm \<Rightarrow> bool" where
  "same_tpm t t' = (\<exists>c l. t' = t\<lparr>chip := c, tis_log := l\<rparr>)"

lemma same_tpmD:
  assumes "same_tpm t t'"
  shows "pcr t' = pcr t" "g_tis_ready t' = g_tis_ready t" "tstack t' = tstack t" "tsha t' = tsha t" "initialized t' = initialized t"
    "tis_in8 t' = tis_in8 t" "tis_out8 t' = tis_out8 t" "tvmm t' = tvmm t"
  using assms by (auto simp: same_tpm_def)

lemma same_tpm_refl [simp]: "same_tpm t t"
  unfolding same_tpm_def by (rule exI [of _ "chip t"], rule exI [of _ "tis_log t"]) simp

lemma same_tpm_trans: "same_tpm t t' \<Longrightarrow> same_tpm t' t'' \<Longrightarrow> same_tpm t t''"
  unfolding same_tpm_def by force

lemma tis_read8_props: "same_tpm t (snd (tis_read8 off t))" "tis_log (snd (tis_read8 off t)) = tis_log t"
proof -
  have "snd (tis_read8 off t) = t\<lparr>chip := snd (tis_in8 t off (chip t)), tis_log := tis_log t\<rparr>"
    by (simp add: tis_read8_def prod.case_eq_if Let_def)
  then show "same_tpm t (snd (tis_read8 off t))" unfolding same_tpm_def by (intro exI)
qed (simp add: tis_read8_def prod.case_eq_if Let_def)

lemma tis_write8_props: "same_tpm t (tis_write8 off v t)" "tis_log (tis_write8 off v t) = tis_log t @ [(off, v)]"
  unfolding same_tpm_def tis_write8_def by auto

lemma tis_wait_props: "same_tpm t (snd (tis_wait n off good t)) \<and> tis_log (snd (tis_wait n off good t)) = tis_log t"
proof (induction n arbitrary: t)
  case (Suc n)
  obtain v t1 where r: "tis_read8 off t = (v, t1)" by force
  have "same_tpm t t1" "tis_log t1 = tis_log t" using tis_read8_props [where t = t and off = off] r by simp_all
  then show ?case using Suc [of t1] same_tpm_trans by (auto simp: r)
qed simp

lemma tis_wait_sts_props: "same_tpm t (snd (tis_wait_sts m v n t))" "tis_log (snd (tis_wait_sts m v n t)) = tis_log t"
  by (simp_all add: tis_wait_sts_def tis_wait_props)

lemma tis_drain_props:
  assumes "tis_drain resp got t = Some y"
  shows "same_tpm t (snd (snd y)) \<and> tis_log (snd (snd y)) = tis_log t \<and> length (fst y) = length resp"
proof (rule tis_drain.raw_induct [of "\<lambda>resp got t y. same_tpm t (snd (snd y)) \<and> tis_log (snd (snd y)) = tis_log t \<and>
    length (fst y) = length resp", OF _ assms], goal_cases)
  case (1 drain resp got t y)
  obtain v t1 where r: "tis_read8 TIS_STS t = (v, t1)" by force
  obtain b t2 where r2: "tis_read8 TIS_DATA_FIFO t1 = (b, t2)" by force
  have "same_tpm t t1" "tis_log t1 = tis_log t" using tis_read8_props [where t = t and off = TIS_STS] r by simp_all
  moreover have "same_tpm t1 t2" "tis_log t2 = tis_log t1" using tis_read8_props [where t = t1 and off = TIS_DATA_FIFO] r2 by simp_all
  ultimately show ?case
    using 1(2) 1(1) [of "if got < length resp then store_at got b resp else resp" "got + 1" t2 y]
    by (auto simp: r r2 Let_def store_at_inside split: if_splits intro: same_tpm_trans)
qed


lemma tis_send_bytes_props:
  "same_tpm t (snd (tis_send_bytes bs t)) \<and>
   (\<exists>k \<le> length bs. tis_log (snd (tis_send_bytes bs t)) = tis_log t @ map (Pair TIS_DATA_FIFO) (take k bs) \<and>
     (fst (tis_send_bytes bs t) \<longrightarrow> k = length bs))"
proof (induction bs t rule: tis_send_bytes.induct)
  case (1 t)
  then show ?case by simp
next
  case (2 b t)
  then show ?case using tis_write8_props [where t = t] by (auto intro: exI [of _ 1])
next
  case (3 b c bs t)
  obtain ok t1 where w: "tis_wait_sts TIS_STS_EXPECT TIS_STS_EXPECT 10 t = (ok, t1)" by force
  have s1: "same_tpm t t1" "tis_log t1 = tis_log t" using tis_wait_sts_props [where t = t] w by (metis snd_conv)+
  show ?case
  proof (cases ok)
    case False
    then show ?thesis using s1 by (auto simp: w intro: exI [of _ 0])
  next
    case True
    let ?t = "tis_write8 TIS_DATA_FIFO b t1"
    have s2: "same_tpm t ?t" "tis_log ?t = tis_log t @ [(TIS_DATA_FIFO, b)]"
      using same_tpm_trans [OF s1(1) tis_write8_props(1)] by (simp_all add: tis_write8_props s1)
    from 3(1) [OF w [symmetric] refl] True obtain k where
      k: "same_tpm ?t (snd (tis_send_bytes (c # bs) ?t))" "k \<le> length (c # bs)"
        "tis_log (snd (tis_send_bytes (c # bs) ?t)) = tis_log ?t @ map (Pair TIS_DATA_FIFO) (take k (c # bs))"
        "fst (tis_send_bytes (c # bs) ?t) \<longrightarrow> k = length (c # bs)" by auto
    then have "tis_log (snd (tis_send_bytes (b # c # bs) t)) = tis_log t @ map (Pair TIS_DATA_FIFO) (take (Suc k) (b # c # bs))"
      using True s2 by (simp add: w)
    then show ?thesis using k True same_tpm_trans [OF s2(1) k(1)] by (auto simp: w intro: exI [of _ "Suc k"])
  qed
qed

definition tis_protocol :: "u8 list \<Rightarrow> (u32 \<times> u8) list" where
  "tis_protocol cmd = (TIS_STS, TIS_STS_CMD_READY) # map (Pair TIS_DATA_FIFO) cmd @ [(TIS_STS, TIS_STS_GO), (TIS_STS, TIS_STS_CMD_READY)]"

lemma tis_protocol_take:
  "k \<le> length cmd \<Longrightarrow> take (Suc k) (tis_protocol cmd) = (TIS_STS, TIS_STS_CMD_READY) # map (Pair TIS_DATA_FIFO) (take k cmd)"
  by (simp add: tis_protocol_def take_map)

lemma tis_protocol_go:
  "take (length cmd + 2) (tis_protocol cmd) = (TIS_STS, TIS_STS_CMD_READY) # map (Pair TIS_DATA_FIFO) cmd @ [(TIS_STS, TIS_STS_GO)]"
  by (simp add: tis_protocol_def)

lemma tis_protocol_all: "take (length cmd + 3) (tis_protocol cmd) = tis_protocol cmd"
  by (simp add: tis_protocol_def)

lemma tis_send_cmd_props:
  assumes "tpm_tis_send_cmd cmd resp t = Some (ok, r, n, t')"
  shows "same_tpm t t' \<and> length r = length resp \<and>
    (\<exists>k \<le> length cmd + 3. tis_log t' = tis_log t @ take k (tis_protocol cmd) \<and> (ok \<longrightarrow> k = length cmd + 3))"
proof (cases "\<not> g_tis_ready t \<or> cmd = []")
  case True
  then show ?thesis using assms by (auto simp: tpm_tis_send_cmd_def intro: exI [of _ 0])
next
  case False
  define t0 where "t0 = tis_write8 TIS_STS TIS_STS_CMD_READY t"
  obtain ok1 t1 where w1: "tis_wait_sts TIS_STS_CMD_READY TIS_STS_CMD_READY 50 t0 = (ok1, t1)" by force
  obtain ok2 t2 where w2: "tis_send_bytes cmd t1 = (ok2, t2)" by force
  define t2' where "t2' = tis_write8 TIS_STS TIS_STS_GO t2"
  obtain ok3 t3 where w3: "tis_wait_sts TIS_STS_AVAIL TIS_STS_AVAIL 5000 t2' = (ok3, t3)" by force
  have s0: "same_tpm t t0" "tis_log t0 = tis_log t @ [(TIS_STS, TIS_STS_CMD_READY)]" unfolding t0_def by (rule tis_write8_props)+
  have s1: "same_tpm t t1" "tis_log t1 = tis_log t0" using tis_wait_sts_props [where t = t0] w1 same_tpm_trans [OF s0(1)] by (metis snd_conv)+
  obtain k where s2: "same_tpm t t2" and k: "k \<le> length cmd" "tis_log t2 = tis_log t1 @ map (Pair TIS_DATA_FIFO) (take k cmd)" "ok2 \<longrightarrow> k = length cmd"
    using tis_send_bytes_props [of t1 cmd] w2 same_tpm_trans [OF s1(1)] by auto
  have "same_tpm t t2'" "tis_log t2' = tis_log t2 @ [(TIS_STS, TIS_STS_GO)]"
    using same_tpm_trans [OF s2 tis_write8_props(1)] by (simp_all add: t2'_def tis_write8_props)
  then have s3: "same_tpm t t3" "tis_log t3 = tis_log t2 @ [(TIS_STS, TIS_STS_GO)]"
    using tis_wait_sts_props [where t = t2'] w3 same_tpm_trans by (metis snd_conv)+
  have r: "tpm_tis_send_cmd cmd resp t =
      (if \<not> ok1 then Some (False, resp, length resp, t1) else if \<not> ok2 then Some (False, resp, length resp, t2)
       else if \<not> ok3 then Some (False, resp, length resp, t3)
       else case tis_drain resp 0 t3 of None \<Rightarrow> None | Some (resp1, got, t4) \<Rightarrow>
         Some (\<not> (got \<ge> 10 \<and> resp_code resp1 \<noteq> 0), resp1, got, tis_write8 TIS_STS TIS_STS_CMD_READY t4))"
    using False by (simp add: tpm_tis_send_cmd_def t0_def [symmetric] t2'_def [symmetric] w1 w2 w3)
  consider "\<not> ok1" | "ok1" "\<not> ok2" | "ok2" "\<not> ok3" "ok1" | "ok1" "ok2" "ok3" by blast
  then show ?thesis
  proof cases
    case 1
    then have "t' = t1" "r = resp" "\<not> ok" using assms r by simp_all
    then show ?thesis using s0 s1 tis_protocol_take [of 0 cmd] by (auto intro!: exI [of _ "Suc 0"])
  next
    case 2
    then have "t' = t2" "r = resp" "\<not> ok" using assms r by simp_all
    then show ?thesis using s0 s1 s2 k tis_protocol_take [OF k(1)] by (auto intro!: exI [of _ "Suc k"])
  next
    case 3
    then have "t' = t3" "r = resp" "\<not> ok" "k = length cmd" using assms r k by simp_all
    then show ?thesis using s0 s1 s3 k tis_protocol_go [of cmd] by (auto intro!: exI [of _ "length cmd + 2"])
  next
    case 4
    then obtain t4 where d: "tis_drain resp 0 t3 = Some (r, n, t4)" "t' = tis_write8 TIS_STS TIS_STS_CMD_READY t4" "k = length cmd"
      using assms r k by (auto split: option.splits)
    then have "same_tpm t t'" "tis_log t' = tis_log t3 @ [(TIS_STS, TIS_STS_CMD_READY)]" "length r = length resp"
      using tis_drain_props [OF d(1)] same_tpm_trans [OF same_tpm_trans [OF s3(1)] tis_write8_props(1)]
      by (simp_all add: tis_write8_props)
    then show ?thesis using s0 s1 s3 k d tis_protocol_all [of cmd]
      by (auto simp: tis_protocol_def intro!: exI [of _ "length cmd + 3"])
  qed
qed


lemma extend_real_same: "tpm2_pcr_extend_real i d t = Some (ok, t') \<Longrightarrow> same_tpm t t'"
  using tis_send_cmd_props by (fastforce simp: tpm2_pcr_extend_real_def split: option.splits)

text \<open>Registers of the software model after a measurement.\<close>

definition pcr_measure :: "u8 list \<Rightarrow> u8 list \<Rightarrow> u8 list" where
  "pcr_measure data p = take 32 (sha512_ref (p @ sha512_ref data))"

lemma pcr_extend_step:
  assumes "tpm2_pcr_extend i d t = Some (b, t')" "length (tsha t) = 128" "unat i < TPM_PCR_COUNT" "d \<noteq> []" "length d < 2 ^ 61"
    "length (pcr t ! unat i) = 32"
  shows "b \<and> pcr t' = (pcr t)[unat i := pcr_measure d (pcr t ! unat i)] \<and> tsha t' = tsha t"
proof -
  let ?e = "sha512 (tsha t) (pcr t ! unat i @ sha512 (tsha t) d)"
  have e: "take 32 ?e = pcr_measure d (pcr t ! unat i)"
    using assms(2,5,6) by (simp add: pcr_measure_def sha512_eq_ref)
  let ?t1 = "t\<lparr>pcr := (pcr t)[unat i := take 32 ?e]\<rparr>"
  have "same_tpm ?t1 t'" and b: "b"
    using assms(1,3,4) extend_real_same by (fastforce simp: tpm2_pcr_extend_def Let_def split: option.splits)+
  from same_tpmD [OF this(1)] b show ?thesis unfolding e by simp
qed

fun extend_all :: "u32 \<Rightarrow> u8 list list \<Rightarrow> 't tpm \<Rightarrow> 't tpm option" where
  "extend_all i [] t = Some t"
| "extend_all i (d # ds) t = Option.bind (tpm2_pcr_extend i d t) (\<lambda>(_, t1). extend_all i ds t1)"

lemma extend_all_chain:
  assumes "extend_all i ds t = Some t'" "length (tsha t) = 128" "unat i < TPM_PCR_COUNT" "\<forall>d \<in> set ds. d \<noteq> [] \<and> length d < 2 ^ 61"
    "length (pcr t) = TPM_PCR_COUNT" "length (pcr t ! unat i) = 32"
  shows "pcr t' = (pcr t)[unat i := fold pcr_measure ds (pcr t ! unat i)]"
  using assms
proof (induction ds arbitrary: t)
  case (Cons d ds)
  obtain b t1 where t1: "tpm2_pcr_extend i d t = Some (b, t1)" "extend_all i ds t1 = Some t'"
    using Cons.prems(1) by (auto simp: bind_eq_Some_conv)
  have s: "pcr t1 = (pcr t)[unat i := pcr_measure d (pcr t ! unat i)]" "tsha t1 = tsha t"
    using pcr_extend_step [OF t1(1)] Cons.prems by auto
  have "length (pcr_measure d p) = 32" for p by (simp add: pcr_measure_def)
  then show ?case using Cons.IH [OF t1(2)] Cons.prems s by simp
qed simp

section \<open>Properties\<close>

text \<open>C22: Whatever the chip answers, a command that returns has written to the chip only what the interface protocol prescribes: the
  request for command mode, the bytes of the command in order, the start bit and the release, cut off at the point where a wait
  times out; success is reported only after the whole sequence.  However many bytes the chip delivers, none is stored behind the
  response buffer, and no other state changes.  (The call does not return if the chip keeps data available for ever: the loop
  that drains the response has no bound.)\<close>

theorem tis_command_protocol:
  assumes "tpm_tis_send_cmd cmd resp t = Some (ok, r, n, t')"
  shows "(\<exists>k \<le> length cmd + 3. tis_log t' = tis_log t @ take k (tis_protocol cmd) \<and> (ok \<longrightarrow> k = length cmd + 3)) \<and>
    length r = length resp \<and> pcr t' = pcr t \<and> g_tis_ready t' = g_tis_ready t \<and> tvmm t' = tvmm t"
  using tis_send_cmd_props [OF assms] same_tpmD by blast

text \<open>C38: A platform configuration register is the hash chain of what was measured into it, in order, whatever the chip does with the
  commands it is sent; the other registers are untouched.\<close>

theorem pcr_measurement_chain:
  assumes "extend_all i ds t = Some t'" "length (tsha t) = 128" "unat i < TPM_PCR_COUNT" "\<forall>d \<in> set ds. d \<noteq> [] \<and> length d < 2 ^ 61"
    "length (pcr t) = TPM_PCR_COUNT" "length (pcr t ! unat i) = 32"
  shows "pcr t' ! j = (if j = unat i then fold (\<lambda>d p. take 32 (sha512_ref (p @ sha512_ref d))) ds (pcr t ! unat i) else pcr t ! j)"
proof -
  have "pcr_measure = (\<lambda>d p. take 32 (sha512_ref (p @ sha512_ref d)))" by (simp add: pcr_measure_def fun_eq_iff)
  then show ?thesis using extend_all_chain [OF assms] assms(3,5) by simp
qed

text \<open>Without a chip the attestation succeeds as soon as the three registers in memory are not zero: the quote and its signature
  are made up by the code that checks them.\<close>

theorem attestation_without_tpm:
  assumes "\<not> g_tis_ready t"
  shows "tpm2_verify_attestation t =
    Some (pcr t ! 0 \<noteq> replicate 32 0 \<and> pcr t ! 1 \<noteq> replicate 32 0 \<and> pcr t ! 2 \<noteq> replicate 32 0, t)"
proof -
  have c: "tpm_tis_send_cmd cmd resp t = Some (False, resp, length resp, t)" for cmd resp
    using assms by (simp add: tpm_tis_send_cmd_def)
  have "tpm2_get_pcr i out t = Some (pcr t ! unat i, t)" if "unat i < TPM_PCR_COUNT" for i out
    using that by (simp add: tpm2_get_pcr_def tpm2_pcr_read_real_def c)
  moreover have "\<exists>q s. tpm2_quote_real 7 attest_nonce t = Some (0x51 # q, 0x53 # s, t)" by (simp add: tpm2_quote_real_def c)
  ultimately show ?thesis by (auto simp: tpm2_verify_attestation_def)
qed


section \<open>The order the driver expects\<close>

text \<open>A chip as the driver wants it: command mode, reception of the command with the expect bit set, execution, and the response byte
  by byte while data is available.  It differs from the interface specification in one point: the expect bit is set in command mode
  already, before the first byte of the command (below: what the driver does with a chip that sets it later).\<close>

datatype chip_phase = Receiving "u8 list" | Responding "u8 list" | Other

definition tis_follows :: "(u8 list \<Rightarrow> u8 list) \<Rightarrow> ('t \<Rightarrow> chip_phase) \<Rightarrow> 't tpm \<Rightarrow> bool" where
  "tis_follows answer phase t =
     ((\<forall>c. phase (tis_out8 t TIS_STS TIS_STS_CMD_READY c) = Receiving []) \<and>
      (\<forall>c bs. phase c = Receiving bs \<longrightarrow> phase (snd (tis_in8 t TIS_STS c)) = Receiving bs \<and>
         fst (tis_in8 t TIS_STS c) AND TIS_STS_EXPECT = TIS_STS_EXPECT \<and>
         (bs = [] \<longrightarrow> fst (tis_in8 t TIS_STS c) AND TIS_STS_CMD_READY = TIS_STS_CMD_READY) \<and> (\<forall>b. phase (tis_out8 t TIS_DATA_FIFO b c) = Receiving (bs @ [b])) \<and>
         phase (tis_out8 t TIS_STS TIS_STS_GO c) = Responding (answer bs)) \<and>
      (\<forall>c rs. phase c = Responding rs \<longrightarrow> phase (snd (tis_in8 t TIS_STS c)) = Responding rs \<and>
         (fst (tis_in8 t TIS_STS c) AND TIS_STS_AVAIL = TIS_STS_AVAIL \<longleftrightarrow> rs \<noteq> []) \<and>
         (rs \<noteq> [] \<longrightarrow> fst (tis_in8 t TIS_DATA_FIFO c) = hd rs \<and> phase (snd (tis_in8 t TIS_DATA_FIFO c)) = Responding (tl rs))))"

lemma follows_same: "same_tpm t t' \<Longrightarrow> tis_follows answer phase t' = tis_follows answer phase t"
  by (simp add: tis_follows_def same_tpmD)

lemma tis_wait_hit: "0 < n \<Longrightarrow> good (fst (tis_read8 off t)) \<Longrightarrow> tis_wait n off good t = (True, snd (tis_read8 off t))"
  by (cases n) (simp_all add: prod.case_eq_if Let_def)

lemma read8_simps: "fst (tis_read8 off t) = fst (tis_in8 t off (chip t))" "chip (snd (tis_read8 off t)) = snd (tis_in8 t off (chip t))"
  by (simp_all add: tis_read8_def prod.case_eq_if Let_def)

lemma send_bytes_follows:
  assumes "tis_follows answer phase t" "phase (chip t) = Receiving pre"
  shows "\<exists>t'. tis_send_bytes bs t = (True, t') \<and> phase (chip t') = Receiving (pre @ bs) \<and> same_tpm t t'"
  using assms
proof (induction bs arbitrary: t pre rule: induct_list012)
  case 1
  then show ?case by simp
next
  case (2 b)
  then show ?case using tis_write8_props(1) [of t TIS_DATA_FIFO b] by (simp add: tis_follows_def tis_write8_def)
next
  case (3 b c bs)
  define t1 where "t1 = snd (tis_read8 TIS_STS t)"
  have f: "phase (snd (tis_in8 t TIS_STS (chip t))) = Receiving pre" "fst (tis_in8 t TIS_STS (chip t)) AND TIS_STS_EXPECT = TIS_STS_EXPECT"
    using 3(3,4) by (auto simp: tis_follows_def)
  have w: "tis_wait_sts TIS_STS_EXPECT TIS_STS_EXPECT 10 t = (True, t1)"
    using f(2) by (simp add: tis_wait_sts_def tis_wait_hit read8_simps t1_def)
  have t1: "same_tpm t t1" "phase (chip t1) = Receiving pre" using tis_read8_props(1) f(1) by (simp_all add: t1_def read8_simps)
  let ?t = "tis_write8 TIS_DATA_FIFO b t1"
  have s: "same_tpm t ?t" by (rule same_tpm_trans [OF t1(1) tis_write8_props(1)])
  moreover have "phase (chip ?t) = Receiving (pre @ [b])"
    using 3(3) t1 same_tpmD(7) [OF t1(1)] by (simp add: tis_follows_def tis_write8_def)
  ultimately obtain t' where "tis_send_bytes (c # bs) ?t = (True, t')" "phase (chip t') = Receiving ((pre @ [b]) @ c # bs)" "same_tpm ?t t'"
    using 3(2) [of ?t "pre @ [b]"] 3(3) follows_same by blast
  then show ?case using same_tpm_trans [OF s] by (simp add: w)
qed

lemma drain_follows:
  assumes "tis_follows answer phase t" "phase (chip t) = Responding rs"
  shows "\<exists>t'. tis_drain resp got t = Some (take got resp @ take (length resp - got) rs @ drop (got + length rs) resp, got + length rs, t') \<and>
    same_tpm t t'"
  using assms
proof (induction rs arbitrary: t resp got)
  case Nil
  define t1 where "t1 = snd (tis_read8 TIS_STS t)"
  have "\<not> fst (tis_read8 TIS_STS t) AND TIS_STS_AVAIL = TIS_STS_AVAIL" using Nil by (simp add: tis_follows_def read8_simps)
  then have "tis_drain resp got t = Some (resp, got, t1)"
    by (subst tis_drain.simps) (simp add: prod.case_eq_if Let_def t1_def)
  then show ?case using tis_read8_props(1) by (auto simp: t1_def)
next
  case (Cons r rs)
  define t1 where "t1 = snd (tis_read8 TIS_STS t)"
  define t2 where "t2 = snd (tis_read8 TIS_DATA_FIFO t1)"
  have a: "fst (tis_read8 TIS_STS t) AND TIS_STS_AVAIL = TIS_STS_AVAIL" "phase (chip t1) = Responding (r # rs)"
    using Cons.prems by (simp_all add: tis_follows_def read8_simps t1_def)
  have s1: "same_tpm t t1" "tis_follows answer phase t1"
    using tis_read8_props(1) follows_same Cons.prems(1) unfolding t1_def by blast+
  then have b: "fst (tis_read8 TIS_DATA_FIFO t1) = r" "phase (chip t2) = Responding rs"
    using a(2) by (simp_all add: tis_follows_def read8_simps t2_def)
  have s2: "same_tpm t t2" "tis_follows answer phase t2"
    using same_tpm_trans [OF s1(1) tis_read8_props(1)] tis_read8_props(1) follows_same s1(2) unfolding t2_def by blast+
  let ?r = "if got < length resp then store_at got r resp else resp"
  have d: "tis_drain resp got t = tis_drain ?r (got + 1) t2"
    using a(1) b(1) by (subst tis_drain.simps) (simp add: prod.case_eq_if Let_def t1_def [symmetric] t2_def [symmetric])
  obtain t' where t': "tis_drain ?r (got + 1) t2 = Some (take (got + 1) ?r @ take (length ?r - (got + 1)) rs @ drop (got + 1 + length rs) ?r,
      got + 1 + length rs, t')" "same_tpm t2 t'"
    using Cons.IH [OF s2(2) b(2), of ?r "got + 1"] by blast
  have "take (got + 1) ?r @ take (length ?r - (got + 1)) rs @ drop (got + 1 + length rs) ?r =
      take got resp @ take (length resp - got) (r # rs) @ drop (got + length (r # rs)) resp"
    by (cases "got < length resp") (auto simp: store_at_inside take_Suc_conv_app_nth take_Cons' not_less)
  then show ?case using d t' same_tpm_trans [OF s2(1)] by auto
qed

text \<open>With such a chip a command succeeds in one exchange: the chip has received exactly the bytes of the command, the buffer holds
  the response cut to its size, and the length of the whole response is reported.\<close>

lemma tis_command_answered:
  assumes "tis_follows answer phase t" "g_tis_ready t" "cmd \<noteq> []" "answer cmd \<noteq> []"
  shows "\<exists>t'. tpm_tis_send_cmd cmd resp t =
    Some (\<not> (length (answer cmd) \<ge> 10 \<and> resp_code (take (length resp) (answer cmd) @ drop (length (answer cmd)) resp) \<noteq> 0),
      take (length resp) (answer cmd) @ drop (length (answer cmd)) resp, length (answer cmd), t')"
proof -
  define t0 where "t0 = tis_write8 TIS_STS TIS_STS_CMD_READY t"
  have s0: "same_tpm t t0" "phase (chip t0) = Receiving []"
    using assms(1) tis_write8_props(1) by (simp_all add: t0_def tis_follows_def tis_write8_def)
  define t1 where "t1 = snd (tis_read8 TIS_STS t0)"
  have f0: "tis_follows answer phase t0" using follows_same [OF s0(1)] assms(1) by blast
  have f: "phase (snd (tis_in8 t0 TIS_STS (chip t0))) = Receiving []" "fst (tis_in8 t0 TIS_STS (chip t0)) AND TIS_STS_CMD_READY = TIS_STS_CMD_READY"
    using f0 s0(2) by (auto simp: tis_follows_def)
  have w1: "tis_wait_sts TIS_STS_CMD_READY TIS_STS_CMD_READY 50 t0 = (True, t1)"
    using f(2) by (simp add: tis_wait_sts_def tis_wait_hit read8_simps t1_def)
  have f1: "tis_follows answer phase t1" "phase (chip t1) = Receiving []"
    using f0 f(1) by (simp_all add: t1_def read8_simps follows_same [OF tis_read8_props(1)])
  obtain t2 where w2: "tis_send_bytes cmd t1 = (True, t2)" "phase (chip t2) = Receiving cmd" "same_tpm t1 t2"
    using send_bytes_follows [OF f1, of cmd] by auto
  define t3 where "t3 = tis_write8 TIS_STS TIS_STS_GO t2"
  have f2: "tis_follows answer phase t2" using follows_same [OF w2(3)] f1(1) by blast
  then have f3: "tis_follows answer phase t3" "phase (chip t3) = Responding (answer cmd)"
    using w2(2) by (simp_all add: t3_def follows_same [OF tis_write8_props(1)]) (simp add: tis_follows_def tis_write8_def)
  define t4 where "t4 = snd (tis_read8 TIS_STS t3)"
  have a: "fst (tis_in8 t3 TIS_STS (chip t3)) AND TIS_STS_AVAIL = TIS_STS_AVAIL" "phase (chip t4) = Responding (answer cmd)"
    using f3 assms(4) by (simp_all add: tis_follows_def t4_def read8_simps)
  have w3: "tis_wait_sts TIS_STS_AVAIL TIS_STS_AVAIL 5000 t3 = (True, t4)"
    using a(1) by (simp add: tis_wait_sts_def tis_wait_hit read8_simps t4_def)
  have f4: "tis_follows answer phase t4" using f3(1) by (simp add: t4_def follows_same [OF tis_read8_props(1)])
  obtain t5 where "tis_drain resp 0 t4 = Some (take (length resp) (answer cmd) @ drop (length (answer cmd)) resp, length (answer cmd), t5)"
    using drain_follows [OF f4 a(2), of resp 0] by auto
  then show ?thesis
    using assms(2,3) by (simp add: tpm_tis_send_cmd_def t0_def [symmetric] w1 w2(1) t3_def [symmetric] w3)
qed


text \<open>C21: The driver waits for the expect bit before the first byte already.  The interface specification raises it only once a byte
  of the command has arrived: a status read in command mode shows no expect bit and does not leave command mode.  With every such
  chip each command of two or more bytes (all commands the driver builds) fails, the response buffer and its length are as they
  were, and no byte has been written to the data register.\<close>

theorem expect_before_first_byte:
  assumes "\<And>c. fresh c \<Longrightarrow> fst (tis_in8 t TIS_STS c) AND TIS_STS_EXPECT = 0 \<and> fresh (snd (tis_in8 t TIS_STS c))"
    "\<And>c. fresh (tis_out8 t TIS_STS TIS_STS_CMD_READY c)" "2 \<le> length cmd"
  shows "\<exists>t'. tpm_tis_send_cmd cmd resp t = Some (False, resp, length resp, t') \<and> (\<forall>b. (TIS_DATA_FIFO, b) \<in> set (tis_log t') \<longrightarrow> (TIS_DATA_FIFO, b) \<in> set (tis_log t))"
proof (cases "g_tis_ready t")
  case True
  define t0 where "t0 = tis_write8 TIS_STS TIS_STS_CMD_READY t"
  have s0: "same_tpm t t0" "tis_log t0 = tis_log t @ [(TIS_STS, TIS_STS_CMD_READY)]" unfolding t0_def by (rule tis_write8_props)+
  have fr: "fresh (chip t0)" using assms(2) by (simp add: t0_def tis_write8_def)
  have keep: "fresh (chip u') \<and> (good = (\<lambda>v. v AND TIS_STS_EXPECT = TIS_STS_EXPECT) \<longrightarrow> \<not> ok)"
    if "same_tpm t u" "fresh (chip u)" "tis_wait n TIS_STS good u = (ok, u')" for u u' n good ok
    using that
  proof (induction n arbitrary: u)
    case (Suc n)
    let ?u = "snd (tis_read8 TIS_STS u)"
    have "fst (tis_read8 TIS_STS u) AND TIS_STS_EXPECT = 0" "fresh (chip ?u)" "same_tpm t ?u"
      using assms(1) [OF Suc.prems(2)] same_tpmD(6) [OF Suc.prems(1)] same_tpm_trans [OF Suc.prems(1) tis_read8_props(1)]
      by (simp_all add: read8_simps)
    then show ?case using Suc.IH [of ?u] Suc.prems(3) by (auto simp: prod.case_eq_if Let_def split: if_splits)
  qed simp
  obtain ok1 t1 where w1: "tis_wait_sts TIS_STS_CMD_READY TIS_STS_CMD_READY 50 t0 = (ok1, t1)" by force
  have t1: "fresh (chip t1)" "same_tpm t t1" "tis_log t1 = tis_log t0"
    using keep [OF s0(1) fr w1 [unfolded tis_wait_sts_def]] tis_wait_sts_props [where t = t0] w1 same_tpm_trans [OF s0(1)] by (metis snd_conv)+
  obtain ok2 t2 where w2: "tis_wait_sts TIS_STS_EXPECT TIS_STS_EXPECT 10 t1 = (ok2, t2)" by force
  have t2: "\<not> ok2" "tis_log t2 = tis_log t1"
    using keep [OF t1(2,1) w2 [unfolded tis_wait_sts_def]] tis_wait_sts_props [where t = t1] w2 by (simp, metis snd_conv)
  obtain a b cs where cmd: "cmd = a # b # cs" using assms(3) by (cases cmd; cases "tl cmd") auto
  have "tpm_tis_send_cmd cmd resp t = Some (False, resp, length resp, if ok1 then t2 else t1)"
    using True t2(1) by (simp add: tpm_tis_send_cmd_def cmd t0_def [symmetric] w1 w2)
  then show ?thesis using t2(2) t1(3) s0(2) by (cases ok1) auto
qed (simp add: tpm_tis_send_cmd_def)

text \<open>The extend command has 65 bytes, four more than the array it is built in.\<close>

lemma pcr_extend_cmd_overruns: "32 \<le> length digest \<Longrightarrow> length (pcr_extend_cmd i digest) = EXTEND_CMD_SIZE + 4"
  by (simp add: pcr_extend_cmd_def)

section \<open>Witnesses\<close>

text \<open>A chip in the receiving or responding phase that answers every command with a ten-byte success response.\<close>

definition wanswer :: "u8 list \<Rightarrow> u8 list" where
  "wanswer bs = [0x80, 0x01, 0, 0, 0, 0x0A, 0, 0, 0, 0]"

fun wchip_in :: "u32 \<Rightarrow> chip_phase \<Rightarrow> u8 \<times> chip_phase" where
  "wchip_in off (Receiving bs) = (0x48, Receiving bs)"
| "wchip_in off (Responding rs) =
     (if off = TIS_STS then (if rs = [] then 0x80 else 0x90, Responding rs)
      else (case rs of [] \<Rightarrow> (0, Responding []) | r # rs' \<Rightarrow> (r, Responding rs')))"
| "wchip_in off Other = (0, Other)"

fun wchip_out :: "u32 \<Rightarrow> u8 \<Rightarrow> chip_phase \<Rightarrow> chip_phase" where
  "wchip_out off v c =
     (if off = TIS_STS then
        if v = TIS_STS_CMD_READY then Receiving []
        else (case c of Receiving bs \<Rightarrow> Responding (wanswer bs) | _ \<Rightarrow> c)
      else (case c of Receiving bs \<Rightarrow> Receiving (bs @ [v]) | _ \<Rightarrow> c))"

definition wtpm :: "chip_phase tpm" where
  "wtpm = \<lparr>chip = Other, tis_in8 = wchip_in, tis_in32 = (\<lambda>_ c. (0, c)), tis_out8 = wchip_out, tis_log = [], g_tis_virt = 0,
     g_tis_ready = True, pcr = replicate 24 (replicate 32 0), initialized = False, tvmm = wvmm, tstack = replicate 256 0,
     tsha = replicate 128 0\<rparr>"

lemma wtpm_follows: "tis_follows wanswer (\<lambda>c. c) wtpm"
  by (auto simp: tis_follows_def wtpm_def neq_Nil_conv)

lemma wtpm_answers:
  "\<exists>t'. tpm_tis_send_cmd [1, 2, 3] (replicate 12 7) wtpm = Some (True, [0x80, 0x01, 0, 0, 0, 0x0A, 0, 0, 0, 0, 7, 7], 10, t')"
proof -
  have "resp_code [0x80, 0x01, 0, 0, 0, 0x0A, 0, 0, 0, 0, 7, 7] = 0" by code_simp
  then show ?thesis
    using tis_command_answered [OF wtpm_follows, of "[1, 2, 3]" "replicate 12 7"] by (simp add: wanswer_def wtpm_def numeral_eq_Suc)
qed

theorem tis_command_protocol_witness:
  "\<exists>r t'. tpm_tis_send_cmd [1, 2, 3] (replicate 12 7) wtpm = Some (True, r, 10, t') \<and> length r = 12 \<and>
     tis_log t' = [(TIS_STS, 0x40), (TIS_DATA_FIFO, 1), (TIS_DATA_FIFO, 2), (TIS_DATA_FIFO, 3), (TIS_STS, 0x20), (TIS_STS, 0x40)] \<and>
     pcr t' = replicate 24 (replicate 32 0)"
proof -
  obtain r t' where c: "tpm_tis_send_cmd [1, 2, 3] (replicate 12 7) wtpm = Some (True, r, 10, t')" using wtpm_answers by auto
  have "tis_log wtpm = []" "pcr wtpm = replicate 24 (replicate 32 0)" by (simp_all add: wtpm_def)
  then show ?thesis using tis_command_protocol [OF c] c by (simp add: tis_protocol_def)
qed

theorem attestation_without_tpm_witness:
  "tpm2_verify_attestation (wtpm\<lparr>g_tis_ready := False\<rparr>) = Some (False, wtpm\<lparr>g_tis_ready := False\<rparr>)"
  using attestation_without_tpm [of "wtpm\<lparr>g_tis_ready := False\<rparr>"] by (simp add: wtpm_def)

text \<open>A chip with the states of the interface specification: command mode shows command-ready without expect, reception shows expect.\<close>

definition wtis_in :: "u32 \<Rightarrow> chip_phase \<Rightarrow> u8 \<times> chip_phase" where
  "wtis_in off c = (if off = TIS_STS then (case c of Receiving bs \<Rightarrow> (if bs = [] then 0xC0 else 0x88, c) | _ \<Rightarrow> wchip_in off c) else wchip_in off c)"

theorem expect_before_first_byte_witness:
  "\<exists>t'. tpm_tis_send_cmd [0x80, 0x01, 0, 0, 0, 0x0C, 0, 0, 0x01, 0x44, 0, 0] [7, 7] (wtpm\<lparr>tis_in8 := wtis_in\<rparr>) =
     Some (False, [7, 7], 2, t') \<and> (\<forall>b. (TIS_DATA_FIFO, b) \<notin> set (tis_log t'))"
  using expect_before_first_byte [of "\<lambda>c. c = Receiving []" "wtpm\<lparr>tis_in8 := wtis_in\<rparr>"
    "[0x80, 0x01, 0, 0, 0, 0x0C, 0, 0, 0x01, 0x44, 0, 0]" "[7, 7]"] by (simp add: wtis_in_def wtpm_def numeral_2_eq_2)

theorem pcr_measurement_chain_witness:
  "\<exists>t'. extend_all 3 [[1, 2]] (wtpm\<lparr>g_tis_ready := False\<rparr>) = Some t' \<and>
     pcr t' ! 3 = take 32 (sha512_ref (replicate 32 0 @ sha512_ref [1, 2]))"
proof -
  let ?t = "wtpm\<lparr>g_tis_ready := False\<rparr>"
  obtain t' where e: "extend_all 3 [[1, 2]] ?t = Some t'"
    by (simp add: tpm2_pcr_extend_def tpm2_pcr_extend_real_def tpm_tis_send_cmd_def Let_def wtpm_def)
  have "length (tsha ?t) = 128" "unat (3 :: u32) < TPM_PCR_COUNT" "length (pcr ?t) = TPM_PCR_COUNT" "length (pcr ?t ! unat (3 :: u32)) = 32"
      "pcr ?t ! unat (3 :: u32) = replicate 32 0"
    by (simp_all add: wtpm_def)
  then show ?thesis using pcr_measurement_chain [OF e, of 3] e by simp
qed

end
