(* ===== verification/Cpu.thy ===== *)
theory Cpu
  imports Styx_Prelude
begin

unbundle bit_operations_syntax

text \<open>
  The processor tables: segment descriptors (\<^verbatim>\<open>src/kernel/gdt.c\<close>), the task state segment (\<^verbatim>\<open>tss.c\<close>), interrupt gates (\<^verbatim>\<open>idt.c\<close>) and the
  model specific registers of the system call instructions (\<^verbatim>\<open>syscall_init\<close> in \<^verbatim>\<open>syscall.c\<close>).  The addresses of the tables and
  of the assembly entry points are arguments.  What the processor reads out of the tables is defined next to them, so that the
  properties say what the encodings mean to it.
\<close>

section \<open>Segment descriptors\<close>

record gdt_entry =
  limit_low :: u16
  base_low :: u16
  base_mid :: u8
  access :: u8
  granularity :: u8
  base_high :: u8

record gdt_tss_entry =
  tss_length :: u16
  tss_base_low :: u16
  tss_base_mid :: u8
  flags1 :: u8
  flags2 :: u8
  tss_base_high :: u8
  base_upper :: u32
  tss_reserved :: u32

record tss =
  rsp0 :: u64
  rsp12 :: "u64 list"
  ist :: "u64 list"
  iopb_offset :: u16

record idt_entry =
  isr_low :: u16
  kernel_cs :: u16
  ist_index :: u8
  attributes :: u8
  isr_mid :: u16
  isr_high :: u32
  idt_reserved :: u32

record cpu_tables =
  gdt :: "gdt_entry list"
  gdtr :: "u16 \<times> u64"
  tssr :: tss
  task_register :: u16
  idt :: "idt_entry list"
  idtr :: "u16 \<times> u64"
  msr :: "u32 \<Rightarrow> u64"
  cs :: u16
  data_segments :: u16

definition null_entry :: gdt_entry where
  "null_entry = \<lparr>limit_low = 0, base_low = 0, base_mid = 0, access = 0, granularity = 0, base_high = 0\<rparr>"

definition encode_entry :: "nat \<Rightarrow> u8 \<Rightarrow> u8 \<Rightarrow> cpu_tables \<Rightarrow> cpu_tables" where
  "encode_entry idx acc gran s =
     s\<lparr>gdt := (gdt s)[idx := \<lparr>limit_low = 0xFFFF, base_low = 0, base_mid = 0, access = acc, granularity = gran, base_high = 0\<rparr>]\<rparr>"

definition gdt_flush :: "u16 \<times> u64 \<Rightarrow> cpu_tables \<Rightarrow> cpu_tables" where
  "gdt_flush p s = s\<lparr>gdtr := p, data_segments := 0x10, cs := 0x08\<rparr>"

definition gdt_init :: "u64 \<Rightarrow> cpu_tables \<Rightarrow> cpu_tables" where
  "gdt_init gdt_addr s =
     (let s0 = s\<lparr>gdt := (gdt s)[0 := null_entry]\<rparr>;
          s5 = encode_entry 5 0xFA 0xA0 (encode_entry 4 0xF2 0xC0 (encode_entry 3 0xFA 0xC0
                 (encode_entry 2 0x92 0xC0 (encode_entry 1 0x9A 0xA0 s0))));
          s7 = s5\<lparr>gdt := (gdt s5)[6 := null_entry, 7 := null_entry]\<rparr>
      in gdt_flush (63, gdt_addr) s7)"

text \<open>The 16-byte descriptor of the task state segment lies over entries 6 and 7.\<close>

definition tss_entries :: "gdt_tss_entry \<Rightarrow> gdt_entry \<times> gdt_entry" where
  "tss_entries d =
     (\<lparr>limit_low = tss_length d, base_low = tss_base_low d, base_mid = tss_base_mid d, access = flags1 d, granularity = flags2 d,
       base_high = tss_base_high d\<rparr>,
      \<lparr>limit_low = ucast (base_upper d), base_low = ucast (drop_bit 16 (base_upper d)), base_mid = ucast (tss_reserved d),
       access = ucast (drop_bit 8 (tss_reserved d)), granularity = ucast (drop_bit 16 (tss_reserved d)),
       base_high = ucast (drop_bit 24 (tss_reserved d))\<rparr>)"

definition gdt_install_tss :: "u64 \<Rightarrow> u16 \<Rightarrow> cpu_tables \<Rightarrow> cpu_tables" where
  "gdt_install_tss tss_base tss_limit s =
     (let d = \<lparr>tss_length = tss_limit, tss_base_low = ucast (tss_base AND 0xFFFF), tss_base_mid = ucast (drop_bit 16 tss_base AND 0xFF),
               flags1 = 0x89, flags2 = 0x00, tss_base_high = ucast (drop_bit 24 tss_base AND 0xFF),
               base_upper = ucast (drop_bit 32 tss_base AND 0xFFFFFFFF), tss_reserved = 0\<rparr>;
          (e6, e7) = tss_entries d
      in s\<lparr>gdt := (gdt s)[6 := e6, 7 := e7]\<rparr>)"

abbreviation SIZEOF_TSS :: u16 where "SIZEOF_TSS \<equiv> 104"
abbreviation GDT_SEL_TSS :: u16 where "GDT_SEL_TSS \<equiv> 0x30"

definition tss_init :: "u64 \<Rightarrow> cpu_tables \<Rightarrow> cpu_tables" where
  "tss_init tss_addr s =
     (let s1 = s\<lparr>tssr := \<lparr>rsp0 = 0, rsp12 = [0, 0], ist = replicate 7 0, iopb_offset = SIZEOF_TSS\<rparr>\<rparr>
      in (gdt_install_tss tss_addr (SIZEOF_TSS - 1) s1)\<lparr>task_register := GDT_SEL_TSS\<rparr>)"

definition tss_set_kernel_stack :: "u64 \<Rightarrow> cpu_tables \<Rightarrow> cpu_tables" where
  "tss_set_kernel_stack r s = s\<lparr>tssr := (tssr s)\<lparr>rsp0 := r\<rparr>\<rparr>"

section \<open>Interrupt gates\<close>

definition idt_set_gate :: "nat \<Rightarrow> u64 \<Rightarrow> u8 \<Rightarrow> cpu_tables \<Rightarrow> cpu_tables" where
  "idt_set_gate vector addr attrs s =
     s\<lparr>idt := (idt s)[vector := \<lparr>isr_low = ucast (addr AND 0xFFFF), kernel_cs = cs s, ist_index = 0, attributes = attrs,
                                 isr_mid = ucast (drop_bit 16 addr AND 0xFFFF), isr_high = ucast (drop_bit 32 addr AND 0xFFFFFFFF),
                                 idt_reserved = 0\<rparr>]\<rparr>"

definition null_gate :: idt_entry where
  "null_gate = \<lparr>isr_low = 0, kernel_cs = 0, ist_index = 0, attributes = 0, isr_mid = 0, isr_high = 0, idt_reserved = 0\<rparr>"

text \<open>The arguments are the address of the table and the addresses of the assembly stubs; no stub is a null pointer.\<close>

definition idt_init :: "u64 \<Rightarrow> u64 list \<Rightarrow> u64 list \<Rightarrow> cpu_tables \<Rightarrow> cpu_tables" where
  "idt_init idt_addr isr_table irq_table s =
     (let s0 = s\<lparr>idt := fold (\<lambda>i t. t[i := null_gate]) [0..<256] (idt s)\<rparr>;
          s1 = fold (\<lambda>i u. if isr_table ! i \<noteq> 0 then idt_set_gate i (isr_table ! i) 0x8E u else u) [0..<32] s0;
          s2 = fold (\<lambda>i u. if irq_table ! i \<noteq> 0 then idt_set_gate (32 + i) (irq_table ! i) 0x8E u else u) [0..<16] s1
      in s2\<lparr>idtr := (4095, idt_addr)\<rparr>)"

section \<open>System call registers\<close>

abbreviation MSR_EFER :: u32 where "MSR_EFER \<equiv> 0xC0000080"
abbreviation MSR_STAR :: u32 where "MSR_STAR \<equiv> 0xC0000081"
abbreviation MSR_LSTAR :: u32 where "MSR_LSTAR \<equiv> 0xC0000082"
abbreviation MSR_SFMASK :: u32 where "MSR_SFMASK \<equiv> 0xC0000084"

definition wrmsr :: "u32 \<Rightarrow> u64 \<Rightarrow> cpu_tables \<Rightarrow> cpu_tables" where
  "wrmsr r v s = s\<lparr>msr := (msr s)(r := v)\<rparr>"

definition syscall_init :: "u64 \<Rightarrow> cpu_tables \<Rightarrow> cpu_tables" where
  "syscall_init syscall_entry s =
     wrmsr MSR_SFMASK 0x200 (wrmsr MSR_LSTAR syscall_entry
       (wrmsr MSR_STAR (push_bit 48 0x18 OR push_bit 32 0x08) (wrmsr MSR_EFER (msr s MSR_EFER OR 1) s)))"

section \<open>What the processor reads\<close>

definition descriptor :: "u16 \<Rightarrow> cpu_tables \<Rightarrow> gdt_entry" where
  "descriptor sel s = gdt s ! (unat sel div 8)"

definition dpl :: "u8 \<Rightarrow> u8" where
  "dpl acc = drop_bit 5 acc AND 3"

definition code64 :: "gdt_entry \<Rightarrow> u8 \<Rightarrow> bool" where
  "code64 e lvl = (bit (access e) 7 \<and> dpl (access e) = lvl \<and> bit (access e) 4 \<and> bit (access e) 3 \<and>
     bit (granularity e) 5 \<and> \<not> bit (granularity e) 6)"

definition data_segment :: "gdt_entry \<Rightarrow> u8 \<Rightarrow> bool" where
  "data_segment e lvl = (bit (access e) 7 \<and> dpl (access e) = lvl \<and> bit (access e) 4 \<and> \<not> bit (access e) 3 \<and> bit (access e) 1)"

definition tss_base_of :: "cpu_tables \<Rightarrow> u64" where
  "tss_base_of s =
     (let lo = gdt s ! 6; hi = gdt s ! 7 in
      ucast (base_low lo) OR push_bit 16 (ucast (base_mid lo)) OR push_bit 24 (ucast (base_high lo)) OR
      push_bit 32 (ucast (limit_low hi)) OR push_bit 48 (ucast (base_low hi)))"

definition gate_offset :: "idt_entry \<Rightarrow> u64" where
  "gate_offset g = ucast (isr_low g) OR push_bit 16 (ucast (isr_mid g)) OR push_bit 32 (ucast (isr_high g))"

section \<open>Lemmas\<close>

lemma and_low: "a AND 0xFF = take_bit 8 a" "a AND 0xFFFF = take_bit 16 a" "a AND 0xFFFFFFFF = take_bit 32 a" for a :: u64
  by (simp_all add: take_bit_eq_mask mask_eq_exp_minus_1)

lemma gate_offset_encoded:
  "gate_offset \<lparr>isr_low = ucast (a AND 0xFFFF), kernel_cs = c, ist_index = i, attributes = t,
     isr_mid = ucast (drop_bit 16 a AND 0xFFFF), isr_high = ucast (drop_bit 32 a AND 0xFFFFFFFF), idt_reserved = r\<rparr> = a"
  unfolding gate_offset_def and_low
  apply (rule bit_word_eqI)
  subgoal for n
    by (cases "n < 32") (auto simp: bit_or_iff bit_push_bit_iff bit_ucast_iff bit_take_bit_iff bit_drop_bit_eq)
  done

lemma tss_base_encoded:
  assumes "length (gdt s) = 8"
  shows "tss_base_of (gdt_install_tss b l s) = b"
  using assms unfolding tss_base_of_def gdt_install_tss_def tss_entries_def Let_def and_low
  apply (intro bit_word_eqI)
  subgoal for n
    by (cases "n < 24"; cases "n < 32"; cases "n < 48")
      (auto simp: bit_or_iff bit_push_bit_iff bit_ucast_iff bit_take_bit_iff bit_drop_bit_eq)
  done

lemma fold_null_gates: "length t = 256 \<Longrightarrow> fold (\<lambda>i t. t[i := null_gate]) [0..<256] t = replicate 256 null_gate"
  using fold_fill [of 0 256 t null_gate] by simp

definition gate :: "u64 \<Rightarrow> u16 \<Rightarrow> idt_entry" where
  "gate addr c = \<lparr>isr_low = ucast (addr AND 0xFFFF), kernel_cs = c, ist_index = 0, attributes = 0x8E,
     isr_mid = ucast (drop_bit 16 addr AND 0xFFFF), isr_high = ucast (drop_bit 32 addr AND 0xFFFFFFFF), idt_reserved = 0\<rparr>"

lemma set_gates:
  assumes "\<forall>i < n. tab ! i \<noteq> 0" "k + n \<le> length (idt s)"
  shows "cs (fold (\<lambda>i u. if tab ! i \<noteq> 0 then idt_set_gate (k + i) (tab ! i) 0x8E u else u) [0..<n] s) = cs s \<and>
    length (idt (fold (\<lambda>i u. if tab ! i \<noteq> 0 then idt_set_gate (k + i) (tab ! i) 0x8E u else u) [0..<n] s)) = length (idt s) \<and>
    (\<forall>v. idt (fold (\<lambda>i u. if tab ! i \<noteq> 0 then idt_set_gate (k + i) (tab ! i) 0x8E u else u) [0..<n] s) ! v =
      (if k \<le> v \<and> v < k + n then gate (tab ! (v - k)) (cs s) else idt s ! v))"
  using assms
proof (induction n)
  case (Suc n)
  let ?f = "fold (\<lambda>i u. if tab ! i \<noteq> 0 then idt_set_gate (k + i) (tab ! i) 0x8E u else u) [0..<n] s"
  have IH: "cs ?f = cs s" "length (idt ?f) = length (idt s)"
      "\<And>v. idt ?f ! v = (if k \<le> v \<and> v < k + n then gate (tab ! (v - k)) (cs s) else idt s ! v)"
    using Suc by simp_all
  have "tab ! n \<noteq> 0" using Suc.prems(1) by simp
  then have e: "fold (\<lambda>i u. if tab ! i \<noteq> 0 then idt_set_gate (k + i) (tab ! i) 0x8E u else u) [0..<Suc n] s =
      idt_set_gate (k + n) (tab ! n) 0x8E ?f" by simp
  show ?case
    unfolding e using IH(1,2) Suc.prems(2) by (auto simp: idt_set_gate_def IH(3) gate_def nth_list_update less_Suc_eq)
qed auto

definition wtables :: cpu_tables where
  "wtables = \<lparr>gdt = replicate 8 null_entry, gdtr = (0, 0), tssr = \<lparr>rsp0 = 0, rsp12 = [0, 0], ist = replicate 7 0, iopb_offset = 0\<rparr>,
     task_register = 0, idt = replicate 256 null_gate, idtr = (0, 0), msr = \<lambda>_. 0, cs = 8, data_segments = 0x10\<rparr>"

section \<open>Properties\<close>

text \<open>After the interrupt table is set up, every exception vector 0 to 31 and every hardware vector 32 to 47 leads the processor to
  its own stub in the kernel code segment, through a present interrupt gate that user code cannot call, and every other
  vector is not present.\<close>

theorem idt_vectors:
  assumes "length (idt s) = 256" "\<forall>i < 32. isr_table ! i \<noteq> 0" "\<forall>i < 16. irq_table ! i \<noteq> 0" "v < 256"
  shows "(let g = idt (idt_init idt_addr isr_table irq_table s) ! v in
    if v < 48 then gate_offset g = (if v < 32 then isr_table ! v else irq_table ! (v - 32)) \<and> kernel_cs g = cs s \<and>
      bit (attributes g) 7 \<and> dpl (attributes g) = 0 \<and> attributes g AND 0x0F = 0x0E
    else \<not> bit (attributes g) 7)"
proof -
  define s0 where "s0 = s\<lparr>idt := replicate 256 null_gate\<rparr>"
  define s1 where "s1 = fold (\<lambda>i u. if isr_table ! i \<noteq> 0 then idt_set_gate (0 + i) (isr_table ! i) 0x8E u else u) [0..<32] s0"
  define s2 where "s2 = fold (\<lambda>i u. if irq_table ! i \<noteq> 0 then idt_set_gate (32 + i) (irq_table ! i) 0x8E u else u) [0..<16] s1"
  have i: "idt (idt_init idt_addr isr_table irq_table s) = idt s2"
    unfolding idt_init_def Let_def fold_null_gates [OF assms(1)] s0_def [symmetric] s2_def s1_def add_0 by simp
  have 1: "cs s1 = cs s" "length (idt s1) = 256" "\<And>v. idt s1 ! v = (if v < 32 then gate (isr_table ! v) (cs s) else idt s0 ! v)"
    using set_gates [OF assms(2), of 0 s0] unfolding s1_def [symmetric] by (simp_all add: s0_def)
  have 2: "idt s2 ! v = (if 32 \<le> v \<and> v < 48 then gate (irq_table ! (v - 32)) (cs s) else idt s1 ! v)" for v
    using set_gates [OF assms(3), of 32 s1] 1(1,2) unfolding s2_def [symmetric] by simp
  have g: "gate_offset (gate a c) = a" "kernel_cs (gate a c) = c" "attributes (gate a c) = 0x8E" for a c
    unfolding gate_def by (simp_all add: gate_offset_encoded)
  have b: "bit (0x8E :: u8) 7" "dpl 0x8E = 0" "(0x8E :: u8) AND 0x0F = 0x0E" by (simp_all add: dpl_def)
  show ?thesis
    unfolding i Let_def 2 1(3) using g b assms(4) by (auto simp: s0_def null_gate_def)
qed

theorem idt_vectors_witness:
  "(let g = idt (idt_init 0xFFFFFFFF80010000 (replicate 32 0xFFFFFFFF80001000) (replicate 16 0xFFFFFFFF80002000) wtables) ! 33 in
    gate_offset g = 0xFFFFFFFF80002000 \<and> kernel_cs g = 8 \<and> bit (attributes g) 7 \<and> dpl (attributes g) = 0 \<and> attributes g AND 0x0F = 0x0E)"
  using idt_vectors [of wtables "replicate 32 0xFFFFFFFF80001000" "replicate 16 0xFFFFFFFF80002000" 33 "0xFFFFFFFF80010000"]
  by (simp add: wtables_def Let_def)

text \<open>The segment tables and the system call registers fit together: entering the kernel loads a present 64-bit ring-0 code
  segment and a ring-0 data segment, returning to user mode loads a 64-bit ring-3 code segment and a ring-3 data segment,
  interrupts are masked on entry, and the task register names a descriptor whose base is the task state segment and whose
  limit leaves no room for an I/O permission map, so that user code has no port access.\<close>

theorem segments_consistent:
  assumes "length (gdt s) = 8" "s' = syscall_init entry (tss_init tss_addr (gdt_init gdt_addr s))"
  shows "code64 (descriptor (ucast (drop_bit 32 (msr s' MSR_STAR))) s') 0 \<and> data_segment (descriptor (ucast (drop_bit 32 (msr s' MSR_STAR)) + 8) s') 0 \<and>
    code64 (descriptor (ucast (drop_bit 48 (msr s' MSR_STAR)) + 16) s') 3 \<and> data_segment (descriptor (ucast (drop_bit 48 (msr s' MSR_STAR)) + 8) s') 3 \<and>
    msr s' MSR_LSTAR = entry \<and> bit (msr s' MSR_EFER) 0 \<and> bit (msr s' MSR_SFMASK) 9 \<and>
    tss_base_of s' = tss_addr \<and> access (descriptor (task_register s') s') = 0x89 \<and>
    limit_low (descriptor (task_register s') s') < iopb_offset (tssr s')"
proof -
  define g where "g = gdt_init gdt_addr s"
  define t where "t = tss_init tss_addr g"
  have gl: "length (gdt g) = 8" using assms(1) by (simp add: g_def gdt_init_def gdt_flush_def encode_entry_def Let_def)
  have star: "msr s' MSR_STAR = push_bit 48 0x18 OR push_bit 32 0x08" "gdt s' = gdt t" "tssr s' = tssr t" "task_register s' = task_register t"
    by (simp_all add: assms(2) t_def g_def syscall_init_def wrmsr_def)
  have sel: "ucast (drop_bit 32 (push_bit 48 0x18 OR push_bit 32 0x08 :: u64)) = (0x08 :: u16)"
      "ucast (drop_bit 48 (push_bit 48 0x18 OR push_bit 32 0x08 :: u64)) = (0x18 :: u16)" by simp_all
  have tb: "tss_base_of t = tss_addr"
    using tss_base_encoded [of "g\<lparr>tssr := _\<rparr>" tss_addr "SIZEOF_TSS - 1"] gl
    by (simp add: t_def tss_init_def Let_def tss_base_of_def)
  have e: "gdt t ! 1 = \<lparr>limit_low = 0xFFFF, base_low = 0, base_mid = 0, access = 0x9A, granularity = 0xA0, base_high = 0\<rparr>"
      "gdt t ! 2 = \<lparr>limit_low = 0xFFFF, base_low = 0, base_mid = 0, access = 0x92, granularity = 0xC0, base_high = 0\<rparr>"
      "gdt t ! 4 = \<lparr>limit_low = 0xFFFF, base_low = 0, base_mid = 0, access = 0xF2, granularity = 0xC0, base_high = 0\<rparr>"
      "gdt t ! 5 = \<lparr>limit_low = 0xFFFF, base_low = 0, base_mid = 0, access = 0xFA, granularity = 0xA0, base_high = 0\<rparr>"
      "access (gdt t ! 6) = 0x89" "limit_low (gdt t ! 6) = 103"
    using assms(1) gl by (simp_all add: t_def tss_init_def gdt_install_tss_def tss_entries_def Let_def prod.case_eq_if)
      (simp_all add: g_def gdt_init_def gdt_flush_def encode_entry_def Let_def)
  have "tssr t = \<lparr>rsp0 = 0, rsp12 = [0, 0], ist = replicate 7 0, iopb_offset = SIZEOF_TSS\<rparr>" "task_register t = 0x30"
    by (simp_all add: t_def tss_init_def gdt_install_tss_def Let_def prod.case_eq_if)
  moreover have "msr s' MSR_LSTAR = entry" "bit (msr s' MSR_EFER) 0" "bit (msr s' MSR_SFMASK) 9"
    by (simp_all add: assms(2) syscall_init_def wrmsr_def bit_or_iff)
  ultimately show ?thesis
    using tb e by (simp add: star sel descriptor_def code64_def data_segment_def dpl_def tss_base_of_def)
qed

theorem segments_consistent_witness:
  "tss_base_of (syscall_init 0xFFFFFFFF80003000 (tss_init 0xFFFFFFFF80004000 (gdt_init 0xFFFFFFFF80005000 wtables))) = 0xFFFFFFFF80004000"
  using segments_consistent [of wtables _ "0xFFFFFFFF80003000" "0xFFFFFFFF80004000" "0xFFFFFFFF80005000", OF _ refl]
  by (simp add: wtables_def)

end
