(* ===== verification/Xhci_Ring.thy ===== *)
theory Xhci_Ring
  imports Styx_Prelude
begin

unbundle bit_operations_syntax

text \<open>
  The rings that the USB host controller shares with its driver (\<^verbatim>\<open>src/kernel/xhci_trb.h\<close>, \<^verbatim>\<open>xhci.c\<close>): the rings the driver fills,
  which end in a link block, and the ring of events the controller fills.  Both are shown to be queues for every interleaving of the two
  sides, through the interface \<open>dma_queue\<close>; how the controller reads and writes its side is what the comments of \<^verbatim>\<open>xhci_trb.h\<close> say.
\<close>

abbreviation XHCI_RING_SIZE :: nat where "XHCI_RING_SIZE \<equiv> 64"
abbreviation XHCI_EVENT_RING_SIZE :: nat where "XHCI_EVENT_RING_SIZE \<equiv> 64"
abbreviation TRB_TYPE_LINK :: u32 where "TRB_TYPE_LINK \<equiv> 6"
abbreviation TRB_LINK_FLAG_TC :: u32 where "TRB_LINK_FLAG_TC \<equiv> 2"

section \<open>Rings\<close>

record xhci_trb =
  dword0 :: u32
  dword1 :: u32
  dword2 :: u32
  dword3 :: u32

record xhci_ring =
  trbs :: "xhci_trb list"
  enqueue :: nat
  pcs :: u8

definition TRB_DWORD3 :: "u32 \<Rightarrow> u32 \<Rightarrow> u32" where
  "TRB_DWORD3 type cycle = push_bit 10 type OR (cycle AND 1)"

definition lo32 :: "u64 \<Rightarrow> u32" where "lo32 p = ucast (p AND 0xFFFFFFFF)"

definition hi32 :: "u64 \<Rightarrow> u32" where "hi32 p = ucast (drop_bit 32 p)"

definition zero_trb :: xhci_trb where
  "zero_trb = \<lparr>dword0 = 0, dword1 = 0, dword2 = 0, dword3 = 0\<rparr>"

definition xhci_ring_init :: "u64 \<Rightarrow> xhci_ring" where
  "xhci_ring_init phys_base =
     \<lparr>trbs = (replicate XHCI_RING_SIZE zero_trb)
        [XHCI_RING_SIZE - 1 := \<lparr>dword0 = lo32 phys_base, dword1 = hi32 phys_base, dword2 = 0,
                               dword3 = TRB_DWORD3 TRB_TYPE_LINK 1 OR TRB_LINK_FLAG_TC\<rparr>],
      enqueue = 0, pcs = 1\<rparr>"

definition ring_enqueue :: "u32 \<Rightarrow> u32 \<Rightarrow> u32 \<Rightarrow> u32 \<Rightarrow> xhci_ring \<Rightarrow> xhci_ring" where
  "ring_enqueue d0 d1 d2 d3_nocy r =
     (let idx = enqueue r;
          t = (trbs r)[idx := \<lparr>dword0 = d0, dword1 = d1, dword2 = d2, dword3 = d3_nocy OR ucast (pcs r)\<rparr>];
          link = XHCI_RING_SIZE - 1
      in if idx + 1 \<ge> XHCI_RING_SIZE - 1 then
           r\<lparr>trbs := t[link := (t ! link)\<lparr>dword3 := TRB_DWORD3 TRB_TYPE_LINK (ucast (pcs r)) OR TRB_LINK_FLAG_TC\<rparr>],
             enqueue := 0, pcs := pcs r XOR 1\<rparr>
         else r\<lparr>trbs := t, enqueue := idx + 1\<rparr>)"

section \<open>Taking an event\<close>

definition next_event :: "xhci_trb list \<Rightarrow> nat \<times> u8 \<Rightarrow> xhci_trb option \<times> nat \<times> u8" where
  "next_event evts = (\<lambda>(deq, ccs).
     if dword3 (evts ! deq) AND 1 \<noteq> ucast ccs then (None, deq, ccs)
     else (Some (evts ! deq), if deq + 1 \<ge> XHCI_EVENT_RING_SIZE then (0, ccs XOR 1) else (deq + 1, ccs)))"

section \<open>Rings with cycle bits\<close>

text \<open>
  A ring of \<open>N\<close> cells: \<open>cy\<close> is the cycle bit of a cell and \<open>vl\<close> its contents.  The producer writes cell \<open>e\<close> next, with cycle
  bit \<open>P\<close>; the consumer looks at cell \<open>i\<close> and takes it when the cycle bit is \<open>c\<close>.  Both flip their bit at the end of the ring.
\<close>

definition cyc_holds :: "nat \<Rightarrow> (nat \<Rightarrow> bool) \<Rightarrow> (nat \<Rightarrow> 'd) \<Rightarrow> nat \<Rightarrow> bool \<Rightarrow> nat \<Rightarrow> bool \<Rightarrow> 'd list \<Rightarrow> bool" where
  "cyc_holds N cy vl e P i c q =
     (e < N \<and> i < N \<and> (\<forall>j < N. cy j = ((j < e) = P)) \<and>
      (if c = P then i \<le> e \<and> q = map vl [i..<e] else e \<le> i \<and> q = map vl ([i..<N] @ [0..<e])))"

lemma cyc_init: "0 < N \<Longrightarrow> \<forall>j < N. \<not> cy j \<Longrightarrow> cyc_holds N cy vl 0 True 0 True []"
  by (simp add: cyc_holds_def)

lemma cyc_put:
  assumes h: "cyc_holds N cy vl e P i c q" "length q < N" and new: "\<forall>j < N. cy' j = (if j = e then P else cy j)"
    "\<forall>j < N. j \<noteq> e \<longrightarrow> vl' j = vl j" "vl' e = d"
  shows "cyc_holds N cy' vl' (if e + 1 = N then 0 else e + 1) (if e + 1 = N then \<not> P else P) i c (q @ [d])"
proof (cases "c = P")
  case True
  then have b: "e < N" "i \<le> e" "q = map vl [i..<e]" using h(1) by (auto simp: cyc_holds_def)
  then have "map vl' [i..<Suc e] = q @ [d]" using new by simp
  then show ?thesis using h(1) b new True by (auto simp: cyc_holds_def less_Suc_eq)
next
  case False
  then have b: "e \<le> i" "i < N" "q = map vl ([i..<N] @ [0..<e])" using h(1) by (auto simp: cyc_holds_def)
  then have lt: "e < i" using h(2) by simp
  then have "map vl' ([i..<N] @ [0..<Suc e]) = q @ [d]" using b new by simp
  then show ?thesis using h(1) b lt new False by (auto simp: cyc_holds_def less_Suc_eq)
qed

lemma cyc_empty: "cyc_holds N cy vl e P i c [] \<Longrightarrow> cy i \<noteq> c"
  by (auto simp: cyc_holds_def split: if_splits)

lemma cyc_get:
  assumes h: "cyc_holds N cy vl e P i c (d # q)"
  shows "cy i = c" "vl i = d" "cyc_holds N cy vl e P (if i + 1 = N then 0 else i + 1) (if i + 1 = N then \<not> c else c) q"
proof -
  consider "c = P" "i < e" | "c \<noteq> P" "e \<le> i" using h by (cases "i < e") (auto simp: cyc_holds_def split: if_splits)
  then show "cy i = c" "vl i = d" "cyc_holds N cy vl e P (if i + 1 = N then 0 else i + 1) (if i + 1 = N then \<not> c else c) q"
    using h by (cases; auto simp: cyc_holds_def upt_conv_Cons split: if_splits)+
qed

section \<open>Queues through shared memory\<close>

locale dma_queue =
  fixes put :: "'d \<Rightarrow> 'r \<Rightarrow> 'r"
    and get :: "'r \<Rightarrow> 'c \<Rightarrow> 'd option \<times> 'c"
    and holds :: "'r \<Rightarrow> 'c \<Rightarrow> 'd list \<Rightarrow> bool"
    and valid :: "'d \<Rightarrow> bool"
    and cap :: nat
  assumes put_holds: "holds r c q \<Longrightarrow> valid d \<Longrightarrow> length q < cap \<Longrightarrow> holds (put d r) c (q @ [d])"
    and get_empty: "holds r c [] \<Longrightarrow> fst (get r c) = None \<and> holds r (snd (get r c)) []"
    and get_next: "holds r c (d # q) \<Longrightarrow> fst (get r c) = Some d \<and> holds r (snd (get r c)) q"

text \<open>\<open>Some d\<close> puts \<open>d\<close>, \<open>None\<close> gets; the result lists what was got.\<close>

fun run_ops :: "('d \<Rightarrow> 'r \<Rightarrow> 'r) \<Rightarrow> ('r \<Rightarrow> 'c \<Rightarrow> 'd option \<times> 'c) \<Rightarrow> 'd option list \<Rightarrow> 'r \<Rightarrow> 'c \<Rightarrow> 'd option list" where
  "run_ops put get [] r c = []"
| "run_ops put get (Some d # ops) r c = run_ops put get ops (put d r) c"
| "run_ops put get (None # ops) r c = fst (get r c) # run_ops put get ops r (snd (get r c))"

fun queue_run :: "'d option list \<Rightarrow> 'd list \<Rightarrow> 'd option list" where
  "queue_run [] q = []"
| "queue_run (Some d # ops) q = queue_run ops (q @ [d])"
| "queue_run (None # ops) [] = None # queue_run ops []"
| "queue_run (None # ops) (d # q) = Some d # queue_run ops q"

fun queue_fits :: "nat \<Rightarrow> 'd option list \<Rightarrow> nat \<Rightarrow> bool" where
  "queue_fits cap [] n = True"
| "queue_fits cap (Some d # ops) n = (n < cap \<and> queue_fits cap ops (n + 1))"
| "queue_fits cap (None # ops) n = queue_fits cap ops (n - 1)"

context dma_queue
begin

lemma run_is_queue:
  "holds r c q \<Longrightarrow> queue_fits cap ops (length q) \<Longrightarrow> (\<And>d. Some d \<in> set ops \<Longrightarrow> valid d) \<Longrightarrow> run_ops put get ops r c = queue_run ops q"
proof (induction ops q arbitrary: r c rule: queue_run.induct)
  case (2 d ops q)
  then show ?case using put_holds [of r c q d] by simp
next
  case (3 ops)
  then show ?case using get_empty [of r c] by simp
next
  case (4 ops d q)
  then show ?case using get_next [of r c d q] by simp
qed simp

end

section \<open>Transfer rings as the controller reads them\<close>

type_synonym command = "u32 \<times> u32 \<times> u32 \<times> u32"

definition trb_cycle :: "xhci_trb \<Rightarrow> bool" where
  "trb_cycle t = bit (dword3 t) 0"

definition trb_type :: "u32 \<Rightarrow> u32" where
  "trb_type d3 = drop_bit 10 d3 AND 0x3F"

definition trb_command :: "xhci_trb \<Rightarrow> command" where
  "trb_command t = (dword0 t, dword1 t, dword2 t, dword3 t AND NOT 1)"

definition command_ok :: "command \<Rightarrow> bool" where
  "command_ok d = (case d of (d0, d1, d2, d3) \<Rightarrow> \<not> bit d3 0 \<and> trb_type d3 \<noteq> TRB_TYPE_LINK)"

definition put_command :: "command \<Rightarrow> xhci_ring \<Rightarrow> xhci_ring" where
  "put_command d r = (case d of (d0, d1, d2, d3) \<Rightarrow> ring_enqueue d0 d1 d2 d3 r)"

text \<open>The controller owns a block when the cycle bit equals its own; a link block takes it back to the start of the ring.\<close>

definition hc_fetch :: "xhci_ring \<Rightarrow> nat \<times> bool \<Rightarrow> command option \<times> nat \<times> bool" where
  "hc_fetch r = (\<lambda>(i, c).
     let t = trbs r ! i;
         (i1, c1) = (if trb_cycle t = c \<and> trb_type (dword3 t) = TRB_TYPE_LINK
                     then (0, if dword3 t AND TRB_LINK_FLAG_TC \<noteq> 0 then \<not> c else c) else (i, c));
         t1 = trbs r ! i1
     in if trb_cycle t1 = c1 \<and> trb_type (dword3 t1) \<noteq> TRB_TYPE_LINK then (Some (trb_command t1), i1 + 1, c1) else (None, i1, c1))"

definition ring_holds :: "xhci_ring \<Rightarrow> nat \<times> bool \<Rightarrow> command list \<Rightarrow> bool" where
  "ring_holds r pos q = (case pos of (i, c) \<Rightarrow> \<exists>P.
     pcs r = of_bool P \<and> length (trbs r) = XHCI_RING_SIZE \<and>
     cyc_holds 63 (\<lambda>j. trb_cycle (trbs r ! j)) (\<lambda>j. trb_command (trbs r ! j)) (enqueue r) P
       (if i = 63 then 0 else i) (if i = 63 then \<not> c else c) q \<and>
     (\<forall>j < 63. trb_type (dword3 (trbs r ! j)) \<noteq> TRB_TYPE_LINK) \<and>
     trb_type (dword3 (trbs r ! 63)) = TRB_TYPE_LINK \<and> dword3 (trbs r ! 63) AND TRB_LINK_FLAG_TC \<noteq> 0 \<and>
     (i = 63 \<longrightarrow> c \<noteq> P) \<and> (c \<noteq> P \<longrightarrow> trb_cycle (trbs r ! 63) = c))"

lemma cycle_bit:
  fixes d :: u32
  assumes "\<not> bit d 0"
  shows "bit (d OR of_bool P) 0 = P" "(d OR of_bool P) AND - 2 = d" "trb_type (d OR of_bool P) = trb_type d"
proof -
  show "bit (d OR of_bool P) 0 = P" using assms by (cases P) (auto simp: bit_or_iff)
  have "(d OR of_bool P) AND NOT 1 = d"
    using assms by (cases P) (auto intro!: bit_word_eqI gr0I simp: bit_and_iff bit_or_iff bit_not_iff bit_1_iff)
  then show "(d OR of_bool P) AND - 2 = d" by simp
  show "trb_type (d OR of_bool P) = trb_type d"
    by (cases P) (auto intro!: bit_word_eqI simp: trb_type_def bit_and_iff bit_or_iff bit_drop_bit_eq bit_1_iff)
qed

lemmas cycle_bits = cycle_bit cycle_bit [of _ True, unfolded of_bool_eq] cycle_bit [of _ False, unfolded of_bool_eq]

lemma link_dword3:
  "trb_type (TRB_DWORD3 TRB_TYPE_LINK (of_bool P) OR TRB_LINK_FLAG_TC) = TRB_TYPE_LINK"
  "(TRB_DWORD3 TRB_TYPE_LINK (of_bool P) OR TRB_LINK_FLAG_TC) AND TRB_LINK_FLAG_TC \<noteq> 0"
  "bit (TRB_DWORD3 TRB_TYPE_LINK (of_bool P) OR TRB_LINK_FLAG_TC) 0 = P"
  by (cases P; simp add: TRB_DWORD3_def trb_type_def)+

lemma ring_init_holds: "ring_holds (xhci_ring_init p) (0, True) []"
  unfolding ring_holds_def using link_dword3 [of True]
  by (auto intro!: exI [of _ True] cyc_init
    simp: xhci_ring_init_def zero_trb_def trb_cycle_def trb_type_def nth_list_update)

lemma put_command_holds:
  assumes h: "ring_holds r pos q" "command_ok d" "length q < 62"
  shows "ring_holds (put_command d r) pos (q @ [d])"
proof -
  obtain i c where pos: "pos = (i, c)" by force
  obtain d0 d1 d2 d3 where d: "d = (d0, d1, d2, d3)" by (metis prod_cases4)
  have ok: "\<not> bit d3 0" "trb_type d3 \<noteq> TRB_TYPE_LINK" using h(2) by (simp_all add: d command_ok_def)
  obtain P where P: "pcs r = of_bool P" "length (trbs r) = 64"
      "cyc_holds 63 (\<lambda>j. trb_cycle (trbs r ! j)) (\<lambda>j. trb_command (trbs r ! j)) (enqueue r) P
        (if i = 63 then 0 else i) (if i = 63 then \<not> c else c) q"
      "\<forall>j < 63. trb_type (dword3 (trbs r ! j)) \<noteq> TRB_TYPE_LINK" "trb_type (dword3 (trbs r ! 63)) = TRB_TYPE_LINK"
      "dword3 (trbs r ! 63) AND TRB_LINK_FLAG_TC \<noteq> 0" "i = 63 \<longrightarrow> c \<noteq> P" "c \<noteq> P \<longrightarrow> trb_cycle (trbs r ! 63) = c"
    using h(1) unfolding ring_holds_def pos by auto
  have e: "enqueue r < 63" using P(3) by (simp add: cyc_holds_def)
  have u: "ucast (of_bool P :: u8) = (of_bool P :: u32)" "(of_bool P :: u8) XOR 1 = of_bool (\<not> P)" by (cases P; simp)+
  define t where "t = (trbs r)[enqueue r := \<lparr>dword0 = d0, dword1 = d1, dword2 = d2, dword3 = d3 OR of_bool P\<rparr>]"
  define t' where "t' = t[63 := (t ! 63)\<lparr>dword3 := TRB_DWORD3 TRB_TYPE_LINK (of_bool P) OR TRB_LINK_FLAG_TC\<rparr>]"
  have put: "put_command d r = (if enqueue r + 1 = 63 then r\<lparr>trbs := t', enqueue := 0, pcs := of_bool (\<not> P)\<rparr>
      else r\<lparr>trbs := t, enqueue := enqueue r + 1\<rparr>)"
    using e by (simp add: put_command_def d ring_enqueue_def Let_def P(1) u t_def t'_def)
  have tn: "t ! j = (if j = enqueue r then \<lparr>dword0 = d0, dword1 = d1, dword2 = d2, dword3 = d3 OR of_bool P\<rparr> else trbs r ! j)" if "j < 64" for j
    using that e P(2) by (simp add: t_def nth_list_update)
  have tn': "t' ! j = (if j = 63 then (t ! 63)\<lparr>dword3 := TRB_DWORD3 TRB_TYPE_LINK (of_bool P) OR TRB_LINK_FLAG_TC\<rparr> else t ! j)" if "j < 64" for j
    using that P(2) by (simp add: t'_def t_def nth_list_update)
  have len: "length t = 64" "length t' = 64" using P(2) by (simp_all add: t_def t'_def)
  have put_cells: "cyc_holds 63 (\<lambda>j. trb_cycle (T ! j)) (\<lambda>j. trb_command (T ! j)) (if enqueue r + 1 = 63 then 0 else enqueue r + 1)
      (if enqueue r + 1 = 63 then \<not> P else P) (if i = 63 then 0 else i) (if i = 63 then \<not> c else c) (q @ [d])"
    if T: "T = t \<or> T = t'" for T
    using h(3) T e by (intro cyc_put [OF P(3)]) (auto simp: tn tn' trb_cycle_def trb_command_def cycle_bits [OF ok(1)] d)
  have no_link: "\<forall>j < 63. trb_type (dword3 (T ! j)) \<noteq> TRB_TYPE_LINK" if T: "T = t \<or> T = t'" for T
    using T P(4) ok(2) by (auto simp: tn tn' cycle_bits [OF ok(1)] split: if_splits)
  show ?thesis
  proof (cases "enqueue r + 1 = 63")
    case True
    have "c = P"
    proof (rule ccontr)
      assume "c \<noteq> P"
      then show False using P(3) h(3) True by (cases "i = 63") (auto simp: cyc_holds_def split: if_splits)
    qed
    then have "i \<noteq> 63" using P(7) by simp
    then show ?thesis using put_cells [of t'] no_link [of t'] True \<open>c = P\<close> len link_dword3 [of P]
      unfolding ring_holds_def pos put by (auto intro!: exI [of _ "\<not> P"] simp: tn' trb_cycle_def)
  next
    case False
    then show ?thesis using put_cells [of t] no_link [of t] len e P(1) P(5-8)
      unfolding ring_holds_def pos put by (auto intro!: exI [of _ P] simp: tn)
  qed
qed

lemma fetch_holds:
  assumes h: "ring_holds r pos q"
  shows "fst (hc_fetch r pos) = (case q of [] \<Rightarrow> None | d # _ \<Rightarrow> Some d) \<and> ring_holds r (snd (hc_fetch r pos)) (tl q)"
proof -
  obtain i c where pos: "pos = (i, c)" by force
  obtain P where P: "pcs r = of_bool P" "length (trbs r) = 64"
      "cyc_holds 63 (\<lambda>j. trb_cycle (trbs r ! j)) (\<lambda>j. trb_command (trbs r ! j)) (enqueue r) P
        (if i = 63 then 0 else i) (if i = 63 then \<not> c else c) q"
      "\<forall>j < 63. trb_type (dword3 (trbs r ! j)) \<noteq> TRB_TYPE_LINK" "trb_type (dword3 (trbs r ! 63)) = TRB_TYPE_LINK"
      "dword3 (trbs r ! 63) AND TRB_LINK_FLAG_TC \<noteq> 0" "i = 63 \<longrightarrow> c \<noteq> P" "c \<noteq> P \<longrightarrow> trb_cycle (trbs r ! 63) = c"
    using h unfolding ring_holds_def pos by auto
  define i1 c1 where "i1 = (if i = 63 then 0 else i)" and "c1 = (if i = 63 then \<not> c else c)"
  have C: "cyc_holds 63 (\<lambda>j. trb_cycle (trbs r ! j)) (\<lambda>j. trb_command (trbs r ! j)) (enqueue r) P i1 c1 q"
    using P(3) by (simp add: i1_def c1_def)
  then have i1: "i1 < 63" by (simp add: cyc_holds_def)
  have f: "hc_fetch r pos = (if trb_cycle (trbs r ! i1) = c1 then (Some (trb_command (trbs r ! i1)), i1 + 1, c1) else (None, i1, c1))"
    using i1 P(4-8) by (auto simp: hc_fetch_def pos i1_def c1_def Let_def split: if_splits)
  have prev: "c1 \<noteq> P \<longrightarrow> trb_cycle (trbs r ! 63) = c1" using P(7,8) by (auto simp: c1_def)
  show ?thesis
  proof (cases q)
    case Nil
    then have "trb_cycle (trbs r ! i1) \<noteq> c1" using cyc_empty C by metis
    then show ?thesis using Nil C i1 P prev f unfolding ring_holds_def by auto
  next
    case (Cons d q')
    note G = cyc_get [OF C [unfolded Cons]]
    have "c1 \<noteq> P" if "i1 + 1 = 63"
    proof
      assume "c1 = P"
      then show False using C that Cons by (auto simp: cyc_holds_def)
    qed
    then show ?thesis using Cons G i1 P prev f unfolding ring_holds_def by auto
  qed
qed

interpretation cmdq: dma_queue put_command hc_fetch ring_holds command_ok 62
  by unfold_locales (use put_command_holds fetch_holds in \<open>fastforce split: list.splits\<close>)+

section \<open>The event ring as the controller writes it\<close>

definition put_event :: "command \<Rightarrow> xhci_trb list \<times> nat \<times> bool \<Rightarrow> xhci_trb list \<times> nat \<times> bool" where
  "put_event d = (\<lambda>(evts, p, P). case d of (d0, d1, d2, d3) \<Rightarrow>
     (evts[p := \<lparr>dword0 = d0, dword1 = d1, dword2 = d2, dword3 = d3 OR of_bool P\<rparr>],
      if p + 1 = XHCI_EVENT_RING_SIZE then (0, \<not> P) else (p + 1, P)))"

definition take_event :: "xhci_trb list \<times> nat \<times> bool \<Rightarrow> nat \<times> u8 \<Rightarrow> command option \<times> nat \<times> u8" where
  "take_event r pos = (case next_event (fst r) pos of (e, pos') \<Rightarrow> (map_option trb_command e, pos'))"

definition events_hold :: "xhci_trb list \<times> nat \<times> bool \<Rightarrow> nat \<times> u8 \<Rightarrow> command list \<Rightarrow> bool" where
  "events_hold r pos q = (case (r, pos) of ((evts, p, P), (deq, ccs)) \<Rightarrow> \<exists>c. ccs = of_bool c \<and> XHCI_EVENT_RING_SIZE \<le> length evts \<and>
     cyc_holds XHCI_EVENT_RING_SIZE (\<lambda>j. trb_cycle (evts ! j)) (\<lambda>j. trb_command (evts ! j)) p P deq c q)"

lemma and_1_of_bool: "w AND 1 = of_bool (bit w 0)" for w :: "'a::len word"
  by (auto intro!: bit_word_eqI simp: bit_and_iff bit_1_iff)

lemma events_init_hold: "events_hold (replicate 256 zero_trb, 0, True) (0, 1) []"
  unfolding events_hold_def by (auto intro!: exI [of _ True] cyc_init simp: zero_trb_def trb_cycle_def)

lemma next_event_eq:
  "next_event evts (deq, of_bool c) =
     (if trb_cycle (evts ! deq) = c
      then (Some (evts ! deq), if deq + 1 \<ge> XHCI_EVENT_RING_SIZE then (0, of_bool (\<not> c)) else (deq + 1, of_bool c))
      else (None, deq, of_bool c))"
  unfolding next_event_def prod.case and_1_of_bool trb_cycle_def by (cases c; cases "bit (dword3 (evts ! deq)) 0"; simp)

lemma take_event_holds:
  assumes h: "events_hold r pos q"
  shows "fst (take_event r pos) = (case q of [] \<Rightarrow> None | d # _ \<Rightarrow> Some d) \<and> events_hold r (snd (take_event r pos)) (tl q)"
proof -
  obtain evts p P deq ccs where r: "r = (evts, p, P)" "pos = (deq, ccs)" by (metis prod_cases3 surj_pair)
  obtain c where c: "ccs = of_bool c" "64 \<le> length evts"
      "cyc_holds 64 (\<lambda>j. trb_cycle (evts ! j)) (\<lambda>j. trb_command (evts ! j)) p P deq c q"
    using h by (auto simp: events_hold_def r)
  have deq: "deq < 64" using c(3) by (simp add: cyc_holds_def)
  show ?thesis
  proof (cases q)
    case Nil
    then have "trb_cycle (evts ! deq) \<noteq> c" using cyc_empty c(3) by metis
    then show ?thesis using c Nil by (auto simp: take_event_def r next_event_eq events_hold_def)
  next
    case (Cons d q')
    note G = cyc_get [OF c(3) [unfolded Cons]]
    have "fst (take_event r pos) = Some d"
        "snd (take_event r pos) = (if deq + 1 = 64 then 0 else deq + 1, of_bool (if deq + 1 = 64 then \<not> c else c))"
      unfolding take_event_def r fst_conv c(1) next_event_eq using G(1,2) deq by (cases "deq + 1 = 64"; simp)+
    moreover have "events_hold r (if deq + 1 = 64 then 0 else deq + 1, of_bool (if deq + 1 = 64 then \<not> c else c)) q'"
      unfolding events_hold_def r prod.case using G(3) c(2) by blast
    ultimately show ?thesis by (simp add: Cons)
  qed
qed

lemma put_event_holds:
  assumes h: "events_hold r pos q" "command_ok d" "length q < 64"
  shows "events_hold (put_event d r) pos (q @ [d])"
proof -
  obtain evts p P deq ccs where r: "r = (evts, p, P)" "pos = (deq, ccs)" by (metis prod_cases3 surj_pair)
  obtain d0 d1 d2 d3 where d: "d = (d0, d1, d2, d3)" by (metis prod_cases4)
  have ok: "\<not> bit d3 0" using h(2) by (simp add: d command_ok_def)
  obtain c where c: "ccs = of_bool c" "64 \<le> length evts"
      "cyc_holds 64 (\<lambda>j. trb_cycle (evts ! j)) (\<lambda>j. trb_command (evts ! j)) p P deq c q"
    using h(1) by (auto simp: events_hold_def r)
  define T where "T = evts[p := \<lparr>dword0 = d0, dword1 = d1, dword2 = d2, dword3 = d3 OR of_bool P\<rparr>]"
  have "p < 64" using c(3) by (simp add: cyc_holds_def)
  then have C: "cyc_holds 64 (\<lambda>j. trb_cycle (T ! j)) (\<lambda>j. trb_command (T ! j)) (if p + 1 = 64 then 0 else p + 1)
      (if p + 1 = 64 then \<not> P else P) deq c (q @ [d])"
    using h(3) c(2) by (intro cyc_put [OF c(3)]) (auto simp: T_def nth_list_update trb_cycle_def trb_command_def cycle_bits [OF ok] d)
  have put: "put_event d r = (T, if p + 1 = 64 then 0 else p + 1, if p + 1 = 64 then \<not> P else P)"
    by (simp add: r put_event_def d T_def)
  have "64 \<le> length T" using c(2) by (simp add: T_def)
  then show ?thesis unfolding put events_hold_def r(2) prod.case using c(1) C by blast
qed

interpretation evtq: dma_queue put_event take_event events_hold command_ok XHCI_EVENT_RING_SIZE
  by unfold_locales (use put_event_holds take_event_holds in \<open>fastforce split: list.splits\<close>)+

section \<open>Properties\<close>

text \<open>C19: A ring that the driver fills is a queue to the controller: for every interleaving of enqueuing and fetching, over any number of
  rounds of the ring, the controller fetches exactly the blocks that were enqueued, in order and unchanged, as long as no more than 62 are
  outstanding.\<close>

theorem command_ring_fifo:
  assumes "queue_fits 62 ops 0" "\<And>d. Some d \<in> set ops \<Longrightarrow> command_ok d"
  shows "run_ops put_command hc_fetch ops (xhci_ring_init phys) (0, True) = queue_run ops []"
  using cmdq.run_is_queue [OF ring_init_holds] assms by simp

text \<open>The event ring is a queue to the driver: for every interleaving in which at most 64 events are outstanding, the driver consumes
  exactly the events the controller posted, in order and unchanged.\<close>

theorem event_ring_fifo:
  assumes "queue_fits XHCI_EVENT_RING_SIZE ops 0" "\<And>d. Some d \<in> set ops \<Longrightarrow> command_ok d"
  shows "run_ops put_event take_event ops (replicate 256 zero_trb, 0, True) (0, 1) = queue_run ops []"
  using evtq.run_is_queue [OF events_init_hold] assms by simp

theorem command_ring_fifo_witness:
  "run_ops put_command hc_fetch (concat (replicate 100 [Some (1, 2, 3, 0x420), None])) (xhci_ring_init 0x5000) (0, True) =
     queue_run (concat (replicate 100 [Some (1, 2, 3, 0x420), None])) []"
proof (rule command_ring_fifo)
  have "queue_fits 62 (concat (replicate n [Some (1, 2, 3, 0x420), None])) 0" for n by (induction n) simp_all
  then show "queue_fits 62 (concat (replicate 100 [Some (1, 2, 3, 0x420), None])) 0" .
next
  fix d :: command assume "Some d \<in> set (concat (replicate 100 [Some (1, 2, 3, 0x420), None]))"
  then show "command_ok d" by (auto simp: command_ok_def trb_type_def)
qed

theorem event_ring_fifo_witness:
  "run_ops put_event take_event (concat (replicate 100 [Some (0, 0, 0x01000000, 0x8400), None])) (replicate 256 zero_trb, 0, True) (0, 1) =
     queue_run (concat (replicate 100 [Some (0, 0, 0x01000000, 0x8400), None])) []"
proof (rule event_ring_fifo)
  have "queue_fits 64 (concat (replicate n [Some (0, 0, 0x01000000, 0x8400), None])) 0" for n by (induction n) simp_all
  then show "queue_fits 64 (concat (replicate 100 [Some (0, 0, 0x01000000, 0x8400), None])) 0" .
next
  fix d :: command assume "Some d \<in> set (concat (replicate 100 [Some (0, 0, 0x01000000, 0x8400), None]))"
  then show "command_ok d" by (auto simp: command_ok_def trb_type_def)
qed

end
