(* ===== verification/Xhci.thy ===== *)
theory Xhci
  imports Pci Vmm Xhci_Ring
begin

unbundle bit_operations_syntax

text \<open>
  The USB host controller driver, \<^verbatim>\<open>src/kernel/xhci.c\<close>.  The controller is hardware: \<open>hc_rd\<close>
  and \<open>hc_wr\<close> are a read and a write of one of its registers, \<open>hc_run\<close> is what it does before the driver looks at the event
  ring again; all of them may change the memory it shares with the driver, the record \<open>dma\<close>.  Register offsets count from
  \<^verbatim>\<open>g_mmio\<close>.  Data buffers are bytes at physical addresses.  In the results of the initialisation the outer \<open>None\<close> is a fault
  (a null pointer is followed or the page tables cannot be extended), the inner \<open>None\<close> is the return value \<^verbatim>\<open>false\<close>.
\<close>

section \<open>Constants\<close>

abbreviation XHCI_CAPLENGTH :: u32 where "XHCI_CAPLENGTH \<equiv> 0x00"
abbreviation XHCI_HCSPARAMS1 :: u32 where "XHCI_HCSPARAMS1 \<equiv> 0x04"
abbreviation XHCI_DBOFF :: u32 where "XHCI_DBOFF \<equiv> 0x14"
abbreviation XHCI_RTSOFF :: u32 where "XHCI_RTSOFF \<equiv> 0x18"
abbreviation XHCI_USBCMD :: u32 where "XHCI_USBCMD \<equiv> 0x00"
abbreviation XHCI_USBSTS :: u32 where "XHCI_USBSTS \<equiv> 0x04"
abbreviation XHCI_CRCR_LO :: u32 where "XHCI_CRCR_LO \<equiv> 0x18"
abbreviation XHCI_CRCR_HI :: u32 where "XHCI_CRCR_HI \<equiv> 0x1C"
abbreviation XHCI_DCBAAP_LO :: u32 where "XHCI_DCBAAP_LO \<equiv> 0x30"
abbreviation XHCI_DCBAAP_HI :: u32 where "XHCI_DCBAAP_HI \<equiv> 0x34"
abbreviation XHCI_CONFIG :: u32 where "XHCI_CONFIG \<equiv> 0x38"
abbreviation USBCMD_RUN :: u32 where "USBCMD_RUN \<equiv> 1"
abbreviation USBCMD_HCRST :: u32 where "USBCMD_HCRST \<equiv> 2"
abbreviation USBSTS_HCH :: u32 where "USBSTS_HCH \<equiv> 1"
abbreviation USBSTS_CNR :: u32 where "USBSTS_CNR \<equiv> 0x800"
abbreviation PORTSC_CCS :: u32 where "PORTSC_CCS \<equiv> 1"
abbreviation PORTSC_PED :: u32 where "PORTSC_PED \<equiv> 2"
abbreviation PORTSC_PR :: u32 where "PORTSC_PR \<equiv> 0x10"
abbreviation PORTSC_PRC :: u32 where "PORTSC_PRC \<equiv> 0x200000"
abbreviation PORTSC_CSC :: u32 where "PORTSC_CSC \<equiv> 0x20000"
abbreviation TRB_TYPE_TRANSFER_EVT :: u8 where "TRB_TYPE_TRANSFER_EVT \<equiv> 32"
abbreviation TRB_TYPE_CMD_COMPLETE :: u8 where "TRB_TYPE_CMD_COMPLETE \<equiv> 33"
abbreviation TRB_CC_SUCCESS :: u8 where "TRB_CC_SUCCESS \<equiv> 1"
abbreviation TRB_CC_SHORT_PACKET :: u8 where "TRB_CC_SHORT_PACKET \<equiv> 13"
abbreviation TRB_FLAG_IOC :: u32 where "TRB_FLAG_IOC \<equiv> 0x20"
abbreviation TRB_FLAG_ISP :: u32 where "TRB_FLAG_ISP \<equiv> 4"

section \<open>State\<close>

record dma =
  dcbaa :: "u64 list"
  cmd_ring :: xhci_ring
  evt_ring :: "xhci_trb list"
  erst :: "u64 list"
  xfer_ep0 :: xhci_ring
  xfer_bulk_in :: xhci_ring
  xfer_bulk_out :: xhci_ring
  out_ctx :: "u32 list"
  in_ctx :: "u32 list"
  bytes :: "u64 \<Rightarrow> u8"

record xhci_device =
  present :: bool
  slot_id :: u8
  port :: u8
  bulk_in_ep :: u8
  bulk_out_ep :: u8
  max_packet :: u16

record 'x xhci =
  dma :: dma
  hc :: 'x
  hc_rd :: "u64 \<Rightarrow> dma \<Rightarrow> 'x \<Rightarrow> u32 \<times> dma \<times> 'x"
  hc_wr :: "u64 \<Rightarrow> u32 \<Rightarrow> dma \<Rightarrow> 'x \<Rightarrow> dma \<times> 'x"
  hc_run :: "dma \<Rightarrow> 'x \<Rightarrow> dma \<times> 'x"
  g_mmio :: u64
  g_op :: u32
  g_rt :: u32
  g_db :: u32
  g_dcbaa_phys :: u64
  g_cmd_ring_phys :: u64
  g_evt_ring_phys :: u64
  g_erst_phys :: u64
  g_evt_dequeue :: nat
  g_evt_ccs :: u8
  g_xfer_ep0_phys :: u64
  g_xfer_bulk_in_phys :: u64
  g_xfer_bulk_out_phys :: u64
  g_out_ctx_phys :: u64
  g_in_ctx_phys :: u64
  g_msd :: xhci_device
  bus :: pci_bus
  xvmm :: vmm_state

definition on_dma :: "(dma \<Rightarrow> dma) \<Rightarrow> 'x xhci \<Rightarrow> 'x xhci" where
  "on_dma f x = x\<lparr>dma := f (dma x)\<rparr>"

section \<open>Registers\<close>

definition reg_rd :: "u64 \<Rightarrow> 'x xhci \<Rightarrow> u32 \<times> 'x xhci" where
  "reg_rd off x = (let (v, d, c) = hc_rd x off (dma x) (hc x) in (v, x\<lparr>dma := d, hc := c\<rparr>))"

definition reg_wr :: "u64 \<Rightarrow> u32 \<Rightarrow> 'x xhci \<Rightarrow> 'x xhci" where
  "reg_wr off v x = (let (d, c) = hc_wr x off v (dma x) (hc x) in x\<lparr>dma := d, hc := c\<rparr>)"

definition cap_rd :: "u32 \<Rightarrow> 'x xhci \<Rightarrow> u32 \<times> 'x xhci" where
  "cap_rd off x = reg_rd (ucast off) x"

definition op_rd :: "u32 \<Rightarrow> 'x xhci \<Rightarrow> u32 \<times> 'x xhci" where
  "op_rd off x = reg_rd (ucast (g_op x) + ucast off) x"

definition op_wr :: "u32 \<Rightarrow> u32 \<Rightarrow> 'x xhci \<Rightarrow> 'x xhci" where
  "op_wr off v x = reg_wr (ucast (g_op x) + ucast off) v x"

definition db_wr :: "u8 \<Rightarrow> u32 \<Rightarrow> 'x xhci \<Rightarrow> 'x xhci" where
  "db_wr slot v x = reg_wr (ucast (g_db x) + ucast slot * 4) v x"

text \<open>The register of a port, and a register of interrupter 0.\<close>

definition port_reg :: "nat \<Rightarrow> u32" where
  "port_reg p = 0x400 + word_of_nat p * 16"

definition ir_wr :: "u64 \<Rightarrow> u32 \<Rightarrow> 'x xhci \<Rightarrow> 'x xhci" where
  "ir_wr off v x = reg_wr (ucast (g_rt x + 0x20) + off) v x"

text \<open>The waiting loops read a register at most \<open>n\<close> times.\<close>

fun wait_reg :: "nat \<Rightarrow> u32 \<Rightarrow> (u32 \<Rightarrow> bool) \<Rightarrow> 'x xhci \<Rightarrow> bool \<times> 'x xhci" where
  "wait_reg 0 off good x = (False, x)"
| "wait_reg (Suc n) off good x = (let (v, x1) = op_rd off x in if good v then (True, x1) else wait_reg n off good x1)"

definition wait_clear :: "u32 \<Rightarrow> u32 \<Rightarrow> nat \<Rightarrow> 'x xhci \<Rightarrow> bool \<times> 'x xhci" where
  "wait_clear off msk timeout_ms x = wait_reg (timeout_ms * 1000) off (\<lambda>v. v AND msk = 0) x"

definition wait_set :: "u32 \<Rightarrow> u32 \<Rightarrow> nat \<Rightarrow> 'x xhci \<Rightarrow> bool \<times> 'x xhci" where
  "wait_set off msk timeout_ms x = wait_reg (timeout_ms * 1000) off (\<lambda>v. v AND msk \<noteq> 0) x"

text \<open>A zeroed page; 0 is the null pointer.\<close>

definition alloc_page_virt :: "'x xhci \<Rightarrow> u64 \<times> 'x xhci" where
  "alloc_page_virt x =
     (let (p, pm) = pmm_alloc_frame (pmm (xvmm x)); x1 = x\<lparr>xvmm := (xvmm x)\<lparr>pmm := pm\<rparr>\<rparr> in
      if p = 0 then (0, x1)
      else (word_of_nat p,
            on_dma (\<lambda>d. d\<lparr>bytes := (\<lambda>a. if word_of_nat p \<le> a \<and> a - word_of_nat p < 4096 then 0 else bytes d a)\<rparr>) x1))"

section \<open>Events\<close>

definition consume_event :: "'x xhci \<Rightarrow> (u8 \<times> u8 \<times> u8) option \<times> 'x xhci" where
  "consume_event x =
     (let (d, c) = hc_run x (dma x) (hc x);
          x0 = x\<lparr>dma := d, hc := c\<rparr>
      in case next_event (evt_ring d) (g_evt_dequeue x0, g_evt_ccs x0) of
           (None, _) \<Rightarrow> (None, x0)
         | (Some evt, deq, ccs) \<Rightarrow>
             let type = ucast (drop_bit 10 (dword3 evt) AND 0x3F);
                 cc = ucast (drop_bit 24 (dword2 evt) AND 0xFF);
                 slot = ucast (drop_bit 24 (dword3 evt) AND 0xFF);
                 x1 = x0\<lparr>g_evt_dequeue := deq, g_evt_ccs := ccs\<rparr>;
                 erdp = g_evt_ring_phys x1 + word_of_nat deq * 16
             in (Some (type, cc, slot), ir_wr 0x1C (hi32 erdp) (ir_wr 0x18 (lo32 erdp OR 8) x1)))"

fun await_event :: "nat \<Rightarrow> u8 \<Rightarrow> 'x xhci \<Rightarrow> (u8 \<times> u8) option \<times> 'x xhci" where
  "await_event 0 wanted x = (None, x)"
| "await_event (Suc n) wanted x =
     (case consume_event x of
        (Some (type, cc, slot), x1) \<Rightarrow> if type = wanted then (Some (cc, slot), x1) else await_event n wanted x1
      | (None, x1) \<Rightarrow> await_event n wanted x1)"

text \<open>Success, completion code and slot; the latter two stay 0 when the time runs out.\<close>

definition wait_cmd_complete :: "'x xhci \<Rightarrow> bool \<times> u8 \<times> u8 \<times> 'x xhci" where
  "wait_cmd_complete x =
     (case await_event 2000000 TRB_TYPE_CMD_COMPLETE x of
        (Some (cc, slot), x1) \<Rightarrow> (cc = TRB_CC_SUCCESS, cc, slot, x1)
      | (None, x1) \<Rightarrow> (False, 0, 0, x1))"

definition wait_transfer_complete :: "'x xhci \<Rightarrow> bool \<times> 'x xhci" where
  "wait_transfer_complete x =
     (case await_event 2000000 TRB_TYPE_TRANSFER_EVT x of
        (Some (cc, slot), x1) \<Rightarrow> (cc = TRB_CC_SUCCESS \<or> cc = TRB_CC_SHORT_PACKET, x1)
      | (None, x1) \<Rightarrow> (False, x1))"

section \<open>Commands and transfers\<close>

definition issue_cmd :: "u32 \<Rightarrow> u32 \<Rightarrow> u32 \<Rightarrow> u32 \<Rightarrow> 'x xhci \<Rightarrow> bool \<times> u8 \<times> 'x xhci" where
  "issue_cmd d0 d1 d2 d3_nocy x =
     (let x1 = on_dma (\<lambda>d. d\<lparr>cmd_ring := ring_enqueue d0 d1 d2 d3_nocy (cmd_ring d)\<rparr>) x;
          (ok, cc, slot, x2) = wait_cmd_complete (db_wr 0 0 x1)
      in (ok, slot, x2))"

definition port_reset :: "nat \<Rightarrow> 'x xhci \<Rightarrow> 'x xhci" where
  "port_reset p x =
     (let (portsc, x1) = op_rd (port_reg p) x;
          v = (portsc OR PORTSC_PR) AND NOT (PORTSC_PRC OR PORTSC_CSC);
          x2 = op_wr (port_reg p) v x1
      in snd (wait_reg 100000 (port_reg p) (\<lambda>v. v AND PORTSC_PR = 0) x2))"

definition enqueue_ep0 :: "u32 \<Rightarrow> u32 \<Rightarrow> u32 \<Rightarrow> u32 \<Rightarrow> 'x xhci \<Rightarrow> 'x xhci" where
  "enqueue_ep0 d0 d1 d2 d3 x = on_dma (\<lambda>d. d\<lparr>xfer_ep0 := ring_enqueue d0 d1 d2 d3 (xfer_ep0 d)\<rparr>) x"

text \<open>The three stages of a control transfer; \<open>buf\<close> is an address, 0 the null pointer.\<close>

definition control_stages :: "u8 \<Rightarrow> u8 \<Rightarrow> u16 \<Rightarrow> u16 \<Rightarrow> u16 \<Rightarrow> u64 \<Rightarrow> u64 \<Rightarrow> 'x xhci \<Rightarrow> 'x xhci" where
  "control_stages bmReqType bReq wValue wIndex wLength buf len x =
     (let dir_in = bmReqType AND 0x80 \<noteq> 0;
          setup_d0 = ucast bmReqType OR push_bit 8 (ucast bReq) OR push_bit 16 (ucast wValue);
          setup_d1 = ucast wIndex OR push_bit 16 (ucast wLength);
          trt = (if len \<noteq> 0 then if dir_in then 3 else 2 else 0);
          x1 = enqueue_ep0 setup_d0 setup_d1 8 (TRB_DWORD3 2 0 OR push_bit 16 trt OR TRB_FLAG_IOC OR 0x40) x;
          x2 = (if len \<noteq> 0 \<and> buf \<noteq> 0 then
                  let phys = vmm_virt_to_phys (xvmm x1) buf in
                  enqueue_ep0 (lo32 phys) (hi32 phys) (ucast len)
                    (TRB_DWORD3 3 0 OR (if dir_in then 0x10000 else 0) OR TRB_FLAG_IOC) x1
                else x1)
      in enqueue_ep0 0 0 0 (TRB_DWORD3 4 0 OR (if len \<noteq> 0 \<and> \<not> dir_in then 0x10000 else 0) OR TRB_FLAG_IOC) x2)"

definition xhci_control :: "u8 \<Rightarrow> u8 \<Rightarrow> u8 \<Rightarrow> u16 \<Rightarrow> u16 \<Rightarrow> u16 \<Rightarrow> u64 \<Rightarrow> u64 \<Rightarrow> 'x xhci \<Rightarrow> int \<times> 'x xhci" where
  "xhci_control slot bmReqType bReq wValue wIndex wLength buf len x =
     (let (ok, x1) = wait_transfer_complete (db_wr slot 1 (control_stages bmReqType bReq wValue wIndex wLength buf len x))
      in (if ok then 0 else - 1, x1))"

definition enqueue_bulk :: "bool \<Rightarrow> u32 \<Rightarrow> u32 \<Rightarrow> u32 \<Rightarrow> u32 \<Rightarrow> 'x xhci \<Rightarrow> 'x xhci" where
  "enqueue_bulk to_host d0 d1 d2 d3 x =
     on_dma (\<lambda>d. if to_host then d\<lparr>xfer_bulk_in := ring_enqueue d0 d1 d2 d3 (xfer_bulk_in d)\<rparr>
                 else d\<lparr>xfer_bulk_out := ring_enqueue d0 d1 d2 d3 (xfer_bulk_out d)\<rparr>) x"

definition bulk_xfer :: "bool \<Rightarrow> u64 \<Rightarrow> u8 \<Rightarrow> u64 \<Rightarrow> u64 \<Rightarrow> 'x xhci \<Rightarrow> int \<times> 'x xhci" where
  "bulk_xfer to_host r_phys ep_id buf len x =
     (if r_phys = 0 then (- 1, x)
      else
        let phys = vmm_virt_to_phys (xvmm x) buf;
            x1 = enqueue_bulk to_host (lo32 phys) (hi32 phys) (ucast len) (TRB_DWORD3 1 0 OR TRB_FLAG_IOC OR TRB_FLAG_ISP) x;
            (ok, x2) = wait_transfer_complete (db_wr (slot_id (g_msd x)) (ucast ep_id) x1)
        in (if ok then 0 else - 1, x2))"

definition xhci_bulk_out :: "u64 \<Rightarrow> u64 \<Rightarrow> 'x xhci \<Rightarrow> int \<times> 'x xhci" where
  "xhci_bulk_out buf len x = bulk_xfer False (g_xfer_bulk_out_phys x) (bulk_out_ep (g_msd x) * 2) buf len x"

definition xhci_bulk_in :: "u64 \<Rightarrow> u64 \<Rightarrow> 'x xhci \<Rightarrow> int \<times> 'x xhci" where
  "xhci_bulk_in buf len x = bulk_xfer True (g_xfer_bulk_in_phys x) (bulk_in_ep (g_msd x) * 2 + 1) buf len x"

definition xhci_get_msd :: "'x xhci \<Rightarrow> xhci_device option" where
  "xhci_get_msd x = (if present (g_msd x) then Some (g_msd x) else None)"

section \<open>Initialisation\<close>

definition and_then :: "('a option \<times> 's) option \<Rightarrow> ('a \<Rightarrow> 's \<Rightarrow> ('b option \<times> 's) option) \<Rightarrow> ('b option \<times> 's) option" where
  "and_then m f = (case m of None \<Rightarrow> None | Some (None, s) \<Rightarrow> Some (None, s) | Some (Some v, s) \<Rightarrow> f v s)"

definition go_on :: "bool \<Rightarrow> 'a \<Rightarrow> 's \<Rightarrow> ('a option \<times> 's) option" where
  "go_on ok v s = Some (if ok then Some v else None, s)"

definition and_if :: "bool \<times> 's \<Rightarrow> ('s \<Rightarrow> ('b option \<times> 's) option) \<Rightarrow> ('b option \<times> 's) option" where
  "and_if r f = (if fst r then f (snd r) else Some (None, snd r))"

text \<open>Step 2: mapping the registers.  The result is the number of slots and ports.\<close>

definition map_bar :: "pci_device \<Rightarrow> vmm_state \<Rightarrow> vmm_state option" where
  "map_bar v s =
     (let n = (bar0_size v + 0xFFF) div 0x1000; bar_pages = (if n = 0 then 4 else n) in
      vmm_map_pages (map (\<lambda>pg. (vmm_get_hhdm_offset s + (bar0 v + word_of_nat pg * 0x1000), bar0 v + word_of_nat pg * 0x1000))
        [0..<unat bar_pages]) s)"

definition hc_find :: "'x xhci \<Rightarrow> (nat option \<times> 'x xhci) option" where
  "hc_find x =
     (case pci_find_xhci (bus x) of
        (None, b) \<Rightarrow> Some (None, x\<lparr>bus := b\<rparr>)
      | (Some v, b) \<Rightarrow>
          (case map_bar v (xvmm x) of
             None \<Rightarrow> None
           | Some vm \<Rightarrow>
               let x1 = x\<lparr>bus := pci_enable_device v b, xvmm := vm\<rparr> in
               if bar0 v = 0 then Some (None, x1)
               else
                 let x2 = x1\<lparr>g_mmio := vmm_get_hhdm_offset vm + bar0 v\<rparr>;
                     (cl, x3) = cap_rd XHCI_CAPLENGTH x2;
                     (rt, x4) = cap_rd XHCI_RTSOFF (x3\<lparr>g_op := cl AND 0xFF\<rparr>);
                     (db, x5) = cap_rd XHCI_DBOFF (x4\<lparr>g_rt := rt AND NOT 0x1F\<rparr>);
                     (slots, x6) = cap_rd XHCI_HCSPARAMS1 (x5\<lparr>g_db := db AND NOT 0x3\<rparr>);
                     (ports, x7) = cap_rd XHCI_HCSPARAMS1 x6
                 in Some (Some (unat (drop_bit 24 ports AND 0xFF)), x7)))"

text \<open>Step 3: reset.\<close>

definition hc_reset :: "'x xhci \<Rightarrow> (unit option \<times> 'x xhci) option" where
  "hc_reset x =
     (let (v, x1) = op_rd XHCI_USBCMD x in
      and_if (wait_set XHCI_USBSTS USBSTS_HCH 20 (op_wr XHCI_USBCMD (v AND NOT USBCMD_RUN) x1)) (\<lambda>x2.
        let (w, x3) = op_rd XHCI_USBCMD x2 in
        and_if (wait_clear XHCI_USBCMD USBCMD_HCRST 100 (op_wr XHCI_USBCMD (w OR USBCMD_HCRST) x3)) (\<lambda>x4.
          let (ok, x5) = wait_clear XHCI_USBSTS USBSTS_CNR 100 x4 in go_on ok () x5)))"

text \<open>Steps 4 to 7: the rings and tables.\<close>

definition keep :: "u64 \<Rightarrow> u64 \<Rightarrow> u64" where
  "keep p old = (if p = 0 then old else p)"

definition hc_cmd_ring :: "'x xhci \<Rightarrow> 'x xhci option" where
  "hc_cmd_ring x =
     (let (p, x1) = alloc_page_virt x in
      if p = 0 then None
      else
        let x2 = on_dma (\<lambda>d. d\<lparr>cmd_ring := xhci_ring_init p\<rparr>) (x1\<lparr>g_cmd_ring_phys := p\<rparr>)
        in Some (op_wr XHCI_CRCR_HI (hi32 p) (op_wr XHCI_CRCR_LO (lo32 p OR ucast (pcs (cmd_ring (dma x2)))) x2)))"

definition hc_evt_ring :: "'x xhci \<Rightarrow> 'x xhci option" where
  "hc_evt_ring x =
     (let (p, x1) = alloc_page_virt x;
          x2 = (if p = 0 then x1 else on_dma (\<lambda>d. d\<lparr>evt_ring := replicate 256 zero_trb\<rparr>) (x1\<lparr>g_evt_ring_phys := p\<rparr>));
          (q, x3) = alloc_page_virt x2
      in if q = 0 then None
         else
           let x4 = on_dma (\<lambda>d. d\<lparr>erst := (replicate 512 0)[0 := g_evt_ring_phys x3, 1 := 64]\<rparr>)
                      (x3\<lparr>g_erst_phys := q, g_evt_dequeue := 0, g_evt_ccs := 1\<rparr>);
               x5 = ir_wr 0x14 (hi32 q) (ir_wr 0x10 (lo32 q) (ir_wr 0x08 1 x4));
               x6 = ir_wr 0x1C (hi32 (g_evt_ring_phys x5)) (ir_wr 0x18 (lo32 (g_evt_ring_phys x5)) x5);
               (iman, x7) = reg_rd (ucast (g_rt x6 + 0x20)) x6
           in Some (ir_wr 0 ((iman OR 2) AND NOT 1) x7))"

definition hc_setup :: "'x xhci \<Rightarrow> (unit option \<times> 'x xhci) option" where
  "hc_setup x =
     (let x1 = op_wr XHCI_CONFIG 8 x;
          (p, x2) = alloc_page_virt x1;
          x3 = (if p = 0 then x2 else on_dma (\<lambda>d. d\<lparr>dcbaa := replicate 512 0\<rparr>) (x2\<lparr>g_dcbaa_phys := p\<rparr>));
          x4 = op_wr XHCI_DCBAAP_HI (hi32 (g_dcbaa_phys x3)) (op_wr XHCI_DCBAAP_LO (lo32 (g_dcbaa_phys x3)) x3)
      in case hc_cmd_ring x4 of
           None \<Rightarrow> None
         | Some x5 \<Rightarrow> map_option (\<lambda>x6. (Some (), x6)) (hc_evt_ring x5))"

text \<open>Step 8: start.\<close>

definition hc_start :: "'x xhci \<Rightarrow> (unit option \<times> 'x xhci) option" where
  "hc_start x =
     (let (v, x1) = op_rd XHCI_USBCMD x;
          (ok, x2) = wait_clear XHCI_USBSTS USBSTS_HCH 20 (op_wr XHCI_USBCMD (v OR USBCMD_RUN) x1)
      in go_on ok () x2)"

text \<open>Steps 9 and 10: the first connected port and its speed.\<close>

fun find_port :: "nat list \<Rightarrow> 'x xhci \<Rightarrow> nat option \<times> 'x xhci" where
  "find_port [] x = (None, x)"
| "find_port (p # ps) x = (let (psc, x1) = op_rd (port_reg p) x in if psc AND PORTSC_CCS \<noteq> 0 then (Some p, x1) else find_port ps x1)"

definition hc_port :: "nat \<Rightarrow> 'x xhci \<Rightarrow> ((nat \<times> u32) option \<times> 'x xhci) option" where
  "hc_port max_ports x =
     (case find_port [0..<min max_ports 16] x of
        (None, x1) \<Rightarrow> Some (None, x1)
      | (Some p, x1) \<Rightarrow>
          let x2 = snd (wait_reg 500000 (port_reg p) (\<lambda>v. v AND PORTSC_PED \<noteq> 0) (port_reset p x1));
              (psc, x3) = op_rd (port_reg p) x2
          in Some (Some (p, drop_bit 10 psc AND 0xF), x3))"

definition ep0_mps :: "u32 \<Rightarrow> u32" where
  "ep0_mps speed = (if speed = 4 then 512 else if speed = 3 then 64 else if speed = 2 then 8 else 64)"

text \<open>Steps 11 to 14: slot, contexts and address.  The contexts are lists of 32-bit words.\<close>

definition set_in_ctx :: "(u32 list \<Rightarrow> u32 list) \<Rightarrow> 'x xhci \<Rightarrow> 'x xhci" where
  "set_in_ctx f x = on_dma (\<lambda>d. d\<lparr>in_ctx := f (in_ctx d)\<rparr>) x"

definition address_ctx :: "nat \<Rightarrow> u32 \<Rightarrow> u64 \<Rightarrow> u8 \<Rightarrow> u32 list \<Rightarrow> u32 list" where
  "address_ctx p speed ring cyc c =
     c[1 := 3, 8 := push_bit 27 1 OR push_bit 20 speed, 9 := push_bit 16 (word_of_nat (p + 1)),
       17 := push_bit 3 4 OR push_bit 1 3 OR push_bit 16 (ep0_mps speed), 18 := lo32 ring OR ucast cyc, 19 := hi32 ring, 20 := 8]"

definition hc_address :: "nat \<Rightarrow> u32 \<Rightarrow> 'x xhci \<Rightarrow> (u8 option \<times> 'x xhci) option" where
  "hc_address p speed x =
     (let (ok, slot, x1) = issue_cmd 0 0 0 (TRB_DWORD3 9 0) x in
      and_if (ok, x1) (\<lambda>x1.
        let (o_phys, x2) = alloc_page_virt x1;
            x3 = (if o_phys = 0 then x2 else on_dma (\<lambda>d. d\<lparr>out_ctx := replicate 1024 0\<rparr>) (x2\<lparr>g_out_ctx_phys := o_phys\<rparr>))
        in if g_dcbaa_phys x3 = 0 then None
           else
             let x4 = on_dma (\<lambda>d. d\<lparr>dcbaa := (dcbaa d)[unat slot := g_out_ctx_phys x3]\<rparr>) x3;
                 (e_phys, x5) = alloc_page_virt x4;
                 x6 = (if e_phys = 0 then x5 else on_dma (\<lambda>d. d\<lparr>xfer_ep0 := xhci_ring_init e_phys\<rparr>) (x5\<lparr>g_xfer_ep0_phys := e_phys\<rparr>));
                 (i_phys, x7) = alloc_page_virt x6
             in if i_phys = 0 \<or> e_phys = 0 then None
                else
                  let x8 = on_dma (\<lambda>d. d\<lparr>in_ctx := address_ctx p speed e_phys (pcs (xfer_ep0 d)) (replicate 1024 0)\<rparr>)
                             (x7\<lparr>g_in_ctx_phys := i_phys\<rparr>);
                      (ok2, _, x9) = issue_cmd (lo32 i_phys) (hi32 i_phys) 0 (TRB_DWORD3 11 0 OR push_bit 24 (ucast slot)) x8
                  in go_on ok2 slot x9))"

text \<open>Step 16: the walk along the descriptors, from offset \<open>off\<close> of the buffer to the total length.\<close>

record endpoints =
  bulk_in :: u8
  bulk_out :: u8
  max_pkt :: u16

definition read_endpoint :: "(nat \<Rightarrow> u8) \<Rightarrow> nat \<Rightarrow> endpoints \<Rightarrow> endpoints" where
  "read_endpoint b off e =
     (let addr = b (off + 2); attr = b (off + 3) in
      if b (off + 1) = 5 \<and> attr AND 3 = 2 then
        (if addr AND 0x80 \<noteq> 0 then e\<lparr>bulk_in := addr AND 0x0F\<rparr> else e\<lparr>bulk_out := addr AND 0x0F\<rparr>)
          \<lparr>max_pkt := ucast (b (off + 4)) OR push_bit 8 (ucast (b (off + 5)))\<rparr>
      else e)"

function parse_config :: "(nat \<Rightarrow> u8) \<Rightarrow> nat \<Rightarrow> nat \<Rightarrow> endpoints \<Rightarrow> endpoints" where
  "parse_config b fin off e =
     (if off < fin then
        if b off = 0 then e else parse_config b fin (off + unat (b off)) (read_endpoint b off e)
      else e)"
  by pat_completeness auto
termination
  by (relation "measure (\<lambda>(b, fin, off, e). fin - off)") (auto intro!: diff_less_mono2 simp: unat_gt_0)

declare parse_config.simps [simp del]

text \<open>Steps 15 to 17: descriptors and configuration.\<close>

definition hc_describe :: "u8 \<Rightarrow> 'x xhci \<Rightarrow> (endpoints option \<times> 'x xhci) option" where
  "hc_describe slot x =
     (let (dp, x1) = alloc_page_virt x in
      if dp = 0 \<or> g_out_ctx_phys x1 = 0 then None
      else
        let (_, x2) = xhci_control slot 0x80 6 0x0100 0 18 (hhdm_off (xvmm x1) + dp) 18 x1;
            bMaxPkt = bytes (dma x2) (dp + 7);
            x3 = on_dma (\<lambda>d. d\<lparr>out_ctx := (out_ctx d)[9 := (out_ctx d ! 9 AND 0xFFFF) OR push_bit 16 (ucast bMaxPkt)]\<rparr>) x2;
            (cp, x4) = alloc_page_virt x3
        in if cp = 0 then None
           else
             let (_, x5) = xhci_control slot 0x80 6 0x0200 0 255 (hhdm_off (xvmm x4) + cp) 255 x4;
                 b = (\<lambda>i. bytes (dma x5) (cp + word_of_nat i));
                 e = parse_config b (unat (b 2)) 0 \<lparr>bulk_in = 0, bulk_out = 0, max_pkt = 512\<rparr>
             in if bulk_in e = 0 \<or> bulk_out e = 0 then Some (None, x5)
                else let (_, x6) = xhci_control slot 0x00 9 (ucast (b 5)) 0 0 0 0 x5 in Some (Some e, x6))"

text \<open>Step 18: the bulk endpoints.\<close>

definition bulk_ctx :: "nat \<Rightarrow> u32 \<Rightarrow> u32 \<Rightarrow> u64 \<Rightarrow> u8 \<Rightarrow> u32 list \<Rightarrow> u32 list" where
  "bulk_ctx at ep_type mps ring cyc c =
     c[at + 1 := push_bit 3 ep_type OR push_bit 1 3 OR push_bit 16 mps, at + 2 := lo32 ring OR ucast cyc, at + 3 := hi32 ring, at + 4 := 1024]"

definition config_ctx :: "nat \<Rightarrow> u32 \<Rightarrow> endpoints \<Rightarrow> u32 list" where
  "config_ctx p speed e =
     (let o2 = unat (bulk_out e) * 2; i2 = unat (bulk_in e) * 2 + 1; m = max i2 o2 in
      (replicate 1024 0)[1 := 1 OR push_bit o2 1 OR push_bit i2 1, 8 := push_bit 27 (word_of_nat m) OR push_bit 20 speed,
                         9 := push_bit 16 (word_of_nat (p + 1))])"

definition hc_configure :: "nat \<Rightarrow> u32 \<Rightarrow> u8 \<Rightarrow> endpoints \<Rightarrow> 'x xhci \<Rightarrow> (unit option \<times> 'x xhci) option" where
  "hc_configure p speed slot e x =
     (let mps = ucast (max_pkt e); x1 = set_in_ctx (\<lambda>_. config_ctx p speed e) x; (op, x2) = alloc_page_virt x1 in
      if op = 0 then None
      else
        let x3 = on_dma (\<lambda>d. d\<lparr>xfer_bulk_out := xhci_ring_init op\<rparr>) (x2\<lparr>g_xfer_bulk_out_phys := op\<rparr>);
            x4 = set_in_ctx (bulk_ctx (8 + unat (bulk_out e) * 2 * 8) 2 mps op (pcs (xfer_bulk_out (dma x3)))) x3;
            (ip, x5) = alloc_page_virt x4
        in if ip = 0 then None
           else
             let x6 = on_dma (\<lambda>d. d\<lparr>xfer_bulk_in := xhci_ring_init ip\<rparr>) (x5\<lparr>g_xfer_bulk_in_phys := ip\<rparr>);
                 x7 = set_in_ctx (bulk_ctx (8 + (unat (bulk_in e) * 2 + 1) * 8) 6 mps ip (pcs (xfer_bulk_in (dma x6)))) x6;
                 (ok, _, x8) = issue_cmd (lo32 (g_in_ctx_phys x7)) (hi32 (g_in_ctx_phys x7)) 0
                                 (TRB_DWORD3 12 0 OR push_bit 24 (ucast slot)) x7
             in go_on ok () x8)"

definition xhci_init :: "'x xhci \<Rightarrow> (unit option \<times> 'x xhci) option" where
  "xhci_init x =
     and_then (hc_find x) (\<lambda>max_ports x1.
     and_then (hc_reset x1) (\<lambda>_ x2.
     and_then (hc_setup x2) (\<lambda>_ x3.
     and_then (hc_start x3) (\<lambda>_ x4.
     and_then (hc_port max_ports x4) (\<lambda>(p, speed) x5.
     and_then (hc_address p speed x5) (\<lambda>slot x6.
     and_then (hc_describe slot x6) (\<lambda>e x7.
     and_then (hc_configure p speed slot e x7) (\<lambda>_ x8.
       Some (Some (), x8\<lparr>g_msd := \<lparr>present = True, slot_id = slot, port = word_of_nat p, bulk_in_ep = bulk_in e,
                                    bulk_out_ep = bulk_out e, max_packet = max_pkt e\<rparr>\<rparr>)))))))))"


section \<open>Lemmas\<close>

text \<open>What the driver keeps apart from the controller: its device and the addresses of its bulk rings.\<close>

definition drv :: "'x xhci \<Rightarrow> xhci_device \<times> u64 \<times> u64" where
  "drv x = (g_msd x, g_xfer_bulk_in_phys x, g_xfer_bulk_out_phys x)"

named_theorems drv_simps

lemma drv_access [drv_simps]:
  "drv (snd (reg_rd off x)) = drv x" "drv (reg_wr off v x) = drv x" "drv (on_dma f x) = drv x"
  "drv (snd (cap_rd r x)) = drv x" "drv (snd (op_rd r x)) = drv x" "drv (op_wr r v x) = drv x" "drv (db_wr b v x) = drv x"
  "drv (ir_wr off v x) = drv x" "drv (snd (alloc_page_virt x)) = drv x" "drv (set_in_ctx h x) = drv x"
  by (simp_all add: drv_def reg_rd_def reg_wr_def on_dma_def cap_rd_def op_rd_def op_wr_def db_wr_def ir_wr_def alloc_page_virt_def
      set_in_ctx_def Let_def prod.case_eq_if)

lemma drv_fields [drv_simps]:
  "drv (x\<lparr>dma := d\<rparr>) = drv x" "drv (x\<lparr>hc := c\<rparr>) = drv x" "drv (x\<lparr>bus := b\<rparr>) = drv x" "drv (x\<lparr>xvmm := vm\<rparr>) = drv x"
  "drv (x\<lparr>g_mmio := m\<rparr>) = drv x" "drv (x\<lparr>g_op := o1\<rparr>) = drv x" "drv (x\<lparr>g_rt := o1\<rparr>) = drv x" "drv (x\<lparr>g_db := o1\<rparr>) = drv x"
  "drv (x\<lparr>g_dcbaa_phys := p\<rparr>) = drv x" "drv (x\<lparr>g_cmd_ring_phys := p\<rparr>) = drv x" "drv (x\<lparr>g_evt_ring_phys := p\<rparr>) = drv x"
  "drv (x\<lparr>g_erst_phys := p\<rparr>) = drv x" "drv (x\<lparr>g_evt_dequeue := n\<rparr>) = drv x" "drv (x\<lparr>g_evt_ccs := b8\<rparr>) = drv x"
  "drv (x\<lparr>g_xfer_ep0_phys := p\<rparr>) = drv x" "drv (x\<lparr>g_out_ctx_phys := p\<rparr>) = drv x" "drv (x\<lparr>g_in_ctx_phys := p\<rparr>) = drv x"
  by (simp_all add: drv_def)

lemma drv_wait [drv_simps]: "drv (snd (wait_reg n off good x)) = drv x"
  by (induction n arbitrary: x) (simp_all add: Let_def prod.case_eq_if drv_simps)

lemma drv_event [drv_simps]: "drv (snd (consume_event x)) = drv x"
  by (simp add: consume_event_def Let_def prod.case_eq_if drv_simps split: option.splits)

lemma drv_await [drv_simps]: "drv (snd (await_event n w x)) = drv x"
proof (induction n arbitrary: x)
  case (Suc n)
  then show ?case using drv_event [of x] by (auto split: prod.splits option.splits)
qed simp

lemma drv_waits [drv_simps]:
  "drv (snd (wait_clear off m t x)) = drv x" "drv (snd (wait_set off m t x)) = drv x"
  "drv (snd (snd (snd (wait_cmd_complete x)))) = drv x" "drv (snd (wait_transfer_complete x)) = drv x"
  by (simp_all add: wait_clear_def wait_set_def wait_cmd_complete_def wait_transfer_complete_def drv_simps prod.case_eq_if
      del: await_event.simps split: option.splits)

lemma drv_transfers [drv_simps]:
  "drv (snd (snd (issue_cmd a b c d x))) = drv x" "drv (port_reset p x) = drv x" "drv (enqueue_ep0 a b c d x) = drv x"
  "drv (control_stages rt rq wv wi wl buf len x) = drv x" "drv (snd (xhci_control sl rt rq wv wi wl buf len x)) = drv x"
  by (simp_all add: issue_cmd_def port_reset_def enqueue_ep0_def control_stages_def xhci_control_def Let_def prod.case_eq_if drv_simps)

lemma drv_find: "hc_find x = Some (r, x') \<Longrightarrow> drv x' = drv x"
  by (auto simp: hc_find_def Let_def prod.case_eq_if drv_simps split: option.splits if_splits)

lemma drv_reset: "hc_reset x = Some (r, x') \<Longrightarrow> drv x' = drv x"
  by (auto simp: hc_reset_def and_if_def go_on_def Let_def prod.case_eq_if drv_simps split: if_splits)

lemma drv_if [drv_simps]: "drv (if b then x else y) = (if b then drv x else drv y)"
  by simp

lemma drv_cmd_ring: "hc_cmd_ring x = Some x' \<Longrightarrow> drv x' = drv x"
  by (simp add: hc_cmd_ring_def Let_def prod.case_eq_if split: if_splits) (auto simp: drv_simps)

lemma drv_evt_ring: "hc_evt_ring x = Some x' \<Longrightarrow> drv x' = drv x"
  unfolding hc_evt_ring_def Let_def prod.case_eq_if
  by (drule sym, simp only: option.inject if_distrib [of Some] option.distinct split: if_split_asm) (simp_all add: drv_simps)

lemma drv_setup: "hc_setup x = Some (r, x') \<Longrightarrow> drv x' = drv x"
  by (auto simp: hc_setup_def Let_def prod.case_eq_if drv_simps split: option.splits dest!: drv_cmd_ring drv_evt_ring)

lemma drv_start: "hc_start x = Some (r, x') \<Longrightarrow> drv x' = drv x"
  by (auto simp: hc_start_def go_on_def Let_def prod.case_eq_if drv_simps)

lemma drv_find_port: "drv (snd (find_port ps x)) = drv x"
  by (induction ps arbitrary: x) (simp_all add: Let_def prod.case_eq_if drv_simps)

lemma drv_port: "hc_port n x = Some (r, x') \<Longrightarrow> drv x' = drv x"
  using drv_find_port [of "[0..<min n 16]" x]
  by (auto simp: hc_port_def Let_def prod.case_eq_if drv_simps split: option.splits)

lemma drv_address: "hc_address p sp x = Some (r, x') \<Longrightarrow> drv x' = drv x"
  by (auto simp: hc_address_def and_if_def go_on_def Let_def prod.case_eq_if drv_simps split: if_splits)

lemma endpoint_range: "bulk_in (read_endpoint b off e) = bulk_in e \<or> bulk_in (read_endpoint b off e) \<le> 15"
  "bulk_out (read_endpoint b off e) = bulk_out e \<or> bulk_out (read_endpoint b off e) \<le> 15"
proof -
  have "w AND 15 \<le> (15 :: u8)" for w by (rule word_and_le1)
  then show "bulk_in (read_endpoint b off e) = bulk_in e \<or> bulk_in (read_endpoint b off e) \<le> 15"
    "bulk_out (read_endpoint b off e) = bulk_out e \<or> bulk_out (read_endpoint b off e) \<le> 15"
    by (simp_all add: read_endpoint_def Let_def)
qed

lemma parse_range:
  "bulk_in e \<le> 15 \<Longrightarrow> bulk_out e \<le> 15 \<Longrightarrow> bulk_in (parse_config b fin off e) \<le> 15 \<and> bulk_out (parse_config b fin off e) \<le> 15"
proof (induction b fin off e rule: parse_config.induct)
  case (1 b fin off e)
  then show ?case using endpoint_range [of b off e] by (subst (1 2) parse_config.simps) auto
qed

lemma drv_describe: "hc_describe slot x = Some (r, x') \<Longrightarrow> drv x' = drv x \<and>
    (\<forall>e. r = Some e \<longrightarrow> bulk_in e \<noteq> 0 \<and> bulk_in e \<le> 15 \<and> bulk_out e \<noteq> 0 \<and> bulk_out e \<le> 15)"
  using parse_range [of "\<lparr>bulk_in = 0, bulk_out = 0, max_pkt = 512\<rparr>"]
  by (auto simp: hc_describe_def Let_def prod.case_eq_if drv_simps split: if_splits)

lemma drv_bulk:
  "drv (x\<lparr>g_xfer_bulk_in_phys := p\<rparr>) = (fst (drv x), p, snd (snd (drv x)))"
  "drv (x\<lparr>g_xfer_bulk_out_phys := p\<rparr>) = (fst (drv x), fst (snd (drv x)), p)"
  by (simp_all add: drv_def)

lemma drv_configure: "hc_configure p sp slot e x = Some (r, x') \<Longrightarrow> fst (drv x') = fst (drv x) \<and>
    (r \<noteq> None \<longrightarrow> fst (snd (drv x')) \<noteq> 0 \<and> snd (snd (drv x')) \<noteq> 0)"
  by (auto simp: hc_configure_def go_on_def Let_def prod.case_eq_if drv_simps drv_bulk split: if_splits)

lemma and_then_Some:
  "and_then m f = Some (r, s) \<longleftrightarrow> (m = Some (None, s) \<and> r = None) \<or> (\<exists>v s1. m = Some (Some v, s1) \<and> f v s1 = Some (r, s))"
  by (auto simp: and_then_def split: option.splits)

lemma init_cases:
  assumes "xhci_init x = Some (r, x')"
  shows "case r of None \<Rightarrow> fst (drv x') = fst (drv x)
    | Some _ \<Rightarrow> present (fst (drv x')) \<and> bulk_in_ep (fst (drv x')) \<noteq> 0 \<and> bulk_in_ep (fst (drv x')) \<le> 15 \<and>
        bulk_out_ep (fst (drv x')) \<noteq> 0 \<and> bulk_out_ep (fst (drv x')) \<le> 15 \<and> fst (snd (drv x')) \<noteq> 0 \<and> snd (snd (drv x')) \<noteq> 0"
proof -
  have msd: "drv (y\<lparr>g_msd := d\<rparr>) = (d, snd (drv y))" for y :: "'a xhci" and d by (simp add: drv_def)
  show ?thesis
    using assms unfolding xhci_init_def and_then_Some case_prod_beta
    by (elim disjE exE conjE)
      (auto simp: msd dest!: drv_find drv_reset drv_setup drv_start drv_port drv_address drv_describe drv_configure)
qed

section \<open>Properties\<close>

text \<open>C20: The initialisation tells the truth about the device: when it returns false no device is reported that was not reported before, and
  when it returns true a device is reported with two bulk endpoints between 1 and 15 and with rings for both, whatever controller
  and device answered.\<close>

theorem xhci_init_reports:
  "case xhci_init x of
     None \<Rightarrow> True
   | Some (None, x') \<Rightarrow> xhci_get_msd x' = xhci_get_msd x
   | Some (Some _, x') \<Rightarrow> (case xhci_get_msd x' of
        None \<Rightarrow> False
      | Some d \<Rightarrow> 0 < bulk_in_ep d \<and> bulk_in_ep d \<le> 15 \<and> 0 < bulk_out_ep d \<and> bulk_out_ep d \<le> 15 \<and>
          g_xfer_bulk_in_phys x' \<noteq> 0 \<and> g_xfer_bulk_out_phys x' \<noteq> 0)"
  using init_cases [of x] by (auto simp: xhci_get_msd_def drv_def word_greater_zero_iff split: option.splits prod.splits)

definition descriptor_ok :: "u8 list \<Rightarrow> bool" where
  "descriptor_ok d = (2 \<le> length d \<and> length d < 256 \<and> d ! 0 = word_of_nat (length d) \<and> (d ! 1 = 5 \<longrightarrow> 6 \<le> length d))"

definition bulk_endpoint :: "bool \<Rightarrow> u8 list \<Rightarrow> bool" where
  "bulk_endpoint to_host d = (d ! 1 = 5 \<and> d ! 3 AND 3 = 2 \<and> (d ! 2 AND 0x80 \<noteq> 0) = to_host)"

definition last_endpoint :: "bool \<Rightarrow> u8 \<Rightarrow> u8 list list \<Rightarrow> u8" where
  "last_endpoint to_host none ds = fold (\<lambda>d n. if bulk_endpoint to_host d then d ! 2 AND 0x0F else n) ds none"

lemma parse_chain:
  assumes "\<forall>d \<in> set ds. descriptor_ok d" "\<forall>i < length (concat ds). b (off + i) = concat ds ! i" "fin = off + length (concat ds)"
  shows "bulk_in (parse_config b fin off e) = last_endpoint True (bulk_in e) ds \<and>
    bulk_out (parse_config b fin off e) = last_endpoint False (bulk_out e) ds"
  using assms
proof (induction ds arbitrary: off e)
  case Nil
  then show ?case by (simp add: last_endpoint_def parse_config.simps)
next
  case (Cons d ds)
  have d: "2 \<le> length d" "length d < 256" "d ! 0 = word_of_nat (length d)" "d ! 1 = 5 \<longrightarrow> 6 \<le> length d"
    using Cons.prems(1) by (simp_all add: descriptor_ok_def)
  have b: "b (off + i) = d ! i" if "i < length d" for i using Cons.prems(2) that by (simp add: nth_append)
  have n: "unat (b off) = length d"
  proof -
    have "b off = word_of_nat (length d)" using b [of 0] d(1,3) by force
    then show ?thesis using d(2) by (simp add: unsigned_of_nat take_bit_nat_eq_self)
  qed
  then have "b off \<noteq> 0" using d(1) by auto
  have IH: "bulk_in (parse_config b fin (off + length d) e') = last_endpoint True (bulk_in e') ds \<and>
      bulk_out (parse_config b fin (off + length d) e') = last_endpoint False (bulk_out e') ds" for e'
  proof (rule Cons.IH)
    show "\<forall>i < length (concat ds). b (off + length d + i) = concat ds ! i"
    proof (intro allI impI)
      fix i assume "i < length (concat ds)"
      then show "b (off + length d + i) = concat ds ! i" using Cons.prems(2) [rule_format, of "length d + i"] by (simp add: nth_append add.assoc)
    qed
  qed (use Cons.prems in auto)
  have r: "bulk_in (read_endpoint b off e) = (if bulk_endpoint True d then d ! 2 AND 0x0F else bulk_in e)"
      "bulk_out (read_endpoint b off e) = (if bulk_endpoint False d then d ! 2 AND 0x0F else bulk_out e)"
    using b [of 1] b [of 2] b [of 3] d(1,4) by (auto simp: read_endpoint_def bulk_endpoint_def Let_def)
  have "off < fin" using Cons.prems(3) d(1) by (cases d) simp_all
  then have "parse_config b fin off e = parse_config b fin (off + length d) (read_endpoint b off e)"
    using n \<open>b off \<noteq> 0\<close> by (subst parse_config.simps) simp
  then show ?case using IH [of "read_endpoint b off e"] r by (simp add: last_endpoint_def)
qed

text \<open>The walk along the configuration descriptor finds the endpoints: for a chain of descriptors that carry their own lengths it ends
  with the numbers of the last bulk endpoint towards the host and of the last one away from it, 0 where there is none.\<close>

theorem config_endpoints_found:
  assumes "\<forall>d \<in> set ds. descriptor_ok d" "\<forall>i < length (concat ds). b i = concat ds ! i"
  shows "bulk_in (parse_config b (length (concat ds)) 0 \<lparr>bulk_in = 0, bulk_out = 0, max_pkt = 512\<rparr>) = last_endpoint True 0 ds \<and>
    bulk_out (parse_config b (length (concat ds)) 0 \<lparr>bulk_in = 0, bulk_out = 0, max_pkt = 512\<rparr>) = last_endpoint False 0 ds"
  using parse_chain [of ds b 0] assms by simp

lemma await_first:
  "consume_event y = (Some (w, cc, slot), y') \<Longrightarrow> 0 < n \<Longrightarrow> await_event n w y = (Some (cc, slot), y')"
  by (cases n) simp_all

text \<open>A transfer can be reported as done before it has started: a successful transfer event that is left over, as the stages of a
  control transfer leave them, completes the next bulk transfer at once, even with a controller that does nothing.\<close>

theorem bulk_completes_on_stale_event:
  assumes quiet: "\<And>off v d c. evt_ring (fst (hc_wr x off v d c)) = evt_ring d" "\<And>d c. evt_ring (fst (hc_run x d c)) = evt_ring d"
    and evt: "evt = evt_ring (dma x) ! g_evt_dequeue x" "dword3 evt AND 1 = ucast (g_evt_ccs x)" "drop_bit 10 (dword3 evt) AND 0x3F = 32"
      "drop_bit 24 (dword2 evt) AND 0xFF = 1"
    and ring: "g_xfer_bulk_in_phys x \<noteq> 0"
  shows "fst (xhci_bulk_in buf len x) = 0"
proof -
  define y where "y = db_wr (slot_id (g_msd x)) (ucast (bulk_in_ep (g_msd x) * 2 + 1))
    (enqueue_bulk True (lo32 (vmm_virt_to_phys (xvmm x) buf)) (hi32 (vmm_virt_to_phys (xvmm x) buf)) (ucast len)
      (TRB_DWORD3 1 0 OR TRB_FLAG_IOC OR TRB_FLAG_ISP) x)"
  have y: "evt_ring (dma y) = evt_ring (dma x)" "hc_run y = hc_run x" "g_evt_dequeue y = g_evt_dequeue x" "g_evt_ccs y = g_evt_ccs x"
    by (simp_all add: y_def db_wr_def reg_wr_def enqueue_bulk_def on_dma_def Let_def prod.case_eq_if quiet(1))
  have "\<exists>slot y'. consume_event y = (Some (TRB_TYPE_TRANSFER_EVT, TRB_CC_SUCCESS, slot), y')"
    using evt by (simp add: consume_event_def y quiet(2) next_event_def Let_def prod.case_eq_if)
  then obtain slot y' where "consume_event y = (Some (TRB_TYPE_TRANSFER_EVT, TRB_CC_SUCCESS, slot), y')" by blast
  then have "fst (wait_transfer_complete y)" by (simp add: wait_transfer_complete_def await_first)
  moreover have "xhci_bulk_in buf len x = (if fst (wait_transfer_complete y) then 0 else - 1, snd (wait_transfer_complete y))"
    by (simp only: xhci_bulk_in_def bulk_xfer_def ring if_False Let_def y_def prod.case_eq_if)
  ultimately show ?thesis by simp
qed

text \<open>A controller without a device behind it, its event ring holding one leftover event.\<close>

definition wdma :: dma where
  "wdma = \<lparr>dcbaa = [], cmd_ring = xhci_ring_init 0, evt_ring = (replicate 256 zero_trb)[0 := \<lparr>dword0 = 0, dword1 = 0, dword2 = 0x01000000, dword3 = 0x8001\<rparr>],
     erst = [], xfer_ep0 = xhci_ring_init 0, xfer_bulk_in = xhci_ring_init 0x5000, xfer_bulk_out = xhci_ring_init 0x6000,
     out_ctx = [], in_ctx = [], bytes = \<lambda>_. 0\<rparr>"

definition wxhci :: "unit xhci" where
  "wxhci = \<lparr>dma = wdma, hc = (), hc_rd = \<lambda>off d c. (0, d, c), hc_wr = \<lambda>off v d c. (d, c), hc_run = Pair, g_mmio = 0, g_op = 0, g_rt = 0, g_db = 0,
     g_dcbaa_phys = 0, g_cmd_ring_phys = 0, g_evt_ring_phys = 0, g_erst_phys = 0, g_evt_dequeue = 0, g_evt_ccs = 1, g_xfer_ep0_phys = 0,
     g_xfer_bulk_in_phys = 0x5000, g_xfer_bulk_out_phys = 0x6000, g_out_ctx_phys = 0, g_in_ctx_phys = 0,
     g_msd = \<lparr>present = True, slot_id = 1, port = 0, bulk_in_ep = 1, bulk_out_ep = 2, max_packet = 512\<rparr>, bus = wbus, xvmm = wvmm\<rparr>"

theorem bulk_completes_on_stale_event_witness: "fst (xhci_bulk_in 0x1000 512 wxhci) = 0"
  by (rule bulk_completes_on_stale_event [OF _ _ refl]) (simp_all add: wxhci_def wdma_def)

theorem config_endpoints_found_witness:
  "bulk_in (parse_config (\<lambda>i. [9, 2, 32, 0, 1, 1, 0, 0, 50, 7, 5, 0x81, 2, 0, 2, 0, 7, 5, 0x02, 2, 0, 2, 0] ! i) 23 0
     \<lparr>bulk_in = 0, bulk_out = 0, max_pkt = 512\<rparr>) = 1"
proof -
  let ?ds = "[[9, 2, 32, 0, 1, 1, 0, 0, 50], [7, 5, 0x81, 2, 0, 2, 0], [7, 5, 0x02, 2, 0, 2, 0]] :: u8 list list"
  have len: "length (concat ?ds) = 23" by simp
  show ?thesis
    using config_endpoints_found [of ?ds "\<lambda>i. [9, 2, 32, 0, 1, 1, 0, 0, 50, 7, 5, 0x81, 2, 0, 2, 0, 7, 5, 0x02, 2, 0, 2, 0] ! i"]
    unfolding len by (simp add: descriptor_ok_def last_endpoint_def bulk_endpoint_def)
qed

end
