(* ===== verification/Serial.thy ===== *)
theory Serial
  imports Styx_Prelude
begin

unbundle bit_operations_syntax

text \<open>
  The serial line, \<^verbatim>\<open>src/kernel/serial.c\<close>.  The UART is hardware: \<open>lsr n\<close> is what the \<open>n\<close>-th read of its line status register
  returns, and \<open>port_out\<close> lists the writes to its ports in order.  Waiting for the transmitter has no bound in the code, so sending
  is a partial function: \<open>None\<close> means that it does not end.  Strings are lists of bytes without the terminating zero; variable
  arguments are a list.  An argument that is missing, or the negation of the smallest number, is undefined in C and also gives \<open>None\<close>.
\<close>

section \<open>The UART\<close>

record uart =
  lsr :: "nat \<Rightarrow> u8"
  lsr_reads :: nat
  port_out :: "(u16 \<times> u8) list"

abbreviation COM1_PORT :: u16 where "COM1_PORT \<equiv> 0x3F8"

definition uart_outb :: "u16 \<Rightarrow> u8 \<Rightarrow> uart \<Rightarrow> uart" where
  "uart_outb p v u = u\<lparr>port_out := port_out u @ [(p, v)]\<rparr>"

definition serial_init :: "uart \<Rightarrow> uart" where
  "serial_init u =
     fold (\<lambda>(p, v). uart_outb p v)
       [(COM1_PORT + 1, 0x00), (COM1_PORT + 3, 0x80), (COM1_PORT + 0, 0x03), (COM1_PORT + 1, 0x00),
        (COM1_PORT + 3, 0x03), (COM1_PORT + 2, 0xC7), (COM1_PORT + 4, 0x0B)] u"

definition is_transmit_empty :: "uart \<Rightarrow> bool \<times> uart" where
  "is_transmit_empty u = (lsr u (lsr_reads u) AND 0x20 \<noteq> 0, u\<lparr>lsr_reads := lsr_reads u + 1\<rparr>)"

partial_function (option) transmit_wait :: "uart \<Rightarrow> uart option" where
  "transmit_wait u = (case is_transmit_empty u of (ready, u1) \<Rightarrow> if ready then Some u1 else transmit_wait u1)"

definition write_serial_char :: "u8 \<Rightarrow> uart \<Rightarrow> uart option" where
  "write_serial_char c u = map_option (uart_outb COM1_PORT c) (transmit_wait u)"

fun write_serial_chars :: "u8 list \<Rightarrow> uart \<Rightarrow> uart option" where
  "write_serial_chars [] u = Some u"
| "write_serial_chars (c # cs) u = Option.bind (write_serial_char c u) (write_serial_chars cs)"

fun write_serial_string :: "u8 list \<Rightarrow> uart \<Rightarrow> uart option" where
  "write_serial_string [] u = Some u"
| "write_serial_string (c # cs) u =
     Option.bind (if c = 10 then write_serial_char 13 u else Some u) (\<lambda>u1.
     Option.bind (write_serial_char c u1) (write_serial_string cs))"

section \<open>Numbers\<close>

text \<open>The digits in \<^verbatim>\<open>buf\<close>, least significant first.\<close>

fun decimal_buf :: "nat \<Rightarrow> u8 list" where
  "decimal_buf v = (48 + word_of_nat (v mod 10)) # (if v < 10 then [] else decimal_buf (v div 10))"

declare decimal_buf.simps [simp del]

definition decimal_text :: "u64 \<Rightarrow> u8 list" where
  "decimal_text w =
     (let v = sint w in (if v < 0 then [45] else []) @ rev (decimal_buf (nat (if v < 0 then - v else v))))"

definition hex_chars :: "u8 list" where
  "hex_chars = map of_char ''0123456789ABCDEF''"

fun hex_loop :: "nat list \<Rightarrow> bool \<Rightarrow> u64 \<Rightarrow> u8 list" where
  "hex_loop [] started v = []"
| "hex_loop (i # is) started v =
     (let digit = drop_bit i v AND 0xF in
      if digit \<noteq> 0 \<or> started \<or> i = 0 then hex_chars ! unat digit # hex_loop is True v else hex_loop is started v)"

definition hex_text :: "u64 \<Rightarrow> u8 list" where
  "hex_text v = hex_loop (map (\<lambda>k. 4 * k) (rev [0..<16])) False v"

section \<open>Formatted output\<close>

datatype serial_arg = StringArg "u8 list option" | WordArg u64

definition null_text :: "u8 list" where
  "null_text = map of_char ''(null)''"

fun directive :: "u8 \<Rightarrow> serial_arg list \<Rightarrow> uart \<Rightarrow> (serial_arg list \<times> uart) option" where
  "directive d args u =
     (if d = 115 then
        (case args of StringArg s # as \<Rightarrow>
           map_option (Pair as) (write_serial_string (case s of None \<Rightarrow> null_text | Some cs \<Rightarrow> cs) u) | _ \<Rightarrow> None)
      else if d = 99 then
        (case args of WordArg w # as \<Rightarrow> map_option (Pair as) (write_serial_char (ucast w) u) | _ \<Rightarrow> None)
      else if d = 100 then
        (case args of WordArg w # as \<Rightarrow>
           if w = 0x8000000000000000 then None else map_option (Pair as) (write_serial_chars (decimal_text w) u) | _ \<Rightarrow> None)
      else if d = 120 \<or> d = 112 then
        (case args of WordArg w # as \<Rightarrow>
           map_option (Pair as) (Option.bind (write_serial_string [48, 120] u) (write_serial_chars (hex_text w))) | _ \<Rightarrow> None)
      else if d = 37 then map_option (Pair args) (write_serial_char 37 u)
      else map_option (Pair args) (Option.bind (write_serial_char 37 u) (write_serial_char d)))"

fun serial_printf :: "u8 list \<Rightarrow> serial_arg list \<Rightarrow> uart \<Rightarrow> uart option" where
  "serial_printf [] args u = Some u"
| "serial_printf [c] args u = (if c = 37 then Some u else write_serial_string [c] u)"
| "serial_printf (c # d # fmt) args u =
     (if c = 37 then Option.bind (directive d args u) (\<lambda>(args1, u1). serial_printf fmt args1 u1)
      else Option.bind (write_serial_string [c] u) (serial_printf (d # fmt) args))"

section \<open>The text of a format\<close>

definition crlf :: "u8 list \<Rightarrow> u8 list" where
  "crlf cs = concat (map (\<lambda>c. if c = 10 then [13, 10] else [c]) cs)"

fun directive_text :: "u8 \<Rightarrow> serial_arg list \<Rightarrow> (serial_arg list \<times> u8 list) option" where
  "directive_text d args =
     (if d \<in> {115, 99, 100, 120, 112} then
        (case args of
           StringArg s # as \<Rightarrow> if d = 115 then Some (as, crlf (case s of None \<Rightarrow> null_text | Some cs \<Rightarrow> cs)) else None
         | WordArg w # as \<Rightarrow>
             if d = 99 then Some (as, [ucast w])
             else if d = 100 then if w = 0x8000000000000000 then None else Some (as, decimal_text w)
             else if d = 115 then None
             else Some (as, [48, 120] @ hex_text w)
         | [] \<Rightarrow> None)
      else Some (args, if d = 37 then [37] else [37, d]))"

fun printf_text :: "u8 list \<Rightarrow> serial_arg list \<Rightarrow> u8 list option" where
  "printf_text [] args = Some []"
| "printf_text [c] args = Some (if c = 37 then [] else crlf [c])"
| "printf_text (c # d # fmt) args =
     (if c = 37 then
        (case directive_text d args of None \<Rightarrow> None | Some (args1, t) \<Rightarrow> map_option ((@) t) (printf_text fmt args1))
      else map_option ((@) (crlf [c])) (printf_text (d # fmt) args))"

definition uart_live :: "uart \<Rightarrow> bool" where
  "uart_live u = (\<forall>n. \<exists>m \<ge> n. bit (lsr u m) 5)"

text \<open>What has been sent after a call that returned.\<close>

definition sends :: "uart option \<Rightarrow> uart \<Rightarrow> u8 list \<Rightarrow> bool" where
  "sends r u cs = (case r of None \<Rightarrow> False | Some u' \<Rightarrow> lsr u' = lsr u \<and> port_out u' = port_out u @ map (Pair COM1_PORT) cs)"

lemma ready_bit: "(w AND 0x20 \<noteq> 0) = bit w 5" for w :: u8
  using test_bit_mask [of w 5] by simp

lemma transmit_wait_returns:
  assumes "uart_live u"
  shows "\<exists>k. transmit_wait u = Some (u\<lparr>lsr_reads := k\<rparr>)"
proof -
  obtain m where "lsr_reads u \<le> m" "bit (lsr u m) 5" using assms by (auto simp: uart_live_def)
  then show ?thesis
  proof (induction "m - lsr_reads u" arbitrary: u)
    case 0
    then show ?case by (subst transmit_wait.simps) (auto simp: is_transmit_empty_def ready_bit)
  next
    case (Suc n)
    show ?case
    proof (cases "bit (lsr u (lsr_reads u)) 5")
      case True
      then show ?thesis by (subst transmit_wait.simps) (auto simp: is_transmit_empty_def ready_bit)
    next
      case False
      have "\<exists>k. transmit_wait (u\<lparr>lsr_reads := lsr_reads u + 1\<rparr>) = Some (u\<lparr>lsr_reads := lsr_reads u + 1\<rparr>\<lparr>lsr_reads := k\<rparr>)"
        by (rule Suc.hyps(1)) (use Suc in auto)
      then show ?thesis using False by (subst transmit_wait.simps) (simp add: is_transmit_empty_def ready_bit)
    qed
  qed
qed

lemma sends_char: "uart_live u \<Longrightarrow> sends (write_serial_char c u) u [c]"
  using transmit_wait_returns [of u] by (auto simp: write_serial_char_def sends_def uart_outb_def)

lemma sends_Nil: "sends (Some u) u []"
  by (simp add: sends_def)

lemma sends_bind:
  assumes "sends r u cs" "uart_live u" "\<And>u1. uart_live u1 \<Longrightarrow> sends (f u1) u1 ds"
  shows "sends (Option.bind r f) u (cs @ ds)"
proof -
  obtain u1 where u1: "r = Some u1" "lsr u1 = lsr u" "port_out u1 = port_out u @ map (Pair COM1_PORT) cs"
    using assms(1) by (auto simp: sends_def split: option.splits)
  then have "sends (f u1) u1 ds" using assms(2,3) by (simp add: uart_live_def)
  then show ?thesis using u1 by (auto simp: sends_def split: option.splits)
qed

lemma sends_chars: "uart_live u \<Longrightarrow> sends (write_serial_chars cs u) u cs"
proof (induction cs arbitrary: u)
  case (Cons c cs)
  then show ?case using sends_bind [OF sends_char [of u c], of "write_serial_chars cs" cs] by simp
qed (simp add: sends_Nil)

lemma sends_string: "uart_live u \<Longrightarrow> sends (write_serial_string cs u) u (crlf cs)"
proof (induction cs arbitrary: u)
  case (Cons c cs)
  have "sends (Option.bind (write_serial_char c u1) (write_serial_string cs)) u1 ([c] @ crlf cs)" if "uart_live u1" for u1
    using sends_bind [OF sends_char [OF that] that] Cons.IH by blast
  then show ?case
    using sends_bind [of "if c = 10 then write_serial_char 13 u else Some u" u "if c = 10 then [13] else []"] sends_char [of u 13]
      sends_Nil [of u] Cons.prems by (fastforce simp: crlf_def)
qed (simp add: sends_Nil crlf_def)

lemma sends_map: "sends r u cs \<Longrightarrow> \<exists>u'. map_option (Pair as) r = Some (as, u') \<and> sends (Some u') u cs"
  by (auto simp: sends_def split: option.splits)

lemma directive_sends:
  assumes "uart_live u"
  shows "case directive_text d args of None \<Rightarrow> directive d args u = None
    | Some (as, t) \<Rightarrow> \<exists>u'. directive d args u = Some (as, u') \<and> sends (Some u') u t"
proof -
  have hex: "sends (Option.bind (write_serial_string [48, 120] u) (write_serial_chars (hex_text w))) u ([48, 120] @ hex_text w)" for w
    using sends_bind [OF sends_string [OF assms, of "[48, 120]"] assms sends_chars] by (simp add: crlf_def)
  have lit: "sends (Option.bind (write_serial_char 37 u) (write_serial_char d)) u ([37] @ [d])"
    by (rule sends_bind [OF sends_char [OF assms] assms sends_char])
  show ?thesis
    using sends_map [OF hex] sends_map [OF lit] sends_map [OF sends_string [OF assms]] sends_map [OF sends_chars [OF assms]]
      sends_map [OF sends_char [OF assms]]
    by (auto split: list.splits serial_arg.splits simp del: write_serial_string.simps)
qed

lemma sends_live: "sends (Some u') u cs \<Longrightarrow> uart_live u \<Longrightarrow> uart_live u'"
  by (simp add: sends_def uart_live_def)

lemma sends_trans: "sends (Some u1) u cs \<Longrightarrow> sends r u1 ds \<Longrightarrow> sends r u (cs @ ds)"
  by (auto simp: sends_def split: option.splits)

lemma serial_printf_sends:
  "uart_live u \<Longrightarrow> case printf_text fmt args of None \<Rightarrow> serial_printf fmt args u = None | Some t \<Rightarrow> sends (serial_printf fmt args u) u t"
proof (induction fmt args u rule: serial_printf.induct)
  case (1 args u)
  then show ?case by (simp add: sends_Nil)
next
  case (2 c args u)
  then show ?case using sends_string [of u "[c]"] sends_Nil [of u] by (simp del: write_serial_string.simps)
next
  case (3 c d fmt args u)
  show ?case
  proof (cases "c = 37")
    case True
    show ?thesis
    proof (cases "directive_text d args")
      case None
      then show ?thesis using True directive_sends [OF "3.prems", of d args] by simp
    next
      case (Some p)
      obtain as t where p: "p = (as, t)" by force
      then obtain u' where u': "directive d args u = Some (as, u')" "sends (Some u') u t"
        using directive_sends [OF "3.prems", of d args] Some by auto
      have "case printf_text fmt as of None \<Rightarrow> serial_printf fmt as u' = None | Some t \<Rightarrow> sends (serial_printf fmt as u') u' t"
        using "3.IH"(1) [OF True u'(1) refl] sends_live [OF u'(2) "3.prems"] by simp
      then show ?thesis using True Some p u' sends_trans [OF u'(2)]
        by (cases "printf_text fmt as") (simp_all del: directive.simps directive_text.simps)
    qed
  next
    case False
    obtain u' where u': "write_serial_string [c] u = Some u'" "sends (Some u') u (crlf [c])"
      using sends_string [OF "3.prems", of "[c]"] by (cases "write_serial_string [c] u") (auto simp: sends_def simp del: write_serial_string.simps)
    have "case printf_text (d # fmt) args of None \<Rightarrow> serial_printf (d # fmt) args u' = None
        | Some t \<Rightarrow> sends (serial_printf (d # fmt) args u') u' t"
      by (rule "3.IH"(2) [OF False u'(1) sends_live [OF u'(2) "3.prems"]])
    then show ?thesis using False u' sends_trans [OF u'(2)]
      by (cases "printf_text (d # fmt) args") (simp_all del: write_serial_string.simps)
  qed
qed

section \<open>Reading numbers back\<close>

definition hex_value :: "u8 \<Rightarrow> nat" where
  "hex_value c = (if c < 58 then unat (c - 48) else unat (c - 55))"

definition read_hex :: "u8 list \<Rightarrow> nat \<Rightarrow> nat" where
  "read_hex cs a = fold (\<lambda>c a. a * 16 + hex_value c) cs a"

definition read_decimal :: "u8 list \<Rightarrow> int" where
  "read_decimal cs =
     (let mag = (\<lambda>ds. fold (\<lambda>c a. a * 10 + int (unat (c - 48))) ds 0) in
      case cs of [] \<Rightarrow> 0 | c # ds \<Rightarrow> if c = 45 then - mag ds else mag cs)"

lemma hex_digit: "d < 16 \<Longrightarrow> hex_value (hex_chars ! d) = d"
proof -
  have "list_all (\<lambda>d. hex_value (hex_chars ! d) = d) [0..<16]" by code_simp
  then show "d < 16 \<Longrightarrow> hex_value (hex_chars ! d) = d" by (simp add: list_all_iff)
qed

lemma nibble: "unat (drop_bit (4 * k) v AND 0xF) = unat v div 16 ^ k mod 16" for v :: u64
proof -
  have e: "(0xF :: u64) = mask 4" by (simp add: mask_eq_exp_minus_1)
  have "take_bit 64 (unat v) = unat v" using unsigned_less [where ?'a = nat, of v] by (simp add: take_bit_nat_eq_self)
  then show ?thesis
    unfolding e take_bit_eq_mask [symmetric] unsigned_take_bit_eq unsigned_drop_bit_eq
    by (simp add: take_bit_eq_mod drop_bit_eq_div power_mult)
qed

lemma hex_loop_value:
  "st \<or> a = 0 \<Longrightarrow> read_hex (hex_loop (map (\<lambda>k. 4 * k) (rev [0..<n])) st v) a = a * 16 ^ n + unat v mod 16 ^ n"
proof (induction n arbitrary: st a)
  case 0
  then show ?case by (simp add: read_hex_def)
next
  case (Suc n)
  let ?d = "drop_bit (4 * n) v AND 0xF"
  have d: "unat ?d = unat v div 16 ^ n mod 16" "unat ?d < 16" by (simp_all add: nibble)
  have m: "unat v mod 16 ^ Suc n = 16 ^ n * unat ?d + unat v mod 16 ^ n" unfolding d(1)
    using mod_mult2_eq [of "unat v" "16 ^ n" 16] by (simp add: mult.commute)
  have step: "hex_loop (map (\<lambda>k. 4 * k) (rev [0..<Suc n])) st v =
      (if ?d \<noteq> 0 \<or> st \<or> 4 * n = 0 then hex_chars ! unat ?d # hex_loop (map (\<lambda>k. 4 * k) (rev [0..<n])) True v
       else hex_loop (map (\<lambda>k. 4 * k) (rev [0..<n])) st v)" by (simp add: Let_def)
  show ?case
  proof (cases "?d \<noteq> 0 \<or> st \<or> 4 * n = 0")
    case True
    have "read_hex (hex_chars ! unat ?d # hex_loop (map (\<lambda>k. 4 * k) (rev [0..<n])) True v) a =
        read_hex (hex_loop (map (\<lambda>k. 4 * k) (rev [0..<n])) True v) (a * 16 + unat ?d)"
      using hex_digit [OF d(2)] by (simp add: read_hex_def)
    also have "\<dots> = (a * 16 + unat ?d) * 16 ^ n + unat v mod 16 ^ n" by (rule Suc.IH) simp
    also have "\<dots> = a * 16 ^ Suc n + (16 ^ n * unat ?d + unat v mod 16 ^ n)" by (simp add: algebra_simps)
    finally show ?thesis unfolding step if_P [OF True] m .
  next
    case False
    then have "unat ?d = 0" "a = 0" using Suc.prems by auto
    then show ?thesis unfolding step if_not_P [OF False] m using Suc.IH [of st 0] by simp
  qed
qed

lemma decimal_buf_value: "fold (\<lambda>c a. a * 10 + int (unat (c - 48))) (rev (decimal_buf v)) 0 = int v"
proof (induction v rule: decimal_buf.induct)
  case (1 v)
  have "uint (word_of_nat (v mod 10) :: u8) = int (v mod 10)" by (simp add: unsigned_of_nat take_bit_nat_eq_self)
  then have k: "int (unat (48 + word_of_nat (v mod 10) - 48 :: u8)) = int (v mod 10)" by simp
  show ?case
  proof (cases "v < 10")
    case True
    then show ?thesis using k by (subst decimal_buf.simps) simp
  next
    case False
    then have "fold (\<lambda>c a. a * 10 + int (unat (c - 48))) (rev (decimal_buf v)) 0 =
        int (v div 10) * 10 + int (unat (48 + word_of_nat (v mod 10) - 48 :: u8))"
      using 1 by (subst decimal_buf.simps) simp
    then show ?thesis unfolding k by presburger
  qed
qed

lemma decimal_buf_digits: "c \<in> set (decimal_buf v) \<Longrightarrow> c \<noteq> 45"
proof (induction v rule: decimal_buf.induct)
  case (1 v)
  have "(48 + word_of_nat k :: u8) \<noteq> 45" if "k < 10" for k
  proof -
    have "list_all (\<lambda>k. (48 + word_of_nat k :: u8) \<noteq> 45) [0..<10]" by code_simp
    then show ?thesis using that by (simp add: list_all_iff)
  qed
  then show ?case using 1 by (subst (asm) decimal_buf.simps) (auto split: if_splits)
qed

section \<open>Properties\<close>

text \<open>C40: Formatted output on a serial line whose transmitter keeps becoming ready returns exactly when its arguments are defined, and then the
  bytes written to the data port are the text of the format, in order and with a carriage return before each line feed of the format.\<close>

theorem serial_printf_text:
  assumes "uart_live u"
  shows "case printf_text fmt args of
      None \<Rightarrow> serial_printf fmt args u = None
    | Some t \<Rightarrow> \<exists>u'. serial_printf fmt args u = Some u' \<and> port_out u' = port_out u @ map (Pair COM1_PORT) t"
  using serial_printf_sends [OF assms, of fmt args] by (auto simp: sends_def split: option.splits)

text \<open>Numbers are printed so that they can be read back: the hexadecimal digits have the value of the argument for every 64-bit word, and
  the decimal text has its value as a signed number.\<close>

theorem serial_numbers_roundtrip:
  "read_hex (hex_text v) 0 = unat v \<and> read_decimal (decimal_text v) = sint v"
proof
  have "unat v < 16 ^ 16" using unsigned_less [where ?'a = nat, of v] by simp
  then show "read_hex (hex_text v) 0 = unat v" using hex_loop_value [of False 0 16 v] by (simp add: hex_text_def del: upt_Suc)
  have first: "hd (rev (decimal_buf n)) \<noteq> 45" "rev (decimal_buf n) \<noteq> []" for n
  proof -
    show ne: "rev (decimal_buf n) \<noteq> []" by (subst decimal_buf.simps) simp
    show "hd (rev (decimal_buf n)) \<noteq> 45" using decimal_buf_digits hd_in_set [OF ne] by simp
  qed
  then have "read_decimal (rev (decimal_buf n)) = int n" for n
    using decimal_buf_value [of n] first [of n] by (cases "rev (decimal_buf n)") (simp_all add: read_decimal_def Let_def)
  then show "read_decimal (decimal_text v) = sint v"
    using decimal_buf_value by (simp add: decimal_text_def Let_def) (simp add: read_decimal_def Let_def)
qed

text \<open>A width in a directive is not understood: \<^verbatim>\<open>%02x\<close> prints itself and takes no argument, although several callers use it.\<close>

theorem width_not_supported: "printf_text (map of_char ''%02x'') args = Some (map of_char ''%02x'')"
  by (simp add: crlf_def)

theorem serial_printf_text_witness:
  "\<exists>u'. serial_printf (map of_char ''n=%d'') [WordArg 42] \<lparr>lsr = \<lambda>_. 0x60, lsr_reads = 0, port_out = []\<rparr> = Some u' \<and>
    port_out u' = map (Pair COM1_PORT) (map of_char ''n=42'')"
proof -
  let ?u = "\<lparr>lsr = \<lambda>_. 0x60, lsr_reads = 0, port_out = []\<rparr>"
  have "decimal_buf 42 = [50, 52]" by (subst decimal_buf.simps, simp, subst decimal_buf.simps, simp)
  then have d: "decimal_text 42 = [52, 50]" by (simp add: decimal_text_def Let_def)
  have printed: "printf_text (map of_char ''n=%d'') [WordArg 42] = Some (map of_char ''n=42'')"
    by (simp add: crlf_def d)
  have "uart_live ?u" unfolding uart_live_def by (intro allI) (simp, blast)
  from serial_printf_text [OF this, of "map of_char ''n=%d''" "[WordArg 42]"] show ?thesis
    unfolding printed option.case by (simp only: uart.select_convs append_Nil)
qed

end
