(* ===== verification/Interrupt.thy ===== *)
theory Interrupt
  imports Syscall
begin

unbundle bit_operations_syntax

text \<open>
  Interrupts: the interrupt controller and its handler table (\<^verbatim>\<open>src/kernel/irq.c\<close>), the timer (\<^verbatim>\<open>pit.c\<close>), which drives the scheduler,
  the traffic padding, the circuit rotation and the cursor, and the exception screen (\<^verbatim>\<open>isr.c\<close>), over the kernel state of the
  system calls.  \<open>outs\<close> lists the writes to ports in order.  \<^verbatim>\<open>task_switch\<close> leaves a handler in the middle: the code after it runs when
  the interrupted task is resumed.  \<open>in_irq t\<close> says that task \<open>t\<close> was left inside \<^verbatim>\<open>irq_handler\<close>; a task that has never run
  or that yielded by a system call was not.
\<close>

section \<open>State\<close>

datatype irq_callback = Pit_Callback | Keyboard_Callback

record 'd irqs =
  kern :: "'d kernel"
  irq_handlers :: "irq_callback option list"
  pit_ticks :: u64
  outs :: "(u16 \<times> u8) list"
  in_irq :: "nat \<Rightarrow> bool"

definition outb :: "u16 \<Rightarrow> u8 \<Rightarrow> 'd irqs \<Rightarrow> 'd irqs" where
  "outb p v m = m\<lparr>outs := outs m @ [(p, v)]\<rparr>"

definition io_wait :: "'d irqs \<Rightarrow> 'd irqs" where
  "io_wait m = outb 0x80 0 m"

section \<open>The handler table and the controller\<close>

definition irq_install_handler :: "int \<Rightarrow> irq_callback \<Rightarrow> 'd irqs \<Rightarrow> 'd irqs" where
  "irq_install_handler irq h m = (if irq \<ge> 0 \<and> irq < 16 then m\<lparr>irq_handlers := (irq_handlers m)[nat irq := Some h]\<rparr> else m)"

definition irq_uninstall_handler :: "int \<Rightarrow> 'd irqs \<Rightarrow> 'd irqs" where
  "irq_uninstall_handler irq m = (if irq \<ge> 0 \<and> irq < 16 then m\<lparr>irq_handlers := (irq_handlers m)[nat irq := None]\<rparr> else m)"

definition irq_init :: "'d irqs \<Rightarrow> 'd irqs" where
  "irq_init m =
     (let m1 = fold (\<lambda>(p, v) s. io_wait (outb p v s))
                 [(0x20, 0x11), (0xA0, 0x11), (0x21, 0x20), (0xA1, 0x28), (0x21, 0x04), (0xA1, 0x02), (0x21, 0x01), (0xA1, 0x01)] m
      in outb 0xA1 0xFF (outb 0x21 0xFC m1))"

section \<open>The timer\<close>

definition pit_callback :: "'d irqs \<Rightarrow> 'd irqs" where
  "pit_callback m =
     (let t = pit_ticks m + 1;
          k = kern m;
          n = padding_tick (kpolls k) t (knet k);
          tr = tor_tick t ((tor k)\<lparr>tnet := n\<rparr>);
          k1 = k\<lparr>tor := tr, knet := tnet tr, con := fb_shell_cursor_tick (con k)\<rparr>
      in m\<lparr>pit_ticks := t, kern := set_sched (sched_tick (sch (ipc k1))) k1\<rparr>)"

text \<open>A frequency of zero is a division fault.\<close>

definition pit_init :: "u32 \<Rightarrow> 'd irqs \<Rightarrow> 'd irqs option" where
  "pit_init frequency m =
     (let m1 = irq_install_handler 0 Pit_Callback m in
      if frequency = 0 then None
      else
        let divisor = 1193182 div frequency;
            m2 = io_wait (outb 0x43 0x36 m1);
            m3 = io_wait (outb 0x40 (ucast (divisor AND 0xFF)) m2)
        in Some (io_wait (outb 0x40 (ucast (drop_bit 8 divisor AND 0xFF)) m3)))"

definition pit_get_ticks :: "'d irqs \<Rightarrow> u64" where
  "pit_get_ticks m = pit_ticks m"

section \<open>Handling an interrupt\<close>

text \<open>The keyboard handler reads its scan code from port \<^verbatim>\<open>0x60\<close>; it is an argument.\<close>

fun run_callback :: "irq_callback \<Rightarrow> u8 \<Rightarrow> 'd irqs \<Rightarrow> 'd irqs" where
  "run_callback Pit_Callback scancode m = pit_callback m"
| "run_callback Keyboard_Callback scancode m = m\<lparr>kern := (kern m)\<lparr>kbd := keyboard_callback scancode (kbd (kern m))\<rparr>\<rparr>"

definition send_eoi :: "u64 \<Rightarrow> 'd irqs \<Rightarrow> 'd irqs" where
  "send_eoi irq m = outb 0x20 0x20 (if irq \<ge> 8 then outb 0xA0 0x20 m else m)"

definition current_task :: "'d irqs \<Rightarrow> nat option" where
  "current_task m = sched_current (sch (ipc (kern m)))"

text \<open>What happens after a call in which the scheduler may have switched from the task of \<open>m\<close>: the processor continues in the task
  that is current now, in \<open>rest\<close> if that one was left inside the handler or if there was no switch.\<close>

definition after_switch :: "bool \<Rightarrow> ('d irqs \<Rightarrow> 'd irqs) \<Rightarrow> 'd irqs \<Rightarrow> 'd irqs \<Rightarrow> 'd irqs" where
  "after_switch left rest m m1 =
     (case (current_task m, current_task m1) of
        (Some c, Some t) \<Rightarrow>
          if t = c then (if left then rest m1 else m1)
          else
            let m2 = m1\<lparr>in_irq := (in_irq m)(c := left, t := False)\<rparr>
            in if in_irq m t then rest m2 else m2
      | _ \<Rightarrow> if left then rest m1 else m1)"

definition irq_handler :: "u64 \<Rightarrow> u8 \<Rightarrow> 'd irqs \<Rightarrow> 'd irqs" where
  "irq_handler vector scancode m =
     (let irq = vector - 32;
          m1 = (if irq < 16 then
                  (case irq_handlers m ! unat irq of None \<Rightarrow> m | Some h \<Rightarrow> run_callback h scancode m)
                else m)
      in after_switch True (send_eoi irq) m m1)"

text \<open>A voluntary switch: the task that is resumed finishes its timer interrupt if it was left inside one.\<close>

definition yield_step :: "'d irqs \<Rightarrow> 'd irqs" where
  "yield_step m =
     after_switch False (send_eoi 0) m (m\<lparr>kern := set_sched (sched_yield (sch (ipc (kern m)))) (kern m)\<rparr>)"

section \<open>Exceptions\<close>

definition exception_messages :: "string list" where
  "exception_messages =
     [''Division By Zero'', ''Debug'', ''Non Maskable Interrupt'', ''Breakpoint'', ''Into Detected Overflow'', ''Out of Bounds'',
      ''Invalid Opcode'', ''No Coprocessor'', ''Double Fault'', ''Coprocessor Segment Overrun'', ''Bad TSS'', ''Segment Not Present'',
      ''Stack Fault'', ''General Protection Fault'', ''Page Fault'', ''Unknown Interrupt'', ''Coprocessor Fault'', ''Alignment Check'',
      ''Machine Check'', ''SIMD Floating-Point'', ''Virtualization'', ''Control Protection'', ''Reserved'', ''Reserved'', ''Reserved'',
      ''Reserved'', ''Reserved'', ''Reserved'', ''Hypervisor Injection'', ''VMM Communication'', ''Security Exception'', ''Reserved'']"

text \<open>The screen on which the system halts.\<close>

definition isr_handler :: "u64 \<Rightarrow> fb \<Rightarrow> fb" where
  "isr_handler vector f =
     (let f1 = fb_draw_string 20 20 (ascii ''!!! KERNEL PANIC !!!'') 0x00FFFFFF (fb_clear 0x00880000 f);
          f2 = fb_draw_string 20 40 (ascii (if vector < 32 then exception_messages ! unat vector else ''Unknown exception'')) 0x00FFFFFF f1
      in fb_draw_string 20 60 (ascii ''System halted. Check serial log.'') 0x00FFFFFF f2)"

section \<open>Invariants\<close>

definition irq_inv :: "'d irqs \<Rightarrow> bool" where
  "irq_inv m = (sched_inv (sch (ipc (kern m))) \<and> shell_ok (con (kern m)) \<and> keys_ok (kbd (kern m)) \<and> length (irq_handlers m) = 16)"

text \<open>What one timer tick does to the network state and to the circuit, and what the ticks after time \<open>t0\<close> do.\<close>

definition net_tick :: "(nat \<Rightarrow> u8) \<Rightarrow> u64 \<Rightarrow> net_state \<times> tor_state \<Rightarrow> net_state \<times> tor_state" where
  "net_tick polls t nt =
     (let tr = tor_tick t ((snd nt)\<lparr>tnet := padding_tick polls t (fst nt)\<rparr>) in (tnet tr, tr))"

fun net_ticks :: "(nat \<Rightarrow> u8) \<Rightarrow> u64 \<Rightarrow> nat \<Rightarrow> net_state \<times> tor_state \<Rightarrow> net_state \<times> tor_state" where
  "net_ticks polls t0 0 nt = nt"
| "net_ticks polls t0 (Suc n) nt = net_ticks polls (t0 + 1) n (net_tick polls (t0 + 1) nt)"

lemma net_ticks_add: "net_ticks polls t0 (n + k) nt = net_ticks polls (t0 + word_of_nat n) k (net_ticks polls t0 n nt)"
  by (induction n arbitrary: t0 nt) (simp_all add: add.assoc)

text \<open>The part of the kernel state that no interrupt and no switch touches; the network state and the circuit change by
  the timer ticks in between, and by nothing else.\<close>

definition irq_fixed :: "'d irqs \<Rightarrow> 'd irqs \<Rightarrow> bool" where
  "irq_fixed m m' =
     (ep_pool (ipc (kern m')) = ep_pool (ipc (kern m)) \<and> ep_pool_used (ipc (kern m')) = ep_pool_used (ipc (kern m)) \<and>
      mem (kern m') = mem (kern m) \<and> cap_tables (kern m') = cap_tables (kern m) \<and>
      tcp (kern m') = tcp (kern m) \<and> store (kern m') = store (kern m) \<and> phys (kern m') = phys (kern m) \<and>
      serial_out (kern m') = serial_out (kern m) \<and> kpolls (kern m') = kpolls (kern m) \<and> irq_handlers m' = irq_handlers m)"

definition irq_frame :: "'d irqs \<Rightarrow> 'd irqs \<Rightarrow> bool" where
  "irq_frame m m' =
     (irq_fixed m m' \<and>
      (\<exists>n. pit_ticks m' = pit_ticks m + word_of_nat n \<and>
         (knet (kern m'), tor (kern m')) = net_ticks (kpolls (kern m)) (pit_ticks m) n (knet (kern m), tor (kern m))))"

lemma irq_frame_refl: "irq_frame m m"
  unfolding irq_frame_def irq_fixed_def by (auto intro: exI [of _ 0])

lemma irq_frame_trans:
  assumes "irq_frame m m1" "irq_frame m1 m2"
  shows "irq_frame m m2"
proof -
  obtain n where n: "pit_ticks m1 = pit_ticks m + word_of_nat n"
      "(knet (kern m1), tor (kern m1)) = net_ticks (kpolls (kern m)) (pit_ticks m) n (knet (kern m), tor (kern m))"
    using assms(1) unfolding irq_frame_def by blast
  obtain k where k: "pit_ticks m2 = pit_ticks m1 + word_of_nat k"
      "(knet (kern m2), tor (kern m2)) = net_ticks (kpolls (kern m1)) (pit_ticks m1) k (knet (kern m1), tor (kern m1))"
    using assms(2) unfolding irq_frame_def by blast
  have f: "irq_fixed m m1" "irq_fixed m1 m2" using assms by (simp_all add: irq_frame_def)
  then have p: "kpolls (kern m1) = kpolls (kern m)" by (simp add: irq_fixed_def)
  have "(knet (kern m2), tor (kern m2)) = net_ticks (kpolls (kern m)) (pit_ticks m) (n + k) (knet (kern m), tor (kern m))"
    by (simp only: k(2) n p net_ticks_add)
  moreover have "pit_ticks m2 = pit_ticks m + word_of_nat (n + k)" using n(1) k(1) by simp
  moreover have "irq_fixed m m2" using f by (simp add: irq_fixed_def)
  ultimately show ?thesis unfolding irq_frame_def by blast
qed

lemma eoi_kern: "kern (send_eoi irq m) = kern m" "irq_handlers (send_eoi irq m) = irq_handlers m" "pit_ticks (send_eoi irq m) = pit_ticks m"
  by (simp_all add: send_eoi_def outb_def)

lemma after_switch_kern:
  "kern (after_switch left (send_eoi irq) m m1) = kern m1" "irq_handlers (after_switch left (send_eoi irq) m m1) = irq_handlers m1"
  "pit_ticks (after_switch left (send_eoi irq) m m1) = pit_ticks m1"
  by (auto simp: after_switch_def eoi_kern Let_def split: option.splits)

lemma pit_callback_frame: "irq_frame m (pit_callback m)"
  unfolding irq_frame_def irq_fixed_def
  by (simp add: pit_callback_def set_sched_def Let_def) (rule exI [of _ 1], simp add: net_tick_def Let_def)

lemma callback_frame: "irq_frame m (run_callback h sc m)"
  by (cases h) (simp_all add: pit_callback_frame, auto simp: irq_frame_def irq_fixed_def intro: exI [of _ 0])

lemma keyboard_callback_ok: "keys_ok k \<Longrightarrow> keys_ok (keyboard_callback sc k)"
  using callback_keys [of k "[sc]"] by simp

lemma callback_inv: "irq_inv m \<Longrightarrow> irq_inv (run_callback h sc m)"
  using sched_inv_tick shell_tick_ok keyboard_callback_ok
  by (cases h) (auto simp: irq_inv_def pit_callback_def set_sched_def Let_def)

lemma handler_inv: "irq_inv m \<Longrightarrow> irq_inv (irq_handler vector sc m)"
proof -
  assume inv: "irq_inv m"
  define m1 where "m1 = (if vector - 32 < 16 then
      (case irq_handlers m ! unat (vector - 32) of None \<Rightarrow> m | Some h \<Rightarrow> run_callback h sc m) else m)"
  have "irq_inv m1" using inv callback_inv unfolding m1_def by (auto split: option.splits)
  then show ?thesis
    unfolding irq_handler_def Let_def m1_def [symmetric] by (simp add: irq_inv_def after_switch_kern)
qed

lemma handler_frame: "irq_frame m (irq_handler vector sc m)"
proof -
  define m1 where "m1 = (if vector - 32 < 16 then
      (case irq_handlers m ! unat (vector - 32) of None \<Rightarrow> m | Some h \<Rightarrow> run_callback h sc m) else m)"
  have "irq_frame m m1" using callback_frame irq_frame_refl unfolding m1_def by (auto split: option.splits)
  then show ?thesis
    unfolding irq_handler_def Let_def m1_def [symmetric] by (simp add: irq_frame_def irq_fixed_def after_switch_kern)
qed

lemma yield_inv: "irq_inv m \<Longrightarrow> irq_inv (yield_step m)"
  by (simp add: yield_step_def irq_inv_def after_switch_kern set_sched_def sched_inv_yield)

lemma yield_frame: "irq_frame m (yield_step m)"
  by (auto simp: yield_step_def irq_frame_def irq_fixed_def after_switch_kern set_sched_def intro: exI [of _ 0])

inductive irq_step :: "'d irqs \<Rightarrow> 'd irqs \<Rightarrow> bool" where
  interrupt: "irq_step m (irq_handler vector scancode m)"
| yields: "irq_step m (yield_step m)"

inductive_cases irq_stepE: "irq_step m m'"

lemma irq_steps_inv: "irq_step\<^sup>*\<^sup>* m m' \<Longrightarrow> irq_inv m \<Longrightarrow> irq_inv m' \<and> irq_frame m m'"
proof (induction rule: rtranclp_induct)
  case base
  then show ?case by (simp add: irq_frame_refl)
next
  case (step y z)
  then show ?case using irq_frame_trans by (auto elim!: irq_stepE intro: handler_inv yield_inv handler_frame yield_frame)
qed

section \<open>Properties\<close>

text \<open>C12: Whatever interrupts arrive and whenever tasks yield, the scheduler, the screen and the keyboard queue keep their invariants.
  No capability table, no endpoint, no user or kernel memory byte, no connection, no disk state and no frame changes; the network
  state (card, generator, padding) and the circuit change exactly by the timer ticks that were counted in between.\<close>

theorem interrupts_keep_invariants:
  assumes "irq_inv m" "irq_step\<^sup>*\<^sup>* m m'"
  shows "irq_inv m' \<and> irq_frame m m'"
  using irq_steps_inv [OF assms(2,1)] .

text \<open>The timer that starts a task for the first time stays unacknowledged: when the quantum of the running task is used up, another task
  is ready and no other task was interrupted before, the interrupt switches tasks and writes nothing to the interrupt controller.\<close>

theorem first_switch_without_eoi:
  assumes "sched_inv (sch (ipc (kern m)))" "current_task m = Some c" "unat (ticks (task_table (sch (ipc (kern m))) ! c)) \<le> 1"
    "queue_ready (sch (ipc (kern m))) q" "q < queue_count (sch (ipc (kern m)))" "q \<noteq> current_idx (sch (ipc (kern m)))"
    "irq_handlers m ! 0 = Some Pit_Callback" "\<forall>t. t \<noteq> c \<longrightarrow> \<not> in_irq m t"
  shows "current_task (irq_handler 32 sc m) \<noteq> Some c \<and> outs (irq_handler 32 sc m) = outs m \<and> in_irq (irq_handler 32 sc m) c"
proof -
  obtain t where t: "t \<noteq> c" "sched_current (sched_tick (sch (ipc (kern m)))) = Some t"
    using sched_tick_expired [OF assms(1) assms(2) [unfolded current_task_def] assms(3-6)] by blast
  have "current_task (pit_callback m) = Some t" "outs (pit_callback m) = outs m"
    using t(2) by (simp_all add: current_task_def pit_callback_def set_sched_def Let_def)
  then show ?thesis
    using t(1) assms(2,7,8) by (simp add: irq_handler_def after_switch_def Let_def current_task_def)
qed

text \<open>Every other interrupt is acknowledged once, at the master controller and before it at the slave when it came from there: if the current task
  is the same afterwards or was itself interrupted before, the handler ends with exactly these writes.\<close>

theorem interrupt_acknowledged:
  assumes "current_task m = Some c" "current_task (irq_handler vector sc m) = Some t" "t = c \<or> in_irq m t"
  shows "outs (irq_handler vector sc m) = outs m @ (if vector - 32 \<ge> 8 then [(0xA0, 0x20)] else []) @ [(0x20, 0x20)]"
proof -
  have o: "outs (run_callback h sc m) = outs m" for h by (cases h) (simp_all add: pit_callback_def set_sched_def Let_def)
  show ?thesis
    using assms by (auto simp: irq_handler_def after_switch_def send_eoi_def outb_def current_task_def Let_def o split: option.splits if_splits)
qed

text \<open>The timer runs at the rate asked for: for every frequency between 19 and 1193182 Hz the two bytes sent to the counter are the
  quotient of the oscillator frequency, low byte first, and the handler is installed.\<close>

theorem pit_rate:
  assumes "19 \<le> f" "f \<le> 1193182"
  shows "\<exists>m' lo hi. pit_init f m = Some m' \<and> outs m' = outs m @ [(0x43, 0x36), (0x80, 0), (0x40, lo), (0x80, 0), (0x40, hi), (0x80, 0)] \<and>
    unat lo + 256 * unat hi = 1193182 div unat f \<and> irq_handlers m' = (irq_handlers m)[0 := Some Pit_Callback]"
proof -
  define d where "d = 1193182 div f"
  have f: "19 \<le> unat f" using assms(1) by (simp add: word_le_nat_alt)
  have d: "unat d = 1193182 div unat f" by (simp add: d_def unat_div)
  have "1193182 div unat f \<le> 1193182 div 19" using f by (intro div_le_mono2) simp_all
  then have lt: "unat d < 65536" using d by simp
  have b: "(ucast (drop_bit k d AND 0xFF) :: u8) = ucast (drop_bit k d)" for k
  proof -
    have e: "(0xFF :: u32) = mask 8" by (simp add: mask_eq_exp_minus_1)
    show ?thesis unfolding e take_bit_eq_mask [symmetric]
      by (rule bit_word_eqI) (auto simp: bit_ucast_iff bit_take_bit_iff)
  qed
  have "unat (drop_bit 8 d) = unat d div 256" by (simp only: unat_drop_bit_eq) (simp add: drop_bit_eq_div)
  then have "unat (ucast (drop_bit 8 d) :: u8) = unat d div 256"
    using lt by (simp only: unsigned_ucast_eq take_bit_eq_mod) simp
  moreover have "unat (ucast d :: u8) = unat d mod 256" by (simp add: unsigned_ucast_eq take_bit_eq_mod)
  ultimately have "unat (ucast d :: u8) + 256 * unat (ucast (drop_bit 8 d) :: u8) = unat d" by simp
  moreover have "f \<noteq> 0" using assms(1) by auto
  ultimately show ?thesis
    using b [of 0] b [of 8] d by (simp add: pit_init_def io_wait_def outb_def irq_install_handler_def Let_def d_def [symmetric])
qed

text \<open>The time of the last rotation is kept in 32 bits while ticks are counted in 64: after \<open>2 ^ 32 + 6000\<close> ticks an established
  circuit is rotated at every tick.\<close>

theorem rotation_every_tick:
  assumes "established (g_tor_circuit t)" "last_rotation_ticks (g_tor_circuit t) \<noteq> 0" "0x100001770 \<le> tk"
  shows "\<exists>t0. tor_tick tk t = tor_rotate_circuit t0"
proof -
  have "(ucast (last_rotation_ticks (g_tor_circuit t)) :: u64) \<le> 0xFFFFFFFF"
    using unsigned_less [where ?'a = nat, of "last_rotation_ticks (g_tor_circuit t)"] by (simp add: word_le_nat_alt unsigned_ucast_eq take_bit_nat_eq_self)
  then have "6000 \<le> tk - ucast (last_rotation_ticks (g_tor_circuit t))"
    using assms(3) by (simp add: word_le_nat_alt unat_sub)
  then show ?thesis using assms(1,2) by (auto simp: tor_tick_def Let_def)
qed

definition wirqs :: "u32 \<Rightarrow> ramdisk irqs" where
  "wirqs n = \<lparr>kern = wkernel\<lparr>ipc := wipc\<lparr>sch := upd_task 0 (\<lambda>t. t\<lparr>ticks := n\<rparr>) wsched\<rparr>, con := fb_shell_init wshell\<rparr>,
     irq_handlers = (replicate 16 None)[0 := Some Pit_Callback, 1 := Some Keyboard_Callback], pit_ticks = 0, outs = [], in_irq = \<lambda>_. False\<rparr>"

lemma wirqs_inv: "irq_inv (wirqs n)"
proof -
  have "sched_inv (upd_task 0 (\<lambda>t. t\<lparr>ticks := n\<rparr>) wsched)" by (rule sched_inv_upd_task [OF wsched_inv]) simp
  then show ?thesis
    using shell_init_ok by (simp add: irq_inv_def wirqs_def wkernel_def keys_ok_def ring_ok_def wkeys_def)
qed

theorem interrupts_keep_invariants_witness:
  "irq_inv (irq_handler 33 0x1E (irq_handler 32 0 (wirqs 5))) \<and> irq_frame (wirqs 5) (irq_handler 33 0x1E (irq_handler 32 0 (wirqs 5)))"
  by (rule interrupts_keep_invariants [OF wirqs_inv]) (meson irq_step.interrupt r_into_rtranclp rtranclp.rtrancl_into_rtrancl)

theorem first_switch_without_eoi_witness: "outs (irq_handler 32 0 (wirqs 1)) = []"
proof -
  have "queue_ready (sch (ipc (kern (wirqs 1)))) 1" by (simp add: wirqs_def wsched_def queue_ready_def wtask_def upd_task_def)
  then show ?thesis
    using first_switch_without_eoi [of "wirqs 1" 0 1 0] wirqs_inv [of 1, unfolded irq_inv_def]
    by (simp add: wirqs_def current_task_def wsched_def wtask_def upd_task_def)
qed

theorem interrupt_acknowledged_witness: "outs (irq_handler 33 0x1E (wirqs 5)) = [(0x20, 0x20)]"
proof -
  have c: "current_task (wirqs 5) = Some 0" "outs (wirqs 5) = []" by (simp_all add: wirqs_def current_task_def wsched_def upd_task_def)
  have k: "kern (irq_handler 33 0x1E (wirqs 5)) = (kern (wirqs 5))\<lparr>kbd := keyboard_callback 0x1E (kbd (kern (wirqs 5)))\<rparr>"
    unfolding irq_handler_def Let_def after_switch_kern by (simp add: wirqs_def)
  then have "current_task (irq_handler 33 0x1E (wirqs 5)) = Some 0" using c(1) by (simp add: current_task_def)
  from interrupt_acknowledged [OF c(1) this] show ?thesis unfolding c(2) by (simp add: word_le_nat_alt)
qed

theorem pit_rate_witness: "\<exists>m'. pit_init 100 (wirqs 5) = Some m' \<and> irq_handlers m' = (irq_handlers (wirqs 5))[0 := Some Pit_Callback]"
  using pit_rate [of 100 "wirqs 5"] by auto

theorem rotation_every_tick_witness:
  "\<exists>t0. tor_tick 0x100001770 (wtor\<lparr>g_tor_circuit := (g_tor_circuit wtor)\<lparr>established := True, last_rotation_ticks := 7\<rparr>\<rparr>) = tor_rotate_circuit t0"
  by (rule rotation_every_tick) simp_all

end
