(* ===== verification/User_Lib.thy ===== *)
theory User_Lib
  imports Cstring Net
begin

unbundle bit_operations_syntax

text \<open>
  The C library of the ring 3 programs, \<^verbatim>\<open>src/user/libstyx/styx.c\<close>, with the calls of \<^verbatim>\<open>syscalls.h\<close>.  A program sees the kernel
  only through its system calls, so the kernel is a parameter \<open>K\<close>: what a call returns and what it writes to the buffers it was
  given.  The process records its calls with their results in \<open>ucalls\<close>.  Buffers that are passed to the kernel are passed by
  value.  \<open>ujunk\<close> is what an uninitialised local buffer holds.  A call that does not return ends the program; the model then
  describes what happened up to it.  The string functions work on the byte memory of \<open>Cstring\<close>.
\<close>

section \<open>System calls\<close>

datatype ucall =
    CallYield
  | CallWrite u32 "u8 list"
  | CallExit u32
  | CallReadKey u32
  | CallTorCell u32 "u8 list"
  | CallSysinfo
  | CallSocket u32
  | CallConnect u32 u32 u32 u16
  | CallSend u32 u32 "u8 list"
  | CallRecv u32 u32 u64
  | CallPqcKem "u8 list"
  | CallWipe u32

fun call_number :: "ucall \<Rightarrow> u64" where
  "call_number CallYield = 0"
| "call_number (CallWrite slot buf) = 1"
| "call_number (CallExit code) = 4"
| "call_number (CallReadKey slot) = 5"
| "call_number (CallTorCell slot buf) = 6"
| "call_number CallSysinfo = 7"
| "call_number (CallSocket slot) = 8"
| "call_number (CallConnect slot sock ip port) = 9"
| "call_number (CallSend slot sock buf) = 10"
| "call_number (CallRecv slot sock max_len) = 11"
| "call_number (CallPqcKem pk) = 12"
| "call_number (CallWipe slot) = 13"

type_synonym 'k ukernel = "ucall \<Rightarrow> 'k \<Rightarrow> (u64 \<times> u8 list) \<times> 'k"

record 'k uproc =
  ukern :: 'k
  ucalls :: "(ucall \<times> u64) list"
  heap_idx :: u64
  ujunk :: "nat \<Rightarrow> u8"

definition scall :: "'k ukernel \<Rightarrow> ucall \<Rightarrow> 'k uproc \<Rightarrow> (u64 \<times> u8 list) \<times> 'k uproc" where
  "scall K c p =
     (case K c (ukern p) of ((r, out), k) \<Rightarrow> ((r, out), p\<lparr>ukern := k, ucalls := ucalls p @ [(c, r)]\<rparr>))"

definition local_buf :: "nat \<Rightarrow> 'k uproc \<Rightarrow> u8 list" where
  "local_buf n p = map (ujunk p) [0..<n]"

text \<open>What a local buffer of \<open>n\<close> bytes holds after a call that wrote \<open>out\<close> to it.\<close>

definition filled_buf :: "nat \<Rightarrow> u8 list \<Rightarrow> 'k uproc \<Rightarrow> u8 list" where
  "filled_buf n out p = take n (out @ drop (length out) (local_buf n p))"

section \<open>Strings and memory\<close>

partial_function (option) user_strlen_loop :: "memory \<Rightarrow> u64 \<Rightarrow> u64 \<Rightarrow> u64 option" where
  "user_strlen_loop m s len = (if s \<noteq> 0 \<and> m (s + len) \<noteq> 0 then user_strlen_loop m s (len + 1) else Some len)"

definition user_strlen :: "memory \<Rightarrow> u64 \<Rightarrow> u64 option" where
  "user_strlen m s = user_strlen_loop m s 0"

partial_function (option) user_strcmp :: "memory \<Rightarrow> u64 \<Rightarrow> u64 \<Rightarrow> int option" where
  "user_strcmp m s1 s2 =
     (if m s1 \<noteq> 0 \<and> m s1 = m s2 then user_strcmp m (s1 + 1) (s2 + 1) else Some (uint (m s1) - uint (m s2)))"

fun user_strncmp :: "memory \<Rightarrow> u64 \<Rightarrow> u64 \<Rightarrow> nat \<Rightarrow> int" where
  "user_strncmp m s1 s2 0 = 0"
| "user_strncmp m s1 s2 (Suc n) =
     (if m s1 \<noteq> 0 \<and> m s1 = m s2 then user_strncmp m (s1 + 1) (s2 + 1) n else uint (m s1) - uint (m s2))"

partial_function (option) user_strcpy_loop :: "u64 \<Rightarrow> u64 \<Rightarrow> memory \<Rightarrow> memory option" where
  "user_strcpy_loop d s m =
     (let m1 = m(d := m s) in if m s \<noteq> 0 then user_strcpy_loop (d + 1) (s + 1) m1 else Some m1)"

definition user_strcpy :: "u64 \<Rightarrow> u64 \<Rightarrow> memory \<Rightarrow> (u64 \<times> memory) option" where
  "user_strcpy dest src m = map_option (Pair dest) (user_strcpy_loop dest src m)"

fun user_memset_loop :: "u64 \<Rightarrow> u8 \<Rightarrow> nat \<Rightarrow> memory \<Rightarrow> memory" where
  "user_memset_loop p c 0 m = m"
| "user_memset_loop p c (Suc n) m = user_memset_loop (p + 1) c n (m(p := c))"

definition user_memset :: "u64 \<Rightarrow> int \<Rightarrow> nat \<Rightarrow> memory \<Rightarrow> u64 \<times> memory" where
  "user_memset s c n m = (s, user_memset_loop s (word_of_int c) n m)"

fun user_memcpy_loop :: "u64 \<Rightarrow> u64 \<Rightarrow> nat \<Rightarrow> memory \<Rightarrow> memory" where
  "user_memcpy_loop d s 0 m = m"
| "user_memcpy_loop d s (Suc n) m = user_memcpy_loop (d + 1) (s + 1) n (m(d := m s))"

definition user_memcpy :: "u64 \<Rightarrow> u64 \<Rightarrow> nat \<Rightarrow> memory \<Rightarrow> u64 \<times> memory" where
  "user_memcpy dest src n m = (dest, user_memcpy_loop dest src n m)"

section \<open>Output\<close>

definition user_write :: "'k ukernel \<Rightarrow> u8 list \<Rightarrow> 'k uproc \<Rightarrow> 'k uproc" where
  "user_write K s p = snd (scall K (CallWrite 0 s) p)"

definition user_putchar :: "'k ukernel \<Rightarrow> u8 \<Rightarrow> 'k uproc \<Rightarrow> 'k uproc" where
  "user_putchar K c p = user_write K [c] p"

definition user_puts :: "'k ukernel \<Rightarrow> u8 list \<Rightarrow> 'k uproc \<Rightarrow> 'k uproc" where
  "user_puts K s p = user_putchar K 10 (user_write K s p)"

definition user_digit_chars :: "u8 list" where
  "user_digit_chars = ascii ''0123456789ABCDEF''"

text \<open>The digits in \<^verbatim>\<open>buf\<close>, least significant first.\<close>

function user_digits :: "nat \<Rightarrow> nat \<Rightarrow> u8 list" where
  "user_digits base num =
     (if num = 0 \<or> base < 2 then [] else user_digit_chars ! (num mod base) # user_digits base (num div base))"
  by pat_completeness auto

termination user_digits
  by (relation "measure snd") (auto intro: div_less_dividend)

declare user_digits.simps [simp del]

definition print_num :: "'k ukernel \<Rightarrow> u64 \<Rightarrow> nat \<Rightarrow> 'k uproc \<Rightarrow> 'k uproc" where
  "print_num K num base p =
     (if num = 0 then user_putchar K 48 p else fold (user_putchar K) (rev (user_digits base (unat num))) p)"

text \<open>Variable arguments: a string pointer, or the register that holds a number.  A missing argument, the negation of the smallest
  number and a percent sign at the end of the format, after which the loop runs past the terminator, are undefined: \<open>None\<close>.\<close>

datatype uarg = UStr "u8 list option" | UNum u64

fun user_directive :: "'k ukernel \<Rightarrow> u8 \<Rightarrow> uarg list \<Rightarrow> 'k uproc \<Rightarrow> (uarg list \<times> 'k uproc) option" where
  "user_directive K d args p =
     (if d = 115 then
        (case args of UStr s # as \<Rightarrow> Some (as, user_write K (case s of None \<Rightarrow> ascii ''(null)'' | Some cs \<Rightarrow> cs) p) | _ \<Rightarrow> None)
      else if d = 100 then
        (case args of UNum w # as \<Rightarrow>
           if w = 0x8000000000000000 then None
           else if sint w < 0 then Some (as, print_num K (- w) 10 (user_putchar K 45 p))
           else Some (as, print_num K w 10 p)
         | _ \<Rightarrow> None)
      else if d = 120 \<or> d = 112 then
        (case args of UNum w # as \<Rightarrow> Some (as, print_num K w 16 p) | _ \<Rightarrow> None)
      else if d = 99 then
        (case args of UNum w # as \<Rightarrow> Some (as, user_putchar K (ucast w) p) | _ \<Rightarrow> None)
      else if d = 37 then Some (args, user_putchar K 37 p)
      else Some (args, p))"

fun user_printf :: "'k ukernel \<Rightarrow> u8 list \<Rightarrow> uarg list \<Rightarrow> 'k uproc \<Rightarrow> 'k uproc option" where
  "user_printf K [] args p = Some p"
| "user_printf K [c] args p = (if c = 37 then None else Some (user_putchar K c p))"
| "user_printf K (c # d # fmt) args p =
     (if c = 37 then
        (case user_directive K d args p of None \<Rightarrow> None | Some (args1, p1) \<Rightarrow> user_printf K fmt args1 p1)
      else user_printf K (d # fmt) args (user_putchar K c p))"

section \<open>Input\<close>

partial_function (option) user_getchar :: "'k ukernel \<Rightarrow> 'k uproc \<Rightarrow> (u8 \<times> 'k uproc) option" where
  "user_getchar K p =
     (case scall K (CallReadKey 0) p of ((ret, out), p1) \<Rightarrow>
        if sint ret > 0 then Some (ucast ret, p1) else user_getchar K (snd (scall K CallYield p1)))"

section \<open>The arena\<close>

abbreviation USER_HEAP :: u64 where "USER_HEAP \<equiv> 65536"

text \<open>The result is the offset in \<^verbatim>\<open>g_user_heap\<close>, or \<open>None\<close> for NULL.\<close>

definition user_malloc :: "u64 \<Rightarrow> 'k uproc \<Rightarrow> u64 option \<times> 'k uproc" where
  "user_malloc size0 p =
     (let size1 = (size0 + 7) AND NOT 7 in
      if heap_idx p + size1 > USER_HEAP then (None, p)
      else (Some (heap_idx p), p\<lparr>heap_idx := heap_idx p + size1\<rparr>))"

definition user_free :: "u64 option \<Rightarrow> 'k uproc \<Rightarrow> 'k uproc" where
  "user_free ptr p = p"

section \<open>Wrappers\<close>

definition user_yield :: "'k ukernel \<Rightarrow> 'k uproc \<Rightarrow> 'k uproc" where
  "user_yield K p = snd (scall K CallYield p)"

definition user_exit :: "'k ukernel \<Rightarrow> u32 \<Rightarrow> 'k uproc \<Rightarrow> 'k uproc" where
  "user_exit K code p = snd (scall K (CallExit code) p)"

text \<open>The conversion of the 64-bit result to \<^verbatim>\<open>int\<close>.\<close>

definition int_result :: "(u64 \<times> u8 list) \<times> 'k uproc \<Rightarrow> u32 \<times> 'k uproc" where
  "int_result r = (case r of ((ret, out), p) \<Rightarrow> (ucast ret, p))"

definition styx_socket :: "'k ukernel \<Rightarrow> u32 \<Rightarrow> 'k uproc \<Rightarrow> u32 \<times> 'k uproc" where
  "styx_socket K net_slot p = int_result (scall K (CallSocket net_slot) p)"

definition styx_connect :: "'k ukernel \<Rightarrow> u32 \<Rightarrow> u32 \<Rightarrow> u32 \<Rightarrow> u16 \<Rightarrow> 'k uproc \<Rightarrow> u32 \<times> 'k uproc" where
  "styx_connect K net_slot sock ip port p = int_result (scall K (CallConnect net_slot sock ip port) p)"

definition styx_send :: "'k ukernel \<Rightarrow> u32 \<Rightarrow> u32 \<Rightarrow> u8 list \<Rightarrow> 'k uproc \<Rightarrow> u32 \<times> 'k uproc" where
  "styx_send K net_slot sock buf p = int_result (scall K (CallSend net_slot sock buf) p)"

definition styx_recv :: "'k ukernel \<Rightarrow> u32 \<Rightarrow> u32 \<Rightarrow> u64 \<Rightarrow> 'k uproc \<Rightarrow> (u32 \<times> u8 list) \<times> 'k uproc" where
  "styx_recv K net_slot sock max_len p =
     (case scall K (CallRecv net_slot sock max_len) p of ((ret, out), p1) \<Rightarrow> ((ucast ret, filled_buf (unat max_len) out p), p1))"

definition styx_pqc_kem :: "'k ukernel \<Rightarrow> u8 list \<Rightarrow> 'k uproc \<Rightarrow> u32 \<times> 'k uproc" where
  "styx_pqc_kem K pk p = int_result (scall K (CallPqcKem pk) p)"

definition styx_emergency_wipe :: "'k ukernel \<Rightarrow> 'k uproc \<Rightarrow> u32 \<times> 'k uproc" where
  "styx_emergency_wipe K p = int_result (scall K (CallWipe 0) p)"

section \<open>The string functions\<close>

text \<open>The two C libraries agree, except for the null pointer that this \<^verbatim>\<open>strlen\<close> accepts.\<close>

lemma user_strcmp_eq: "strcmp m p q = Some r \<Longrightarrow> user_strcmp m p q = Some r"
  by (rule strcmp.raw_induct [of "\<lambda>m p q r. user_strcmp m p q = Some r"], subst user_strcmp.simps) (auto split: if_splits)

lemma user_strcpy_loop_eq: "strcat_copy d s m = Some m' \<Longrightarrow> user_strcpy_loop d s m = Some m'"
  by (rule strcat_copy.raw_induct [of "\<lambda>d s m m'. user_strcpy_loop d s m = Some m'"], subst user_strcpy_loop.simps)
    (auto simp: Let_def split: if_splits)

lemma user_memcpy_eq: "user_memcpy dest src n m = memcpy dest src n m"
proof -
  have "user_memcpy_loop d s n m = copy_up d s n m" for d s by (induction n arbitrary: d s m) simp_all
  then show ?thesis by (simp add: user_memcpy_def memcpy_def)
qed

lemma user_memset_eq: "user_memset s c n m = memset s c n m"
proof -
  have "user_memset_loop p b n m = fill_up p b n m" for p b by (induction n arbitrary: p m) simp_all
  then show ?thesis by (simp add: user_memset_def memset_def)
qed

lemma user_strlen_loop_eq: "strlen_loop m s l = Some r \<Longrightarrow> s \<noteq> 0 \<Longrightarrow> user_strlen_loop m s l = Some r"
  by (rule strlen_loop.raw_induct [of "\<lambda>m s l r. s \<noteq> 0 \<longrightarrow> user_strlen_loop m s l = Some r", rule_format], subst user_strlen_loop.simps)
    (auto split: if_splits)

lemma user_strlen_null: "user_strlen m 0 = Some 0"
  by (simp add: user_strlen_def user_strlen_loop.simps)

lemma user_strncmp_at:
  "string_at m p v \<Longrightarrow> string_at m q w \<Longrightarrow> user_strncmp m p q n = compare_ref (take n v) (take n w)"
proof (induction n arbitrary: p q v w)
  case (Suc n)
  show ?case
  proof (cases v; cases w)
    fix c cs d ds assume e: "v = c # cs" "w = d # ds"
    then have "m p = c" "m q = d" "c \<noteq> 0" "string_at m (p + 1) cs" "string_at m (q + 1) ds"
      using Suc.prems by (simp_all add: string_at_Cons)
    then show ?thesis using Suc.IH [of "p + 1" cs "q + 1" ds] e by simp
  qed (use Suc.prems in \<open>simp_all add: string_at_Cons string_at_Nil\<close>)
qed simp

text \<open>A string is copied with its terminator and nothing else changes, provided the two blocks do not meet; a comparison looks at
  most \<open>n\<close> bytes far.\<close>

theorem user_string_functions:
  assumes "string_at m p v" "string_at m q w" "p \<noteq> 0"
    "\<forall>i \<le> length w. \<forall>j \<le> length w. d + word_of_nat i \<noteq> q + word_of_nat j" "length w < 2 ^ 64 - 1"
  shows "user_strlen m p = Some (word_of_nat (length v)) \<and> user_strcmp m p q = Some (compare_ref v w) \<and>
    (user_strncmp m p q n = 0 \<longleftrightarrow> take n v = take n w) \<and>
    (\<exists>m'. user_strcpy d q m = Some (d, m') \<and> string_at m' d w \<and> (\<forall>a. length w < unat (a - d) \<longrightarrow> m' a = m a))"
proof -
  have z: "0 \<notin> set (take n v)" "0 \<notin> set (take n w)" using assms(1,2) by (auto simp: string_at_def dest: in_set_takeD)
  have len: "user_strlen m p = Some (word_of_nat (length v))"
    using strlen_loop_at [of m p 0 v] assms(1,3) by (simp add: user_strlen_loop_eq user_strlen_def)
  let ?m = "copy_up d q (Suc (length w)) m"
  have copy: "user_strcpy d q m = Some (d, ?m)"
    using strcat_copy_at [OF assms(2,4)] by (simp add: user_strcpy_def user_strcpy_loop_eq del: copy_up.simps)
  have at: "?m (d + word_of_nat k) = (if k < Suc (length w) then m (q + word_of_nat k) else m (d + word_of_nat k))"
    if "k < 2 ^ 64" for k using copy_up_at [of "Suc (length w)" d q k m] assms(4,5) that by simp
  have b: "bytes_of ?m d (Suc (length w)) = bytes_of m q (Suc (length w)) \<and> (\<forall>a. Suc (length w) \<le> unat (a - d) \<longrightarrow> ?m a = m a)"
    by (rule copied_block [of ?m, OF at]) (use assms(5) in simp_all)
  have i: "?m (d + word_of_nat i) = m (q + word_of_nat i)" if "i \<le> length w" for i
    using at [of i] that assms(5) by simp
  have "bytes_of ?m d (length w) = bytes_of m q (length w)" using i by (simp add: bytes_of_def del: copy_up.simps)
  then have "string_at ?m d w" using assms(2) i [of "length w"] by (simp add: string_at_def del: copy_up.simps)
  then show ?thesis
    using len copy b strcmp_at [OF assms(1,2)] user_strncmp_at [OF assms(1,2), of n] compare_ref_zero [OF z]
    by (simp add: user_strcmp_eq Suc_le_eq del: copy_up.simps)
qed

section \<open>Output\<close>

text \<open>What a process has done between two states: it wrote \<open>cs\<close> to the console slot and made no other call.\<close>

fun write_of :: "ucall \<Rightarrow> u8 list" where
  "write_of (CallWrite slot buf) = buf"
| "write_of c = []"

fun console_write :: "ucall \<Rightarrow> bool" where
  "console_write (CallWrite slot buf) = (slot = 0)"
| "console_write c = False"

definition written :: "(ucall \<times> u64) list \<Rightarrow> u8 list" where
  "written t = concat (map (write_of \<circ> fst) t)"

definition wrote :: "'k uproc \<Rightarrow> u8 list \<Rightarrow> 'k uproc \<Rightarrow> bool" where
  "wrote p cs p' =
     (heap_idx p' = heap_idx p \<and> ujunk p' = ujunk p \<and>
      (\<exists>t. ucalls p' = ucalls p @ t \<and> list_all (console_write \<circ> fst) t \<and> written t = cs))"

lemma wrote_Nil: "wrote p [] p"
  by (simp add: wrote_def written_def)

lemma wrote_trans: "wrote p cs p1 \<Longrightarrow> wrote p1 ds p2 \<Longrightarrow> wrote p (cs @ ds) p2"
  unfolding wrote_def written_def by force

lemma wrote_write: "wrote p s (user_write K s p)"
  by (auto simp: wrote_def user_write_def scall_def written_def split: prod.splits)

lemma wrote_putchar: "wrote p [c] (user_putchar K c p)"
  by (simp add: user_putchar_def wrote_write)

lemma wrote_puts: "wrote p (s @ [10]) (user_puts K s p)"
  unfolding user_puts_def by (rule wrote_trans [OF wrote_write wrote_putchar])

lemma wrote_chars: "wrote p cs (fold (user_putchar K) cs p)"
proof (induction cs arbitrary: p)
  case (Cons c cs)
  then show ?case using wrote_trans [OF wrote_putchar [of p c K] Cons.IH] by simp
qed (simp add: wrote_Nil)

definition user_num_text :: "nat \<Rightarrow> u64 \<Rightarrow> u8 list" where
  "user_num_text base w = (if w = 0 then [48] else rev (user_digits base (unat w)))"

lemma wrote_num: "wrote p (user_num_text base w) (print_num K w base p)"
  by (simp add: print_num_def user_num_text_def wrote_putchar wrote_chars)

text \<open>The digits are the number in the base, without a leading zero, and the buffer of 32 bytes is large enough.\<close>

lemma user_digits_length: "num < base ^ k \<Longrightarrow> length (user_digits base num) \<le> k"
proof (induction k arbitrary: num)
  case (Suc k)
  show ?case
  proof (cases "num = 0 \<or> base < 2")
    case False
    then have "num div base < base ^ k" using Suc.prems by (simp add: less_mult_imp_div_less mult.commute)
    then show ?thesis using Suc.IH [of "num div base"] False by (subst user_digits.simps) simp
  qed (subst user_digits.simps, simp)
qed (simp add: user_digits.simps)

theorem user_digits_fit:
  fixes w :: u64
  assumes "10 \<le> base"
  shows "length (user_digits base (unat w)) \<le> 20"
proof (rule user_digits_length)
  have "unat w < 2 ^ 64" using unsigned_less [of w] by simp
  also have "\<dots> \<le> 10 ^ 20" by simp
  also have "\<dots> \<le> base ^ 20" using assms by (rule power_mono) simp
  finally show "unat w < base ^ 20" .
qed

theorem user_digits_value:
  assumes "2 \<le> base"
  shows "\<exists>ds. rev (user_digits base num) = map ((!) user_digit_chars) ds \<and> foldl (\<lambda>a d. a * base + d) 0 ds = num \<and>
    (\<forall>d \<in> set ds. d < base) \<and> (num \<noteq> 0 \<longrightarrow> hd ds \<noteq> 0)"
proof (induction num rule: less_induct)
  case (less num)
  show ?case
  proof (cases "num = 0")
    case True
    then show ?thesis by (intro exI [of _ "[]"]) (simp add: user_digits.simps)
  next
    case False
    then have "num div base < num" using assms by simp
    then obtain ds where ds: "rev (user_digits base (num div base)) = map ((!) user_digit_chars) ds"
        "foldl (\<lambda>a d. a * base + d) 0 ds = num div base" "\<forall>d \<in> set ds. d < base" "num div base \<noteq> 0 \<longrightarrow> hd ds \<noteq> 0"
      using less by blast
    have "rev (user_digits base num) = map ((!) user_digit_chars) (ds @ [num mod base])"
      using False assms ds(1) by (subst user_digits.simps) simp
    moreover have "hd (ds @ [num mod base]) \<noteq> 0"
    proof (cases "num div base = 0")
      case True
      then have "num < base" using assms by (simp add: div_eq_0_iff)
      moreover have "ds = []" using True ds(1) by (simp add: user_digits.simps)
      ultimately show ?thesis using False by simp
    next
      case nz: False
      then have "ds \<noteq> []" using ds(2) by auto
      then show ?thesis using ds(4) nz by simp
    qed
    ultimately show ?thesis using ds assms by (intro exI [of _ "ds @ [num mod base]"]) auto
  qed
qed

text \<open>The text of a format, independently of the loop that sends it.  A directive that the loop does not know, such as a width,
  prints nothing and takes no argument.\<close>

fun user_directive_text :: "u8 \<Rightarrow> uarg list \<Rightarrow> (uarg list \<times> u8 list) option" where
  "user_directive_text d args =
     (if d \<in> {115, 100, 120, 112, 99} then
        (case args of
           UStr s # as \<Rightarrow> if d = 115 then Some (as, case s of None \<Rightarrow> ascii ''(null)'' | Some cs \<Rightarrow> cs) else None
         | UNum w # as \<Rightarrow>
             if d = 99 then Some (as, [ucast w])
             else if d = 100 then
               if w = 0x8000000000000000 then None
               else Some (as, if sint w < 0 then 45 # user_num_text 10 (- w) else user_num_text 10 w)
             else if d = 115 then None
             else Some (as, user_num_text 16 w)
         | [] \<Rightarrow> None)
      else Some (args, if d = 37 then [37] else []))"

fun user_text :: "u8 list \<Rightarrow> uarg list \<Rightarrow> u8 list option" where
  "user_text [] args = Some []"
| "user_text [c] args = (if c = 37 then None else Some [c])"
| "user_text (c # d # fmt) args =
     (if c = 37 then
        (case user_directive_text d args of None \<Rightarrow> None | Some (args1, t) \<Rightarrow> map_option ((@) t) (user_text fmt args1))
      else map_option ((#) c) (user_text (d # fmt) args))"

lemma user_directive_writes:
  "case user_directive_text d args of None \<Rightarrow> user_directive K d args p = None
   | Some (as, t) \<Rightarrow> (\<exists>p'. user_directive K d args p = Some (as, p') \<and> wrote p t p')"
  using wrote_trans [OF wrote_putchar [of p 45 K] wrote_num]
  by (auto simp: wrote_num wrote_write wrote_putchar wrote_Nil split: list.splits uarg.splits)

theorem user_printf_writes:
  "case user_text fmt args of None \<Rightarrow> user_printf K fmt args p = None
   | Some t \<Rightarrow> (\<exists>p'. user_printf K fmt args p = Some p' \<and> wrote p t p')"
proof (induction K fmt args p rule: user_printf.induct)
  case (3 K c d fmt args p)
  show ?case
  proof (cases "c = 37")
    case True
    show ?thesis
    proof (cases "user_directive_text d args")
      case None
      then show ?thesis using True user_directive_writes [where d = d and args = args and K = K and p = p] by simp
    next
      case (Some r)
      obtain as t where r: "r = (as, t)" by force
      then obtain p1 where p1: "user_directive K d args p = Some (as, p1)" "wrote p t p1"
        using user_directive_writes [where d = d and args = args and K = K and p = p] Some by auto
      then show ?thesis using "3.IH"(1) [OF True p1(1) refl] True Some r wrote_trans [OF p1(2)]
        by (cases "user_text fmt as") (auto simp del: user_directive.simps user_directive_text.simps)
    qed
  next
    case False
    then show ?thesis using "3.IH"(2) [OF False] wrote_trans [OF wrote_putchar [of p c K]]
      by (cases "user_text (d # fmt) args") auto
  qed
qed (auto simp: wrote_Nil wrote_putchar)

text \<open>The format \<^verbatim>\<open>%02x\<close>, with which the shells print the bytes of a shared secret, prints the two characters \<^verbatim>\<open>2x\<close>
  whatever the argument is.\<close>

theorem user_width_dropped: "\<exists>p'. user_printf K (ascii ''%02x'') args p = Some p' \<and> wrote p (ascii ''2x'') p'"
proof -
  have "user_text (ascii ''%02x'') args = Some (ascii ''2x'')" by (simp add: ascii_def)
  then show ?thesis using user_printf_writes [where fmt = "ascii ''%02x''" and args = args and K = K and p = p] by simp
qed

section \<open>Input\<close>

text \<open>A kernel that answers the polls of a waiting program with a key sooner or later.\<close>

definition poll_round :: "'k ukernel \<Rightarrow> 'k \<Rightarrow> 'k" where
  "poll_round K k = snd (K CallYield (snd (K (CallReadKey 0) k)))"

definition key_pending :: "'k ukernel \<Rightarrow> 'k \<Rightarrow> bool" where
  "key_pending K k = (0 < sint (fst (fst (K (CallReadKey 0) k))))"

definition keys_come :: "'k ukernel \<Rightarrow> bool" where
  "keys_come K = (\<forall>k. \<exists>n. key_pending K ((poll_round K ^^ n) k))"

fun key_of :: "ucall \<times> u64 \<Rightarrow> u8 list" where
  "key_of (CallReadKey slot, r) = (if 0 < sint r then [ucast r] else [])"
| "key_of (c, r) = []"

definition keys_read :: "(ucall \<times> u64) list \<Rightarrow> u8 list" where
  "keys_read t = concat (map key_of t)"

fun waits :: "ucall \<Rightarrow> bool" where
  "waits CallYield = True"
| "waits (CallReadKey slot) = (slot = 0)"
| "waits c = False"

text \<open>Between two states the process has only waited, and the keys \<open>cs\<close> were read.\<close>

definition waited :: "'k uproc \<Rightarrow> u8 list \<Rightarrow> 'k uproc \<Rightarrow> bool" where
  "waited p cs p' =
     (heap_idx p' = heap_idx p \<and> ujunk p' = ujunk p \<and>
      (\<exists>t. ucalls p' = ucalls p @ t \<and> list_all (waits \<circ> fst) t \<and> keys_read t = cs))"

lemma waited_trans: "waited p cs p1 \<Longrightarrow> waited p1 ds p2 \<Longrightarrow> waited p (cs @ ds) p2"
  unfolding waited_def keys_read_def by force

lemma user_getchar_pending:
  assumes "key_pending K ((poll_round K ^^ n) (ukern p))"
  shows "\<exists>c p'. user_getchar K p = Some (c, p') \<and> waited p [c] p'"
  using assms
proof (induction n arbitrary: p)
  case 0
  then show ?case
    by (subst user_getchar.simps) (auto simp: scall_def key_pending_def waited_def keys_read_def split: prod.splits)
next
  case (Suc n)
  obtain ret out p1 where p1: "scall K (CallReadKey 0) p = ((ret, out), p1)" by (metis prod.exhaust)
  let ?q = "snd (scall K CallYield p1)"
  have k: "ukern ?q = poll_round K (ukern p)" using p1 by (auto simp: scall_def poll_round_def split: prod.splits)
  show ?case
  proof (cases "0 < sint ret")
    case True
    then have "user_getchar K p = Some (ucast ret, p1)" using p1 by (subst user_getchar.simps) simp
    moreover have "waited p [ucast ret] p1" using p1 True by (auto simp: scall_def waited_def keys_read_def split: prod.splits)
    ultimately show ?thesis by blast
  next
    case False
    have w: "waited p [] ?q" using p1 False by (auto simp: scall_def waited_def keys_read_def split: prod.splits)
    have "key_pending K ((poll_round K ^^ n) (ukern ?q))" using Suc.prems k by (simp add: funpow_swap1)
    then obtain c p' where "user_getchar K ?q = Some (c, p')" "waited ?q [c] p'" using Suc.IH by blast
    then show ?thesis using p1 False waited_trans [OF w] by (subst user_getchar.simps) auto
  qed
qed

theorem user_getchar_returns:
  assumes "keys_come K"
  shows "\<exists>c p'. user_getchar K p = Some (c, p') \<and> waited p [c] p'"
proof -
  obtain n where "key_pending K ((poll_round K ^^ n) (ukern p))" using assms by (auto simp: keys_come_def)
  then show ?thesis by (rule user_getchar_pending)
qed

section \<open>The arena\<close>

definition arena_ok :: "'k uproc \<Rightarrow> bool" where
  "arena_ok p = (heap_idx p \<le> USER_HEAP \<and> 8 dvd unat (heap_idx p))"

lemma low_bits:
  "unat (v AND 7) = unat v mod 8" "unat (v AND NOT 7) = unat v div 8 * 8" for v :: u64
proof -
  have m: "(7 :: u64) = mask 3" by (simp add: mask_eq_exp_minus_1)
  show l: "unat (v AND 7) = unat v mod 8"
    by (simp only: m take_bit_eq_mask [symmetric] unsigned_take_bit_eq) (simp add: take_bit_eq_mod)
  have "v - (v AND 7) = v AND NOT (v AND 7)"
    by (rule disjunctive_diff_eq_and_not) (rule bit_word_eqI, simp only: bit_simps, auto)
  moreover have "v AND NOT (v AND 7) = v AND NOT 7" by (rule bit_word_eqI) (simp only: bit_simps, auto)
  ultimately have "v AND NOT 7 = v - (v AND 7)" by (simp only:)
  then show "unat (v AND NOT 7) = unat v div 8 * 8"
    using l by (simp add: unat_sub_if' word_le_nat_alt minus_mod_eq_div_mult)
qed

lemma round_up_8: "unat n + 7 < 2 ^ 64 \<Longrightarrow> unat ((n + 7) AND NOT 7) = (unat n + 7) div 8 * 8" for n :: u64
  unfolding low_bits by (simp add: unat_word_ariths)

lemma clear_disjoint: "x AND y = 0 \<Longrightarrow> (x OR y) AND NOT y = x" for x y :: u64
proof (rule bit_word_eqI)
  fix j assume z: "x AND y = 0" and j: "j < LENGTH(64)"
  then have "\<not> (bit x j \<and> bit y j)" by (metis bit_0_eq bit_and_iff bot_apply bot_bool_def)
  then show "bit ((x OR y) AND NOT y) j = bit x j"
    using j by (auto simp: bit_and_iff bit_or_iff bit_not_iff possible_bit_word)
qed

text \<open>Requests one after the other; the blocks that were given out, as offset and requested size.\<close>

fun user_mallocs :: "u64 list \<Rightarrow> 'k uproc \<Rightarrow> (nat \<times> nat) list \<times> 'k uproc" where
  "user_mallocs [] p = ([], p)"
| "user_mallocs (n # ns) p =
     (case user_malloc n p of (r, p1) \<Rightarrow>
      case user_mallocs ns p1 of (bs, p2) \<Rightarrow> ((case r of None \<Rightarrow> bs | Some off \<Rightarrow> (unat off, unat n) # bs), p2))"

lemma user_malloc_sane:
  assumes "arena_ok p" "unat n < 2 ^ 63" "user_malloc n p = (r, p1)"
  shows "arena_ok p1" "unat (heap_idx p) \<le> unat (heap_idx p1)"
    "case r of None \<Rightarrow> p1 = p | Some off \<Rightarrow> off = heap_idx p \<and> unat off + unat n \<le> unat (heap_idx p1)"
proof -
  let ?s = "(n + 7) AND NOT 7"
  have s: "unat ?s = (unat n + 7) div 8 * 8" using assms(2) by (intro round_up_8) simp
  have h: "unat (heap_idx p) \<le> 65536" using assms(1) by (simp add: arena_ok_def word_le_nat_alt)
  have "unat ?s \<le> unat n + 7" unfolding s by simp
  then have add: "unat (heap_idx p + ?s) = unat (heap_idx p) + unat ?s"
    using h assms(2) by (simp add: unat_word_ariths)
  have "unat n \<le> unat ?s" "8 dvd unat ?s" unfolding s by simp_all
  then have up: "unat (heap_idx p) \<le> unat (heap_idx p + ?s)" "unat (heap_idx p) + unat n \<le> unat (heap_idx p + ?s)"
      "8 dvd unat (heap_idx p) \<Longrightarrow> 8 dvd unat (heap_idx p + ?s)"
    unfolding add by simp_all
  show "arena_ok p1" "unat (heap_idx p) \<le> unat (heap_idx p1)"
    "case r of None \<Rightarrow> p1 = p | Some off \<Rightarrow> off = heap_idx p \<and> unat off + unat n \<le> unat (heap_idx p1)"
    using assms(1,3) up by (auto simp: user_malloc_def Let_def arena_ok_def split: if_splits)
qed

theorem user_malloc_disjoint:
  assumes "arena_ok p" "list_all (\<lambda>n. unat n < 2 ^ 63) ns" "user_mallocs ns p = (bs, p')"
  shows "arena_ok p' \<and> unat (heap_idx p) \<le> unat (heap_idx p') \<and> sorted_wrt (\<lambda>(o1, n1) (o2, n2). o1 + n1 \<le> o2) bs \<and>
    list_all (\<lambda>(off, n). 8 dvd off \<and> unat (heap_idx p) \<le> off \<and> off + n \<le> unat (heap_idx p')) bs"
  using assms
proof (induction ns arbitrary: p bs)
  case (Cons n ns)
  obtain r p1 where r: "user_malloc n p = (r, p1)" by force
  obtain bs1 where bs1: "user_mallocs ns p1 = (bs1, p')" using Cons.prems(3) r by (auto split: prod.splits)
  have n: "unat n < 2 ^ 63" "list_all (\<lambda>n. unat n < 2 ^ 63) ns" using Cons.prems(2) by simp_all
  note sane = user_malloc_sane [OF Cons.prems(1) n(1) r]
  note rest = Cons.IH [OF sane(1) n(2) bs1]
  have wk: "list_all (\<lambda>(off, n). 8 dvd off \<and> unat (heap_idx p) \<le> off \<and> off + n \<le> unat (heap_idx p')) bs1"
    using rest sane(2) by (auto simp: list_all_iff)
  show ?case
  proof (cases r)
    case None
    then show ?thesis using rest sane Cons.prems(3) r bs1 by simp
  next
    case (Some off)
    have b: "bs = (unat off, unat n) # bs1" using Cons.prems(3) r bs1 Some by simp
    have off: "off = heap_idx p" "unat off + unat n \<le> unat (heap_idx p1)" using sane(3) unfolding Some option.case by blast+
    have "list_all (\<lambda>(o2, n2). unat off + unat n \<le> o2) bs1" using rest off(2) by (auto simp: list_all_iff)
    then show ?thesis using rest wk off sane(2) Cons.prems(1) unfolding b by (auto simp: list_all_iff arena_ok_def)
  qed
qed simp

text \<open>The sum in the test wraps.  A request that is the complement of what is in use passes it, returns the free offset and sets
  the mark back to the start of the arena, so that the next request gets memory that was given out before.\<close>

theorem user_malloc_wraps:
  assumes "arena_ok p"
  shows "user_malloc (- heap_idx p) p = (Some (heap_idx p), p\<lparr>heap_idx := 0\<rparr>)"
proof -
  let ?x = "- heap_idx p"
  have "unat ?x = (if heap_idx p = 0 then 0 else 2 ^ 64 - unat (heap_idx p))"
    using unat_sub_if' [of 0 "heap_idx p"] by (simp add: word_le_nat_alt unat_eq_0)
  then have "8 dvd unat ?x" using assms by (auto simp: arena_ok_def intro!: dvd_diff_nat)
  then have z: "?x AND 7 = 0" using low_bits(1) [of ?x] by (simp add: unat_eq_0)
  then have "(?x + 7) AND NOT 7 = (?x OR 7) AND NOT 7" by (simp only: disjunctive_add_eq_or)
  also have "\<dots> = ?x" by (rule clear_disjoint [OF z])
  finally have "(?x + 7) AND NOT 7 = ?x" .
  then show ?thesis by (simp add: user_malloc_def)
qed

section \<open>Witnesses\<close>

text \<open>A kernel that answers every third poll with a key.\<close>

fun wkernel_calls :: "nat ukernel" where
  "wkernel_calls (CallReadKey slot) k = ((if k mod 3 = 2 then 65 else 0, []), k)"
| "wkernel_calls CallYield k = ((0, []), k + 1)"
| "wkernel_calls c k = ((0, []), k)"

definition wproc :: "nat uproc" where
  "wproc = \<lparr>ukern = 0, ucalls = [], heap_idx = 0, ujunk = (\<lambda>_. 0)\<rparr>"

lemma wkernel_keys: "keys_come wkernel_calls"
proof -
  have r: "(poll_round wkernel_calls ^^ n) k = k + n" for n k by (induction n) (simp_all add: poll_round_def)
  have "(k + (2 + 2 * k)) mod 3 = 2" for k :: nat by presburger
  then have "key_pending wkernel_calls ((poll_round wkernel_calls ^^ (2 + 2 * k)) k)" for k
    unfolding r by (simp add: key_pending_def)
  then show ?thesis unfolding keys_come_def by blast
qed

theorem user_getchar_returns_witness: "\<exists>c p'. user_getchar wkernel_calls wproc = Some (c, p') \<and> waited wproc [c] p'"
  by (rule user_getchar_returns [OF wkernel_keys])

theorem user_malloc_disjoint_witness:
  "\<exists>p'. user_mallocs [5, 70000, 16, 3] wproc = ([(0, 5), (8, 16), (24, 3)], p') \<and> arena_ok p' \<and> 27 \<le> unat (heap_idx p')"
proof -
  obtain p' where e: "user_mallocs [5, 70000, 16, 3] wproc = ([(0, 5), (8, 16), (24, 3)], p')"
    by (simp add: user_malloc_def wproc_def Let_def)
  have "arena_ok wproc" by (simp add: arena_ok_def wproc_def)
  then show ?thesis using user_malloc_disjoint [OF _ _ e] e by simp
qed

theorem user_malloc_wraps_witness:
  "fst (user_malloc 0xFFFFFFFFFFFFFFF8 (wproc\<lparr>heap_idx := 8\<rparr>)) = Some 8 \<and>
   heap_idx (snd (user_malloc 0xFFFFFFFFFFFFFFF8 (wproc\<lparr>heap_idx := 8\<rparr>))) = 0"
proof -
  have a: "arena_ok (wproc\<lparr>heap_idx := 8\<rparr>)" by (simp add: arena_ok_def)
  have e: "(0xFFFFFFFFFFFFFFF8 :: u64) = - heap_idx (wproc\<lparr>heap_idx := 8\<rparr>)" by simp
  show ?thesis unfolding e user_malloc_wraps [OF a] by simp
qed

end
