(* ===== verification/Spec2Isabelle.thy ===== *)
theory Spec2Isabelle
  imports Pmm Vmm Heap Task Sched Cap Aes Xts Chacha20 Gcm Sha512 Rng Pci Nic Net Tcp Tor Storage Oram Ring Console Pqc Syscall Fat32 Elf Task_Create Auth_Counter Fido2 Session_Resume Auth Cstring Tpm Cpu Xhci Serial Interrupt User_Lib
begin

text \<open>
  StyxOS is a small 64-bit kernel with capability-based system calls, an encrypted and integrity-checked USB disk, an
  oblivious store for session snapshots, a log-in before boot and a network stack that hides its traffic.  This library models
  the C code of \<^verbatim>\<open>src/kernel\<close> and the C library of \<^verbatim>\<open>src/user\<close> by executable definitions, one theory per component, and proves what makes each of them
  correct.  Every definition carries the name of the C function or type it translates; where one C function is split, the
  parts are named after what they do and the definition of the C name composes them.

  \<^bold>\<open>How code becomes definitions.\<close>  A C struct, and the static variables of a file, are a record; an operation takes the
  record and returns the changed one with its result.  Machine integers are words of their width (\<open>u8\<close> to \<open>u64\<close>), or naturals
  with the wrap-around written out where the code does address arithmetic.  Memory is a function on addresses, a list of
  blocks or a map of page tables, whichever the code reads and writes.  Return codes are integers as in C; halting
  is a constructor of the type \<open>run\<close> (\<open>Halt\<close>, after \<^verbatim>\<open>destruct_trigger\<close> or a panic).  Devices are parameters: functions in
  the state record that answer a register or sector access and move the device state on, with the laws used about them
  written as hypotheses of the theorems and met by a concrete device in the witnesses.  Serial output is not part of the states,
  except in the theory of the serial line itself.

  \<^bold>\<open>Memory.\<close>  \<open>Pmm\<close> (\<^verbatim>\<open>pmm.c\<close>) is the frame bitmap; it refines a set of free frames through the interface \<open>frame_allocator\<close>.
  \<open>Vmm\<close> (\<^verbatim>\<open>vmm.c\<close>) walks and builds four-level page tables out of those frames: mapping then translating gives the mapping,
  other addresses keep theirs, and the tables stay a tree.  \<open>Heap\<close> (\<^verbatim>\<open>heap.c\<close>) is the first-fit allocator: blocks handed out are
  disjoint, aligned and inside the heap, and freeing gives back exactly one block (for requests up to 1 GiB).  \<open>Cstring\<close> (\<^verbatim>\<open>string.c\<close>) has the copy and string
  functions on a byte memory; the other theories use list operations in their place, which its theorems justify.

  \<^bold>\<open>Tasks and capabilities.\<close>  \<open>Task\<close> and \<open>Task_Create\<close> (\<^verbatim>\<open>task.c\<close>, the program start of \<^verbatim>\<open>main.c\<close>), \<open>Sched\<close> (\<^verbatim>\<open>sched.c\<close>) and \<open>Cap\<close>
  (\<^verbatim>\<open>cap.c\<close>, \<^verbatim>\<open>endpoint.c\<close>) share one state.  The scheduler is a step relation: one task runs, and every ready task gets its
  turn.  Capabilities are a step relation too: no step gives a task rights nobody had, and revoked capabilities stay
  useless until a saved pool is imported.  Message buffers and the memory the system calls read and write are one byte memory,
  the field \<open>umem\<close>: a function for the user half of each address space and one for the kernel half they share, addressed through
  the page tables in force; a message is 48 of its bytes.  \<open>Syscall\<close> (\<^verbatim>\<open>syscall.c\<close>) composes all of this with the console, the
  network and the disk: every guarded call checks its capability first, and no call writes into another address space.  \<open>Cpu\<close> (\<^verbatim>\<open>gdt.c\<close>, \<^verbatim>\<open>tss.c\<close>, \<^verbatim>\<open>idt.c\<close>, \<^verbatim>\<open>syscall_init\<close>) has the
  processor tables and reads them back as the processor does.  \<open>Elf\<close> (\<^verbatim>\<open>elf.c\<close>, \<^verbatim>\<open>manifest.c\<close>) loads programs, from memory or through
  \<open>Fat32\<close> (\<^verbatim>\<open>fat32.c\<close>, \<^verbatim>\<open>vfs.c\<close>), into the page tables of a task; the loaded image is proved byte by byte.
  \<open>Interrupt\<close> (\<^verbatim>\<open>irq.c\<close>, \<^verbatim>\<open>pit.c\<close>, \<^verbatim>\<open>isr.c\<close>) runs the handlers on this kernel state: a step relation of interrupts and yields, in which a
  task switch leaves a handler unfinished until the task is resumed.  Between two states only what the handlers own changes, and the
  network state and the circuit change exactly by the timer ticks counted (\<open>net_ticks\<close>).

  \<^bold>\<open>Cryptography.\<close>  \<open>Aes\<close>, \<open>Xts\<close>, \<open>Chacha20\<close>, \<open>Gcm\<close>, \<open>Sha512\<close>, \<open>Rng\<close> and \<open>Pqc\<close> translate \<^verbatim>\<open>aes.c\<close>, \<^verbatim>\<open>xts.c\<close>, \<^verbatim>\<open>chacha20.c\<close>, \<^verbatim>\<open>csprng.c\<close>,
  \<^verbatim>\<open>gcm.c\<close>, \<^verbatim>\<open>crypto.c\<close> and \<^verbatim>\<open>pqc.c\<close>.  Decryption undoes encryption for all keys and lengths, incremental hashing equals hashing
  at once, and HMAC and HKDF equal their definitions over the hash.  The stream ciphers share the interface \<open>keystream_cipher\<close>.

  \<^bold>\<open>Disk.\<close>  \<open>Storage\<close> (\<^verbatim>\<open>usb_msc.c\<close>, \<^verbatim>\<open>merkle.c\<close>, \<^verbatim>\<open>integrity.c\<close>, \<^verbatim>\<open>destruct.c\<close>) puts sector encryption, the integrity tree and the
  emergency wipe on the bulk transfers of the USB controller.  Its theorems follow a read through all outcomes: with encryption on and
  the integrity list in force a sector that does not have the recorded hash starts the wipe.  Its interface \<open>sector_io\<close> is what \<open>Oram\<close>, \<open>Fat32\<close> and \<open>Auth_Counter\<close>
  rely on.  \<open>Oram\<close> (\<^verbatim>\<open>oram.c\<close>) refines an array of blocks (\<open>block_array\<close>).
  \<open>Snapshot_Store\<close>, \<open>Snapshot_Layout\<close>, \<open>Snapshot\<close> and \<open>Session_Resume\<close> (\<^verbatim>\<open>snapshot.c\<close>) save the tasks with their memory into sealed
  blocks of that store and put them back: the byte layouts are instances of the interface \<open>codec\<close>, and the round trip goes through the
  buffer, the encryption and the store.

  \<open>Xhci_Ring\<close> and \<open>Xhci\<close> (\<^verbatim>\<open>xhci.c\<close>) are the host controller driver behind these transfers: its rings are queues in shared memory
  (\<open>dma_queue\<close>), and the controller is a function that answers register reads and may change that memory.

  \<^bold>\<open>Log-in and attestation.\<close>  \<open>Auth_Counter\<close> (\<^verbatim>\<open>auth_counter.c\<close>), \<open>Fido2\<close> (\<^verbatim>\<open>fido2.c\<close>, \<^verbatim>\<open>usb_hid.c\<close>) and \<open>Auth\<close> (\<^verbatim>\<open>auth.c\<close>) model the
  whole dialogue before boot over the sequence of port reads; \<open>Tpm\<close> (\<^verbatim>\<open>tpm_tis.c\<close>, \<^verbatim>\<open>tpm.c\<close>, \<^verbatim>\<open>tpm_visual.c\<close>) the register protocol of the
  chip and the measured boot; the chip is any function, and the driver is compared with the order of the interface specification.

  \<^bold>\<open>Console and network.\<close>  \<open>Console\<close> (\<^verbatim>\<open>fb.c\<close>, \<^verbatim>\<open>font.c\<close>, \<^verbatim>\<open>fb_shell.c\<close>, \<^verbatim>\<open>keyboard.c\<close>) with the ring buffers of \<open>Ring\<close>; \<open>Pci\<close> (\<^verbatim>\<open>pci.c\<close>), \<open>Nic\<close>
  (\<^verbatim>\<open>e1000.c\<close>, \<^verbatim>\<open>anonymize.c\<close>), \<open>Net\<close> (\<^verbatim>\<open>net_proto.c\<close>, \<^verbatim>\<open>padding.c\<close>), \<open>Tcp\<close> (\<^verbatim>\<open>tcp.c\<close>) and \<open>Tor\<close> (\<^verbatim>\<open>tor.c\<close>).
  \<open>Serial\<close> (\<^verbatim>\<open>serial.c\<close>) is the serial line with its formatted output.

  \<^bold>\<open>User library.\<close>  \<open>User_Lib\<close> (\<^verbatim>\<open>src/user/libstyx/styx.c\<close>) is the C library of the ring 3 programs: strings, formatted output, input
  and the arena, over any kernel that answers system calls.


  \<^bold>\<open>Bounds and fuel.\<close>  Bounded C loops are recursions or folds over the same range.  Loops along FAT cluster chains take fuel; a read
  of \<open>len\<close> bytes is proved to end within \<open>len div 512 + 2\<close> rounds on a volume with non-empty clusters.  Loops that may run for ever
  are partial functions into \<open>option\<close> (response of the TPM, string scans, boot interaction), and that they return is proved where the
  input lets them.  The polling loops of the log-in recurse over the finite list of port readings and return \<open>None\<close> when it is used
  up.

  \<^bold>\<open>Not modelled.\<close>
  The boot protocol header \<^verbatim>\<open>limine.h\<close> and the generated program image \<^verbatim>\<open>user_init.bin.h\<close> hold no code; the image is an argument.
  The assembly files are represented by their effect on the state (\<^verbatim>\<open>task_switch\<close> in \<open>Sched\<close>).  The self tests and menus of
  \<^verbatim>\<open>main.c\<close> only call the components and print results.  The command interpreters \<^verbatim>\<open>shell.c\<close>, \<^verbatim>\<open>src/user/bin\<close> and the test
  program \<^verbatim>\<open>user.c\<close> compare a typed line with command names, call modelled operations and print fixed texts.
\<close>

end
